(* ===== verification/C_Prelude.thy ===== *)
theory C_Prelude
  imports Main "HOL-Library.Word"
begin

text \<open>
  What every component shares: the C integer types of the Darwin ABI (\<open>char\<close> and
  \<open>u_char\<close> as 8-bit words, \<open>wchar_t\<close> as a 32-bit word read with the signed
  comparisons, \<open>u_int\<close>, \<open>u_long\<close> and \<open>size_t\<close> as natural numbers where no
  wrap-around can matter), the \<open>errno\<close> values and kernel return codes, the lemmas on
  bits that decide word goals by going to their bits (\<open>bit_blast\<close>), and small facts on
  lists and options.
\<close>

unbundle bit_operations_syntax

section \<open>C types\<close>

type_synonym byte = "8 word"
type_synonym wchar = "32 word"

text \<open>The values of \<open>errno\<close>; \<open>ErrnoUnset\<close> is that of a call that fails and sets none.\<close>

datatype errno = EINVAL | EILSEQ | ENOMEM | EFTYPE | ENAMETOOLONG | ErrnoUnset

section \<open>Deciding word goals bit by bit\<close>

text \<open>
  A goal on words that are built from masks, shifts and conversions is decided by reading
  every bit: equations and comparisons of 8-bit and 32-bit words unfold to their bits, and
  \<open>bit_simps\<close> computes each bit.
\<close>

lemma take_bit_Suc_less:
  "take_bit (Suc k) (m::nat) < take_bit (Suc k) n \<longleftrightarrow>
     \<not> bit m k \<and> bit n k \<or> (bit m k \<longleftrightarrow> bit n k) \<and> take_bit k m < take_bit k n"
  using take_bit_nat_less_exp [of k m] take_bit_nat_less_exp [of k n]
  by (cases "bit m k"; cases "bit n k")
    (simp_all add: take_bit_Suc_from_most del: take_bit_nat_less_exp)

lemma mod_two_less:
  "(m::nat) mod Suc (Suc 0) < n mod Suc (Suc 0) \<longleftrightarrow> \<not> bit m 0 \<and> bit n 0"
  by (simp add: bit_0 flip: numeral_2_eq_2) presburger

lemma word_less_take_bit:
  "a < b \<longleftrightarrow> take_bit LENGTH('a) (unat a) < take_bit LENGTH('a) (unat b)"
  for a b :: "'a::len word"
  by (simp add: word_less_nat_alt take_bit_nat_eq_self)

lemma word8_bits:
  fixes a b :: "8 word"
  shows "a = b \<longleftrightarrow>
     bit a 0 = bit b 0 \<and> bit a 1 = bit b 1 \<and> bit a 2 = bit b 2 \<and> bit a 3 = bit b
     3 \<and> bit a 4 = bit b 4 \<and> bit a 5 = bit b 5 \<and> bit a 6 = bit b 6 \<and> bit a
     7 = bit b 7"
proof -
  have "a = b \<longleftrightarrow> (\<forall>i \<in> set [0..<8]. bit a i = bit b i)"
    by (auto intro: bit_word_eqI)
  then show ?thesis
    by (simp add: upt_rec eval_nat_numeral del: set_upt)
qed

lemma word32_bits:
  fixes a b :: "32 word"
  shows "a = b \<longleftrightarrow>
     bit a 0 = bit b 0 \<and> bit a 1 = bit b 1 \<and> bit a 2 = bit b 2 \<and> bit a 3 = bit b
     3 \<and> bit a 4 = bit b 4 \<and> bit a 5 = bit b 5 \<and> bit a 6 = bit b 6 \<and> bit a
     7 = bit b 7 \<and> bit a 8 = bit b 8 \<and> bit a 9 = bit b 9 \<and> bit a 10 = bit b 10
     \<and> bit a 11 = bit b 11 \<and> bit a 12 = bit b 12 \<and> bit a 13 = bit b 13 \<and>
     bit a 14 = bit b 14 \<and> bit a 15 = bit b 15 \<and> bit a 16 = bit b 16 \<and> bit a 17
     = bit b 17 \<and> bit a 18 = bit b 18 \<and> bit a 19 = bit b 19 \<and> bit a 20 = bit b
     20 \<and> bit a 21 = bit b 21 \<and> bit a 22 = bit b 22 \<and> bit a 23 = bit b 23 \<and>
     bit a 24 = bit b 24 \<and> bit a 25 = bit b 25 \<and> bit a 26 = bit b 26 \<and> bit a 27
     = bit b 27 \<and> bit a 28 = bit b 28 \<and> bit a 29 = bit b 29 \<and> bit a 30 = bit b
     30 \<and> bit a 31 = bit b 31"
proof -
  have "a = b \<longleftrightarrow> (\<forall>i \<in> set [0..<32]. bit a i = bit b i)"
    by (auto intro: bit_word_eqI)
  then show ?thesis
    by (simp add: upt_rec eval_nat_numeral del: set_upt)
qed

lemma word8_less_bits:
  fixes a b :: "8 word"
  shows "a < b \<longleftrightarrow>
     \<not> bit a 7 \<and> bit b 7 \<or> (bit a 7 \<longleftrightarrow> bit b 7) \<and> (\<not>
     bit a 6 \<and> bit b 6 \<or> (bit a 6 \<longleftrightarrow> bit b 6) \<and> (\<not> bit a
     5 \<and> bit b 5 \<or> (bit a 5 \<longleftrightarrow> bit b 5) \<and> (\<not> bit a 4
     \<and> bit b 4 \<or> (bit a 4 \<longleftrightarrow> bit b 4) \<and> (\<not> bit a 3 \<and>
     bit b 3 \<or> (bit a 3 \<longleftrightarrow> bit b 3) \<and> (\<not> bit a 2 \<and> bit b
     2 \<or> (bit a 2 \<longleftrightarrow> bit b 2) \<and> (\<not> bit a 1 \<and> bit b 1
     \<or> (bit a 1 \<longleftrightarrow> bit b 1) \<and> (\<not> bit a 0 \<and> bit b 0)))))))"
  unfolding word_less_take_bit
  by (simp add: take_bit_Suc_less eval_nat_numeral bit_unsigned_iff mod_two_less)

lemma word8_le_bits:
  fixes a b :: "8 word"
  shows "a \<le> b \<longleftrightarrow> \<not> (
     \<not> bit b 7 \<and> bit a 7 \<or> (bit b 7 \<longleftrightarrow> bit a 7) \<and> (\<not>
     bit b 6 \<and> bit a 6 \<or> (bit b 6 \<longleftrightarrow> bit a 6) \<and> (\<not> bit b
     5 \<and> bit a 5 \<or> (bit b 5 \<longleftrightarrow> bit a 5) \<and> (\<not> bit b 4
     \<and> bit a 4 \<or> (bit b 4 \<longleftrightarrow> bit a 4) \<and> (\<not> bit b 3 \<and>
     bit a 3 \<or> (bit b 3 \<longleftrightarrow> bit a 3) \<and> (\<not> bit b 2 \<and> bit a
     2 \<or> (bit b 2 \<longleftrightarrow> bit a 2) \<and> (\<not> bit b 1 \<and> bit a 1
     \<or> (bit b 1 \<longleftrightarrow> bit a 1) \<and> (\<not> bit b 0 \<and> bit a 0))))))))"
  by (simp only: word8_less_bits flip: not_less)

lemma word32_less_bits:
  fixes a b :: "32 word"
  shows "a < b \<longleftrightarrow>
     \<not> bit a 31 \<and> bit b 31 \<or> (bit a 31 \<longleftrightarrow> bit b 31) \<and>
     (\<not> bit a 30 \<and> bit b 30 \<or> (bit a 30 \<longleftrightarrow> bit b 30) \<and>
     (\<not> bit a 29 \<and> bit b 29 \<or> (bit a 29 \<longleftrightarrow> bit b 29) \<and>
     (\<not> bit a 28 \<and> bit b 28 \<or> (bit a 28 \<longleftrightarrow> bit b 28) \<and>
     (\<not> bit a 27 \<and> bit b 27 \<or> (bit a 27 \<longleftrightarrow> bit b 27) \<and>
     (\<not> bit a 26 \<and> bit b 26 \<or> (bit a 26 \<longleftrightarrow> bit b 26) \<and>
     (\<not> bit a 25 \<and> bit b 25 \<or> (bit a 25 \<longleftrightarrow> bit b 25) \<and>
     (\<not> bit a 24 \<and> bit b 24 \<or> (bit a 24 \<longleftrightarrow> bit b 24) \<and>
     (\<not> bit a 23 \<and> bit b 23 \<or> (bit a 23 \<longleftrightarrow> bit b 23) \<and>
     (\<not> bit a 22 \<and> bit b 22 \<or> (bit a 22 \<longleftrightarrow> bit b 22) \<and>
     (\<not> bit a 21 \<and> bit b 21 \<or> (bit a 21 \<longleftrightarrow> bit b 21) \<and>
     (\<not> bit a 20 \<and> bit b 20 \<or> (bit a 20 \<longleftrightarrow> bit b 20) \<and>
     (\<not> bit a 19 \<and> bit b 19 \<or> (bit a 19 \<longleftrightarrow> bit b 19) \<and>
     (\<not> bit a 18 \<and> bit b 18 \<or> (bit a 18 \<longleftrightarrow> bit b 18) \<and>
     (\<not> bit a 17 \<and> bit b 17 \<or> (bit a 17 \<longleftrightarrow> bit b 17) \<and>
     (\<not> bit a 16 \<and> bit b 16 \<or> (bit a 16 \<longleftrightarrow> bit b 16) \<and>
     (\<not> bit a 15 \<and> bit b 15 \<or> (bit a 15 \<longleftrightarrow> bit b 15) \<and>
     (\<not> bit a 14 \<and> bit b 14 \<or> (bit a 14 \<longleftrightarrow> bit b 14) \<and>
     (\<not> bit a 13 \<and> bit b 13 \<or> (bit a 13 \<longleftrightarrow> bit b 13) \<and>
     (\<not> bit a 12 \<and> bit b 12 \<or> (bit a 12 \<longleftrightarrow> bit b 12) \<and>
     (\<not> bit a 11 \<and> bit b 11 \<or> (bit a 11 \<longleftrightarrow> bit b 11) \<and>
     (\<not> bit a 10 \<and> bit b 10 \<or> (bit a 10 \<longleftrightarrow> bit b 10) \<and>
     (\<not> bit a 9 \<and> bit b 9 \<or> (bit a 9 \<longleftrightarrow> bit b 9) \<and>
     (\<not> bit a 8 \<and> bit b 8 \<or> (bit a 8 \<longleftrightarrow> bit b 8) \<and>
     (\<not> bit a 7 \<and> bit b 7 \<or> (bit a 7 \<longleftrightarrow> bit b 7) \<and>
     (\<not> bit a 6 \<and> bit b 6 \<or> (bit a 6 \<longleftrightarrow> bit b 6) \<and>
     (\<not> bit a 5 \<and> bit b 5 \<or> (bit a 5 \<longleftrightarrow> bit b 5) \<and>
     (\<not> bit a 4 \<and> bit b 4 \<or> (bit a 4 \<longleftrightarrow> bit b 4) \<and>
     (\<not> bit a 3 \<and> bit b 3 \<or> (bit a 3 \<longleftrightarrow> bit b 3) \<and>
     (\<not> bit a 2 \<and> bit b 2 \<or> (bit a 2 \<longleftrightarrow> bit b 2) \<and>
     (\<not> bit a 1 \<and> bit b 1 \<or> (bit a 1 \<longleftrightarrow> bit b 1) \<and>
     (\<not> bit a 0 \<and> bit b 0)))))))))))))))))))))))))))))))"
  unfolding word_less_take_bit
  by (simp add: take_bit_Suc_less eval_nat_numeral bit_unsigned_iff mod_two_less)

lemma word32_le_bits:
  fixes a b :: "32 word"
  shows "a \<le> b \<longleftrightarrow> \<not> (
     \<not> bit b 31 \<and> bit a 31 \<or> (bit b 31 \<longleftrightarrow> bit a 31) \<and>
     (\<not> bit b 30 \<and> bit a 30 \<or> (bit b 30 \<longleftrightarrow> bit a 30) \<and>
     (\<not> bit b 29 \<and> bit a 29 \<or> (bit b 29 \<longleftrightarrow> bit a 29) \<and>
     (\<not> bit b 28 \<and> bit a 28 \<or> (bit b 28 \<longleftrightarrow> bit a 28) \<and>
     (\<not> bit b 27 \<and> bit a 27 \<or> (bit b 27 \<longleftrightarrow> bit a 27) \<and>
     (\<not> bit b 26 \<and> bit a 26 \<or> (bit b 26 \<longleftrightarrow> bit a 26) \<and>
     (\<not> bit b 25 \<and> bit a 25 \<or> (bit b 25 \<longleftrightarrow> bit a 25) \<and>
     (\<not> bit b 24 \<and> bit a 24 \<or> (bit b 24 \<longleftrightarrow> bit a 24) \<and>
     (\<not> bit b 23 \<and> bit a 23 \<or> (bit b 23 \<longleftrightarrow> bit a 23) \<and>
     (\<not> bit b 22 \<and> bit a 22 \<or> (bit b 22 \<longleftrightarrow> bit a 22) \<and>
     (\<not> bit b 21 \<and> bit a 21 \<or> (bit b 21 \<longleftrightarrow> bit a 21) \<and>
     (\<not> bit b 20 \<and> bit a 20 \<or> (bit b 20 \<longleftrightarrow> bit a 20) \<and>
     (\<not> bit b 19 \<and> bit a 19 \<or> (bit b 19 \<longleftrightarrow> bit a 19) \<and>
     (\<not> bit b 18 \<and> bit a 18 \<or> (bit b 18 \<longleftrightarrow> bit a 18) \<and>
     (\<not> bit b 17 \<and> bit a 17 \<or> (bit b 17 \<longleftrightarrow> bit a 17) \<and>
     (\<not> bit b 16 \<and> bit a 16 \<or> (bit b 16 \<longleftrightarrow> bit a 16) \<and>
     (\<not> bit b 15 \<and> bit a 15 \<or> (bit b 15 \<longleftrightarrow> bit a 15) \<and>
     (\<not> bit b 14 \<and> bit a 14 \<or> (bit b 14 \<longleftrightarrow> bit a 14) \<and>
     (\<not> bit b 13 \<and> bit a 13 \<or> (bit b 13 \<longleftrightarrow> bit a 13) \<and>
     (\<not> bit b 12 \<and> bit a 12 \<or> (bit b 12 \<longleftrightarrow> bit a 12) \<and>
     (\<not> bit b 11 \<and> bit a 11 \<or> (bit b 11 \<longleftrightarrow> bit a 11) \<and>
     (\<not> bit b 10 \<and> bit a 10 \<or> (bit b 10 \<longleftrightarrow> bit a 10) \<and>
     (\<not> bit b 9 \<and> bit a 9 \<or> (bit b 9 \<longleftrightarrow> bit a 9) \<and>
     (\<not> bit b 8 \<and> bit a 8 \<or> (bit b 8 \<longleftrightarrow> bit a 8) \<and>
     (\<not> bit b 7 \<and> bit a 7 \<or> (bit b 7 \<longleftrightarrow> bit a 7) \<and>
     (\<not> bit b 6 \<and> bit a 6 \<or> (bit b 6 \<longleftrightarrow> bit a 6) \<and>
     (\<not> bit b 5 \<and> bit a 5 \<or> (bit b 5 \<longleftrightarrow> bit a 5) \<and>
     (\<not> bit b 4 \<and> bit a 4 \<or> (bit b 4 \<longleftrightarrow> bit a 4) \<and>
     (\<not> bit b 3 \<and> bit a 3 \<or> (bit b 3 \<longleftrightarrow> bit a 3) \<and>
     (\<not> bit b 2 \<and> bit a 2 \<or> (bit b 2 \<longleftrightarrow> bit a 2) \<and>
     (\<not> bit b 1 \<and> bit a 1 \<or> (bit b 1 \<longleftrightarrow> bit a 1) \<and>
     (\<not> bit b 0 \<and> bit a 0))))))))))))))))))))))))))))))))"
  by (simp only: word32_less_bits flip: not_less)

lemma word8_sless_bits:
  fixes a b :: "8 word"
  shows "a <s b \<longleftrightarrow> bit a 7 \<and> \<not> bit b 7 \<or> (bit a 7 \<longleftrightarrow> bit b 7) \<and> a < b"
proof -
  have "sint c = uint c - (if bit c 7 then 2 ^ 8 else 0)" for c :: "8 word"
    using uint_bounded [of c]
    by (simp add: sint_uint signed_take_bit_eq_take_bit_minus bit_uint_iff take_bit_int_eq_self_iff)
  moreover have "0 \<le> uint c \<and> uint c < 2 ^ 8" for c :: "8 word"
    using uint_bounded [of c] by simp
  ultimately show ?thesis
    unfolding word_sless_alt word_less_def
    by (smt (verit))
qed

lemma word32_sless_bits:
  fixes a b :: "32 word"
  shows "a <s b \<longleftrightarrow> bit a 31 \<and> \<not> bit b 31 \<or> (bit a 31 \<longleftrightarrow> bit b 31) \<and> a < b"
proof -
  have "sint c = uint c - (if bit c 31 then 2 ^ 32 else 0)" for c :: "32 word"
    using uint_bounded [of c]
    by (simp add: sint_uint signed_take_bit_eq_take_bit_minus bit_uint_iff take_bit_int_eq_self_iff)
  moreover have "0 \<le> uint c \<and> uint c < 2 ^ 32" for c :: "32 word"
    using uint_bounded [of c] by simp
  ultimately show ?thesis
    unfolding word_sless_alt word_less_def
    by (smt (verit))
qed

lemma word32_sle_bits:
  fixes a b :: "32 word"
  shows "a \<le>s b \<longleftrightarrow> \<not> (bit b 31 \<and> \<not> bit a 31 \<or> (bit b 31 \<longleftrightarrow> bit a 31) \<and> b < a)"
  by (simp only: word32_sless_bits flip: signed.not_less)

lemma byte_no_bit: "8 \<le> n \<Longrightarrow> \<not> bit (c :: byte) n"
  using bit_imp_le_length [of c n] by auto

lemma wchar_no_bit: "32 \<le> n \<Longrightarrow> \<not> bit (c :: wchar) n"
  using bit_imp_le_length [of c n] by auto

lemmas bit_blast =
  word8_bits word32_bits word8_less_bits word8_le_bits word32_less_bits word32_le_bits
  word8_sless_bits word32_sless_bits word32_sle_bits bit_simps byte_no_bit
  wchar_no_bit

section \<open>Lists and options\<close>

lemma append_eq_take_drop: "k \<le> length s \<Longrightarrow> s = take k s @ drop k s"
  by simp

definition opt_list :: "'a option \<Rightarrow> 'a list" where
  \<comment> \<open>what a pointer that may not have been written through adds to a buffer\<close>
  "opt_list x = (case x of None \<Rightarrow> [] | Some y \<Rightarrow> [y])"

lemma opt_list_simps [simp]: "opt_list None = []" "opt_list (Some y) = [y]"
  by (simp_all add: opt_list_def)

lemma length_opt_list [simp]: "length (opt_list x) = (if x = None then 0 else 1)"
  by (cases x) simp_all

end
