(* ===== verification/Mb_Codec.thy ===== *)
theory Mb_Codec
  imports C_Prelude
begin

text \<open>
  The multibyte conversion layer of \<open>libsystem_c\<close> that is common to all encodings: the
  results of the per-encoding functions, the run-time locale record that holds them
  (\<open>struct __xlocale_st_runelocale\<close>), the generic string conversions
  \<open>__mbsnrtowcs_std\<close> and \<open>__wcsnrtombs_std\<close>, and the contract an encoding owes
  them, stated as the locales \<open>mb_decoder\<close>, \<open>mb_codec\<close> and \<open>mb_strict_codec\<close>.

  An input string with its length \<open>n\<close> is the list of its \<open>n\<close> bytes, \<open>None\<close> is a
  null pointer. What a call writes through \<open>pwc\<close> or \<open>s\<close> is returned as a value, with
  \<open>None\<close> or \<open>[]\<close> for "not written"; a caller that passed a null \<open>pwc\<close> drops it.
\<close>

section \<open>Results of the per-encoding functions\<close>

text \<open>
  The \<open>size_t\<close> that \<open>mbrtowc\<close> returns: \<open>(size_t)-1\<close> with \<open>errno\<close> set,
  \<open>(size_t)-2\<close> for an incomplete character, or the number of bytes it used.
\<close>

datatype mb_ret = MbErr errno | MbIncomplete | MbLen nat

type_synonym 's mbrtowc_fn = "byte list option \<Rightarrow> 's \<Rightarrow> mb_ret \<times> wchar option \<times> 's"
type_synonym 's wcrtomb_fn = "bool \<Rightarrow> wchar \<Rightarrow> 's \<Rightarrow> (errno + nat) \<times> byte list \<times> 's"

text \<open>
  Where a string conversion leaves \<open>*src\<close>: a null pointer once the terminator has been
  converted, otherwise an offset from its old value (0 when it is not touched).
\<close>

datatype src_ptr = SrcAt nat | SrcNull

text \<open>
  The result of a string conversion: the returned count or error, what was written to
  \<open>dst\<close>, \<open>*src\<close> and the conversion state. \<open>None\<close> stands for an access outside the
  \<open>nms\<close> bytes of the input.
\<close>

type_synonym ('out, 's) conv_result = "(errno + nat) \<times> 'out list \<times> src_ptr \<times> 's"

type_synonym 's mbsnrtowcs_fn =
  "bool \<Rightarrow> byte list \<Rightarrow> nat \<Rightarrow> 's \<Rightarrow> (wchar, 's) conv_result option"
type_synonym 's wcsnrtombs_fn =
  "bool \<Rightarrow> wchar list \<Rightarrow> nat \<Rightarrow> 's \<Rightarrow> (byte, 's) conv_result"

text \<open>The encoding part of \<open>struct __xlocale_st_runelocale\<close>; \<open>None\<close> is a null pointer.\<close>

record 's runelocale =
  rl_mb_cur_max :: int
  rl_mb_sb_limit :: int
  rl_mbrtowc :: "'s mbrtowc_fn option"
  rl_mbsinit :: "('s option \<Rightarrow> bool) option"
  rl_mbsnrtowcs :: "'s mbsnrtowcs_fn option"
  rl_wcrtomb :: "'s wcrtomb_fn option"
  rl_wcsnrtombs :: "'s wcsnrtombs_fn option"

section \<open>\<open>__mbsnrtowcs_std\<close>\<close>

text \<open>The loop for a null \<open>dst\<close>: count the characters up to the terminator or the end.\<close>

function mbs_count :: "'s mbrtowc_fn \<Rightarrow> byte list \<Rightarrow> 's \<Rightarrow> nat \<Rightarrow>
    ((errno + nat) \<times> 's) option" where
  "mbs_count mbrtowc s st nchr =
     (case mbrtowc (Some s) st of
        (MbErr e, _, st') \<Rightarrow> Some (Inl e, st')
      | (MbIncomplete, _, st') \<Rightarrow> Some (Inr nchr, st')
      | (MbLen nb, _, st') \<Rightarrow>
          if nb = 0 then Some (Inr nchr, st')
          else if nb \<le> length s then mbs_count mbrtowc (drop nb s) st' (nchr + 1)
          else None)"
  by pat_completeness auto
termination
  by (relation "measure (\<lambda>(f, s, st, n). length s)") auto

declare mbs_count.simps [simp del]

text \<open>The loop for a non-null \<open>dst\<close> with room for \<open>len\<close> wide characters.\<close>

fun mbs_convert :: "'s mbrtowc_fn \<Rightarrow> nat \<Rightarrow> byte list \<Rightarrow> nat \<Rightarrow> 's \<Rightarrow> nat \<Rightarrow> wchar list \<Rightarrow>
    (wchar, 's) conv_result option" where
  "mbs_convert mbrtowc 0 s off st nchr dst = Some (Inr nchr, dst, SrcAt off, st)"
| "mbs_convert mbrtowc (Suc len) s off st nchr dst =
     (case mbrtowc (Some s) st of
        (MbErr e, w, st') \<Rightarrow> Some (Inl e, dst @ opt_list w, SrcAt off, st')
      | (MbIncomplete, w, st') \<Rightarrow>
          Some (Inr nchr, dst @ opt_list w, SrcAt (off + length s), st')
      | (MbLen nb, w, st') \<Rightarrow>
          if nb = 0 then Some (Inr nchr, dst @ opt_list w, SrcNull, st')
          else if nb \<le> length s then
            mbs_convert mbrtowc len (drop nb s) (off + nb) st' (nchr + 1) (dst @ opt_list w)
          else None)"

definition mbsnrtowcs_std :: "'s mbrtowc_fn \<Rightarrow> 's mbsnrtowcs_fn" where
  "mbsnrtowcs_std mbrtowc has_dst s len st =
     (if has_dst then mbs_convert mbrtowc len s 0 st 0 []
      else map_option (\<lambda>(r, st'). (r, [], SrcAt 0, st')) (mbs_count mbrtowc s st 0))"

section \<open>\<open>__wcsnrtombs_std\<close>\<close>

text \<open>The loop for a null \<open>dst\<close>; the list holds the \<open>nwc\<close> wide characters at \<open>*src\<close>.\<close>

fun wcs_count :: "'s wcrtomb_fn \<Rightarrow> wchar list \<Rightarrow> 's \<Rightarrow> nat \<Rightarrow> (errno + nat) \<times> 's" where
  "wcs_count wcrtomb [] st nbytes = (Inr nbytes, st)"
| "wcs_count wcrtomb (wc # s) st nbytes =
     (case wcrtomb True wc st of
        (Inl e, _, st') \<Rightarrow> (Inl e, st')
      | (Inr nb, _, st') \<Rightarrow>
          if wc = 0 then (Inr (nbytes + nb - 1), st')
          else wcs_count wcrtomb s st' (nbytes + nb))"

text \<open>
  The loop for a non-null \<open>dst\<close> with room for \<open>len\<close> bytes. With more than
  \<open>mb_cur_max\<close> bytes left the character is converted in place, so that even the bytes
  of a failing call show in \<open>dst\<close>; otherwise it goes through a temporary buffer and the
  saved state is restored when it does not fit.
\<close>

fun wcs_convert :: "'s wcrtomb_fn \<Rightarrow> nat \<Rightarrow> wchar list \<Rightarrow> nat \<Rightarrow> nat \<Rightarrow> 's \<Rightarrow> nat \<Rightarrow> byte list \<Rightarrow>
    (byte, 's) conv_result" where
  "wcs_convert wcrtomb mb_cur_max [] off len st nbytes dst = (Inr nbytes, dst, SrcAt off, st)"
| "wcs_convert wcrtomb mb_cur_max (wc # s) off len st nbytes dst =
     (if len = 0 then (Inr nbytes, dst, SrcAt off, st)
      else if len > mb_cur_max then
        (case wcrtomb True wc st of
           (Inl e, bs, st') \<Rightarrow> (Inl e, dst @ bs, SrcAt off, st')
         | (Inr nb, bs, st') \<Rightarrow>
             if wc = 0 then (Inr (nbytes + nb - 1), dst @ bs, SrcNull, st')
             else wcs_convert wcrtomb mb_cur_max s (off + 1) (len - nb) st' (nbytes + nb)
                    (dst @ bs))
      else
        (case wcrtomb True wc st of
           (Inl e, _, st') \<Rightarrow> (Inl e, dst, SrcAt off, st')
         | (Inr nb, bs, st') \<Rightarrow>
             if nb > len then (Inr nbytes, dst, SrcAt off, st)
             else if wc = 0 then (Inr (nbytes + nb - 1), dst @ bs, SrcNull, st')
             else wcs_convert wcrtomb mb_cur_max s (off + 1) (len - nb) st' (nbytes + nb)
                    (dst @ bs)))"

lemma wcs_convert_no_room [simp]:
  "wcs_convert wcrtomb mb_cur_max s off 0 st n dst = (Inr n, dst, SrcAt off, st)"
  by (cases s) simp_all

definition wcsnrtombs_std :: "'s wcrtomb_fn \<Rightarrow> nat \<Rightarrow> 's wcsnrtombs_fn" where
  "wcsnrtombs_std wcrtomb mb_cur_max has_dst s len st =
     (if has_dst then wcs_convert wcrtomb mb_cur_max s 0 len st 0 []
      else (case wcs_count wcrtomb s st 0 of (r, st') \<Rightarrow> (r, [], SrcAt 0, st')))"

section \<open>The contract of a decoder\<close>

text \<open>
  The conversion state of a decoder stands for the bytes of a character that has been seen
  in part: \<open>rep st p\<close> says that \<open>st\<close> has taken in the bytes \<open>p\<close>. \<open>dec\<close> is the
  encoding without state: what decoding the first character of a string gives.
  The contract: from a state that stands for \<open>p\<close>, \<open>mbrtowc\<close> on \<open>s\<close> is \<open>dec\<close> on
  \<open>p @ s\<close>, less the bytes that were counted before.
\<close>

fun resume :: "nat \<Rightarrow> mb_ret \<Rightarrow> mb_ret" where
  "resume k (MbErr e) = MbErr e"
| "resume k MbIncomplete = MbIncomplete"
| "resume k (MbLen n) = MbLen (n - k)"

lemma resume_0 [simp]: "resume 0 r = r"
  by (cases r) simp_all

locale mb_decoder =
  fixes mbrtowc :: "'s mbrtowc_fn"
    and dec :: "byte list \<Rightarrow> mb_ret \<times> wchar option"
    and rep :: "'s \<Rightarrow> byte list \<Rightarrow> bool"
  assumes dec_rep: "rep st p \<Longrightarrow> dec p = (MbIncomplete, None)"
    and dec_len: "dec s = (MbLen n, w) \<Longrightarrow>
      n \<le> length s \<and> (\<exists>c. w = Some c \<and> (n = 0 \<longleftrightarrow> c = 0))"
    and dec_take: "dec s = (MbLen n, w) \<Longrightarrow> n \<noteq> 0 \<Longrightarrow> dec (take n s) = (MbLen n, w)"
    and dec_ext: "fst (dec s) \<noteq> MbIncomplete \<Longrightarrow> dec (s @ t) = dec s"
    and dec_fail: "dec s = (r, w) \<Longrightarrow> r = MbIncomplete \<or> r = MbErr e \<Longrightarrow> w = None"
    and step: "rep st p \<Longrightarrow> dec (p @ s) = (r, w) \<Longrightarrow>
      \<exists>st'. mbrtowc (Some s) st = (resume (length p) r, w, st') \<and>
        (r = MbIncomplete \<longrightarrow> rep st' (p @ s)) \<and> ((\<exists>n. r = MbLen n) \<longrightarrow> rep st' [])"
begin

lemma dec_beyond: "rep st p \<Longrightarrow> dec (p @ s) = (MbLen n, w) \<Longrightarrow> n \<noteq> 0 \<Longrightarrow> length p < n"
  using dec_ext [of "take n (p @ s)" "drop n p"] dec_take [of "p @ s" n w] dec_rep [of st p]
  by (metis append_take_drop_id diff_is_0_eq fst_conv leI mb_ret.distinct(5)
      self_append_conv take_append take_eq_Nil)

text \<open>The ways a call can go, in terms of the bytes seen so far.\<close>

lemma step_cases:
  assumes "rep st p"
  obtains (err) e st' where "dec (p @ s) = (MbErr e, None)"
      "mbrtowc (Some s) st = (MbErr e, None, st')"
  | (more) st' where "dec (p @ s) = (MbIncomplete, None)"
      "mbrtowc (Some s) st = (MbIncomplete, None, st')" "rep st' (p @ s)"
  | (nul) st' where "dec (p @ s) = (MbLen 0, Some 0)"
      "mbrtowc (Some s) st = (MbLen 0, Some 0, st')" "rep st' []"
  | (char) n c st' where "dec (p @ s) = (MbLen (length p + n), Some c)" "0 < n" "c \<noteq> 0"
      "n \<le> length s" "mbrtowc (Some s) st = (MbLen n, Some c, st')" "rep st' []"
proof -
  obtain r w where d: "dec (p @ s) = (r, w)" by fastforce
  from step [OF assms d] obtain st' where
    m: "mbrtowc (Some s) st = (resume (length p) r, w, st')"
      "r = MbIncomplete \<Longrightarrow> rep st' (p @ s)" "(\<exists>n. r = MbLen n) \<Longrightarrow> rep st' []"
    by blast
  show thesis
  proof (cases r)
    case (MbErr e)
    with d dec_fail [OF d] m show ?thesis by (auto intro: err)
  next
    case MbIncomplete
    with d dec_fail [OF d] m show ?thesis by (auto intro: more)
  next
    case (MbLen n)
    with d dec_len [of "p @ s" n w] obtain c where
      c: "w = Some c" "n = 0 \<longleftrightarrow> c = 0" "n \<le> length (p @ s)" by auto
    show ?thesis
    proof (cases "n = 0")
      case True
      with MbLen c d m show ?thesis by (auto intro: nul)
    next
      case False
      with dec_beyond [OF assms, of s n w] d MbLen have "length p < n" by simp
      with False MbLen c d m show ?thesis by (auto intro!: char [of "n - length p"])
    qed
  qed
qed

lemma mbrtowc_empty:
  assumes "rep st p"
  obtains st' where "mbrtowc (Some []) st = (MbIncomplete, None, st')" "rep st' p"
  using step [OF assms, of "[]"] dec_rep [OF assms] by auto

text \<open>
  Restarting: a character cut in two anywhere is decoded as if it had come in one piece.
\<close>

lemma restart:
  assumes st: "rep st p" and inc: "mbrtowc (Some xs) st = (MbIncomplete, w, st')"
    and all: "mbrtowc (Some (xs @ ys)) st = (r, c, st1)"
  shows "\<exists>st2. mbrtowc (Some ys) st' = (resume (length xs) r, c, st2) \<and>
    (r = MbIncomplete \<longrightarrow> rep st1 (p @ xs @ ys) \<and> rep st2 (p @ xs @ ys)) \<and>
    ((\<exists>n. r = MbLen n) \<longrightarrow> rep st1 [] \<and> rep st2 [])"
proof -
  from st have st': "rep st' (p @ xs)"
    using inc by (cases rule: step_cases [where s = xs]) auto
  from st' obtain r2 c2 st2 where m2: "mbrtowc (Some ys) st' = (r2, c2, st2)"
    by (metis prod_cases3)
  from st' show ?thesis
  proof (cases rule: step_cases [where s = ys])
    case (err e)
    with st all show ?thesis by (cases rule: step_cases [where s = "xs @ ys"]) auto
  next
    case more
    with st all show ?thesis by (cases rule: step_cases [where s = "xs @ ys"]) auto
  next
    case nul
    with st all show ?thesis by (cases rule: step_cases [where s = "xs @ ys"]) auto
  next
    case (char n c)
    with st all show ?thesis by (cases rule: step_cases [where s = "xs @ ys"]) auto
  qed
qed

end

section \<open>String decoding under the contract\<close>

text \<open>What a caller sees of a string conversion; after an error \<open>*src\<close> is left out.\<close>

fun conv_view :: "('o, 's) conv_result option \<Rightarrow> ((errno + nat) \<times> 'o list \<times> src_ptr option) option" where
  "conv_view None = None"
| "conv_view (Some (Inl e, d, src, st)) = Some (Inl e, d, None)"
| "conv_view (Some (Inr n, d, src, st)) = Some (Inr n, d, Some src)"

lemma mbs_count_convert:
  "mbs_count mbrtowc s st n = Some (Inr m, st') \<Longrightarrow> m \<le> n + len \<Longrightarrow>
    n \<le> m \<and> (\<exists>d src st''. mbs_convert mbrtowc len s off st n dst = Some (Inr m, d, src, st''))"
proof (induction mbrtowc s st n arbitrary: len off dst rule: mbs_count.induct)
  case (1 mbrtowc s st n)
  obtain r w st1 where m: "mbrtowc (Some s) st = (r, w, st1)" by (metis prod_cases3)
  show ?case
  proof (cases "\<exists>nb. r = MbLen nb \<and> nb \<noteq> 0")
    case True
    then obtain nb where nb: "r = MbLen nb" "nb \<noteq> 0" by blast
    with "1.prems" m have s: "nb \<le> length s"
      and rest: "mbs_count mbrtowc (drop nb s) st1 (n + 1) = Some (Inr m, st')"
      by (auto simp: mbs_count.simps [of mbrtowc s] split: if_splits)
    note IH = "1.IH" [OF m [symmetric] nb(1) refl nb(2) s rest]
    from IH [of m] have "n + 1 \<le> m" by simp
    with "1.prems"(2) obtain k where k: "len = Suc k" by (cases len) auto
    show ?thesis using IH [of k] "1.prems"(2) m nb s k by (auto intro: Suc_leD)
  next
    case False
    with "1.prems" m show ?thesis
      by (cases len) (auto simp: mbs_count.simps [of mbrtowc s] split: mb_ret.splits if_splits)
  qed
qed

context mb_decoder
begin

text \<open>Which of the states that stand for the same bytes a conversion starts from does not matter.\<close>

lemma convert_same_rep:
  "rep st p \<Longrightarrow> rep st2 p \<Longrightarrow>
    conv_view (mbs_convert mbrtowc len s off st n dst) =
    conv_view (mbs_convert mbrtowc len s off st2 n dst)"
proof (induction len arbitrary: s off st st2 n dst p)
  case 0
  then show ?case by simp
next
  case (Suc len)
  from Suc.prems(1) show ?case
  proof (cases rule: step_cases [where s = s])
    case (char k c st')
    from Suc.prems(2) char show ?thesis
      by (cases rule: step_cases [where s = s]) (auto intro: Suc.IH)
  qed (use Suc.prems(2) in \<open>cases rule: step_cases [where s = s]; auto\<close>)+
qed

text \<open>A conversion never reads outside its input.\<close>

lemma convert_in_bounds:
  "rep st p \<Longrightarrow> \<exists>r. mbs_convert mbrtowc len s off st n dst = Some r"
proof (induction len arbitrary: s off st n dst p)
  case 0
  then show ?case by simp
next
  case (Suc len)
  from Suc.prems show ?case
    by (cases rule: step_cases [where s = s]) (auto intro: Suc.IH simp del: split_paired_Ex)
qed

lemma count_in_bounds:
  "rep st p \<Longrightarrow> \<exists>r. mbs_count mbrtowc s st n = Some r"
proof (induction "length s" arbitrary: s st n p rule: less_induct)
  case less
  from less.prems show ?case
  proof (cases rule: step_cases [where s = s])
    case (char k c st')
    with less.hyps [of "drop k s" st' "[]" "n + 1"] show ?thesis
      by (auto simp: mbs_count.simps [of mbrtowc s])
  qed (auto simp: mbs_count.simps [of mbrtowc s])
qed

text \<open>
  Streaming: when a first chunk \<open>xs\<close> has been taken in completely, converting the second
  chunk from the state it left gives what converting both at once gives.
\<close>

lemma convert_chunks:
  assumes "rep st p"
    and "mbs_convert mbrtowc len xs off st n dst = Some (Inr m, d, SrcAt (off + length xs), st1)"
  shows "n \<le> m \<and> conv_view (mbs_convert mbrtowc len (xs @ ys) off st n dst) =
    conv_view (mbs_convert mbrtowc (len - (m - n)) ys (off + length xs) st1 m d)"
  using assms
proof (induction len arbitrary: xs off st n dst p)
  case 0
  then show ?case by simp
next
  case (Suc len)
  obtain r c st2 where all: "mbrtowc (Some (xs @ ys)) st = (r, c, st2)" by (metis prod_cases3)
  from Suc.prems(1) show ?case
  proof (cases rule: step_cases [where s = xs])
    case (err e st')
    with Suc.prems(2) show ?thesis by simp
  next
    case (nul st')
    with Suc.prems(2) show ?thesis by simp
  next
    case (char k c' st')
    have ext: "dec (p @ xs @ ys) = dec (p @ xs)"
      using dec_ext [of "p @ xs" ys] char(1) by simp
    from Suc.prems(1) obtain st'' where one: "mbrtowc (Some (xs @ ys)) st = (MbLen k, Some c', st'')" "rep st'' []"
      using ext char by (cases rule: step_cases [where s = "xs @ ys"]) auto
    from Suc.prems(2) char have rest: "mbs_convert mbrtowc len (drop k xs) (off + k) st' (n + 1) (dst @ [c']) =
      Some (Inr m, d, SrcAt (off + k + length (drop k xs)), st1)" by simp
    from Suc.IH [OF char(6) rest]
    have IH: "n + 1 \<le> m" "conv_view (mbs_convert mbrtowc len (drop k xs @ ys) (off + k) st' (n + 1) (dst @ [c'])) =
      conv_view (mbs_convert mbrtowc (len - (m - (n + 1))) ys (off + length xs) st1 m d)"
      using char by simp_all
    with one char convert_same_rep [OF one(2) char(6), of len "drop k xs @ ys" "off + k" "n + 1" "dst @ [c']"]
    show ?thesis by simp
  next
    case (more st')
    with Suc.prems(2) have eqs: "m = n" "d = dst" "st1 = st'" by simp_all
    from restart [OF Suc.prems(1) more(2) all] obtain st3 where
      two: "mbrtowc (Some ys) st' = (resume (length xs) r, c, st3)" "(\<exists>k. r = MbLen k) \<longrightarrow> rep st2 [] \<and> rep st3 []"
      by blast
    from Suc.prems(1) show ?thesis
    proof (cases rule: step_cases [where s = "xs @ ys"])
      case (char k c' st'')
      with more(1) have k: "length xs < k"
        using dec_beyond [of st' "p @ xs" ys "length p + k" "Some c'"] more(3) by simp
      from char k have "k - length xs \<le> length ys" by simp
      moreover from all char two have "rep st2 []" "rep st3 []" by auto
      note convert_same_rep [OF this]
      ultimately show ?thesis using k char all two eqs by simp
    qed (use all two eqs in auto)
  qed
qed
end

section \<open>The contract of an encoder\<close>

text \<open>The encoding of a string of wide characters, character by character.\<close>

fun enc_all :: "(wchar \<Rightarrow> byte list option) \<Rightarrow> wchar list \<Rightarrow> byte list option" where
  "enc_all enc [] = Some []"
| "enc_all enc (c # cs) =
     (case enc c of None \<Rightarrow> None
      | Some bs \<Rightarrow> (case enc_all enc cs of None \<Rightarrow> None | Some bss \<Rightarrow> Some (bs @ bss)))"

lemma enc_all_Cons:
  "enc_all enc (c # cs) = Some b \<longleftrightarrow>
    (\<exists>b1 b2. enc c = Some b1 \<and> enc_all enc cs = Some b2 \<and> b = b1 @ b2)"
  by (auto split: option.splits)

text \<open>
  \<open>enc\<close> is the encoding without state, \<open>valid\<close> the characters that decode to
  themselves. In every encoding here \<open>wcrtomb\<close> leaves the conversion state alone, and a
  failing call writes at most \<open>cur_max\<close> bytes.
\<close>

locale mb_codec = mb_decoder mbrtowc dec rep
  for mbrtowc :: "'s mbrtowc_fn" and dec :: "byte list \<Rightarrow> mb_ret \<times> wchar option"
    and rep :: "'s \<Rightarrow> byte list \<Rightarrow> bool" +
  fixes wcrtomb :: "'s wcrtomb_fn"
    and enc :: "wchar \<Rightarrow> byte list option"
    and valid :: "wchar \<Rightarrow> bool"
    and cur_max :: nat
  assumes enc_some: "rep st [] \<Longrightarrow> enc c = Some bs \<Longrightarrow> wcrtomb True c st = (Inr (length bs), bs, st)"
    and enc_none: "rep st [] \<Longrightarrow> enc c = None \<Longrightarrow>
      \<exists>bs. wcrtomb True c st = (Inl EILSEQ, bs, st) \<and> length bs \<le> cur_max"
    and enc_length: "enc c = Some bs \<Longrightarrow> 0 < length bs \<and> length bs \<le> cur_max"
    and enc_nul: "enc 0 = Some [0]"
    and valid_nul: "valid 0"
    and dec_enc: "valid c \<Longrightarrow>
      \<exists>bs. enc c = Some bs \<and> dec bs = (MbLen (if c = 0 then 0 else length bs), Some c)"
begin

lemma dec_of_enc:
  "valid c \<Longrightarrow> enc c = Some bs \<Longrightarrow> dec (bs @ t) = (MbLen (if c = 0 then 0 else length bs), Some c)"
  using dec_enc [of c] dec_ext [of bs t] by auto

text \<open>Encoding into a buffer that is large enough.\<close>

lemma convert_encodes:
  "rep st [] \<Longrightarrow> enc_all enc cs = Some bs \<Longrightarrow> 0 \<notin> set cs \<Longrightarrow> length bs \<le> len \<Longrightarrow>
    wcs_convert wcrtomb cur_max cs off len st n dst =
      (Inr (n + length bs), dst @ bs, SrcAt (off + length cs), st)"
proof (induction cs arbitrary: bs off len n dst)
  case Nil
  then show ?case by simp
next
  case (Cons c cs)
  then obtain b1 b2 where b: "enc c = Some b1" "enc_all enc cs = Some b2" "bs = b1 @ b2"
    by (auto simp: enc_all_Cons simp del: enc_all.simps)
  have "0 < length b1" using enc_length [OF b(1)] by simp
  with Cons.prems(4) b(3) have "0 < len" "length b1 \<le> len" by (auto simp del: length_greater_0_conv)
  then show ?case
    using Cons.IH [of b2 "len - length b1" "off + 1" "n + length b1" "dst @ b1"]
      Cons.prems b enc_some [of st c b1] by auto
qed

lemma convert_encodes_terminated:
  "rep st [] \<Longrightarrow> enc_all enc cs = Some bs \<Longrightarrow> 0 \<notin> set cs \<Longrightarrow> length bs < len \<Longrightarrow>
    wcs_convert wcrtomb cur_max (cs @ 0 # rest) off len st n dst =
      (Inr (n + length bs), dst @ bs @ [0], SrcNull, st)"
proof (induction cs arbitrary: bs off len n dst)
  case Nil
  then show ?case using enc_some [of st 0] enc_nul by auto
next
  case (Cons c cs)
  then obtain b1 b2 where b: "enc c = Some b1" "enc_all enc cs = Some b2" "bs = b1 @ b2"
    by (auto simp: enc_all_Cons simp del: enc_all.simps)
  have "0 < length b1" using enc_length [OF b(1)] by simp
  with Cons.prems(4) b(3) have "0 < len" "length b1 \<le> len" by (auto simp del: length_greater_0_conv)
  then show ?case
    using Cons.IH [of b2 "len - length b1" "off + 1" "n + length b1" "dst @ b1"]
      Cons.prems b enc_some [of st c b1] by auto
qed

text \<open>What was encoded is decoded again, up to the terminator.\<close>

lemma convert_decodes:
  "rep st [] \<Longrightarrow> \<forall>c \<in> set cs. valid c \<Longrightarrow> enc_all enc cs = Some bs \<Longrightarrow> 0 \<notin> set cs \<Longrightarrow>
    length cs < len \<Longrightarrow>
    \<exists>st'. rep st' [] \<and> mbs_convert mbrtowc len (bs @ 0 # rest) off st n dst =
      Some (Inr (n + length cs), dst @ cs @ [0], SrcNull, st')"
proof (induction cs arbitrary: bs off len st n dst)
  case Nil
  then obtain k where [simp]: "len = Suc k" by (cases len) auto
  have "dec ([] @ 0 # rest) = (MbLen 0, Some 0)"
    using dec_of_enc [OF valid_nul enc_nul, of rest] by simp
  with Nil.prems(1) obtain st' where "rep st' []"
    "mbrtowc (Some (0 # rest)) st = (MbLen 0, Some 0, st')"
    by (cases rule: step_cases [where p = "[]" and s = "0 # rest"]) auto
  with Nil.prems show ?case by auto
next
  case (Cons c cs)
  then obtain b1 b2 where b: "enc c = Some b1" "enc_all enc cs = Some b2" "bs = b1 @ b2"
    by (auto simp: enc_all_Cons simp del: enc_all.simps)
  from Cons.prems obtain k where [simp]: "len = Suc k" by (cases len) auto
  have "dec ([] @ bs @ 0 # rest) = (MbLen (length b1), Some c)"
    using dec_of_enc [of c b1 "b2 @ 0 # rest"] Cons.prems b by auto
  with Cons.prems(1) obtain st' where st': "rep st' []"
    "mbrtowc (Some (bs @ 0 # rest)) st = (MbLen (length b1), Some c, st')"
    using Cons.prems(4) by (cases rule: step_cases [where p = "[]" and s = "bs @ 0 # rest"]) auto
  have "0 < length b1" using enc_length [OF b(1)] by simp
  with Cons.IH [OF st'(1) _ b(2), of k "off + length b1" "n + 1" "dst @ [c]"] st' Cons.prems b
  show ?case by auto
qed

lemma enc_all_valid:
  "\<forall>c \<in> set cs. valid c \<Longrightarrow> \<exists>bs. enc_all enc cs = Some bs \<and> length bs \<le> cur_max * length cs"
proof (induction cs)
  case (Cons c cs)
  then obtain bs where bs: "enc_all enc cs = Some bs" "length bs \<le> cur_max * length cs" by auto
  from Cons.prems dec_enc [of c] obtain b where b: "enc c = Some b" by auto
  with bs enc_length [OF b] show ?case by auto
qed simp

text \<open>
  A terminated string of valid characters comes back from its encoding, in buffers of
  \<open>cur_max\<close> bytes for each character and one wide character for each.
\<close>

lemma string_roundtrip:
  assumes "rep st []" "rep st2 []" "\<forall>c \<in> set cs. valid c" "0 \<notin> set cs"
  shows "\<exists>bs st'. rep st' [] \<and>
    wcsnrtombs_std wcrtomb cur_max True (cs @ [0]) (cur_max * length cs + 1) st =
      (Inr (length bs), bs @ [0], SrcNull, st) \<and>
    mbsnrtowcs_std mbrtowc True (bs @ [0]) (length cs + 1) st2 =
      Some (Inr (length cs), cs @ [0], SrcNull, st')"
proof -
  obtain bs where bs: "enc_all enc cs = Some bs" "length bs \<le> cur_max * length cs"
    using enc_all_valid [OF assms(3)] by blast
  from convert_decodes [OF assms(2,3) bs(1) assms(4), of "length cs + 1" "[]" 0 0 "[]"]
  obtain st' where "rep st' []" "mbs_convert mbrtowc (length cs + 1) (bs @ [0]) 0 st2 0 [] =
      Some (Inr (length cs), cs @ [0], SrcNull, st')" by auto
  moreover from convert_encodes_terminated [OF assms(1) bs(1) assms(4)] bs(2)
  have "wcs_convert wcrtomb cur_max (cs @ [0]) 0 (cur_max * length cs + 1) st 0 [] =
      (Inr (length bs), bs @ [0], SrcNull, st)" by simp
  ultimately show ?thesis
    by (intro exI [of _ bs] exI [of _ st']) (simp add: mbsnrtowcs_std_def wcsnrtombs_std_def)
qed

text \<open>A conversion never writes more than \<open>len\<close> bytes, whatever it returns.\<close>

lemma convert_fits:
  "rep st [] \<Longrightarrow> wcs_convert wcrtomb cur_max cs off len st n dst = (r, d, src, st') \<Longrightarrow>
    length d \<le> length dst + len"
proof (induction cs arbitrary: off len n dst)
  case Nil
  then show ?case by auto
next
  case (Cons c cs)
  show ?case
  proof (cases "enc c")
    case None
    with Cons.prems enc_none [of st c] show ?thesis by (auto split: if_splits)
  next
    case (Some bs)
    note w = enc_some [OF Cons.prems(1) Some] enc_length [OF Some]
    show ?thesis
    proof (cases "len = 0 \<or> length bs > len \<or> c = 0")
      case True
      with w Cons.prems show ?thesis by (auto split: if_splits)
    next
      case False
      with w Cons.prems
      have "wcs_convert wcrtomb cur_max cs (off + 1) (len - length bs) st (n + length bs) (dst @ bs) =
          (r, d, src, st')"
        by (auto split: if_splits)
      from Cons.IH [OF Cons.prems(1) this] False show ?thesis by simp
    qed
  qed
qed

text \<open>The count a null \<open>dst\<close> gives, and one more for the terminator, is room enough.\<close>

lemma count_sizes_buffer:
  "rep st [] \<Longrightarrow> wcs_count wcrtomb cs st n = (Inr m, st') \<Longrightarrow> m < n + len \<Longrightarrow>
    n \<le> m \<and> fst (wcs_convert wcrtomb cur_max cs off len st n dst) = Inr m"
proof (induction cs arbitrary: off len n dst)
  case Nil
  then show ?case by auto
next
  case (Cons c cs)
  show ?case
  proof (cases "enc c")
    case None
    with Cons.prems enc_none [of st c] show ?thesis by auto
  next
    case (Some bs)
    note w = enc_some [OF Cons.prems(1) Some] enc_length [OF Some]
    show ?thesis
    proof (cases "c = 0")
      case True
      with w Some enc_nul Cons.prems show ?thesis by auto
    next
      case False
      with Cons.prems w have "wcs_count wcrtomb cs st (n + length bs) = (Inr m, st')" by simp
      note IH = Cons.IH [OF Cons.prems(1) this]
      from IH [of "Suc m" "off + 1" "dst @ bs"] have le: "n + length bs \<le> m" by simp
      with Cons.prems(3) w have "length bs < len" by simp
      with le IH [of "len - length bs" "off + 1" "dst @ bs"] Cons.prems(3) False w
      show ?thesis by auto
    qed
  qed
qed

end

text \<open>
  An encoding in which decoding loses nothing: the bytes of every character that decodes
  are the ones the character is encoded with.
\<close>

locale mb_strict_codec = mb_codec mbrtowc dec rep wcrtomb enc valid cur_max
  for mbrtowc :: "'s mbrtowc_fn" and dec :: "byte list \<Rightarrow> mb_ret \<times> wchar option"
    and rep :: "'s \<Rightarrow> byte list \<Rightarrow> bool" and wcrtomb :: "'s wcrtomb_fn"
    and enc :: "wchar \<Rightarrow> byte list option" and valid :: "wchar \<Rightarrow> bool" and cur_max :: nat +
  assumes enc_dec: "dec s = (MbLen n, Some c) \<Longrightarrow> c \<noteq> 0 \<Longrightarrow> valid c \<and> enc c = Some (take n s)"
begin

text \<open>A character that has been decoded is encoded with the bytes it came from.\<close>

lemma decode_encode:
  assumes "rep st []" "mbrtowc (Some s) st = (MbLen n, Some c, st')" "c \<noteq> 0"
  shows "rep st' [] \<and> valid c \<and> wcrtomb True c st' = (Inr n, take n s, st')"
  using assms(1)
proof (cases rule: step_cases [where s = s])
  case (char i d st1)
  with assms(2) have "dec s = (MbLen n, Some c)" "n \<le> length s" "rep st' []" by auto
  with enc_dec [of s n c] enc_some [of st' c "take n s"] assms(3) show ?thesis by simp
qed (use assms in auto)

text \<open>
  The bytes a conversion has used are the encoding of what it wrote, followed by the bytes
  of the character it has taken in in part.
\<close>

lemma convert_reencodes:
  "rep st [] \<Longrightarrow> mbs_convert mbrtowc len s off st n dst = Some (Inr m, d, SrcAt k, st') \<Longrightarrow>
    \<exists>cs bs p. d = dst @ cs \<and> off \<le> k \<and> m = n + length cs \<and> enc_all enc cs = Some bs \<and>
      take (k - off) s = bs @ p \<and> rep st' p"
proof (induction len arbitrary: s off st n dst)
  case 0
  then show ?case by auto
next
  case (Suc len)
  from Suc.prems(1) show ?case
  proof (cases rule: step_cases [where p = "[]" and s = s])
    case (char i c st1)
    with Suc.prems have "mbs_convert mbrtowc len (drop i s) (off + i) st1 (n + 1) (dst @ [c]) =
        Some (Inr m, d, SrcAt k, st')" by simp
    from Suc.IH [OF char(6) this] obtain cs bs p where IH:
      "d = (dst @ [c]) @ cs" "off + i \<le> k" "m = n + 1 + length cs" "enc_all enc cs = Some bs"
      "take (k - (off + i)) (drop i s) = bs @ p" "rep st' p" by blast
    have "enc c = Some (take i s)" using enc_dec char by auto
    moreover have "take (k - off) s = take i s @ take (k - (off + i)) (drop i s)"
      using IH(2) by (simp add: flip: take_add)
    ultimately show ?thesis using IH by (intro exI [of _ "c # cs"]) auto
  qed (use Suc.prems in auto)
qed

end

end
