(* ===== verification/Ascii_Fast.thy ===== *)
theory Ascii_Fast
  imports Mb_Codec
begin

text \<open>
  The string conversions with fast paths for ASCII. \<open>utf8.c\<close> and \<open>utf2.c\<close> each hold a
  copy of the same two functions, \<open>_UTF8_mbsnrtowcs\<close> and \<open>_UTF8_wcsnrtombs\<close>, which differ
  in the \<open>mbrtowc\<close> and \<open>wcrtomb\<close> they call and in the maximal length of a character only:
  these are parameters here, with \<open>want\<close> the field of the state that says how many bytes of
  a character are missing. The locale \<open>ascii_codec\<close> states what the fast paths rely on; in
  it they are the generic conversions.
\<close>

section \<open>The conversions\<close>

definition ascii_not_nul :: "byte \<Rightarrow> bool" where
  \<comment> \<open>\<open>(signed char)*s > 0\<close>\<close>
  "ascii_not_nul c = (0 <s c)"

function fast_mbs_count :: "'s mbrtowc_fn \<Rightarrow> byte list \<Rightarrow> 's \<Rightarrow> nat \<Rightarrow>
    ((errno + nat) \<times> 's) option" where
  "fast_mbs_count mbrtowc s us nchr =
     (if s \<noteq> [] \<and> ascii_not_nul (hd s) then fast_mbs_count mbrtowc (tl s) us (nchr + 1)
      else (case mbrtowc (Some s) us of
          (MbErr e, _, us') \<Rightarrow> Some (Inl e, us')
        | (MbIncomplete, _, us') \<Rightarrow> Some (Inr nchr, us')
        | (MbLen nb, _, us') \<Rightarrow>
            if nb = 0 then Some (Inr nchr, us')
            else if nb \<le> length s then fast_mbs_count mbrtowc (drop nb s) us' (nchr + 1)
            else None))"
  by pat_completeness auto
termination
  by (relation "measure (\<lambda>(f, s, us, n). length s)") auto

declare fast_mbs_count.simps [simp del]

fun fast_mbs_convert :: "'s mbrtowc_fn \<Rightarrow> nat \<Rightarrow> byte list \<Rightarrow> nat \<Rightarrow> 's \<Rightarrow> nat \<Rightarrow> wchar list \<Rightarrow>
    (wchar, 's) conv_result option" where
  "fast_mbs_convert mbrtowc 0 s off us nchr dst = Some (Inr nchr, dst, SrcAt off, us)"
| "fast_mbs_convert mbrtowc (Suc len) s off us nchr dst =
     (if s \<noteq> [] \<and> ascii_not_nul (hd s) then
        fast_mbs_convert mbrtowc len (tl s) (off + 1) us (nchr + 1) (dst @ [scast (hd s)])
      else (case mbrtowc (Some s) us of
          (MbErr e, w, us') \<Rightarrow> Some (Inl e, dst @ opt_list w, SrcAt off, us')
        | (MbIncomplete, w, us') \<Rightarrow>
            Some (Inr nchr, dst @ opt_list w, SrcAt (off + length s), us')
        | (MbLen nb, w, us') \<Rightarrow>
            if nb = 0 then Some (Inr nchr, dst @ opt_list w, SrcNull, us')
            else if nb \<le> length s then
              fast_mbs_convert mbrtowc len (drop nb s) (off + nb) us' (nchr + 1) (dst @ opt_list w)
            else None))"

definition fast_mbsnrtowcs :: "'s mbrtowc_fn \<Rightarrow> ('s \<Rightarrow> int) \<Rightarrow> 's mbsnrtowcs_fn" where
  "fast_mbsnrtowcs mbrtowc want has_dst s len us =
     (if \<not> has_dst then
        (if s \<noteq> [] \<and> want us > 0 \<and> ascii_not_nul (hd s) then
           Some (Inl EILSEQ, [], SrcAt 0, us)
         else map_option (\<lambda>(r, us'). (r, [], SrcAt 0, us')) (fast_mbs_count mbrtowc s us 0))
      else if s \<noteq> [] \<and> len > 0 \<and> want us > 0 \<and> ascii_not_nul (hd s) then
        Some (Inl EILSEQ, [], SrcAt 0, us)
      else fast_mbs_convert mbrtowc len s 0 us 0 [])"

fun fast_wcs_count :: "'s wcrtomb_fn \<Rightarrow> wchar list \<Rightarrow> 's \<Rightarrow> nat \<Rightarrow> (errno + nat) \<times> 's" where
  "fast_wcs_count wcrtomb [] us nbytes = (Inr nbytes, us)"
| "fast_wcs_count wcrtomb (wc # s) us nbytes =
     (case (if 0 \<le>s wc \<and> wc <s 0x80 then (Inr 1, [], us) else wcrtomb True wc us) of
        (Inl e, _, us') \<Rightarrow> (Inl e, us')
      | (Inr nb, _, us') \<Rightarrow>
          if wc = 0 then (Inr (nbytes + nb - 1), us')
          else fast_wcs_count wcrtomb s us' (nbytes + nb))"

fun fast_wcs_convert :: "'s wcrtomb_fn \<Rightarrow> nat \<Rightarrow> wchar list \<Rightarrow> nat \<Rightarrow> nat \<Rightarrow> 's \<Rightarrow> nat \<Rightarrow> byte list \<Rightarrow>
    (byte, 's) conv_result" where
  "fast_wcs_convert wcrtomb mb_cur_max [] off len us nbytes dst = (Inr nbytes, dst, SrcAt off, us)"
| "fast_wcs_convert wcrtomb mb_cur_max (wc # s) off len us nbytes dst =
     (if len = 0 then (Inr nbytes, dst, SrcAt off, us)
      else if 0 \<le>s wc \<and> wc <s 0x80 then
        (if wc = 0 then (Inr (nbytes + 1 - 1), dst @ [ucast wc], SrcNull, us)
         else fast_wcs_convert wcrtomb mb_cur_max s (off + 1) (len - 1) us (nbytes + 1) (dst @ [ucast wc]))
      else if len > mb_cur_max then
        (case wcrtomb True wc us of
           (Inl e, bs, us') \<Rightarrow> (Inl e, dst @ bs, SrcAt off, us')
         | (Inr nb, bs, us') \<Rightarrow>
             if wc = 0 then (Inr (nbytes + nb - 1), dst @ bs, SrcNull, us')
             else fast_wcs_convert wcrtomb mb_cur_max s (off + 1) (len - nb) us' (nbytes + nb) (dst @ bs))
      else
        (case wcrtomb True wc us of
           (Inl e, _, us') \<Rightarrow> (Inl e, dst, SrcAt off, us')
         | (Inr nb, bs, us') \<Rightarrow>
             if nb > len then (Inr nbytes, dst, SrcAt off, us')
             else if wc = 0 then (Inr (nbytes + nb - 1), dst @ bs, SrcNull, us')
             else fast_wcs_convert wcrtomb mb_cur_max s (off + 1) (len - nb) us' (nbytes + nb) (dst @ bs)))"

definition fast_wcsnrtombs :: "'s wcrtomb_fn \<Rightarrow> nat \<Rightarrow> ('s \<Rightarrow> int) \<Rightarrow> 's wcsnrtombs_fn" where
  "fast_wcsnrtombs wcrtomb mb_cur_max want has_dst s len us =
     (if want us \<noteq> 0 then (Inl EINVAL, [], SrcAt 0, us)
      else if \<not> has_dst then (case fast_wcs_count wcrtomb s us 0 of (r, us') \<Rightarrow> (r, [], SrcAt 0, us'))
      else fast_wcs_convert wcrtomb mb_cur_max s 0 len us 0 [])"

section \<open>The fast paths change nothing\<close>

lemma ascii_not_nul_iff: "ascii_not_nul c \<longleftrightarrow> c \<noteq> 0 \<and> c \<le> 0x7F"
  by (simp add: ascii_not_nul_def bit_blast) blast

lemma scast_ascii: "c \<le> 0x7F \<Longrightarrow> (scast c :: wchar) = ucast (c :: byte)"
  by (simp add: bit_blast)

text \<open>
  A codec whose state between characters is told by \<open>want\<close>, in which an ASCII byte is a
  character of its own between characters and an error inside of one.
\<close>

locale ascii_codec = mb_codec mbrtowc dec rep wcrtomb enc valid cur_max
  for mbrtowc :: "'s mbrtowc_fn" and dec :: "byte list \<Rightarrow> mb_ret \<times> wchar option"
    and rep :: "'s \<Rightarrow> byte list \<Rightarrow> bool" and wcrtomb :: "'s wcrtomb_fn"
    and enc :: "wchar \<Rightarrow> byte list option" and valid :: "wchar \<Rightarrow> bool" and cur_max :: nat +
  fixes want :: "'s \<Rightarrow> int"
  assumes want_rep: "rep st [] \<longleftrightarrow> want st = 0"
    and want_nonneg: "rep st p \<Longrightarrow> 0 \<le> want st"
    and ascii_first: "want st = 0 \<Longrightarrow> ascii_not_nul c \<Longrightarrow>
      mbrtowc (Some (c # s)) st = (MbLen 1, Some (scast c), st)"
    and ascii_inside: "rep st p \<Longrightarrow> want st \<noteq> 0 \<Longrightarrow> ascii_not_nul c \<Longrightarrow>
      mbrtowc (Some (c # s)) st = (MbErr EILSEQ, None, st)"
    and ascii_enc: "0 \<le>s wc \<Longrightarrow> wc <s 0x80 \<Longrightarrow> enc wc = Some [ucast wc]"
begin

lemma after_char: "want st = 0 \<Longrightarrow> mbrtowc (Some s) st = (MbLen n, w, st') \<Longrightarrow> want st' = 0"
proof -
  assume st: "want st = 0" and m: "mbrtowc (Some s) st = (MbLen n, w, st')"
  from st have "rep st []" by (simp add: want_rep)
  then show "want st' = 0"
    by (cases rule: step_cases [where s = s]) (use m in \<open>auto simp: want_rep\<close>)
qed

lemma mbs_convert_fast:
  "want st = 0 \<Longrightarrow> fast_mbs_convert mbrtowc len s off st n dst = mbs_convert mbrtowc len s off st n dst"
proof (induction len arbitrary: s off st n dst)
  case (Suc len)
  show ?case
  proof (cases "s \<noteq> [] \<and> ascii_not_nul (hd s)")
    case True
    then obtain c s' where "s = c # s'" by (cases s) auto
    with True Suc show ?thesis by (simp add: ascii_first)
  next
    case False
    with Suc after_char [OF Suc.prems, of s] show ?thesis
      by (auto split: mb_ret.splits prod.splits)
  qed
qed simp

lemma mbs_count_fast: "want st = 0 \<Longrightarrow> fast_mbs_count mbrtowc s st n = mbs_count mbrtowc s st n"
proof (induction "length s" arbitrary: s st n rule: less_induct)
  case less
  show ?case
  proof (cases "s \<noteq> [] \<and> ascii_not_nul (hd s)")
    case True
    then obtain c s' where "s = c # s'" by (cases s) auto
    with True less show ?thesis
      by (simp add: ascii_first fast_mbs_count.simps [of _ "c # s'"] mbs_count.simps [of _ "c # s'"])
  next
    case False
    obtain r w st' where m: "mbrtowc (Some s) st = (r, w, st')" by (metis prod_cases3)
    show ?thesis
    proof (cases "\<exists>k. r = MbLen k \<and> 0 < k \<and> k \<le> length s")
      case True
      then obtain k where k: "r = MbLen k" "0 < k" "k \<le> length s" by blast
      with m after_char [OF less.prems, of s] have "want st' = 0" by blast
      with less.hyps [of "drop k s" st' "n + 1"] k m False show ?thesis
        by (auto simp: fast_mbs_count.simps [of _ s] mbs_count.simps [of _ s])
    next
      case other: False
      with False m show ?thesis
        by (auto simp: fast_mbs_count.simps [of _ s] mbs_count.simps [of _ s] split: mb_ret.splits)
    qed
  qed
qed

text \<open>In the middle of a character only the first byte differs: it cannot be ASCII.\<close>

lemma mbs_convert_inside:
  assumes "rep st p" "s = [] \<or> \<not> ascii_not_nul (hd s)"
  shows "fast_mbs_convert mbrtowc len s off st n dst = mbs_convert mbrtowc len s off st n dst"
proof (cases len)
  case (Suc k)
  from assms(1) show ?thesis
    by (cases rule: step_cases [where s = s])
      (use assms(2) Suc want_rep in \<open>auto simp: mbs_convert_fast\<close>)
qed simp

lemma mbs_count_inside:
  assumes "rep st p" "s = [] \<or> \<not> ascii_not_nul (hd s)"
  shows "fast_mbs_count mbrtowc s st n = mbs_count mbrtowc s st n"
  using assms(1)
  by (cases rule: step_cases [where s = s])
    (use assms(2) want_rep in
      \<open>auto simp: fast_mbs_count.simps [of _ s] mbs_count.simps [of _ s] mbs_count_fast\<close>)

lemma mbsnrtowcs_fast:
  assumes "rep st p"
  shows "fast_mbsnrtowcs mbrtowc want has_dst s len st = mbsnrtowcs_std mbrtowc has_dst s len st"
proof (cases "s \<noteq> [] \<and> ascii_not_nul (hd s)")
  case True
  then obtain c s' where s: "s = c # s'" by (cases s) auto
  from want_nonneg [OF assms] have "0 \<le> want st" .
  show ?thesis
  proof (cases "want st = 0")
    case True
    then show ?thesis
      by (simp add: fast_mbsnrtowcs_def mbsnrtowcs_std_def mbs_convert_fast mbs_count_fast)
  next
    case False
    with \<open>0 \<le> want st\<close> ascii_inside [OF assms False, of c s'] True s
    show ?thesis
      by (cases len) (auto simp: fast_mbsnrtowcs_def mbsnrtowcs_std_def mbs_count.simps [of _ "c # s'"])
  qed
next
  case False
  then have "s = [] \<or> \<not> ascii_not_nul (hd s)" by blast
  with assms show ?thesis
    by (auto simp: fast_mbsnrtowcs_def mbsnrtowcs_std_def mbs_convert_inside mbs_count_inside)
qed

lemma ascii_wcrtomb:
  "want st = 0 \<Longrightarrow> 0 \<le>s c \<Longrightarrow> c <s 0x80 \<Longrightarrow> wcrtomb True c st = (Inr 1, [ucast c], st)"
  using enc_some [of st c "[ucast c]"] ascii_enc [of c] want_rep by simp

lemma wcrtomb_cases:
  assumes "want st = 0"
  obtains bs where "wcrtomb True c st = (Inr (length bs), bs, st)"
  | bs where "wcrtomb True c st = (Inl EILSEQ, bs, st)"
  using assms enc_some [of st c] enc_none [of st c] want_rep by (cases "enc c") auto

lemma wcs_convert_fast:
  assumes "want st = 0"
  shows "fast_wcs_convert wcrtomb m s off len st n dst = wcs_convert wcrtomb m s off len st n dst"
  using assms
proof (induction s arbitrary: off len n dst)
  case (Cons c s)
  show ?case
  proof (cases "0 \<le>s c \<and> c <s 0x80")
    case True
    with Cons ascii_wcrtomb [of st c] show ?thesis by auto
  next
    case False
    from Cons.prems show ?thesis
      by (cases rule: wcrtomb_cases [where c = c]) (use False Cons in auto)
  qed
qed simp

lemma wcs_count_fast:
  assumes "want st = 0"
  shows "fast_wcs_count wcrtomb s st n = wcs_count wcrtomb s st n"
  using assms
proof (induction s arbitrary: n)
  case (Cons c s)
  show ?case
  proof (cases "0 \<le>s c \<and> c <s 0x80")
    case True
    with Cons ascii_wcrtomb [of st c] show ?thesis by auto
  next
    case False
    from Cons.prems show ?thesis
      by (cases rule: wcrtomb_cases [where c = c]) (use False Cons in auto)
  qed
qed simp

lemma wcsnrtombs_fast:
  "want st = 0 \<Longrightarrow>
    fast_wcsnrtombs wcrtomb m want has_dst s len st = wcsnrtombs_std wcrtomb m has_dst s len st"
  by (simp add: fast_wcsnrtombs_def wcsnrtombs_std_def wcs_convert_fast wcs_count_fast)

lemma wcsnrtombs_fits:
  assumes "fast_wcsnrtombs wcrtomb cur_max want has_dst s len st = (r, d, src, st')"
  shows "length d \<le> len"
proof (cases "want st = 0 \<and> has_dst")
  case True
  with assms have "wcs_convert wcrtomb cur_max s 0 len st 0 [] = (r, d, src, st')"
    by (simp add: fast_wcsnrtombs_def wcs_convert_fast)
  from convert_fits [OF _ this] True want_rep show ?thesis by simp
next
  case False
  with assms show ?thesis by (auto simp: fast_wcsnrtombs_def split: if_splits prod.splits)
qed

end

end
