(* ===== verification/Utf8_Codec.thy ===== *)
theory Utf8_Codec
  imports Ascii_Fast
begin

text \<open>
  The UTF-8 encoding (\<open>utf8.c\<close>): the decoder \<open>_UTF8_mbrtowc\<close> with its conversion
  state, the encoder \<open>_UTF8_wcrtomb\<close> and the two string conversions with their ASCII fast
  paths. The specification is the table in the head comment of the file; the decoder is
  shown to be that table from every state it can be left in, and the string conversions to
  be the generic ones of \<open>Mb_Codec\<close>.
\<close>

section \<open>State and constants\<close>

record second_byte =
  lowerbound :: byte
  upperbound :: byte

definition sb_00_00 :: second_byte where "sb_00_00 = \<lparr>lowerbound = 0x00, upperbound = 0x00\<rparr>"
definition sb_80_8F :: second_byte where "sb_80_8F = \<lparr>lowerbound = 0x80, upperbound = 0x8F\<rparr>"
definition sb_80_9F :: second_byte where "sb_80_9F = \<lparr>lowerbound = 0x80, upperbound = 0x9F\<rparr>"
definition sb_80_BF :: second_byte where "sb_80_BF = \<lparr>lowerbound = 0x80, upperbound = 0xBF\<rparr>"
definition sb_90_BF :: second_byte where "sb_90_BF = \<lparr>lowerbound = 0x90, upperbound = 0xBF\<rparr>"
definition sb_A0_BF :: second_byte where "sb_A0_BF = \<lparr>lowerbound = 0xA0, upperbound = 0xBF\<rparr>"

lemmas sb_defs = sb_00_00_def sb_80_8F_def sb_80_9F_def sb_80_BF_def sb_90_BF_def sb_A0_BF_def

record utf8_state =
  u8_ch :: wchar
  u8_want :: int
  u8_sb :: second_byte

definition UTF8_MB_CUR_MAX :: nat where "UTF8_MB_CUR_MAX = 4"

definition utf8_mbsinit :: "utf8_state option \<Rightarrow> bool" where
  "utf8_mbsinit ps = (case ps of None \<Rightarrow> True | Some us \<Rightarrow> u8_want us = 0)"

section \<open>\<open>_UTF8_mbrtowc\<close>\<close>

text \<open>Mask, length and range of the second byte from the first byte; \<open>None\<close> is malformed.\<close>

definition utf8_lead :: "byte \<Rightarrow> (byte \<times> nat \<times> second_byte) option" where
  "utf8_lead ch =
     (if ch AND 0x80 = 0 then Some (0x7f, 1, sb_00_00)
      else if ch AND 0xe0 = 0xc0 then
        (if ch < 0xc2 then None else Some (0x1f, 2, sb_80_BF))
      else if ch AND 0xf0 = 0xe0 then
        Some (0x0f, 3, if ch = 0xe0 then sb_A0_BF else if ch = 0xed then sb_80_9F else sb_80_BF)
      else if ch AND 0xf8 = 0xf0 then
        (if ch > 0xf4 then None
         else Some (0x07, 4, if ch = 0xf0 then sb_90_BF else if ch = 0xf4 then sb_80_8F
                             else sb_80_BF))
      else None)"

text \<open>
  The loop over the remaining \<open>want - i\<close> bytes. It stops with the number still wanted,
  the bits so far and the range for the next byte; \<open>None\<close> is malformed.
\<close>

fun utf8_loop :: "nat \<Rightarrow> byte list \<Rightarrow> wchar \<Rightarrow> second_byte \<Rightarrow>
    (nat \<times> wchar \<times> second_byte) option" where
  "utf8_loop 0 s wch sb = Some (0, wch, sb)"
| "utf8_loop (Suc k) [] wch sb = Some (Suc k, wch, sb)"
| "utf8_loop (Suc k) (c # s) wch sb =
     (if lowerbound sb \<noteq> 0 then
        (if c < lowerbound sb \<or> c > upperbound sb then None
         else utf8_loop k s (push_bit 6 wch OR (ucast c AND 0x3f)) sb_00_00)
      else if c AND 0xc0 \<noteq> 0x80 then None
      else utf8_loop k s (push_bit 6 wch OR (ucast c AND 0x3f)) sb)"

definition utf8_finish :: "nat \<Rightarrow> (nat \<times> wchar \<times> second_byte) option \<Rightarrow> utf8_state \<Rightarrow>
    mb_ret \<times> wchar option \<times> utf8_state" where
  "utf8_finish want r us =
     (case r of
        None \<Rightarrow> (MbErr EILSEQ, None, us)
      | Some (left, wch, sb) \<Rightarrow>
          if 0 < left then (MbIncomplete, None, us\<lparr>u8_want := int left, u8_sb := sb, u8_ch := wch\<rparr>)
          else (MbLen (if wch = 0 then 0 else want), Some wch, us\<lparr>u8_want := 0\<rparr>))"

definition utf8_body :: "byte \<Rightarrow> byte list \<Rightarrow> utf8_state \<Rightarrow> mb_ret \<times> wchar option \<times> utf8_state" where
  "utf8_body c s us =
     (if u8_want us = 0 \<and> c AND NOT 0x7f = 0 then
        (MbLen (if c \<noteq> 0 then 1 else 0), Some (ucast c), us)
      else if u8_want us = 0 then
        (case utf8_lead c of
           None \<Rightarrow> (MbErr EILSEQ, None, us)
         | Some (msk, want, sb) \<Rightarrow>
             utf8_finish want (utf8_loop (want - 1) s (ucast (c AND msk)) sb) us)
      else utf8_finish (nat (u8_want us))
             (utf8_loop (nat (u8_want us)) (c # s) (u8_ch us) (u8_sb us)) us)"

definition utf8_mbrtowc :: "utf8_state mbrtowc_fn" where
  "utf8_mbrtowc s us =
     (if u8_want us < 0 \<or> u8_want us > int UTF8_MB_CUR_MAX then (MbErr EINVAL, None, us)
      else (case s of
        None \<Rightarrow> (case utf8_body 0 [] us of (r, _, us') \<Rightarrow> (r, None, us'))
      | Some [] \<Rightarrow> (MbIncomplete, None, us)
      | Some (c # s') \<Rightarrow> utf8_body c s' us))"

section \<open>\<open>_UTF8_wcrtomb\<close>\<close>

text \<open>The loop that fills \<open>s[len - 1]\<close> down to \<open>s[1]\<close>, then the first byte.\<close>

fun utf8_emit :: "nat \<Rightarrow> wchar \<Rightarrow> byte \<Rightarrow> byte list" where
  "utf8_emit 0 wc lead = [ucast (wc AND 0xff) OR lead]"
| "utf8_emit (Suc i) wc lead =
     utf8_emit i (signed_drop_bit 6 wc) lead @ [ucast ((wc AND 0x3f) OR 0x80)]"

definition utf8_wcrtomb :: "utf8_state wcrtomb_fn" where
  "utf8_wcrtomb has_s wc us =
     (if u8_want us \<noteq> 0 then (Inl EINVAL, [], us)
      else if \<not> has_s then (Inr 1, [], us)
      else if wc AND NOT 0x7f = 0 then (Inr 1, [ucast wc], us)
      else if wc AND NOT 0x7ff = 0 then (Inr 2, utf8_emit 1 wc 0xc0, us)
      else if wc AND NOT 0xffff = 0 then
        (if 0xd800 \<le>s wc \<and> wc \<le>s 0xdfff then (Inl EILSEQ, [], us)
         else (Inr 3, utf8_emit 2 wc 0xe0, us))
      else if wc AND NOT 0x1fffff = 0 then
        (if 0x10ffff <s wc then (Inl EILSEQ, [], us)
         else (Inr 4, utf8_emit 3 wc 0xf0, us))
      else (Inl EILSEQ, [], us))"

section \<open>The string conversions\<close>

definition utf8_mbsnrtowcs :: "utf8_state mbsnrtowcs_fn" where
  "utf8_mbsnrtowcs = fast_mbsnrtowcs utf8_mbrtowc u8_want"

definition utf8_wcsnrtombs :: "utf8_state wcsnrtombs_fn" where
  "utf8_wcsnrtombs = fast_wcsnrtombs utf8_wcrtomb UTF8_MB_CUR_MAX u8_want"

definition utf8_init :: "utf8_state runelocale \<Rightarrow> int \<times> utf8_state runelocale" where
  "utf8_init xrl =
     (0, xrl\<lparr>rl_mbrtowc := Some utf8_mbrtowc, rl_wcrtomb := Some utf8_wcrtomb,
         rl_mbsinit := Some utf8_mbsinit, rl_mbsnrtowcs := Some utf8_mbsnrtowcs,
         rl_wcsnrtombs := Some utf8_wcsnrtombs, rl_mb_cur_max := int UTF8_MB_CUR_MAX,
         rl_mb_sb_limit := 128\<rparr>)"

end
