(* ===== verification/Utf8_Correct.thy ===== *)
theory Utf8_Correct
  imports Utf8_Codec
begin

text \<open>
  Correctness of the UTF-8 encoding: the table of well-formed sequences as specification,
  the decoder as its implementation from every state it can be left in, the encoder as
  its inverse, and the string conversions with fast paths as the generic ones.
\<close>

section \<open>Specification: the table of well-formed sequences\<close>

text \<open>The rows of the table: length of the sequence and range of its second byte.\<close>

definition utf8_row :: "byte \<Rightarrow> (nat \<times> byte \<times> byte) option" where
  "utf8_row b =
     (if 0xC2 \<le> b \<and> b \<le> 0xDF then Some (2, 0x80, 0xBF)
      else if b = 0xE0 then Some (3, 0xA0, 0xBF)
      else if 0xE1 \<le> b \<and> b \<le> 0xEC then Some (3, 0x80, 0xBF)
      else if b = 0xED then Some (3, 0x80, 0x9F)
      else if b = 0xEE \<or> b = 0xEF then Some (3, 0x80, 0xBF)
      else if b = 0xF0 then Some (4, 0x90, 0xBF)
      else if 0xF1 \<le> b \<and> b \<le> 0xF3 then Some (4, 0x80, 0xBF)
      else if b = 0xF4 then Some (4, 0x80, 0x8F)
      else None)"

definition utf8_trail_ok :: "byte \<Rightarrow> byte \<Rightarrow> byte list \<Rightarrow> bool" where
  "utf8_trail_ok lo hi t =
     (case t of [] \<Rightarrow> True
      | c # cs \<Rightarrow> lo \<le> c \<and> c \<le> hi \<and> (\<forall>d \<in> set cs. 0x80 \<le> d \<and> d \<le> 0xBF))"

text \<open>The code point: the low bits of the first byte, then six bits of each other byte.\<close>

definition utf8_value :: "nat \<Rightarrow> byte \<Rightarrow> byte list \<Rightarrow> wchar" where
  "utf8_value n b t =
     foldl (\<lambda>v c. push_bit 6 v OR (ucast c AND 0x3f))
       (ucast (b AND (if n = 2 then 0x1f else if n = 3 then 0x0f else 0x07))) t"

definition utf8_dec :: "byte list \<Rightarrow> mb_ret \<times> wchar option" where
  "utf8_dec s =
     (case s of [] \<Rightarrow> (MbIncomplete, None)
      | b # r \<Rightarrow>
          if b \<le> 0x7F then (MbLen (if b = 0 then 0 else 1), Some (ucast b))
          else (case utf8_row b of None \<Rightarrow> (MbErr EILSEQ, None)
            | Some (n, lo, hi) \<Rightarrow>
                let t = take (n - 1) r in
                if \<not> utf8_trail_ok lo hi t then (MbErr EILSEQ, None)
                else if length t < n - 1 then (MbIncomplete, None)
                else (MbLen n, Some (utf8_value n b t))))"

section \<open>The decoder implements the table\<close>

definition sb_of :: "byte \<Rightarrow> byte \<Rightarrow> second_byte" where
  "sb_of lo hi = \<lparr>lowerbound = lo, upperbound = hi\<rparr>"

lemma utf8_lead_row:
  "\<not> b \<le> 0x7F \<Longrightarrow> utf8_lead b = map_option
    (\<lambda>(n, lo, hi). (if n = 2 then 0x1f else if n = 3 then 0x0f else 0x07, n, sb_of lo hi)) (utf8_row b)"
  unfolding utf8_lead_def utf8_row_def sb_defs sb_of_def
  by (simp add: bit_blast) blast?


text \<open>The loop reads the next bytes one range at a time.\<close>

definition in_sb :: "second_byte \<Rightarrow> byte \<Rightarrow> bool" where
  "in_sb sb c \<longleftrightarrow> (if lowerbound sb \<noteq> 0 then lowerbound sb \<le> c \<and> c \<le> upperbound sb
                 else 0x80 \<le> c \<and> c \<le> 0xBF)"

definition trail_in :: "second_byte \<Rightarrow> byte list \<Rightarrow> bool" where
  "trail_in sb t = (case t of [] \<Rightarrow> True | c # cs \<Rightarrow> in_sb sb c \<and> (\<forall>d \<in> set cs. 0x80 \<le> d \<and> d \<le> 0xBF))"

definition add_bits :: "wchar \<Rightarrow> byte \<Rightarrow> wchar" where
  "add_bits v c = push_bit 6 v OR (ucast c AND 0x3f)"

lemma continuation_range: "c AND 0xc0 = 0x80 \<longleftrightarrow> 0x80 \<le> c \<and> c \<le> (0xBF :: byte)"
  by (simp add: bit_blast) blast

lemma in_sb_0: "in_sb sb_00_00 c \<longleftrightarrow> 0x80 \<le> c \<and> c \<le> 0xBF"
  by (simp add: in_sb_def sb_00_00_def)

lemma trail_in_Cons: "trail_in sb (c # cs) \<longleftrightarrow> in_sb sb c \<and> trail_in sb_00_00 cs"
  by (auto simp: trail_in_def in_sb_0 split: list.splits)

lemma trail_in_Nil [simp]: "trail_in sb []"
  by (simp add: trail_in_def)

lemma utf8_loop_Cons:
  "lowerbound sb = 0 \<longrightarrow> sb = sb_00_00 \<Longrightarrow> utf8_loop (Suc k) (c # s) wch sb =
    (if in_sb sb c then utf8_loop k s (add_bits wch c) sb_00_00 else None)"
  by (auto simp: in_sb_def add_bits_def continuation_range not_less)

lemma utf8_loop_eq:
  "lowerbound sb = 0 \<longrightarrow> sb = sb_00_00 \<Longrightarrow>
   utf8_loop k s wch sb =
     (let t = take k s in
      if trail_in sb t
      then Some (k - length t, foldl add_bits wch t, if t = [] then sb else sb_00_00) else None)"
proof (induction k arbitrary: s wch sb)
  case 0
  then show ?case by simp
next
  case (Suc k)
  show ?case
  proof (cases s)
    case Nil
    then show ?thesis by simp
  next
    case (Cons c s')
    have "lowerbound sb_00_00 = 0 \<longrightarrow> sb_00_00 = sb_00_00" by simp
    from Suc.IH [OF this] show ?thesis
      unfolding Cons utf8_loop_Cons [OF Suc.prems]
      by (simp add: trail_in_Cons Let_def)
  qed
qed

lemma utf8_loop_append:
  "utf8_loop k (t @ s) wch sb =
    (case utf8_loop k t wch sb of None \<Rightarrow> None
     | Some (k', wch', sb') \<Rightarrow> utf8_loop k' s wch' sb')"
  by (induction k t wch sb rule: utf8_loop.induct) auto

text \<open>The states that stand for a partial character.\<close>

definition utf8_rep :: "utf8_state \<Rightarrow> byte list \<Rightarrow> bool" where
  "utf8_rep us p =
     (case p of [] \<Rightarrow> u8_want us = 0
      | b # t \<Rightarrow> \<not> b \<le> 0x7F \<and> (\<exists>msk n sb k. utf8_lead b = Some (msk, n, sb) \<and>
          utf8_loop (n - 1) t (ucast (b AND msk)) sb = Some (k, u8_ch us, u8_sb us) \<and>
          0 < k \<and> u8_want us = int k))"

lemma utf8_lead_facts:
  assumes "utf8_lead b = Some (msk, n, sb)" "\<not> b \<le> 0x7F"
  shows "2 \<le> n" "n \<le> 4" "lowerbound sb \<noteq> 0"
    "\<exists>lo hi. utf8_row b = Some (n, lo, hi) \<and> sb = sb_of lo hi \<and>
      msk = (if n = 2 then 0x1f else if n = 3 then 0x0f else 0x07)"
  using assms by (auto simp: utf8_lead_row utf8_row_def sb_of_def split: if_splits)

lemma utf8_loop_left:
  "utf8_loop k s wch sb = Some (k', w, sb') \<Longrightarrow> k' \<le> k"
  by (induction k s wch sb rule: utf8_loop.induct) (auto split: if_splits)


text \<open>The complete characters, by length.\<close>

lemma utf8_char_cases:
  assumes "utf8_row b = Some (n, lo, hi)" "trail_in (sb_of lo hi) t" "length t = n - 1"
  obtains (two) c where "n = 2" "t = [c]" "0xC2 \<le> b" "b \<le> 0xDF" "0x80 \<le> c" "c \<le> 0xBF"
  | (three) c d where "n = 3" "t = [c, d]" "0xE0 \<le> b" "b \<le> 0xEF" "0x80 \<le> c" "c \<le> 0xBF"
      "0x80 \<le> d" "d \<le> 0xBF" "b = 0xE0 \<longrightarrow> 0xA0 \<le> c" "b = 0xED \<longrightarrow> c \<le> 0x9F"
  | (four) c d e where "n = 4" "t = [c, d, e]" "0xF0 \<le> b" "b \<le> 0xF4" "0x80 \<le> c" "c \<le> 0xBF"
      "0x80 \<le> d" "d \<le> 0xBF" "0x80 \<le> e" "e \<le> 0xBF" "b = 0xF0 \<longrightarrow> 0x90 \<le> c" "b = 0xF4 \<longrightarrow> c \<le> 0x8F"
proof -
  have c: "in_sb (sb_of lo hi) c \<longleftrightarrow> lo \<le> c \<and> c \<le> hi" for c
    using assms(1) by (auto simp: utf8_row_def in_sb_def sb_of_def split: if_splits)
  have n: "n = 2 \<or> n = 3 \<or> n = 4" using assms(1) by (auto simp: utf8_row_def split: if_splits)
  show thesis
  proof (cases "n = 2")
    case True
    with assms(3) obtain c where t: "t = [c]" by (auto simp: length_Suc_conv)
    from True assms(1,2) t show ?thesis
      by (auto simp: utf8_row_def trail_in_def c intro!: two split: if_splits)
  next
    case n2: False
    show ?thesis
    proof (cases "n = 3")
      case True
      with assms(3) have "length t = Suc (Suc 0)" by simp
      then obtain c d where t: "t = [c, d]" by (auto simp: length_Suc_conv)
      from assms(2) t have "lo \<le> c" "c \<le> hi" "0x80 \<le> d" "d \<le> 0xBF" by (auto simp: trail_in_def c)
      moreover from True assms(1) have "0x80 \<le> lo" "hi \<le> 0xBF" "0xE0 \<le> b" "b \<le> 0xEF"
        "b = 0xE0 \<longrightarrow> lo = 0xA0" "b = 0xED \<longrightarrow> hi = 0x9F"
        by (auto simp: utf8_row_def word_le_nat_alt split: if_splits)
      ultimately show ?thesis using True t by (intro three [of c d]) (auto intro: order_trans)
    next
      case False
      with n n2 have n4: "n = 4" by simp
      with assms(3) have "length t = Suc (Suc (Suc 0))" by simp
      then obtain c d e where t: "t = [c, d, e]" by (auto simp: length_Suc_conv)
      from assms(2) t have "lo \<le> c" "c \<le> hi" "0x80 \<le> d" "d \<le> 0xBF" "0x80 \<le> e" "e \<le> 0xBF"
        by (auto simp: trail_in_def c)
      moreover from n4 assms(1) have "0x80 \<le> lo" "hi \<le> 0xBF" "0xF0 \<le> b" "b \<le> 0xF4"
        "b = 0xF0 \<longrightarrow> lo = 0x90" "b = 0xF4 \<longrightarrow> hi = 0x8F"
        by (auto simp: utf8_row_def word_le_nat_alt split: if_splits)
      ultimately show ?thesis using n4 t by (intro four [of c d e]) (auto intro: order_trans)
    qed
  qed
qed

text \<open>The value of a character whose first byte is not ASCII is not the null character.\<close>

lemma utf8_value_nonzero:
  assumes "utf8_row b = Some (n, lo, hi)" "trail_in (sb_of lo hi) t" "length t = n - 1"
  shows "utf8_value n b t \<noteq> 0"
  using assms
proof (cases rule: utf8_char_cases)
  case (two c)
  then show ?thesis by (simp add: utf8_value_def bit_blast) blast
next
  case (three c d)
  then show ?thesis by (simp add: utf8_value_def bit_blast) blast
next
  case (four c d e)
  then show ?thesis by (simp add: utf8_value_def bit_blast) blast
qed

lemma row_trail:
  "utf8_row b = Some (n, lo, hi) \<Longrightarrow> utf8_trail_ok lo hi t = trail_in (sb_of lo hi) t"
  by (auto simp: utf8_row_def utf8_trail_ok_def trail_in_def in_sb_def sb_of_def
      split: if_splits list.splits)

lemma utf8_dec_loop:
  "\<not> b \<le> 0x7F \<Longrightarrow> utf8_dec (b # s) =
    (case utf8_lead b of None \<Rightarrow> (MbErr EILSEQ, None)
     | Some (msk, n, sb) \<Rightarrow>
        (case utf8_loop (n - 1) s (ucast (b AND msk)) sb of None \<Rightarrow> (MbErr EILSEQ, None)
         | Some (k, w, _) \<Rightarrow> if 0 < k then (MbIncomplete, None) else (MbLen n, Some w)))"
proof (cases "utf8_lead b")
  case None
  assume "\<not> b \<le> 0x7F"
  with None show ?thesis by (simp add: utf8_dec_def utf8_lead_row)
next
  case (Some l)
  obtain msk n sb where l: "l = (msk, n, sb)" by (cases l)
  assume b: "\<not> b \<le> 0x7F"
  note f = utf8_lead_facts [OF Some [unfolded l] b]
  then obtain lo hi where row: "utf8_row b = Some (n, lo, hi)" "sb = sb_of lo hi"
    "msk = (if n = 2 then 0x1f else if n = 3 then 0x0f else 0x07)" by blast
  have "add_bits = (\<lambda>v c. push_bit 6 v OR (ucast c AND 0x3f))" by (simp add: add_bits_def fun_eq_iff)
  then show ?thesis
    using b row f(3)
    by (auto simp: utf8_dec_def Some l utf8_loop_eq row_trail [OF row(1)] Let_def utf8_value_def
        min_def)
qed

lemma utf8_loop_count:
  assumes "lowerbound sb \<noteq> 0" "utf8_loop k s wch sb = Some (k', w, sb')"
  shows "k' = k - min k (length s) \<and> trail_in sb (take k s) \<and> w = foldl add_bits wch (take k s)"
  using assms by (auto simp: utf8_loop_eq Let_def min_def split: if_splits)

lemma utf8_loop_done_nonzero:
  assumes "\<not> b \<le> 0x7F" "utf8_lead b = Some (msk, n, sb)"
    and "utf8_loop (n - 1) s (ucast (b AND msk)) sb = Some (0, w, sb')"
  shows "w \<noteq> 0" "n \<le> Suc (length s)"
proof -
  obtain lo hi where row: "utf8_row b = Some (n, lo, hi)" "sb = sb_of lo hi"
    "msk = (if n = 2 then 0x1f else if n = 3 then 0x0f else 0x07)" "2 \<le> n" "lowerbound sb \<noteq> 0"
    using utf8_lead_facts [OF assms(2,1)] by blast
  note c = utf8_loop_count [OF row(5) assms(3)]
  then show "n \<le> Suc (length s)" using row(4) by (auto simp: min_def split: if_splits)
  then have "length (take (n - 1) s) = n - 1" by simp
  from utf8_value_nonzero [OF row(1) _ this] c row(2) have "utf8_value n b (take (n - 1) s) \<noteq> 0" by simp
  moreover have "add_bits = (\<lambda>v c. push_bit 6 v OR (ucast c AND 0x3f))"
    by (simp add: add_bits_def fun_eq_iff)
  ultimately show "w \<noteq> 0" using c row(3) by (simp add: utf8_value_def)
qed

lemma ascii_mask: "c AND - 128 = 0 \<longleftrightarrow> c \<le> (0x7F :: byte)"
  using bit_not_iff [of "0x7f :: byte"] by (simp add: bit_blast)

lemma ucast_byte_zero: "(ucast (c :: byte) :: wchar) = 0 \<longleftrightarrow> c = 0"
  by (simp add: bit_blast)

lemma utf8_step:
  assumes "utf8_rep us p" and d: "utf8_dec (p @ s) = (r, w)"
  shows "\<exists>us'. utf8_mbrtowc (Some s) us = (resume (length p) r, w, us') \<and>
    (r = MbIncomplete \<longrightarrow> utf8_rep us' (p @ s)) \<and> ((\<exists>n. r = MbLen n) \<longrightarrow> utf8_rep us' [])"
proof (cases p)
  case Nil
  with assms have want: "u8_want us = 0" by (simp add: utf8_rep_def)
  show ?thesis
  proof (cases s)
    case s: Nil
    with Nil want d show ?thesis
      by (auto simp: utf8_mbrtowc_def utf8_dec_def utf8_rep_def UTF8_MB_CUR_MAX_def)
  next
    case (Cons c s')
    show ?thesis
    proof (cases "c \<le> 0x7F")
      case True
      with Cons Nil want d show ?thesis
        by (auto simp: utf8_mbrtowc_def utf8_body_def utf8_dec_def utf8_rep_def
            UTF8_MB_CUR_MAX_def ascii_mask)
    next
      case False
      with Cons Nil want d show ?thesis
        using utf8_loop_done_nonzero [OF False]
        by (auto simp: utf8_mbrtowc_def utf8_body_def utf8_finish_def utf8_dec_loop utf8_rep_def
            UTF8_MB_CUR_MAX_def ascii_mask split: option.splits prod.splits if_splits)
    qed
  qed
next
  case (Cons b t)
  with assms(1) obtain msk n sb k where b: "\<not> b \<le> 0x7F" and lead: "utf8_lead b = Some (msk, n, sb)"
    and loop: "utf8_loop (n - 1) t (ucast (b AND msk)) sb = Some (k, u8_ch us, u8_sb us)"
    and k: "0 < k" "u8_want us = int k"
    by (auto simp: utf8_rep_def)
  from utf8_lead_facts [OF lead b] have n: "2 \<le> n" "n \<le> 4" "lowerbound sb \<noteq> 0" by auto
  from utf8_loop_count [OF n(3) loop] k n have len: "n = Suc (length t) + k" "k \<le> 4"
    by (auto simp: min_def split: if_splits)
  show ?thesis
  proof (cases s)
    case Nil
    with Cons k b lead loop d assms(1) len(2) show ?thesis
      by (auto simp: utf8_mbrtowc_def utf8_dec_loop UTF8_MB_CUR_MAX_def)
  next
    case s: (Cons c s')
    have all: "utf8_loop (n - 1) (t @ s) (ucast (b AND msk)) sb = utf8_loop k s (u8_ch us) (u8_sb us)"
      using loop by (simp add: utf8_loop_append)
    show ?thesis
    proof (cases "utf8_loop k s (u8_ch us) (u8_sb us)")
      case None
      with all d k len lead b Cons s show ?thesis
        by (auto simp: utf8_mbrtowc_def utf8_body_def utf8_finish_def utf8_dec_loop UTF8_MB_CUR_MAX_def)
    next
      case (Some l)
      obtain k' w' sb' where l: "l = (k', w', sb')" by (cases l)
      have "k' = 0 \<Longrightarrow> w' \<noteq> 0"
        using utf8_loop_done_nonzero(1) [OF b lead] all Some l by auto
      with Some l all d k len lead b Cons s show ?thesis
        by (auto simp: utf8_mbrtowc_def utf8_body_def utf8_finish_def utf8_dec_loop
            UTF8_MB_CUR_MAX_def utf8_rep_def split: if_splits)
    qed
  qed
qed

lemma utf8_dec_rep: "utf8_rep us p \<Longrightarrow> utf8_dec p = (MbIncomplete, None)"
  by (auto simp: utf8_rep_def utf8_dec_loop split: list.splits) (simp add: utf8_dec_def)

lemma trail_in_take: "trail_in sb t \<Longrightarrow> trail_in sb (take k t)"
  by (cases k) (auto simp: trail_in_def split: list.splits dest: in_set_takeD)

lemma utf8_dec_take:
  assumes d: "utf8_dec s = (MbLen n, w)" and "n \<noteq> 0"
  shows "utf8_dec (take n s) = (MbLen n, w)"
proof -
  from assms obtain b r m where s: "s = b # r" and m: "n = Suc m"
    by (cases s; cases n) (auto simp: utf8_dec_def)
  show ?thesis
  proof (cases "b \<le> 0x7F")
    case True
    with d s m show ?thesis by (auto simp: utf8_dec_def)
  next
    case False
    with d s obtain lo hi where "utf8_row b = Some (n, lo, hi)"
      by (auto simp: utf8_dec_def Let_def split: if_splits option.splits)
    with False d s m show ?thesis by (simp add: utf8_dec_def)
  qed
qed

interpretation utf8_decoder: mb_decoder utf8_mbrtowc utf8_dec utf8_rep
proof
  fix us p assume "utf8_rep us p"
  then show "utf8_dec p = (MbIncomplete, None)" by (rule utf8_dec_rep)
next
  fix s n w assume d: "utf8_dec s = (MbLen n, w)"
  then obtain b t where s: "s = b # t" by (cases s) (auto simp: utf8_dec_def)
  show "n \<le> length s \<and> (\<exists>c. w = Some c \<and> (n = 0) = (c = 0))"
  proof (cases "b \<le> 0x7F")
    case True
    with d s show ?thesis by (auto simp: utf8_dec_def ucast_byte_zero)
  next
    case False
    with d s obtain msk sb w' sb' where fin: "utf8_lead b = Some (msk, n, sb)"
      "utf8_loop (n - 1) t (ucast (b AND msk)) sb = Some (0, w', sb')" "w = Some w'"
      by (auto simp: utf8_dec_loop split: option.splits prod.splits if_splits)
    from utf8_loop_done_nonzero [OF False fin(1,2)] utf8_lead_facts(1) [OF fin(1) False] fin(3) s
    show ?thesis by auto
  qed
next
  fix s n w assume "utf8_dec s = (MbLen n, w)" "n \<noteq> 0"
  then show "utf8_dec (take n s) = (MbLen n, w)" by (rule utf8_dec_take)
next
  fix s t assume "fst (utf8_dec s) \<noteq> MbIncomplete"
  then show "utf8_dec (s @ t) = utf8_dec s"
  proof (cases s)
    case (Cons b s')
    assume d: "fst (utf8_dec s) \<noteq> MbIncomplete"
    show ?thesis
    proof (cases "b \<le> 0x7F")
      case True
      with Cons show ?thesis by (simp add: utf8_dec_def)
    next
      case False
      with Cons d show ?thesis
        by (auto simp: utf8_dec_loop utf8_loop_append split: option.splits prod.splits if_splits)
    qed
  qed (simp add: utf8_dec_def)
next
  fix s r w e assume "utf8_dec s = (r, w)" "r = MbIncomplete \<or> r = MbErr e"
  then show "w = None"
    by (auto simp: utf8_dec_def Let_def split: list.splits if_splits option.splits)
qed (rule utf8_step)

section \<open>The encoder\<close>

text \<open>Scalar values: the code points without the surrogates.\<close>

definition utf8_scalar :: "wchar \<Rightarrow> bool" where
  "utf8_scalar c \<longleftrightarrow> c \<le> 0x10FFFF \<and> \<not> (0xD800 \<le> c \<and> c \<le> 0xDFFF)"

definition utf8_enc :: "wchar \<Rightarrow> byte list option" where
  "utf8_enc c =
     (if c \<le> 0x7F then Some [ucast c]
      else if c \<le> 0x7FF then Some [0xC0 OR ucast (drop_bit 6 c), 0x80 OR ucast (c AND 0x3f)]
      else if 0xD800 \<le> c \<and> c \<le> 0xDFFF then None
      else if c \<le> 0xFFFF then
        Some [0xE0 OR ucast (drop_bit 12 c), 0x80 OR ucast (drop_bit 6 c AND 0x3f),
          0x80 OR ucast (c AND 0x3f)]
      else if c \<le> 0x10FFFF then
        Some [0xF0 OR ucast (drop_bit 18 c), 0x80 OR ucast (drop_bit 12 c AND 0x3f),
          0x80 OR ucast (drop_bit 6 c AND 0x3f), 0x80 OR ucast (c AND 0x3f)]
      else None)"

lemma wchar_masks:
  "c AND - 128 = 0 \<longleftrightarrow> c \<le> 0x7F" "c AND - 2048 = 0 \<longleftrightarrow> c \<le> 0x7FF"
  "c AND - 65536 = 0 \<longleftrightarrow> c \<le> 0xFFFF" "c AND - 2097152 = 0 \<longleftrightarrow> c \<le> 0x1FFFFF"
  for c :: wchar
  by (simp add: bit_blast; blast)+

lemma wchar_signed_small:
  fixes c d :: wchar
  assumes "c \<le> 0x1FFFFF" "d \<le> 0x1FFFFF"
  shows "c <s d \<longleftrightarrow> c < d" "c \<le>s d \<longleftrightarrow> c \<le> d"
proof -
  have "\<not> bit x 31" if "x \<le> 0x1FFFFF" for x :: wchar
    using that by (simp add: word32_le_bits)
  with assms have "\<not> bit c 31" "\<not> bit d 31" by blast+
  then show "c <s d \<longleftrightarrow> c < d" by (simp add: word32_sless_bits)
  with \<open>\<not> bit c 31\<close> \<open>\<not> bit d 31\<close> show "c \<le>s d \<longleftrightarrow> c \<le> d"
    by (auto simp: word32_sle_bits not_less)
qed

lemma utf8_emit_2:
  "c \<le> 0x7FF \<Longrightarrow> utf8_emit 1 c 0xc0 = [0xC0 OR ucast (drop_bit 6 c), 0x80 OR ucast (c AND 0x3f)]"
  by (simp add: bit_blast) blast?

lemma utf8_emit_3:
  "c \<le> 0xFFFF \<Longrightarrow> utf8_emit 2 c 0xe0 =
    [0xE0 OR ucast (drop_bit 12 c), 0x80 OR ucast (drop_bit 6 c AND 0x3f), 0x80 OR ucast (c AND 0x3f)]"
  by (simp add: bit_blast numeral_2_eq_2) blast?

lemma utf8_emit_4:
  "c \<le> 0x10FFFF \<Longrightarrow> utf8_emit 3 c 0xf0 =
    [0xF0 OR ucast (drop_bit 18 c), 0x80 OR ucast (drop_bit 12 c AND 0x3f),
     0x80 OR ucast (drop_bit 6 c AND 0x3f), 0x80 OR ucast (c AND 0x3f)]"
  by (simp add: bit_blast numeral_3_eq_3) blast?

lemma utf8_wcrtomb_enc:
  assumes "u8_want us = 0"
  shows "utf8_wcrtomb True c us =
    (case utf8_enc c of None \<Rightarrow> (Inl EILSEQ, [], us) | Some bs \<Rightarrow> (Inr (length bs), bs, us))"
proof (cases "c \<le> 0x1FFFFF")
  case True
  have "0xd800 \<le>s c \<longleftrightarrow> 0xd800 \<le> c" "c \<le>s 0xdfff \<longleftrightarrow> c \<le> 0xdfff" "0x10ffff <s c \<longleftrightarrow> 0x10ffff < c"
    using True by (simp_all add: wchar_signed_small)
  then show ?thesis
    using assms True
    by (auto simp: utf8_wcrtomb_def utf8_enc_def wchar_masks utf8_emit_2 utf8_emit_3 utf8_emit_4
        word_le_nat_alt word_less_nat_alt simp del: utf8_emit.simps One_nat_def)
next
  case False
  then have "\<not> c \<le> 0x10FFFF" "\<not> c \<le> 0xFFFF" "\<not> c \<le> 0xDFFF" "\<not> c \<le> 0x7FF" "\<not> c \<le> 0x7F"
    by (simp_all add: word_le_nat_alt)
  with False assms show ?thesis by (simp add: utf8_wcrtomb_def utf8_enc_def wchar_masks)
qed

lemma surrogate_bits: "0xD800 \<le> c \<and> c \<le> 0xDFFF \<longleftrightarrow> drop_bit 11 c = 0x1b" for c :: wchar
  unfolding word_le_nat_alt word_unat_eq_iff unat_drop_bit_eq by (simp add: drop_bit_eq_div) arith

lemma wchar_above:
  "c \<le> 0x7F \<longleftrightarrow> drop_bit 7 c = 0" "c \<le> 0x7FF \<longleftrightarrow> drop_bit 11 c = 0" "c \<le> 0xFFFF \<longleftrightarrow> drop_bit 16 c = 0"
  "c \<le> 0x10FFFF \<longleftrightarrow> drop_bit 16 c \<le> 0x10" for c :: wchar
  unfolding word_le_nat_alt word_unat_eq_iff unat_drop_bit_eq by (simp_all add: drop_bit_eq_div) arith+

text \<open>Complete sequences, decoded by the table.\<close>

lemma utf8_dec_two:
  "0xC2 \<le> b \<Longrightarrow> b \<le> 0xDF \<Longrightarrow> 0x80 \<le> c \<Longrightarrow> c \<le> 0xBF \<Longrightarrow>
    utf8_dec [b, c] = (MbLen 2, Some (utf8_value 2 b [c]))"
proof -
  assume *: "0xC2 \<le> b" "b \<le> 0xDF" "0x80 \<le> c" "c \<le> 0xBF"
  then have "\<not> b \<le> 0x7F" by (simp add: word_le_nat_alt)
  with * show ?thesis by (simp add: utf8_dec_def utf8_row_def utf8_trail_ok_def)
qed

lemma utf8_row_three:
  "0xE0 \<le> b \<Longrightarrow> b \<le> 0xEF \<Longrightarrow> utf8_row b =
    Some (3, if b = 0xE0 then 0xA0 else 0x80, if b = 0xED then 0x9F else 0xBF)"
  by (simp add: utf8_row_def bit_blast) blast?

lemma utf8_row_four:
  "0xF0 \<le> b \<Longrightarrow> b \<le> 0xF4 \<Longrightarrow> utf8_row b =
    Some (4, if b = 0xF0 then 0x90 else 0x80, if b = 0xF4 then 0x8F else 0xBF)"
  by (simp add: utf8_row_def bit_blast) blast?

lemma utf8_dec_three:
  assumes "0xE0 \<le> b" "b \<le> 0xEF" "0x80 \<le> c" "c \<le> 0xBF" "0x80 \<le> d" "d \<le> 0xBF"
    "b = 0xE0 \<longrightarrow> 0xA0 \<le> c" "b = 0xED \<longrightarrow> c \<le> 0x9F"
  shows "utf8_dec [b, c, d] = (MbLen 3, Some (utf8_value 3 b [c, d]))"
proof -
  from assms have "\<not> b \<le> 0x7F" by (simp add: word_le_nat_alt)
  with assms show ?thesis
    by (simp add: utf8_dec_def utf8_row_three utf8_trail_ok_def)
qed

lemma utf8_dec_four:
  assumes "0xF0 \<le> b" "b \<le> 0xF4" "0x80 \<le> c" "c \<le> 0xBF" "0x80 \<le> d" "d \<le> 0xBF"
    "0x80 \<le> e" "e \<le> 0xBF" "b = 0xF0 \<longrightarrow> 0x90 \<le> c" "b = 0xF4 \<longrightarrow> c \<le> 0x8F"
  shows "utf8_dec [b, c, d, e] = (MbLen 4, Some (utf8_value 4 b [c, d, e]))"
proof -
  from assms have "\<not> b \<le> 0x7F" by (simp add: word_le_nat_alt)
  with assms show ?thesis
    by (simp add: utf8_dec_def utf8_row_four utf8_trail_ok_def)
qed

lemma utf8_dec_of_enc:
  assumes "utf8_scalar c"
  shows "\<exists>bs. utf8_enc c = Some bs \<and> utf8_dec bs = (MbLen (if c = 0 then 0 else length bs), Some c)"
proof -
  consider "c \<le> 0x7F" | "\<not> c \<le> 0x7F" "c \<le> 0x7FF"
    | "\<not> c \<le> 0x7F" "\<not> c \<le> 0x7FF" "c \<le> 0xFFFF" "\<not> (0xD800 \<le> c \<and> c \<le> 0xDFFF)"
    | "\<not> c \<le> 0x7F" "\<not> c \<le> 0x7FF" "\<not> c \<le> 0xFFFF" "c \<le> 0x10FFFF"
    using assms unfolding utf8_scalar_def by blast
  then show ?thesis
  proof cases
    case 1
    then have "(ucast c :: byte) \<le> 0x7F" "(ucast (ucast c :: byte) :: wchar) = c"
      "(ucast c :: byte) = 0 \<longleftrightarrow> c = 0"
      by (simp_all add: word_le_nat_alt word_unat_eq_iff unsigned_ucast_eq take_bit_eq_mod unat_mod_distrib)
    with 1 show ?thesis by (simp add: utf8_enc_def utf8_dec_def)
  next
    case 2
    note r = 2 [unfolded wchar_above surrogate_bits]
    let ?b = "0xC0 OR ucast (drop_bit 6 c) :: byte" and ?c = "0x80 OR ucast (c AND 0x3f) :: byte"
    from r have "0xC2 \<le> ?b" "?b \<le> 0xDF" "0x80 \<le> ?c" "?c \<le> 0xBF"
      by (simp_all add: bit_blast) blast
    moreover from r have "utf8_value 2 ?b [?c] = c"
      by (simp add: utf8_value_def bit_blast)
    moreover from 2 have "c \<noteq> 0" by auto
    ultimately show ?thesis using 2 utf8_dec_two [of ?b ?c] by (simp add: utf8_enc_def)
  next
    case 3
    note r = 3 [unfolded wchar_above surrogate_bits]
    let ?b = "0xE0 OR ucast (drop_bit 12 c) :: byte" and ?d = "0x80 OR ucast (c AND 0x3f) :: byte"
      and ?c = "0x80 OR ucast (drop_bit 6 c AND 0x3f) :: byte"
    from r have "0xE0 \<le> ?b" "?b \<le> 0xEF" by (simp_all add: bit_blast)
    moreover have "0x80 \<le> ?c" "?c \<le> 0xBF" "0x80 \<le> ?d" "?d \<le> 0xBF"
      by (simp_all add: bit_blast)
    moreover from r have "?b = 0xE0 \<longrightarrow> 0xA0 \<le> ?c" by (simp add: bit_blast) blast
    moreover from r have "?b = 0xED \<longrightarrow> ?c \<le> 0x9F" by (simp add: bit_blast) blast
    moreover from r have "utf8_value 3 ?b [?c, ?d] = c"
      by (simp add: utf8_value_def bit_blast)
    moreover from 3 have "c \<noteq> 0" by auto
    ultimately show ?thesis using 3 utf8_dec_three [of ?b ?c ?d] by (auto simp: utf8_enc_def)
  next
    case 4
    note r = 4 [unfolded wchar_above surrogate_bits]
    let ?b = "0xF0 OR ucast (drop_bit 18 c) :: byte" and ?e = "0x80 OR ucast (c AND 0x3f) :: byte"
      and ?d = "0x80 OR ucast (drop_bit 6 c AND 0x3f) :: byte"
      and ?c = "0x80 OR ucast (drop_bit 12 c AND 0x3f) :: byte"
    from r have "0xF0 \<le> ?b" "?b \<le> 0xF4" by (simp_all add: bit_blast) blast
    moreover have "0x80 \<le> ?c" "?c \<le> 0xBF" "0x80 \<le> ?d" "?d \<le> 0xBF" "0x80 \<le> ?e" "?e \<le> 0xBF"
      by (simp_all add: bit_blast)
    moreover from r have "?b = 0xF0 \<longrightarrow> 0x90 \<le> ?c" by (simp add: bit_blast) blast
    moreover from r have "?b = 0xF4 \<longrightarrow> ?c \<le> 0x8F" by (simp add: bit_blast) blast
    moreover from r have "utf8_value 4 ?b [?c, ?d, ?e] = c"
      by (simp add: utf8_value_def bit_blast) blast
    moreover from 4 have "c \<noteq> 0" by auto
    moreover from 4 have "\<not> (0xD800 \<le> c \<and> c \<le> 0xDFFF)" by (simp add: word_le_nat_alt)
    ultimately show ?thesis using 4 utf8_dec_four [of ?b ?c ?d ?e] by (simp add: utf8_enc_def)
  qed
qed

lemma utf8_dec_complete:
  assumes "utf8_dec s = (MbLen n, Some c)" "c \<noteq> 0"
  obtains (ascii) b where "take n s = [b]" "b \<le> 0x7F" "c = ucast b" "n = 1"
  | (multi) b lo hi t where "take n s = b # t" "utf8_row b = Some (n, lo, hi)"
      "trail_in (sb_of lo hi) t" "length t = n - 1" "c = utf8_value n b t"
proof -
  from assms obtain b r where s: "s = b # r" by (cases s) (auto simp: utf8_dec_def)
  show thesis
  proof (cases "b \<le> 0x7F")
    case True
    with s assms show ?thesis
      by (auto simp: utf8_dec_def ucast_byte_zero intro!: ascii [of b] split: if_splits)
  next
    case False
    with s assms obtain lo hi where row: "utf8_row b = Some (n, lo, hi)"
      "utf8_trail_ok lo hi (take (n - 1) r)" "length (take (n - 1) r) = n - 1"
      "c = utf8_value n b (take (n - 1) r)"
      by (auto simp: utf8_dec_def Let_def split: if_splits option.splits)
    moreover have "take n s = b # take (n - 1) r"
      using row(1) s by (cases n) (auto simp: utf8_row_def split: if_splits)
    ultimately show ?thesis by (intro multi) (auto simp: row_trail)
  qed
qed

lemma utf8_enc_of_dec:
  assumes "utf8_dec s = (MbLen n, Some c)" "c \<noteq> 0"
  shows "utf8_scalar c \<and> utf8_enc c = Some (take n s)"
  using assms
proof (cases rule: utf8_dec_complete)
  case (ascii b)
  then have "c \<le> 0x7F" by (simp add: bit_blast)
  moreover have "(ucast c :: byte) = b" using ascii by (simp add: bit_blast)
  moreover from \<open>c \<le> 0x7F\<close> have "c \<le> 0x10FFFF" "\<not> 0xD800 \<le> c" by (simp_all add: word_le_nat_alt)
  ultimately show ?thesis using ascii by (simp add: utf8_scalar_def utf8_enc_def)
next
  case (multi b lo hi t)
  from multi(2-4) show ?thesis
  proof (cases rule: utf8_char_cases)
    case (two d)
    have "c \<le> 0x7FF" unfolding wchar_above using two multi(5)
      by (simp add: utf8_value_def bit_blast)
    moreover have "\<not> c \<le> 0x7F" unfolding wchar_above using two multi(5)
      by (simp add: utf8_value_def bit_blast) blast
    moreover have "0xC0 OR ucast (drop_bit 6 c) = b" "0x80 OR ucast (c AND 0x3f) = d"
      using two multi(5) by (simp_all add: utf8_value_def bit_blast)
    moreover from \<open>c \<le> 0x7FF\<close> have "c \<le> 0x10FFFF" "\<not> 0xD800 \<le> c" by (simp_all add: word_le_nat_alt)
    ultimately show ?thesis using multi(1) two by (simp add: utf8_enc_def utf8_scalar_def)
  next
    case (three d e)
    have "c \<le> 0xFFFF" unfolding wchar_above using three multi(5)
      by (simp add: utf8_value_def bit_blast)
    moreover have "\<not> c \<le> 0x7FF" unfolding wchar_above using three(3,4,5,6,9) multi(5) three(1,2)
      by (simp add: utf8_value_def bit_blast) blast
    moreover have "\<not> (0xD800 \<le> c \<and> c \<le> 0xDFFF)" unfolding surrogate_bits
      using three(3,4,5,6,10) multi(5) three(1,2)
      by (simp add: utf8_value_def bit_blast) blast
    moreover have "0xE0 OR ucast (drop_bit 12 c) = b" "0x80 OR ucast (drop_bit 6 c AND 0x3f) = d"
      "0x80 OR ucast (c AND 0x3f) = e"
      using three multi(5) by (simp_all add: utf8_value_def bit_blast)
    moreover from calculation(1,2) have "c \<le> 0x10FFFF" "\<not> c \<le> 0x7F"
      by (simp_all add: word_le_nat_alt)
    ultimately show ?thesis using multi(1) three(1,2)
      unfolding utf8_enc_def utf8_scalar_def by (simp only: if_False if_True simp_thms)
  next
    case (four d e f)
    have "\<not> c \<le> 0xFFFF" unfolding wchar_above using four(1,2,3,4,5,6,11) multi(5)
      by (simp add: utf8_value_def bit_blast) blast
    moreover have "c \<le> 0x10FFFF" unfolding wchar_above using four(1,2,3,4,5,6,12) multi(5)
      by (simp add: utf8_value_def bit_blast) blast
    moreover have "0xF0 OR ucast (drop_bit 18 c) = b" "0x80 OR ucast (drop_bit 12 c AND 0x3f) = d"
      "0x80 OR ucast (drop_bit 6 c AND 0x3f) = e" "0x80 OR ucast (c AND 0x3f) = f"
      using four multi(5) by (simp_all add: utf8_value_def bit_blast)
    moreover from calculation(1) have "\<not> c \<le> 0xDFFF" "\<not> c \<le> 0x7FF" "\<not> c \<le> 0x7F"
      by (simp_all add: word_le_nat_alt)
    ultimately show ?thesis using multi(1) four(1,2)
      unfolding utf8_enc_def utf8_scalar_def by (simp only: if_False if_True simp_thms)
  qed
qed

lemma utf8_enc_length:
  "utf8_enc c = Some bs \<Longrightarrow> 0 < length bs \<and> length bs \<le> UTF8_MB_CUR_MAX"
  by (auto simp: utf8_enc_def UTF8_MB_CUR_MAX_def split: if_splits)

lemma utf8_rep_Nil [simp]: "utf8_rep us [] \<longleftrightarrow> u8_want us = 0"
  by (simp add: utf8_rep_def)

interpretation utf8: mb_strict_codec utf8_mbrtowc utf8_dec utf8_rep utf8_wcrtomb utf8_enc
  utf8_scalar UTF8_MB_CUR_MAX
proof unfold_locales
  show "utf8_enc 0 = Some [0]" by (simp add: utf8_enc_def)
  show "utf8_scalar 0" by (simp add: utf8_scalar_def)
qed (auto simp: utf8_wcrtomb_enc utf8_dec_of_enc utf8_enc_of_dec dest: utf8_enc_length)

section \<open>The fast paths change nothing\<close>

lemma utf8_ascii_first:
  "u8_want us = 0 \<Longrightarrow> ascii_not_nul c \<Longrightarrow>
    utf8_mbrtowc (Some (c # s)) us = (MbLen 1, Some (scast c), us)"
  by (simp add: ascii_not_nul_iff utf8_mbrtowc_def utf8_body_def UTF8_MB_CUR_MAX_def ascii_mask
      scast_ascii)

lemma utf8_ascii_inside:
  assumes "utf8_rep us p" "u8_want us \<noteq> 0" "ascii_not_nul c"
  shows "utf8_mbrtowc (Some (c # s)) us = (MbErr EILSEQ, None, us)"
proof -
  from assms(1,2) obtain b t where p: "p = b # t" by (cases p) auto
  with assms(1) obtain msk n sb k where b: "\<not> b \<le> 0x7F" and lead: "utf8_lead b = Some (msk, n, sb)"
    and loop: "utf8_loop (n - 1) t (ucast (b AND msk)) sb = Some (k, u8_ch us, u8_sb us)"
    and k: "0 < k" "u8_want us = int k"
    by (auto simp: utf8_rep_def)
  from utf8_lead_facts [OF lead b] obtain lo hi where row: "utf8_row b = Some (n, lo, hi)"
    "sb = sb_of lo hi" "n \<le> 4" "lowerbound sb \<noteq> 0" by blast
  have c: "\<not> 0x80 \<le> c" using assms(3) by (auto simp: ascii_not_nul_iff word_le_nat_alt)
  have "\<not> lo \<le> c"
    using row(1) c by (auto simp: utf8_row_def word_le_nat_alt split: if_splits)
  moreover have "u8_sb us = sb \<or> u8_sb us = sb_00_00"
    using loop row(4) by (auto simp: utf8_loop_eq Let_def split: if_splits)
  ultimately have "\<not> in_sb (u8_sb us) c" "lowerbound (u8_sb us) = 0 \<longrightarrow> u8_sb us = sb_00_00"
    using c row(2,4) by (auto simp: in_sb_def sb_of_def sb_00_00_def)
  moreover obtain m where m: "k = Suc m" using k(1) by (cases k) auto
  ultimately have "utf8_loop k (c # s) (u8_ch us) (u8_sb us) = None"
    by (simp add: utf8_loop_Cons del: utf8_loop.simps)
  moreover from utf8_loop_count [OF row(4) loop] row(3) have "k \<le> 4" by simp
  ultimately show ?thesis
    using k by (simp add: utf8_mbrtowc_def utf8_body_def utf8_finish_def UTF8_MB_CUR_MAX_def)
qed

interpretation utf8_fast: ascii_codec utf8_mbrtowc utf8_dec utf8_rep utf8_wcrtomb utf8_enc
  utf8_scalar UTF8_MB_CUR_MAX u8_want
proof unfold_locales
  fix us p c s
  show "utf8_rep us [] \<longleftrightarrow> u8_want us = 0" by simp
  show "utf8_rep us p \<Longrightarrow> 0 \<le> u8_want us" by (auto simp: utf8_rep_def split: list.splits)
  show "u8_want us = 0 \<Longrightarrow> ascii_not_nul c \<Longrightarrow>
      utf8_mbrtowc (Some (c # s)) us = (MbLen 1, Some (scast c), us)"
    by (rule utf8_ascii_first)
  show "utf8_rep us p \<Longrightarrow> u8_want us \<noteq> 0 \<Longrightarrow> ascii_not_nul c \<Longrightarrow>
      utf8_mbrtowc (Some (c # s)) us = (MbErr EILSEQ, None, us)"
    by (rule utf8_ascii_inside)
next
  fix c :: wchar
  assume "0 \<le>s c" "c <s 0x80"
  then have "c \<le> 0x7F" by (simp add: bit_blast)
  then show "utf8_enc c = Some [ucast c]" by (simp add: utf8_enc_def)
qed

lemma utf8_mbsnrtowcs_std:
  "utf8_rep us p \<Longrightarrow> utf8_mbsnrtowcs has_dst s len us = mbsnrtowcs_std utf8_mbrtowc has_dst s len us"
  by (simp add: utf8_mbsnrtowcs_def utf8_fast.mbsnrtowcs_fast)

lemma utf8_wcsnrtombs_std:
  "u8_want us = 0 \<Longrightarrow> utf8_wcsnrtombs has_dst s len us =
    wcsnrtombs_std utf8_wcrtomb UTF8_MB_CUR_MAX has_dst s len us"
  by (simp add: utf8_wcsnrtombs_def utf8_fast.wcsnrtombs_fast)

section \<open>Properties\<close>

definition utf8_initial :: utf8_state where
  \<comment> \<open>the zeroed \<open>mbstate_t\<close>\<close>
  "utf8_initial = \<lparr>u8_ch = 0, u8_want = 0, u8_sb = sb_00_00\<rparr>"

text \<open>
  C1: in an initial state, the decoder is the table of well-formed UTF-8 sequences: it
  accepts a sequence, reports it as incomplete, or rejects it exactly as the table says.
\<close>

theorem utf8_mbrtowc_table:
  assumes "u8_want us = 0"
  shows "\<exists>us'. utf8_mbrtowc (Some s) us = (fst (utf8_dec s), snd (utf8_dec s), us')"
  using utf8_decoder.step [of us "[]" s "fst (utf8_dec s)" "snd (utf8_dec s)"] assms by auto

theorem utf8_mbrtowc_table_witness:
  "\<exists>us'. utf8_mbrtowc (Some [0xE2, 0x82, 0xAC]) utf8_initial = (MbLen 3, Some 0x20AC, us')"
proof -
  have "utf8_dec [0xE2, 0x82, 0xAC] = (MbLen 3, Some 0x20AC)"
    by (simp add: utf8_dec_def utf8_row_def utf8_trail_ok_def utf8_value_def)
  then show ?thesis
    using utf8_mbrtowc_table [of utf8_initial "[0xE2, 0x82, 0xAC]"]
    by (simp add: utf8_initial_def)
qed

text \<open>
  C2: every Unicode scalar value is encoded, and decoding what was encoded, whatever
  follows it, gives the character back with its length (0 for the null character) and
  leaves an initial state.
\<close>

theorem utf8_encode_decode:
  assumes "utf8_scalar c" "u8_want us = 0"
  shows "\<exists>bs us'. utf8_wcrtomb True c us = (Inr (length bs), bs, us) \<and>
    utf8_mbrtowc (Some (bs @ rest)) us = (MbLen (if c = 0 then 0 else length bs), Some c, us') \<and>
    u8_want us' = 0"
proof -
  obtain bs where bs: "utf8_enc c = Some bs"
    "utf8_dec (bs @ rest) = (MbLen (if c = 0 then 0 else length bs), Some c)"
    using utf8_dec_of_enc [OF assms(1)] utf8.dec_of_enc [OF assms(1)] by blast
  from assms(2) have "utf8_rep us []" by simp
  from utf8_decoder.step [OF this, of "bs @ rest"] utf8.enc_some [OF this bs(1)] bs(2)
  show ?thesis by auto
qed

theorem utf8_encode_decode_witness:
  "\<exists>bs us'. utf8_wcrtomb True 0x10FFFF utf8_initial = (Inr (length bs), bs, utf8_initial) \<and>
    utf8_mbrtowc (Some (bs @ [0x41])) utf8_initial = (MbLen (length bs), Some 0x10FFFF, us')"
  using utf8_encode_decode [of "0x10FFFF" utf8_initial "[0x41]"]
  by (auto simp: utf8_scalar_def utf8_initial_def)

text \<open>
  C3: the decoder accepts nothing but the encodings of scalar values: a character it
  returns is a scalar value, and encoding it gives the bytes it was read from (so no
  overlong form, no surrogate and nothing above U+10FFFF is accepted).
\<close>

theorem utf8_decode_encode:
  assumes "u8_want us = 0" "utf8_mbrtowc (Some s) us = (MbLen n, Some c, us')" "c \<noteq> 0"
  shows "utf8_scalar c \<and> utf8_wcrtomb True c us = (Inr n, take n s, us)"
proof -
  from assms(1) have "utf8_rep us []" by simp
  then show ?thesis
  proof (cases rule: utf8_decoder.step_cases [where s = s])
    case (char k d us2)
    with assms(2) have d: "utf8_dec s = (MbLen n, Some c)" "n \<le> length s" by auto
    with utf8_enc_of_dec [OF d(1) assms(3)] utf8.enc_some [of us c "take n s"] assms(1)
    show ?thesis by simp
  qed (use assms in auto)
qed

theorem utf8_decode_encode_witness:
  "utf8_scalar 0x7FF \<and>
    utf8_wcrtomb True 0x7FF utf8_initial = (Inr 2, [0xDF, 0xBF], utf8_initial)"
proof -
  have "utf8_mbrtowc (Some [0xDF, 0xBF, 0x41]) utf8_initial = (MbLen 2, Some 0x7FF, utf8_initial)"
    by code_simp
  then show ?thesis
    using utf8_decode_encode [of utf8_initial "[0xDF, 0xBF, 0x41]" 2 "0x7FF" utf8_initial]
    by (simp add: utf8_initial_def)
qed

text \<open>
  Restarting: when a first chunk ends inside a character, decoding the next chunk from
  the saved state gives the character, the length and the kind of state that decoding both
  chunks at once gives.
\<close>

lemma utf8_restart:
  assumes "utf8_rep us p" "utf8_mbrtowc (Some xs) us = (MbIncomplete, w, us1)"
    and "utf8_mbrtowc (Some (xs @ ys)) us = (r, c, us2)"
  shows "\<exists>us3. utf8_mbrtowc (Some ys) us1 = (resume (length xs) r, c, us3) \<and>
    (r = MbIncomplete \<longrightarrow> utf8_rep us2 (p @ xs @ ys) \<and> utf8_rep us3 (p @ xs @ ys)) \<and>
    ((\<exists>n. r = MbLen n) \<longrightarrow> u8_want us2 = 0 \<and> u8_want us3 = 0)"
  using utf8_decoder.restart [OF assms] by simp

text \<open>
  C4: the ASCII fast paths of the decoding string conversion, and the check that makes
  them safe, change nothing: it is \<open>__mbsnrtowcs_std\<close> over \<open>_UTF8_mbrtowc\<close>, in
  everything it returns and stores, from every state a call can have left.
\<close>

theorem utf8_mbsnrtowcs_fast_paths:
  assumes "utf8_rep us p"
  shows "utf8_mbsnrtowcs has_dst s len us = mbsnrtowcs_std utf8_mbrtowc has_dst s len us"
  using assms by (rule utf8_mbsnrtowcs_std)

theorem utf8_mbsnrtowcs_fast_paths_witness:
  "utf8_mbsnrtowcs True [0x41, 0xC3, 0xA9, 0] 8 utf8_initial =
    mbsnrtowcs_std utf8_mbrtowc True [0x41, 0xC3, 0xA9, 0] 8 utf8_initial"
  by (rule utf8_mbsnrtowcs_fast_paths [of _ "[]"]) (simp add: utf8_initial_def)

text \<open>
  Likewise for the encoding string conversion, whose temporary buffer needs no saved
  state: in an initial state it is \<open>__wcsnrtombs_std\<close> over \<open>_UTF8_wcrtomb\<close>.
\<close>

lemma utf8_wcsnrtombs_fast_paths:
  assumes "u8_want us = 0"
  shows "utf8_wcsnrtombs has_dst s len us =
    wcsnrtombs_std utf8_wcrtomb UTF8_MB_CUR_MAX has_dst s len us"
  using assms by (rule utf8_wcsnrtombs_std)

text \<open>
  C5: a terminated string of scalar values survives encoding and decoding with the string
  conversions, in buffers of four bytes and one wide character for each of its characters.
\<close>

theorem utf8_string_roundtrip:
  assumes "u8_want us = 0" "u8_want vs = 0" "\<forall>c \<in> set cs. utf8_scalar c" "0 \<notin> set cs"
  shows "\<exists>bs vs'. u8_want vs' = 0 \<and>
    utf8_wcsnrtombs True (cs @ [0]) (4 * length cs + 1) us =
      (Inr (length bs), bs @ [0], SrcNull, us) \<and>
    utf8_mbsnrtowcs True (bs @ [0]) (length cs + 1) vs =
      Some (Inr (length cs), cs @ [0], SrcNull, vs')"
  using utf8.string_roundtrip [of us vs cs] assms utf8_mbsnrtowcs_std [of vs "[]"]
  by (simp add: utf8_wcsnrtombs_std UTF8_MB_CUR_MAX_def)

theorem utf8_string_roundtrip_witness:
  "\<exists>bs vs'. utf8_wcsnrtombs True [0x41, 0x20AC, 0x1F600, 0] 13 utf8_initial =
      (Inr (length bs), bs @ [0], SrcNull, utf8_initial) \<and>
    utf8_mbsnrtowcs True (bs @ [0]) 4 utf8_initial =
      Some (Inr 3, [0x41, 0x20AC, 0x1F600, 0], SrcNull, vs')"
proof -
  have "length [0x41, 0x20AC, 0x1F600 :: wchar] = 3" by simp
  from utf8_string_roundtrip [of utf8_initial utf8_initial "[0x41, 0x20AC, 0x1F600]",
      unfolded this]
  show ?thesis by (auto simp: utf8_initial_def utf8_scalar_def)
qed

text \<open>
  C6: the encoding string conversion never writes more than the \<open>len\<close> bytes of its
  destination, also when it fails or stops at a character that does not fit.
\<close>

theorem utf8_wcsnrtombs_fits:
  assumes "utf8_wcsnrtombs has_dst s len us = (r, d, src, us')"
  shows "length d \<le> len"
  using assms unfolding utf8_wcsnrtombs_def by (rule utf8_fast.wcsnrtombs_fits)

theorem utf8_wcsnrtombs_fits_witness:
  "length (fst (snd (utf8_wcsnrtombs True [0x41, 0x20AC] 3 utf8_initial))) \<le> 3"
proof -
  obtain r d src us' where "utf8_wcsnrtombs True [0x41, 0x20AC] 3 utf8_initial = (r, d, src, us')"
    by (metis prod_cases4)
  with utf8_wcsnrtombs_fits [OF this] show ?thesis by simp
qed

end
