(* ===== verification/Single_Byte_Codecs.thy ===== *)
theory Single_Byte_Codecs
  imports Mb_Codec
begin

text \<open>
  The two encodings of one byte for each character: \<open>none.c\<close>, in which every byte is a
  character, and \<open>ascii.c\<close>, in which only the first 128 are. They have no conversion
  state. Both come with string conversions of their own, shown to be the generic ones.
\<close>

section \<open>\<open>none.c\<close>\<close>

definition none_mbsinit :: "unit option \<Rightarrow> bool" where
  "none_mbsinit ps = True"

definition none_mbrtowc :: "unit mbrtowc_fn" where
  "none_mbrtowc s ps =
     (case s of None \<Rightarrow> (MbLen 0, None, ps)
      | Some [] \<Rightarrow> (MbIncomplete, None, ps)
      | Some (c # _) \<Rightarrow> (MbLen (if c = 0 then 0 else 1), Some (ucast c), ps))"

definition none_wcrtomb :: "unit wcrtomb_fn" where
  "none_wcrtomb has_s wc ps =
     (if \<not> has_s then (Inr 1, [], ps)
      else if wc <s 0 \<or> 255 <s wc then (Inl EILSEQ, [], ps)
      else (Inr 1, [ucast wc], ps))"

text \<open>\<open>memchr\<close> finds the first null byte among the \<open>nms\<close> bytes.\<close>

fun c_memchr :: "byte list \<Rightarrow> byte \<Rightarrow> nat option" where
  "c_memchr [] c = None"
| "c_memchr (b # s) c = (if b = c then Some 0 else map_option Suc (c_memchr s c))"

fun none_mbs_convert :: "nat \<Rightarrow> byte list \<Rightarrow> nat \<Rightarrow> unit \<Rightarrow> nat \<Rightarrow> wchar list \<Rightarrow>
    (wchar, unit) conv_result option" where
  "none_mbs_convert 0 s off ps nchr dst = Some (Inr nchr, dst, SrcAt off, ps)"
| "none_mbs_convert (Suc len) [] off ps nchr dst = Some (Inr nchr, dst, SrcAt off, ps)"
| "none_mbs_convert (Suc len) (c # s) off ps nchr dst =
     (if (ucast c :: wchar) = 0 then Some (Inr nchr, dst @ [ucast c], SrcNull, ps)
      else none_mbs_convert len s (off + 1) ps (nchr + 1) (dst @ [ucast c]))"

definition none_mbsnrtowcs :: "unit mbsnrtowcs_fn" where
  "none_mbsnrtowcs has_dst s len ps =
     (if \<not> has_dst then
        (case c_memchr s 0 of Some k \<Rightarrow> Some (Inr k, [], SrcAt 0, ps)
         | None \<Rightarrow> Some (Inr (length s), [], SrcAt 0, ps))
      else none_mbs_convert len s 0 ps 0 [])"

fun none_wcs_count :: "wchar list \<Rightarrow> nat \<Rightarrow> errno + nat" where
  "none_wcs_count [] n = Inr n"
| "none_wcs_count (c # s) n =
     (if c = 0 then Inr n
      else if c <s 0 \<or> 255 <s c then Inl EILSEQ
      else none_wcs_count s (n + 1))"

fun none_wcs_convert :: "nat \<Rightarrow> wchar list \<Rightarrow> nat \<Rightarrow> unit \<Rightarrow> nat \<Rightarrow> byte list \<Rightarrow>
    (byte, unit) conv_result" where
  "none_wcs_convert 0 s off ps nchr dst = (Inr nchr, dst, SrcAt off, ps)"
| "none_wcs_convert (Suc len) [] off ps nchr dst = (Inr nchr, dst, SrcAt off, ps)"
| "none_wcs_convert (Suc len) (c # s) off ps nchr dst =
     (if c <s 0 \<or> 255 <s c then (Inl EILSEQ, dst, SrcAt off, ps)
      else if (ucast c :: byte) = 0 then (Inr nchr, dst @ [ucast c], SrcNull, ps)
      else none_wcs_convert len s (off + 1) ps (nchr + 1) (dst @ [ucast c]))"

definition none_wcsnrtombs :: "unit wcsnrtombs_fn" where
  "none_wcsnrtombs has_dst s len ps =
     (if \<not> has_dst then (none_wcs_count s 0, [], SrcAt 0, ps)
      else none_wcs_convert len s 0 ps 0 [])"

definition none_init :: "unit runelocale \<Rightarrow> int \<times> unit runelocale" where
  "none_init xrl =
     (0, xrl\<lparr>rl_mbrtowc := Some none_mbrtowc, rl_mbsinit := Some none_mbsinit,
         rl_mbsnrtowcs := Some none_mbsnrtowcs, rl_wcrtomb := Some none_wcrtomb,
         rl_wcsnrtombs := Some none_wcsnrtombs, rl_mb_cur_max := 1, rl_mb_sb_limit := 256\<rparr>)"

section \<open>\<open>ascii.c\<close>\<close>

definition ascii_mbsinit :: "unit option \<Rightarrow> bool" where
  "ascii_mbsinit ps = True"

definition ascii_mbrtowc :: "unit mbrtowc_fn" where
  "ascii_mbrtowc s ps =
     (case s of None \<Rightarrow> (MbLen 0, None, ps)
      | Some [] \<Rightarrow> (MbIncomplete, None, ps)
      | Some (c # _) \<Rightarrow>
          if c AND 0x80 \<noteq> 0 then (MbErr EILSEQ, None, ps)
          else (MbLen (if c = 0 then 0 else 1), Some (ucast c), ps))"

definition ascii_wcrtomb :: "unit wcrtomb_fn" where
  "ascii_wcrtomb has_s wc ps =
     (if \<not> has_s then (Inr 1, [], ps)
      else if wc <s 0 \<or> 127 <s wc then (Inl EILSEQ, [], ps)
      else (Inr 1, [ucast wc], ps))"

fun ascii_mbs_count :: "byte list \<Rightarrow> nat \<Rightarrow> errno + nat" where
  "ascii_mbs_count [] n = Inr n"
| "ascii_mbs_count (c # s) n =
     (if c = 0 then Inr n
      else if c AND 0x80 \<noteq> 0 then Inl EILSEQ
      else ascii_mbs_count s (n + 1))"

fun ascii_mbs_convert :: "nat \<Rightarrow> byte list \<Rightarrow> nat \<Rightarrow> unit \<Rightarrow> nat \<Rightarrow> wchar list \<Rightarrow>
    (wchar, unit) conv_result option" where
  "ascii_mbs_convert 0 s off ps nchr dst = Some (Inr nchr, dst, SrcAt off, ps)"
| "ascii_mbs_convert (Suc len) [] off ps nchr dst = Some (Inr nchr, dst, SrcAt off, ps)"
| "ascii_mbs_convert (Suc len) (c # s) off ps nchr dst =
     (if c AND 0x80 \<noteq> 0 then Some (Inl EILSEQ, dst, SrcAt off, ps)
      else if (ucast c :: wchar) = 0 then Some (Inr nchr, dst @ [ucast c], SrcNull, ps)
      else ascii_mbs_convert len s (off + 1) ps (nchr + 1) (dst @ [ucast c]))"

definition ascii_mbsnrtowcs :: "unit mbsnrtowcs_fn" where
  "ascii_mbsnrtowcs has_dst s len ps =
     (if \<not> has_dst then Some (ascii_mbs_count s 0, [], SrcAt 0, ps)
      else ascii_mbs_convert len s 0 ps 0 [])"

fun ascii_wcs_count :: "wchar list \<Rightarrow> nat \<Rightarrow> errno + nat" where
  "ascii_wcs_count [] n = Inr n"
| "ascii_wcs_count (c # s) n =
     (if c = 0 then Inr n
      else if c <s 0 \<or> 127 <s c then Inl EILSEQ
      else ascii_wcs_count s (n + 1))"

fun ascii_wcs_convert :: "nat \<Rightarrow> wchar list \<Rightarrow> nat \<Rightarrow> unit \<Rightarrow> nat \<Rightarrow> byte list \<Rightarrow>
    (byte, unit) conv_result" where
  "ascii_wcs_convert 0 s off ps nchr dst = (Inr nchr, dst, SrcAt off, ps)"
| "ascii_wcs_convert (Suc len) [] off ps nchr dst = (Inr nchr, dst, SrcAt off, ps)"
| "ascii_wcs_convert (Suc len) (c # s) off ps nchr dst =
     (if c <s 0 \<or> 127 <s c then (Inl EILSEQ, dst, SrcAt off, ps)
      else if (ucast c :: byte) = 0 then (Inr nchr, dst @ [ucast c], SrcNull, ps)
      else ascii_wcs_convert len s (off + 1) ps (nchr + 1) (dst @ [ucast c]))"

definition ascii_wcsnrtombs :: "unit wcsnrtombs_fn" where
  "ascii_wcsnrtombs has_dst s len ps =
     (if \<not> has_dst then (ascii_wcs_count s 0, [], SrcAt 0, ps)
      else ascii_wcs_convert len s 0 ps 0 [])"

definition ascii_init :: "unit runelocale \<Rightarrow> int \<times> unit runelocale" where
  "ascii_init xrl =
     (0, xrl\<lparr>rl_mbrtowc := Some ascii_mbrtowc, rl_mbsinit := Some ascii_mbsinit,
         rl_mbsnrtowcs := Some ascii_mbsnrtowcs, rl_wcrtomb := Some ascii_wcrtomb,
         rl_wcsnrtombs := Some ascii_wcsnrtombs, rl_mb_cur_max := 1, rl_mb_sb_limit := 128\<rparr>)"

section \<open>The generic conversions\<close>

lemma ucast_byte_0_iff: "(ucast (c :: byte) :: wchar) = 0 \<longleftrightarrow> c = 0"
  by (simp add: bit_blast)

lemma byte_range: "\<not> (c <s 0 \<or> 255 <s c) \<longleftrightarrow> c \<le> 255" for c :: wchar
  by (simp add: bit_blast) blast

lemma ascii_range: "\<not> (c <s 0 \<or> 127 <s c) \<longleftrightarrow> c \<le> 127" for c :: wchar
  by (simp add: bit_blast) blast

lemma ucast_wchar_byte: "c \<le> 255 \<Longrightarrow> (ucast (ucast c :: byte) :: wchar) = c" for c :: wchar
  by (simp add: word_le_nat_alt word_unat_eq_iff unsigned_ucast_eq take_bit_eq_mod unat_mod_distrib)

lemma ucast_wchar_0_iff: "c \<le> 255 \<Longrightarrow> (ucast c :: byte) = 0 \<longleftrightarrow> c = 0" for c :: wchar
  by (metis ucast_wchar_byte ucast_byte_0_iff)

lemma none_mbs_convert_std:
  "none_mbs_convert len s off ps n dst = mbs_convert none_mbrtowc len s off ps n dst"
  by (induction len s off ps n dst rule: none_mbs_convert.induct)
    (auto simp: none_mbrtowc_def ucast_byte_0_iff)

lemma none_mbs_count_std:
  "mbs_count none_mbrtowc s ps n =
    Some (Inr (n + (case c_memchr s 0 of None \<Rightarrow> length s | Some k \<Rightarrow> k)), ps)"
proof (induction s arbitrary: n)
  case (Cons c s)
  then show ?case
    by (auto simp: mbs_count.simps [of _ "c # s"] none_mbrtowc_def split: option.splits)
qed (simp add: mbs_count.simps [of _ "[]"] none_mbrtowc_def)

lemma none_mbsnrtowcs_std: "none_mbsnrtowcs = mbsnrtowcs_std none_mbrtowc"
  by (auto simp: fun_eq_iff none_mbsnrtowcs_def mbsnrtowcs_std_def none_mbs_convert_std
      none_mbs_count_std split: option.splits)

lemma none_wcs_convert_std:
  "none_wcs_convert len s off ps n dst = wcs_convert none_wcrtomb 1 s off len ps n dst"
proof (induction len s off ps n dst rule: none_wcs_convert.induct)
  case (3 len c s off ps n dst)
  show ?case
  proof (cases "c \<le> 255")
    case True
    with 3 byte_range [of c] show ?thesis by (auto simp: none_wcrtomb_def ucast_wchar_0_iff)
  next
    case False
    with byte_range [of c] show ?thesis by (auto simp: none_wcrtomb_def)
  qed
qed simp_all

lemma none_wcs_count_std:
  "wcs_count none_wcrtomb s ps n = (none_wcs_count s n, ps)"
  using byte_range [of 0] by (induction s arbitrary: n) (auto simp: none_wcrtomb_def)

lemma none_wcsnrtombs_std: "none_wcsnrtombs = wcsnrtombs_std none_wcrtomb 1"
  by (auto simp: fun_eq_iff none_wcsnrtombs_def wcsnrtombs_std_def none_wcs_convert_std
      none_wcs_count_std)

lemma ascii_mbs_convert_std:
  "ascii_mbs_convert len s off ps n dst = mbs_convert ascii_mbrtowc len s off ps n dst"
  by (induction len s off ps n dst rule: ascii_mbs_convert.induct)
    (auto simp: ascii_mbrtowc_def ucast_byte_0_iff)

lemma ascii_mbs_count_std:
  "mbs_count ascii_mbrtowc s ps n = Some (ascii_mbs_count s n, ps)"
proof (induction s arbitrary: n)
  case (Cons c s)
  then show ?case
    by (auto simp: mbs_count.simps [of _ "c # s"] ascii_mbrtowc_def)
qed (simp add: mbs_count.simps [of _ "[]"] ascii_mbrtowc_def)

lemma ascii_mbsnrtowcs_std: "ascii_mbsnrtowcs = mbsnrtowcs_std ascii_mbrtowc"
  by (auto simp: fun_eq_iff ascii_mbsnrtowcs_def mbsnrtowcs_std_def ascii_mbs_convert_std
      ascii_mbs_count_std)

lemma ascii_wcs_convert_std:
  "ascii_wcs_convert len s off ps n dst = wcs_convert ascii_wcrtomb 1 s off len ps n dst"
proof (induction len s off ps n dst rule: ascii_wcs_convert.induct)
  case (3 len c s off ps n dst)
  show ?case
  proof (cases "c \<le> 127")
    case True
    then have "c \<le> 255" by (simp add: word_le_nat_alt)
    with True 3 ascii_range [of c] show ?thesis by (auto simp: ascii_wcrtomb_def ucast_wchar_0_iff)
  next
    case False
    with ascii_range [of c] show ?thesis by (auto simp: ascii_wcrtomb_def)
  qed
qed simp_all

lemma ascii_wcs_count_std:
  "wcs_count ascii_wcrtomb s ps n = (ascii_wcs_count s n, ps)"
  using ascii_range [of 0] by (induction s arbitrary: n) (auto simp: ascii_wcrtomb_def)

lemma ascii_wcsnrtombs_std: "ascii_wcsnrtombs = wcsnrtombs_std ascii_wcrtomb 1"
  by (auto simp: fun_eq_iff ascii_wcsnrtombs_def wcsnrtombs_std_def ascii_wcs_convert_std
      ascii_wcs_count_std)

section \<open>The contracts\<close>

definition none_dec :: "byte list \<Rightarrow> mb_ret \<times> wchar option" where
  "none_dec s = (case s of [] \<Rightarrow> (MbIncomplete, None)
     | c # _ \<Rightarrow> (MbLen (if c = 0 then 0 else 1), Some (ucast c)))"

definition none_enc :: "wchar \<Rightarrow> byte list option" where
  "none_enc c = (if c \<le> 255 then Some [ucast c] else None)"

definition ascii_dec :: "byte list \<Rightarrow> mb_ret \<times> wchar option" where
  "ascii_dec s = (case s of [] \<Rightarrow> (MbIncomplete, None)
     | c # _ \<Rightarrow> if c \<le> 127 then (MbLen (if c = 0 then 0 else 1), Some (ucast c))
               else (MbErr EILSEQ, None))"

definition ascii_enc :: "wchar \<Rightarrow> byte list option" where
  "ascii_enc c = (if c \<le> 127 then Some [ucast c] else None)"

lemma byte_high_bit: "c AND 0x80 \<noteq> 0 \<longleftrightarrow> \<not> c \<le> (127 :: byte)"
  by (simp add: bit_blast)

lemma ucast_byte_wchar [simp]: "(ucast (ucast (c :: byte) :: wchar) :: byte) = c"
  by (simp add: bit_blast)

lemma ucast_byte_le: "(ucast (c :: byte) :: wchar) \<le> 255" "c \<le> 127 \<Longrightarrow> (ucast c :: wchar) \<le> 127"
proof -
  have "unat c < 256" using unsigned_less [of c] by simp
  then show "(ucast c :: wchar) \<le> 255" "c \<le> 127 \<Longrightarrow> (ucast c :: wchar) \<le> 127"
    by (simp_all add: word_le_nat_alt unsigned_ucast_eq take_bit_eq_mod)
qed

lemma none_wcrtomb_enc:
  "none_wcrtomb True c ps =
    (case none_enc c of None \<Rightarrow> (Inl EILSEQ, [], ps) | Some bs \<Rightarrow> (Inr (length bs), bs, ps))"
  using byte_range [of c] by (auto simp: none_wcrtomb_def none_enc_def)

lemma ascii_wcrtomb_enc:
  "ascii_wcrtomb True c ps =
    (case ascii_enc c of None \<Rightarrow> (Inl EILSEQ, [], ps) | Some bs \<Rightarrow> (Inr (length bs), bs, ps))"
  using ascii_range [of c] by (auto simp: ascii_wcrtomb_def ascii_enc_def)

interpretation none: mb_strict_codec none_mbrtowc none_dec "\<lambda>_ p. p = []" none_wcrtomb none_enc
  "\<lambda>c. c \<le> 255" 1
proof unfold_locales
qed (auto simp: none_wcrtomb_enc none_enc_def none_dec_def none_mbrtowc_def ucast_byte_0_iff
    ucast_wchar_0_iff ucast_wchar_byte ucast_byte_le take_Suc
    split: list.splits if_splits)

lemma ascii_small: "c \<le> 127 \<Longrightarrow> c \<le> 255" for c :: wchar
  by (simp add: word_le_nat_alt)

lemma ascii_ucast_le: "c \<le> 127 \<Longrightarrow> (ucast c :: byte) \<le> 127" for c :: wchar
  by (simp add: word_le_nat_alt unsigned_ucast_eq take_bit_eq_mod unat_mod_distrib)

interpretation ascii: mb_strict_codec ascii_mbrtowc ascii_dec "\<lambda>_ p. p = []" ascii_wcrtomb
  ascii_enc "\<lambda>c. c \<le> 127" 1
proof unfold_locales
qed (auto simp: ascii_wcrtomb_enc ascii_enc_def ascii_dec_def ascii_mbrtowc_def ucast_byte_0_iff
    ucast_wchar_0_iff ucast_wchar_byte ucast_byte_le take_Suc byte_high_bit ascii_small ascii_ucast_le
    split: list.splits if_splits)


section \<open>Properties\<close>

text \<open>
  The string conversions that \<open>none.c\<close> and \<open>ascii.c\<close> define for themselves are the
  generic ones over their own \<open>mbrtowc\<close> and \<open>wcrtomb\<close>, in results, output, \<open>*src\<close> and
  errors, for every input.
\<close>

lemma single_byte_conversions:
  "none_mbsnrtowcs = mbsnrtowcs_std none_mbrtowc \<and> none_wcsnrtombs = wcsnrtombs_std none_wcrtomb 1 \<and>
   ascii_mbsnrtowcs = mbsnrtowcs_std ascii_mbrtowc \<and> ascii_wcsnrtombs = wcsnrtombs_std ascii_wcrtomb 1"
  by (simp add: none_mbsnrtowcs_std none_wcsnrtombs_std ascii_mbsnrtowcs_std ascii_wcsnrtombs_std)

end
