(* ===== verification/Double_Byte_Codecs.thy ===== *)
theory Double_Byte_Codecs
  imports Mb_Codec
begin

text \<open>
  The three encodings of one or two bytes for each character whose conversion state is the
  lead byte of a character seen in part: \<open>big5.c\<close>, \<open>gbk.c\<close> and \<open>mskanji.c\<close>. Their
  decoders differ in the range of the lead bytes only.
\<close>

section \<open>State and decoders\<close>

text \<open>\<open>_BIG5State\<close>, \<open>_GBKState\<close> and \<open>_MSKanjiState\<close>.\<close>

record lead_state =
  ls_ch :: wchar

definition lead_mbsinit :: "lead_state option \<Rightarrow> bool" where
  "lead_mbsinit ps = (case ps of None \<Rightarrow> True | Some s \<Rightarrow> ls_ch s = 0)"

text \<open>The decoder after its checks on the state, on a null \<open>s\<close> and on \<open>n = 0\<close>.\<close>

definition lead_body :: "(byte \<Rightarrow> bool) \<Rightarrow> byte \<Rightarrow> byte list \<Rightarrow> lead_state \<Rightarrow>
    mb_ret \<times> wchar option \<times> lead_state" where
  "lead_body two c s ls =
     (if ls_ch ls \<noteq> 0 then
        (if c = 0 then (MbErr EILSEQ, None, ls)
         else (MbLen 1, Some (push_bit 8 (ls_ch ls) OR ucast c), ls\<lparr>ls_ch := 0\<rparr>))
      else if two c then
        (case s of
           [] \<Rightarrow> (MbIncomplete, None, ls\<lparr>ls_ch := ucast c\<rparr>)
         | d # _ \<Rightarrow>
             if d = 0 then (MbErr EILSEQ, None, ls)
             else (MbLen 2, Some (push_bit 8 (ucast c) OR ucast d), ls))
      else (MbLen (if (ucast c :: wchar) = 0 then 0 else 1), Some (ucast c), ls))"

definition lead_mbrtowc :: "(byte \<Rightarrow> bool) \<Rightarrow> lead_state mbrtowc_fn" where
  "lead_mbrtowc two s ls =
     (if ls_ch ls AND NOT 0xFF \<noteq> 0 then (MbErr EINVAL, None, ls)
      else (case s of
          None \<Rightarrow> (case lead_body two 0 [] ls of (r, _, ls') \<Rightarrow> (r, None, ls'))
        | Some [] \<Rightarrow> (MbIncomplete, None, ls)
        | Some (c # s') \<Rightarrow> lead_body two c s' ls))"

definition big5_check :: "byte \<Rightarrow> nat" where
  "big5_check c = (if c \<ge> 0xa1 \<and> c \<le> 0xfe then 2 else 1)"

definition gbk_check :: "byte \<Rightarrow> nat" where
  "gbk_check c = (if c \<ge> 0x81 \<and> c \<le> 0xfe then 2 else 1)"

definition mskanji_lead :: "byte \<Rightarrow> bool" where
  "mskanji_lead c = ((c > 0x80 \<and> c < 0xa0) \<or> (c \<ge> 0xe0 \<and> c < 0xfd))"

definition big5_mbrtowc :: "lead_state mbrtowc_fn" where
  "big5_mbrtowc = lead_mbrtowc (\<lambda>c. big5_check c = 2)"

definition gbk_mbrtowc :: "lead_state mbrtowc_fn" where
  "gbk_mbrtowc = lead_mbrtowc (\<lambda>c. gbk_check c = 2)"

definition mskanji_mbrtowc :: "lead_state mbrtowc_fn" where
  "mskanji_mbrtowc = lead_mbrtowc mskanji_lead"

section \<open>Encoders\<close>

definition big5_wcrtomb :: "lead_state wcrtomb_fn" where
  "big5_wcrtomb has_s wc ls =
     (if ls_ch ls \<noteq> 0 then (Inl EINVAL, [], ls)
      else if \<not> has_s then (Inr 1, [], ls)
      else if wc AND 0x8000 \<noteq> 0 then
        (Inr 2, [ucast (signed_drop_bit 8 wc AND 0xff), ucast (wc AND 0xff)], ls)
      else (Inr 1, [ucast (wc AND 0xff)], ls))"

definition gbk_wcrtomb :: "lead_state wcrtomb_fn" where
  "gbk_wcrtomb has_s wc ls =
     (if ls_ch ls \<noteq> 0 then (Inl EINVAL, [], ls)
      else if \<not> has_s then (Inr 1, [], ls)
      else if wc AND 0x8000 \<noteq> 0 then
        (Inr 2, [ucast (signed_drop_bit 8 wc AND 0xff), ucast (wc AND 0xff)], ls)
      else (Inr 1, [ucast (wc AND 0xff)], ls))"

fun mskanji_emit :: "nat \<Rightarrow> wchar \<Rightarrow> byte list" where
  \<comment> \<open>\<open>for (i = len; i-- > 0; ) *s++ = wc >> (i << 3)\<close>\<close>
  "mskanji_emit 0 wc = []"
| "mskanji_emit (Suc i) wc = ucast (signed_drop_bit (push_bit 3 i) wc) # mskanji_emit i wc"

definition mskanji_wcrtomb :: "lead_state wcrtomb_fn" where
  "mskanji_wcrtomb has_s wc ls =
     (if ls_ch ls \<noteq> 0 then (Inl EINVAL, [], ls)
      else if \<not> has_s then (Inr 1, [], ls)
      else let len = (if 0x100 <s wc then 2 else 1) in (Inr len, mskanji_emit len wc, ls))"

definition big5_init :: "lead_state runelocale \<Rightarrow> int \<times> lead_state runelocale" where
  "big5_init xrl =
     (0, xrl\<lparr>rl_mbrtowc := Some big5_mbrtowc, rl_wcrtomb := Some big5_wcrtomb,
         rl_mbsinit := Some lead_mbsinit, rl_mb_cur_max := 2, rl_mb_sb_limit := 128\<rparr>)"

definition gbk_init :: "lead_state runelocale \<Rightarrow> int \<times> lead_state runelocale" where
  "gbk_init xrl =
     (0, xrl\<lparr>rl_mbrtowc := Some gbk_mbrtowc, rl_wcrtomb := Some gbk_wcrtomb,
         rl_mbsinit := Some lead_mbsinit, rl_mb_cur_max := 2, rl_mb_sb_limit := 128\<rparr>)"

definition mskanji_init :: "lead_state runelocale \<Rightarrow> int \<times> lead_state runelocale" where
  "mskanji_init xrl =
     (0, xrl\<lparr>rl_mbrtowc := Some mskanji_mbrtowc, rl_wcrtomb := Some mskanji_wcrtomb,
         rl_mbsinit := Some lead_mbsinit, rl_mb_cur_max := 2, rl_mb_sb_limit := 256\<rparr>)"

section \<open>The decoder contract\<close>

definition lead_dec :: "(byte \<Rightarrow> bool) \<Rightarrow> byte list \<Rightarrow> mb_ret \<times> wchar option" where
  "lead_dec two s =
     (case s of [] \<Rightarrow> (MbIncomplete, None)
      | c # r \<Rightarrow>
          if two c then
            (case r of [] \<Rightarrow> (MbIncomplete, None)
             | d # _ \<Rightarrow> if d = 0 then (MbErr EILSEQ, None)
                       else (MbLen 2, Some (push_bit 8 (ucast c) OR ucast d)))
          else (MbLen (if c = 0 then 0 else 1), Some (ucast c)))"

definition lead_rep :: "(byte \<Rightarrow> bool) \<Rightarrow> lead_state \<Rightarrow> byte list \<Rightarrow> bool" where
  "lead_rep two ls p \<longleftrightarrow>
     p = [] \<and> ls_ch ls = 0 \<or> (\<exists>c. p = [c] \<and> two c \<and> ls_ch ls = ucast c)"

lemma ucast_byte_zero_iff: "(ucast (c :: byte) :: wchar) = 0 \<longleftrightarrow> c = 0"
  by (simp add: bit_blast)

lemma ucast_byte_in_range: "(ucast (c :: byte) :: wchar) AND - 256 = 0"
  by (simp add: bit_blast)

lemma pair_nonzero: "d \<noteq> 0 \<Longrightarrow> push_bit 8 (ucast (c :: byte)) OR ucast (d :: byte) \<noteq> (0 :: wchar)"
  by (simp add: bit_blast) blast

lemma lead_dec_simps [simp]:
  "lead_dec two [] = (MbIncomplete, None)"
  "lead_dec two (c # r) =
     (if two c then
        (case r of [] \<Rightarrow> (MbIncomplete, None)
         | d # _ \<Rightarrow> if d = 0 then (MbErr EILSEQ, None)
                   else (MbLen 2, Some (push_bit 8 (ucast c) OR ucast d)))
      else (MbLen (if c = 0 then 0 else 1), Some (ucast c)))"
  by (simp_all add: lead_dec_def)

lemma lead_decoder:
  assumes "\<not> two 0"
  shows "mb_decoder (lead_mbrtowc two) (lead_dec two) (lead_rep two)"
proof
  fix ls p s r w
  assume rep: "lead_rep two ls p" and dec: "lead_dec two (p @ s) = (r, w)"
  show "\<exists>st'. lead_mbrtowc two (Some s) ls = (resume (length p) r, w, st') \<and>
    (r = MbIncomplete \<longrightarrow> lead_rep two st' (p @ s)) \<and> ((\<exists>n. r = MbLen n) \<longrightarrow> lead_rep two st' [])"
  proof (cases "p = []")
    case True
    with rep dec show ?thesis
      by (cases s) (auto simp: lead_rep_def lead_mbrtowc_def lead_body_def ucast_byte_zero_iff
          split: list.splits if_splits)
  next
    case False
    with rep obtain c where c: "p = [c]" "two c" "ls_ch ls = ucast c"
      by (auto simp: lead_rep_def)
    moreover have "(ucast c :: wchar) \<noteq> 0"
      using c assms by (auto simp: ucast_byte_zero_iff)
    ultimately show ?thesis
      using dec rep
      by (cases s) (auto simp: lead_mbrtowc_def lead_body_def lead_rep_def ucast_byte_in_range
          split: if_splits)
  qed
qed (auto simp: lead_rep_def lead_dec_def take_Suc pair_nonzero ucast_byte_zero_iff
    simp del: lead_dec_simps split: list.splits if_splits)


section \<open>The encoder contract\<close>

text \<open>Characters that stand for one byte that leads nothing, or for a lead byte and a trail byte.\<close>

definition lead_valid :: "(byte \<Rightarrow> bool) \<Rightarrow> wchar \<Rightarrow> bool" where
  "lead_valid two c \<longleftrightarrow>
     (\<exists>b :: byte. \<not> two b \<and> c = ucast b) \<or>
     (\<exists>(b :: byte) (d :: byte). two b \<and> d \<noteq> 0 \<and> c = push_bit 8 (ucast b) OR ucast d)"

definition pair_enc :: "wchar \<Rightarrow> byte list option" where
  "pair_enc c = Some (if c AND 0x8000 \<noteq> 0 then [ucast (drop_bit 8 c), ucast c] else [ucast c])"

definition mskanji_enc :: "wchar \<Rightarrow> byte list option" where
  "mskanji_enc c = Some (if 0x100 <s c then [ucast (signed_drop_bit 8 c), ucast c] else [ucast c])"

lemma pair_parts:
  "ucast (drop_bit 8 (push_bit 8 (ucast b) OR ucast d :: wchar)) = (b :: byte)"
  "ucast (signed_drop_bit 8 (push_bit 8 (ucast b) OR ucast d :: wchar)) = (b :: byte)"
  "ucast (push_bit 8 (ucast b) OR ucast d :: wchar) = (d :: byte)"
  "ucast (ucast b :: wchar) = (b :: byte)"
  by (simp_all add: bit_blast)

lemma pair_top_bit:
  "0x80 \<le> b \<Longrightarrow> (push_bit 8 (ucast (b :: byte)) OR ucast (d :: byte)) AND 0x8000 \<noteq> (0 :: wchar)"
  "(ucast b :: wchar) AND 0x8000 = 0"
  by (simp_all add: bit_blast)

lemma pair_above:
  "0x80 \<le> b \<Longrightarrow> 0x100 <s (push_bit 8 (ucast (b :: byte)) OR ucast (d :: byte) :: wchar)"
  "\<not> 0x100 <s (ucast b :: wchar)"
  by (simp_all add: bit_blast)

lemma pair_wcrtomb:
  "ls_ch ls = 0 \<Longrightarrow> big5_wcrtomb True c ls = (Inr (length (the (pair_enc c))), the (pair_enc c), ls)"
  "ls_ch ls = 0 \<Longrightarrow> gbk_wcrtomb True c ls = (Inr (length (the (pair_enc c))), the (pair_enc c), ls)"
proof -
  have "(ucast (signed_drop_bit 8 c AND 0xff) :: byte) = ucast (drop_bit 8 c)"
    "(ucast (c AND 0xff) :: byte) = ucast c"
    by (simp_all add: bit_blast)
  then show "ls_ch ls = 0 \<Longrightarrow> big5_wcrtomb True c ls = (Inr (length (the (pair_enc c))), the (pair_enc c), ls)"
    "ls_ch ls = 0 \<Longrightarrow> gbk_wcrtomb True c ls = (Inr (length (the (pair_enc c))), the (pair_enc c), ls)"
    by (simp_all add: big5_wcrtomb_def gbk_wcrtomb_def pair_enc_def)
qed

lemma mskanji_emit_one: "mskanji_emit (Suc 0) c = [ucast c]"
  by simp

lemma mskanji_emit_two: "mskanji_emit 2 c = [ucast (signed_drop_bit 8 c), ucast c]"
proof -
  have "mskanji_emit (Suc (Suc 0)) c = [ucast (signed_drop_bit (push_bit 3 1) c), ucast c]"
    by (simp only: mskanji_emit.simps) simp
  then show ?thesis
    by (simp add: push_bit_eq_mult numeral_2_eq_2 [symmetric] del: mskanji_emit.simps)
qed

lemma mskanji_wcrtomb_enc:
  "ls_ch ls = 0 \<Longrightarrow>
    mskanji_wcrtomb True c ls = (Inr (length (the (mskanji_enc c))), the (mskanji_enc c), ls)"
  by (simp add: mskanji_wcrtomb_def mskanji_enc_def mskanji_emit_two mskanji_emit_one Let_def)

text \<open>
  Any encoder that writes the two bytes of a character with a lead byte from 0x80, and one
  byte otherwise, completes the contract.
\<close>

lemma pair_enc_parts:
  "pair_enc (ucast (b :: byte)) = Some [b]"
  "0x80 \<le> b \<Longrightarrow> pair_enc (push_bit 8 (ucast b) OR ucast (d :: byte)) = Some [b, d]"
  using pair_parts [where b = b] pair_top_bit [where b = b]
  by (simp_all add: pair_enc_def del: drop_bit_or)

lemma mskanji_enc_parts:
  "mskanji_enc (ucast (b :: byte)) = Some [b]"
  "0x80 \<le> b \<Longrightarrow> mskanji_enc (push_bit 8 (ucast b) OR ucast (d :: byte)) = Some [b, d]"
  using pair_parts [where b = b] pair_above [where b = b]
  by (simp_all add: mskanji_enc_def)

lemma enc_form:
  "pair_enc c = Some [ucast c] \<or> (\<exists>b. pair_enc c = Some [b, ucast c])"
  "mskanji_enc c = Some [ucast c] \<or> (\<exists>b. mskanji_enc c = Some [b, ucast c])"
  by (simp_all add: pair_enc_def mskanji_enc_def)

lemma lead_codec:
  assumes two: "\<And>b. two b \<Longrightarrow> 0x80 \<le> b"
    and w: "\<And>c ls. ls_ch ls = 0 \<Longrightarrow> wcrtomb True c ls = (Inr (length (the (enc c))), the (enc c), ls)"
    and e: "\<And>c. enc c = Some [ucast c] \<or> (\<exists>b. enc c = Some [b, ucast c])"
    and e1: "\<And>b :: byte. enc (ucast b) = Some [b]"
    and e2: "\<And>b d :: byte. 0x80 \<le> b \<Longrightarrow> enc (push_bit 8 (ucast b) OR ucast d) = Some [b, d]"
  shows "mb_strict_codec (lead_mbrtowc two) (lead_dec two) (lead_rep two) wcrtomb enc
    (lead_valid two) 2"
proof -
  have two0: "\<not> two 0" using two [of 0] by auto
  have len: "length (the (enc c)) = 1 \<or> length (the (enc c)) = 2" for c
    using e [of c] by auto
  show ?thesis
  proof (intro mb_strict_codec.intro mb_codec.intro lead_decoder [where two = two, OF two0]
      mb_codec_axioms.intro mb_strict_codec_axioms.intro)
    fix ls c bs
    show "lead_rep two ls [] \<Longrightarrow> enc c = Some bs \<Longrightarrow> wcrtomb True c ls = (Inr (length bs), bs, ls)"
      using w [of ls c] by (simp add: lead_rep_def)
    show "lead_rep two ls [] \<Longrightarrow> enc c = None \<Longrightarrow> \<exists>bs. wcrtomb True c ls = (Inl EILSEQ, bs, ls) \<and> length bs \<le> 2"
      using e [of c] by auto
    show "enc c = Some bs \<Longrightarrow> 0 < length bs \<and> length bs \<le> 2"
      using e [of c] by auto
    show "enc 0 = Some [0]" using e1 [of 0] by simp
    show "lead_valid two 0" using two0 by (auto simp: lead_valid_def intro!: exI [of _ 0])
    show "lead_valid two c \<Longrightarrow>
        \<exists>bs. enc c = Some bs \<and> lead_dec two bs = (MbLen (if c = 0 then 0 else length bs), Some c)"
      by (auto simp: lead_valid_def lead_dec_def e1 e1 [of 0, simplified] e2 two ucast_byte_zero_iff
          pair_nonzero)
  next
    fix s n c
    assume "lead_dec two s = (MbLen n, Some c)" "c \<noteq> 0"
    then show "lead_valid two c \<and> enc c = Some (take n s)"
      by (auto simp: lead_valid_def lead_dec_def e1 e2 two split: list.splits if_splits)
  qed
qed

lemma lead_byte_high:
  "big5_check c = 2 \<Longrightarrow> 0x80 \<le> c"
  "gbk_check c = 2 \<Longrightarrow> 0x80 \<le> c"
  "mskanji_lead c \<Longrightarrow> 0x80 \<le> c"
  by (auto simp: big5_check_def gbk_check_def mskanji_lead_def word_le_nat_alt word_less_nat_alt
      split: if_splits)

interpretation big5: mb_strict_codec big5_mbrtowc "lead_dec (\<lambda>c. big5_check c = 2)"
  "lead_rep (\<lambda>c. big5_check c = 2)" big5_wcrtomb pair_enc "lead_valid (\<lambda>c. big5_check c = 2)" 2
  unfolding big5_mbrtowc_def
  by (rule lead_codec) (auto simp: lead_byte_high pair_wcrtomb pair_enc_parts enc_form)

interpretation gbk: mb_strict_codec gbk_mbrtowc "lead_dec (\<lambda>c. gbk_check c = 2)"
  "lead_rep (\<lambda>c. gbk_check c = 2)" gbk_wcrtomb pair_enc "lead_valid (\<lambda>c. gbk_check c = 2)" 2
  unfolding gbk_mbrtowc_def
  by (rule lead_codec) (auto simp: lead_byte_high pair_wcrtomb pair_enc_parts enc_form)

interpretation mskanji: mb_strict_codec mskanji_mbrtowc "lead_dec mskanji_lead"
  "lead_rep mskanji_lead" mskanji_wcrtomb mskanji_enc "lead_valid mskanji_lead" 2
  unfolding mskanji_mbrtowc_def
  by (rule lead_codec)
    (auto simp: lead_byte_high mskanji_wcrtomb_enc mskanji_enc_parts enc_form)



section \<open>Properties\<close>

text \<open>
  A character decoded from Big5, GBK or Shift-JIS is encoded with the bytes it was
  decoded from, and both calls leave the conversion state initial.
\<close>

lemma double_byte_decode_encode:
  assumes "(mbrtowc, wcrtomb) \<in> {(big5_mbrtowc, big5_wcrtomb), (gbk_mbrtowc, gbk_wcrtomb),
      (mskanji_mbrtowc, mskanji_wcrtomb)}"
    and "ls_ch ls = 0" "mbrtowc (Some s) ls = (MbLen n, Some c, ls')" "c \<noteq> 0"
  shows "ls_ch ls' = 0 \<and> wcrtomb True c ls' = (Inr n, take n s, ls')"
proof -
  have "lead_rep two ls []" for two using assms(2) by (simp add: lead_rep_def)
  with assms big5.decode_encode [of ls s n c ls'] gbk.decode_encode [of ls s n c ls']
    mskanji.decode_encode [of ls s n c ls']
  show ?thesis by (auto simp: lead_rep_def)
qed

text \<open>
  A character whose two bytes arrive in different calls: the first call keeps the lead
  byte in the state, and the second gives the character that one call with both bytes gives.
\<close>

lemma double_byte_restart:
  assumes "mbrtowc \<in> {big5_mbrtowc, gbk_mbrtowc, mskanji_mbrtowc}" "ls_ch ls = 0"
    and "mbrtowc (Some [b]) ls = (MbIncomplete, w, ls1)"
    and "mbrtowc (Some (b # s)) ls = (r, c, ls2)"
  shows "ls_ch ls1 = ucast b \<and> (\<exists>ls3. mbrtowc (Some s) ls1 = (resume 1 r, c, ls3) \<and>
    ((\<exists>n. r = MbLen n) \<longrightarrow> ls_ch ls3 = 0))"
proof -
  have rep: "lead_rep two ls []" for two using assms(2) by (simp add: lead_rep_def)
  have "ls_ch ls1 = ucast b"
    using assms(1-3) by (auto simp: big5_mbrtowc_def gbk_mbrtowc_def mskanji_mbrtowc_def
        lead_mbrtowc_def lead_body_def split: if_splits)
  moreover have "\<exists>ls3. mbrtowc (Some s) ls1 = (resume 1 r, c, ls3) \<and>
    ((\<exists>n. r = MbLen n) \<longrightarrow> ls_ch ls3 = 0)"
    using assms(1) big5.restart [OF rep, of "[b]" w ls1 s r c ls2]
      gbk.restart [OF rep, of "[b]" w ls1 s r c ls2]
      mskanji.restart [OF rep, of "[b]" w ls1 s r c ls2] assms(3,4)
    by (auto simp: lead_rep_def)
  ultimately show ?thesis by blast
qed

end
