(* ===== verification/Gb_Codecs.thy ===== *)
theory Gb_Codecs
  imports Double_Byte_Codecs
begin

text \<open>
  The two encodings whose conversion state is a buffer with the bytes of a character seen in
  part: \<open>gb2312.c\<close> (one or two bytes) and \<open>gb18030.c\<close> (one, two or four). Both decoders
  start by copying input behind the bytes of the state with \<open>strncpy\<close>, which stops at a
  null byte, and then look at the buffer only.
\<close>

section \<open>The buffered state\<close>

text \<open>\<open>_GB2312State\<close> and \<open>_GB18030State\<close>; the length of \<open>gb_bytes\<close> is the size of the array.\<close>

record gb_state =
  gb_count :: int
  gb_bytes :: "byte list"

definition gb_mbsinit :: "gb_state option \<Rightarrow> bool" where
  "gb_mbsinit ps = (case ps of None \<Rightarrow> True | Some s \<Rightarrow> gb_count s = 0)"

text \<open>What \<open>strncpy (dst, s, n)\<close> writes: up to \<open>n\<close> characters, then zeros.\<close>

definition c_strncpy :: "nat \<Rightarrow> byte list \<Rightarrow> byte list" where
  "c_strncpy n s =
     (let t = takeWhile (\<lambda>c. c \<noteq> 0) (take n s) in t @ replicate (n - length t) 0)"

text \<open>The copy of the input behind the bytes that are there, which both decoders start with.\<close>

definition gb_fill :: "nat \<Rightarrow> byte list \<Rightarrow> gb_state \<Rightarrow> gb_state" where
  "gb_fill cur_max s gs =
     (let k = nat (gb_count gs);
          ncopy = min (min (length s) cur_max) (length (gb_bytes gs) - k)
      in \<lparr>gb_count = gb_count gs + int ncopy,
          gb_bytes = take k (gb_bytes gs) @ c_strncpy ncopy s @ drop (k + ncopy) (gb_bytes gs)\<rparr>)"

text \<open>The bytes of the state, most significant first, as a wide character.\<close>

definition gb_wide :: "byte list \<Rightarrow> wchar" where
  "gb_wide bs = foldl (\<lambda>wc b. push_bit 8 wc OR ucast b) 0 bs"

text \<open>\<open>(size_t)(len - ocount)\<close>, or 0 for the null character.\<close>

definition gb_len :: "wchar \<Rightarrow> int \<Rightarrow> int \<Rightarrow> mb_ret" where
  "gb_len wc len ocount = MbLen (if wc = 0 then 0 else nat ((len - ocount) mod 2 ^ 64))"

section \<open>\<open>gb2312.c\<close>\<close>

definition GB2312_MB_CUR_MAX :: nat where "GB2312_MB_CUR_MAX = 2"

definition gb2312_check :: "byte list \<Rightarrow> int \<Rightarrow> int" where
  "gb2312_check s n =
     (if n = 0 then -2
      else if s ! 0 \<ge> 0xa1 \<and> s ! 0 \<le> 0xfe then
        (if n < 2 then -2
         else if s ! 1 < 0xa1 \<or> s ! 1 > 0xfe then -1
         else 2)
      else if s ! 0 AND 0x80 \<noteq> 0 then -1
      else 1)"

definition gb2312_body :: "byte list \<Rightarrow> gb_state \<Rightarrow> mb_ret \<times> wchar option \<times> gb_state" where
  "gb2312_body s gs =
     (let ocount = gb_count gs;
          gs1 = gb_fill GB2312_MB_CUR_MAX s gs;
          len = gb2312_check (gb_bytes gs1) (gb_count gs1)
      in if len < 0 then (if len = -2 then MbIncomplete else MbErr ErrnoUnset, None, gs1)
         else let wc = gb_wide (take (nat len) (gb_bytes gs1))
              in (gb_len wc len ocount, Some wc, gs1\<lparr>gb_count := 0\<rparr>))"

definition gb2312_mbrtowc :: "gb_state mbrtowc_fn" where
  "gb2312_mbrtowc s gs =
     (if gb_count gs < 0 \<or> gb_count gs > int (length (gb_bytes gs)) then (MbErr EINVAL, None, gs)
      else (case s of
          None \<Rightarrow> (case gb2312_body [0] gs of (r, _, gs') \<Rightarrow> (r, None, gs'))
        | Some b \<Rightarrow> gb2312_body b gs))"

definition gb2312_wcrtomb :: "gb_state wcrtomb_fn" where
  "gb2312_wcrtomb has_s wc gs =
     (if gb_count gs \<noteq> 0 then (Inl EINVAL, [], gs)
      else if \<not> has_s then (Inr 1, [], gs)
      else if wc AND 0x8000 \<noteq> 0 then
        (Inr 2, [ucast (signed_drop_bit 8 wc AND 0xff), ucast (wc AND 0xff)], gs)
      else (Inr 1, [ucast (wc AND 0xff)], gs))"

definition gb2312_init :: "gb_state runelocale \<Rightarrow> int \<times> gb_state runelocale" where
  "gb2312_init xrl =
     (0, xrl\<lparr>rl_mbrtowc := Some gb2312_mbrtowc, rl_wcrtomb := Some gb2312_wcrtomb,
         rl_mbsinit := Some gb_mbsinit, rl_mb_cur_max := int GB2312_MB_CUR_MAX,
         rl_mb_sb_limit := 128\<rparr>)"

section \<open>\<open>gb18030.c\<close>\<close>

definition GB18030_MB_CUR_MAX :: nat where "GB18030_MB_CUR_MAX = 4"

text \<open>
  The look at the first \<open>n\<close> bytes of the buffer: the outcome, and the length and the wide
  character when there is one.
\<close>

definition gb18030_look :: "byte list \<Rightarrow> int \<Rightarrow> mb_ret + nat \<times> wchar" where
  "gb18030_look s n =
     (if n = 0 then Inl MbIncomplete
      else let ch = s ! 0 in
      if ch \<le> 0x7f then Inr (1, ucast ch)
      else if ch \<ge> 0x81 \<and> ch \<le> 0xfe then
        (let wch = ucast ch in
         if n < 2 then Inl MbIncomplete
         else let ch = s ! 1 in
         if ch \<ge> 0x40 \<and> ch \<le> 0x7e \<or> ch \<ge> 0x80 \<and> ch \<le> 0xfe then
           Inr (2, push_bit 8 wch OR ucast ch)
         else if ch \<ge> 0x30 \<and> ch \<le> 0x39 then
           (let wch = push_bit 8 (wch AND 0x7f) OR ucast ch in
            if n < 3 then Inl MbIncomplete
            else let ch = s ! 2 in
            if ch < 0x81 \<or> ch > 0xfe then Inl (MbErr EILSEQ)
            else let wch = push_bit 8 wch OR ucast ch in
            if n < 4 then Inl MbIncomplete
            else let ch = s ! 3 in
            if ch < 0x30 \<or> ch > 0x39 then Inl (MbErr EILSEQ)
            else Inr (4, push_bit 8 wch OR ucast ch))
         else Inl (MbErr EILSEQ))
      else Inl (MbErr EILSEQ))"

definition gb18030_body :: "byte list \<Rightarrow> gb_state \<Rightarrow> mb_ret \<times> wchar option \<times> gb_state" where
  "gb18030_body s gs =
     (let ocount = gb_count gs; gs1 = gb_fill GB18030_MB_CUR_MAX s gs
      in case gb18030_look (gb_bytes gs1) (gb_count gs1) of
           Inl r \<Rightarrow> (r, None, gs1)
         | Inr (len, wch) \<Rightarrow> (gb_len wch (int len) ocount, Some wch, gs1\<lparr>gb_count := 0\<rparr>))"

definition gb18030_mbrtowc :: "gb_state mbrtowc_fn" where
  "gb18030_mbrtowc s gs =
     (if gb_count gs < 0 \<or> gb_count gs > int (length (gb_bytes gs)) then (MbErr EINVAL, None, gs)
      else (case s of
          None \<Rightarrow> (case gb18030_body [0] gs of (r, _, gs') \<Rightarrow> (r, None, gs'))
        | Some b \<Rightarrow> gb18030_body b gs))"

text \<open>
  The bytes of a character of four bytes are stored as they pass their checks, so a failing
  call has stored those before the failing one; \<open>c\<close> is an \<open>int\<close> from 0 to 255.
\<close>

definition gb18030_byte :: "nat \<Rightarrow> wchar \<Rightarrow> byte" where
  "gb18030_byte i wc = ucast (signed_drop_bit i wc AND 0xff)"

definition gb18030_four :: "wchar \<Rightarrow> (errno + nat) \<times> byte list" where
  "gb18030_four wc =
     (let c1 = gb18030_byte 24 wc; c2 = gb18030_byte 16 wc;
          c3 = gb18030_byte 8 wc; c4 = gb18030_byte 0 wc
      in if c1 < 0x81 \<or> c1 > 0xfe then (Inl EILSEQ, [])
         else if c2 < 0x30 \<or> c2 > 0x39 then (Inl EILSEQ, [c1])
         else if c3 < 0x81 \<or> c3 > 0xfe then (Inl EILSEQ, [c1, c2])
         else if c4 < 0x30 \<or> c4 > 0x39 then (Inl EILSEQ, [c1, c2, c3])
         else (Inr 4, [c1, c2, c3, c4]))"

definition gb18030_two :: "wchar \<Rightarrow> (errno + nat) \<times> byte list" where
  "gb18030_two wc =
     (let c1 = gb18030_byte 8 wc; c2 = gb18030_byte 0 wc
      in if c1 < 0x81 \<or> c1 > 0xfe then (Inl EILSEQ, [])
         else if c2 < 0x40 \<or> c2 = 0x7f \<or> c2 = 0xff then (Inl EILSEQ, [c1])
         else (Inr 2, [c1, c2]))"

definition gb18030_encode :: "wchar \<Rightarrow> (errno + nat) \<times> byte list" where
  "gb18030_encode wc =
     (if wc AND NOT 0x7fffffff \<noteq> 0 then (Inl EILSEQ, [])
      else if wc AND 0x7f000000 \<noteq> 0 then gb18030_four (wc OR 0x80000000)
      else if wc AND 0x00ff0000 \<noteq> 0 then (Inl EILSEQ, [])
      else if wc AND 0x0000ff00 \<noteq> 0 then gb18030_two wc
      else if wc \<le>s 0x7f then (Inr 1, [ucast wc])
      else (Inl EILSEQ, []))"

definition gb18030_wcrtomb :: "gb_state wcrtomb_fn" where
  "gb18030_wcrtomb has_s wc gs =
     (if gb_count gs \<noteq> 0 then (Inl EINVAL, [], gs)
      else if \<not> has_s then (Inr 1, [], gs)
      else (case gb18030_encode wc of (r, bs) \<Rightarrow> (r, bs, gs)))"

definition gb18030_init :: "gb_state runelocale \<Rightarrow> int \<times> gb_state runelocale" where
  "gb18030_init xrl =
     (0, xrl\<lparr>rl_mbrtowc := Some gb18030_mbrtowc, rl_wcrtomb := Some gb18030_wcrtomb,
         rl_mbsinit := Some gb_mbsinit, rl_mb_cur_max := int GB18030_MB_CUR_MAX,
         rl_mb_sb_limit := 128\<rparr>)"

section \<open>Filling the buffer\<close>

lemma length_c_strncpy [simp]: "length (c_strncpy n s) = n" if "n \<le> length s"
proof -
  have "length (takeWhile (\<lambda>c. c \<noteq> 0) (take n s)) \<le> n"
    using length_takeWhile_le [of _ "take n s"] that by simp
  then show ?thesis by (simp add: c_strncpy_def Let_def)
qed

lemma c_strncpy_nonzero:
  assumes "0 \<notin> set (take n s)" "n \<le> length s"
  shows "c_strncpy n s = take n s"
proof -
  from assms have t: "takeWhile (\<lambda>c. c \<noteq> 0) (take n s) = take n s"
    by (auto simp: takeWhile_eq_all_conv)
  show ?thesis unfolding c_strncpy_def t Let_def using assms by simp
qed

text \<open>
  The decoding \<open>dec\<close> of a prefix of the input needs a buffer of \<open>sz\<close> bytes at most, and
  is decided by the first null byte: then the buffer decodes as the input does.
\<close>

definition buffered :: "nat \<Rightarrow> (byte list \<Rightarrow> mb_ret \<times> wchar option) \<Rightarrow> bool" where
  "buffered sz dec \<longleftrightarrow>
     (\<forall>s n w. dec s = (MbLen n, w) \<longrightarrow>
        n \<le> length s \<and> (\<exists>c. w = Some c \<and> (n = 0 \<longleftrightarrow> c = 0)) \<and>
        (n \<noteq> 0 \<longrightarrow> dec (take n s) = (MbLen n, w))) \<and>
     (\<forall>s r w e. dec s = (r, w) \<longrightarrow> r = MbIncomplete \<or> r = MbErr e \<longrightarrow> w = None) \<and>
     (\<forall>s t. fst (dec s) \<noteq> MbIncomplete \<longrightarrow> dec (s @ t) = dec s) \<and>
     (\<forall>s. fst (dec (s @ [0])) \<noteq> MbIncomplete) \<and>
     (\<forall>s. length s = sz \<longrightarrow> fst (dec s) \<noteq> MbIncomplete)"

lemma c_strncpy_zero:
  assumes "take n s = a @ 0 # b" "0 \<notin> set a"
  shows "\<exists>k. c_strncpy n s = a @ 0 # replicate k 0"
proof -
  from assms have t: "takeWhile (\<lambda>c. c \<noteq> 0) (take n s) = a" by (auto simp: takeWhile_append)
  have "length (take n s) \<le> n" by simp
  with assms(1) have "n - length a = Suc (n - length a - 1)" by simp
  then have "replicate (n - length a) 0 = 0 # replicate (n - length a - 1) (0 :: byte)"
    by (metis replicate_Suc)
  then show ?thesis by (auto simp: c_strncpy_def t)
qed

lemma buffered_strncpy:
  assumes "buffered sz dec" "length p \<le> sz"
  shows "dec (p @ c_strncpy (min (length s) (sz - length p)) s) = dec (p @ s)"
proof -
  let ?m = "min (length s) (sz - length p)"
  from assms have ext: "\<And>s t. fst (dec s) \<noteq> MbIncomplete \<Longrightarrow> dec (s @ t) = dec s"
    and nul: "\<And>s. fst (dec (s @ [0])) \<noteq> MbIncomplete"
    and full: "\<And>s. length s = sz \<Longrightarrow> fst (dec s) \<noteq> MbIncomplete"
    by (auto simp: buffered_def)
  show ?thesis
  proof (cases "0 \<in> set (take ?m s)")
    case False
    then have "c_strncpy ?m s = take ?m s" by (intro c_strncpy_nonzero) auto
    moreover have "dec (p @ take ?m s) = dec (p @ s)"
    proof (cases "length s \<le> sz - length p")
      case False
      with assms(2) have "length (p @ take ?m s) = sz" by simp
      from ext [OF full [OF this], of "drop ?m s"] show ?thesis by simp
    qed simp
    ultimately show ?thesis by simp
  next
    case True
    then obtain a b where ab: "take ?m s = a @ 0 # b" "0 \<notin> set a" by (meson split_list_first)
    have stop: "dec (p @ a @ 0 # r) = dec (p @ a @ [0])" for r
      using ext [of "p @ a @ [0]" r] nul [of "p @ a"] by simp
    have "s = a @ 0 # b @ drop ?m s"
      using ab by (metis append_Cons append_assoc append_take_drop_id)
    then have "dec (p @ s) = dec (p @ a @ [0])" using stop [of "b @ drop ?m s"] by metis
    with c_strncpy_zero [OF ab] stop show ?thesis by auto
  qed
qed

lemma buffered_incomplete:
  assumes "buffered sz dec" "fst (dec (p @ s)) = MbIncomplete"
  shows "length p + length s < sz" "c_strncpy (length s) s = s"
proof -
  from assms(1) have ext: "\<And>s t. fst (dec s) \<noteq> MbIncomplete \<Longrightarrow> dec (s @ t) = dec s"
    and nul: "\<And>s. fst (dec (s @ [0])) \<noteq> MbIncomplete"
    and full: "\<And>s. length s = sz \<Longrightarrow> fst (dec s) \<noteq> MbIncomplete"
    by (auto simp: buffered_def)
  show "length p + length s < sz"
  proof (rule ccontr)
    assume "\<not> length p + length s < sz"
    then have "length (take sz (p @ s)) = sz" by simp
    from full [OF this] ext [OF full [OF this], of "drop sz (p @ s)"] assms(2) show False
      by (simp del: take_append drop_append)
  qed
  have "0 \<notin> set s"
  proof
    assume "0 \<in> set s"
    then obtain a b where "s = a @ 0 # b" by (meson split_list)
    with nul [of "p @ a"] ext [of "p @ a @ [0]" b] assms(2) show False by simp
  qed
  then show "c_strncpy (length s) s = s" by (simp add: c_strncpy_nonzero)
qed

text \<open>Both decoders are a look at the filled buffer.\<close>

definition gb_body_with ::
  "(byte list \<Rightarrow> int \<Rightarrow> mb_ret + nat \<times> wchar) \<Rightarrow> nat \<Rightarrow> byte list \<Rightarrow> gb_state \<Rightarrow>
    mb_ret \<times> wchar option \<times> gb_state" where
  "gb_body_with look cur s gs =
     (let gs1 = gb_fill cur s gs
      in case look (gb_bytes gs1) (gb_count gs1) of
           Inl r \<Rightarrow> (r, None, gs1)
         | Inr (len, wch) \<Rightarrow> (gb_len wch (int len) (gb_count gs), Some wch, gs1\<lparr>gb_count := 0\<rparr>))"

definition look_result :: "mb_ret + nat \<times> wchar \<Rightarrow> mb_ret \<times> wchar option" where
  "look_result l = (case l of Inl r \<Rightarrow> (r, None)
     | Inr (len, w) \<Rightarrow> (MbLen (if w = 0 then 0 else len), Some w))"

definition gb_rep :: "nat \<Rightarrow> (byte list \<Rightarrow> mb_ret \<times> wchar option) \<Rightarrow> gb_state \<Rightarrow> byte list \<Rightarrow> bool" where
  "gb_rep sz dec gs p \<longleftrightarrow>
     length (gb_bytes gs) = sz \<and> gb_count gs = int (length p) \<and>
     take (length p) (gb_bytes gs) = p \<and> dec p = (MbIncomplete, None)"

lemma gb_fill_rep:
  assumes "gb_rep sz dec gs p" "length p \<le> sz"
  shows "gb_fill sz s gs =
    (let m = min (length s) (sz - length p)
     in \<lparr>gb_count = int (length p + m),
         gb_bytes = p @ c_strncpy m s @ drop (length p + m) (gb_bytes gs)\<rparr>)"
proof -
  have "min (min (length s) sz) (sz - length p) = min (length s) (sz - length p)" by simp
  then show ?thesis
    using assms by (simp add: gb_fill_def gb_rep_def Let_def)
qed

lemma gb_decoder:
  assumes buf: "buffered sz dec"
    and start: "dec [] = (MbIncomplete, None)"
    and look: "\<And>b n. n \<le> length b \<Longrightarrow> look_result (look b (int n)) = dec (take n b)"
    and small: "\<And>b n len w. look b n = Inr (len, w) \<Longrightarrow> len < 2 ^ 63"
    and body: "\<And>s gs. 0 \<le> gb_count gs \<Longrightarrow> gb_count gs \<le> int (length (gb_bytes gs)) \<Longrightarrow>
      mbrtowc (Some s) gs = gb_body_with look sz s gs"
  shows "mb_decoder mbrtowc dec (gb_rep sz dec)"
proof
  fix gs p s r w
  assume rep: "gb_rep sz dec gs p" and d: "dec (p @ s) = (r, w)"
  from buf have full: "\<And>s. length s = sz \<Longrightarrow> fst (dec s) \<noteq> MbIncomplete"
    and ext: "\<And>s t. fst (dec s) \<noteq> MbIncomplete \<Longrightarrow> dec (s @ t) = dec s"
    and take: "\<And>s n w. dec s = (MbLen n, w) \<Longrightarrow> n \<noteq> 0 \<Longrightarrow> dec (take n s) = (MbLen n, w)"
    and lens: "\<And>s r w n. dec s = (r, w) \<Longrightarrow> r = MbLen n \<Longrightarrow> n \<le> length s \<and> (\<exists>c. w = Some c \<and> (n = 0 \<longleftrightarrow> c = 0))"
    by (auto simp: buffered_def)
  from rep have p: "dec p = (MbIncomplete, None)" "length p \<le> length (gb_bytes gs)"
    "length (gb_bytes gs) = sz" "gb_count gs = int (length p)"
    by (auto simp: gb_rep_def) (metis length_take min.bounded_iff order_refl)
  with full have le: "length p \<le> sz" by simp
  let ?m = "min (length s) (sz - length p)"
  let ?b = "p @ c_strncpy ?m s"
  let ?g = "gb_fill sz s gs"
  have g: "gb_count ?g = int (length ?b)" "take (length ?b) (gb_bytes ?g) = ?b"
    "length (gb_bytes ?g) = sz"
    using gb_fill_rep [OF rep le, of s] p le by (simp_all add: Let_def)
  have "dec ?b = (r, w)" using buffered_strncpy [OF buf le] d by simp
  moreover have "length ?b \<le> length (gb_bytes ?g)" using p le g(3) by simp
  ultimately have l: "look_result (look (gb_bytes ?g) (gb_count ?g)) = (r, w)"
    using look [of "length ?b" "gb_bytes ?g"] g by simp
  have m: "mbrtowc (Some s) gs = gb_body_with look sz s gs"
    using body [of gs s] p by simp
  show "\<exists>st'. mbrtowc (Some s) gs = (resume (length p) r, w, st') \<and>
    (r = MbIncomplete \<longrightarrow> gb_rep sz dec st' (p @ s)) \<and> ((\<exists>n. r = MbLen n) \<longrightarrow> gb_rep sz dec st' [])"
  proof (cases "look (gb_bytes ?g) (gb_count ?g)")
    case (Inl r')
    with l have r: "r' = r" "w = None" by (simp_all add: look_result_def)
    have "r = MbIncomplete \<Longrightarrow> gb_rep sz dec ?g (p @ s)"
      using buffered_incomplete [OF buf, of p s] d g p r by (auto simp: gb_rep_def)
    moreover have "r \<noteq> MbLen n" for n
      using lens [OF d, of n] r by auto
    ultimately show ?thesis using m Inl r by (cases r) (auto simp: gb_body_with_def)
  next
    case (Inr lw)
    obtain len c where lw: "lw = (len, c)" by fastforce
    with l Inr have r: "r = MbLen (if c = 0 then 0 else len)" "w = Some c"
      by (auto simp: look_result_def)
    have "c \<noteq> 0 \<Longrightarrow> length p < len"
    proof (rule ccontr)
      assume c: "c \<noteq> 0" and len: "\<not> length p < len"
      then have "take len (p @ s) = take len p" by simp
      moreover from c r d lens [OF d, of len] have "len \<noteq> 0" by auto
      ultimately have "dec (take len p) = (MbLen len, w)"
        using take [of "p @ s" len w] d r c len by (auto simp: not_less)
      with ext [of "take len p" "drop len p"] p show False by simp
    qed
    moreover have "len < 2 ^ 63" using small Inr lw by blast
    ultimately have "gb_len c (int len) (gb_count gs) = resume (length p) r"
      using p(4) r by (auto simp: gb_len_def of_nat_diff nat_diff_distrib)
    moreover have "gb_rep sz dec (?g\<lparr>gb_count := 0\<rparr>) []"
      using g(3) start by (simp add: gb_rep_def)
    ultimately show ?thesis using m Inr lw r by (auto simp: gb_body_with_def)
  qed
qed (use assms in \<open>auto simp: buffered_def gb_rep_def\<close>)


section \<open>The decoder contracts\<close>

text \<open>GB 2312: a byte below 0x80, or two bytes from 0xa1 to 0xfe.\<close>

definition gb_single :: "byte \<Rightarrow> bool" where
  "gb_single c \<longleftrightarrow> c < 0x80"

definition gb2312_byte :: "byte \<Rightarrow> bool" where
  "gb2312_byte c \<longleftrightarrow> 0xa1 \<le> c \<and> c \<le> 0xfe"

definition gb2312_dec :: "byte list \<Rightarrow> mb_ret \<times> wchar option" where
  "gb2312_dec s =
     (case s of [] \<Rightarrow> (MbIncomplete, None)
      | a # r \<Rightarrow>
          if gb2312_byte a then
            (case r of [] \<Rightarrow> (MbIncomplete, None)
             | b # _ \<Rightarrow> if gb2312_byte b then (MbLen 2, Some (gb_wide [a, b]))
                       else (MbErr ErrnoUnset, None))
          else if gb_single a then (MbLen (if a = 0 then 0 else 1), Some (ucast a))
          else (MbErr ErrnoUnset, None))"

text \<open>GB 18030: the table in the comment of \<open>_GB18030_mbrtowc\<close>.\<close>

definition gb18030_lead :: "byte \<Rightarrow> bool" where
  "gb18030_lead c \<longleftrightarrow> 0x81 \<le> c \<and> c \<le> 0xfe"

definition gb18030_trail :: "byte \<Rightarrow> bool" where
  "gb18030_trail c \<longleftrightarrow> 0x40 \<le> c \<and> c \<le> 0x7e \<or> 0x80 \<le> c \<and> c \<le> 0xfe"

definition gb18030_digit :: "byte \<Rightarrow> bool" where
  "gb18030_digit c \<longleftrightarrow> 0x30 \<le> c \<and> c \<le> 0x39"

definition gb18030_dec :: "byte list \<Rightarrow> mb_ret \<times> wchar option" where
  "gb18030_dec s =
     (case s of [] \<Rightarrow> (MbIncomplete, None)
      | a # r \<Rightarrow>
        if gb_single a then (MbLen (if a = 0 then 0 else 1), Some (ucast a))
        else if \<not> gb18030_lead a then (MbErr EILSEQ, None)
        else (case r of [] \<Rightarrow> (MbIncomplete, None)
          | b # r \<Rightarrow>
            if gb18030_trail b then (MbLen 2, Some (gb_wide [a, b]))
            else if \<not> gb18030_digit b then (MbErr EILSEQ, None)
            else (case r of [] \<Rightarrow> (MbIncomplete, None)
              | c # r \<Rightarrow>
                if \<not> gb18030_lead c then (MbErr EILSEQ, None)
                else (case r of [] \<Rightarrow> (MbIncomplete, None)
                  | d # _ \<Rightarrow>
                    if \<not> gb18030_digit d then (MbErr EILSEQ, None)
                    else (MbLen 4, Some (gb_wide [a AND 0x7f, b, c, d]))))))"

lemma gb_wide_simps:
  "gb_wide [a] = ucast a"
  "gb_wide [a, b] = push_bit 8 (ucast a) OR ucast b"
  "gb_wide [a, b, c, d] = push_bit 8 (push_bit 8 (push_bit 8 (ucast a) OR ucast b) OR ucast c) OR ucast d"
  by (simp_all add: gb_wide_def)

lemma gb_wide_nonzero:
  "gb2312_byte a \<Longrightarrow> gb_wide [a, b] \<noteq> 0"
  "gb18030_lead a \<Longrightarrow> gb_wide [a, b] \<noteq> 0"
  "gb18030_digit d \<Longrightarrow> gb_wide [a, b, c, d] \<noteq> 0"
proof -
  have 1: "gb_wide [a, b] \<noteq> 0" if "a \<noteq> 0" for a b
    using that unfolding gb_wide_simps by (simp add: bit_blast)
  have 2: "gb_wide [a, b, c, d] \<noteq> 0" if "d \<noteq> 0" for d a b c
    using that unfolding gb_wide_simps by (simp add: bit_blast) blast
  show "gb2312_byte a \<Longrightarrow> gb_wide [a, b] \<noteq> 0" "gb18030_lead a \<Longrightarrow> gb_wide [a, b] \<noteq> 0"
    "gb18030_digit d \<Longrightarrow> gb_wide [a, b, c, d] \<noteq> 0"
    using 1 [of a b] 2 [of d a b c] by (fastforce simp: gb2312_byte_def gb18030_lead_def gb18030_digit_def)+
qed

lemma gb_not_nul:
  "gb_single 0" "\<not> gb2312_byte 0" "\<not> gb18030_lead 0" "\<not> gb18030_trail 0" "\<not> gb18030_digit 0"
  by (simp_all add: gb_single_def gb2312_byte_def gb18030_lead_def gb18030_trail_def gb18030_digit_def)

lemma take_few:
  "take 2 (a # b # r) = [a, b]"
  "take 4 (a # b # c # d # r) = [a, b, c, d]"
  by (simp_all add: eval_nat_numeral)

text \<open>The forms of the characters.\<close>

lemma gb2312_dec_char:
  assumes "gb2312_dec s = (MbLen n, w)"
  obtains (one) a r where "s = a # r" "\<not> gb2312_byte a" "gb_single a"
      "n = (if a = 0 then 0 else 1)" "w = Some (ucast a)"
  | (two) a b r where "s = a # b # r" "gb2312_byte a" "gb2312_byte b" "n = 2"
      "w = Some (gb_wide [a, b])"
  using assms by (auto simp: gb2312_dec_def split: list.splits if_splits)

lemma gb18030_dec_char:
  assumes "gb18030_dec s = (MbLen n, w)"
  obtains (one) a r where "s = a # r" "gb_single a" "n = (if a = 0 then 0 else 1)" "w = Some (ucast a)"
  | (two) a b r where "s = a # b # r" "\<not> gb_single a" "gb18030_lead a" "gb18030_trail b" "n = 2"
      "w = Some (gb_wide [a, b])"
  | (four) a b c d r where "s = a # b # c # d # r" "\<not> gb_single a" "gb18030_lead a"
      "\<not> gb18030_trail b" "gb18030_digit b" "gb18030_lead c" "gb18030_digit d" "n = 4"
      "w = Some (gb_wide [a AND 0x7f, b, c, d])"
  using assms by (auto simp: gb18030_dec_def split: list.splits if_splits)

lemma gb2312_buffered: "buffered 2 gb2312_dec"
proof -
  have 1: "gb2312_dec s = (MbLen n, w) \<Longrightarrow>
      n \<le> length s \<and> (\<exists>c. w = Some c \<and> (n = 0 \<longleftrightarrow> c = 0)) \<and>
      (n \<noteq> 0 \<longrightarrow> gb2312_dec (take n s) = (MbLen n, w))" for s n w
    by (elim gb2312_dec_char)
      (auto simp: gb2312_dec_def ucast_byte_zero_iff gb_wide_nonzero take_few take_Suc)
  have 2: "gb2312_dec s = (r, w) \<Longrightarrow> r = MbIncomplete \<or> r = MbErr e \<Longrightarrow> w = None" for s r w e
    by (auto simp: gb2312_dec_def split: list.splits if_splits)
  have 3: "fst (gb2312_dec s) \<noteq> MbIncomplete \<Longrightarrow> gb2312_dec (s @ t) = gb2312_dec s" for s t
    by (auto simp: gb2312_dec_def split: list.splits if_splits)
  have 4: "fst (gb2312_dec (s @ [0])) \<noteq> MbIncomplete" for s
    by (cases s; cases "tl s") (auto simp: gb2312_dec_def gb_not_nul)
  have 5: "length s = 2 \<Longrightarrow> fst (gb2312_dec s) \<noteq> MbIncomplete" for s
    by (cases s; cases "tl s") (auto simp: gb2312_dec_def)
  from 1 2 3 4 5 show ?thesis unfolding buffered_def by blast
qed

lemma gb18030_buffered: "buffered 4 gb18030_dec"
proof -
  have 1: "gb18030_dec s = (MbLen n, w) \<Longrightarrow>
      n \<le> length s \<and> (\<exists>c. w = Some c \<and> (n = 0 \<longleftrightarrow> c = 0)) \<and>
      (n \<noteq> 0 \<longrightarrow> gb18030_dec (take n s) = (MbLen n, w))" for s n w
    by (elim gb18030_dec_char)
      (auto simp: gb18030_dec_def ucast_byte_zero_iff gb_wide_nonzero take_few take_Suc)
  have 2: "gb18030_dec s = (r, w) \<Longrightarrow> r = MbIncomplete \<or> r = MbErr e \<Longrightarrow> w = None" for s r w e
    by (auto simp: gb18030_dec_def split: list.splits if_splits)
  have 3: "gb18030_dec (s @ t) = gb18030_dec s" if "fst (gb18030_dec s) \<noteq> MbIncomplete" for s t
  proof (cases "\<exists>a b c. s = [] \<or> s = [a] \<or> s = [a, b] \<or> s = [a, b, c]")
    case True
    with that show ?thesis
      by (auto simp: gb18030_dec_def split: if_splits)
  next
    case False
    then obtain a b c d r where "s = a # b # c # d # r" by (metis list.exhaust)
    then show ?thesis by (simp add: gb18030_dec_def)
  qed
  have 4: "fst (gb18030_dec (s @ [0])) \<noteq> MbIncomplete" for s
  proof (cases "\<exists>a b c. s = [] \<or> s = [a] \<or> s = [a, b] \<or> s = [a, b, c]")
    case True
    then show ?thesis by (auto simp: gb18030_dec_def gb_not_nul split: if_splits)
  next
    case False
    then obtain a b c d r where "s = a # b # c # d # r" by (metis list.exhaust)
    then show ?thesis by (simp add: gb18030_dec_def)
  qed
  have 5: "fst (gb18030_dec s) \<noteq> MbIncomplete" if "length s = 4" for s
  proof -
    from that obtain a b c d where "s = [a, b, c, d]"
      by (auto simp: numeral_eq_Suc length_Suc_conv)
    then show ?thesis by (simp add: gb18030_dec_def)
  qed
  from 1 2 3 4 5 show ?thesis unfolding buffered_def by blast
qed

text \<open>\<open>_GB2312_mbrtowc\<close> looks at its buffer with \<open>_GB2312_check\<close>.\<close>

definition gb2312_look :: "byte list \<Rightarrow> int \<Rightarrow> mb_ret + nat \<times> wchar" where
  "gb2312_look b n =
     (let len = gb2312_check b n in
      if len < 0 then Inl (if len = -2 then MbIncomplete else MbErr ErrnoUnset)
      else Inr (nat len, gb_wide (take (nat len) b)))"

lemma gb2312_body_look: "gb2312_body s gs = gb_body_with gb2312_look 2 s gs"
  by (auto simp: gb2312_body_def gb_body_with_def gb2312_look_def GB2312_MB_CUR_MAX_def Let_def)

lemma gb18030_body_look: "gb18030_body s gs = gb_body_with gb18030_look 4 s gs"
  by (simp add: gb18030_body_def gb_body_with_def GB18030_MB_CUR_MAX_def Let_def)

lemma byte_high_bit_iff: "(a :: byte) AND 0x80 = 0 \<longleftrightarrow> a < 0x80"
  by (simp add: bit_blast)

lemma gb2312_look_simps:
  "gb2312_look b 0 = Inl MbIncomplete"
  "gb2312_look (a # r) (int (Suc n)) =
     (if gb2312_byte a then
        (if n = 0 then Inl MbIncomplete
         else if gb2312_byte (r ! 0) then Inr (2, gb_wide (take 2 (a # r)))
         else Inl (MbErr ErrnoUnset))
      else if gb_single a then Inr (1, ucast a) else Inl (MbErr ErrnoUnset))"
  by (auto simp: gb2312_look_def gb2312_check_def gb2312_byte_def gb_single_def byte_high_bit_iff
      gb_wide_simps(1) not_le not_less)

lemma gb2312_look_dec:
  assumes "n \<le> length b"
  shows "look_result (gb2312_look b (int n)) = gb2312_dec (take n b)"
proof (cases n)
  case (Suc k)
  with assms obtain a r where b: "b = a # r" by (cases b) auto
  show ?thesis
    unfolding Suc b gb2312_look_simps using assms Suc b
    by (cases k; cases r)
      (auto simp: look_result_def gb2312_dec_def take_few gb_wide_nonzero ucast_byte_zero_iff)
qed (simp add: gb2312_look_simps gb2312_dec_def look_result_def)


lemma gb18030_ranges:
  "ch \<le> 0x7f \<longleftrightarrow> gb_single ch"
  "0x81 \<le> ch \<and> ch \<le> 0xfe \<longleftrightarrow> gb18030_lead ch"
  "0x40 \<le> ch \<and> ch \<le> 0x7e \<or> 0x80 \<le> ch \<and> ch \<le> 0xfe \<longleftrightarrow> gb18030_trail ch"
  "0x30 \<le> ch \<and> ch \<le> 0x39 \<longleftrightarrow> gb18030_digit ch"
  "ch < 0x81 \<or> ch > 0xfe \<longleftrightarrow> \<not> gb18030_lead ch"
  "ch < 0x30 \<or> ch > 0x39 \<longleftrightarrow> \<not> gb18030_digit ch"
  by (auto simp: gb_single_def gb18030_lead_def gb18030_trail_def gb18030_digit_def not_le not_less
      word_less_nat_alt word_le_nat_alt)

lemma gb18030_look_alt:
  "gb18030_look s n =
     (if n = 0 then Inl MbIncomplete
      else if gb_single (s ! 0) then Inr (1, ucast (s ! 0))
      else if \<not> gb18030_lead (s ! 0) then Inl (MbErr EILSEQ)
      else if n < 2 then Inl MbIncomplete
      else if gb18030_trail (s ! 1) then Inr (2, gb_wide [s ! 0, s ! 1])
      else if \<not> gb18030_digit (s ! 1) then Inl (MbErr EILSEQ)
      else if n < 3 then Inl MbIncomplete
      else if \<not> gb18030_lead (s ! 2) then Inl (MbErr EILSEQ)
      else if n < 4 then Inl MbIncomplete
      else if \<not> gb18030_digit (s ! 3) then Inl (MbErr EILSEQ)
      else Inr (4, gb_wide [s ! 0 AND 0x7f, s ! 1, s ! 2, s ! 3]))"
proof -
  have "(ucast (a AND 0x7f) :: wchar) = ucast a AND 0x7f" for a :: byte
    by (simp add: bit_blast)
  then show ?thesis
    unfolding gb18030_look_def Let_def gb18030_ranges gb_wide_simps by simp
qed

lemma gb18030_look_take: "gb18030_look b (int n) = gb18030_look (take n b) (int n)"
  unfolding gb18030_look_alt by simp

lemma gb18030_look_all: "look_result (gb18030_look s (int (length s))) = gb18030_dec s"
proof (cases "\<exists>a b c. s = [] \<or> s = [a] \<or> s = [a, b] \<or> s = [a, b, c]")
  case True
  then consider "s = []" | a where "s = [a]" | a b where "s = [a, b]" | a b c where "s = [a, b, c]"
    by blast
  then show ?thesis
    by cases (simp_all add: gb18030_look_alt gb18030_dec_def look_result_def gb_wide_nonzero
        ucast_byte_zero_iff)
next
  case False
  then obtain a b c d r where "s = a # b # c # d # r" by (metis list.exhaust)
  then show ?thesis
    by (simp add: gb18030_look_alt gb18030_dec_def look_result_def gb_wide_nonzero
        ucast_byte_zero_iff)
qed

lemma gb18030_look_dec:
  assumes "n \<le> length b"
  shows "look_result (gb18030_look b (int n)) = gb18030_dec (take n b)"
  using gb18030_look_all [of "take n b"] assms by (simp add: gb18030_look_take [of b n])

lemma look_small:
  "gb2312_look b n = Inr (len, w) \<Longrightarrow> len < 2 ^ 63"
  "gb18030_look b n = Inr (len, w) \<Longrightarrow> len < 2 ^ 63"
  by (auto simp: gb2312_look_def gb2312_check_def gb18030_look_alt Let_def split: if_splits)

lemma gb_body_mbrtowc:
  assumes "0 \<le> gb_count gs" "gb_count gs \<le> int (length (gb_bytes gs))"
  shows "gb2312_mbrtowc (Some s) gs = gb_body_with gb2312_look 2 s gs"
    "gb18030_mbrtowc (Some s) gs = gb_body_with gb18030_look 4 s gs"
  using assms by (simp_all add: gb2312_mbrtowc_def gb18030_mbrtowc_def gb2312_body_look gb18030_body_look)

lemma gb2312_decoder: "mb_decoder gb2312_mbrtowc gb2312_dec (gb_rep 2 gb2312_dec)"
  by (rule gb_decoder [OF gb2312_buffered _ gb2312_look_dec look_small(1) gb_body_mbrtowc(1)])
    (simp add: gb2312_dec_def)

lemma gb18030_decoder: "mb_decoder gb18030_mbrtowc gb18030_dec (gb_rep 4 gb18030_dec)"
  by (rule gb_decoder [OF gb18030_buffered _ gb18030_look_dec look_small(2) gb_body_mbrtowc(2)])
    (simp add: gb18030_dec_def)

section \<open>The encoder contracts\<close>

definition gb2312_valid :: "wchar \<Rightarrow> bool" where
  "gb2312_valid c \<longleftrightarrow>
     (\<exists>a. gb_single a \<and> c = ucast a) \<or>
     (\<exists>a b. gb2312_byte a \<and> gb2312_byte b \<and> c = gb_wide [a, b])"

text \<open>The characters of GB 18030 by the bytes of the wide character.\<close>

definition gb18030_enc :: "wchar \<Rightarrow> byte list option" where
  "gb18030_enc c =
     (let a = ucast (drop_bit 24 c) :: byte; b = ucast (drop_bit 16 c) :: byte;
          d = ucast (drop_bit 8 c) :: byte; e = ucast c :: byte
      in if c < 0x80 then Some [e]
         else if c < 0x10000 \<and> gb18030_lead d \<and> gb18030_trail e then Some [d, e]
         else if c < 0x80000000 \<and> gb18030_lead (a OR 0x80) \<and> gb18030_digit b \<and> gb18030_lead d \<and>
           gb18030_digit e then Some [a OR 0x80, b, d, e]
         else None)"

definition gb18030_valid :: "wchar \<Rightarrow> bool" where
  "gb18030_valid c \<longleftrightarrow> gb18030_enc c \<noteq> None"

lemma gb18030_bytes:
  "gb18030_byte 24 (c OR 0x80000000) = ucast (drop_bit 24 c) OR 0x80"
  "gb18030_byte 16 (c OR 0x80000000) = ucast (drop_bit 16 c)"
  "gb18030_byte 8 (c OR 0x80000000) = ucast (drop_bit 8 c)"
  "gb18030_byte 8 c = ucast (drop_bit 8 c)"
  "gb18030_byte 0 c = ucast c"
  "gb18030_byte 0 (c OR 0x80000000) = ucast c"
  by (simp_all add: gb18030_byte_def bit_blast)


text \<open>The tests of \<open>_GB18030_wcrtomb\<close> as ranges.\<close>

lemma gb18030_tests:
  "(c :: wchar) AND - 2147483648 = 0 \<longleftrightarrow> drop_bit 31 c = 0"
  "(c :: wchar) AND 0x7f000000 = 0 \<longleftrightarrow> drop_bit 24 (c AND 0x7fffffff) = 0"
  "(c :: wchar) AND 0x00ff0000 = 0 \<longleftrightarrow> drop_bit 16 c AND 0xff = 0"
  "(c :: wchar) AND 0x0000ff00 = 0 \<longleftrightarrow> drop_bit 8 c AND 0xff = 0"
  by (simp_all add: bit_blast)

lemma gb18030_below:
  "c < 0x80 \<longleftrightarrow> drop_bit 7 (c :: wchar) = 0"
  "c < 0x10000 \<longleftrightarrow> drop_bit 16 (c :: wchar) = 0"
  "c < 0x80000000 \<longleftrightarrow> drop_bit 31 (c :: wchar) = 0"
  unfolding word_less_nat_alt word_unat_eq_iff unat_drop_bit_eq by (simp_all add: drop_bit_eq_div) arith+

lemma gb18030_excl: "gb18030_lead a \<Longrightarrow> \<not> gb_single a" "gb18030_digit a \<Longrightarrow> \<not> gb18030_trail a"
  "\<not> gb18030_lead 0" "\<not> gb18030_lead 0x80"
  by (auto simp: gb_single_def gb18030_lead_def gb18030_trail_def gb18030_digit_def
      word_less_nat_alt word_le_nat_alt)

lemma gb18030_trail_test: "c < 0x40 \<or> c = 0x7f \<or> c = 0xff \<longleftrightarrow> \<not> gb18030_trail c"
proof -
  have "unat c < 2 ^ LENGTH(8)" by (rule unsigned_less)
  then show ?thesis
    by (auto simp: gb18030_trail_def word_less_nat_alt word_le_nat_alt word_unat_eq_iff)
qed

lemma gb18030_encode_alt:
  "gb18030_encode c =
     (let a = ucast (drop_bit 24 c) :: byte; b = ucast (drop_bit 16 c) :: byte;
          d = ucast (drop_bit 8 c) :: byte; e = ucast c :: byte
      in if drop_bit 31 c \<noteq> 0 then (Inl EILSEQ, [])
         else if drop_bit 24 c \<noteq> 0 then
           (if \<not> gb18030_lead (a OR 0x80) then (Inl EILSEQ, [])
            else if \<not> gb18030_digit b then (Inl EILSEQ, [a OR 0x80])
            else if \<not> gb18030_lead d then (Inl EILSEQ, [a OR 0x80, b])
            else if \<not> gb18030_digit e then (Inl EILSEQ, [a OR 0x80, b, d])
            else (Inr 4, [a OR 0x80, b, d, e]))
         else if drop_bit 16 c \<noteq> 0 then (Inl EILSEQ, [])
         else if drop_bit 8 c \<noteq> 0 then
           (if \<not> gb18030_lead d then (Inl EILSEQ, [])
            else if \<not> gb18030_trail e then (Inl EILSEQ, [d])
            else (Inr 2, [d, e]))
         else if drop_bit 7 c = 0 then (Inr 1, [e])
         else (Inl EILSEQ, []))"
proof -
  have 1: "drop_bit 31 c = 0 \<Longrightarrow> c AND 0x7fffffff = c" by (simp add: bit_blast)
  have 2: "drop_bit 24 c = 0 \<Longrightarrow> drop_bit 16 c AND 0xff = drop_bit 16 c" by (simp add: bit_blast)
  have 3: "drop_bit 16 c = 0 \<Longrightarrow> drop_bit 8 c AND 0xff = drop_bit 8 c" by (simp add: bit_blast)
  have 4: "drop_bit 8 c = 0 \<Longrightarrow> c \<le>s 0x7f \<longleftrightarrow> drop_bit 7 c = 0" by (simp add: bit_blast)
  have four: "gb18030_four (c OR 0x80000000) =
    (let a = ucast (drop_bit 24 c) OR 0x80; b = ucast (drop_bit 16 c);
         d = ucast (drop_bit 8 c); e = ucast c
     in if \<not> gb18030_lead a then (Inl EILSEQ, [])
        else if \<not> gb18030_digit b then (Inl EILSEQ, [a])
        else if \<not> gb18030_lead d then (Inl EILSEQ, [a, b])
        else if \<not> gb18030_digit e then (Inl EILSEQ, [a, b, d])
        else (Inr 4, [a, b, d, e]))"
    unfolding gb18030_four_def gb18030_bytes(1-3,6) gb18030_ranges Let_def ..
  have two: "gb18030_two c =
    (let d = ucast (drop_bit 8 c); e = ucast c
     in if \<not> gb18030_lead d then (Inl EILSEQ, [])
        else if \<not> gb18030_trail e then (Inl EILSEQ, [d])
        else (Inr 2, [d, e]))"
    unfolding gb18030_two_def gb18030_bytes(4,5) gb18030_ranges gb18030_trail_test Let_def ..
  show ?thesis
    using 1 2 3 4 unfolding gb18030_encode_def four two Let_def by (simp add: gb18030_tests)
qed


lemma gb18030_prefix_bits:
  "drop_bit 7 (c :: wchar) = 0 \<Longrightarrow> drop_bit 8 c = 0"
  "drop_bit 8 (c :: wchar) = 0 \<Longrightarrow> drop_bit 16 c = 0"
  "drop_bit 16 (c :: wchar) = 0 \<Longrightarrow> drop_bit 24 c = 0"
  "drop_bit 24 (c :: wchar) = 0 \<Longrightarrow> drop_bit 31 c = 0"
  by (simp_all add: bit_blast)

lemma gb18030_encode_enc:
  "case gb18030_enc c of
     Some bs \<Rightarrow> gb18030_encode c = (Inr (length bs), bs)
   | None \<Rightarrow> \<exists>bs. gb18030_encode c = (Inl EILSEQ, bs) \<and> length bs \<le> 4"
proof -
  consider (b1) "drop_bit 7 c = 0"
    | (b1x) "drop_bit 7 c \<noteq> 0" "drop_bit 8 c = 0"
    | (b2) "drop_bit 7 c \<noteq> 0" "drop_bit 8 c \<noteq> 0" "drop_bit 16 c = 0"
    | (b3) "drop_bit 7 c \<noteq> 0" "drop_bit 8 c \<noteq> 0" "drop_bit 16 c \<noteq> 0" "drop_bit 24 c = 0"
    | (b4) "drop_bit 7 c \<noteq> 0" "drop_bit 8 c \<noteq> 0" "drop_bit 16 c \<noteq> 0" "drop_bit 24 c \<noteq> 0"
    by blast
  then show ?thesis
    by cases (auto simp: gb18030_encode_alt gb18030_enc_def gb18030_below gb18030_excl Let_def
        dest: gb18030_prefix_bits)
qed

lemma gb_wide_parts:
  "drop_bit 7 c = 0 \<Longrightarrow> ucast (ucast c :: byte) = (c :: wchar)"
  "drop_bit 16 c = 0 \<Longrightarrow> gb_wide [ucast (drop_bit 8 c), ucast c] = c"
  "drop_bit 31 c = 0 \<Longrightarrow> gb_wide [(ucast (drop_bit 24 c) OR 0x80) AND 0x7f, ucast (drop_bit 16 c),
    ucast (drop_bit 8 c), ucast c] = c"
  unfolding gb_wide_simps by (simp_all add: bit_blast)

lemma gb18030_dec_enc:
  assumes "gb18030_enc c = Some bs"
  shows "gb18030_dec bs = (MbLen (if c = 0 then 0 else length bs), Some c)"
proof -
  have single: "drop_bit 7 c = 0 \<Longrightarrow> gb_single (ucast c)"
    unfolding gb_single_def by (simp add: bit_blast)
  have zero: "drop_bit 7 c = 0 \<Longrightarrow> (ucast c :: byte) = 0 \<longleftrightarrow> c = 0"
    by (simp add: bit_blast)
  have nonzero: "drop_bit 7 c \<noteq> 0 \<Longrightarrow> c \<noteq> 0" by auto
  consider (one) "drop_bit 7 c = 0" "bs = [ucast c]"
    | (two) "drop_bit 7 c \<noteq> 0" "drop_bit 16 c = 0" "bs = [ucast (drop_bit 8 c), ucast c]"
        "gb18030_lead (ucast (drop_bit 8 c))" "gb18030_trail (ucast c)"
    | (four) "drop_bit 7 c \<noteq> 0" "drop_bit 31 c = 0"
        "bs = [ucast (drop_bit 24 c) OR 0x80, ucast (drop_bit 16 c), ucast (drop_bit 8 c), ucast c]"
        "gb18030_lead (ucast (drop_bit 24 c) OR 0x80)" "gb18030_digit (ucast (drop_bit 16 c))"
        "gb18030_lead (ucast (drop_bit 8 c))" "gb18030_digit (ucast c)"
    using assms by (auto simp: gb18030_enc_def gb18030_below Let_def split: if_splits)
  then show ?thesis
  proof cases
    case one
    then show ?thesis
      using single zero gb_wide_parts(1) [of c]
      by (simp add: gb18030_dec_def)
  next
    case two
    then show ?thesis
      using nonzero gb_wide_parts(2) [of c]
      by (simp add: gb18030_dec_def gb18030_excl)
  next
    case four
    then show ?thesis
      using nonzero gb_wide_parts(3) [of c]
      by (simp add: gb18030_dec_def gb18030_excl)
  qed
qed

lemma gb_parts_wide:
  "gb_single a \<Longrightarrow> drop_bit 7 (ucast a :: wchar) = 0"
  "drop_bit 16 (gb_wide [a, b]) = 0" "ucast (drop_bit 8 (gb_wide [a, b])) = a" "ucast (gb_wide [a, b]) = b"
  "\<not> gb_single a \<Longrightarrow> drop_bit 7 (gb_wide [a, b]) \<noteq> 0"
  "drop_bit 31 (gb_wide [a AND 0x7f, b, c, d]) = 0"
  "\<not> gb_single a \<Longrightarrow> ucast (drop_bit 24 (gb_wide [a AND 0x7f, b, c, d])) OR 0x80 = a"
  "ucast (drop_bit 16 (gb_wide [a AND 0x7f, b, c, d])) = b"
  "ucast (drop_bit 8 (gb_wide [a AND 0x7f, b, c, d])) = c"
  "ucast (gb_wide [a AND 0x7f, b, c, d]) = d"
  unfolding gb_wide_simps gb_single_def by (simp_all add: bit_blast)

lemma gb_four_large: "b \<noteq> 0 \<Longrightarrow> drop_bit 16 (gb_wide [a, b, c, d]) \<noteq> 0"
  unfolding gb_wide_simps by (simp add: bit_blast) blast


lemma gb18030_enc_dec:
  assumes "gb18030_dec s = (MbLen n, Some c)" "c \<noteq> 0"
  shows "gb18030_enc c = Some (take n s)"
  using assms(1)
proof (cases rule: gb18030_dec_char)
  case (one a r)
  with assms(2) show ?thesis
    by (auto simp: gb18030_enc_def gb18030_below gb_parts_wide pair_parts Let_def)
next
  case (two a b r)
  then show ?thesis
    by (simp add: gb18030_enc_def gb18030_below gb_parts_wide take_few Let_def)
next
  case (four a b d e r)
  have "b \<noteq> 0" using four(5) by (auto simp: gb_not_nul)
  then have large: "drop_bit 16 (gb_wide [a AND 0x7f, b, d, e]) \<noteq> 0" by (rule gb_four_large)
  then have "drop_bit 7 (gb_wide [a AND 0x7f, b, d, e]) \<noteq> 0"
    using gb18030_prefix_bits(1,2) by blast
  with four large show ?thesis
    by (simp add: gb18030_enc_def gb18030_below gb_parts_wide take_few Let_def)
qed

interpretation gb18030: mb_strict_codec gb18030_mbrtowc gb18030_dec "gb_rep 4 gb18030_dec"
  gb18030_wcrtomb gb18030_enc gb18030_valid 4
proof (intro mb_strict_codec.intro mb_codec.intro gb18030_decoder mb_codec_axioms.intro
    mb_strict_codec_axioms.intro)
  fix gs c bs
  assume rep: "gb_rep 4 gb18030_dec gs []"
  show "gb18030_enc c = Some bs \<Longrightarrow> gb18030_wcrtomb True c gs = (Inr (length bs), bs, gs)"
    using rep gb18030_encode_enc [of c] by (simp add: gb18030_wcrtomb_def gb_rep_def)
  show "gb18030_enc c = None \<Longrightarrow>
      \<exists>bs. gb18030_wcrtomb True c gs = (Inl EILSEQ, bs, gs) \<and> length bs \<le> 4"
    using rep gb18030_encode_enc [of c] by (auto simp: gb18030_wcrtomb_def gb_rep_def)
next
  fix s n c
  assume "gb18030_dec s = (MbLen n, Some c)" "c \<noteq> 0"
  from gb18030_enc_dec [OF this] show "gb18030_valid c \<and> gb18030_enc c = Some (take n s)"
    by (simp add: gb18030_valid_def)
next
  fix c bs
  show "gb18030_enc c = Some bs \<Longrightarrow> 0 < length bs \<and> length bs \<le> 4"
    by (auto simp: gb18030_enc_def Let_def split: if_splits)
  show "gb18030_enc 0 = Some [0]" "gb18030_valid 0"
    by (simp_all add: gb18030_enc_def gb18030_valid_def)
  show "gb18030_valid c \<Longrightarrow> \<exists>bs. gb18030_enc c = Some bs \<and>
      gb18030_dec bs = (MbLen (if c = 0 then 0 else length bs), Some c)"
    using gb18030_dec_enc [of c] by (auto simp: gb18030_valid_def)
qed

lemma gb2312_enc:
  "gb_single a \<Longrightarrow> pair_enc (ucast a) = Some [a]"
  "gb2312_byte a \<Longrightarrow> pair_enc (gb_wide [a, b]) = Some [a, b]"
proof -
  have "gb2312_byte a \<Longrightarrow> 0x80 \<le> a"
    by (auto simp: gb2312_byte_def word_le_nat_alt)
  then show "gb2312_byte a \<Longrightarrow> pair_enc (gb_wide [a, b]) = Some [a, b]"
    unfolding gb_wide_simps by (simp add: pair_enc_parts)
qed (simp add: pair_enc_parts)

lemma gb2312_not_single: "gb_single a \<Longrightarrow> \<not> gb2312_byte a"
  by (auto simp: gb_single_def gb2312_byte_def word_less_nat_alt word_le_nat_alt)

interpretation gb2312: mb_strict_codec gb2312_mbrtowc gb2312_dec "gb_rep 2 gb2312_dec"
  gb2312_wcrtomb pair_enc gb2312_valid 2
proof (intro mb_strict_codec.intro mb_codec.intro gb2312_decoder mb_codec_axioms.intro
    mb_strict_codec_axioms.intro)
  fix gs c bs
  assume rep: "gb_rep 2 gb2312_dec gs []"
  have "gb2312_wcrtomb True c gs = (fst (big5_wcrtomb True c \<lparr>ls_ch = 0\<rparr>),
      fst (snd (big5_wcrtomb True c \<lparr>ls_ch = 0\<rparr>)), gs)"
    using rep by (simp add: gb2312_wcrtomb_def big5_wcrtomb_def gb_rep_def)
  then show "pair_enc c = Some bs \<Longrightarrow> gb2312_wcrtomb True c gs = (Inr (length bs), bs, gs)"
    using pair_wcrtomb(1) [of "\<lparr>ls_ch = 0\<rparr>" c] by simp
  show "pair_enc c = None \<Longrightarrow> \<exists>bs. gb2312_wcrtomb True c gs = (Inl EILSEQ, bs, gs) \<and> length bs \<le> 2"
    by (simp add: pair_enc_def)
next
  fix s n c
  assume "gb2312_dec s = (MbLen n, Some c)" "c \<noteq> 0"
  then show "gb2312_valid c \<and> pair_enc c = Some (take n s)"
    by (elim gb2312_dec_char) (auto simp: gb2312_valid_def gb2312_enc take_few)
next
  fix c bs
  show "pair_enc c = Some bs \<Longrightarrow> 0 < length bs \<and> length bs \<le> 2"
    by (auto simp: pair_enc_def split: if_splits)
  show "pair_enc 0 = Some [0]" by (simp add: pair_enc_def)
  show "gb2312_valid 0" by (auto simp: gb2312_valid_def gb_not_nul intro!: exI [of _ 0])
  show "gb2312_valid c \<Longrightarrow> \<exists>bs. pair_enc c = Some bs \<and>
      gb2312_dec bs = (MbLen (if c = 0 then 0 else length bs), Some c)"
    using gb2312_enc(1) [of 0]
    by (auto simp: gb2312_valid_def gb2312_enc gb2312_dec_def gb2312_not_single gb_wide_nonzero
        ucast_byte_zero_iff)
qed

section \<open>Properties\<close>

text \<open>
  GB 18030: every call of the decoder with a state between characters accepts exactly the
  table of the source's comment: the outcome, the length and the wide character.
\<close>

lemma gb18030_mbrtowc_table:
  assumes "gb_count gs = 0" "length (gb_bytes gs) = 4"
  shows "\<exists>gs'. gb18030_mbrtowc (Some s) gs = (fst (gb18030_dec s), snd (gb18030_dec s), gs') \<and>
    (fst (gb18030_dec s) = MbIncomplete \<longrightarrow> gb_count gs' = int (length s) \<and> take (length s) (gb_bytes gs') = s)"
proof -
  have "gb_rep 4 gb18030_dec gs []" using assms by (simp add: gb_rep_def gb18030_dec_def)
  from gb18030.step [OF this, of s] show ?thesis
    by (auto simp: gb_rep_def prod_eq_iff)
qed

text \<open>
  C7: GB 2312 and GB 18030: a character decoded between characters is encoded with the bytes
  it was decoded from, and the state is initial again.
\<close>

theorem gb_decode_encode:
  assumes "(mbrtowc, wcrtomb, sz) \<in> {(gb2312_mbrtowc, gb2312_wcrtomb, 2), (gb18030_mbrtowc, gb18030_wcrtomb, 4)}"
    and "gb_count gs = 0" "length (gb_bytes gs) = sz"
    and "mbrtowc (Some s) gs = (MbLen n, Some c, gs')" "c \<noteq> 0"
  shows "gb_count gs' = 0 \<and> wcrtomb True c gs' = (Inr n, take n s, gs')"
proof -
  have "sz = 2 \<Longrightarrow> gb_rep 2 gb2312_dec gs []" "sz = 4 \<Longrightarrow> gb_rep 4 gb18030_dec gs []"
    using assms(2,3) by (simp_all add: gb_rep_def gb2312_dec_def gb18030_dec_def)
  with assms gb2312.decode_encode [of gs s n c gs'] gb18030.decode_encode [of gs s n c gs']
  show ?thesis by (auto simp: gb_rep_def)
qed

theorem gb_decode_encode_witness:
  "gb2312_wcrtomb True 0xB0A1 \<lparr>gb_count = 0, gb_bytes = [0xB0, 0xA1]\<rparr> =
    (Inr 2, [0xB0, 0xA1], \<lparr>gb_count = 0, gb_bytes = [0xB0, 0xA1]\<rparr>)"
proof -
  have "gb2312_mbrtowc (Some [0xB0, 0xA1, 0x41]) \<lparr>gb_count = 0, gb_bytes = [0, 0]\<rparr> =
      (MbLen 2, Some 0xB0A1, \<lparr>gb_count = 0, gb_bytes = [0xB0, 0xA1]\<rparr>)"
    by code_simp
  from gb_decode_encode [of gb2312_mbrtowc gb2312_wcrtomb 2, OF _ _ _ this] show ?thesis by simp
qed

text \<open>
  On bytes that are no GB 2312 character the decoder returns \<open>(size_t)-1\<close> without a value
  of \<open>errno\<close> of its own: between characters the only failure it reports is that one.
\<close>

lemma gb2312_invalid_no_errno:
  assumes "gb_count gs = 0" "length (gb_bytes gs) = 2"
    and "gb2312_mbrtowc (Some s) gs = (MbErr e, w, gs')"
  shows "e = ErrnoUnset"
proof -
  have "gb_rep 2 gb2312_dec gs []" using assms by (simp add: gb_rep_def gb2312_dec_def)
  from gb2312.step [OF this, of s] assms(3) have "fst (gb2312_dec s) = MbErr e"
    by (metis append_Nil fst_conv list.size(3) prod.collapse resume_0)
  then show ?thesis by (auto simp: gb2312_dec_def split: list.splits if_splits)
qed

end
