(* ===== verification/Utf2_Codec.thy ===== *)
theory Utf2_Codec
  imports Utf8_Correct
begin

text \<open>
  The \<open>utf2.c\<close> encoding: UTF-8 as it was first defined, for the code points of up to 16
  bits and with the surrogates. The decoder detects a form that is too long by comparing the
  character with the least one of its length (\<open>lbound\<close>); the string conversions are the text
  of \<open>utf8.c\<close> again, and the loop that writes the bytes of a character is \<open>utf8_emit\<close>.
\<close>

section \<open>\<open>utf2.c\<close>\<close>

record utf2_state =
  u2_ch :: wchar
  u2_want :: int
  u2_lbound :: wchar

definition UTF2_MB_CUR_MAX :: nat where "UTF2_MB_CUR_MAX = 3"

definition utf2_mbsinit :: "utf2_state option \<Rightarrow> bool" where
  "utf2_mbsinit ps = (case ps of None \<Rightarrow> True | Some us \<Rightarrow> u2_want us = 0)"

text \<open>Mask, length and least character from the first byte; \<open>None\<close> is malformed.\<close>

definition utf2_lead :: "byte \<Rightarrow> (byte \<times> nat \<times> wchar) option" where
  "utf2_lead ch =
     (if ch AND 0x80 = 0 then Some (0x7f, 1, 0)
      else if ch AND 0xe0 = 0xc0 then Some (0x1f, 2, 0x80)
      else if ch AND 0xf0 = 0xe0 then Some (0x0f, 3, 0x800)
      else None)"

text \<open>The loop: the number of bytes still wanted and the bits so far; \<open>None\<close> is malformed.\<close>

fun utf2_loop :: "nat \<Rightarrow> byte list \<Rightarrow> wchar \<Rightarrow> (nat \<times> wchar) option" where
  "utf2_loop 0 s wch = Some (0, wch)"
| "utf2_loop (Suc k) [] wch = Some (Suc k, wch)"
| "utf2_loop (Suc k) (c # s) wch =
     (if c AND 0xc0 \<noteq> 0x80 then None
      else utf2_loop k s (push_bit 6 wch OR (ucast c AND 0x3f)))"

declare utf2_loop.simps [simp del]

definition utf2_finish :: "nat \<Rightarrow> wchar \<Rightarrow> (nat \<times> wchar) option \<Rightarrow> utf2_state \<Rightarrow>
    mb_ret \<times> wchar option \<times> utf2_state" where
  "utf2_finish want lbound r us =
     (case r of
        None \<Rightarrow> (MbErr EILSEQ, None, us)
      | Some (left, wch) \<Rightarrow>
          if 0 < left then
            (MbIncomplete, None, us\<lparr>u2_want := int left, u2_lbound := lbound, u2_ch := wch\<rparr>)
          else if wch <s lbound then (MbErr EILSEQ, None, us)
          else (MbLen (if wch = 0 then 0 else want), Some wch, us\<lparr>u2_want := 0\<rparr>))"

definition utf2_body :: "byte \<Rightarrow> byte list \<Rightarrow> utf2_state \<Rightarrow> mb_ret \<times> wchar option \<times> utf2_state" where
  "utf2_body c s us =
     (if u2_want us = 0 \<and> c AND NOT 0x7f = 0 then
        (MbLen (if c \<noteq> 0 then 1 else 0), Some (ucast c), us)
      else if u2_want us = 0 then
        (case utf2_lead c of
           None \<Rightarrow> (MbErr EILSEQ, None, us)
         | Some (msk, want, lbound) \<Rightarrow>
             utf2_finish want lbound (utf2_loop (want - 1) s (ucast (c AND msk))) us)
      else utf2_finish (nat (u2_want us)) (u2_lbound us)
             (utf2_loop (nat (u2_want us)) (c # s) (u2_ch us)) us)"

definition utf2_mbrtowc :: "utf2_state mbrtowc_fn" where
  "utf2_mbrtowc s us =
     (if u2_want us < 0 \<or> u2_want us > 6 then (MbErr EINVAL, None, us)
      else (case s of
        None \<Rightarrow> (case utf2_body 0 [] us of (r, _, us') \<Rightarrow> (r, None, us'))
      | Some [] \<Rightarrow> (MbIncomplete, None, us)
      | Some (c # s') \<Rightarrow> utf2_body c s' us))"

definition utf2_wcrtomb :: "utf2_state wcrtomb_fn" where
  "utf2_wcrtomb has_s wc us =
     (if u2_want us \<noteq> 0 then (Inl EINVAL, [], us)
      else if \<not> has_s then (Inr 1, [], us)
      else if wc AND NOT 0x7f = 0 then (Inr 1, [ucast wc], us)
      else if wc AND NOT 0x7ff = 0 then (Inr 2, utf8_emit 1 wc 0xc0, us)
      else if wc AND NOT 0xffff = 0 then (Inr 3, utf8_emit 2 wc 0xe0, us)
      else (Inl EILSEQ, [], us))"

definition utf2_mbsnrtowcs :: "utf2_state mbsnrtowcs_fn" where
  "utf2_mbsnrtowcs = fast_mbsnrtowcs utf2_mbrtowc u2_want"

definition utf2_wcsnrtombs :: "utf2_state wcsnrtombs_fn" where
  "utf2_wcsnrtombs = fast_wcsnrtombs utf2_wcrtomb UTF2_MB_CUR_MAX u2_want"

definition utf2_init :: "utf2_state runelocale \<Rightarrow> int \<times> utf2_state runelocale" where
  "utf2_init xrl =
     (0, xrl\<lparr>rl_mbrtowc := Some utf2_mbrtowc, rl_wcrtomb := Some utf2_wcrtomb,
         rl_mbsinit := Some utf2_mbsinit, rl_mbsnrtowcs := Some utf2_mbsnrtowcs,
         rl_wcsnrtombs := Some utf2_wcsnrtombs, rl_mb_cur_max := int UTF2_MB_CUR_MAX,
         rl_mb_sb_limit := 128\<rparr>)"

section \<open>Specification\<close>

definition cont :: "byte \<Rightarrow> bool" where "cont c \<longleftrightarrow> 0x80 \<le> c \<and> c \<le> 0xBF"
definition lead2 :: "byte \<Rightarrow> bool" where "lead2 b \<longleftrightarrow> 0xC0 \<le> b \<and> b \<le> 0xDF"
definition lead3 :: "byte \<Rightarrow> bool" where "lead3 b \<longleftrightarrow> 0xE0 \<le> b \<and> b \<le> 0xEF"

definition value2 :: "byte \<Rightarrow> byte \<Rightarrow> wchar" where
  "value2 b c = add_bits (ucast (b AND 0x1f)) c"

definition value3 :: "byte \<Rightarrow> byte \<Rightarrow> byte \<Rightarrow> wchar" where
  "value3 b c d = add_bits (add_bits (ucast (b AND 0x0f)) c) d"

definition utf2_dec :: "byte list \<Rightarrow> mb_ret \<times> wchar option" where
  "utf2_dec s =
     (case s of [] \<Rightarrow> (MbIncomplete, None)
      | b # r \<Rightarrow>
        if b \<le> 0x7F then (MbLen (if b = 0 then 0 else 1), Some (ucast b))
        else if lead2 b then
          (case r of [] \<Rightarrow> (MbIncomplete, None)
           | c # _ \<Rightarrow>
             if \<not> cont c \<or> value2 b c < 0x80 then (MbErr EILSEQ, None)
             else (MbLen 2, Some (value2 b c)))
        else if lead3 b then
          (case r of [] \<Rightarrow> (MbIncomplete, None)
           | c # r \<Rightarrow>
             if \<not> cont c then (MbErr EILSEQ, None)
             else (case r of [] \<Rightarrow> (MbIncomplete, None)
               | d # _ \<Rightarrow>
                 if \<not> cont d \<or> value3 b c d < 0x800 then (MbErr EILSEQ, None)
                 else (MbLen 3, Some (value3 b c d))))
        else (MbErr EILSEQ, None))"

definition utf2_rep :: "utf2_state \<Rightarrow> byte list \<Rightarrow> bool" where
  "utf2_rep us p \<longleftrightarrow>
     p = [] \<and> u2_want us = 0 \<or>
     (\<exists>b. p = [b] \<and> lead2 b \<and> u2_want us = 1 \<and> u2_lbound us = 0x80 \<and> u2_ch us = ucast (b AND 0x1f)) \<or>
     (\<exists>b. p = [b] \<and> lead3 b \<and> u2_want us = 2 \<and> u2_lbound us = 0x800 \<and> u2_ch us = ucast (b AND 0x0f)) \<or>
     (\<exists>b c. p = [b, c] \<and> lead3 b \<and> cont c \<and> u2_want us = 1 \<and> u2_lbound us = 0x800 \<and>
        u2_ch us = add_bits (ucast (b AND 0x0f)) c)"

section \<open>The decoder\<close>

lemma lead_excl: "lead2 b \<Longrightarrow> \<not> b \<le> 0x7F" "lead3 b \<Longrightarrow> \<not> b \<le> 0x7F" "lead3 b \<Longrightarrow> \<not> lead2 b"
  by (auto simp: lead2_def lead3_def word_le_nat_alt)

lemma utf2_lead_alt:
  "\<not> b \<le> 0x7F \<Longrightarrow> utf2_lead b =
    (if lead2 b then Some (0x1f, 2, 0x80) else if lead3 b then Some (0x0f, 3, 0x800) else None)"
  unfolding utf2_lead_def lead2_def lead3_def by (simp add: bit_blast)

lemma utf2_loop_simps:
  "utf2_loop 0 s w = Some (0, w)"
  "utf2_loop (Suc k) [] w = Some (Suc k, w)"
  "utf2_loop (Suc k) (c # s) w = (if cont c then utf2_loop k s (add_bits w c) else None)"
  by (simp_all add: utf2_loop.simps cont_def add_bits_def continuation_range)

lemma utf2_loop_12:
  "utf2_loop (Suc 0) [] w = Some (Suc 0, w)" "utf2_loop 2 [] w = Some (2, w)"
  "utf2_loop (Suc 0) (c # s) w = (if cont c then Some (0, add_bits w c) else None)"
  "utf2_loop 2 [c] w = (if cont c then Some (Suc 0, add_bits w c) else None)"
  "utf2_loop 2 (c # d # s) w =
     (if cont c \<and> cont d then Some (0, add_bits (add_bits w c) d) else None)"
  unfolding One_nat_def numeral_2_eq_2 utf2_loop_simps by simp_all

lemma value_signed:
  "value2 b c <s 0x80 \<longleftrightarrow> value2 b c < 0x80" "value3 b c d <s 0x800 \<longleftrightarrow> value3 b c d < 0x800"
  unfolding value2_def value3_def add_bits_def by (simp_all add: bit_blast)

lemma value_nonzero: "\<not> value2 b c < 0x80 \<Longrightarrow> value2 b c \<noteq> 0" "\<not> value3 b c d < 0x800 \<Longrightarrow> value3 b c d \<noteq> 0"
  by auto

lemma value_fold:
  "add_bits (ucast (b AND 0x1f)) c = value2 b c"
  "add_bits (add_bits (ucast (b AND 0x0f)) c) d = value3 b c d"
  by (simp_all add: value2_def value3_def)

lemma utf2_body_cont:
  "u2_want us = 0 \<Longrightarrow> b \<le> 0x7F \<Longrightarrow> utf2_body b s us = (MbLen (if b = 0 then 0 else 1), Some (ucast b), us)"
  "u2_want us = 0 \<Longrightarrow> \<not> b \<le> 0x7F \<Longrightarrow> utf2_body b s us =
     (if lead2 b then utf2_finish 2 0x80 (utf2_loop 1 s (ucast (b AND 0x1f))) us
      else if lead3 b then utf2_finish 3 0x800 (utf2_loop 2 s (ucast (b AND 0x0f))) us
      else (MbErr EILSEQ, None, us))"
  "u2_want us = 1 \<Longrightarrow> utf2_body b s us = utf2_finish 1 (u2_lbound us) (utf2_loop 1 (b # s) (u2_ch us)) us"
  "u2_want us = 2 \<Longrightarrow> utf2_body b s us = utf2_finish 2 (u2_lbound us) (utf2_loop 2 (b # s) (u2_ch us)) us"
  by (simp_all add: utf2_body_def ascii_mask utf2_lead_alt lead_excl)

lemma utf2_step:
  assumes "utf2_rep us p" and d: "utf2_dec (p @ s) = (r, w)"
  shows "\<exists>us'. utf2_mbrtowc (Some s) us = (resume (length p) r, w, us') \<and>
    (r = MbIncomplete \<longrightarrow> utf2_rep us' (p @ s)) \<and> ((\<exists>n. r = MbLen n) \<longrightarrow> utf2_rep us' [])"
proof -
  consider "s = []" | c where "s = [c]" | c d where "s = [c, d]" | c d e s' where "s = c # d # e # s'"
    by (metis list.exhaust)
  note s = this
  from assms(1) consider (start) "p = []" "u2_want us = 0"
    | (two) b where "p = [b]" "lead2 b" "u2_want us = 1" "u2_lbound us = 0x80" "u2_ch us = ucast (b AND 0x1f)"
    | (three) b where "p = [b]" "lead3 b" "u2_want us = 2" "u2_lbound us = 0x800" "u2_ch us = ucast (b AND 0x0f)"
    | (more) b c where "p = [b, c]" "lead3 b" "cont c" "u2_want us = 1" "u2_lbound us = 0x800"
        "u2_ch us = add_bits (ucast (b AND 0x0f)) c"
    unfolding utf2_rep_def by blast
  then show ?thesis
  proof cases
    case start
    show ?thesis
      by (cases rule: s) (use start d in \<open>auto simp: utf2_mbrtowc_def utf2_dec_def utf2_body_cont
          utf2_finish_def utf2_loop_12 value_fold value_signed value_nonzero utf2_rep_def lead_excl
          split: if_splits\<close>)
  next
    case two
    show ?thesis
      by (cases rule: s) (use two d in \<open>auto simp: utf2_mbrtowc_def utf2_dec_def utf2_body_cont
          utf2_finish_def utf2_loop_12 value_fold value_signed value_nonzero utf2_rep_def lead_excl
          split: if_splits\<close>)
  next
    case three
    show ?thesis
      by (cases rule: s) (use three d in \<open>auto simp: utf2_mbrtowc_def utf2_dec_def utf2_body_cont
          utf2_finish_def utf2_loop_12 value_fold value_signed value_nonzero utf2_rep_def lead_excl
          split: if_splits\<close>)
  next
    case more
    show ?thesis
      by (cases rule: s) (use more d in \<open>auto simp: utf2_mbrtowc_def utf2_dec_def utf2_body_cont
          utf2_finish_def utf2_loop_12 value_fold value_signed value_nonzero utf2_rep_def lead_excl
          split: if_splits\<close>)
  qed
qed


lemma utf2_dec_char:
  assumes "utf2_dec s = (MbLen n, w)"
  obtains (one) b r where "s = b # r" "b \<le> 0x7F" "n = (if b = 0 then 0 else 1)" "w = Some (ucast b)"
  | (two) b c r where "s = b # c # r" "\<not> b \<le> 0x7F" "lead2 b" "cont c" "\<not> value2 b c < 0x80"
      "n = 2" "w = Some (value2 b c)"
  | (three) b c d r where "s = b # c # d # r" "\<not> b \<le> 0x7F" "\<not> lead2 b" "lead3 b" "cont c" "cont d"
      "\<not> value3 b c d < 0x800" "n = 3" "w = Some (value3 b c d)"
  using assms by (auto simp: utf2_dec_def split: list.splits if_splits)

lemma take_23: "take 2 (a # b # r) = [a, b]" "take 3 (a # b # c # r) = [a, b, c]"
  by (simp_all add: eval_nat_numeral)

interpretation utf2_decoder: mb_decoder utf2_mbrtowc utf2_dec utf2_rep
proof
  fix us p assume "utf2_rep us p"
  then show "utf2_dec p = (MbIncomplete, None)"
    by (auto simp: utf2_rep_def utf2_dec_def lead_excl)
next
  fix s n w assume d: "utf2_dec s = (MbLen n, w)"
  then show "n \<le> length s \<and> (\<exists>c. w = Some c \<and> (n = 0) = (c = 0))"
    by (cases rule: utf2_dec_char) (auto simp: ucast_byte_zero value_nonzero)
  assume "n \<noteq> 0"
  from d show "utf2_dec (take n s) = (MbLen n, w)"
    by (cases rule: utf2_dec_char) (use \<open>n \<noteq> 0\<close> in \<open>auto simp: utf2_dec_def take_23\<close>)
next
  fix s t assume d: "fst (utf2_dec s) \<noteq> MbIncomplete"
  consider "s = []" | c where "s = [c]" | c d s' where "s = c # d # s'"
    by (metis list.exhaust)
  then show "utf2_dec (s @ t) = utf2_dec s"
    by cases (use d in \<open>auto simp: utf2_dec_def split: if_splits list.splits\<close>)
next
  fix s r w e assume "utf2_dec s = (r, w)" "r = MbIncomplete \<or> r = MbErr e"
  then show "w = None" by (auto simp: utf2_dec_def split: list.splits if_splits)
qed (rule utf2_step)

section \<open>The encoder\<close>

definition utf2_char :: "wchar \<Rightarrow> bool" where
  "utf2_char c \<longleftrightarrow> c \<le> 0xFFFF"

definition utf2_enc :: "wchar \<Rightarrow> byte list option" where
  "utf2_enc c =
     (if c \<le> 0x7F then Some [ucast c]
      else if c \<le> 0x7FF then Some [0xC0 OR ucast (drop_bit 6 c), 0x80 OR ucast (c AND 0x3f)]
      else if c \<le> 0xFFFF then
        Some [0xE0 OR ucast (drop_bit 12 c), 0x80 OR ucast (drop_bit 6 c AND 0x3f),
          0x80 OR ucast (c AND 0x3f)]
      else None)"

lemma utf2_wcrtomb_enc:
  assumes "u2_want us = 0"
  shows "utf2_wcrtomb True c us =
    (case utf2_enc c of None \<Rightarrow> (Inl EILSEQ, [], us) | Some bs \<Rightarrow> (Inr (length bs), bs, us))"
  using assms
  by (auto simp: utf2_wcrtomb_def utf2_enc_def wchar_masks utf8_emit_2 utf8_emit_3
      word_le_nat_alt simp del: utf8_emit.simps One_nat_def)

lemma utf2_dec_enc:
  assumes "utf2_char c"
  shows "\<exists>bs. utf2_enc c = Some bs \<and> utf2_dec bs = (MbLen (if c = 0 then 0 else length bs), Some c)"
proof -
  consider (1) "c \<le> 0x7F" | (2) "\<not> c \<le> 0x7F" "c \<le> 0x7FF" | (3) "\<not> c \<le> 0x7FF" "c \<le> 0xFFFF"
    using assms by (auto simp: utf2_char_def)
  then show ?thesis
  proof cases
    case 1
    then have "ucast c \<le> (0x7F :: byte)" "ucast (ucast c :: byte) = c" "(ucast c :: byte) = 0 \<longleftrightarrow> c = 0"
      unfolding wchar_above by (simp_all add: bit_blast)
    with 1 show ?thesis by (simp add: utf2_enc_def utf2_dec_def)
  next
    case 2
    let ?b = "0xC0 OR ucast (drop_bit 6 c) :: byte" and ?c = "0x80 OR ucast (c AND 0x3f) :: byte"
    have "lead2 ?b" "cont ?c" "value2 ?b ?c = c"
      using 2 unfolding lead2_def cont_def value2_def add_bits_def wchar_above by (simp_all add: bit_blast)
    moreover have "\<not> c < 0x80" "c \<noteq> 0" using 2 by (auto simp: word_le_nat_alt word_less_nat_alt)
    ultimately show ?thesis using 2 by (simp add: utf2_enc_def utf2_dec_def lead_excl)
  next
    case 3
    let ?b = "0xE0 OR ucast (drop_bit 12 c) :: byte" and ?c = "0x80 OR ucast (drop_bit 6 c AND 0x3f) :: byte"
      and ?d = "0x80 OR ucast (c AND 0x3f) :: byte"
    have "lead3 ?b" "cont ?c" "cont ?d" "value3 ?b ?c ?d = c"
      using 3 unfolding lead3_def cont_def value3_def add_bits_def wchar_above by (simp_all add: bit_blast)
    moreover have "\<not> c < 0x800" "c \<noteq> 0" "\<not> c \<le> 0x7F"
      using 3 by (auto simp: word_le_nat_alt word_less_nat_alt)
    ultimately show ?thesis using 3 by (simp add: utf2_enc_def utf2_dec_def lead_excl)
  qed
qed

lemma utf2_enc_of_dec:
  assumes "utf2_dec s = (MbLen n, Some c)" "c \<noteq> 0"
  shows "utf2_char c \<and> utf2_enc c = Some (take n s)"
  using assms(1)
proof (cases rule: utf2_dec_char)
  case (one b r)
  then have "c \<le> 0x7F" "(ucast c :: byte) = b" by (simp_all add: bit_blast)
  with one assms(2) show ?thesis
    by (auto simp: utf2_char_def utf2_enc_def word_le_nat_alt)
next
  case (two b d r)
  then have c: "c = value2 b d" and ge: "\<not> c \<le> 0x7F"
    by (auto simp: word_le_nat_alt word_less_nat_alt)
  have "c \<le> 0x7FF" "0xC0 OR ucast (drop_bit 6 c) = b" "0x80 OR ucast (c AND 0x3f) = d"
    using two(3,4) unfolding c lead2_def cont_def value2_def add_bits_def wchar_above
    by (simp_all add: bit_blast)
  with ge two show ?thesis
    by (auto simp: utf2_char_def utf2_enc_def take_23 word_le_nat_alt)
next
  case (three b d e r)
  then have c: "c = value3 b d e" and ge: "\<not> c \<le> 0x7FF" "\<not> c \<le> 0x7F"
    by (auto simp: word_le_nat_alt word_less_nat_alt)
  have "c \<le> 0xFFFF" "0xE0 OR ucast (drop_bit 12 c) = b" "0x80 OR ucast (drop_bit 6 c AND 0x3f) = d"
    "0x80 OR ucast (c AND 0x3f) = e"
    using three(4,5,6) unfolding c lead3_def cont_def value3_def add_bits_def wchar_above
    by (simp_all add: bit_blast)
  with ge three show ?thesis by (simp add: utf2_char_def utf2_enc_def take_23)
qed


interpretation utf2: mb_strict_codec utf2_mbrtowc utf2_dec utf2_rep utf2_wcrtomb utf2_enc utf2_char
  UTF2_MB_CUR_MAX
proof unfold_locales
  fix us c bs
  assume "utf2_rep us []"
  then have want: "u2_want us = 0" by (auto simp: utf2_rep_def)
  show "utf2_enc c = Some bs \<Longrightarrow> utf2_wcrtomb True c us = (Inr (length bs), bs, us)"
    "utf2_enc c = None \<Longrightarrow> \<exists>bs. utf2_wcrtomb True c us = (Inl EILSEQ, bs, us) \<and> length bs \<le> UTF2_MB_CUR_MAX"
    by (simp_all add: utf2_wcrtomb_enc [OF want])
next
  fix c bs
  show "utf2_enc c = Some bs \<Longrightarrow> 0 < length bs \<and> length bs \<le> UTF2_MB_CUR_MAX"
    by (auto simp: utf2_enc_def UTF2_MB_CUR_MAX_def split: if_splits)
  show "utf2_enc 0 = Some [0]" "utf2_char 0" by (simp_all add: utf2_enc_def utf2_char_def)
  show "utf2_char c \<Longrightarrow> \<exists>bs. utf2_enc c = Some bs \<and>
      utf2_dec bs = (MbLen (if c = 0 then 0 else length bs), Some c)"
    by (rule utf2_dec_enc)
qed (rule utf2_enc_of_dec)

interpretation utf2_fast: ascii_codec utf2_mbrtowc utf2_dec utf2_rep utf2_wcrtomb utf2_enc
  utf2_char UTF2_MB_CUR_MAX u2_want
proof unfold_locales
  fix us p s and c :: byte
  show "utf2_rep us [] \<longleftrightarrow> u2_want us = 0" by (auto simp: utf2_rep_def)
  show "utf2_rep us p \<Longrightarrow> 0 \<le> u2_want us" by (auto simp: utf2_rep_def)
  assume c: "ascii_not_nul c"
  then have ascii: "c \<noteq> 0" "c \<le> 0x7F" by (auto simp: ascii_not_nul_iff)
  then have "\<not> cont c" by (auto simp: cont_def word_le_nat_alt)
  then show "utf2_rep us p \<Longrightarrow> u2_want us \<noteq> 0 \<Longrightarrow>
      utf2_mbrtowc (Some (c # s)) us = (MbErr EILSEQ, None, us)"
    by (cases s) (auto simp: utf2_rep_def utf2_mbrtowc_def utf2_body_cont utf2_finish_def utf2_loop_12)
  show "u2_want us = 0 \<Longrightarrow> utf2_mbrtowc (Some (c # s)) us = (MbLen 1, Some (scast c), us)"
    using ascii by (simp add: utf2_mbrtowc_def utf2_body_cont scast_ascii)
next
  fix c :: wchar
  assume "0 \<le>s c" "c <s 0x80"
  then have "c \<le> 0x7F" by (simp add: bit_blast)
  then show "utf2_enc c = Some [ucast c]" by (simp add: utf2_enc_def)
qed

section \<open>Properties\<close>

definition utf2_initial :: utf2_state where
  "utf2_initial = \<lparr>u2_ch = 0, u2_want = 0, u2_lbound = 0\<rparr>"

text \<open>
  The string conversions of \<open>utf2.c\<close>, with their ASCII fast paths, are the generic ones
  over its \<open>mbrtowc\<close> and \<open>wcrtomb\<close>, from every state that a decoder can be left in.
\<close>

lemma utf2_fast_paths:
  assumes "utf2_rep us p" "u2_want vs = 0"
  shows "utf2_mbsnrtowcs has_dst s len us = mbsnrtowcs_std utf2_mbrtowc has_dst s len us \<and>
    utf2_wcsnrtombs has_dst ws len vs =
      wcsnrtombs_std utf2_wcrtomb UTF2_MB_CUR_MAX has_dst ws len vs"
  using assms
  by (simp add: utf2_mbsnrtowcs_def utf2_wcsnrtombs_def utf2_fast.mbsnrtowcs_fast
      utf2_fast.wcsnrtombs_fast)

text \<open>
  For every character of up to 16 bits that is no surrogate, the encoders of \<open>utf2.c\<close>
  and \<open>utf8.c\<close> write the same bytes between characters; and where \<open>utf8.c\<close> decodes such a
  character, \<open>utf2.c\<close> decodes the same one with the same length.
\<close>

lemma utf2_agrees_utf8:
  assumes "utf8_scalar c" "c \<le> 0xFFFF" "c \<noteq> 0" "u2_want us = 0" "u8_want vs = 0"
  shows "(\<exists>bs. utf2_wcrtomb True c us = (Inr (length bs), bs, us) \<and>
      utf8_wcrtomb True c vs = (Inr (length bs), bs, vs)) \<and>
    (\<forall>s n vs'. utf8_mbrtowc (Some s) vs = (MbLen n, Some c, vs') \<longrightarrow>
      (\<exists>us'. utf2_mbrtowc (Some s) us = (MbLen n, Some c, us') \<and> u2_want us' = 0))"
proof -
  from assms(1,2) have enc: "utf2_enc c = utf8_enc c" "utf2_char c"
    by (auto simp: utf2_enc_def utf8_enc_def utf8_scalar_def utf2_char_def)
  with utf2_dec_enc [OF enc(2)] assms(3) obtain bs where
    bs: "utf8_enc c = Some bs" "utf2_dec bs = (MbLen (length bs), Some c)" by auto
  have rep: "utf2_rep us []" using assms(4) by (simp add: utf2_rep_def)
  have "\<exists>us'. utf2_mbrtowc (Some s) us = (MbLen n, Some c, us') \<and> u2_want us' = 0"
    if m: "utf8_mbrtowc (Some s) vs = (MbLen n, Some c, vs')" for s n vs'
  proof -
    from utf8.decode_encode [of vs s n c vs'] m assms(3,5)
    have w: "utf8_wcrtomb True c vs' = (Inr n, take n s, vs')" "u8_want vs' = 0" by auto
    have e: "utf8_wcrtomb True c vs' = (Inr (length bs), bs, vs')"
      using bs(1) w(2) by (simp add: utf8_wcrtomb_enc)
    from w(1) e have n: "bs = take n s" "length bs = n"
      by (metis Pair_inject sum.inject(2))+
    from n(1) have "s = bs @ drop n s" by simp
    with utf2_decoder.dec_ext [of bs "drop n s"] bs(2) n(2)
    have "utf2_dec s = (MbLen n, Some c)" by (metis fst_conv mb_ret.distinct(5))
    with utf2_step [OF rep, of s] show ?thesis by (auto simp: utf2_rep_def)
  qed
  then show ?thesis
    using bs(1) enc(1) assms(4,5) by (simp add: utf2_wcrtomb_enc utf8_wcrtomb_enc)
qed

end
