(* ===== verification/Euc_Codec.thy ===== *)
theory Euc_Codec
  imports Mb_Codec
begin

text \<open>
  The Extended Unix Code (\<open>euc.c\<close>): four code sets, told by the first byte, with a number of
  bytes and bits of the wide character for each that come from the locale file. The first
  part is the parser of that configuration with the \<open>strtol\<close> it calls; the decoder contract
  is proved for every sensible configuration, the encoder contract for that of Japanese EUC.
\<close>

section \<open>Configuration\<close>

text \<open>\<open>_EucInfo\<close>: the two arrays have four elements.\<close>

record euc_info =
  euc_count :: "int list"
  euc_bits :: "wchar list"
  euc_mask :: wchar

record euc_state =
  eu_ch :: wchar
  eu_set :: int
  eu_want :: int

text \<open>
  \<open>strtol (v, &e, 0)\<close>: white space, a sign, a prefix for the base, digits; the value is
  clamped to a 64-bit \<open>long\<close>. The result is \<open>None\<close> where no number starts (then \<open>e\<close> is \<open>v\<close>).
\<close>

definition c_isspace :: "byte \<Rightarrow> bool" where
  "c_isspace c \<longleftrightarrow> c = 0x20 \<or> 0x09 \<le> c \<and> c \<le> 0x0d"

definition digit_val :: "byte \<Rightarrow> nat option" where
  "digit_val c =
     (if 0x30 \<le> c \<and> c \<le> 0x39 then Some (unat (c - 0x30))
      else if 0x41 \<le> c \<and> c \<le> 0x5a then Some (unat (c - 0x41) + 10)
      else if 0x61 \<le> c \<and> c \<le> 0x7a then Some (unat (c - 0x61) + 10)
      else None)"

definition is_digit_of :: "nat \<Rightarrow> byte \<Rightarrow> bool" where
  "is_digit_of b c = (case digit_val c of Some d \<Rightarrow> d < b | None \<Rightarrow> False)"

fun digits :: "nat \<Rightarrow> byte list \<Rightarrow> int \<Rightarrow> int \<times> byte list" where
  "digits b [] v = (v, [])"
| "digits b (c # s) v =
     (if is_digit_of b c then digits b s (v * int b + int (the (digit_val c))) else (v, c # s))"

definition strtol_base :: "byte list \<Rightarrow> nat \<times> byte list" where
  "strtol_base s =
     (case s of
        c # x # d # r \<Rightarrow>
          if c = 0x30 \<and> (x = 0x78 \<or> x = 0x58) \<and> is_digit_of 16 d then (16, d # r)
          else if c = 0x30 then (8, s) else (10, s)
      | c # r \<Rightarrow> if c = 0x30 then (8, s) else (10, s)
      | [] \<Rightarrow> (10, s))"

definition long_clamp :: "int \<Rightarrow> int" where
  "long_clamp v = max (- (2 ^ 63)) (min (2 ^ 63 - 1) v)"

definition c_strtol :: "byte list \<Rightarrow> (int \<times> byte list) option" where
  "c_strtol s =
     (let s = dropWhile c_isspace s;
          neg = (s \<noteq> [] \<and> hd s = 0x2d);
          s = (if s \<noteq> [] \<and> (hd s = 0x2d \<or> hd s = 0x2b) then tl s else s);
          (b, s) = strtol_base s
      in if s = [] \<or> \<not> is_digit_of b (hd s) then None
         else let (v, r) = digits b s 0 in Some (long_clamp (if neg then - v else v), r))"

text \<open>\<open>(int) strtol (v, &e, 0)\<close>, and the white space skipped between the numbers.\<close>

definition to_int32 :: "int \<Rightarrow> int" where
  "to_int32 v = sint (word_of_int v :: 32 word)"

definition skip_blank :: "byte list \<Rightarrow> byte list" where
  "skip_blank s = dropWhile (\<lambda>c. c = 0x20 \<or> c = 0x09) s"

fun euc_parse :: "nat \<Rightarrow> byte list \<Rightarrow> int \<Rightarrow> int list \<Rightarrow> wchar list \<Rightarrow>
    (int \<times> int list \<times> wchar list \<times> byte list) option" where
  "euc_parse 0 v cur_max cs bs = Some (cur_max, cs, bs, v)"
| "euc_parse (Suc x) v cur_max cs bs =
     (case c_strtol v of None \<Rightarrow> None
      | Some (c, v) \<Rightarrow>
         let c = to_int32 c; cur_max = (if cur_max < c then c else cur_max) in
         (case c_strtol (skip_blank v) of None \<Rightarrow> None
          | Some (b, v) \<Rightarrow>
              euc_parse x (skip_blank v) cur_max (cs @ [c]) (bs @ [word_of_int b])))"

text \<open>
  \<open>_EUC_init\<close> with the bytes of \<open>__variable\<close> up to the terminator (\<open>None\<close> for a null
  pointer) and the outcome of its \<open>malloc\<close>; the conversion functions it installs are those
  below, with the configuration and the maximal length it found.
\<close>

definition euc_config :: "byte list option \<Rightarrow> bool \<Rightarrow> errno + euc_info \<times> int" where
  "euc_config var malloc_ok =
     (case var of None \<Rightarrow> Inl EFTYPE
      | Some v \<Rightarrow>
          if \<not> malloc_ok then Inl ENOMEM
          else (case euc_parse 4 (skip_blank v) 0 [] [] of
              None \<Rightarrow> Inl EFTYPE
            | Some (cur_max, cs, bs, v) \<Rightarrow>
                (case c_strtol v of None \<Rightarrow> Inl EFTYPE
                 | Some (m, _) \<Rightarrow>
                     Inr (\<lparr>euc_count = cs, euc_bits = bs, euc_mask = word_of_int m\<rparr>, cur_max))))"

definition euc_mbsinit :: "euc_state option \<Rightarrow> bool" where
  "euc_mbsinit ps = (case ps of None \<Rightarrow> True | Some s \<Rightarrow> eu_want s = 0)"

section \<open>The conversions of one character\<close>

definition euc_set :: "byte \<Rightarrow> nat" where
  "euc_set c = (if c AND 0x80 \<noteq> 0 then (if c = 0x8f then 3 else if c = 0x8e then 2 else 1) else 0)"

text \<open>
  The loop \<open>for (i = i0; i < MIN (want, n); i++)\<close>: \<open>want\<close> is an \<open>int\<close> compared with a
  \<open>size_t\<close>, so a negative one is larger than every \<open>n\<close>.
\<close>

definition euc_bound :: "int \<Rightarrow> nat \<Rightarrow> nat" where
  "euc_bound want n = (if want < 0 then n else min (nat want) n)"

fun euc_loop :: "nat \<Rightarrow> byte list \<Rightarrow> wchar \<Rightarrow> wchar option" where
  "euc_loop (Suc k) (c # s) wc =
     (if c = 0 then None else euc_loop k s (push_bit 8 wc OR ucast c))"
| "euc_loop _ _ wc = Some wc"

text \<open>
  The end of \<open>_EUC_mbrtowc\<close>: \<open>i0\<close> is where the loop starts, \<open>n\<close> the bytes it may count,
  \<open>s\<close> the bytes behind those that were read and \<open>used\<close> the number of these.
\<close>

definition euc_finish :: "euc_info \<Rightarrow> nat \<Rightarrow> int \<Rightarrow> nat \<Rightarrow> nat \<Rightarrow> wchar \<Rightarrow> byte list \<Rightarrow> nat \<Rightarrow>
    euc_state \<Rightarrow> mb_ret \<times> wchar option \<times> euc_state" where
  "euc_finish ei cset want i0 n wc s used es =
     (let steps = euc_bound want n - i0; i = i0 + steps in
      case euc_loop steps s wc of
        None \<Rightarrow> (MbErr EILSEQ, None, es)
      | Some wc \<Rightarrow>
          if int i < want then
            (MbIncomplete, None, \<lparr>eu_ch = wc, eu_set = int cset, eu_want = want - int i\<rparr>)
          else let wc = wc AND NOT (euc_mask ei) OR euc_bits ei ! cset
               in (MbLen (if wc = 0 then 0 else used + steps), Some wc, es\<lparr>eu_want := 0\<rparr>))"

definition euc_body :: "euc_info \<Rightarrow> byte \<Rightarrow> byte list \<Rightarrow> euc_state \<Rightarrow>
    mb_ret \<times> wchar option \<times> euc_state" where
  "euc_body ei c s es =
     (if eu_want es = 0 then
        (let cset = euc_set c; want = euc_count ei ! cset in
         if cset = 2 \<or> cset = 3 then
           (case s of
              [] \<Rightarrow> (MbIncomplete, None, \<lparr>eu_ch = 0, eu_set = int cset, eu_want = want - 1\<rparr>)
            | d # s' \<Rightarrow>
                if d = 0 then (MbErr EILSEQ, None, es)
                else euc_finish ei cset (want - 1) 1 (length s) (ucast d) s' 2 es)
         else euc_finish ei cset want 1 (length (c # s)) (ucast c) s 1 es)
      else euc_finish ei (nat (eu_set es)) (eu_want es) 0 (length (c # s)) (eu_ch es) (c # s) 0 es)"

definition euc_mbrtowc :: "euc_info \<Rightarrow> int \<Rightarrow> euc_state mbrtowc_fn" where
  "euc_mbrtowc ei cur_max s es =
     (if eu_want es < 0 \<or> eu_want es > cur_max \<or> eu_set es < 0 \<or> eu_set es > 3 then
        (MbErr EINVAL, None, es)
      else (case s of
        None \<Rightarrow> (case euc_body ei 0 [] es of (r, _, es') \<Rightarrow> (r, None, es'))
      | Some [] \<Rightarrow> (MbIncomplete, None, es)
      | Some (c # s') \<Rightarrow> euc_body ei c s' es))"

text \<open>\<open>while (i-- > 0) *s++ = (nm >> (i << 3)) & 0xff\<close>, with the high bit set for code set 1.\<close>

fun euc_emit :: "nat \<Rightarrow> wchar \<Rightarrow> byte \<Rightarrow> byte list" where
  "euc_emit 0 nm hi = []"
| "euc_emit (Suc i) nm hi = (ucast (signed_drop_bit (push_bit 3 i) nm) OR hi) # euc_emit i nm hi"

definition GR_BITS :: wchar where "GR_BITS = 0x80808080"

definition euc_wcrtomb :: "euc_info \<Rightarrow> euc_state wcrtomb_fn" where
  "euc_wcrtomb ei has_s wc es =
     (if eu_want es \<noteq> 0 then (Inl EINVAL, [], es)
      else if \<not> has_s then (Inr 1, [], es)
      else
        let m = wc AND euc_mask ei; nm = wc AND NOT m; n = (\<lambda>x. nat (euc_count ei ! x));
            len = (\<lambda>x. Inr (nat (euc_count ei ! x mod 2 ^ 64))) in
        if m = euc_bits ei ! 1 then (len 1, euc_emit (n 1) nm 0x80, es)
        else if m = euc_bits ei ! 0 then (len 0, euc_emit (n 0) nm 0, es)
        else if m = euc_bits ei ! 2 then (len 2, 0x8e # euc_emit (n 2 - 1) (nm OR GR_BITS) 0, es)
        else if m = euc_bits ei ! 3 then (len 3, 0x8f # euc_emit (n 3 - 1) (nm OR GR_BITS) 0, es)
        else (len 1, euc_emit (n 1) nm 0x80, es))"

definition euc_init :: "byte list option \<Rightarrow> bool \<Rightarrow> euc_state runelocale \<Rightarrow>
    errno option \<times> euc_state runelocale" where
  "euc_init var malloc_ok xrl =
     (case euc_config var malloc_ok of
        Inl e \<Rightarrow> (Some e, xrl)
      | Inr (ei, cur_max) \<Rightarrow>
          (None, xrl\<lparr>rl_mb_cur_max := cur_max, rl_mbrtowc := Some (euc_mbrtowc ei cur_max),
             rl_wcrtomb := Some (euc_wcrtomb ei), rl_mbsinit := Some euc_mbsinit,
             rl_mb_sb_limit := 256\<rparr>))"


section \<open>The decoder contract\<close>

text \<open>Configurations in which every code set has the bytes it needs.\<close>

definition euc_wf :: "euc_info \<Rightarrow> int \<Rightarrow> bool" where
  "euc_wf ei cur_max \<longleftrightarrow>
     (\<forall>x < 4. (if x < 2 then 1 else 2) \<le> euc_count ei ! x \<and> euc_count ei ! x \<le> cur_max)"

definition euc_join :: "byte list \<Rightarrow> wchar" where
  "euc_join bs = foldl (\<lambda>w b. push_bit 8 w OR ucast b) 0 bs"

text \<open>The bytes of a character that hold its value, and the bytes behind the first.\<close>

definition euc_value :: "euc_info \<Rightarrow> byte \<Rightarrow> byte list \<Rightarrow> wchar" where
  "euc_value ei b t =
     (let x = euc_set b in
      euc_join (if x \<ge> 2 then t else b # t) AND NOT (euc_mask ei) OR euc_bits ei ! x)"

definition euc_dec :: "euc_info \<Rightarrow> byte list \<Rightarrow> mb_ret \<times> wchar option" where
  "euc_dec ei s =
     (case s of [] \<Rightarrow> (MbIncomplete, None)
      | b # r \<Rightarrow>
          let k = nat (euc_count ei ! euc_set b) - 1; t = take k r in
          if 0 \<in> set t then (MbErr EILSEQ, None)
          else if length t < k then (MbIncomplete, None)
          else let c = euc_value ei b t in (MbLen (if c = 0 then 0 else Suc k), Some c))"

definition euc_rep :: "euc_info \<Rightarrow> euc_state \<Rightarrow> byte list \<Rightarrow> bool" where
  "euc_rep ei es p \<longleftrightarrow> 0 \<le> eu_set es \<and> eu_set es \<le> 3 \<and>
     (case p of [] \<Rightarrow> eu_want es = 0
      | b # t \<Rightarrow>
          0 \<notin> set t \<and> eu_set es = int (euc_set b) \<and> 0 < eu_want es \<and>
          eu_want es = euc_count ei ! euc_set b - 1 - int (length t) \<and>
          eu_ch es = euc_join (if euc_set b \<ge> 2 then t else b # t))"

lemma euc_set_less [simp]: "euc_set b < 4"
  by (simp add: euc_set_def)

lemma euc_set_le [simp]: "euc_set b \<le> 3" "int (euc_set b) \<le> 3"
  by (simp_all add: euc_set_def)

lemma euc_loop_eq:
  "euc_loop k s wc =
     (if 0 \<in> set (take k s) then None else Some (foldl (\<lambda>w b. push_bit 8 w OR ucast b) wc (take k s)))"
  by (induction k s wc rule: euc_loop.induct) auto

lemma euc_join_append: "foldl (\<lambda>w b. push_bit 8 w OR ucast b) (euc_join p) t = euc_join (p @ t)"
  by (simp add: euc_join_def)

lemma euc_wfD:
  assumes "euc_wf ei cur_max"
  shows "1 \<le> euc_count ei ! euc_set b" "euc_set b \<ge> 2 \<Longrightarrow> 2 \<le> euc_count ei ! euc_set b"
    "euc_count ei ! euc_set b \<le> cur_max"
  using assms euc_set_less [of b] unfolding euc_wf_def by (auto dest!: spec [of _ "euc_set b"] split: if_splits)

text \<open>
  The end of the decoder on the bytes \<open>s\<close> when \<open>pre\<close> holds the value so far and \<open>k\<close> bytes
  are wanted from \<open>s\<close>.
\<close>

definition euc_outcome :: "euc_info \<Rightarrow> nat \<Rightarrow> byte list \<Rightarrow> nat \<Rightarrow> byte list \<Rightarrow> nat \<Rightarrow> euc_state \<Rightarrow>
    mb_ret \<times> wchar option \<times> euc_state" where
  "euc_outcome ei x pre k s used es =
    (let t = take k s in
     if 0 \<in> set t then (MbErr EILSEQ, None, es)
     else if length t < k then
       (MbIncomplete, None, \<lparr>eu_ch = euc_join (pre @ t), eu_set = int x, eu_want = int (k - length t)\<rparr>)
     else let c = euc_join (pre @ t) AND NOT (euc_mask ei) OR euc_bits ei ! x
          in (MbLen (if c = 0 then 0 else used + k), Some c, es\<lparr>eu_want := 0\<rparr>))"

lemma euc_finish_outcome:
  "euc_finish ei x (int (i0 + k)) i0 (i0 + length s) (euc_join pre) s used es =
    euc_outcome ei x pre k s used es"
proof -
  have "euc_bound (int (i0 + k)) (i0 + length s) - i0 = length (take k s)"
    unfolding euc_bound_def by (simp add: nat_int_add min_def)
  then show ?thesis
    by (auto simp: euc_finish_def euc_outcome_def euc_loop_eq euc_join_append Let_def)
qed

lemma euc_join_simps: "euc_join [] = 0" "euc_join [b] = ucast b"
  by (simp_all add: euc_join_def)

lemma euc_outcome_Cons:
  "euc_outcome ei x pre (Suc k) (d # s) used es =
    (if d = 0 then (MbErr EILSEQ, None, es) else euc_outcome ei x (pre @ [d]) k s (Suc used) es)"
  by (auto simp: euc_outcome_def Let_def)

lemma euc_start:
  assumes "eu_want es = 0" "euc_count ei ! euc_set b = int (Suc k)" "euc_set b \<ge> 2 \<Longrightarrow> 1 \<le> k"
  shows "euc_body ei b s es =
    euc_outcome ei (euc_set b) (if euc_set b \<ge> 2 then [] else [b]) k s 1 es"
proof (cases "euc_set b \<ge> 2")
  case False
  then have "euc_body ei b s es =
      euc_finish ei (euc_set b) (int (1 + k)) 1 (1 + length s) (euc_join [b]) s 1 es"
    using assms by (auto simp: euc_body_def euc_join_simps Let_def)
  then show ?thesis using False unfolding euc_finish_outcome by simp
next
  case True
  with euc_set_less [of b] have x: "euc_set b = 2 \<or> euc_set b = 3" by linarith
  from True assms(3) obtain m where m: "k = Suc m" by (cases k) auto
  show ?thesis
  proof (cases s)
    case Nil
    with x assms m show ?thesis
      by (auto simp: euc_body_def euc_outcome_def euc_join_simps Let_def)
  next
    case (Cons d s')
    have "d \<noteq> 0 \<Longrightarrow> euc_body ei b s es =
        euc_finish ei (euc_set b) (int (1 + m)) 1 (1 + length s') (euc_join [d]) s' 2 es"
      using x Cons assms m by (auto simp: euc_body_def euc_join_simps Let_def)
    moreover have "d = 0 \<Longrightarrow> euc_body ei b s es = (MbErr EILSEQ, None, es)"
      using x Cons assms by (auto simp: euc_body_def Let_def)
    ultimately show ?thesis
      using True Cons m unfolding euc_finish_outcome by (simp add: euc_outcome_Cons numeral_2_eq_2)
  qed
qed

lemma euc_resume:
  assumes "eu_want es = int k" "0 < k" "eu_set es = int (euc_set b)" "eu_ch es = euc_join pre"
  shows "euc_body ei c s es = euc_outcome ei (euc_set b) pre k (c # s) 0 es"
proof -
  have "euc_body ei c s es =
      euc_finish ei (euc_set b) (int (0 + k)) 0 (0 + length (c # s)) (euc_join pre) (c # s) 0 es"
    using assms by (simp add: euc_body_def)
  then show ?thesis unfolding euc_finish_outcome .
qed

lemma euc_step:
  assumes wf: "euc_wf ei cur_max" and rep: "euc_rep ei es p" and d: "euc_dec ei (p @ s) = (r, w)"
  shows "\<exists>es'. euc_mbrtowc ei cur_max (Some s) es = (resume (length p) r, w, es') \<and>
    (r = MbIncomplete \<longrightarrow> euc_rep ei es' (p @ s)) \<and> ((\<exists>n. r = MbLen n) \<longrightarrow> euc_rep ei es' [])"
proof -
  have "1 \<le> cur_max" using euc_wfD(1,3) [OF wf, of 0] by simp
  then have "eu_want es \<le> cur_max"
    using rep euc_wfD(3) [OF wf, of "hd p"] by (auto simp: euc_rep_def split: list.splits)
  then have m: "euc_mbrtowc ei cur_max (Some s) es =
      (case s of [] \<Rightarrow> (MbIncomplete, None, es) | c # s' \<Rightarrow> euc_body ei c s' es)"
    using rep by (auto simp: euc_mbrtowc_def euc_rep_def split: list.splits)
  show ?thesis
  proof (cases p)
    case Nil
    with rep have want: "eu_want es = 0" by (simp add: euc_rep_def)
    show ?thesis
    proof (cases s)
      case s: Nil
      with d Nil m rep show ?thesis by (simp add: euc_dec_def)
    next
      case (Cons b t)
      from euc_wfD(1) [OF wf, of b] obtain k where k: "euc_count ei ! euc_set b = int (Suc k)"
        by (auto intro!: that [of "nat (euc_count ei ! euc_set b) - 1"])
      with euc_wfD(2) [OF wf, of b] have k1: "euc_set b \<ge> 2 \<Longrightarrow> 1 \<le> k" by simp
      have dec: "euc_dec ei (p @ s) =
        (let u = take k t in
          if 0 \<in> set u then (MbErr EILSEQ, None)
          else if length u < k then (MbIncomplete, None)
          else let c = euc_value ei b u in (MbLen (if c = 0 then 0 else Suc k), Some c))"
        using Nil Cons k by (simp add: euc_dec_def Let_def nat_add_distrib)
      show ?thesis
        using d rep Nil Cons m euc_set_less [of b] want k unfolding dec
        by (auto simp: euc_rep_def euc_start [OF want k k1] euc_outcome_def euc_value_def
            Let_def of_nat_diff split: if_splits)
    qed
  next
    case (Cons b t)
    then obtain k where k: "eu_want es = int k" "0 < k" "euc_count ei ! euc_set b = int (Suc (length t + k))"
      "0 \<notin> set t" "eu_set es = int (euc_set b)" "eu_ch es = euc_join (if euc_set b \<ge> 2 then t else b # t)"
      using rep by (auto simp: euc_rep_def intro!: that [of "nat (eu_want es)"])
    show ?thesis
    proof (cases s)
      case s: Nil
      with d Cons m rep k show ?thesis by (auto simp: euc_dec_def Let_def nat_add_distrib)
    next
      case s: (Cons c s')
      have dec: "euc_dec ei (p @ s) =
        (let u = take k s in
          if 0 \<in> set u then (MbErr EILSEQ, None)
          else if length u < k then (MbIncomplete, None)
          else let c = euc_value ei b (t @ u) in (MbLen (if c = 0 then 0 else Suc (length t + k)), Some c))"
        using Cons k(3,4) by (simp add: euc_dec_def Let_def nat_add_distrib)
      have body: "euc_body ei c s' es =
          euc_outcome ei (euc_set b) (if euc_set b \<ge> 2 then t else b # t) k s 0 es"
        using euc_resume [OF k(1,2,5,6)] s by simp
      show ?thesis
        using d rep Cons m s k euc_set_less [of b] unfolding dec
        by (auto simp: body euc_outcome_def euc_rep_def euc_value_def Let_def of_nat_diff split: if_splits)
    qed
  qed
qed


lemma euc_decoder:
  assumes "euc_wf ei cur_max"
  shows "mb_decoder (euc_mbrtowc ei cur_max) (euc_dec ei) (euc_rep ei)"
proof
  fix es p assume "euc_rep ei es p"
  then show "euc_dec ei p = (MbIncomplete, None)"
    by (auto simp: euc_rep_def euc_dec_def Let_def dest: in_set_takeD split: list.splits)
next
  fix s n w assume d: "euc_dec ei s = (MbLen n, w)"
  then show "n \<le> length s \<and> (\<exists>c. w = Some c \<and> (n = 0) = (c = 0))"
    by (auto simp: euc_dec_def Let_def split: list.splits if_splits)
  assume "n \<noteq> 0"
  from d obtain b r where s: "s = b # r" by (cases s) (auto simp: euc_dec_def)
  obtain k where k: "nat (euc_count ei ! euc_set b) - Suc 0 = k" by blast
  from d \<open>n \<noteq> 0\<close> have "n = Suc k" "k \<le> length r"
    by (auto simp: s euc_dec_def k Let_def split: if_splits)
  with d show "euc_dec ei (take n s) = (MbLen n, w)"
    by (simp add: s euc_dec_def k)
next
  fix s t assume d: "fst (euc_dec ei s) \<noteq> MbIncomplete"
  then obtain b r where s: "s = b # r" by (cases s) (auto simp: euc_dec_def)
  obtain k where k: "nat (euc_count ei ! euc_set b) - Suc 0 = k" by blast
  show "euc_dec ei (s @ t) = euc_dec ei s"
  proof (cases "k \<le> length r")
    case True
    then have e: "take k (r @ t) = take k r" by simp
    show ?thesis by (simp add: s euc_dec_def k e del: take_append)
  next
    case False
    with d have r: "0 \<in> set r" by (auto simp: s euc_dec_def k Let_def split: if_splits)
    from False have e: "take k (r @ t) = r @ take (k - length r) t" "take k r = r" by simp_all
    from r show ?thesis by (simp add: s euc_dec_def k e del: take_append)
  qed
next
  fix s r w e assume "euc_dec ei s = (r, w)" "r = MbIncomplete \<or> r = MbErr e"
  then show "w = None" by (auto simp: euc_dec_def Let_def split: list.splits if_splits)
qed (rule euc_step [OF assms])

section \<open>Japanese EUC\<close>

text \<open>
  ASCII, JIS X 0208 in two bytes, half-width kana behind \<open>SS2\<close> and JIS X 0212 behind
  \<open>SS3\<close>: the configuration that the locale file gives as \<open>1 0x0 2 0x8080 2 0x0080 3 0x8000
  0x8080\<close>.
\<close>

definition eucjp :: euc_info where
  "eucjp = \<lparr>euc_count = [1, 2, 2, 3], euc_bits = [0, 0x8080, 0x0080, 0x8000], euc_mask = 0x8080\<rparr>"

lemma eucjp_wf: "euc_wf eucjp 3"
  by (simp add: euc_wf_def eucjp_def numeral_eq_Suc less_Suc_eq)

definition eucjp_valid :: "wchar \<Rightarrow> bool" where
  "eucjp_valid c \<longleftrightarrow>
     c AND 0xFFFFFF80 = 0 \<or> c AND 0xFFFFFF80 = 0x0080 \<or> c AND 0xFFFF8080 = 0x8000 \<or>
     c AND 0xFFFF8080 = 0x8080 \<and> drop_bit 8 c \<noteq> 0x8e \<and> drop_bit 8 c \<noteq> 0x8f"

definition eucjp_enc :: "wchar \<Rightarrow> byte list option" where
  "eucjp_enc c =
     (let hi = ucast (drop_bit 8 c) :: byte; lo = ucast c :: byte; m = c AND 0x8080 in
      Some (if m = 0 then [lo] else if m = 0x8080 then [hi, lo]
        else if m = 0x0080 then [0x8e, lo] else [0x8f, hi, lo OR 0x80]))"

lemma eucjp_sets: "c AND 0x8080 = 0 \<or> c AND 0x8080 = 0x8080 \<or> c AND 0x8080 = 0x0080 \<or> c AND 0x8080 = (0x8000 :: wchar)"
  by (simp add: bit_blast) blast

lemma euc_emit_simps:
  "euc_emit (Suc 0) nm h = [ucast nm OR h]"
  "euc_emit 2 nm h = [ucast (drop_bit 8 nm) OR h, ucast nm OR h]"
proof -
  have "(ucast (signed_drop_bit 8 nm) :: byte) = ucast (drop_bit 8 nm)" by (simp add: bit_blast)
  moreover have "push_bit 3 (Suc 0) = 8" by (simp add: push_bit_eq_mult)
  ultimately show "euc_emit 2 nm h = [ucast (drop_bit 8 nm) OR h, ucast nm OR h]"
    unfolding numeral_2_eq_2 euc_emit.simps by simp
qed simp


lemma eucjp_nm:
  "c AND 0x8080 = 0x8080 \<Longrightarrow> ucast (drop_bit 8 (c AND - 32897)) OR (0x80 :: byte) = ucast (drop_bit 8 (c :: wchar))"
  "c AND 0x8080 = 0x8080 \<Longrightarrow> ucast (c AND - 32897) OR (0x80 :: byte) = ucast (c :: wchar)"
  "c AND 0x8080 = 0x0080 \<Longrightarrow> ucast (c AND - 129 OR GR_BITS) = (ucast (c :: wchar) :: byte)"
  "c AND 0x8080 = 0x8000 \<Longrightarrow> ucast (drop_bit 8 (c AND - 32769 OR GR_BITS)) = (ucast (drop_bit 8 (c :: wchar)) :: byte)"
  "c AND 0x8080 = 0x8000 \<Longrightarrow> ucast (c AND - 32769 OR GR_BITS) = (ucast (c :: wchar) OR 0x80 :: byte)"
  unfolding GR_BITS_def by (simp_all add: bit_blast)

lemma eucjp_sel:
  "euc_count eucjp ! 0 = 1" "euc_count eucjp ! Suc 0 = 2" "euc_count eucjp ! 2 = 2"
  "euc_count eucjp ! 3 = 3" "euc_bits eucjp ! 0 = 0" "euc_bits eucjp ! Suc 0 = 0x8080"
  "euc_bits eucjp ! 2 = 0x0080" "euc_bits eucjp ! 3 = 0x8000" "euc_mask eucjp = 0x8080"
  by (simp_all add: eucjp_def)

lemma eucjp_wcrtomb_enc:
  assumes "eu_want es = 0"
  shows "euc_wcrtomb eucjp True c es = (Inr (length (the (eucjp_enc c))), the (eucjp_enc c), es)"
proof -
  have 1: "2 - Suc 0 = Suc 0" "3 - Suc 0 = (2 :: nat)" by simp_all
  consider "c AND 0x8080 = 0" | "c AND 0x8080 = 0x8080" | "c AND 0x8080 = 0x0080" | "c AND 0x8080 = 0x8000"
    using eucjp_sets by blast
  then show ?thesis
    by cases (use assms in \<open>simp_all add: euc_wcrtomb_def eucjp_sel eucjp_enc_def Let_def
      euc_emit_simps eucjp_nm 1 del: euc_emit.simps drop_bit_and drop_bit_or\<close>)
qed


lemma euc_set_cases:
  "b AND 0x80 = 0 \<Longrightarrow> euc_set b = 0"
  "b AND 0x80 \<noteq> 0 \<Longrightarrow> b \<noteq> 0x8e \<Longrightarrow> b \<noteq> 0x8f \<Longrightarrow> euc_set b = 1"
  "euc_set 0x8e = 2" "euc_set 0x8f = 3"
  by (simp_all add: euc_set_def)

lemma euc_join_two: "euc_join [a, b] = push_bit 8 (ucast a) OR ucast b"
  by (simp add: euc_join_def)

lemma eucjp_dec_enc:
  assumes "eucjp_valid c"
  shows "\<exists>bs. eucjp_enc c = Some bs \<and> euc_dec eucjp bs = (MbLen (if c = 0 then 0 else length bs), Some c)"
proof -
  let ?hi = "ucast (drop_bit 8 c) :: byte" and ?lo = "ucast c :: byte"
  from assms consider (0) "c AND 0xFFFFFF80 = 0"
    | (1) "c AND 0xFFFF8080 = 0x8080" "drop_bit 8 c \<noteq> 0x8e" "drop_bit 8 c \<noteq> 0x8f"
    | (2) "c AND 0xFFFFFF80 = 0x0080" | (3) "c AND 0xFFFF8080 = 0x8000"
    by (auto simp: eucjp_valid_def)
  then show ?thesis
  proof cases
    case 0
    then have "c AND 0x8080 = 0" "?lo AND 0x80 = 0" "ucast ?lo AND - 32897 = c" by (simp_all add: bit_blast)
    then show ?thesis
      by (simp add: eucjp_enc_def euc_dec_def euc_set_cases eucjp_sel euc_value_def euc_join_simps)
  next
    case 1
    from 1(1) have hi: "ucast ?hi = drop_bit 8 c" by (simp add: bit_blast)
    then have h: "?hi = h \<Longrightarrow> drop_bit 8 c = ucast h" for h by metis
    from 1(2,3) h [of "0x8e"] h [of "0x8f"] have "?hi \<noteq> 0x8e" "?hi \<noteq> 0x8f" by auto
    moreover from 1(1) have "c AND 0x8080 = 0x8080" "?hi AND 0x80 \<noteq> 0" "?lo \<noteq> 0" "c \<noteq> 0"
      "(push_bit 8 (ucast ?hi) OR ucast ?lo) AND - 32897 OR 32896 = c"
      by (simp_all add: bit_blast)
    ultimately show ?thesis
      by (simp add: eucjp_enc_def euc_dec_def euc_set_cases eucjp_sel euc_value_def euc_join_two)
  next
    case 2
    then have "c AND 0x8080 = 0x80" "?lo \<noteq> 0" "c \<noteq> 0" "ucast ?lo AND - 32897 OR 128 = c" by (simp_all add: bit_blast)
    then show ?thesis
      by (simp add: eucjp_enc_def euc_dec_def euc_set_cases eucjp_sel euc_value_def euc_join_simps)
  next
    case 3
    then have "c AND 0x8080 = 0x8000" "?hi \<noteq> 0" "?lo OR 0x80 \<noteq> 0" "c \<noteq> 0"
      "(push_bit 8 (ucast ?hi) OR ucast (?lo OR 0x80)) AND - 32897 OR 32768 = c"
      by (simp_all add: bit_blast)
    then show ?thesis
      by (simp add: eucjp_enc_def euc_dec_def euc_set_cases eucjp_sel euc_value_def euc_join_two)
  qed
qed

interpretation eucjp: mb_codec "euc_mbrtowc eucjp 3" "euc_dec eucjp" "euc_rep eucjp"
  "euc_wcrtomb eucjp" eucjp_enc eucjp_valid 3
proof (intro mb_codec.intro euc_decoder [OF eucjp_wf] mb_codec_axioms.intro)
  fix es c bs
  assume "euc_rep eucjp es []"
  then have want: "eu_want es = 0" by (simp add: euc_rep_def)
  show "eucjp_enc c = Some bs \<Longrightarrow> euc_wcrtomb eucjp True c es = (Inr (length bs), bs, es)"
    using eucjp_wcrtomb_enc [OF want, of c] by simp
  show "eucjp_enc c = None \<Longrightarrow>
      \<exists>bs. euc_wcrtomb eucjp True c es = (Inl EILSEQ, bs, es) \<and> length bs \<le> 3"
    by (simp add: eucjp_enc_def Let_def)
next
  fix c bs
  show "eucjp_enc c = Some bs \<Longrightarrow> 0 < length bs \<and> length bs \<le> 3"
    by (auto simp: eucjp_enc_def Let_def split: if_splits)
  show "eucjp_enc 0 = Some [0]" "eucjp_valid 0" by (simp_all add: eucjp_enc_def eucjp_valid_def)
  show "eucjp_valid c \<Longrightarrow> \<exists>bs. eucjp_enc c = Some bs \<and>
      euc_dec eucjp bs = (MbLen (if c = 0 then 0 else length bs), Some c)"
    by (rule eucjp_dec_enc)
qed


section \<open>Properties\<close>

text \<open>
  EUC with any configuration whose code sets have the bytes they need: when a call ends
  inside a character, decoding the rest from the saved state gives the character, the length
  and the kind of state that decoding both parts in one call gives.
\<close>

lemma euc_restart:
  assumes "euc_wf ei cur_max" "eu_want es = 0" "0 \<le> eu_set es" "eu_set es \<le> 3"
    and "euc_mbrtowc ei cur_max (Some xs) es = (MbIncomplete, w, es1)"
    and "euc_mbrtowc ei cur_max (Some (xs @ ys)) es = (r, c, es2)"
  shows "\<exists>es3. euc_mbrtowc ei cur_max (Some ys) es1 = (resume (length xs) r, c, es3) \<and>
    ((\<exists>n. r = MbLen n) \<longrightarrow> eu_want es2 = 0 \<and> eu_want es3 = 0)"
proof -
  have "euc_rep ei es []" using assms(2-4) by (simp add: euc_rep_def)
  from mb_decoder.restart [OF euc_decoder [OF assms(1)] this assms(5,6)]
  show ?thesis by (auto simp: euc_rep_def)
qed

text \<open>
  C8: a terminated string of characters of Japanese EUC survives encoding and decoding with
  the generic string conversions, in buffers of three bytes and one wide character for each.
\<close>

theorem eucjp_string_roundtrip:
  assumes "euc_rep eucjp es []" "euc_rep eucjp es2 []" "\<forall>c \<in> set cs. eucjp_valid c" "0 \<notin> set cs"
  shows "\<exists>bs es'. eu_want es' = 0 \<and>
    wcsnrtombs_std (euc_wcrtomb eucjp) 3 True (cs @ [0]) (3 * length cs + 1) es =
      (Inr (length bs), bs @ [0], SrcNull, es) \<and>
    mbsnrtowcs_std (euc_mbrtowc eucjp 3) True (bs @ [0]) (length cs + 1) es2 =
      Some (Inr (length cs), cs @ [0], SrcNull, es')"
  using eucjp.string_roundtrip [OF assms] by (auto simp: euc_rep_def)

theorem eucjp_string_roundtrip_witness:
  "\<exists>bs es'. wcsnrtombs_std (euc_wcrtomb eucjp) 3 True [0x41, 0xB0A1, 0xB1, 0] 10
      \<lparr>eu_ch = 0, eu_set = 0, eu_want = 0\<rparr> =
        (Inr (length bs), bs @ [0], SrcNull, \<lparr>eu_ch = 0, eu_set = 0, eu_want = 0\<rparr>) \<and>
    mbsnrtowcs_std (euc_mbrtowc eucjp 3) True (bs @ [0]) 4 \<lparr>eu_ch = 0, eu_set = 0, eu_want = 0\<rparr> =
      Some (Inr 3, [0x41, 0xB0A1, 0xB1, 0], SrcNull, es')"
proof -
  have "length [0x41, 0xB0A1, 0xB1 :: wchar] = 3" by simp
  from eucjp_string_roundtrip [of "\<lparr>eu_ch = 0, eu_set = 0, eu_want = 0\<rparr>"
      "\<lparr>eu_ch = 0, eu_set = 0, eu_want = 0\<rparr>" "[0x41, 0xB0A1, 0xB1]", unfolded this]
  show ?thesis by (auto simp: euc_rep_def eucjp_valid_def)
qed

definition eucjp_text :: "byte list" where
  "eucjp_text = [0x31, 0x20, 0x30, 0x78, 0x30, 0x20, 0x32, 0x20, 0x30, 0x78, 0x38, 0x30, 0x38, 0x30,
    0x09, 0x32, 0x20, 0x30, 0x78, 0x38, 0x30, 0x20, 0x33, 0x20, 0x30, 0x78, 0x38, 0x30, 0x30, 0x30,
    0x20, 0x30, 0x78, 0x38, 0x30, 0x38, 0x30]"

text \<open>
  From the text \<open>1 0x0 2 0x8080 2 0x80 3 0x8000 0x8080\<close> the initialisation installs the
  conversions of the configuration of Japanese EUC with a maximal length of 3, and without
  memory, without text or with less than nine numbers it fails and installs nothing.
\<close>

lemma euc_init_outcomes:
  "rl_mbrtowc (snd (euc_init (Some eucjp_text) True xrl)) = Some (euc_mbrtowc eucjp 3) \<and>
   rl_wcrtomb (snd (euc_init (Some eucjp_text) True xrl)) = Some (euc_wcrtomb eucjp) \<and>
   rl_mb_cur_max (snd (euc_init (Some eucjp_text) True xrl)) = 3 \<and>
   euc_init (Some v) False xrl = (Some ENOMEM, xrl) \<and>
   euc_init None m xrl = (Some EFTYPE, xrl) \<and>
   euc_init (Some (take 31 eucjp_text)) True xrl = (Some EFTYPE, xrl)"
proof -
  have "euc_config (Some eucjp_text) True = Inr (eucjp, 3)"
    "euc_config (Some (take 31 eucjp_text)) True = Inl EFTYPE"
    by code_simp+
  then show ?thesis by (simp add: euc_init_def euc_config_def [of "Some v"] euc_config_def [of None])
qed

end
