(* ===== verification/Kxld_Array.thy ===== *)
theory Kxld_Array
  imports C_Prelude
begin

text \<open>
  The resizable array of \<open>libkxld\<close> (\<open>kxld_array.c\<close>): a list of pools, buffers of one common
  capacity, over which the items are spread. The model keeps the bytes of every pool; a
  pointer to an item is the pool and the offset in its buffer. A step that would write past
  the end of a buffer, or a loop that does not end, has the value \<open>None\<close>. The size of a page
  is the parameter \<open>pg\<close>, and the outcomes of the allocations are a list that each allocation
  takes one from; an empty list stands for success.
\<close>

section \<open>State\<close>

datatype kern_return =
  KERN_SUCCESS | KERN_FAILURE | KERN_INVALID_ARGUMENT | KERN_RESOURCE_SHORTAGE | KERN_NOT_SUPPORTED

text \<open>\<open>struct kxld_array_pool\<close> and \<open>struct kxld_array\<close>.\<close>

record pool =
  pl_buffer :: "byte list"
  pl_nitems :: nat

record karray =
  ka_pools :: "pool list"
  ka_itemsize :: nat
  ka_pool_capacity :: nat
  ka_pool_maxitems :: nat
  ka_nitems :: nat
  ka_maxitems :: nat
  ka_npools :: nat

text \<open>An array after \<open>bzero\<close>.\<close>

definition array_zero :: karray where
  "array_zero = \<lparr>ka_pools = [], ka_itemsize = 0, ka_pool_capacity = 0, ka_pool_maxitems = 0,
     ka_nitems = 0, ka_maxitems = 0, ka_npools = 0\<rparr>"

type_synonym outcomes = "bool list"

fun next_alloc :: "outcomes \<Rightarrow> bool \<times> outcomes" where
  "next_alloc [] = (True, [])"
| "next_alloc (b # os) = (b, os)"

definition round_page :: "nat \<Rightarrow> nat \<Rightarrow> nat" where
  "round_page pg n = (n + pg - 1) div pg * pg"

text \<open>Writing \<open>src\<close> at an offset of a buffer; \<open>None\<close> when it does not fit.\<close>

definition memcpy_at :: "byte list \<Rightarrow> nat \<Rightarrow> byte list \<Rightarrow> byte list option" where
  "memcpy_at dst off src =
     (if off + length src \<le> length dst
      then Some (take off dst @ src @ drop (off + length src) dst) else None)"

text \<open>The difference of two \<open>u_int\<close>, which wraps around.\<close>

definition u_sub :: "nat \<Rightarrow> nat \<Rightarrow> nat" where
  "u_sub x y = (if y \<le> x then x - y else x + 2 ^ 32 - y)"

section \<open>Pools\<close>

text \<open>
  \<open>pool_create\<close> takes two allocations, the structure and its pages, which come zeroed; the
  second is not tried when the first fails. \<open>pool_destroy\<close> only frees, and has no model.
\<close>

definition pool_create :: "nat \<Rightarrow> outcomes \<Rightarrow> pool option \<times> outcomes" where
  "pool_create capacity os =
     (let (ok1, os) = next_alloc os in
      if \<not> ok1 then (None, os)
      else let (ok2, os) = next_alloc os in
      if \<not> ok2 then (None, os)
      else (Some \<lparr>pl_buffer = replicate capacity 0, pl_nitems = 0\<rparr>, os))"

fun reinit_list :: "nat \<Rightarrow> nat \<Rightarrow> pool list \<Rightarrow> pool list \<times> nat" where
  "reinit_list maxit n [] = ([], n)"
| "reinit_list maxit n (p # ps) =
     (if n > maxit then
        (case reinit_list maxit (n - maxit) ps of (ps', r) \<Rightarrow> (p\<lparr>pl_nitems := maxit\<rparr> # ps', r))
      else (case reinit_list maxit 0 ps of (ps', r) \<Rightarrow> (p\<lparr>pl_nitems := n\<rparr> # ps', r)))"

definition reinit_pools :: "karray \<Rightarrow> nat \<Rightarrow> nat \<times> karray" where
  "reinit_pools a nitems =
     (case reinit_list (ka_pool_maxitems a) nitems (ka_pools a) of
        (ps, r) \<Rightarrow> (r, a\<lparr>ka_pools := ps, ka_nitems := nitems\<rparr>))"

section \<open>Constructors and destructors\<close>

definition kxld_array_reset :: "karray \<Rightarrow> karray" where
  "kxld_array_reset a =
     a\<lparr>ka_pools := map (\<lambda>p. p\<lparr>pl_nitems := 0\<rparr>) (ka_pools a), ka_nitems := 0\<rparr>"

definition kxld_array_clear :: "karray \<Rightarrow> karray" where
  "kxld_array_clear a =
     (let a = kxld_array_reset a in
      a\<lparr>ka_pools := map (\<lambda>p. p\<lparr>pl_buffer := replicate (ka_pool_capacity a) 0\<rparr>) (ka_pools a)\<rparr>)"

definition kxld_array_deinit :: "karray \<Rightarrow> karray" where
  "kxld_array_deinit a = array_zero"

definition array_fill :: "karray \<Rightarrow> pool \<Rightarrow> nat \<Rightarrow> karray" where
  "array_fill a p nitems =
     (let m = ka_pool_capacity a div ka_itemsize a in
      a\<lparr>ka_pools := p\<lparr>pl_nitems := nitems\<rparr> # tl (ka_pools a), ka_pool_maxitems := m,
        ka_maxitems := m, ka_nitems := nitems, ka_npools := 1\<rparr>)"

definition array_init :: "nat \<Rightarrow> karray \<Rightarrow> nat \<Rightarrow> nat \<Rightarrow> outcomes \<Rightarrow> kern_return \<times> karray \<times> outcomes" where
  "array_init pg a itemsize nitems os =
     (if itemsize = 0 then (KERN_INVALID_ARGUMENT, a, os)
      else if \<not> ka_npools a < 2 then (KERN_INVALID_ARGUMENT, a, os)
      else
        let a = a\<lparr>ka_itemsize := itemsize\<rparr> in
        (case ka_pools a of
           p # _ \<Rightarrow>
             if \<not> itemsize * nitems < ka_pool_capacity a then (KERN_FAILURE, a, os)
             else if ka_npools a \<noteq> 1 then (KERN_FAILURE, a, os)
             else (KERN_SUCCESS,
               array_fill a (p\<lparr>pl_buffer := replicate (ka_pool_capacity a) 0\<rparr>) nitems, os)
         | [] \<Rightarrow>
             let a = a\<lparr>ka_pool_capacity := round_page pg (itemsize * nitems)\<rparr> in
             (case pool_create (ka_pool_capacity a) os of
                (None, os) \<Rightarrow> (KERN_RESOURCE_SHORTAGE, a, os)
              | (Some p, os) \<Rightarrow> (KERN_SUCCESS, array_fill a p nitems, os))))"

text \<open>
  The loop that moves the old pools into the new one; every copy is of the old capacity.
\<close>

fun copy_pools :: "byte list \<Rightarrow> nat \<Rightarrow> byte list list \<Rightarrow> byte list option" where
  "copy_pools dst off [] = Some dst"
| "copy_pools dst off (s # ss) =
     (case memcpy_at dst off s of None \<Rightarrow> None
      | Some dst \<Rightarrow> copy_pools dst (off + length s) ss)"

definition fill_first :: "karray \<Rightarrow> byte list list \<Rightarrow> (kern_return \<times> karray) option" where
  "fill_first a srcs =
     (case ka_pools a of [] \<Rightarrow> Some (KERN_FAILURE, a)
      | p # ps \<Rightarrow>
          map_option (\<lambda>b. (KERN_SUCCESS, a\<lparr>ka_pools := p\<lparr>pl_buffer := b\<rparr> # ps\<rparr>))
            (copy_pools (pl_buffer p) 0 srcs))"

text \<open>\<open>kxld_array_init\<close> after its decision whether the pools that are there are enough.\<close>

definition array_rebuild :: "nat \<Rightarrow> karray \<Rightarrow> nat \<Rightarrow> nat \<Rightarrow> byte list list \<Rightarrow> outcomes \<Rightarrow>
    (kern_return \<times> karray \<times> outcomes) option" where
  "array_rebuild pg a itemsize nitems srcs os =
     (let a = a\<lparr>ka_itemsize := itemsize\<rparr> in
      if ka_maxitems a = 0 then
        (case array_init pg a itemsize nitems os of
           (r, a, os) \<Rightarrow>
             if r \<noteq> KERN_SUCCESS then Some (r, kxld_array_deinit a, os)
             else map_option (\<lambda>(r, a). (r, if r \<noteq> KERN_SUCCESS then kxld_array_deinit a else a, os))
               (fill_first a srcs))
      else Some (KERN_SUCCESS, a, os))"

definition kxld_array_init :: "nat \<Rightarrow> karray \<Rightarrow> nat \<Rightarrow> nat \<Rightarrow> outcomes \<Rightarrow>
    (kern_return \<times> karray \<times> outcomes) option" where
  "kxld_array_init pg a itemsize nitems os =
     (if nitems = 0 then Some (KERN_SUCCESS, kxld_array_reset a, os)
      else if itemsize = 0 then Some (KERN_INVALID_ARGUMENT, kxld_array_deinit a, os)
      else if ka_npools a \<noteq> 0 then
        (let m = ka_pool_capacity a div itemsize;
             a = a\<lparr>ka_pool_maxitems := m, ka_maxitems := length (ka_pools a) * m\<rparr>
         in if ka_maxitems a < nitems then
              array_rebuild pg array_zero itemsize nitems (map pl_buffer (ka_pools a)) os
            else
              (case reinit_pools a nitems of
                 (r, a) \<Rightarrow>
                   if r \<noteq> 0 then Some (KERN_FAILURE, kxld_array_deinit a, os)
                   else array_rebuild pg a itemsize nitems [] os))
      else array_rebuild pg a itemsize nitems [] os)"

definition kxld_array_copy :: "nat \<Rightarrow> karray \<Rightarrow> karray \<Rightarrow> outcomes \<Rightarrow>
    (kern_return \<times> karray \<times> outcomes) option" where
  "kxld_array_copy pg dst src os =
     (let needed = round_page pg (ka_nitems src * ka_itemsize src);
          current = ka_npools dst * ka_pool_capacity dst;
          dst = (if ka_npools dst > 1 \<or> needed > current then kxld_array_deinit dst else dst)
      in case array_init pg dst (ka_itemsize src) (ka_nitems src) os of
           (r, dst, os) \<Rightarrow>
             if r \<noteq> KERN_SUCCESS then Some (r, dst, os)
             else if \<exists>p \<in> set (ka_pools src). pl_nitems p * ka_itemsize src > length (pl_buffer p) then None
             else map_option (\<lambda>(r, dst). (r, dst, os))
               (fill_first dst
                 (map (\<lambda>p. take (pl_nitems p * ka_itemsize src) (pl_buffer p)) (ka_pools src))))"

section \<open>Accessors\<close>

type_synonym item_ptr = "nat \<times> nat"

fun find_item :: "nat \<Rightarrow> nat \<Rightarrow> pool list \<Rightarrow> nat \<Rightarrow> nat \<Rightarrow> item_ptr option" where
  "find_item isz maxit [] k idx = None"
| "find_item isz maxit (p # ps) k idx =
     (if idx < pl_nitems p then Some (k, isz * idx)
      else find_item isz maxit ps (k + 1) (u_sub idx maxit))"

definition kxld_array_get_item :: "karray \<Rightarrow> nat \<Rightarrow> item_ptr option" where
  "kxld_array_get_item a idx =
     (if idx \<ge> ka_nitems a then None
      else find_item (ka_itemsize a) (ka_pool_maxitems a) (ka_pools a) 0 idx)"

fun find_slot :: "nat \<Rightarrow> nat \<Rightarrow> pool list \<Rightarrow> nat \<Rightarrow> nat \<Rightarrow> item_ptr option" where
  "find_slot isz maxit [] k idx = None"
| "find_slot isz maxit (p # ps) k idx =
     (if idx < maxit then Some (k, isz * idx)
      else find_slot isz maxit ps (k + 1) (u_sub idx maxit))"

definition kxld_array_get_slot :: "karray \<Rightarrow> nat \<Rightarrow> item_ptr option" where
  "kxld_array_get_slot a idx =
     (if idx \<ge> ka_maxitems a then None
      else find_slot (ka_itemsize a) (ka_pool_maxitems a) (ka_pools a) 0 idx)"

text \<open>The walk over the pools with the first index of each; a pointer is in one pool only.\<close>

fun find_index :: "nat \<Rightarrow> nat \<Rightarrow> nat \<Rightarrow> pool list \<Rightarrow> nat \<Rightarrow> nat \<Rightarrow> item_ptr \<Rightarrow> nat option" where
  "find_index isz cap maxit [] k base it = None"
| "find_index isz cap maxit (p # ps) k base it =
     (if fst it = k \<and> snd it < cap then Some (snd it div isz + base)
      else find_index isz cap maxit ps (k + 1) (base + maxit) it)"

definition kxld_array_get_index :: "karray \<Rightarrow> item_ptr \<Rightarrow> kern_return \<times> nat option" where
  "kxld_array_get_index a it =
     (case find_index (ka_itemsize a) (ka_pool_capacity a) (ka_pool_maxitems a) (ka_pools a) 0 0 it of
        None \<Rightarrow> (KERN_FAILURE, None) | Some i \<Rightarrow> (KERN_SUCCESS, Some i))"

section \<open>Modifiers\<close>

text \<open>The loop that adds pools; \<open>None\<close> stands for a loop without end.\<close>

partial_function (option) grow_loop :: "karray \<Rightarrow> nat \<Rightarrow> outcomes \<Rightarrow> (bool \<times> karray \<times> outcomes) option" where
  "grow_loop a nitems os =
     (if nitems > ka_maxitems a then
        (case pool_create (ka_pool_capacity a) os of
           (None, os) \<Rightarrow> Some (False, a, os)
         | (Some p, os) \<Rightarrow>
             grow_loop (a\<lparr>ka_pools := ka_pools a @ [p], ka_maxitems := ka_maxitems a + ka_pool_maxitems a,
               ka_npools := ka_npools a + 1\<rparr>) nitems os)
      else Some (True, a, os))"

definition kxld_array_resize :: "karray \<Rightarrow> nat \<Rightarrow> outcomes \<Rightarrow> (kern_return \<times> karray \<times> outcomes) option" where
  "kxld_array_resize a nitems os =
     (case grow_loop a nitems os of None \<Rightarrow> None
      | Some (ok, a, os) \<Rightarrow>
          if \<not> ok then Some (KERN_FAILURE, a, os)
          else (case reinit_pools a nitems of
            (r, a) \<Rightarrow> Some (if r = 0 then KERN_SUCCESS else KERN_FAILURE, a, os)))"

text \<open>
  \<open>memmove\<close> of the items behind the removed one to its place, and zeros behind the last;
  \<open>None\<close> where one of the two would leave the buffer.
\<close>

definition kxld_array_remove :: "karray \<Rightarrow> nat \<Rightarrow> (kern_return \<times> karray) option" where
  "kxld_array_remove a idx =
     (if idx \<ge> ka_nitems a then Some (KERN_SUCCESS, a)
      else if \<not> (ka_npools a < 2 \<or> ka_nitems a < ka_pool_maxitems a) then Some (KERN_NOT_SUPPORTED, a)
      else (case ka_pools a of
          [] \<Rightarrow> Some (KERN_FAILURE, a)
        | p # ps \<Rightarrow>
            let isz = ka_itemsize a; n = isz * u_sub (u_sub (pl_nitems p) idx) 1; src = (idx + 1) * isz in
            if src + n > length (pl_buffer p) then None
            else
              (case memcpy_at (pl_buffer p) (idx * isz) (take n (drop src (pl_buffer p))) of
                 None \<Rightarrow> None
               | Some b \<Rightarrow>
                   (case memcpy_at b ((pl_nitems p - 1) * isz) (replicate isz 0) of
                      None \<Rightarrow> None
                    | Some b \<Rightarrow>
                        Some (KERN_SUCCESS,
                          a\<lparr>ka_pools := p\<lparr>pl_buffer := b, pl_nitems := pl_nitems p - 1\<rparr> # ps,
                            ka_nitems := ka_nitems a - 1\<rparr>)))))"


section \<open>The invariant\<close>

text \<open>How the items are spread over the pools: every pool is full before the next has any.\<close>

fun spread :: "nat \<Rightarrow> nat \<Rightarrow> nat \<Rightarrow> nat list" where
  "spread m n 0 = []"
| "spread m n (Suc k) = min m n # spread m (n - m) k"

definition array_ok :: "karray \<Rightarrow> bool" where
  "array_ok a \<longleftrightarrow>
     ka_npools a = length (ka_pools a) \<and>
     (\<forall>p \<in> set (ka_pools a). length (pl_buffer p) = ka_pool_capacity a) \<and>
     (ka_pools a \<noteq> [] \<longrightarrow> 0 < ka_itemsize a \<and> ka_pool_maxitems a = ka_pool_capacity a div ka_itemsize a) \<and>
     ka_maxitems a = ka_npools a * ka_pool_maxitems a \<and> ka_nitems a \<le> ka_maxitems a \<and>
     map pl_nitems (ka_pools a) = spread (ka_pool_maxitems a) (ka_nitems a) (ka_npools a)"

text \<open>The bytes of the items, in order.\<close>

definition array_bytes :: "karray \<Rightarrow> byte list" where
  "array_bytes a = concat (map (\<lambda>p. take (pl_nitems p * ka_itemsize a) (pl_buffer p)) (ka_pools a))"

lemma length_spread [simp]: "length (spread m n k) = k"
  by (induction m n k rule: spread.induct) auto

lemma spread_nth: "i < k \<Longrightarrow> spread m n k ! i = min m (n - i * m)"
  by (induction m n k arbitrary: i rule: spread.induct) (auto simp: nth_Cons split: nat.splits)

lemma sum_list_spread: "n \<le> k * m \<Longrightarrow> sum_list (spread m n k) = n"
  by (induction m n k rule: spread.induct) (auto simp: min_def)

lemma spread_0 [simp]: "spread m 0 k = replicate k 0"
  by (induction k) auto

lemma reinit_list_spread:
  "map pl_buffer (fst (reinit_list m n ps)) = map pl_buffer ps \<and>
   map pl_nitems (fst (reinit_list m n ps)) = spread m n (length ps) \<and>
   snd (reinit_list m n ps) = n - length ps * m"
  by (induction m n ps rule: reinit_list.induct) (auto split: prod.splits simp: min_def)

lemma reinit_list_length: "length (fst (reinit_list m n ps)) = length ps"
  using reinit_list_spread [of m n ps] by (metis length_map)

lemma buffers_eq:
  "map pl_buffer ps = map pl_buffer qs \<Longrightarrow>
    (\<forall>p \<in> set ps. length (pl_buffer p) = c) \<longleftrightarrow> (\<forall>p \<in> set qs. length (pl_buffer p) = c)"
proof -
  assume "map pl_buffer ps = map pl_buffer qs"
  then have "pl_buffer ` set ps = pl_buffer ` set qs" by (metis image_set)
  then show ?thesis by (metis (no_types, lifting) image_iff)
qed

lemma reinit_pools_ok:
  assumes "length (ka_pools a) = ka_npools a" "\<forall>p \<in> set (ka_pools a). length (pl_buffer p) = ka_pool_capacity a"
    and "ka_pools a \<noteq> [] \<longrightarrow> 0 < ka_itemsize a \<and> ka_pool_maxitems a = ka_pool_capacity a div ka_itemsize a"
    and "ka_maxitems a = ka_npools a * ka_pool_maxitems a" "n \<le> ka_maxitems a"
    and "reinit_pools a n = (r, a')"
  shows "array_ok a'" "r = 0" "ka_nitems a' = n" "ka_itemsize a' = ka_itemsize a"
    "map pl_buffer (ka_pools a') = map pl_buffer (ka_pools a)" "ka_maxitems a' = ka_maxitems a"
    "ka_npools a' = ka_npools a" "ka_pool_capacity a' = ka_pool_capacity a"
    "ka_pool_maxitems a' = ka_pool_maxitems a"
proof -
  let ?q = "reinit_list (ka_pool_maxitems a) n (ka_pools a)"
  from assms(6) have a': "a' = a\<lparr>ka_pools := fst ?q, ka_nitems := n\<rparr>" "r = snd ?q"
    by (auto simp: reinit_pools_def split: prod.splits)
  note q = reinit_list_spread [of "ka_pool_maxitems a" n "ka_pools a"]
    reinit_list_length [of "ka_pool_maxitems a" n "ka_pools a"]
  show "r = 0" using q assms by (simp add: a')
  have "\<forall>p \<in> set (fst ?q). length (pl_buffer p) = ka_pool_capacity a"
    using buffers_eq [of "fst ?q" "ka_pools a"] q assms(2) by simp
  then show "array_ok a'" using q assms by (auto simp: array_ok_def a')
  show "map pl_buffer (ka_pools a') = map pl_buffer (ka_pools a)" using q by (simp add: a')
qed (use assms in \<open>auto simp: reinit_pools_def split: prod.splits\<close>)

lemma round_page_ge: "0 < pg \<Longrightarrow> n \<le> round_page pg n"
proof -
  assume pg: "0 < pg"
  have "n + pg - 1 = round_page pg n + (n + pg - 1) mod pg"
    by (simp add: round_page_def)
  moreover have "(n + pg - 1) mod pg < pg" using pg by simp
  ultimately show ?thesis by linarith
qed

lemma array_zero_ok [simp]: "array_ok array_zero"
  by (simp add: array_ok_def array_zero_def)

lemma array_reset_ok: "array_ok a \<Longrightarrow> array_ok (kxld_array_reset a)"
  by (auto simp: array_ok_def kxld_array_reset_def comp_def map_replicate_const)

lemma array_clear_ok: "array_ok a \<Longrightarrow> array_ok (kxld_array_clear a)"
  by (auto simp: array_ok_def kxld_array_reset_def kxld_array_clear_def comp_def map_replicate_const)

lemma pool_create_some:
  "pool_create c os = (Some p, os') \<Longrightarrow> p = \<lparr>pl_buffer = replicate c 0, pl_nitems = 0\<rparr>"
  by (auto simp: pool_create_def split: prod.splits if_splits)

text \<open>A new or reused single pool of zeros.\<close>

lemma array_init_success:
  assumes "array_init pg a isz n os = (KERN_SUCCESS, a', os')" "0 < pg"
    and "ka_npools a = length (ka_pools a)"
    and "\<forall>p \<in> set (ka_pools a). length (pl_buffer p) = ka_pool_capacity a"
  shows "array_ok a'" "ka_nitems a' = n" "ka_itemsize a' = isz" "0 < isz"
    "ka_pools a' = [\<lparr>pl_buffer = replicate (ka_pool_capacity a') 0, pl_nitems = n\<rparr>]"
    "ka_pools a = [] \<Longrightarrow> ka_pool_capacity a' = round_page pg (isz * n)"
    "isz * n \<le> ka_pool_capacity a'"
proof -
  from assms(1) have isz: "0 < isz" and np: "ka_npools a < 2"
    by (auto simp: array_init_def split: if_splits)
  have fits: "isz * n \<le> c \<Longrightarrow> n \<le> c div isz" for c
    using isz by (metis div_le_mono nonzero_mult_div_cancel_left not_gr_zero)
  have *: "0 < isz \<and> array_ok a' \<and> ka_nitems a' = n \<and> ka_itemsize a' = isz \<and>
    ka_pools a' = [\<lparr>pl_buffer = replicate (ka_pool_capacity a') 0, pl_nitems = n\<rparr>] \<and>
    (ka_pools a = [] \<longrightarrow> ka_pool_capacity a' = round_page pg (isz * n)) \<and> isz * n \<le> ka_pool_capacity a'"
  proof (cases "ka_pools a")
    case Nil
    with assms(1) isz np obtain p where "pool_create (round_page pg (isz * n)) os = (Some p, os')"
      "a' = array_fill (a\<lparr>ka_itemsize := isz, ka_pool_capacity := round_page pg (isz * n)\<rparr>) p n"
      by (auto simp: array_init_def Let_def split: prod.splits option.splits)
    with Nil isz fits [OF round_page_ge [OF assms(2), of "isz * n"]] round_page_ge [OF assms(2), of "isz * n"]
    show ?thesis
      by (auto simp: array_fill_def array_ok_def Let_def dest!: pool_create_some)
  next
    case (Cons p ps)
    with assms(1) isz np have lt: "isz * n < ka_pool_capacity a" "ka_npools a = 1"
      and a': "a' = array_fill (a\<lparr>ka_itemsize := isz\<rparr>) (p\<lparr>pl_buffer := replicate (ka_pool_capacity a) 0\<rparr>) n"
      by (auto simp: array_init_def Let_def split: if_splits)
    from Cons assms(3) lt(2) have "ps = []" by simp
    with Cons isz lt fits [of "ka_pool_capacity a"] assms(4) show ?thesis
      by (auto simp: a' array_fill_def array_ok_def Let_def)
  qed
  then show "array_ok a'" "ka_nitems a' = n" "ka_itemsize a' = isz" "0 < isz"
    "ka_pools a' = [\<lparr>pl_buffer = replicate (ka_pool_capacity a') 0, pl_nitems = n\<rparr>]"
    "ka_pools a = [] \<Longrightarrow> ka_pool_capacity a' = round_page pg (isz * n)"
    "isz * n \<le> ka_pool_capacity a'"
    by blast+
qed

text \<open>The copies fit one behind the other exactly when all of them do.\<close>

lemma copy_pools_fit:
  assumes "off + sum_list (map length srcs) \<le> length dst"
  shows "copy_pools dst off srcs =
    Some (take off dst @ concat srcs @ drop (off + sum_list (map length srcs)) dst)"
  using assms
proof (induction srcs arbitrary: dst off)
  case (Cons s ss)
  let ?d = "take off dst @ s @ drop (off + length s) dst"
  from Cons.prems have d: "memcpy_at dst off s = Some ?d" "length ?d = length dst"
    "take (off + length s) ?d = take off dst @ s"
    by (auto simp: memcpy_at_def)
  from d(2) Cons.prems Cons.IH [of "off + length s" ?d] have
    "copy_pools ?d (off + length s) ss = Some (take (off + length s) ?d @ concat ss @
       drop (off + length s + sum_list (map length ss)) ?d)"
    by simp
  with d(1,3) Cons.prems show ?case by (simp add: ac_simps)
qed simp

lemma copy_pools_overflow:
  assumes "length dst < off + sum_list (map length srcs)" "off \<le> length dst"
  shows "copy_pools dst off srcs = None"
  using assms
proof (induction srcs arbitrary: dst off)
  case (Cons s ss)
  show ?case
  proof (cases "memcpy_at dst off s")
    case (Some d)
    then have "length d = length dst" "off + length s \<le> length dst"
      by (auto simp: memcpy_at_def split: if_splits)
    with Some Cons show ?thesis by (simp add: add.assoc)
  qed simp
qed simp


lemma array_okD:
  assumes "array_ok a"
  shows "ka_npools a = length (ka_pools a)" "p \<in> set (ka_pools a) \<Longrightarrow> length (pl_buffer p) = ka_pool_capacity a"
    "ka_pools a \<noteq> [] \<Longrightarrow> 0 < ka_itemsize a"
    "ka_pools a \<noteq> [] \<Longrightarrow> ka_pool_maxitems a = ka_pool_capacity a div ka_itemsize a"
    "ka_maxitems a = ka_npools a * ka_pool_maxitems a" "ka_nitems a \<le> ka_maxitems a"
    "map pl_nitems (ka_pools a) = spread (ka_pool_maxitems a) (ka_nitems a) (ka_npools a)"
  using assms by (auto simp: array_ok_def)

lemma sum_buffers: "array_ok a \<Longrightarrow> sum_list (map (length \<circ> pl_buffer) (ka_pools a)) = ka_npools a * ka_pool_capacity a"
proof -
  assume ok: "array_ok a"
  then have "map (length \<circ> pl_buffer) (ka_pools a) = replicate (length (ka_pools a)) (ka_pool_capacity a)"
    by (auto simp: array_okD(2) intro!: replicate_eqI)
  then show ?thesis using array_okD(1) [OF ok] by (simp add: sum_list_replicate)
qed

lemma copy_pools_length: "copy_pools d off ss = Some b \<Longrightarrow> length b = length d"
  by (induction d off ss rule: copy_pools.induct) (auto simp: memcpy_at_def split: option.splits if_splits)

text \<open>Filling the single zeroed pool that \<open>array_init\<close> has left.\<close>

lemma fill_first_single:
  assumes "array_ok a" "ka_pools a = [\<lparr>pl_buffer = replicate (ka_pool_capacity a) 0, pl_nitems = n\<rparr>]"
    and "sum_list (map length srcs) \<le> ka_pool_capacity a"
  obtains a' where "fill_first a srcs = Some (KERN_SUCCESS, a')" "array_ok a'"
    "a' = a\<lparr>ka_pools := [\<lparr>pl_buffer =
       concat srcs @ replicate (ka_pool_capacity a - sum_list (map length srcs)) 0, pl_nitems = n\<rparr>]\<rparr>"
proof -
  let ?b = "concat srcs @ replicate (ka_pool_capacity a - sum_list (map length srcs)) (0 :: byte)"
  let ?a = "a\<lparr>ka_pools := [\<lparr>pl_buffer = ?b, pl_nitems = n\<rparr>]\<rparr>"
  have "fill_first a srcs = Some (KERN_SUCCESS, ?a)"
    using assms(2,3) copy_pools_fit [of 0 srcs "replicate (ka_pool_capacity a) 0"]
    by (simp add: fill_first_def)
  moreover have "length ?b = ka_pool_capacity a"
    using assms(3) by (simp add: length_concat)
  with assms(1,2) have "array_ok ?a" by (auto simp: array_ok_def)
  ultimately show thesis using that by blast
qed

lemma fill_first_none:
  assumes "ka_pools a = [\<lparr>pl_buffer = replicate (ka_pool_capacity a) 0, pl_nitems = n\<rparr>]"
    and "ka_pool_capacity a < sum_list (map length srcs)"
  shows "fill_first a srcs = None"
  using assms copy_pools_overflow [of "replicate (ka_pool_capacity a) 0" 0 srcs] by (simp add: fill_first_def)

lemma array_init_zero:
  assumes "0 < isz"
  shows "array_init pg array_zero isz n os =
    (case pool_create (round_page pg (isz * n)) os of
       (None, os) \<Rightarrow> (KERN_RESOURCE_SHORTAGE, array_zero\<lparr>ka_itemsize := isz, ka_pool_capacity := round_page pg (isz * n)\<rparr>, os)
     | (Some p, os) \<Rightarrow> (KERN_SUCCESS, \<lparr>ka_pools = [p\<lparr>pl_nitems := n\<rparr>], ka_itemsize = isz,
          ka_pool_capacity = round_page pg (isz * n),
          ka_pool_maxitems = round_page pg (isz * n) div isz, ka_nitems = n,
          ka_maxitems = round_page pg (isz * n) div isz, ka_npools = 1\<rparr>, os))"
  using assms by (simp add: array_init_def array_zero_def array_fill_def Let_def split: prod.splits option.splits)

lemma array_rebuild_cases:
  assumes "0 < pg" "0 < isz" "ka_pools a = []" "ka_npools a = 0" "ka_maxitems a = 0"
  obtains (fail) r os' where "array_rebuild pg a isz n srcs os = Some (r, array_zero, os')" "r \<noteq> KERN_SUCCESS"
      "os \<noteq> []"
  | (overflow) "array_rebuild pg a isz n srcs os = None" "round_page pg (isz * n) < sum_list (map length srcs)"
  | (ok) a' os' where "array_rebuild pg a isz n srcs os = Some (KERN_SUCCESS, a', os')" "array_ok a'"
      "ka_nitems a' = n" "ka_itemsize a' = isz" "ka_npools a' = 1" "isz * n \<le> ka_pool_capacity a'"
      "concat (map pl_buffer (ka_pools a')) =
         concat srcs @ replicate (round_page pg (isz * n) - sum_list (map length srcs)) 0"
      "sum_list (map length srcs) \<le> round_page pg (isz * n)"
proof -
  let ?a = "a\<lparr>ka_itemsize := isz\<rparr>"
  obtain r a1 os1 where i: "array_init pg ?a isz n os = (r, a1, os1)" by (metis prod_cases3)
  show thesis
  proof (cases "r = KERN_SUCCESS")
    case False
    moreover have "os \<noteq> []" using i False assms by (auto simp: array_init_def pool_create_def Let_def)
    ultimately show thesis
      using fail i assms(5) by (simp add: array_rebuild_def kxld_array_deinit_def)
  next
    case True
    note s = array_init_success [OF i [unfolded True] assms(1)]
    from assms(3,4) have pre: "ka_npools ?a = length (ka_pools ?a)"
      "\<forall>p \<in> set (ka_pools ?a). length (pl_buffer p) = ka_pool_capacity ?a" by simp_all
    note s = s [OF this]
    have cap: "ka_pool_capacity a1 = round_page pg (isz * n)" using s(6) assms(3) by simp
    show thesis
    proof (cases "sum_list (map length srcs) \<le> round_page pg (isz * n)")
      case True
      obtain a' where a': "fill_first a1 srcs = Some (KERN_SUCCESS, a')" "array_ok a'"
        "a' = a1\<lparr>ka_pools := [\<lparr>pl_buffer = concat srcs @
           replicate (ka_pool_capacity a1 - sum_list (map length srcs)) 0, pl_nitems = n\<rparr>]\<rparr>"
        using fill_first_single [OF s(1,5), where srcs = srcs] True cap by metis
      with s(1-5,7) array_okD(1) [OF s(1)] True i assms(5) cap \<open>r = KERN_SUCCESS\<close> show thesis
        by (intro ok [of a' os1]) (simp_all add: array_rebuild_def)
    next
      case False
      with fill_first_none [OF s(5), of srcs] i assms(5) cap \<open>r = KERN_SUCCESS\<close> show thesis
        by (intro overflow) (simp_all add: array_rebuild_def)
    qed
  qed
qed

section \<open>Items\<close>

text \<open>The bytes of all slots, used or not; the items are its first part.\<close>

definition array_store :: "karray \<Rightarrow> byte list" where
  "array_store a = concat (map (\<lambda>p. take (ka_pool_maxitems a * ka_itemsize a) (pl_buffer p)) (ka_pools a))"

lemma slots_fit:
  "array_ok a \<Longrightarrow> p \<in> set (ka_pools a) \<Longrightarrow> ka_pool_maxitems a * ka_itemsize a \<le> length (pl_buffer p)"
  by (auto simp: array_ok_def)

lemma store_take:
  assumes "map pl_nitems ps = spread m n (length ps)" "n \<le> length ps * m"
    and "\<forall>p \<in> set ps. m * isz \<le> length (pl_buffer p)"
  shows "concat (map (\<lambda>p. take (pl_nitems p * isz) (pl_buffer p)) ps) =
    take (n * isz) (concat (map (\<lambda>p. take (m * isz) (pl_buffer p)) ps))"
  using assms
proof (induction ps arbitrary: n)
  case (Cons p ps)
  have d: "(n - m) * isz = n * isz - m * isz" by (simp add: diff_mult_distrib)
  have len: "m * isz \<le> length (pl_buffer p)" using Cons.prems by simp
  have IH: "concat (map (\<lambda>p. take (pl_nitems p * isz) (pl_buffer p)) ps) =
      take (n * isz - m * isz) (concat (map (\<lambda>p. take (m * isz) (pl_buffer p)) ps))"
    using Cons by (simp add: d)
  show ?case
  proof (cases "n \<le> m")
    case True
    then have "n * isz \<le> m * isz" by (rule mult_le_mono1)
    with True Cons.prems(1) len IH show ?thesis by (simp add: min_absorb1 min_absorb2)
  next
    case False
    then have "m * isz \<le> n * isz" by (simp add: mult_le_mono1)
    with False Cons.prems(1) len IH show ?thesis by (simp add: min_absorb1 min_absorb2)
  qed
qed simp

lemma array_bytes_store:
  "array_ok a \<Longrightarrow> array_bytes a = take (ka_nitems a * ka_itemsize a) (array_store a)"
  unfolding array_bytes_def array_store_def
  using store_take [of "ka_pools a" "ka_pool_maxitems a" "ka_nitems a" "ka_itemsize a"]
  by (auto simp: slots_fit array_ok_def)

lemma length_array_store:
  assumes "array_ok a"
  shows "length (array_store a) = ka_maxitems a * ka_itemsize a"
proof -
  have "map (\<lambda>p. length (take (ka_pool_maxitems a * ka_itemsize a) (pl_buffer p))) (ka_pools a) =
    replicate (length (ka_pools a)) (ka_pool_maxitems a * ka_itemsize a)"
    using slots_fit [OF assms] by (auto simp: min_absorb2 intro!: replicate_eqI)
  then show ?thesis
    using array_okD(1,5) [OF assms] by (simp add: array_store_def length_concat comp_def sum_list_replicate)
qed

lemma length_array_bytes: "array_ok a \<Longrightarrow> length (array_bytes a) = ka_nitems a * ka_itemsize a"
  by (simp add: array_bytes_store length_array_store array_okD(6))

text \<open>Where the walks over the pools end.\<close>

lemma pool_maxitems_pos: "array_ok a \<Longrightarrow> i < ka_maxitems a \<Longrightarrow> 0 < ka_pool_maxitems a"
  by (auto simp: array_ok_def intro!: gr0I)

lemma find_item_spread:
  assumes "map pl_nitems ps = spread m n (length ps)" "n \<le> length ps * m" "0 < m" "idx < n"
  shows "find_item isz m ps k idx = Some (k + idx div m, isz * (idx mod m))"
  using assms
proof (induction ps arbitrary: n k idx)
  case (Cons p ps)
  then have p: "pl_nitems p = min m n" "map pl_nitems ps = spread m (n - m) (length ps)" by auto
  show ?case
  proof (cases "idx < m")
    case True
    with p Cons.prems show ?thesis by simp
  next
    case False
    with Cons.prems p Cons.IH [of "n - m" "idx - m" "k + 1"] show ?thesis
      by (simp add: u_sub_def le_div_geq le_mod_geq)
  qed
qed simp

lemma find_slot_div:
  assumes "idx < length ps * m" "0 < m"
  shows "find_slot isz m ps k idx = Some (k + idx div m, isz * (idx mod m))"
  using assms
proof (induction ps arbitrary: k idx)
  case (Cons p ps)
  then show ?case by (cases "idx < m") (simp_all add: u_sub_def le_div_geq le_mod_geq)
qed simp

lemma find_index_nth:
  assumes "j < length ps" "off < cap"
  shows "find_index isz cap m ps k base (k + j, off) = Some (off div isz + (base + j * m))"
  using assms
proof (induction ps arbitrary: k base j)
  case (Cons p ps)
  show ?case
  proof (cases j)
    case (Suc i)
    with Cons.prems Cons.IH [of i "k + 1" "base + m"] show ?thesis by (simp add: add.assoc)
  qed (use Cons.prems in simp)
qed simp

lemma find_index_outside:
  "fst it < k \<or> k + length ps \<le> fst it \<or> cap \<le> snd it \<Longrightarrow> find_index isz cap m ps k base it = None"
  by (induction ps arbitrary: k base) auto

lemma get_item_eq:
  assumes "array_ok a" "idx < ka_nitems a"
  shows "kxld_array_get_item a idx =
    Some (idx div ka_pool_maxitems a, ka_itemsize a * (idx mod ka_pool_maxitems a))"
  using assms find_item_spread [of "ka_pools a" "ka_pool_maxitems a" "ka_nitems a" idx "ka_itemsize a" 0]
    pool_maxitems_pos [OF assms(1), of idx] array_okD(5,6,7) [OF assms(1)]
  by (simp add: kxld_array_get_item_def flip: array_okD(1))

lemma slot_in_pool:
  assumes "array_ok a" "idx < ka_maxitems a"
  shows "idx div ka_pool_maxitems a < length (ka_pools a)" "0 < ka_itemsize a"
    "ka_itemsize a * (idx mod ka_pool_maxitems a) + ka_itemsize a \<le> ka_pool_maxitems a * ka_itemsize a"
proof -
  note m = pool_maxitems_pos [OF assms]
  have i: "idx < length (ka_pools a) * ka_pool_maxitems a" using assms array_okD(1,5) [OF assms(1)] by simp
  then show "idx div ka_pool_maxitems a < length (ka_pools a)" by (simp add: less_mult_imp_div_less)
  from i show "0 < ka_itemsize a" using array_okD(3) [OF assms(1)] by (cases "ka_pools a") auto
  have "Suc (idx mod ka_pool_maxitems a) \<le> ka_pool_maxitems a" using m by (simp add: Suc_leI)
  then have "ka_itemsize a * Suc (idx mod ka_pool_maxitems a) \<le> ka_itemsize a * ka_pool_maxitems a"
    by (rule mult_le_mono2)
  then show "ka_itemsize a * (idx mod ka_pool_maxitems a) + ka_itemsize a \<le> ka_pool_maxitems a * ka_itemsize a"
    by (simp add: ac_simps)
qed

lemma get_index_eq:
  assumes "array_ok a" "idx < ka_maxitems a" "d < ka_itemsize a"
  shows "kxld_array_get_index a
      (idx div ka_pool_maxitems a, ka_itemsize a * (idx mod ka_pool_maxitems a) + d) = (KERN_SUCCESS, Some idx)"
proof -
  let ?j = "idx div ka_pool_maxitems a" and ?o = "ka_itemsize a * (idx mod ka_pool_maxitems a) + d"
  note s = slot_in_pool [OF assms(1,2)]
  have "ka_pool_maxitems a * ka_itemsize a \<le> ka_pool_capacity a"
    using s(1) array_okD(4) [OF assms(1)] by (cases "ka_pools a") auto
  with s(3) assms(3) have "?o < ka_pool_capacity a" by linarith
  moreover have "?o div ka_itemsize a = idx mod ka_pool_maxitems a" using assms(3) by simp
  ultimately show ?thesis
    using find_index_nth [OF s(1), of ?o "ka_pool_capacity a" "ka_itemsize a" "ka_pool_maxitems a" 0 0]
    by (simp add: kxld_array_get_index_def)
qed

section \<open>What \<open>kxld_array_init\<close> does\<close>

text \<open>The memory of the pools, end to end.\<close>

definition array_memory :: "karray \<Rightarrow> byte list" where
  "array_memory a = concat (map pl_buffer (ka_pools a))"

lemma length_array_memory: "array_ok a \<Longrightarrow> length (array_memory a) = ka_npools a * ka_pool_capacity a"
  using sum_buffers [of a] by (simp add: array_memory_def length_concat comp_def)

lemma reinit_pools_itemsize:
  "reinit_pools (a\<lparr>ka_itemsize := x\<rparr>) n = (case reinit_pools a n of (r, a') \<Rightarrow> (r, a'\<lparr>ka_itemsize := x\<rparr>))"
  by (simp add: reinit_pools_def split: prod.splits)

text \<open>The pools are enough for the new size of the items.\<close>

lemma array_init_reuse:
  assumes "array_ok a" "0 < n" "0 < isz" "ka_npools a \<noteq> 0"
    and enough: "n \<le> ka_npools a * (ka_pool_capacity a div isz)"
  obtains a' where "kxld_array_init pg a isz n os = Some (KERN_SUCCESS, a', os)" "array_ok a'"
    "ka_nitems a' = n" "ka_itemsize a' = isz" "array_memory a' = array_memory a"
proof -
  let ?m = "ka_pool_capacity a div isz"
  let ?a = "a\<lparr>ka_pool_maxitems := ?m, ka_maxitems := length (ka_pools a) * ?m\<rparr>"
  obtain r a1 where i: "reinit_pools ?a n = (r, a1)" by fastforce
  then have i': "reinit_pools (?a\<lparr>ka_itemsize := isz\<rparr>) n = (r, a1\<lparr>ka_itemsize := isz\<rparr>)"
    by (simp add: reinit_pools_itemsize del: karray.update_convs)
  note np = array_okD(1) [OF assms(1)]
  have *: "length (ka_pools (?a\<lparr>ka_itemsize := isz\<rparr>)) = ka_npools (?a\<lparr>ka_itemsize := isz\<rparr>)"
    "\<forall>p \<in> set (ka_pools (?a\<lparr>ka_itemsize := isz\<rparr>)). length (pl_buffer p) =
       ka_pool_capacity (?a\<lparr>ka_itemsize := isz\<rparr>)"
    "n \<le> ka_maxitems (?a\<lparr>ka_itemsize := isz\<rparr>)"
    using np enough array_okD(2) [OF assms(1)] by simp_all
  note ok = reinit_pools_ok [OF *(1,2) _ _ *(3) i']
  have r: "r = 0" using ok(2) assms(3) np by simp
  have "0 < ka_npools a * ?m" using assms(2) enough by linarith
  then have m: "ka_maxitems a1 \<noteq> 0" using ok(6) assms(3) np by simp
  show thesis
  proof (rule that [of "a1\<lparr>ka_itemsize := isz\<rparr>"])
    show "kxld_array_init pg a isz n os = Some (KERN_SUCCESS, a1\<lparr>ka_itemsize := isz\<rparr>, os)"
      using assms np i r m by (auto simp: kxld_array_init_def Let_def array_rebuild_def)
    show "array_ok (a1\<lparr>ka_itemsize := isz\<rparr>)" using ok(1) assms(3) np by simp
    show "ka_nitems (a1\<lparr>ka_itemsize := isz\<rparr>) = n" using ok(3) assms(3) np by simp
    show "array_memory (a1\<lparr>ka_itemsize := isz\<rparr>) = array_memory a"
      using ok(5) assms(3) np by (simp add: array_memory_def)
  qed simp
qed

lemma init_as_rebuild:
  assumes "0 < n" "0 < isz"
  shows "ka_npools a = 0 \<Longrightarrow> kxld_array_init pg a isz n os = array_rebuild pg a isz n [] os"
    and "array_ok a \<Longrightarrow> ka_npools a \<noteq> 0 \<Longrightarrow> ka_npools a * (ka_pool_capacity a div isz) < n \<Longrightarrow>
      kxld_array_init pg a isz n os = array_rebuild pg array_zero isz n (map pl_buffer (ka_pools a)) os"
  using assms by (auto simp: kxld_array_init_def Let_def array_okD(1))

lemma array_ok_no_pools: "array_ok a \<Longrightarrow> ka_npools a = 0 \<Longrightarrow> ka_pools a = [] \<and> ka_maxitems a = 0"
  by (auto simp: array_ok_def)

lemma array_init_cases:
  assumes "array_ok a" "0 < pg" "0 < n" "0 < isz"
  obtains (fail) r os' where "kxld_array_init pg a isz n os = Some (r, array_zero, os')" "r \<noteq> KERN_SUCCESS" "os \<noteq> []"
  | (overflow) "kxld_array_init pg a isz n os = None"
      "ka_npools a * (ka_pool_capacity a div isz) < n"
      "round_page pg (isz * n) < ka_npools a * ka_pool_capacity a"
  | (ok) a' os' k where "kxld_array_init pg a isz n os = Some (KERN_SUCCESS, a', os')" "array_ok a'"
      "ka_nitems a' = n" "ka_itemsize a' = isz" "array_memory a' = array_memory a @ replicate k 0"
      "ka_npools a * (ka_pool_capacity a div isz) < n \<Longrightarrow>
        ka_npools a * ka_pool_capacity a \<le> round_page pg (isz * n)"
proof (cases "ka_npools a = 0")
  case True
  note e = array_ok_no_pools [OF assms(1) True]
  show thesis
  proof (cases rule: array_rebuild_cases [OF assms(2,4) conjunct1 [OF e] True conjunct2 [OF e], of n "[]" os])
    case (1 r os')
    with fail True assms show thesis by (simp add: init_as_rebuild)
  next
    case (3 a' os')
    show thesis
      using 3 True e assms
      by (intro ok [of a' os' "round_page pg (isz * n)"]) (simp_all add: init_as_rebuild array_memory_def)
  qed simp
next
  case False
  have sum: "sum_list (map length (map pl_buffer (ka_pools a))) = ka_npools a * ka_pool_capacity a"
    using sum_buffers [OF assms(1)] by simp
  show thesis
  proof (cases "n \<le> ka_npools a * (ka_pool_capacity a div isz)")
    case True
    obtain a' where a': "kxld_array_init pg a isz n os = Some (KERN_SUCCESS, a', os)" "array_ok a'"
      "ka_nitems a' = n" "ka_itemsize a' = isz" "array_memory a' = array_memory a"
      using array_init_reuse [OF assms(1,3,4) False True] .
    show thesis by (rule ok [of a' os 0]) (use a' True in simp_all)
  next
    case few: False
    then have lt: "ka_npools a * (ka_pool_capacity a div isz) < n" by simp
    note eq = init_as_rebuild(2) [OF assms(3,4) assms(1) False lt, of pg os]
    have z: "ka_pools array_zero = []" "ka_npools array_zero = 0" "ka_maxitems array_zero = 0"
      by (simp_all add: array_zero_def)
    show thesis
    proof (cases rule: array_rebuild_cases [OF assms(2,4) z, of n "map pl_buffer (ka_pools a)" os])
      case (1 r os')
      with fail eq show thesis by simp
    next
      case 2
      with overflow eq lt sum show thesis by simp
    next
      case (3 a' os')
      show thesis
        using 3 eq sum
        by (intro ok [of a' os' "round_page pg (isz * n) - ka_npools a * ka_pool_capacity a"])
          (simp_all add: array_memory_def)
    qed
  qed
qed

lemma init_trivial:
  "kxld_array_init pg a isz 0 os = Some (KERN_SUCCESS, kxld_array_reset a, os)"
  "0 < n \<Longrightarrow> kxld_array_init pg a 0 n os = Some (KERN_INVALID_ARGUMENT, array_zero, os)"
  by (simp_all add: kxld_array_init_def kxld_array_deinit_def)

lemma memory_reset: "array_memory (kxld_array_reset a) = array_memory a"
  by (simp add: array_memory_def kxld_array_reset_def comp_def)

lemma array_init_ok:
  assumes "array_ok a" "0 < pg" "kxld_array_init pg a isz n os = Some (r, a', os')"
  shows "array_ok a'"
proof (cases "n = 0 \<or> isz = 0")
  case True
  with assms init_trivial array_reset_ok show ?thesis by (cases "n = 0") auto
next
  case False
  then have pos: "0 < n" "0 < isz" by auto
  show ?thesis
    by (cases rule: array_init_cases [OF assms(1,2) pos, of os]) (use assms(3) in simp_all)
qed

section \<open>Copying, growing, removing\<close>

lemma copy_cases:
  assumes "array_ok dst" "array_ok src" "0 < pg"
  obtains (fail) r dst' os' where "kxld_array_copy pg dst src os = Some (r, dst', os')" "r \<noteq> KERN_SUCCESS"
  | (ok) dst' os' where "kxld_array_copy pg dst src os = Some (KERN_SUCCESS, dst', os')" "array_ok dst'"
      "ka_nitems dst' = ka_nitems src" "ka_itemsize dst' = ka_itemsize src" "ka_npools dst' = 1"
      "array_bytes dst' = array_bytes src"
proof -
  let ?srcs = "map (\<lambda>p. take (pl_nitems p * ka_itemsize src) (pl_buffer p)) (ka_pools src)"
  let ?needed = "round_page pg (ka_nitems src * ka_itemsize src)"
  let ?d = "if ka_npools dst > 1 \<or> ?needed > ka_npools dst * ka_pool_capacity dst
    then kxld_array_deinit dst else dst"
  have d: "array_ok ?d" using assms(1) by (simp add: kxld_array_deinit_def)
  obtain r a1 os1 where i: "array_init pg ?d (ka_itemsize src) (ka_nitems src) os = (r, a1, os1)"
    by (metis prod_cases3)
  have "pl_nitems p * ka_itemsize src \<le> length (pl_buffer p)" if p: "p \<in> set (ka_pools src)" for p
  proof -
    have "pl_nitems p \<in> set (map pl_nitems (ka_pools src))" using p by simp
    then have "pl_nitems p \<le> ka_pool_maxitems src"
      by (auto simp: array_okD(7) [OF assms(2)] in_set_conv_nth spread_nth)
    then have "pl_nitems p * ka_itemsize src \<le> ka_pool_maxitems src * ka_itemsize src" by simp
    then show ?thesis using slots_fit [OF assms(2) p] by linarith
  qed
  then have fits: "\<not> (\<exists>p \<in> set (ka_pools src). pl_nitems p * ka_itemsize src > length (pl_buffer p))"
    by (auto simp: not_less)
  show thesis
  proof (cases "r = KERN_SUCCESS")
    case False
    with i fail show thesis by (simp add: kxld_array_copy_def Let_def)
  next
    case True
    note s = array_init_success [OF i [unfolded True] assms(3) array_okD(1) [OF d]]
    from array_okD(2) [OF d] have "\<forall>p \<in> set (ka_pools ?d). length (pl_buffer p) = ka_pool_capacity ?d" by blast
    note s = s [OF this]
    have len: "sum_list (map length ?srcs) = ka_nitems src * ka_itemsize src"
      using length_array_bytes [OF assms(2)] by (simp add: array_bytes_def length_concat)
    then have "sum_list (map length ?srcs) \<le> ka_pool_capacity a1" using s(7) by (simp add: mult.commute)
    from fill_first_single [OF s(1,5) this] obtain a' where
      a': "fill_first a1 ?srcs = Some (KERN_SUCCESS, a')" "array_ok a'"
      "a' = a1\<lparr>ka_pools := [\<lparr>pl_buffer = concat ?srcs @
        replicate (ka_pool_capacity a1 - sum_list (map length ?srcs)) 0, pl_nitems = ka_nitems src\<rparr>]\<rparr>"
      by blast
    show thesis
    proof (rule ok [of a' os1])
      show "kxld_array_copy pg dst src os = Some (KERN_SUCCESS, a', os1)"
        using i True fits a'(1) by (simp add: kxld_array_copy_def Let_def)
      show "ka_npools a' = 1" using array_okD(1) [OF a'(2)] by (simp add: a'(3))
      have "length (concat ?srcs) = ka_nitems src * ka_itemsize src" using len by (simp add: length_concat)
      then show "array_bytes a' = array_bytes src"
        using s(3) by (simp add: a'(3) array_bytes_def)
    qed (use a' s in simp_all)
  qed
qed

text \<open>An array with \<open>k\<close> more pools, which are empty.\<close>

definition grown :: "karray \<Rightarrow> nat \<Rightarrow> karray" where
  "grown a k = a\<lparr>ka_pools := ka_pools a @ replicate k \<lparr>pl_buffer = replicate (ka_pool_capacity a) 0, pl_nitems = 0\<rparr>,
     ka_maxitems := ka_maxitems a + k * ka_pool_maxitems a, ka_npools := ka_npools a + k\<rparr>"

lemma grown_0: "grown a 0 = a"
  by (simp add: grown_def)

lemma grown_Suc: "grown (grown a 1) k = grown a (Suc k)"
  by (simp add: grown_def)

lemma spread_add: "n \<le> k * m \<Longrightarrow> spread m n (k + j) = spread m n k @ replicate j 0"
  by (induction m n k rule: spread.induct) auto

lemma grown_ok:
  assumes "array_ok a" "0 < ka_pool_maxitems a" "0 < ka_itemsize a"
    "ka_pool_maxitems a = ka_pool_capacity a div ka_itemsize a"
  shows "array_ok (grown a k)"
  using assms spread_add [of "ka_nitems a" "ka_npools a" "ka_pool_maxitems a" k]
  by (auto simp: array_ok_def grown_def algebra_simps)

lemma grow_loop_ends:
  assumes "0 < ka_pool_maxitems a"
  shows "\<exists>ok k os'. grow_loop a n os = Some (ok, grown a k, os') \<and> (ok \<longrightarrow> n \<le> ka_maxitems (grown a k)) \<and>
    (os = [] \<longrightarrow> ok)"
  using assms
proof (induction "n - ka_maxitems a" arbitrary: a os rule: less_induct)
  case less
  show ?case
  proof (cases "n > ka_maxitems a")
    case False
    then show ?thesis by (subst grow_loop.simps) (auto intro!: exI [of _ 0] simp: grown_0)
  next
    case True
    obtain q os1 where c: "pool_create (ka_pool_capacity a) os = (q, os1)" by fastforce
    show ?thesis
    proof (cases q)
      case None
      have "os \<noteq> []" using c None by (auto simp: pool_create_def)
      with True c None show ?thesis
        by (subst grow_loop.simps) (auto intro!: exI [of _ 0] simp: grown_0)
    next
      case (Some p)
      have p: "p = \<lparr>pl_buffer = replicate (ka_pool_capacity a) 0, pl_nitems = 0\<rparr>"
        using c Some pool_create_some by blast
      have os1: "os = [] \<Longrightarrow> os1 = []" using c by (auto simp: pool_create_def)
      have g: "grow_loop a n os = grow_loop (grown a 1) n os1"
        using True c Some by (subst grow_loop.simps) (simp add: grown_def p)
      have "n - ka_maxitems (grown a 1) < n - ka_maxitems a" using True less.prems by (simp add: grown_def)
      from less.hyps [OF this, of os1] less.prems obtain ok k os' where
        "grow_loop (grown a 1) n os1 = Some (ok, grown (grown a 1) k, os')"
        "ok \<longrightarrow> n \<le> ka_maxitems (grown (grown a 1) k)" "os1 = [] \<longrightarrow> ok"
        by (auto simp: grown_def)
      with g os1 show ?thesis unfolding grown_Suc by metis
    qed
  qed
qed

lemma grow_loop_enough:
  assumes "grow_loop a n os = Some y"
  shows "os = [] \<longrightarrow> ka_pool_maxitems a = 0 \<longrightarrow> n \<le> ka_maxitems a"
proof (induction a n os y rule: grow_loop.raw_induct)
  case (1 f a n os y)
  show ?case
  proof (intro impI, rule ccontr)
    assume less: "os = []" "ka_pool_maxitems a = 0" "\<not> n \<le> ka_maxitems a"
    with 1(2) have "f (grown a 1) n [] = Some y" by (simp add: pool_create_def grown_def)
    from 1(1) [OF this] less show False by (simp add: grown_def)
  qed
qed (rule assms)

lemma grow_loop_diverges:
  "ka_pool_maxitems a = 0 \<Longrightarrow> ka_maxitems a < n \<Longrightarrow> grow_loop a n [] = None"
  using grow_loop_enough [of a n "[]"] by (cases "grow_loop a n []") auto

lemma store_grown:
  assumes "ka_pool_maxitems a * ka_itemsize a \<le> ka_pool_capacity a"
  shows "array_store (grown a k) = array_store a @ replicate (k * (ka_pool_maxitems a * ka_itemsize a)) 0"
proof -
  have "concat (replicate k (replicate c (0 :: byte))) = replicate (k * c) 0" for c
    by (induction k) (simp_all add: replicate_add)
  then show ?thesis using assms by (simp add: array_store_def grown_def min_absorb2)
qed

lemma array_store_buffers:
  assumes "map pl_buffer (ka_pools a) = map pl_buffer (ka_pools b)" "ka_pool_maxitems a = ka_pool_maxitems b"
    "ka_itemsize a = ka_itemsize b"
  shows "array_store a = array_store b"
proof -
  have "array_store c = concat (map (take (ka_pool_maxitems c * ka_itemsize c)) (map pl_buffer (ka_pools c)))" for c
    by (simp add: array_store_def comp_def)
  then show ?thesis using assms by metis
qed

lemma resize_cases:
  assumes "array_ok a" "0 < ka_maxitems a"
  obtains (fail) k a' os' where "kxld_array_resize a n os = Some (KERN_FAILURE, a', os')" "os \<noteq> []"
      "a' = grown a k" "array_ok a'"
  | (ok) k a' os' where "kxld_array_resize a n os = Some (KERN_SUCCESS, a', os')" "array_ok a'"
      "ka_nitems a' = n" "ka_itemsize a' = ka_itemsize a" "ka_pool_maxitems a' = ka_pool_maxitems a"
      "ka_npools a \<le> ka_npools a'"
      "array_store a' = array_store a @ replicate (k * (ka_pool_maxitems a * ka_itemsize a)) 0"
proof -
  have m: "0 < ka_pool_maxitems a" "ka_pools a \<noteq> []"
    using assms array_okD(1,5) [OF assms(1)] by (auto intro!: gr0I)
  note d = array_okD(3,4) [OF assms(1) m(2)]
  obtain ok k os' where g: "grow_loop a n os = Some (ok, grown a k, os')" "ok \<longrightarrow> n \<le> ka_maxitems (grown a k)"
    "os = [] \<longrightarrow> ok"
    using grow_loop_ends [OF m(1)] by blast
  have okg: "array_ok (grown a k)" using grown_ok [OF assms(1) m(1) d] .
  show thesis
  proof (cases ok)
    case False
    then show thesis using fail [of "grown a k" os' k] g okg by (auto simp: kxld_array_resize_def)
  next
    case True
    obtain r a' where r: "reinit_pools (grown a k) n = (r, a')" by fastforce
    have ne: "ka_pools (grown a k) \<noteq> []" using m(2) by (simp add: grown_def)
    note g' = reinit_pools_ok [OF array_okD(1) [OF okg, symmetric] _ _ array_okD(5) [OF okg] _ r]
    have side: "\<forall>p \<in> set (ka_pools (grown a k)). length (pl_buffer p) = ka_pool_capacity (grown a k)"
      "ka_pools (grown a k) \<noteq> [] \<longrightarrow> 0 < ka_itemsize (grown a k) \<and>
         ka_pool_maxitems (grown a k) = ka_pool_capacity (grown a k) div ka_itemsize (grown a k)"
      "n \<le> ka_maxitems (grown a k)"
      using okg g(2) True by (auto simp: array_ok_def)
    note g' = g' [OF side]
    have "ka_pool_maxitems a * ka_itemsize a \<le> ka_pool_capacity a" using d by simp
    from store_grown [OF this] array_store_buffers [OF g'(5) g'(9) g'(4)]
    have "array_store a' = array_store a @ replicate (k * (ka_pool_maxitems a * ka_itemsize a)) 0" by simp
    with ok [of a' os' k] g' g True r show thesis by (simp add: kxld_array_resize_def grown_def)
  qed
qed

lemma remove_chunk:
  assumes "N = x + isz + r" "N \<le> length buf" "memcpy_at buf x (take r (drop (x + isz) buf)) = Some b"
    "memcpy_at b (x + r) z = Some b'"
  shows "take (x + r) b' = take x (take N buf) @ drop (x + isz) (take N buf)"
proof -
  have b: "b = take x buf @ take r (drop (x + isz) buf) @ drop (x + r) buf"
    using assms(1-3) by (simp add: memcpy_at_def)
  have "take (x + r) b' = take (x + r) b" using assms(4) by (auto simp: memcpy_at_def split: if_splits)
  also have "\<dots> = take x buf @ take r (drop (x + isz) buf)" using assms(1,2) by (simp add: b)
  finally show ?thesis using assms(1) by (simp add: drop_take)
qed

lemma remove_cases:
  assumes "array_ok a" "idx < ka_nitems a" "ka_npools a < 2 \<or> ka_nitems a < ka_pool_maxitems a"
  obtains a' where "kxld_array_remove a idx = Some (KERN_SUCCESS, a')" "array_ok a'"
    "ka_nitems a' = ka_nitems a - 1" "ka_itemsize a' = ka_itemsize a"
    "array_bytes a' = take (idx * ka_itemsize a) (array_bytes a) @ drop ((idx + 1) * ka_itemsize a) (array_bytes a)"
proof -
  let ?n = "ka_nitems a" and ?isz = "ka_itemsize a" and ?m = "ka_pool_maxitems a"
  have "ka_pools a \<noteq> []" using assms(1,2) by (auto simp: array_ok_def)
  then obtain p ps where ps: "ka_pools a = p # ps" by (auto simp: neq_Nil_conv)
  note ok = assms(1) [unfolded array_ok_def ps]
  have nm: "?n \<le> ?m" using assms(3) ok by (auto simp: less_Suc_eq)
  have sp: "pl_nitems p = ?n" "map pl_nitems ps = replicate (length ps) 0" using ok nm by auto
  obtain r where r: "?n = idx + 1 + r" using assms(2) less_iff_Suc_add by auto
  let ?x = "idx * ?isz"
  have N: "?n * ?isz = ?x + ?isz + r * ?isz" by (simp add: r algebra_simps)
  have len: "?n * ?isz \<le> length (pl_buffer p)"
    using order_trans [OF mult_le_mono1 [OF nm] slots_fit [OF assms(1), of p]] ps by simp
  let ?s = "take (r * ?isz) (drop (?x + ?isz) (pl_buffer p))"
  obtain b where b: "memcpy_at (pl_buffer p) ?x ?s = Some b" "length b = length (pl_buffer p)"
    using len N by (simp add: memcpy_at_def)
  obtain b' where b': "memcpy_at b (?x + r * ?isz) (replicate ?isz 0) = Some b'" "length b' = length b"
    using len N b(2) by (simp add: memcpy_at_def)
  let ?a = "a\<lparr>ka_pools := p\<lparr>pl_buffer := b', pl_nitems := idx + r\<rparr> # ps, ka_nitems := idx + r\<rparr>"
  have none_used: "\<forall>q \<in> set ps. pl_nitems q = 0"
  proof
    fix q assume "q \<in> set ps"
    then have "pl_nitems q \<in> set (map pl_nitems ps)" by simp
    then show "pl_nitems q = 0" unfolding sp(2) by simp
  qed
  show thesis
  proof (rule that [of ?a])
    have e: "u_sub (u_sub (pl_nitems p) idx) 1 = r" "(idx + 1) * ?isz = ?x + ?isz"
      "pl_nitems p - 1 = idx + r" "(idx + r) * ?isz = ?x + r * ?isz" "?isz * r = r * ?isz"
      "?n - 1 = idx + r"
      using sp(1) r by (simp_all add: u_sub_def algebra_simps)
    have c: "\<not> ?n \<le> idx" "\<not> \<not> (ka_npools a < 2 \<or> ?n < ?m)"
      "\<not> length (pl_buffer p) < ?x + ?isz + r * ?isz"
      using assms(2,3) len N by auto
    show "kxld_array_remove a idx = Some (KERN_SUCCESS, ?a)"
      unfolding kxld_array_remove_def Let_def ps list.case e b(1) option.case b'(1)
      using c by (simp only: if_False)
    have nm': "idx + r \<le> ?m" "idx + r \<le> ka_maxitems a" using nm r array_okD(6) [OF assms(1)] by simp_all
    have "map pl_nitems (ka_pools ?a) = spread ?m (idx + r) (ka_npools a)"
      using array_okD(1) [OF assms(1)] ps sp(2) nm'(1) by (simp add: min_absorb2)
    with ok nm'(2) b(2) b'(2) ps show "array_ok ?a" unfolding array_ok_def by simp
    have "array_bytes a = take (?n * ?isz) (pl_buffer p)"
      by (simp add: array_bytes_def ps sp(1) none_used)
    moreover have "array_bytes ?a = take (?x + r * ?isz) b'"
      by (simp add: array_bytes_def none_used flip: e(4))
    ultimately show "array_bytes ?a = take ?x (array_bytes a) @ drop ((idx + 1) * ?isz) (array_bytes a)"
      unfolding e(2) using remove_chunk [OF N len b(1) b'(1)] by simp
  qed (simp_all add: r)
qed

section \<open>Reading and writing through item pointers\<close>

text \<open>What a client of the array does with the pointer that \<open>kxld_array_get_item\<close> returns.\<close>

definition item_get :: "karray \<Rightarrow> nat \<Rightarrow> byte list" where
  "item_get a idx =
     (case kxld_array_get_item a idx of None \<Rightarrow> []
      | Some (k, off) \<Rightarrow> take (ka_itemsize a) (drop off (pl_buffer (ka_pools a ! k))))"

definition item_put :: "karray \<Rightarrow> nat \<Rightarrow> byte list \<Rightarrow> karray" where
  "item_put a idx bs =
     (case kxld_array_get_item a idx of None \<Rightarrow> a
      | Some (k, off) \<Rightarrow>
          (case memcpy_at (pl_buffer (ka_pools a ! k)) off bs of None \<Rightarrow> a
           | Some b \<Rightarrow> a\<lparr>ka_pools := (ka_pools a)[k := (ka_pools a ! k)\<lparr>pl_buffer := b\<rparr>]\<rparr>))"

text \<open>
  The contract of a sequence of items of one size that are read and written in place: a
  write changes the item it is for and no other.
\<close>

locale indexed_items =
  fixes ok :: "'s \<Rightarrow> bool"
    and count :: "'s \<Rightarrow> nat"
    and fits :: "'s \<Rightarrow> 'v \<Rightarrow> bool"
    and get :: "'s \<Rightarrow> nat \<Rightarrow> 'v"
    and put :: "'s \<Rightarrow> nat \<Rightarrow> 'v \<Rightarrow> 's"
  assumes put_ok: "ok s \<Longrightarrow> i < count s \<Longrightarrow> fits s v \<Longrightarrow> ok (put s i v)"
    and put_count: "count (put s i v) = count s"
    and put_fits: "fits (put s i v) = fits s"
    and get_put: "ok s \<Longrightarrow> i < count s \<Longrightarrow> fits s v \<Longrightarrow> get (put s i v) i = v"
    and get_put_other: "ok s \<Longrightarrow> i < count s \<Longrightarrow> j < count s \<Longrightarrow> i \<noteq> j \<Longrightarrow> fits s v \<Longrightarrow>
      get (put s i v) j = get s j"
begin

text \<open>The loop of a client that sets up the items one after the other.\<close>

lemma fill_upto:
  assumes "ok s" "n \<le> count s" "\<forall>i < n. fits s (f i)"
  defines "t k \<equiv> fold (\<lambda>i s. put s i (f i)) [0..<k] s"
  shows "ok (t n) \<and> count (t n) = count s \<and> fits (t n) = fits s \<and>
    (\<forall>i < count s. get (t n) i = (if i < n then f i else get s i))"
  using assms(2,3)
proof (induction n)
  case 0
  with assms(1) show ?case by (simp add: t_def)
next
  case (Suc n)
  then have IH: "ok (t n)" "count (t n) = count s" "fits (t n) = fits s"
    "\<forall>i < count s. get (t n) i = (if i < n then f i else get s i)" by simp_all
  have t: "t (Suc n) = put (t n) n (f n)" by (simp add: t_def)
  have n: "n < count (t n)" "fits (t n) (f n)" using Suc.prems IH(2,3) by simp_all
  show ?case
    using IH Suc.prems put_ok [OF IH(1) n] get_put [OF IH(1) n] get_put_other [OF IH(1) n(1) _ _ n(2)]
    by (auto simp: t put_count put_fits less_Suc_eq)
qed

lemma put_commute:
  assumes "ok s" "i < count s" "j < count s" "i \<noteq> j" "fits s v" "fits s w" "k < count s"
  shows "get (put (put s i v) j w) k = get (put (put s j w) i v) k"
  using assms
  by (cases "k = i"; cases "k = j") (simp_all add: get_put get_put_other put_ok put_count put_fits)

end

lemma memcpy_at_nth:
  "memcpy_at dst off src = Some b \<Longrightarrow> i < length b \<Longrightarrow>
     b ! i = (if off \<le> i \<and> i < off + length src then src ! (i - off) else dst ! i)"
  by (auto simp: memcpy_at_def nth_append min_def not_less split: if_splits)

lemma memcpy_at_same:
  "memcpy_at dst off src = Some b \<Longrightarrow> take (length src) (drop off b) = src"
  by (auto simp: memcpy_at_def split: if_splits)

lemma memcpy_at_apart:
  assumes "memcpy_at dst off src = Some b" "off + length src \<le> o' \<or> o' + n \<le> off"
  shows "take n (drop o' b) = take n (drop o' dst)"
proof (rule nth_equalityI)
  have len: "length b = length dst" using assms(1) by (auto simp: memcpy_at_def split: if_splits)
  then show "length (take n (drop o' b)) = length (take n (drop o' dst))" by simp
  fix i assume "i < length (take n (drop o' b))"
  then show "take n (drop o' b) ! i = take n (drop o' dst) ! i"
    using assms len by (auto simp: memcpy_at_nth [OF assms(1)])
qed

lemma item_put_ok:
  assumes "array_ok a" "idx < ka_nitems a" "length bs = ka_itemsize a"
  obtains b where "memcpy_at (pl_buffer (ka_pools a ! (idx div ka_pool_maxitems a)))
      (ka_itemsize a * (idx mod ka_pool_maxitems a)) bs = Some b"
    "item_put a idx bs = a\<lparr>ka_pools := (ka_pools a)[idx div ka_pool_maxitems a :=
       (ka_pools a ! (idx div ka_pool_maxitems a))\<lparr>pl_buffer := b\<rparr>]\<rparr>"
    "array_ok (item_put a idx bs)"
proof -
  let ?k = "idx div ka_pool_maxitems a" and ?off = "ka_itemsize a * (idx mod ka_pool_maxitems a)"
  have max: "idx < ka_maxitems a" using assms(2) array_okD(6) [OF assms(1)] by simp
  note s = slot_in_pool [OF assms(1) max]
  have p: "ka_pools a ! ?k \<in> set (ka_pools a)" using s(1) by simp
  have "?off + length bs \<le> length (pl_buffer (ka_pools a ! ?k))"
    using s(3) slots_fit [OF assms(1) p] assms(3) by linarith
  then obtain b where b: "memcpy_at (pl_buffer (ka_pools a ! ?k)) ?off bs = Some b"
    "length b = length (pl_buffer (ka_pools a ! ?k))"
    by (auto simp: memcpy_at_def)
  then have put: "item_put a idx bs = a\<lparr>ka_pools := (ka_pools a)[?k := (ka_pools a ! ?k)\<lparr>pl_buffer := b\<rparr>]\<rparr>"
    by (simp add: item_put_def get_item_eq [OF assms(1,2)])
  have "map pl_nitems ((ka_pools a)[?k := (ka_pools a ! ?k)\<lparr>pl_buffer := b\<rparr>]) = map pl_nitems (ka_pools a)"
    using s(1) by (simp add: map_update list_update_same_conv)
  moreover have "\<forall>q \<in> set ((ka_pools a)[?k := (ka_pools a ! ?k)\<lparr>pl_buffer := b\<rparr>]).
      length (pl_buffer q) = ka_pool_capacity a"
    using array_okD(2) [OF assms(1)] b(2) p by (auto dest!: set_update_subset_insert [THEN subsetD])
  ultimately have "array_ok (item_put a idx bs)"
    using assms(1) by (auto simp: array_ok_def put)
  with b put that show thesis by blast
qed

lemma item_put_shape [simp]:
  "ka_nitems (item_put a idx bs) = ka_nitems a" "ka_itemsize (item_put a idx bs) = ka_itemsize a"
  by (simp_all add: item_put_def split: option.splits prod.splits)

lemma item_get_eq:
  "array_ok a \<Longrightarrow> idx < ka_nitems a \<Longrightarrow> item_get a idx =
     take (ka_itemsize a) (drop (ka_itemsize a * (idx mod ka_pool_maxitems a))
       (pl_buffer (ka_pools a ! (idx div ka_pool_maxitems a))))"
  by (simp add: item_get_def get_item_eq)

lemma item_get_put_same:
  assumes "array_ok a" "i < ka_nitems a" "length bs = ka_itemsize a"
  shows "item_get (item_put a i bs) i = bs"
proof (rule item_put_ok [OF assms])
  fix b assume b: "memcpy_at (pl_buffer (ka_pools a ! (i div ka_pool_maxitems a)))
      (ka_itemsize a * (i mod ka_pool_maxitems a)) bs = Some b"
    "item_put a i bs = a\<lparr>ka_pools := (ka_pools a)[i div ka_pool_maxitems a :=
       (ka_pools a ! (i div ka_pool_maxitems a))\<lparr>pl_buffer := b\<rparr>]\<rparr>"
    "array_ok (item_put a i bs)"
  have "i div ka_pool_maxitems a < length (ka_pools a)"
    using slot_in_pool(1) [OF assms(1)] assms(2) array_okD(6) [OF assms(1)] by simp
  then show ?thesis
    using memcpy_at_same [OF b(1)] assms(2,3) by (simp add: item_get_eq [OF b(3)]) (simp add: b(2))
qed

lemma item_get_put_other:
  assumes "array_ok a" "i < ka_nitems a" "j < ka_nitems a" "i \<noteq> j" "length bs = ka_itemsize a"
  shows "item_get (item_put a i bs) j = item_get a j"
proof (rule item_put_ok [OF assms(1,2,5)])
  let ?m = "ka_pool_maxitems a" and ?isz = "ka_itemsize a"
  fix b assume b: "memcpy_at (pl_buffer (ka_pools a ! (i div ?m))) (?isz * (i mod ?m)) bs = Some b"
    "item_put a i bs = a\<lparr>ka_pools := (ka_pools a)[i div ?m := (ka_pools a ! (i div ?m))\<lparr>pl_buffer := b\<rparr>]\<rparr>"
    "array_ok (item_put a i bs)"
  show ?thesis
  proof (cases "i div ?m = j div ?m")
    case False
    then show ?thesis
      using assms(3) by (simp add: item_get_eq [OF b(3)] item_get_eq [OF assms(1)]) (simp add: b(2))
  next
    case True
    have "i mod ?m \<noteq> j mod ?m" using True assms(4) by (metis div_mult_mod_eq)
    then have "Suc (i mod ?m) \<le> j mod ?m \<or> Suc (j mod ?m) \<le> i mod ?m" by arith
    then have "?isz * Suc (i mod ?m) \<le> ?isz * (j mod ?m) \<or> ?isz * Suc (j mod ?m) \<le> ?isz * (i mod ?m)"
      using mult_le_mono2 by blast
    then have "?isz * (i mod ?m) + length bs \<le> ?isz * (j mod ?m) \<or> ?isz * (j mod ?m) + ?isz \<le> ?isz * (i mod ?m)"
      using assms(5) by (simp add: add.commute)
    note apart = memcpy_at_apart [OF b(1) this]
    have "j div ?m < length (ka_pools a)"
      using slot_in_pool(1) [OF assms(1)] assms(3) array_okD(6) [OF assms(1)] by simp
    with True apart assms(3) show ?thesis
      by (simp add: item_get_eq [OF b(3)] item_get_eq [OF assms(1)]) (simp add: b(2))
  qed
qed

interpretation items: indexed_items array_ok ka_nitems "\<lambda>a bs. length bs = ka_itemsize a" item_get item_put
proof unfold_locales
  fix s :: karray and i and v :: "byte list"
  assume "array_ok s" "i < ka_nitems s" "length v = ka_itemsize s"
  then show "array_ok (item_put s i v)" by (rule item_put_ok)
qed (simp_all add: item_get_put_same item_get_put_other)

section \<open>Reachable arrays\<close>

text \<open>
  What a client can make of zeroed arrays with the operations of the interface. Two uses are
  left out: a \<open>kxld_array_copy\<close> that has failed, which leaves the new item size in an array of
  the old pools, and a \<open>kxld_array_resize\<close> of an array without room for any item, which has no
  item size yet.
\<close>

inductive array_reach :: "nat \<Rightarrow> karray \<Rightarrow> bool" for pg :: nat where
  zero: "array_reach pg array_zero"
| init: "array_reach pg a \<Longrightarrow> kxld_array_init pg a isz n os = Some (r, a', os') \<Longrightarrow> array_reach pg a'"
| copy: "array_reach pg a \<Longrightarrow> array_reach pg b \<Longrightarrow> kxld_array_copy pg a b os = Some (KERN_SUCCESS, a', os') \<Longrightarrow>
    array_reach pg a'"
| reset: "array_reach pg a \<Longrightarrow> array_reach pg (kxld_array_reset a)"
| clear: "array_reach pg a \<Longrightarrow> array_reach pg (kxld_array_clear a)"
| deinit: "array_reach pg a \<Longrightarrow> array_reach pg (kxld_array_deinit a)"
| resize: "array_reach pg a \<Longrightarrow> 0 < ka_maxitems a \<Longrightarrow> kxld_array_resize a n os = Some (r, a', os') \<Longrightarrow>
    array_reach pg a'"
| remove: "array_reach pg a \<Longrightarrow> kxld_array_remove a idx = Some (r, a') \<Longrightarrow> array_reach pg a'"
| put: "array_reach pg a \<Longrightarrow> idx < ka_nitems a \<Longrightarrow> length bs = ka_itemsize a \<Longrightarrow> array_reach pg (item_put a idx bs)"

lemma copy_ok:
  assumes "array_ok a" "array_ok b" "0 < pg" "kxld_array_copy pg a b os = Some (KERN_SUCCESS, a', os')"
  shows "array_ok a'"
  by (rule copy_cases [OF assms(1-3), of os]) (use assms(4) in simp_all)

lemma resize_ok:
  assumes "array_ok a" "0 < ka_maxitems a" "kxld_array_resize a n os = Some (r, a', os')"
  shows "array_ok a'"
  by (rule resize_cases [OF assms(1,2), of n os]) (use assms(3) in simp_all)

lemma remove_ok:
  assumes "array_ok a" "kxld_array_remove a idx = Some (r, a')"
  shows "array_ok a'"
proof (cases "idx < ka_nitems a \<and> (ka_npools a < 2 \<or> ka_nitems a < ka_pool_maxitems a)")
  case True
  show ?thesis
    by (rule remove_cases [OF assms(1) conjunct1 [OF True] conjunct2 [OF True]]) (use assms(2) in simp_all)
next
  case False
  then have "a' = a" using assms(2) by (auto simp: kxld_array_remove_def split: if_splits)
  with assms(1) show ?thesis by simp
qed

text \<open>An array of two pools with three items of two bytes and room for one more, for pages of four bytes.\<close>

definition two_pools :: karray where
  "two_pools = \<lparr>ka_pools = [\<lparr>pl_buffer = [1, 2, 3, 4], pl_nitems = 2\<rparr>, \<lparr>pl_buffer = [5, 6, 0, 0], pl_nitems = 1\<rparr>],
     ka_itemsize = 2, ka_pool_capacity = 4, ka_pool_maxitems = 2, ka_nitems = 3, ka_maxitems = 4, ka_npools = 2\<rparr>"

definition one_pool :: karray where
  "one_pool = \<lparr>ka_pools = [\<lparr>pl_buffer = [1, 2, 3, 4, 5, 6, 0, 0], pl_nitems = 3\<rparr>],
     ka_itemsize = 2, ka_pool_capacity = 8, ka_pool_maxitems = 4, ka_nitems = 3, ka_maxitems = 4, ka_npools = 1\<rparr>"

lemma two_pools_ok: "array_ok two_pools"
  by code_simp

lemma one_pool_ok: "array_ok one_pool"
  by code_simp



lemma concat_chunk:
  assumes "\<forall>x \<in> set xs. length x = c" "k < length xs" "o' + n \<le> c"
  shows "take n (drop (k * c + o') (concat xs)) = take n (drop o' (xs ! k))"
  using assms
proof (induction xs arbitrary: k)
  case (Cons x xs)
  show ?case
  proof (cases k)
    case (Suc j)
    with Cons show ?thesis by (simp add: add.assoc)
  qed (use Cons.prems in simp)
qed simp

lemma item_get_bytes:
  assumes "array_ok a" "idx < ka_nitems a"
  shows "item_get a idx = take (ka_itemsize a) (drop (idx * ka_itemsize a) (array_bytes a))"
proof -
  let ?m = "ka_pool_maxitems a" and ?isz = "ka_itemsize a" and ?k = "idx div ka_pool_maxitems a"
  let ?o = "?isz * (idx mod ?m)" and ?xs = "map (\<lambda>p. take (?m * ?isz) (pl_buffer p)) (ka_pools a)"
  have max: "idx < ka_maxitems a" using assms(2) array_okD(6) [OF assms(1)] by simp
  note s = slot_in_pool [OF assms(1) max]
  have "\<forall>x \<in> set ?xs. length x = ?m * ?isz" using slots_fit [OF assms(1)] by (auto simp: min_absorb2)
  from concat_chunk [OF this _ s(3), of ?k] s(1)
  have "take ?isz (drop (?k * (?m * ?isz) + ?o) (array_store a)) =
      take ?isz (drop ?o (take (?m * ?isz) (pl_buffer (ka_pools a ! ?k))))"
    by (simp add: array_store_def)
  also have "\<dots> = item_get a idx" using s(3) assms by (simp add: item_get_eq drop_take min_absorb1)
  also have "?k * (?m * ?isz) + ?o = idx * ?isz"
  proof -
    have "?k * (?m * ?isz) + ?o = (?k * ?m + idx mod ?m) * ?isz" by (simp only: distrib_left distrib_right ac_simps)
    then show ?thesis by simp
  qed
  finally have "take ?isz (drop (idx * ?isz) (array_store a)) = item_get a idx" .
  moreover have "Suc idx * ?isz \<le> ka_nitems a * ?isz" using assms(2) by (intro mult_le_mono1) simp
  then have "?isz \<le> ka_nitems a * ?isz - idx * ?isz" by simp
  ultimately show ?thesis by (simp add: array_bytes_store [OF assms(1)] drop_take min_absorb1)
qed

text \<open>
  In a well-formed array \<open>kxld_array_get_item\<close> returns an item exactly for the indices
  below the number of items; the item is \<open>itemsize\<close> bytes inside the buffer of its pool, and
  they are the bytes at that index of the items laid end to end.
\<close>

lemma get_item_in_order:
  assumes "array_ok a"
  shows "(kxld_array_get_item a idx = None \<longleftrightarrow> ka_nitems a \<le> idx) \<and>
    (\<forall>k off. kxld_array_get_item a idx = Some (k, off) \<longrightarrow>
      k < length (ka_pools a) \<and> off + ka_itemsize a \<le> length (pl_buffer (ka_pools a ! k)) \<and>
      take (ka_itemsize a) (drop off (pl_buffer (ka_pools a ! k))) =
        take (ka_itemsize a) (drop (idx * ka_itemsize a) (array_bytes a)))"
proof (intro conjI allI impI)
  show none: "kxld_array_get_item a idx = None \<longleftrightarrow> ka_nitems a \<le> idx"
    using get_item_eq [OF assms, of idx] by (cases "ka_nitems a \<le> idx") (simp_all add: kxld_array_get_item_def)
  fix k off assume g: "kxld_array_get_item a idx = Some (k, off)"
  with none have idx: "idx < ka_nitems a" by (metis leI option.distinct(1))
  with array_okD(6) [OF assms] have "idx < ka_maxitems a" by simp
  note s = slot_in_pool [OF assms this]
  have k: "k = idx div ka_pool_maxitems a" "off = ka_itemsize a * (idx mod ka_pool_maxitems a)"
    using g get_item_eq [OF assms idx] by simp_all
  have "ka_pools a ! k \<in> set (ka_pools a)" using s(1) k by simp
  with s k slots_fit [OF assms this]
  show "k < length (ka_pools a)" "off + ka_itemsize a \<le> length (pl_buffer (ka_pools a ! k))" by simp_all
  show "take (ka_itemsize a) (drop off (pl_buffer (ka_pools a ! k))) =
        take (ka_itemsize a) (drop (idx * ka_itemsize a) (array_bytes a))"
    using item_get_bytes [OF assms idx] g by (simp add: item_get_def)
qed

text \<open>
  \<open>kxld_array_get_index\<close> finds the index of the item whose pointer \<open>kxld_array_get_item\<close>
  has returned, from a pointer to any of the bytes of the item, and fails for every pointer
  that is outside the buffers.
\<close>

lemma get_index_get_item:
  assumes "array_ok a"
  shows "(\<forall>idx k off d. kxld_array_get_item a idx = Some (k, off) \<longrightarrow> d < ka_itemsize a \<longrightarrow>
      kxld_array_get_index a (k, off + d) = (KERN_SUCCESS, Some idx)) \<and>
    (\<forall>k off. length (ka_pools a) \<le> k \<or> ka_pool_capacity a \<le> off \<longrightarrow>
      kxld_array_get_index a (k, off) = (KERN_FAILURE, None))"
proof (intro conjI allI impI)
  fix idx k off d
  assume g: "kxld_array_get_item a idx = Some (k, off)" and d: "d < ka_itemsize a"
  then have idx: "idx < ka_nitems a" by (simp add: kxld_array_get_item_def split: if_splits)
  with array_okD(6) [OF assms] have "idx < ka_maxitems a" by simp
  from get_index_eq [OF assms this d] get_item_eq [OF assms idx] g
  show "kxld_array_get_index a (k, off + d) = (KERN_SUCCESS, Some idx)" by simp
qed (auto simp: kxld_array_get_index_def find_index_outside)

text \<open>
  \<open>kxld_array_init\<close> on a well-formed array that has succeeded leaves a well-formed array
  of the wanted number of items of the wanted size, and the memory of the old pools in order at
  the start of the new memory, with only zeros behind it: what the items held is kept.
\<close>

lemma init_keeps_memory:
  assumes "array_ok a" "0 < pg" "0 < nitems"
    and "kxld_array_init pg a itemsize nitems os = Some (KERN_SUCCESS, a', os')"
  shows "array_ok a' \<and> ka_nitems a' = nitems \<and> ka_itemsize a' = itemsize \<and>
    length (array_bytes a') = nitems * itemsize \<and>
    (\<exists>k. array_memory a' = array_memory a @ replicate k 0)"
proof (cases "itemsize = 0")
  case True
  then show ?thesis using assms init_trivial(2) by simp
next
  case False
  then have "0 < itemsize" by simp
  show ?thesis
    by (cases rule: array_init_cases [OF assms(1-3) \<open>0 < itemsize\<close>, of os])
      (use assms(4) in \<open>auto simp: length_array_bytes\<close>)
qed

text \<open>
  When the allocations succeed, \<open>kxld_array_init\<close> on a well-formed array writes past the
  end of its new pool exactly when the old pools hold too few items of the new size although
  they are larger than the new pool: every old pool is copied in whole, the unused rest at its
  end included, and the new pool has the size of the items alone. Arrays of at most one pool
  are safe.
\<close>

lemma init_overflow_exactly:
  assumes "array_ok a" "0 < pg" "0 < nitems" "0 < itemsize"
  shows "(kxld_array_init pg a itemsize nitems [] = None \<longleftrightarrow>
      ka_npools a * (ka_pool_capacity a div itemsize) < nitems \<and>
      round_page pg (itemsize * nitems) < ka_npools a * ka_pool_capacity a) \<and>
    (ka_npools a \<le> 1 \<longrightarrow> (\<forall>os. kxld_array_init pg a itemsize nitems os \<noteq> None))"
proof (intro conjI impI allI)
  show "kxld_array_init pg a itemsize nitems [] = None \<longleftrightarrow>
      ka_npools a * (ka_pool_capacity a div itemsize) < nitems \<and>
      round_page pg (itemsize * nitems) < ka_npools a * ka_pool_capacity a"
    by (cases rule: array_init_cases [OF assms, of "[]"]) auto
  fix os assume one: "ka_npools a \<le> 1"
  show "kxld_array_init pg a itemsize nitems os \<noteq> None"
  proof (cases rule: array_init_cases [OF assms, of os])
    case 2
    have "itemsize * nitems \<le> round_page pg (itemsize * nitems)" by (rule round_page_ge [OF assms(2)])
    with 2(3) one have "ka_npools a = 1" "itemsize * nitems \<le> ka_pool_capacity a" by (auto simp: le_Suc_eq)
    then have "nitems \<le> ka_pool_capacity a div itemsize" using assms(4) by (simp add: less_eq_div_iff_mult_less_eq mult.commute)
    with 2(2) \<open>ka_npools a = 1\<close> show ?thesis by simp
  qed simp_all
qed

definition seven_pools :: karray where
  "seven_pools = \<lparr>ka_pools = replicate 7 \<lparr>pl_buffer = [1, 2, 3, 0], pl_nitems = 1\<rparr>,
     ka_itemsize = 3, ka_pool_capacity = 4, ka_pool_maxitems = 1, ka_nitems = 7, ka_maxitems = 7, ka_npools = 7\<rparr>"

text \<open>
  C10: \<open>kxld_array_remove\<close> of an item of a well-formed array takes exactly the bytes of that item
  out of the items laid end to end and stays in the buffer; an index behind the last item
  changes nothing, and neither does an array whose items may be in several pools, which is
  refused.
\<close>

theorem remove_deletes_item:
  assumes "array_ok a"
  shows "(ka_nitems a \<le> idx \<longrightarrow> kxld_array_remove a idx = Some (KERN_SUCCESS, a)) \<and>
    (idx < ka_nitems a \<and> 2 \<le> ka_npools a \<and> ka_pool_maxitems a \<le> ka_nitems a \<longrightarrow>
      kxld_array_remove a idx = Some (KERN_NOT_SUPPORTED, a)) \<and>
    (idx < ka_nitems a \<and> (ka_npools a < 2 \<or> ka_nitems a < ka_pool_maxitems a) \<longrightarrow>
      (\<exists>a'. kxld_array_remove a idx = Some (KERN_SUCCESS, a') \<and> array_ok a' \<and>
         ka_nitems a' = ka_nitems a - 1 \<and> ka_itemsize a' = ka_itemsize a \<and>
         array_bytes a' = take (idx * ka_itemsize a) (array_bytes a) @
           drop ((idx + 1) * ka_itemsize a) (array_bytes a)))"
proof (intro conjI impI)
  assume *: "idx < ka_nitems a \<and> (ka_npools a < 2 \<or> ka_nitems a < ka_pool_maxitems a)"
  show "\<exists>a'. kxld_array_remove a idx = Some (KERN_SUCCESS, a') \<and> array_ok a' \<and>
         ka_nitems a' = ka_nitems a - 1 \<and> ka_itemsize a' = ka_itemsize a \<and>
         array_bytes a' = take (idx * ka_itemsize a) (array_bytes a) @
           drop ((idx + 1) * ka_itemsize a) (array_bytes a)"
    by (rule remove_cases [OF assms conjunct1 [OF *] conjunct2 [OF *]]) blast
qed (auto simp: kxld_array_remove_def)

theorem remove_deletes_item_witness:
  "map_option (\<lambda>(r, a). (r, array_bytes a)) (kxld_array_remove one_pool 1) = Some (KERN_SUCCESS, [1, 2, 5, 6]) \<and>
   kxld_array_remove two_pools 1 = Some (KERN_NOT_SUPPORTED, two_pools)"
proof -
  have "1 < ka_nitems one_pool" "ka_npools one_pool < 2" "ka_itemsize one_pool = 2"
    "array_bytes one_pool = [1, 2, 3, 4, 5, 6]" by code_simp+
  with remove_deletes_item [OF one_pool_ok, of 1]
  have "map_option (\<lambda>(r, a). (r, array_bytes a)) (kxld_array_remove one_pool 1) = Some (KERN_SUCCESS, [1, 2, 5, 6])"
    by auto
  moreover have "1 < ka_nitems two_pools" "2 \<le> ka_npools two_pools" "ka_pool_maxitems two_pools \<le> ka_nitems two_pools"
    by code_simp+
  with remove_deletes_item [OF two_pools_ok, of 1] have "kxld_array_remove two_pools 1 = Some (KERN_NOT_SUPPORTED, two_pools)"
    by blast
  ultimately show ?thesis by blast
qed

lemma array_init_nonempty: "array_init pg a isz n os = (KERN_SUCCESS, a', os') \<Longrightarrow> ka_pools a' \<noteq> []"
  by (auto simp: array_init_def array_fill_def Let_def split: if_splits list.splits option.splits prod.splits)

text \<open>
  \<open>kxld_array_copy\<close> between well-formed arrays never leaves a buffer; when it succeeds the
  target is one pool with the same items. When the allocations succeed it fails only for a
  source without an item size, and for a target whose only pool has exactly the size of the
  items: \<open>array_init\<close> asks for a pool that is strictly larger.
\<close>

lemma copy_same_items:
  assumes "array_ok dst" "array_ok src" "0 < pg"
  shows "\<exists>r dst' os'. kxld_array_copy pg dst src os = Some (r, dst', os') \<and>
    (r = KERN_SUCCESS \<longrightarrow> array_ok dst' \<and> array_bytes dst' = array_bytes src \<and> ka_nitems dst' = ka_nitems src \<and>
       ka_itemsize dst' = ka_itemsize src \<and> ka_npools dst' = 1) \<and>
    (os = [] \<longrightarrow> (r = KERN_SUCCESS \<longleftrightarrow> ka_itemsize src \<noteq> 0 \<and>
       \<not> (ka_npools dst = 1 \<and> ka_pool_capacity dst = ka_nitems src * ka_itemsize src \<and>
          round_page pg (ka_pool_capacity dst) = ka_pool_capacity dst)))"
proof -
  let ?b = "ka_nitems src * ka_itemsize src"
  let ?d = "if ka_npools dst > 1 \<or> round_page pg ?b > ka_npools dst * ka_pool_capacity dst
    then kxld_array_deinit dst else dst"
  obtain r dst' os' where c: "kxld_array_copy pg dst src os = Some (r, dst', os')"
    and ok: "r = KERN_SUCCESS \<longrightarrow> array_ok dst' \<and> array_bytes dst' = array_bytes src \<and>
      ka_nitems dst' = ka_nitems src \<and> ka_itemsize dst' = ka_itemsize src \<and> ka_npools dst' = 1"
    by (cases rule: copy_cases [OF assms, of os]) auto
  moreover have "r = KERN_SUCCESS \<longleftrightarrow> ka_itemsize src \<noteq> 0 \<and> \<not> (ka_npools dst = 1 \<and>
      ka_pool_capacity dst = ?b \<and> round_page pg (ka_pool_capacity dst) = ka_pool_capacity dst)" if "os = []"
  proof -
    obtain r1 a1 os1 where i: "array_init pg ?d (ka_itemsize src) (ka_nitems src) os = (r1, a1, os1)"
      by (metis prod_cases3)
    have "r = r1"
      using c i by (cases rule: copy_cases [OF assms, of os])
        (auto simp: kxld_array_copy_def Let_def fill_first_def dest: array_init_nonempty
          split: if_splits list.splits option.splits)
    moreover have "r1 = KERN_SUCCESS \<longleftrightarrow> ka_itemsize src \<noteq> 0 \<and> (ka_pools ?d = [] \<or> ?b < ka_pool_capacity ?d)"
      using i that array_okD(1) [OF assms(1)]
      by (auto simp: array_init_def Let_def kxld_array_deinit_def array_zero_def pool_create_def mult.commute
          neq_Nil_conv split: if_splits list.splits)
    moreover have "ka_pools ?d = [] \<or> ?b < ka_pool_capacity ?d \<longleftrightarrow> \<not> (ka_npools dst = 1 \<and>
      ka_pool_capacity dst = ?b \<and> round_page pg (ka_pool_capacity dst) = ka_pool_capacity dst)"
      using round_page_ge [OF assms(3), of ?b] array_okD(1) [OF assms(1)]
      by (cases "ka_pools dst") (auto simp: kxld_array_deinit_def array_zero_def)
    ultimately show ?thesis by blast
  qed
  ultimately show ?thesis by blast
qed

definition full_pool :: karray where
  "full_pool = one_pool\<lparr>ka_pools := [\<lparr>pl_buffer = [1, 2, 3, 4, 5, 6, 7, 8], pl_nitems = 4\<rparr>], ka_nitems := 4\<rparr>"



text \<open>
  The pointers that \<open>kxld_array_get_item\<close> returns for different items of a well-formed
  array do not overlap: a loop that writes the items one after the other through them leaves
  in each item what it wrote there and every later item as it was, and the array well formed.
\<close>

lemma items_written_in_order:
  assumes "array_ok a" "n \<le> ka_nitems a" "\<forall>i < n. length (f i) = ka_itemsize a"
  shows "array_ok (fold (\<lambda>i a. item_put a i (f i)) [0..<n] a) \<and>
    (\<forall>i < ka_nitems a. item_get (fold (\<lambda>i a. item_put a i (f i)) [0..<n] a) i =
       (if i < n then f i else item_get a i))"
  using items.fill_upto [OF assms] by blast

end
