(* ===== verification/Kxld_Dict.thy ===== *)
theory Kxld_Dict
  imports Kxld_Array
begin

text \<open>
  The hash table of \<open>libkxld\<close> (\<open>kxld_dict.c\<close>), with linear probing and with buckets that
  removals mark as deleted. The buckets are the items of a \<open>KXLDArray\<close> of at most one pool;
  the model keeps the entries that its memory holds, those behind the last item too, and
  \<open>Dict_Store\<close> shows that this is what the array does. A key is what its pointer points at, and \<open>None\<close> is
  \<open>NULL\<close>. A result \<open>None\<close> of an operation stands for a call through a null pointer or a loop
  that has not ended within its bound.
\<close>

section \<open>Types\<close>

datatype entry_state = EMPTY | USED | DELETED

record ('k, 'v) dict_entry =
  de_key :: "'k option"
  de_value :: "'v option"
  de_state :: entry_state

definition empty_entry :: "('k, 'v) dict_entry" where
  \<comment> \<open>an entry of zeros\<close>
  "empty_entry = \<lparr>de_key = None, de_value = None, de_state = EMPTY\<rparr>"

text \<open>The array of the entries: what its memory holds, and the number of its items.\<close>

record ('k, 'v) buckets =
  bk_slots :: "('k, 'v) dict_entry list"
  bk_nitems :: nat

record ('k, 'v) dict =
  kd_buckets :: "('k, 'v) buckets"
  kd_resize_buckets :: "('k, 'v) buckets"
  kd_hash :: "(nat \<Rightarrow> 'k \<Rightarrow> nat) option"
  kd_cmp :: "('k option \<Rightarrow> 'k \<Rightarrow> bool) option"
  kd_num_entries :: nat
  kd_resize_threshold :: nat

definition RESIZE_THRESHOLD :: "nat \<Rightarrow> nat" where
  "RESIZE_THRESHOLD x = (x * 7 mod 2 ^ 32) div 10"

definition MIN_BUCKETS :: "nat \<Rightarrow> nat" where
  "MIN_BUCKETS x = (x * 10 mod 2 ^ 32) div 7"

definition DEFAULT_DICT_SIZE :: nat where
  "DEFAULT_DICT_SIZE = 89"

definition DICT_ENTRY_SIZE :: nat where
  "DICT_ENTRY_SIZE = 24"

section \<open>The array of the buckets\<close>

definition bk_get :: "('k, 'v) buckets \<Rightarrow> nat \<Rightarrow> ('k, 'v) dict_entry option" where
  "bk_get b idx = (if idx \<ge> bk_nitems b then None else Some (bk_slots b ! idx))"

definition bk_put :: "('k, 'v) buckets \<Rightarrow> nat \<Rightarrow> ('k, 'v) dict_entry \<Rightarrow> ('k, 'v) buckets" where
  "bk_put b idx e = b\<lparr>bk_slots := (bk_slots b)[idx := e]\<rparr>"

definition bk_clear :: "('k, 'v) buckets \<Rightarrow> ('k, 'v) buckets" where
  "bk_clear b = \<lparr>bk_slots = map (\<lambda>_. empty_entry) (bk_slots b), bk_nitems = 0\<rparr>"

text \<open>\<open>kxld_array_init\<close> for a number of entries that is not zero.\<close>

definition bk_init :: "nat \<Rightarrow> ('k, 'v) buckets \<Rightarrow> nat \<Rightarrow> outcomes \<Rightarrow> kern_return \<times> ('k, 'v) buckets \<times> outcomes" where
  "bk_init pg b n os =
     (if n \<le> length (bk_slots b) then (KERN_SUCCESS, b\<lparr>bk_nitems := n\<rparr>, os)
      else
        let capacity = round_page pg (DICT_ENTRY_SIZE * n) in
        (case pool_create capacity os of
           (None, os) \<Rightarrow> (KERN_RESOURCE_SHORTAGE, \<lparr>bk_slots = [], bk_nitems = 0\<rparr>, os)
         | (Some _, os) \<Rightarrow>
             (KERN_SUCCESS,
              \<lparr>bk_slots = bk_slots b @ replicate (capacity div DICT_ENTRY_SIZE - length (bk_slots b)) empty_entry,
               bk_nitems = n\<rparr>, os)))"

section \<open>Construction\<close>

function grow_buckets :: "nat \<Rightarrow> nat \<Rightarrow> nat" where
  "grow_buckets min_buckets n = (if min_buckets > n then grow_buckets min_buckets (n * 2 + 1) else n)"
  by auto
termination
  by (relation "measure (\<lambda>(m, n). m - n)") auto

declare grow_buckets.simps [simp del]

definition kxld_dict_init :: "nat \<Rightarrow> ('k, 'v) dict \<Rightarrow> (nat \<Rightarrow> 'k \<Rightarrow> nat) \<Rightarrow> ('k option \<Rightarrow> 'k \<Rightarrow> bool) \<Rightarrow>
    nat \<Rightarrow> outcomes \<Rightarrow> kern_return \<times> ('k, 'v) dict \<times> outcomes" where
  "kxld_dict_init pg d hash cmp num_entries os =
     (let num_buckets = grow_buckets (MIN_BUCKETS num_entries) DEFAULT_DICT_SIZE in
      case bk_init pg (kd_buckets d) num_buckets os of
        (r, b, os) \<Rightarrow>
          if r \<noteq> KERN_SUCCESS then (r, d\<lparr>kd_buckets := b\<rparr>, os)
          else (KERN_SUCCESS,
            d\<lparr>kd_buckets := b, kd_hash := Some hash, kd_cmp := Some cmp, kd_num_entries := 0,
              kd_resize_threshold := RESIZE_THRESHOLD num_buckets\<rparr>, os))"

definition kxld_dict_clear :: "('k, 'v) dict \<Rightarrow> ('k, 'v) dict" where
  "kxld_dict_clear d =
     d\<lparr>kd_hash := None, kd_cmp := None, kd_num_entries := 0, kd_resize_threshold := 0,
       kd_buckets := bk_clear (kd_buckets d), kd_resize_buckets := bk_clear (kd_resize_buckets d)\<rparr>"

definition kxld_dict_deinit :: "('k, 'v) dict \<Rightarrow> ('k, 'v) dict" where
  "kxld_dict_deinit d =
     d\<lparr>kd_buckets := \<lparr>bk_slots = [], bk_nitems = 0\<rparr>, kd_resize_buckets := \<lparr>bk_slots = [], bk_nitems = 0\<rparr>\<rparr>"

definition kxld_dict_get_num_entries :: "('k, 'v) dict \<Rightarrow> nat" where
  "kxld_dict_get_num_entries d = kd_num_entries d"

section \<open>Probing\<close>

text \<open>
  The two walks over the buckets. The first argument bounds the steps; the callers give the
  number of buckets. The result is \<open>Some None\<close> for \<open>KERN_FAILURE\<close>.
\<close>

fun locate_loop :: "nat \<Rightarrow> ('k, 'v) buckets \<Rightarrow> ('k option \<Rightarrow> 'k \<Rightarrow> bool) \<Rightarrow> 'k \<Rightarrow> nat \<Rightarrow> nat \<Rightarrow> nat option option" where
  "locate_loop 0 b cmp key base idx = None"
| "locate_loop (Suc f) b cmp key base idx =
     (case bk_get b idx of None \<Rightarrow> None
      | Some entry \<Rightarrow>
          if cmp (de_key entry) key then Some (Some idx)
          else if de_state entry = EMPTY then Some None
          else
            let idx = (idx + 1) mod bk_nitems b in
            if idx = base then Some None else locate_loop f b cmp key base idx)"

definition get_locate_index :: "('k, 'v) dict \<Rightarrow> 'k \<Rightarrow> nat option option" where
  "get_locate_index d key =
     (case (kd_hash d, kd_cmp d) of
        (Some hash, Some cmp) \<Rightarrow>
          let base = hash (bk_nitems (kd_buckets d)) key in
          locate_loop (bk_nitems (kd_buckets d)) (kd_buckets d) cmp key base base
      | _ \<Rightarrow> None)"

fun insert_loop :: "nat \<Rightarrow> ('k, 'v) buckets \<Rightarrow> ('k option \<Rightarrow> 'k \<Rightarrow> bool) \<Rightarrow> 'k \<Rightarrow> nat \<Rightarrow> nat \<Rightarrow> nat option option" where
  "insert_loop 0 b cmp key base idx = None"
| "insert_loop (Suc f) b cmp key base idx =
     (case bk_get b idx of None \<Rightarrow> None
      | Some entry \<Rightarrow>
          if de_state entry = USED \<and> \<not> cmp (de_key entry) key then
            let idx = (idx + 1) mod bk_nitems b in
            if base = idx then Some None else insert_loop f b cmp key base idx
          else Some (Some idx))"

definition get_insert_index :: "('k, 'v) dict \<Rightarrow> 'k \<Rightarrow> nat option option" where
  "get_insert_index d key =
     (case (kd_hash d, kd_cmp d) of
        (Some hash, Some cmp) \<Rightarrow>
          let base = hash (bk_nitems (kd_buckets d)) key in
          insert_loop (bk_nitems (kd_buckets d)) (kd_buckets d) cmp key base base
      | _ \<Rightarrow> None)"

section \<open>Lookup, insertion, removal\<close>

definition kxld_dict_find :: "('k, 'v) dict \<Rightarrow> 'k \<Rightarrow> 'v option option" where
  "kxld_dict_find d key =
     (case get_locate_index d key of None \<Rightarrow> None
      | Some None \<Rightarrow> Some None
      | Some (Some idx) \<Rightarrow> map_option de_value (bk_get (kd_buckets d) idx))"

text \<open>The part of \<open>kxld_dict_insert\<close> behind its loop.\<close>

definition insert_here :: "('k, 'v) dict \<Rightarrow> 'k \<Rightarrow> 'v option \<Rightarrow> (kern_return \<times> ('k, 'v) dict) option" where
  "insert_here d key value =
     (case get_insert_index d key of None \<Rightarrow> None
      | Some None \<Rightarrow> Some (KERN_FAILURE, d)
      | Some (Some idx) \<Rightarrow>
          (case bk_get (kd_buckets d) idx of None \<Rightarrow> None
           | Some entry \<Rightarrow>
               Some (KERN_SUCCESS,
                 if de_state entry \<noteq> USED
                 then d\<lparr>kd_num_entries := kd_num_entries d + 1,
                        kd_buckets := bk_put (kd_buckets d) idx
                          (entry\<lparr>de_key := Some key, de_state := USED, de_value := value\<rparr>)\<rparr>
                 else d\<lparr>kd_buckets := bk_put (kd_buckets d) idx (entry\<lparr>de_value := value\<rparr>)\<rparr>)))"

text \<open>
  \<open>kxld_dict_insert\<close>, \<open>resize_dict\<close> and the loop of \<open>resize_dict\<close> that inserts the old entries call
  each other; the first argument bounds the calls.
\<close>

fun insert_fuel :: "nat \<Rightarrow> nat \<Rightarrow> ('k, 'v) dict \<Rightarrow> 'k \<Rightarrow> 'v option \<Rightarrow> outcomes \<Rightarrow>
      (kern_return \<times> ('k, 'v) dict \<times> outcomes) option"
  and resize_dict :: "nat \<Rightarrow> nat \<Rightarrow> ('k, 'v) dict \<Rightarrow> outcomes \<Rightarrow> (kern_return \<times> ('k, 'v) dict \<times> outcomes) option"
  and rehash_loop :: "nat \<Rightarrow> nat \<Rightarrow> ('k, 'v) dict \<Rightarrow> nat \<Rightarrow> outcomes \<Rightarrow> (kern_return \<times> ('k, 'v) dict \<times> outcomes) option"
where
  "insert_fuel 0 pg d key value os = None"
| "insert_fuel (Suc f) pg d key value os =
     (if kd_num_entries d > kd_resize_threshold d then
        (case resize_dict f pg d os of None \<Rightarrow> None
         | Some (r, d, os) \<Rightarrow>
             if r \<noteq> KERN_SUCCESS then Some (r, d, os) else insert_fuel f pg d key value os)
      else map_option (\<lambda>(r, d). (r, d, os)) (insert_here d key value))"
| "resize_dict 0 pg d os = None"
| "resize_dict (Suc f) pg d os =
     (case bk_init pg (kd_resize_buckets d) (bk_nitems (kd_buckets d) * 2 + 1) os of
        (r, b, os) \<Rightarrow>
          if r \<noteq> KERN_SUCCESS then Some (r, d\<lparr>kd_resize_buckets := b\<rparr>, os)
          else
            (case rehash_loop f pg
                (d\<lparr>kd_buckets := b, kd_resize_buckets := kd_buckets d, kd_num_entries := 0,
                   kd_resize_threshold := RESIZE_THRESHOLD (bk_nitems b)\<rparr>) 0 os of
               None \<Rightarrow> None
             | Some (r, d, os) \<Rightarrow>
                 if r \<noteq> KERN_SUCCESS then Some (r, d, os)
                 else Some (KERN_SUCCESS, d\<lparr>kd_resize_buckets := bk_clear (kd_resize_buckets d)\<rparr>, os)))"
| "rehash_loop 0 pg d i os = None"
| "rehash_loop (Suc f) pg d i os =
     (if i < bk_nitems (kd_resize_buckets d) then
        (case bk_get (kd_resize_buckets d) i of None \<Rightarrow> None
         | Some entry \<Rightarrow>
             if de_state entry = USED then
               (case de_key entry of None \<Rightarrow> None
                | Some key \<Rightarrow>
                    (case insert_fuel f pg d key (de_value entry) os of None \<Rightarrow> None
                     | Some (r, d, os) \<Rightarrow>
                         if r \<noteq> KERN_SUCCESS then Some (r, d, os) else rehash_loop f pg d (i + 1) os))
             else rehash_loop f pg d (i + 1) os)
      else Some (KERN_SUCCESS, d, os))"

definition kxld_dict_insert :: "nat \<Rightarrow> ('k, 'v) dict \<Rightarrow> 'k \<Rightarrow> 'v option \<Rightarrow> outcomes \<Rightarrow>
    (kern_return \<times> ('k, 'v) dict \<times> outcomes) option" where
  "kxld_dict_insert pg d key value os = insert_fuel (bk_nitems (kd_buckets d) + 5) pg d key value os"

text \<open>The removed value comes back beside the dictionary.\<close>

definition kxld_dict_remove :: "('k, 'v) dict \<Rightarrow> 'k \<Rightarrow> ('v option \<times> ('k, 'v) dict) option" where
  "kxld_dict_remove d key =
     (case get_locate_index d key of None \<Rightarrow> None
      | Some None \<Rightarrow> Some (None, d)
      | Some (Some idx) \<Rightarrow>
          (case bk_get (kd_buckets d) idx of None \<Rightarrow> None
           | Some entry \<Rightarrow>
               Some (de_value entry,
                 d\<lparr>kd_buckets := bk_put (kd_buckets d) idx
                     (entry\<lparr>de_key := None, de_value := None, de_state := DELETED\<rparr>),
                   kd_num_entries := u_sub (kd_num_entries d) 1\<rparr>)))"

section \<open>The iterator\<close>

record ('k, 'v) dict_iter =
  it_idx :: nat
  it_dict :: "('k, 'v) dict"

definition kxld_dict_iterator_init :: "('k, 'v) dict \<Rightarrow> ('k, 'v) dict_iter" where
  "kxld_dict_iterator_init d = \<lparr>it_idx = 0, it_dict = d\<rparr>"

definition kxld_dict_iterator_reset :: "('k, 'v) dict_iter \<Rightarrow> ('k, 'v) dict_iter" where
  "kxld_dict_iterator_reset it = it\<lparr>it_idx := 0\<rparr>"

function iterator_walk :: "('k, 'v) buckets \<Rightarrow> nat \<Rightarrow> 'k option \<times> 'v option \<times> nat" where
  "iterator_walk b idx =
     (if idx < bk_nitems b then
        (if de_state (bk_slots b ! idx) = USED
         then (de_key (bk_slots b ! idx), de_value (bk_slots b ! idx), idx + 1)
         else iterator_walk b (idx + 1))
      else (None, None, idx))"
  by auto
termination
  by (relation "measure (\<lambda>(b, idx). bk_nitems b - idx)") auto

declare iterator_walk.simps [simp del]

definition kxld_dict_iterator_get_next :: "('k, 'v) dict_iter \<Rightarrow> 'k option \<times> 'v option \<times> ('k, 'v) dict_iter" where
  "kxld_dict_iterator_get_next it =
     (case iterator_walk (kd_buckets (it_dict it)) (it_idx it) of
        (k, v, idx) \<Rightarrow> (k, v, it\<lparr>it_idx := idx\<rparr>))"

section \<open>Hashes and comparisons\<close>

text \<open>
  A string key is the bytes before its terminating zero. A \<open>char\<close> is signed, so that the
  byte enters the hash with its sign.
\<close>

fun string_hash_loop :: "32 word \<Rightarrow> byte list \<Rightarrow> 32 word" where
  "string_hash_loop hash_val [] = hash_val"
| "string_hash_loop hash_val (c # cs) = string_hash_loop ((push_bit 5 hash_val + hash_val) XOR scast c) cs"

definition kxld_dict_string_hash :: "nat \<Rightarrow> byte list \<Rightarrow> nat" where
  "kxld_dict_string_hash nitems key = unat (string_hash_loop 5381 key) mod nitems"

definition kxld_dict_uint32_hash :: "nat \<Rightarrow> 32 word \<Rightarrow> nat" where
  "kxld_dict_uint32_hash nitems key = unat key mod nitems"

definition kxld_dict_kxldaddr_hash :: "nat \<Rightarrow> 64 word \<Rightarrow> nat" where
  "kxld_dict_kxldaddr_hash nitems key = unat key mod nitems"

definition kxld_dict_string_cmp :: "byte list option \<Rightarrow> byte list \<Rightarrow> bool" where
  "kxld_dict_string_cmp key1 key2 = (case key1 of None \<Rightarrow> False | Some a \<Rightarrow> a = key2)"

definition kxld_dict_uint32_cmp :: "32 word option \<Rightarrow> 32 word \<Rightarrow> bool" where
  "kxld_dict_uint32_cmp key1 key2 = (case key1 of None \<Rightarrow> False | Some a \<Rightarrow> a = key2)"

definition kxld_dict_kxldaddr_cmp :: "64 word option \<Rightarrow> 64 word \<Rightarrow> bool" where
  "kxld_dict_kxldaddr_cmp key1 key2 = (case key1 of None \<Rightarrow> False | Some a \<Rightarrow> a = key2)"

end
