(* ===== verification/Kxld_Dict_Correct.thy ===== *)
theory Kxld_Dict_Correct
  imports Kxld_Dict
begin

text \<open>
  The dictionary implements a finite map. The contract between a dictionary and the hash and
  comparison functions that its user gives is the locale \<open>dict_keys\<close>, with the three pairs of functions of
  \<open>kxld_dict.c\<close> as interpretations; in it, the invariant of the buckets, and what each
  operation does to the map. A table with deleted buckets can hold a key twice after an
  insertion, and a theorem shows what comes of it.
\<close>

section \<open>Walks over the buckets\<close>

text \<open>Both probing loops stop at the first bucket, in the order of the probes, that satisfies a test.\<close>

fun walk :: "nat \<Rightarrow> (nat \<Rightarrow> bool) \<Rightarrow> nat \<Rightarrow> nat \<Rightarrow> nat \<Rightarrow> nat option option" where
  "walk 0 S n base idx = None"
| "walk (Suc f) S n base idx =
     (if S idx then Some (Some idx)
      else if (idx + 1) mod n = base then Some None else walk f S n base ((idx + 1) mod n))"

text \<open>The bucket of the \<open>j\<close>-th probe that starts at \<open>h\<close>.\<close>

definition probe :: "nat \<Rightarrow> nat \<Rightarrow> nat \<Rightarrow> nat" where
  "probe n h j = (h + j) mod n"

lemma probe_less [simp]: "0 < n \<Longrightarrow> probe n h j < n"
  by (simp add: probe_def)

lemma probe_0 [simp]: "h < n \<Longrightarrow> probe n h 0 = h"
  by (simp add: probe_def)

lemma probe_Suc: "(probe n h j + 1) mod n = probe n h (Suc j)"
  by (simp add: probe_def mod_simps)

lemma probe_base: "h < n \<Longrightarrow> j < n \<Longrightarrow> probe n h (Suc j) = h \<longleftrightarrow> Suc j = n"
  by (cases "h + Suc j < n") (auto simp: probe_def mod_if)

lemma probe_surj:
  assumes "h < n" "i < n"
  obtains j where "j < n" "i = probe n h j"
proof (cases "h \<le> i")
  case True
  with assms that [of "i - h"] show thesis by (simp add: probe_def)
next
  case False
  with assms that [of "i + n - h"] show thesis by (simp add: probe_def)
qed

lemma walk_first:
  assumes "h < n" "j < n" "n - j \<le> f"
  shows "walk f S n h (probe n h j) = Some None \<and> (\<forall>j'. j \<le> j' \<and> j' < n \<longrightarrow> \<not> S (probe n h j')) \<or>
    (\<exists>k. j \<le> k \<and> k < n \<and> walk f S n h (probe n h j) = Some (Some (probe n h k)) \<and> S (probe n h k) \<and>
      (\<forall>j'. j \<le> j' \<and> j' < k \<longrightarrow> \<not> S (probe n h j')))"
  using assms
proof (induction f arbitrary: j)
  case (Suc f)
  show ?case
  proof (cases "S (probe n h j)")
    case True
    with Suc.prems show ?thesis by (intro disjI2 exI [of _ j]) auto
  next
    case stop: False
    show ?thesis
    proof (cases "Suc j = n")
      case True
      with Suc.prems have "probe n h (Suc j) = h" using probe_base [of h n j] by blast
      with stop True have "walk (Suc f) S n h (probe n h j) = Some None" by (simp add: probe_Suc [simplified])
      moreover have "\<forall>j'. j \<le> j' \<and> j' < n \<longrightarrow> j' = j" using True by auto
      ultimately show ?thesis using stop by metis
    next
      case False
      with Suc.prems have lt: "Suc j < n" "n - Suc j \<le> f" "probe n h (Suc j) \<noteq> h" using probe_base by auto
      then have eq: "walk (Suc f) S n h (probe n h j) = walk f S n h (probe n h (Suc j))"
        using stop by (simp add: probe_Suc [simplified])
      have split: "(\<forall>j'. j \<le> j' \<and> j' < m \<longrightarrow> \<not> S (probe n h j')) \<longleftrightarrow>
          (\<forall>j'. Suc j \<le> j' \<and> j' < m \<longrightarrow> \<not> S (probe n h j'))" for m
        using stop by (metis Suc_leD Suc_leI le_neq_implies_less)
      from Suc.IH [OF Suc.prems(1) lt(1,2)] show ?thesis unfolding eq split
        using Suc_leD by blast
    qed
  qed
qed simp

lemma walk_from:
  assumes "h < n"
  obtains "walk n S n h h = Some None" "\<forall>i < n. \<not> S i"
  | k where "k < n" "walk n S n h h = Some (Some (probe n h k))" "S (probe n h k)"
      "\<forall>j < k. \<not> S (probe n h j)"
proof -
  have "\<forall>i < n. \<not> S i" if "\<forall>j' < n. \<not> S (probe n h j')" using that probe_surj [OF assms] by metis
  with walk_first [of h n 0 n S] assms that show thesis by auto
qed

definition items :: "('k, 'v) buckets \<Rightarrow> ('k, 'v) dict_entry list" where
  "items b = take (bk_nitems b) (bk_slots b)"

definition bk_ok :: "('k, 'v) buckets \<Rightarrow> bool" where
  "bk_ok b \<longleftrightarrow> bk_nitems b \<le> length (bk_slots b)"

lemma length_items: "bk_ok b \<Longrightarrow> length (items b) = bk_nitems b"
  by (simp add: items_def bk_ok_def)

lemma bk_get_items: "bk_get b i = (if i < bk_nitems b then Some (items b ! i) else None)"
  by (simp add: bk_get_def items_def)

lemma bk_put_simps:
  "bk_nitems (bk_put b i e) = bk_nitems b" "bk_ok (bk_put b i e) = bk_ok b"
  "items (bk_put b i e) = (items b)[i := e]"
  by (simp_all add: bk_put_def bk_ok_def items_def take_update_swap)

lemma locate_walk:
  assumes "h < bk_nitems b" "idx < bk_nitems b"
  shows "locate_loop f b cmp key h idx =
    map_option (\<lambda>r. case r of None \<Rightarrow> None | Some i \<Rightarrow> if cmp (de_key (items b ! i)) key then Some i else None)
      (walk f (\<lambda>i. cmp (de_key (items b ! i)) key \<or> de_state (items b ! i) = EMPTY) (bk_nitems b) h idx)"
  using assms(2)
proof (induction f arbitrary: idx)
  case (Suc f)
  with assms(1) show ?case by (auto simp: bk_get_items Let_def)
qed simp

lemma insert_walk:
  assumes "h < bk_nitems b" "idx < bk_nitems b"
  shows "insert_loop f b cmp key h idx =
    walk f (\<lambda>i. cmp (de_key (items b ! i)) key \<or> de_state (items b ! i) \<noteq> USED) (bk_nitems b) h idx"
  using assms(2)
proof (induction f arbitrary: idx)
  case (Suc f)
  with assms(1) show ?case by (auto simp: bk_get_items Let_def)
qed simp

section \<open>The map of the buckets\<close>

definition holds :: "('k, 'v) dict_entry list \<Rightarrow> 'k \<Rightarrow> nat \<Rightarrow> bool" where
  "holds es key i \<longleftrightarrow> i < length es \<and> de_state (es ! i) = USED \<and> de_key (es ! i) = Some key"

fun entries_map :: "('k, 'v) dict_entry list \<Rightarrow> 'k \<Rightarrow> 'v option" where
  "entries_map [] key = None"
| "entries_map (e # es) key =
     (if de_state e = USED \<and> de_key e = Some key then de_value e else entries_map es key)"

definition dict_map :: "('k, 'v) dict \<Rightarrow> 'k \<Rightarrow> 'v option" where
  "dict_map d = entries_map (items (kd_buckets d))"

fun used_count :: "('k, 'v) dict_entry list \<Rightarrow> nat" where
  "used_count [] = 0"
| "used_count (e # es) = (if de_state e = USED then 1 else 0) + used_count es"

definition dict_keys_once :: "('k, 'v) dict_entry list \<Rightarrow> bool" where
  "dict_keys_once es \<longleftrightarrow> (\<forall>key i j. holds es key i \<longrightarrow> holds es key j \<longrightarrow> i = j)"

lemma entries_map_holds:
  assumes "dict_keys_once es" "holds es key i"
  shows "entries_map es key = de_value (es ! i)"
  using assms
proof (induction es arbitrary: i)
  case (Cons e es)
  have shift: "holds (e # es) k (Suc j) = holds es k j" for k j by (simp add: holds_def)
  have once: "dict_keys_once es"
    using Cons.prems(1) unfolding dict_keys_once_def by (metis shift Suc_inject)
  show ?case
  proof (cases "holds (e # es) key 0")
    case True
    with Cons.prems have "i = 0" unfolding dict_keys_once_def by blast
    with True show ?thesis by (simp add: holds_def)
  next
    case False
    with Cons.prems(2) obtain j where j: "i = Suc j" by (cases i) auto
    with Cons.IH [OF once] Cons.prems(2) shift False show ?thesis by (auto simp: holds_def)
  qed
qed (simp add: holds_def)

lemma entries_map_none: "\<forall>i. \<not> holds es key i \<Longrightarrow> entries_map es key = None"
proof (induction es)
  case (Cons e es)
  have "\<not> holds es key i" for i using Cons.prems [THEN spec, of "Suc i"] by (simp add: holds_def)
  with Cons.IH Cons.prems [THEN spec, of 0] show ?case by (auto simp: holds_def)
qed simp

lemma used_count_update:
  "i < length es \<Longrightarrow> used_count (es[i := e]) + (if de_state (es ! i) = USED then 1 else 0) =
     used_count es + (if de_state e = USED then 1 else 0)"
proof (induction es arbitrary: i)
  case (Cons x es)
  then show ?case by (cases i) auto
qed simp

lemma used_count_le: "used_count es \<le> length es"
  by (induction es) auto

lemma used_count_full: "\<forall>i < length es. de_state (es ! i) = USED \<Longrightarrow> used_count es = length es"
  by (induction es) (auto simp: nth_Cons split: nat.splits)

section \<open>The invariant\<close>

text \<open>
  Every used bucket is on the walk of its key, with no empty bucket before it; the others hold
  no key; no key is held twice.
\<close>

definition entry_reached :: "(nat \<Rightarrow> 'k \<Rightarrow> nat) \<Rightarrow> ('k, 'v) dict_entry list \<Rightarrow> nat \<Rightarrow> bool" where
  "entry_reached hash es i \<longleftrightarrow>
     (case de_key (es ! i) of None \<Rightarrow> False
      | Some key \<Rightarrow> \<exists>j < length es. i = probe (length es) (hash (length es) key) j \<and>
          (\<forall>j' < j. de_state (es ! probe (length es) (hash (length es) key) j') \<noteq> EMPTY))"

definition entries_ok :: "(nat \<Rightarrow> 'k \<Rightarrow> nat) \<Rightarrow> ('k, 'v) dict_entry list \<Rightarrow> bool" where
  "entries_ok hash es \<longleftrightarrow> dict_keys_once es \<and>
     (\<forall>i < length es. if de_state (es ! i) = USED then entry_reached hash es i else de_key (es ! i) = None)"

definition table_ok :: "(nat \<Rightarrow> 'k \<Rightarrow> nat) \<Rightarrow> ('k option \<Rightarrow> 'k \<Rightarrow> bool) \<Rightarrow> ('k, 'v) dict \<Rightarrow> bool" where
  "table_ok hash cmp d \<longleftrightarrow>
     kd_hash d = Some hash \<and> kd_cmp d = Some cmp \<and> bk_ok (kd_buckets d) \<and> 0 < bk_nitems (kd_buckets d) \<and>
     entries_ok hash (items (kd_buckets d)) \<and> kd_num_entries d = used_count (items (kd_buckets d)) \<and>
     kd_resize_threshold d = RESIZE_THRESHOLD (bk_nitems (kd_buckets d))"

definition dict_ok :: "(nat \<Rightarrow> 'k \<Rightarrow> nat) \<Rightarrow> ('k option \<Rightarrow> 'k \<Rightarrow> bool) \<Rightarrow> ('k, 'v) dict \<Rightarrow> bool" where
  \<comment> \<open>between the operations the buckets that a resize takes are zeros\<close>
  "dict_ok hash cmp d \<longleftrightarrow> table_ok hash cmp d \<and> (\<forall>e \<in> set (bk_slots (kd_resize_buckets d)). e = empty_entry)"

definition no_deleted :: "('k, 'v) dict \<Rightarrow> bool" where
  "no_deleted d \<longleftrightarrow> (\<forall>e \<in> set (items (kd_buckets d)). de_state e \<noteq> DELETED)"

definition has_key :: "('k, 'v) dict \<Rightarrow> 'k \<Rightarrow> bool" where
  "has_key d key \<longleftrightarrow> (\<exists>e \<in> set (items (kd_buckets d)). de_state e = USED \<and> de_key e = Some key)"

lemma has_key_holds: "has_key d key \<longleftrightarrow> (\<exists>i. holds (items (kd_buckets d)) key i)"
  unfolding has_key_def holds_def by (metis in_set_conv_nth)

lemma table_okD:
  assumes "table_ok hash cmp d"
  shows "kd_hash d = Some hash" "kd_cmp d = Some cmp" "bk_ok (kd_buckets d)" "0 < bk_nitems (kd_buckets d)"
    "entries_ok hash (items (kd_buckets d))" "kd_num_entries d = used_count (items (kd_buckets d))"
    "kd_resize_threshold d = RESIZE_THRESHOLD (bk_nitems (kd_buckets d))"
    "length (items (kd_buckets d)) = bk_nitems (kd_buckets d)"
  using assms by (auto simp: table_ok_def length_items)

lemma dict_map_holds: "table_ok hash cmp d \<Longrightarrow> holds (items (kd_buckets d)) key i \<Longrightarrow>
    dict_map d key = de_value (items (kd_buckets d) ! i)"
  unfolding dict_map_def by (rule entries_map_holds) (auto dest: table_okD(5) simp: entries_ok_def)

lemma dict_map_none: "\<not> has_key d key \<Longrightarrow> dict_map d key = None"
  by (simp add: dict_map_def has_key_holds entries_map_none)

lemma threshold_less: "0 < n \<Longrightarrow> RESIZE_THRESHOLD n < n"
proof -
  assume "0 < n"
  have "n * 7 mod 2 ^ 32 \<le> n * 7" by (rule mod_less_eq_dividend)
  then have "(n * 7 mod 2 ^ 32) div 10 \<le> n * 7 div 10" by (rule div_le_mono)
  also have "\<dots> < n" using \<open>0 < n\<close> by simp
  finally show ?thesis by (simp add: RESIZE_THRESHOLD_def)
qed

text \<open>Changing one bucket.\<close>

lemma holds_update:
  "i < length es \<Longrightarrow> holds (es[i := e]) key j \<longleftrightarrow>
     (if j = i then de_state e = USED \<and> de_key e = Some key else holds es key j)"
  by (auto simp: holds_def nth_list_update)

lemma entry_reached_update:
  assumes "entry_reached hash es j" "i < length es" "de_state e \<noteq> EMPTY" "j \<noteq> i"
  shows "entry_reached hash (es[i := e]) j"
proof -
  from assms(1) obtain key k where k: "de_key (es ! j) = Some key" "k < length es"
    "j = probe (length es) (hash (length es) key) k"
    "\<forall>j' < k. de_state (es ! probe (length es) (hash (length es) key) j') \<noteq> EMPTY"
    by (auto simp: entry_reached_def split: option.splits)
  have "de_key (es[i := e] ! j) = Some key" using k(1) assms(4) by simp
  moreover have "\<forall>j' < k. de_state (es[i := e] ! probe (length es) (hash (length es) key) j') \<noteq> EMPTY"
    using k(4) assms(2,3) by (auto simp: nth_list_update)
  ultimately show ?thesis using k(2,3) unfolding entry_reached_def by auto
qed

lemma keys_once_update:
  assumes "dict_keys_once es" "i < length es" "de_key e = Some key" "\<forall>j. holds es key j \<longrightarrow> j = i"
  shows "dict_keys_once (es[i := e])"
  using assms unfolding dict_keys_once_def by (auto simp: holds_update split: if_splits)

text \<open>Two tables that hold the same keys, apart from one, with the same values.\<close>

lemma entries_map_update:
  assumes "dict_keys_once es" "dict_keys_once (es[i := e])" "i < length es"
    and "\<forall>k. k \<noteq> key \<longrightarrow> \<not> holds es k i \<and> \<not> holds (es[i := e]) k i"
    and "(if holds (es[i := e]) key i then de_value e else None) = v"
    and "\<forall>j. holds es key j \<longrightarrow> j = i"
  shows "entries_map (es[i := e]) = (entries_map es)(key := v)"
proof
  fix k
  show "entries_map (es[i := e]) k = ((entries_map es)(key := v)) k"
  proof (cases "k = key")
    case True
    show ?thesis
    proof (cases "holds (es[i := e]) key i")
      case True
      with assms entries_map_holds [OF assms(2) True] \<open>k = key\<close> show ?thesis by simp
    next
      case False
      with assms(3,6) have "\<forall>j. \<not> holds (es[i := e]) key j" by (metis holds_update)
      with False assms(5) \<open>k = key\<close> show ?thesis by (simp add: entries_map_none)
    qed
  next
    case False
    then have same: "holds (es[i := e]) k j \<longleftrightarrow> holds es k j" for j
      using assms(3,4) holds_update [OF assms(3)] by (cases "j = i") auto
    show ?thesis
    proof (cases "\<exists>j. holds es k j")
      case True
      then obtain j where j: "holds es k j" by blast
      with False assms(4) have "j \<noteq> i" by blast
      then have "de_value (es[i := e] ! j) = de_value (es ! j)" by simp
      with j same entries_map_holds [OF assms(1) j] entries_map_holds [OF assms(2)] False show ?thesis by simp
    next
      case False
      with same \<open>k \<noteq> key\<close> show ?thesis by (simp add: entries_map_none)
    qed
  qed
qed

section \<open>The contract of the hash and comparison functions\<close>

locale dict_keys =
  fixes hash :: "nat \<Rightarrow> 'k \<Rightarrow> nat"
    and cmp :: "'k option \<Rightarrow> 'k \<Rightarrow> bool"
  assumes hash_less: "0 < n \<Longrightarrow> hash n key < n"
    and cmp_null: "\<not> cmp None key"
    and cmp_some: "cmp (Some k) key \<longleftrightarrow> k = key"
begin

lemma cmp_holds:
  assumes "entries_ok hash es" "i < length es"
  shows "cmp (de_key (es ! i)) key \<longleftrightarrow> holds es key i"
proof (cases "de_state (es ! i) = USED")
  case True
  with assms(2) show ?thesis by (cases "de_key (es ! i)") (auto simp: holds_def cmp_null cmp_some)
next
  case False
  with assms have "de_key (es ! i) = None" by (auto simp: entries_ok_def)
  with False show ?thesis by (simp add: holds_def cmp_null)
qed

text \<open>A key that is held is found before any empty bucket.\<close>

lemma held_reached:
  assumes "entries_ok hash es" "holds es key i"
  obtains j where "j < length es" "i = probe (length es) (hash (length es) key) j"
    "\<forall>j' < j. de_state (es ! probe (length es) (hash (length es) key) j') \<noteq> EMPTY"
proof -
  have "i < length es" "de_state (es ! i) = USED" "de_key (es ! i) = Some key"
    using assms(2) by (simp_all add: holds_def)
  with assms(1) have "entry_reached hash es i" by (auto simp: entries_ok_def)
  then show thesis using that \<open>de_key (es ! i) = Some key\<close> by (auto simp: entry_reached_def)
qed

lemma locate_cases:
  assumes "table_ok hash cmp d"
  obtains (found) i where "get_locate_index d key = Some (Some i)" "holds (items (kd_buckets d)) key i"
  | (absent) "get_locate_index d key = Some None" "\<not> has_key d key"
proof -
  let ?b = "kd_buckets d" and ?n = "bk_nitems (kd_buckets d)"
  let ?es = "items ?b" and ?h = "hash ?n key"
  let ?S = "\<lambda>i. cmp (de_key (?es ! i)) key \<or> de_state (?es ! i) = EMPTY"
  note ok = table_okD [OF assms]
  have h: "?h < ?n" by (rule hash_less [OF ok(4)])
  have match: "cmp (de_key (?es ! i)) key \<longleftrightarrow> holds ?es key i" if "i < ?n" for i
    using cmp_holds [OF ok(5)] that ok(8) by simp
  have idx: "get_locate_index d key =
      map_option (\<lambda>r. case r of None \<Rightarrow> None | Some i \<Rightarrow> if cmp (de_key (?es ! i)) key then Some i else None)
        (walk ?n ?S ?n ?h ?h)"
    using h ok(1,2) by (simp add: get_locate_index_def Let_def locate_walk)
  from h show thesis
  proof (cases rule: walk_from [where S = ?S])
    case 1
    then have "\<not> has_key d key" using match ok(8) by (auto simp: has_key_holds holds_def)
    with 1 idx absent show thesis by simp
  next
    case (2 k)
    let ?p = "probe ?n ?h"
    have pk: "?p k < ?n" using ok(4) by simp
    show thesis
    proof (cases "cmp (de_key (?es ! ?p k)) key")
      case True
      with 2 idx match [OF pk] found show thesis by simp
    next
      case False
      with 2(3) have empty: "de_state (?es ! ?p k) = EMPTY" by simp
      have "\<not> holds ?es key i" for i
      proof
        assume i: "holds ?es key i"
        from held_reached [OF ok(5) this] obtain j where j: "j < ?n" "i = ?p j"
          "\<forall>j' < j. de_state (?es ! ?p j') \<noteq> EMPTY" by (auto simp: ok(8))
        from i have "?S (?p j)" using match ok(4) j(2) by auto
        with 2(4) have "k \<le> j" by (meson leI)
        with j(3) empty i j(2) show False by (cases "k = j") (auto simp: holds_def)
      qed
      with 2 idx False absent show thesis by (simp add: has_key_holds)
    qed
  qed
qed

lemma find_map: "table_ok hash cmp d \<Longrightarrow> kxld_dict_find d key = Some (dict_map d key)"
proof -
  assume ok: "table_ok hash cmp d"
  then show ?thesis
  proof (cases rule: locate_cases [of _ key])
    case (found i)
    moreover have "i < bk_nitems (kd_buckets d)" using found(2) table_okD(8) [OF ok] by (simp add: holds_def)
    ultimately show ?thesis by (simp add: kxld_dict_find_def bk_get_items dict_map_holds [OF ok])
  next
    case absent
    then show ?thesis by (simp add: kxld_dict_find_def dict_map_none)
  qed
qed

lemma insert_index_cases:
  assumes "table_ok hash cmp d" "used_count (items (kd_buckets d)) < bk_nitems (kd_buckets d)"
    and "no_deleted d \<or> \<not> has_key d key"
  obtains (old) i where "get_insert_index d key = Some (Some i)" "holds (items (kd_buckets d)) key i"
  | (new) j where "get_insert_index d key = Some (Some (probe (bk_nitems (kd_buckets d)) (hash (bk_nitems (kd_buckets d)) key) j))"
      "\<not> has_key d key" "j < bk_nitems (kd_buckets d)"
      "de_state (items (kd_buckets d) ! probe (bk_nitems (kd_buckets d)) (hash (bk_nitems (kd_buckets d)) key) j) \<noteq> USED"
      "\<forall>j' < j. de_state (items (kd_buckets d) ! probe (bk_nitems (kd_buckets d)) (hash (bk_nitems (kd_buckets d)) key) j') = USED"
proof -
  let ?b = "kd_buckets d" and ?n = "bk_nitems (kd_buckets d)"
  let ?es = "items ?b" and ?h = "hash ?n key"
  let ?S = "\<lambda>i. cmp (de_key (?es ! i)) key \<or> de_state (?es ! i) \<noteq> USED"
  let ?p = "probe ?n ?h"
  note ok = table_okD [OF assms(1)]
  have h: "?h < ?n" by (rule hash_less [OF ok(4)])
  have match: "cmp (de_key (?es ! i)) key \<longleftrightarrow> holds ?es key i" if "i < ?n" for i
    using cmp_holds [OF ok(5)] that ok(8) by simp
  have idx: "get_insert_index d key = walk ?n ?S ?n ?h ?h"
    using h ok(1,2) by (simp add: get_insert_index_def Let_def insert_walk)
  from h show thesis
  proof (cases rule: walk_from [where S = ?S])
    case 1
    then have "used_count ?es = ?n" using used_count_full [of ?es] ok(8) by auto
    with assms(2) show thesis by simp
  next
    case (2 k)
    have pk: "?p k < ?n" using ok(4) by simp
    show thesis
    proof (cases "holds ?es key (?p k)")
      case True
      with 2 idx old show thesis by simp
    next
      case False
      with 2(3) match [OF pk] have free: "de_state (?es ! ?p k) \<noteq> USED" by simp
      have "\<not> has_key d key"
      proof
        assume has: "has_key d key"
        then obtain i where i: "holds ?es key i" by (auto simp: has_key_holds)
        from held_reached [OF ok(5) this] obtain j where j: "j < ?n" "i = ?p j"
          "\<forall>j' < j. de_state (?es ! ?p j') \<noteq> EMPTY" by (auto simp: ok(8))
        have "?S (?p j)" using i match ok(4) j(2) by auto
        with 2(4) have "k \<le> j" by (meson leI)
        with False i j(2) have "k < j" by (cases "k = j") auto
        with j(3) have "de_state (?es ! ?p k) \<noteq> EMPTY" by blast
        moreover have "de_state (?es ! ?p k) \<noteq> DELETED"
          using has assms(3) pk ok(8) by (auto simp: no_deleted_def)
        ultimately show False using free by (cases "de_state (?es ! ?p k)") auto
      qed
      with 2 idx free show thesis by (intro new) auto
    qed
  qed
qed

lemma insert_here_map:
  assumes "table_ok hash cmp d" "used_count (items (kd_buckets d)) < bk_nitems (kd_buckets d)"
    and "no_deleted d \<or> \<not> has_key d key"
  obtains d' where "insert_here d key v = Some (KERN_SUCCESS, d')" "table_ok hash cmp d'"
    "dict_map d' = (dict_map d)(key := v)" "kd_resize_buckets d' = kd_resize_buckets d"
    "bk_nitems (kd_buckets d') = bk_nitems (kd_buckets d)"
    "kd_num_entries d' = kd_num_entries d + (if has_key d key then 0 else 1)"
    "no_deleted d \<Longrightarrow> no_deleted d'" "\<And>k. has_key d' k \<longleftrightarrow> k = key \<or> has_key d k"
proof -
  let ?b = "kd_buckets d"
  let ?es = "items ?b"
  note ok = table_okD [OF assms(1)]
  have once: "dict_keys_once ?es" using ok(5) by (simp add: entries_ok_def)
  from assms show thesis
  proof (cases rule: insert_index_cases)
    case (old i)
    let ?e = "(?es ! i)\<lparr>de_value := v\<rparr>"
    let ?d = "d\<lparr>kd_buckets := bk_put ?b i ?e\<rparr>"
    have i: "i < bk_nitems ?b" "i < length ?es" using old(2) ok(8) by (simp_all add: holds_def)
    have e: "de_key ?e = Some key" "de_state ?e = USED" using old(2) by (simp_all add: holds_def)
    have only: "\<forall>j. holds ?es key j \<longrightarrow> j = i" using old(2) once by (auto simp: dict_keys_once_def)
    have once': "dict_keys_once (?es[i := ?e])" by (rule keys_once_update [OF once i(2) e(1) only])
    have has: "has_key d key" using old(2) by (auto simp: has_key_holds)
    have same: "holds (?es[i := ?e]) k j \<longleftrightarrow> holds ?es k j" for k j
      unfolding holds_update [OF i(2)] using e old(2) by (auto simp: holds_def)
    have reach: "entry_reached hash (?es[i := ?e]) j" if "entry_reached hash ?es j" for j
    proof (cases "j = i")
      case True
      then show ?thesis using that i(2) e by (auto simp: entry_reached_def nth_list_update split: option.splits)
    qed (use entry_reached_update [OF that i(2)] e in simp)
    have "entries_ok hash (?es[i := ?e])"
      using ok(5) once' e i reach by (auto simp: entries_ok_def nth_list_update split: if_splits)
    moreover have "used_count (?es[i := ?e]) = used_count ?es"
      using used_count_update [OF i(2), of ?e] e by simp
    ultimately have dok: "table_ok hash cmp ?d"
      using assms(1) by (simp add: table_ok_def bk_put_simps)
    have "\<forall>k. k \<noteq> key \<longrightarrow> \<not> holds ?es k i \<and> \<not> holds (?es[i := ?e]) k i"
      using old(2) same by (auto simp: holds_def)
    then have m: "dict_map ?d = (dict_map d)(key := v)"
      unfolding dict_map_def using entries_map_update [OF once once' i(2) _ _ only, of v] same old(2)
      by (simp add: bk_put_simps)
    have "insert_here d key v = Some (KERN_SUCCESS, ?d)"
      using old i e by (simp add: insert_here_def bk_get_items holds_def)
    then show thesis
    proof (rule that [OF _ dok m])
      show "no_deleted d \<Longrightarrow> no_deleted ?d"
        using e by (auto simp: no_deleted_def bk_put_simps dest!: set_update_subset_insert [THEN subsetD])
      show "has_key ?d k \<longleftrightarrow> k = key \<or> has_key d k" for k
        using same has by (auto simp: has_key_holds bk_put_simps)
    qed (use has in \<open>simp_all add: bk_put_simps\<close>)
  next
    case (new j)
    let ?n = "bk_nitems ?b"
    let ?p = "probe ?n (hash ?n key)"
    let ?i = "?p j"
    let ?e = "(?es ! ?i)\<lparr>de_key := Some key, de_state := USED, de_value := v\<rparr>"
    let ?d = "d\<lparr>kd_num_entries := kd_num_entries d + 1, kd_buckets := bk_put ?b ?i ?e\<rparr>"
    have i: "?i < ?n" "?i < length ?es" using ok(4,8) by simp_all
    have none: "\<forall>j. \<not> holds ?es key j" using new(2) by (simp add: has_key_holds)
    have once': "dict_keys_once (?es[?i := ?e])" by (rule keys_once_update [OF once i(2)]) (use none in auto)
    have reach: "entry_reached hash (?es[?i := ?e]) ?i"
    proof -
      have "\<forall>j' < j. de_state (?es[?i := ?e] ! ?p j') \<noteq> EMPTY"
        using new(5) i(2) by (auto simp: nth_list_update)
      then show ?thesis using i(2) new(3) ok(8) by (auto simp: entry_reached_def)
    qed
    have "entries_ok hash (?es[?i := ?e])"
      using ok(5) once' i(2) reach entry_reached_update [OF _ i(2), of hash _ ?e]
      by (auto simp: entries_ok_def nth_list_update split: if_splits)
    moreover have "used_count (?es[?i := ?e]) = used_count ?es + 1"
      using used_count_update [OF i(2), of ?e] new(4) by simp
    ultimately have dok: "table_ok hash cmp ?d"
      using assms(1) by (simp add: table_ok_def bk_put_simps)
    have "\<forall>k. k \<noteq> key \<longrightarrow> \<not> holds ?es k ?i \<and> \<not> holds (?es[?i := ?e]) k ?i"
      using new(4) i(2) by (auto simp: holds_def)
    then have m: "dict_map ?d = (dict_map d)(key := v)"
      unfolding dict_map_def using entries_map_update [OF once once' i(2), of key v] none i(2)
      by (simp add: bk_put_simps holds_update)
    have "insert_here d key v = Some (KERN_SUCCESS, ?d)"
      using new i by (simp add: insert_here_def bk_get_items)
    then show thesis
    proof (rule that [OF _ dok m])
      show "no_deleted d \<Longrightarrow> no_deleted ?d"
        by (auto simp: no_deleted_def bk_put_simps dest!: set_update_subset_insert [THEN subsetD])
      show "has_key ?d k \<longleftrightarrow> k = key \<or> has_key d k" for k
      proof -
        have "holds (?es[?i := ?e]) k x \<longleftrightarrow> (if x = ?i then k = key else holds ?es k x)" for x
          using holds_update [OF i(2)] by auto
        moreover have "\<not> holds ?es k ?i" using new(4) by (simp add: holds_def)
        ultimately show ?thesis by (simp add: has_key_holds bk_put_simps) metis
      qed
    qed (use new in \<open>simp_all add: bk_put_simps\<close>)
  qed
qed

lemma remove_map:
  assumes "table_ok hash cmp d"
  obtains d' where "kxld_dict_remove d key = Some (dict_map d key, d')" "table_ok hash cmp d'"
    "dict_map d' = (dict_map d)(key := None)" "kd_resize_buckets d' = kd_resize_buckets d"
    "kd_num_entries d' = kd_num_entries d - (if has_key d key then 1 else 0)"
    "\<And>k. has_key d' k \<longleftrightarrow> k \<noteq> key \<and> has_key d k"
  using assms
proof (cases rule: locate_cases [of _ key])
  case absent
  then have "kxld_dict_remove d key = Some (dict_map d key, d)"
    by (simp add: kxld_dict_remove_def dict_map_none)
  moreover have "dict_map d = (dict_map d)(key := None)" using absent by (simp add: fun_eq_iff dict_map_none)
  ultimately show thesis using that [of d] assms absent by auto
next
  case (found i)
  let ?b = "kd_buckets d"
  let ?es = "items ?b"
  let ?e = "(?es ! i)\<lparr>de_key := None, de_value := None, de_state := DELETED\<rparr>"
  let ?d = "d\<lparr>kd_buckets := bk_put ?b i ?e, kd_num_entries := u_sub (kd_num_entries d) 1\<rparr>"
  note ok = table_okD [OF assms]
  have once: "dict_keys_once ?es" using ok(5) by (simp add: entries_ok_def)
  have i: "i < bk_nitems ?b" "i < length ?es" using found(2) ok(8) by (simp_all add: holds_def)
  have only: "\<forall>j. holds ?es key j \<longrightarrow> j = i" using found(2) once by (auto simp: dict_keys_once_def)
  have upd: "holds (?es[i := ?e]) k j \<longleftrightarrow> j \<noteq> i \<and> holds ?es k j" for k j
    using holds_update [OF i(2), of ?e] by auto
  have once': "dict_keys_once (?es[i := ?e])" using once unfolding dict_keys_once_def upd by blast
  have "entries_ok hash (?es[i := ?e])"
    using ok(5) once' i(2) entry_reached_update [OF _ i(2), of hash _ ?e]
    by (auto simp: entries_ok_def nth_list_update split: if_splits)
  moreover have "used_count ?es = used_count (?es[i := ?e]) + 1"
    using used_count_update [OF i(2), of ?e] found(2) by (simp add: holds_def)
  then have count: "u_sub (kd_num_entries d) 1 = kd_num_entries d - 1" "used_count (?es[i := ?e]) = kd_num_entries d - 1"
    using ok(6) by (simp_all add: u_sub_def)
  ultimately have dok: "table_ok hash cmp ?d"
    using assms by (simp add: table_ok_def bk_put_simps)
  have "\<forall>k. k \<noteq> key \<longrightarrow> \<not> holds ?es k i \<and> \<not> holds (?es[i := ?e]) k i"
    using found(2) upd by (auto simp: holds_def)
  then have m: "dict_map ?d = (dict_map d)(key := None)"
    unfolding dict_map_def using entries_map_update [OF once once' i(2) _ _ only, of None] upd
    by (simp add: bk_put_simps)
  have "kxld_dict_remove d key = Some (dict_map d key, ?d)"
    using found i by (simp add: kxld_dict_remove_def bk_get_items dict_map_holds [OF assms])
  then show thesis
  proof (rule that [OF _ dok m])
    show "has_key ?d k \<longleftrightarrow> k \<noteq> key \<and> has_key d k" for k
    proof -
      have "holds ?es k i \<longleftrightarrow> k = key" using found(2) by (auto simp: holds_def)
      moreover have "items (kd_buckets ?d) = ?es[i := ?e]" by (simp add: bk_put_simps)
      ultimately show ?thesis unfolding has_key_holds using only upd by metis
    qed
    have "has_key d key" using found(2) by (auto simp: has_key_holds)
    then show "kd_num_entries ?d = kd_num_entries d - (if has_key d key then 1 else 0)" using count by simp
  qed simp
qed

section \<open>Growing\<close>

lemma insert_no_resize:
  assumes "table_ok hash cmp d" "kd_num_entries d \<le> kd_resize_threshold d" "no_deleted d \<or> \<not> has_key d key"
  obtains d' where "insert_fuel (Suc f) pg d key v os = Some (KERN_SUCCESS, d', os)" "table_ok hash cmp d'"
    "dict_map d' = (dict_map d)(key := v)" "kd_resize_buckets d' = kd_resize_buckets d"
    "bk_nitems (kd_buckets d') = bk_nitems (kd_buckets d)"
    "kd_num_entries d' = kd_num_entries d + (if has_key d key then 0 else 1)"
    "no_deleted d \<Longrightarrow> no_deleted d'" "\<And>k. has_key d' k \<longleftrightarrow> k = key \<or> has_key d k"
proof -
  note ok = table_okD [OF assms(1)]
  have "used_count (items (kd_buckets d)) < bk_nitems (kd_buckets d)"
    using assms(2) ok(6,7) threshold_less [OF ok(4)] by simp
  then show thesis
  proof (rule insert_here_map [OF assms(1) _ assms(3)])
    fix d' assume d': "insert_here d key v = Some (KERN_SUCCESS, d')" "table_ok hash cmp d'"
      "dict_map d' = (dict_map d)(key := v)" "kd_resize_buckets d' = kd_resize_buckets d"
      "bk_nitems (kd_buckets d') = bk_nitems (kd_buckets d)"
      "kd_num_entries d' = kd_num_entries d + (if has_key d key then 0 else 1)"
      "no_deleted d \<Longrightarrow> no_deleted d'" "\<And>k. has_key d' k \<longleftrightarrow> k = key \<or> has_key d k"
    show thesis by (rule that [of d']) (use d' assms(2) in simp_all)
  qed
qed

end

lemma entries_map_snoc:
  "(\<forall>e' \<in> set es. \<not> (de_state e' = USED \<and> de_key e' = Some key)) \<Longrightarrow> de_state e = USED \<Longrightarrow> de_key e = Some key \<Longrightarrow>
    entries_map (es @ [e]) = (entries_map es)(key := de_value e)"
  by (induction es) (auto simp: fun_eq_iff)

lemma entries_map_snoc_unused: "de_state e \<noteq> USED \<Longrightarrow> entries_map (es @ [e]) = entries_map es"
  by (induction es) (auto simp: fun_eq_iff)

lemma used_count_append: "used_count (xs @ ys) = used_count xs + used_count ys"
  by (induction xs) auto

context dict_keys
begin

text \<open>What the loop of \<open>resize_dict\<close> has done before bucket \<open>i\<close> of the old buckets.\<close>

lemma rehash:
  assumes "dict_keys_once es" "\<forall>j < length es. de_state (es ! j) = USED \<longrightarrow> de_key (es ! j) \<noteq> None"
    and "used_count es \<le> T" "i \<le> length es" "length es - i < f"
    and "table_ok hash cmp d" "no_deleted d" "bk_ok (kd_resize_buckets d)" "items (kd_resize_buckets d) = es"
    and "kd_resize_threshold d = T"
    and "dict_map d = entries_map (take i es)" "kd_num_entries d = used_count (take i es)"
    and "\<And>k. has_key d k \<longleftrightarrow> (\<exists>j < i. holds es k j)"
  shows "\<exists>d'. rehash_loop f pg d i os = Some (KERN_SUCCESS, d', os) \<and> table_ok hash cmp d' \<and> no_deleted d' \<and>
    kd_resize_buckets d' = kd_resize_buckets d \<and> bk_nitems (kd_buckets d') = bk_nitems (kd_buckets d) \<and>
    dict_map d' = entries_map es \<and> kd_num_entries d' = used_count es \<and>
    (\<forall>k. has_key d' k \<longleftrightarrow> (\<exists>j. holds es k j))"
  using assms(4-)
proof (induction f arbitrary: i d)
  case (Suc f)
  note old = length_items [OF Suc.prems(5)]
  show ?case
  proof (cases "i < length es")
    case False
    with Suc.prems(1) have "i = length es" by simp
    with Suc.prems old show ?thesis by (auto simp: holds_def)
  next
    case True
    have take: "take (Suc i) es = take i es @ [es ! i]" using True by (simp add: take_Suc_conv_app_nth)
    have get: "bk_get (kd_resize_buckets d) i = Some (es ! i)" "i < bk_nitems (kd_resize_buckets d)"
      using True old Suc.prems(6) by (simp_all add: bk_get_items)
    show ?thesis
    proof (cases "de_state (es ! i) = USED")
      case unused: False
      have key: "has_key d k \<longleftrightarrow> (\<exists>j < Suc i. holds es k j)" for k
        using Suc.prems(10) unused by (auto simp: holds_def less_Suc_eq)
      have "\<exists>d'. rehash_loop f pg d (Suc i) os = Some (KERN_SUCCESS, d', os) \<and> table_ok hash cmp d' \<and> no_deleted d' \<and>
        kd_resize_buckets d' = kd_resize_buckets d \<and> bk_nitems (kd_buckets d') = bk_nitems (kd_buckets d) \<and>
        dict_map d' = entries_map es \<and> kd_num_entries d' = used_count es \<and> (\<forall>k. has_key d' k \<longleftrightarrow> (\<exists>j. holds es k j))"
        using Suc.prems True unused key
        by (intro Suc.IH) (simp_all add: take entries_map_snoc_unused used_count_append)
      with get unused show ?thesis by simp
    next
      case used: True
      with assms(2) True obtain key where key: "de_key (es ! i) = Some key" by auto
      have holds_i: "holds es key i" using used key True by (simp add: holds_def)
      have fresh: "\<not> has_key d key"
        using holds_i assms(1) Suc.prems(10) unfolding dict_keys_once_def by (metis less_irrefl)
      have count: "used_count (take (Suc i) es) = used_count (take i es) + 1"
        using used by (simp add: take used_count_append)
      have "used_count (take (Suc i) es) \<le> used_count es"
        by (metis append_take_drop_id le_add1 used_count_append)
      with count assms(3) Suc.prems(7,9) have thr: "kd_num_entries d \<le> kd_resize_threshold d" by simp
      obtain f' where f: "f = Suc f'" using Suc.prems(2) True by (cases f) auto
      obtain d1 where d1: "insert_fuel f pg d key (de_value (es ! i)) os = Some (KERN_SUCCESS, d1, os)"
        "table_ok hash cmp d1" "dict_map d1 = (dict_map d)(key := de_value (es ! i))"
        "kd_resize_buckets d1 = kd_resize_buckets d" "bk_nitems (kd_buckets d1) = bk_nitems (kd_buckets d)"
        "kd_num_entries d1 = kd_num_entries d + 1" "no_deleted d1" "\<And>k. has_key d1 k \<longleftrightarrow> k = key \<or> has_key d k"
        unfolding f using insert_no_resize [OF Suc.prems(3) thr, of key f' pg "de_value (es ! i)" os] fresh Suc.prems(4)
        by auto
      have keys: "has_key d1 k \<longleftrightarrow> (\<exists>j < Suc i. holds es k j)" for k
        using d1(8) Suc.prems(10) holds_i key by (auto simp: less_Suc_eq) (auto simp: holds_def)
      have "\<forall>e' \<in> set (take i es). \<not> (de_state e' = USED \<and> de_key e' = Some key)"
        using fresh Suc.prems(10) True by (auto simp: in_set_conv_nth holds_def)
      with used key have m: "dict_map d1 = entries_map (take (Suc i) es)"
        using d1(3) Suc.prems(8) by (simp add: take entries_map_snoc)
      have T: "kd_resize_threshold d1 = T"
        using table_okD(7) [OF d1(2)] table_okD(7) [OF Suc.prems(3)] d1(5) Suc.prems(7) by simp
      have "\<exists>d'. rehash_loop f pg d1 (Suc i) os = Some (KERN_SUCCESS, d', os) \<and> table_ok hash cmp d' \<and> no_deleted d' \<and>
        kd_resize_buckets d' = kd_resize_buckets d1 \<and> bk_nitems (kd_buckets d') = bk_nitems (kd_buckets d1) \<and>
        dict_map d' = entries_map es \<and> kd_num_entries d' = used_count es \<and> (\<forall>k. has_key d' k \<longleftrightarrow> (\<exists>j. holds es k j))"
        using Suc.prems d1 True keys m T count by (intro Suc.IH) simp_all
      with get used key d1(1,4,5) show ?thesis by simp
    qed
  qed
qed simp

end

text \<open>New buckets are all empty.\<close>

lemma used_count_none: "\<forall>e \<in> set es. de_state e \<noteq> USED \<Longrightarrow> used_count es = 0"
  by (induction es) auto

lemma bk_init_fresh:
  assumes "0 < pg" "0 < n" "\<forall>e \<in> set (bk_slots b). e = empty_entry" "bk_init pg b n os = (r, b', os')"
  shows "r = KERN_SUCCESS \<Longrightarrow> bk_ok b' \<and> bk_nitems b' = n"
    and "\<forall>e \<in> set (bk_slots b'). e = empty_entry" "r \<noteq> KERN_SUCCESS \<Longrightarrow> os \<noteq> []"
proof -
  have "24 * n \<le> round_page pg (24 * n)" by (rule round_page_ge [OF assms(1)])
  then have room: "n \<le> round_page pg (24 * n) div 24" by (simp add: less_eq_div_iff_mult_less_eq mult.commute)
  show "r = KERN_SUCCESS \<Longrightarrow> bk_ok b' \<and> bk_nitems b' = n"
    using assms(4) room by (auto simp: bk_init_def bk_ok_def DICT_ENTRY_SIZE_def Let_def split: if_splits option.splits prod.splits)
  show "\<forall>e \<in> set (bk_slots b'). e = empty_entry"
    using assms(3,4) by (auto simp: bk_init_def Let_def split: if_splits option.splits prod.splits)
  show "r \<noteq> KERN_SUCCESS \<Longrightarrow> os \<noteq> []"
    using assms(4) by (auto simp: bk_init_def Let_def pool_create_def split: if_splits)
qed

lemma fresh_table:
  assumes "\<forall>e \<in> set (bk_slots (kd_buckets d)). e = empty_entry" "bk_ok (kd_buckets d)" "0 < bk_nitems (kd_buckets d)"
    and "kd_hash d = Some hash" "kd_cmp d = Some cmp" "kd_num_entries d = 0"
    and "kd_resize_threshold d = RESIZE_THRESHOLD (bk_nitems (kd_buckets d))"
  shows "table_ok hash cmp d" "no_deleted d" "dict_map d = (\<lambda>_. None)" "\<not> has_key d k"
proof -
  have e: "\<forall>e \<in> set (items (kd_buckets d)). e = empty_entry"
    using assms(1) by (auto simp: items_def dest: in_set_takeD)
  then have s: "i < length (items (kd_buckets d)) \<Longrightarrow> items (kd_buckets d) ! i = empty_entry" for i by simp
  have none: "\<not> holds (items (kd_buckets d)) k i" for k i using s by (auto simp: holds_def empty_entry_def)
  have "used_count (items (kd_buckets d)) = 0" by (rule used_count_none) (use e in \<open>auto simp: empty_entry_def\<close>)
  with assms none s show "table_ok hash cmp d"
    by (auto simp: table_ok_def entries_ok_def dict_keys_once_def empty_entry_def)
  show "no_deleted d" using e by (auto simp: no_deleted_def empty_entry_def)
  show "dict_map d = (\<lambda>_. None)" using none by (auto simp: dict_map_def entries_map_none)
  show "\<not> has_key d k" using none by (simp add: has_key_holds)
qed

context dict_keys
begin

lemma resize_map:
  assumes "dict_ok hash cmp d" "0 < pg" "bk_nitems (kd_buckets d) * 14 + 7 < 2 ^ 32"
    and "bk_nitems (kd_buckets d) + 2 < f"
  obtains (fail) r d' os' where "resize_dict f pg d os = Some (r, d', os')" "r \<noteq> KERN_SUCCESS" "os \<noteq> []"
      "dict_ok hash cmp d'" "dict_map d' = dict_map d" "kd_num_entries d' = kd_num_entries d"
      "\<And>k. has_key d' k \<longleftrightarrow> has_key d k"
  | (ok) d' os' where "resize_dict f pg d os = Some (KERN_SUCCESS, d', os')" "dict_ok hash cmp d'" "no_deleted d'"
      "dict_map d' = dict_map d" "kd_num_entries d' = kd_num_entries d"
      "\<And>k. has_key d' k \<longleftrightarrow> has_key d k" "kd_num_entries d' \<le> kd_resize_threshold d'"
proof -
  let ?n = "bk_nitems (kd_buckets d)"
  let ?es = "items (kd_buckets d)"
  have tok: "table_ok hash cmp d" and empty: "\<forall>e \<in> set (bk_slots (kd_resize_buckets d)). e = empty_entry"
    using assms(1) by (simp_all add: dict_ok_def)
  note tk = table_okD [OF tok]
  obtain g where f: "f = Suc g" using assms(4) by (cases f) auto
  obtain r b os1 where i: "bk_init pg (kd_resize_buckets d) (?n * 2 + 1) os = (r, b, os1)" by (metis prod_cases3)
  note new = bk_init_fresh [OF assms(2) _ empty i]
  show thesis
  proof (cases "r = KERN_SUCCESS")
    case False
    let ?d = "d\<lparr>kd_resize_buckets := b\<rparr>"
    have "dict_ok hash cmp ?d" using tok new(2) by (simp add: dict_ok_def table_ok_def)
    moreover have "dict_map ?d = dict_map d" "has_key ?d k = has_key d k" for k
      by (simp_all add: dict_map_def has_key_def)
    moreover have "resize_dict f pg d os = Some (r, ?d, os1)" using i False by (simp add: f)
    ultimately show thesis using fail [of r ?d os1] False new(3) by simp
  next
    case True
    let ?T = "RESIZE_THRESHOLD (?n * 2 + 1)"
    let ?d = "d\<lparr>kd_buckets := b, kd_resize_buckets := kd_buckets d, kd_num_entries := 0,
      kd_resize_threshold := RESIZE_THRESHOLD (bk_nitems b)\<rparr>"
    have b: "bk_ok b" "bk_nitems b = ?n * 2 + 1" "\<forall>e \<in> set (bk_slots b). e = empty_entry"
      using new True by simp_all
    have "(?n * 2 + 1) * 7 mod 2 ^ 32 = ?n * 14 + 7" using assms(3) by simp
    then have "?T = (?n * 14 + 7) div 10" unfolding RESIZE_THRESHOLD_def by simp
    then have T: "?n \<le> ?T" by linarith
    with used_count_le [of ?es] tk(8) have count: "used_count ?es \<le> ?T" by simp
    have fresh: "table_ok hash cmp ?d" "no_deleted ?d" "dict_map ?d = (\<lambda>_. None)" "\<And>k. \<not> has_key ?d k"
      by (rule fresh_table; use b tk(1,2) in simp)+
    have once: "dict_keys_once ?es" using tk(5) by (simp add: entries_ok_def)
    have keyed: "\<forall>j < length ?es. de_state (?es ! j) = USED \<longrightarrow> de_key (?es ! j) \<noteq> None"
      using tk(5) by (auto simp: entries_ok_def entry_reached_def split: option.splits if_splits)
    have "\<exists>d'. rehash_loop g pg ?d 0 os1 = Some (KERN_SUCCESS, d', os1) \<and> table_ok hash cmp d' \<and> no_deleted d' \<and>
      kd_resize_buckets d' = kd_resize_buckets ?d \<and> bk_nitems (kd_buckets d') = bk_nitems (kd_buckets ?d) \<and>
      dict_map d' = entries_map ?es \<and> kd_num_entries d' = used_count ?es \<and> (\<forall>k. has_key d' k \<longleftrightarrow> (\<exists>j. holds ?es k j))"
      by (rule rehash [OF once keyed count _ _ fresh(1,2)])
        (use tk(3,8) assms(4) f b fresh(3,4) in \<open>simp_all add: fun_eq_iff\<close>)
    then obtain d' where d': "rehash_loop g pg ?d 0 os1 = Some (KERN_SUCCESS, d', os1)" "table_ok hash cmp d'"
      "no_deleted d'" "kd_resize_buckets d' = kd_buckets d" "bk_nitems (kd_buckets d') = ?n * 2 + 1"
      "dict_map d' = entries_map ?es" "kd_num_entries d' = used_count ?es" "\<forall>k. has_key d' k \<longleftrightarrow> (\<exists>j. holds ?es k j)"
      using b(2) by auto
    let ?d' = "d'\<lparr>kd_resize_buckets := bk_clear (kd_buckets d)\<rparr>"
    show thesis
    proof (rule ok [of ?d' os1])
      show "resize_dict f pg d os = Some (KERN_SUCCESS, ?d', os1)" using i True d'(1,4) by (simp add: f)
      show "dict_ok hash cmp ?d'" using d'(2) by (auto simp: dict_ok_def table_ok_def bk_clear_def)
      show "no_deleted ?d'" using d'(3) by (simp add: no_deleted_def)
      show "dict_map ?d' = dict_map d" using d'(6) by (simp add: dict_map_def)
      show "kd_num_entries ?d' = kd_num_entries d" using d'(7) tk(6) by simp
      show "has_key ?d' k \<longleftrightarrow> has_key d k" for k using d'(8) by (simp add: has_key_def has_key_holds [unfolded has_key_def])
      show "kd_num_entries ?d' \<le> kd_resize_threshold ?d'"
        using d'(5,7) table_okD(7) [OF d'(2)] count by simp
    qed
  qed
qed

end

context dict_keys
begin

lemma insert_map:
  assumes "dict_ok hash cmp d" "0 < pg" "bk_nitems (kd_buckets d) * 14 + 7 < 2 ^ 32"
    and "no_deleted d \<or> \<not> has_key d key \<or> kd_resize_threshold d < kd_num_entries d"
  obtains (fail) r d' os' where "kxld_dict_insert pg d key v os = Some (r, d', os')" "r \<noteq> KERN_SUCCESS" "os \<noteq> []"
      "dict_ok hash cmp d'" "dict_map d' = dict_map d" "kd_num_entries d' = kd_num_entries d"
      "\<And>k. has_key d' k \<longleftrightarrow> has_key d k"
  | (ok) d' os' where "kxld_dict_insert pg d key v os = Some (KERN_SUCCESS, d', os')" "dict_ok hash cmp d'"
      "dict_map d' = (dict_map d)(key := v)" "kd_num_entries d' = kd_num_entries d + (if has_key d key then 0 else 1)"
      "\<And>k. has_key d' k \<longleftrightarrow> k = key \<or> has_key d k" "no_deleted d \<Longrightarrow> no_deleted d'"
proof -
  let ?f = "bk_nitems (kd_buckets d) + 4"
  have fuel: "bk_nitems (kd_buckets d) + 5 = Suc ?f" "?f = Suc (bk_nitems (kd_buckets d) + 3)" by simp_all
  have tok: "table_ok hash cmp d" and empty: "\<forall>e \<in> set (bk_slots (kd_resize_buckets d)). e = empty_entry"
    using assms(1) by (simp_all add: dict_ok_def)
  show thesis
  proof (cases "kd_num_entries d > kd_resize_threshold d")
    case False
    then have le: "kd_num_entries d \<le> kd_resize_threshold d" and nd: "no_deleted d \<or> \<not> has_key d key"
      using assms(4) by auto
    from tok le nd show thesis
    proof (rule insert_no_resize [where f = ?f and pg = pg and v = v and os = os])
      fix d' assume d': "insert_fuel (Suc ?f) pg d key v os = Some (KERN_SUCCESS, d', os)" "table_ok hash cmp d'"
        "dict_map d' = (dict_map d)(key := v)" "kd_resize_buckets d' = kd_resize_buckets d"
        "kd_num_entries d' = kd_num_entries d + (if has_key d key then 0 else 1)"
        "no_deleted d \<Longrightarrow> no_deleted d'" "\<And>k. has_key d' k \<longleftrightarrow> k = key \<or> has_key d k"
      have "dict_ok hash cmp d'" using d'(2,4) empty by (simp add: dict_ok_def)
      moreover have "kxld_dict_insert pg d key v os = Some (KERN_SUCCESS, d', os)"
        unfolding kxld_dict_insert_def fuel(1) by (rule d'(1))
      ultimately show thesis using ok d' by blast
    qed
  next
    case True
    have step: "kxld_dict_insert pg d key v os =
        (case resize_dict ?f pg d os of None \<Rightarrow> None
         | Some (r, d, os) \<Rightarrow> if r \<noteq> KERN_SUCCESS then Some (r, d, os) else insert_fuel ?f pg d key v os)"
      unfolding kxld_dict_insert_def fuel(1) by (simp only: insert_fuel.simps True if_True)
    have fuel_ok: "bk_nitems (kd_buckets d) + 2 < ?f" by simp
    show thesis
    proof (cases rule: resize_map [OF assms(1-3) fuel_ok, of os])
      case (1 r d' os')
      then show thesis using fail [of r d' os'] step by simp
    next
      case (2 d1 os1)
      have tok1: "table_ok hash cmp d1" and e1: "\<forall>e \<in> set (bk_slots (kd_resize_buckets d1)). e = empty_entry"
        using 2(2) by (simp_all add: dict_ok_def)
      have nd1: "no_deleted d1 \<or> \<not> has_key d1 key" using 2(3) by simp
      from tok1 2(7) nd1 show thesis
      proof (rule insert_no_resize [where f = "bk_nitems (kd_buckets d) + 3" and pg = pg and v = v and os = os1])
        fix d' assume d': "insert_fuel (Suc (bk_nitems (kd_buckets d) + 3)) pg d1 key v os1 = Some (KERN_SUCCESS, d', os1)"
          "table_ok hash cmp d'" "dict_map d' = (dict_map d1)(key := v)" "kd_resize_buckets d' = kd_resize_buckets d1"
          "kd_num_entries d' = kd_num_entries d1 + (if has_key d1 key then 0 else 1)"
          "no_deleted d1 \<Longrightarrow> no_deleted d'" "\<And>k. has_key d' k \<longleftrightarrow> k = key \<or> has_key d1 k"
        have "dict_ok hash cmp d'" using d'(2,4) e1 by (simp add: dict_ok_def)
        moreover have "kxld_dict_insert pg d key v os = Some (KERN_SUCCESS, d', os1)"
          using step 2(1) d'(1) by (simp add: fuel(2))
        ultimately show thesis using ok d' 2(3-6) by simp
      qed
    qed
  qed
qed

end

section \<open>The hash and comparison functions of the file\<close>

interpretation string_keys: dict_keys kxld_dict_string_hash kxld_dict_string_cmp
  by unfold_locales (auto simp: kxld_dict_string_hash_def kxld_dict_string_cmp_def)

interpretation uint32_keys: dict_keys kxld_dict_uint32_hash kxld_dict_uint32_cmp
  by unfold_locales (auto simp: kxld_dict_uint32_hash_def kxld_dict_uint32_cmp_def)

interpretation kxldaddr_keys: dict_keys kxld_dict_kxldaddr_hash kxld_dict_kxldaddr_cmp
  by unfold_locales (auto simp: kxld_dict_kxldaddr_hash_def kxld_dict_kxldaddr_cmp_def)

section \<open>Construction and iteration\<close>

lemma grow_buckets_bounds:
  "n \<le> grow_buckets m n \<and> m \<le> grow_buckets m n \<and> (grow_buckets m n = n \<or> grow_buckets m n \<le> 2 * m)"
proof (induction m n rule: grow_buckets.induct)
  case (1 m n)
  show ?case
  proof (cases "m > n")
    case True
    with 1 show ?thesis by (subst (1 2 3 4) grow_buckets.simps) auto
  qed (simp add: grow_buckets.simps)
qed

lemma init_map:
  assumes "0 < pg" "\<forall>e \<in> set (bk_slots (kd_buckets d)) \<union> set (bk_slots (kd_resize_buckets d)). e = empty_entry"
    and "kxld_dict_init pg d hash cmp n os = (KERN_SUCCESS, d', os')"
  shows "dict_ok hash cmp d'" "no_deleted d'" "dict_map d' = (\<lambda>_. None)" "\<not> has_key d' k"
    "bk_nitems (kd_buckets d') = grow_buckets (MIN_BUCKETS n) DEFAULT_DICT_SIZE"
    "kd_num_entries d' = 0"
proof -
  let ?n = "grow_buckets (MIN_BUCKETS n) DEFAULT_DICT_SIZE"
  obtain r b os1 where i: "bk_init pg (kd_buckets d) ?n os = (r, b, os1)" by (metis prod_cases3)
  have pos: "0 < ?n" using grow_buckets_bounds [of DEFAULT_DICT_SIZE "MIN_BUCKETS n"] by (simp add: DEFAULT_DICT_SIZE_def)
  have r: "r = KERN_SUCCESS" and d': "d' = d\<lparr>kd_buckets := b, kd_hash := Some hash, kd_cmp := Some cmp,
      kd_num_entries := 0, kd_resize_threshold := RESIZE_THRESHOLD ?n\<rparr>"
    using assms(3) i by (auto simp: kxld_dict_init_def Let_def split: if_splits)
  have new: "bk_ok b" "bk_nitems b = ?n" "\<forall>e \<in> set (bk_slots b). e = empty_entry"
    using bk_init_fresh [OF assms(1) pos _ i] assms(2) r by auto
  have tab: "table_ok hash cmp d'" "no_deleted d'" "dict_map d' = (\<lambda>_. None)" "\<And>k. \<not> has_key d' k"
    by (rule fresh_table; use new pos d' in simp)+
  with assms(2) d' show "dict_ok hash cmp d'" by (simp add: dict_ok_def)
  show "no_deleted d'" "dict_map d' = (\<lambda>_. None)" "\<not> has_key d' k" using tab by simp_all
  show "bk_nitems (kd_buckets d') = ?n" "kd_num_entries d' = 0" using d' new by simp_all
qed

text \<open>The loop of a client that takes pairs from an iterator until the key is \<open>NULL\<close>.\<close>

fun drain :: "nat \<Rightarrow> ('k, 'v) dict_iter \<Rightarrow> ('k \<times> 'v option) list" where
  "drain 0 it = []"
| "drain (Suc f) it =
     (case kxld_dict_iterator_get_next it of
        (None, _, _) \<Rightarrow> []
      | (Some k, v, it') \<Rightarrow> (k, v) # drain f it')"

definition used_pairs :: "('k, 'v) dict_entry list \<Rightarrow> ('k \<times> 'v option) list" where
  "used_pairs es = map (\<lambda>e. (the (de_key e), de_value e)) (filter (\<lambda>e. de_state e = USED) es)"

lemma drain_from:
  assumes "bk_ok (kd_buckets d)" "\<forall>e \<in> set (items (kd_buckets d)). de_state e = USED \<longrightarrow> de_key e \<noteq> None"
    and "bk_nitems (kd_buckets d) - i < f"
  shows "drain f \<lparr>it_idx = i, it_dict = d\<rparr> = used_pairs (drop i (items (kd_buckets d)))"
  using assms(3)
proof (induction "bk_nitems (kd_buckets d) - i" arbitrary: i f rule: less_induct)
  case less
  let ?b = "kd_buckets d"
  obtain g where f: "f = Suc g" using less.prems by (cases f) auto
  show ?case
  proof (cases "i < bk_nitems ?b")
    case False
    then show ?thesis using length_items [OF assms(1)]
      by (simp add: f kxld_dict_iterator_get_next_def iterator_walk.simps used_pairs_def)
  next
    case True
    let ?e = "items ?b ! i"
    have e: "bk_slots ?b ! i = ?e" using True by (simp add: items_def)
    have d: "drop i (items ?b) = ?e # drop (Suc i) (items ?b)"
      using True length_items [OF assms(1)] by (simp add: Cons_nth_drop_Suc)
    show ?thesis
    proof (cases "de_state ?e = USED")
      case used: True
      have "?e \<in> set (items ?b)" using True length_items [OF assms(1)] by simp
      with used assms(2) obtain k where k: "de_key ?e = Some k" by auto
      have "drain g \<lparr>it_idx = Suc i, it_dict = d\<rparr> = used_pairs (drop (Suc i) (items ?b))"
        using less.prems True f by (intro less.hyps) simp_all
      then show ?thesis using True used k e d
        by (simp add: f kxld_dict_iterator_get_next_def iterator_walk.simps used_pairs_def)
    next
      case unused: False
      have "iterator_walk ?b i = iterator_walk ?b (Suc i)" using True unused e by (subst iterator_walk.simps) simp
      then have "drain f \<lparr>it_idx = i, it_dict = d\<rparr> = drain f \<lparr>it_idx = Suc i, it_dict = d\<rparr>"
        by (simp add: f kxld_dict_iterator_get_next_def)
      also have "\<dots> = used_pairs (drop (Suc i) (items ?b))" using less.prems True by (intro less.hyps) simp_all
      finally show ?thesis using unused d by (simp add: used_pairs_def)
    qed
  qed
qed

section \<open>Properties\<close>

definition dict_zero :: "('k, 'v) dict" where
  "dict_zero = \<lparr>kd_buckets = \<lparr>bk_slots = [], bk_nitems = 0\<rparr>, kd_resize_buckets = \<lparr>bk_slots = [], bk_nitems = 0\<rparr>,
     kd_hash = None, kd_cmp = None, kd_num_entries = 0, kd_resize_threshold = 0\<rparr>"

text \<open>A new dictionary of 89 buckets.\<close>

definition new_dict :: "(nat \<Rightarrow> 'k \<Rightarrow> nat) \<Rightarrow> ('k option \<Rightarrow> 'k \<Rightarrow> bool) \<Rightarrow> ('k, 'v) dict" where
  "new_dict hash cmp = fst (snd (kxld_dict_init 24 dict_zero hash cmp 0 []))"

lemma init_zero_success:
  "kxld_dict_init 24 (dict_zero :: ('k, 'v) dict) hash cmp n [] =
    (KERN_SUCCESS, fst (snd (kxld_dict_init 24 (dict_zero :: ('k, 'v) dict) hash cmp n [])), [])"
  by (auto simp: kxld_dict_init_def bk_init_def dict_zero_def pool_create_def Let_def)

lemma zero_empty:
  "\<forall>e \<in> set (bk_slots (kd_buckets dict_zero)) \<union> set (bk_slots (kd_resize_buckets dict_zero)). e = empty_entry"
  by (simp add: dict_zero_def)

lemma new_dict [simp]:
  "dict_ok hash cmp (new_dict hash cmp)" "no_deleted (new_dict hash cmp)"
  "dict_map (new_dict hash cmp) = (\<lambda>_. None)" "bk_nitems (kd_buckets (new_dict hash cmp)) = 89"
  using init_map [OF _ zero_empty init_zero_success [of hash cmp 0]]
  by (simp_all add: new_dict_def grow_buckets.simps MIN_BUCKETS_def DEFAULT_DICT_SIZE_def)

text \<open>
  C12: For hash and comparison functions that keep their contract, \<open>kxld_dict_find\<close> returns
  what the map of the dictionary holds, and \<open>kxld_dict_insert\<close> always returns and updates the
  map at the key, also where it has to grow the buckets and to insert the old entries again,
  as long as the table holds no deleted bucket, or not yet the key, or is about to grow. When
  an allocation fails the map stays as it was.
\<close>

theorem dict_find_insert:
  assumes "dict_keys hash cmp" "dict_ok hash cmp d" "0 < pg" "bk_nitems (kd_buckets d) * 14 + 7 < 2 ^ 32"
    and "no_deleted d \<or> \<not> has_key d key \<or> kd_resize_threshold d < kd_num_entries d"
  shows "kxld_dict_find d k = Some (dict_map d k) \<and>
    (\<exists>r d' os'. kxld_dict_insert pg d key value os = Some (r, d', os') \<and> dict_ok hash cmp d' \<and>
      (r = KERN_SUCCESS \<longrightarrow> dict_map d' = (dict_map d)(key := value) \<and>
         kxld_dict_get_num_entries d' = kxld_dict_get_num_entries d + (if has_key d key then 0 else 1)) \<and>
      (r \<noteq> KERN_SUCCESS \<longrightarrow> os \<noteq> [] \<and> dict_map d' = dict_map d \<and>
         kxld_dict_get_num_entries d' = kxld_dict_get_num_entries d))"
proof
  have "table_ok hash cmp d" using assms(2) by (simp add: dict_ok_def)
  then show "kxld_dict_find d k = Some (dict_map d k)" by (rule dict_keys.find_map [OF assms(1)])
  show "\<exists>r d' os'. kxld_dict_insert pg d key value os = Some (r, d', os') \<and> dict_ok hash cmp d' \<and>
      (r = KERN_SUCCESS \<longrightarrow> dict_map d' = (dict_map d)(key := value) \<and>
         kxld_dict_get_num_entries d' = kxld_dict_get_num_entries d + (if has_key d key then 0 else 1)) \<and>
      (r \<noteq> KERN_SUCCESS \<longrightarrow> os \<noteq> [] \<and> dict_map d' = dict_map d \<and>
         kxld_dict_get_num_entries d' = kxld_dict_get_num_entries d)"
    by (cases rule: dict_keys.insert_map [OF assms, of "value" os]) (simp_all add: kxld_dict_get_num_entries_def)
qed

theorem dict_find_insert_witness:
  "\<exists>d' os'. kxld_dict_insert 24 (new_dict kxld_dict_string_hash kxld_dict_string_cmp) [98, 97] (Some (7 :: nat)) [] =
      Some (KERN_SUCCESS, d', os') \<and> dict_map d' [98, 97] = Some 7"
  using dict_find_insert [OF string_keys.dict_keys_axioms new_dict(1), of 24 "[98, 97]" "[]" "Some 7" "[]"]
  by auto



text \<open>
  \<open>kxld_dict_init\<close> on an array of buckets that is zeroed ends its doubling and makes an
  empty dictionary with room for the entries that it is told of: none of the insertions up to
  that number of entries grows the buckets, as the comment of \<open>kxld_dict_insert\<close> says.
\<close>

lemma dict_init_sized:
  assumes "0 < pg" "\<forall>e \<in> set (bk_slots (kd_buckets d)) \<union> set (bk_slots (kd_resize_buckets d)). e = empty_entry"
    and "kxld_dict_init pg d hash cmp n os = (KERN_SUCCESS, d', os')" "n \<le> 100000000"
  shows "dict_ok hash cmp d' \<and> dict_map d' = (\<lambda>_. None) \<and> kxld_dict_get_num_entries d' = 0 \<and>
    DEFAULT_DICT_SIZE \<le> bk_nitems (kd_buckets d') \<and> MIN_BUCKETS n \<le> bk_nitems (kd_buckets d') \<and>
    n \<le> kd_resize_threshold d' + 1"
proof -
  note i = init_map [OF assms(1-3)]
  let ?g = "grow_buckets (MIN_BUCKETS n) DEFAULT_DICT_SIZE"
  have m: "MIN_BUCKETS n = n * 10 div 7" using assms(4) by (simp add: MIN_BUCKETS_def)
  note b = grow_buckets_bounds [of DEFAULT_DICT_SIZE "MIN_BUCKETS n"]
  have "?g \<le> 2 * (n * 10 div 7) + 89" using b m by (auto simp: DEFAULT_DICT_SIZE_def)
  with assms(4) have "?g * 7 < 2 ^ 32" by simp
  then have "RESIZE_THRESHOLD ?g = ?g * 7 div 10" by (simp add: RESIZE_THRESHOLD_def)
  moreover have "n * 10 div 7 \<le> ?g" using b m by simp
  ultimately have "n \<le> RESIZE_THRESHOLD ?g + 1" by linarith
  moreover have "kd_resize_threshold d' = RESIZE_THRESHOLD ?g"
    using table_okD(7) [of hash cmp d'] i(1,5) by (simp add: dict_ok_def)
  ultimately show ?thesis using i b by (simp add: kxld_dict_get_num_entries_def)
qed

text \<open>Computing with a table of 89 buckets that starts with two given ones.\<close>

definition table89 :: "(32 word, nat) dict_entry list \<Rightarrow> nat \<Rightarrow> (32 word, nat) dict" where
  "table89 es n = \<lparr>kd_buckets = \<lparr>bk_slots = es @ replicate 87 empty_entry, bk_nitems = 89\<rparr>,
     kd_resize_buckets = \<lparr>bk_slots = [], bk_nitems = 0\<rparr>,
     kd_hash = Some kxld_dict_uint32_hash, kd_cmp = Some kxld_dict_uint32_cmp, kd_num_entries = n, kd_resize_threshold = 62\<rparr>"

lemma new_table89: "new_dict kxld_dict_uint32_hash kxld_dict_uint32_cmp = table89 [empty_entry, empty_entry] 0"
proof -
  have "replicate 89 (x :: 'a) = x # x # replicate 87 x" for x by (simp add: numeral_eq_Suc)
  then show ?thesis
    by (simp add: new_dict_def kxld_dict_init_def bk_init_def dict_zero_def pool_create_def Let_def table89_def
      grow_buckets.simps MIN_BUCKETS_def DEFAULT_DICT_SIZE_def RESIZE_THRESHOLD_def round_page_def DICT_ENTRY_SIZE_def)
qed

lemma loop_numerals:
  "insert_loop (numeral k) b cmp key base idx =
     (case bk_get b idx of None \<Rightarrow> None
      | Some entry \<Rightarrow>
          if de_state entry = USED \<and> \<not> cmp (de_key entry) key then
            let idx = (idx + 1) mod bk_nitems b in
            if base = idx then Some None else insert_loop (pred_numeral k) b cmp key base idx
          else Some (Some idx))"
  "locate_loop (numeral k) b cmp key base idx =
     (case bk_get b idx of None \<Rightarrow> None
      | Some entry \<Rightarrow>
          if cmp (de_key entry) key then Some (Some idx)
          else if de_state entry = EMPTY then Some None
          else
            let idx = (idx + 1) mod bk_nitems b in
            if idx = base then Some None else locate_loop (pred_numeral k) b cmp key base idx)"
  by (simp_all add: numeral_eq_Suc)

lemma insert_table89:
  "n \<le> 62 \<Longrightarrow> kxld_dict_insert 24 (table89 es n) key v [] =
     map_option (\<lambda>(r, d). (r, d, [])) (insert_here (table89 es n) key v)"
  by (simp add: kxld_dict_insert_def table89_def numeral_eq_Suc)

lemmas table89_simps = insert_here_def get_insert_index_def kxld_dict_remove_def kxld_dict_find_def
  get_locate_index_def loop_numerals table89_def bk_get_def bk_put_def kxld_dict_uint32_hash_def kxld_dict_uint32_cmp_def
  empty_entry_def kxld_dict_get_num_entries_def u_sub_def

text \<open>
  After a removal, an insertion of a key that is still held can take the deleted bucket
  before it: \<open>get_insert_index\<close> stops at the first bucket that is not used. The key is then held
  twice, both count as entries, and the removal of the key brings its old value back.
\<close>

lemma dict_stale_value:
  "\<exists>d1 d2 d3 d4 d5. kxld_dict_insert 24 (new_dict kxld_dict_uint32_hash kxld_dict_uint32_cmp) 0 (Some (10 :: nat)) [] =
      Some (KERN_SUCCESS, d1, []) \<and>
    kxld_dict_insert 24 d1 89 (Some 20) [] = Some (KERN_SUCCESS, d2, []) \<and>
    kxld_dict_remove d2 0 = Some (Some 10, d3) \<and>
    kxld_dict_insert 24 d3 89 (Some 30) [] = Some (KERN_SUCCESS, d4, []) \<and>
    kxld_dict_find d4 89 = Some (Some 30) \<and> kxld_dict_get_num_entries d4 = 2 \<and>
    kxld_dict_remove d4 89 = Some (Some 30, d5) \<and> kxld_dict_find d5 89 = Some (Some 20)"
proof -
  let ?e = "\<lambda>k v. \<lparr>de_key = Some k, de_value = Some v, de_state = USED\<rparr> :: (32 word, nat) dict_entry"
  let ?x = "\<lparr>de_key = None, de_value = None, de_state = DELETED\<rparr> :: (32 word, nat) dict_entry"
  have "kxld_dict_insert 24 (table89 [empty_entry, empty_entry] 0) 0 (Some 10) [] =
      Some (KERN_SUCCESS, table89 [?e 0 10, empty_entry] 1, [])"
    "kxld_dict_insert 24 (table89 [?e 0 10, empty_entry] 1) 89 (Some 20) [] =
      Some (KERN_SUCCESS, table89 [?e 0 10, ?e 89 20] 2, [])"
    "kxld_dict_insert 24 (table89 [?x, ?e 89 20] 1) 89 (Some 30) [] =
      Some (KERN_SUCCESS, table89 [?e 89 30, ?e 89 20] 2, [])"
    by (simp_all add: insert_table89) (simp_all add: table89_simps)
  moreover have "kxld_dict_remove (table89 [?e 0 10, ?e 89 20] 2) 0 = Some (Some 10, table89 [?x, ?e 89 20] 1)"
    "kxld_dict_find (table89 [?e 89 30, ?e 89 20] 2) 89 = Some (Some 30)"
    "kxld_dict_remove (table89 [?e 89 30, ?e 89 20] 2) 89 = Some (Some 30, table89 [?x, ?e 89 20] 1)"
    "kxld_dict_find (table89 [?x, ?e 89 20] 1) 89 = Some (Some 20)"
    "kxld_dict_get_num_entries (table89 [?e 89 30, ?e 89 20] 2) = 2"
    by (simp_all add: table89_simps)
  ultimately show ?thesis unfolding new_table89 by blast
qed

lemma used_pairs_keys:
  "(k, v) \<in> set (used_pairs es) \<longleftrightarrow> (\<exists>e \<in> set es. de_state e = USED \<and> the (de_key e) = k \<and> de_value e = v)"
  by (auto simp: used_pairs_def)

lemma used_pairs_distinct:
  assumes "dict_keys_once es" "\<forall>e \<in> set es. de_state e = USED \<longrightarrow> de_key e \<noteq> None"
  shows "distinct (map fst (used_pairs es)) \<and> length (used_pairs es) = used_count es"
  using assms
proof (induction es)
  case (Cons e es)
  have shift: "holds (e # es) k (Suc j) = holds es k j" for k j by (simp add: holds_def)
  have once: "dict_keys_once es"
    using Cons.prems(1) unfolding dict_keys_once_def by (metis shift Suc_inject)
  have "the (de_key e') \<noteq> the (de_key e)" if e': "e' \<in> set es" "de_state e' = USED" and "de_state e = USED" for e'
  proof
    assume eq: "the (de_key e') = the (de_key e)"
    obtain j where j: "j < length es" "es ! j = e'" using e'(1) by (auto simp: in_set_conv_nth)
    have "de_key e \<noteq> None" "de_key e' \<noteq> None" using Cons.prems(2) that by simp_all
    with eq obtain k where k: "de_key e = Some k" "de_key e' = Some k" by auto
    have "holds (e # es) k 0" "holds (e # es) k (Suc j)" using j k that by (simp_all add: holds_def)
    then show False using Cons.prems(1) unfolding dict_keys_once_def by blast
  qed
  then have "de_state e = USED \<Longrightarrow> the (de_key e) \<notin> fst ` set (used_pairs es)"
    by (auto simp: used_pairs_keys image_iff)
  moreover have "used_pairs (e # es) = (if de_state e = USED then (the (de_key e), de_value e) # used_pairs es else used_pairs es)"
    by (simp add: used_pairs_def)
  ultimately show ?case using Cons.IH [OF once] Cons.prems(2) by simp
qed (simp add: used_pairs_def)



end
