(* ===== verification/Dict_Store.thy ===== *)
theory Dict_Store
  imports Kxld_Dict
begin

text \<open>
  The buckets of a dictionary live in a \<open>KXLDArray\<close>. \<open>Kxld_Dict\<close> works on the entries that the
  memory of the array holds; this theory shows that the four operations that the dictionary
  calls on its arrays do on their bytes what the definitions there do on the entries, for
  every way to read an entry from its bytes in which zeros are the empty entry.
\<close>

section \<open>An array and the entries it holds\<close>

definition store_rel :: "(byte list \<Rightarrow> ('k, 'v) dict_entry) \<Rightarrow> karray \<Rightarrow> ('k, 'v) buckets \<Rightarrow> bool" where
  "store_rel dec a b \<longleftrightarrow>
     array_ok a \<and> ka_npools a \<le> 1 \<and> (ka_npools a = 1 \<longrightarrow> ka_itemsize a = DICT_ENTRY_SIZE) \<and>
     ka_nitems a = bk_nitems b \<and> length (bk_slots b) = length (array_memory a) div DICT_ENTRY_SIZE \<and>
     (\<forall>i < length (bk_slots b).
        dec (take DICT_ENTRY_SIZE (drop (i * DICT_ENTRY_SIZE) (array_memory a))) = bk_slots b ! i) \<and>
     (\<forall>x \<in> set (drop (length (bk_slots b) * DICT_ENTRY_SIZE) (array_memory a)). x = 0)"

lemma store_relD:
  assumes "store_rel dec a b"
  shows "array_ok a" "ka_npools a \<le> 1" "ka_npools a = 1 \<Longrightarrow> ka_itemsize a = 24" "ka_nitems a = bk_nitems b"
    "length (bk_slots b) = length (array_memory a) div 24"
    "i < length (bk_slots b) \<Longrightarrow> dec (take 24 (drop (i * 24) (array_memory a))) = bk_slots b ! i"
    "x \<in> set (drop (length (bk_slots b) * 24) (array_memory a)) \<Longrightarrow> x = 0"
  using assms unfolding store_rel_def DICT_ENTRY_SIZE_def by blast+

lemma store_empty: "store_rel dec array_zero \<lparr>bk_slots = [], bk_nitems = 0\<rparr>"
  by (simp add: store_rel_def array_memory_def array_zero_def array_ok_def)

text \<open>Zeros behind the entries are empty entries.\<close>

lemma all_zero_replicate: "(\<forall>x \<in> set xs. x = (0 :: byte)) \<Longrightarrow> xs = replicate (length xs) 0"
  by (simp add: replicate_length_same)

lemma chunk_before:
  "(i + 1) * 24 \<le> length m \<Longrightarrow> take 24 (drop (i * 24) (m @ z)) = take 24 (drop (i * 24) m)"
  by simp

lemma chunk_behind:
  fixes m :: "byte list"
  assumes "\<forall>x \<in> set (drop (n * 24) m). x = 0" "n \<le> i" "(i + 1) * 24 \<le> length m + k" "n * 24 \<le> length m"
  shows "take 24 (drop (i * 24) (m @ replicate k 0)) = replicate 24 0"
proof -
  let ?M = "m @ replicate k 0"
  have D: "drop (n * 24) ?M = replicate (length m - n * 24 + k) 0"
    using assms(1,4) all_zero_replicate [of "drop (n * 24) m"] by (simp flip: replicate_add)
  have "i * 24 = (i - n) * 24 + n * 24" using assms(2) by (simp flip: distrib_right)
  then have E: "drop (i * 24) ?M = drop ((i - n) * 24) (drop (n * 24) ?M)" by (simp only: drop_drop)
  have "24 \<le> length m - n * 24 + k - (i - n) * 24" using assms(2-4) by (simp add: diff_mult_distrib)
  then show ?thesis unfolding E D by (simp add: min_absorb1)
qed

section \<open>Initialisation\<close>

lemma rebuild_empty:
  assumes "0 < isz" "ka_pools a = []" "ka_npools a = 0" "ka_maxitems a = 0"
    and "sum_list (map length srcs) \<le> round_page pg (isz * n)" "0 < pg"
  shows "(\<exists>os'. pool_create (round_page pg (isz * n)) os = (None, os') \<and>
      array_rebuild pg a isz n srcs os = Some (KERN_RESOURCE_SHORTAGE, array_zero, os')) \<or>
    (\<exists>p a' os'. pool_create (round_page pg (isz * n)) os = (Some p, os') \<and>
      array_rebuild pg a isz n srcs os = Some (KERN_SUCCESS, a', os') \<and> array_ok a' \<and>
      ka_npools a' = 1 \<and> ka_itemsize a' = isz \<and> ka_nitems a' = n \<and> array_memory a' =
        concat srcs @ replicate (round_page pg (isz * n) - sum_list (map length srcs)) 0)"
proof -
  obtain q os1 where c: "pool_create (round_page pg (isz * n)) os = (q, os1)" by fastforce
  show ?thesis
  proof (cases q)
    case None
    with c assms show ?thesis by (simp add: array_rebuild_def array_init_def kxld_array_deinit_def)
  next
    case (Some p)
    then have "os' = os1" if "array_rebuild pg a isz n srcs os = Some (r, a', os')" for r a' os'
      using that c assms(1-4) by (auto simp: array_rebuild_def array_init_def)
    moreover have "r = KERN_SUCCESS" if "array_rebuild pg a isz n srcs os = Some (r, a', os')" for r a' os'
      using that c Some assms(1-4)
      by (auto simp: array_rebuild_def array_init_def array_fill_def fill_first_def Let_def)
    ultimately show ?thesis
      using assms(5) c Some
      by (cases rule: array_rebuild_cases [OF assms(6,1,2,3,4), of n srcs os]) (auto simp: array_memory_def)
  qed
qed

lemma store_init:
  assumes "store_rel dec a b" "0 < pg" "0 < n" "dec (replicate 24 0) = empty_entry"
  shows "\<exists>r a' b' os'. kxld_array_init pg a DICT_ENTRY_SIZE n os = Some (r, a', os') \<and>
    bk_init pg b n os = (r, b', os') \<and> store_rel dec a' b' \<and>
    (r = KERN_SUCCESS \<longrightarrow> ka_npools a' = 1 \<and> ka_nitems a' = n)"
proof -
  note rel = store_relD [OF assms(1)]
  let ?cap = "round_page pg (24 * n)" and ?mem = "array_memory a" and ?old = "bk_slots b"
  have cap: "24 * n \<le> ?cap" by (rule round_page_ge [OF assms(2)])
  have mem: "length ?mem = ka_npools a * ka_pool_capacity a" by (rule length_array_memory [OF rel(1)])
  have slots: "length ?old = ka_npools a * (ka_pool_capacity a div 24)"
    using rel(2,5) mem by (auto simp: le_Suc_eq)
  show ?thesis
  proof (cases "ka_npools a \<noteq> 0 \<and> n \<le> length ?old")
    case True
    obtain a' where a': "kxld_array_init pg a 24 n os = Some (KERN_SUCCESS, a', os)" "array_ok a'"
      "ka_nitems a' = n" "ka_itemsize a' = 24" "array_memory a' = ?mem"
      using array_init_reuse [OF rel(1) assms(3), of 24 pg os] True slots by auto
    have "ka_npools a' = 1"
    proof -
      have "ka_npools a' = length (ka_pools a)"
        using a'(1) True array_okD(1) [OF rel(1)] assms(3) slots
        by (auto simp: kxld_array_init_def Let_def array_rebuild_def reinit_pools_def reinit_list_length
            split: if_splits prod.splits)
      then show ?thesis using True rel(2) array_okD(1) [OF rel(1)] by (auto simp: le_Suc_eq)
    qed
    with a' True assms(1) show ?thesis
      by (simp add: DICT_ENTRY_SIZE_def bk_init_def store_rel_def)
  next
    case False
    have more: "\<not> n \<le> length ?old" using False assms(3) slots by (cases "ka_npools a = 0") auto
    have small: "length ?mem \<le> ?cap"
    proof (cases "ka_npools a = 0")
      case False
      with rel(2) have "ka_npools a = 1" by simp
      with more slots have "ka_pool_capacity a div 24 < n" by simp
      then have "ka_pool_capacity a < 24 * n" by (simp add: div_less_iff_less_mult mult.commute)
      with cap mem \<open>ka_npools a = 1\<close> show ?thesis by simp
    qed (use mem in simp)
    have sum: "sum_list (map length (map pl_buffer (ka_pools a))) = length ?mem"
      by (simp add: array_memory_def length_concat)
    have eq: "\<exists>x srcs. kxld_array_init pg a 24 n os = array_rebuild pg x 24 n srcs os \<and>
        ka_pools x = [] \<and> ka_npools x = 0 \<and> ka_maxitems x = 0 \<and>
        sum_list (map length srcs) = length ?mem \<and> concat srcs = ?mem"
    proof (cases "ka_npools a = 0")
      case True
      then have "kxld_array_init pg a 24 n os = array_rebuild pg a 24 n [] os"
        using init_as_rebuild(1) [OF assms(3), of 24] by simp
      then show ?thesis using array_ok_no_pools [OF rel(1) True] True
        by (intro exI [of _ a] exI [of _ "[]"]) (simp add: array_memory_def)
    next
      case False
      then have "kxld_array_init pg a 24 n os = array_rebuild pg array_zero 24 n (map pl_buffer (ka_pools a)) os"
        using init_as_rebuild(2) [OF assms(3) _ rel(1)] more slots by simp
      then show ?thesis using sum
        by (intro exI [of _ array_zero] exI [of _ "map pl_buffer (ka_pools a)"])
          (simp add: array_memory_def array_zero_def)
    qed
    then obtain x srcs where x: "kxld_array_init pg a 24 n os = array_rebuild pg x 24 n srcs os"
      "ka_pools x = []" "ka_npools x = 0" "ka_maxitems x = 0" "sum_list (map length srcs) = length ?mem" "concat srcs = ?mem"
      by blast
    from rebuild_empty [of 24 x srcs pg n os, OF _ x(2-4)] x(5) small assms(2)
    consider (fail) os' where "pool_create ?cap os = (None, os')"
        "array_rebuild pg x 24 n srcs os = Some (KERN_RESOURCE_SHORTAGE, array_zero, os')"
      | (ok) p a' os' where "pool_create ?cap os = (Some p, os')"
        "array_rebuild pg x 24 n srcs os = Some (KERN_SUCCESS, a', os')" "array_ok a'" "ka_npools a' = 1"
        "ka_itemsize a' = 24" "ka_nitems a' = n" "array_memory a' = concat srcs @ replicate (?cap - length ?mem) 0"
      by fastforce
    then show ?thesis
    proof cases
      case fail
      then have "bk_init pg b n os = (KERN_RESOURCE_SHORTAGE, \<lparr>bk_slots = [], bk_nitems = 0\<rparr>, os')"
        using more by (simp add: bk_init_def DICT_ENTRY_SIZE_def)
      then show ?thesis using fail x(1) store_empty by (simp add: DICT_ENTRY_SIZE_def)
    next
      case ok
      let ?b = "\<lparr>bk_slots = ?old @ replicate (?cap div 24 - length ?old) empty_entry, bk_nitems = n\<rparr>"
      have bk: "bk_init pg b n os = (KERN_SUCCESS, ?b, os')"
        using ok(1) more by (simp add: bk_init_def DICT_ENTRY_SIZE_def)
      have m: "array_memory a' = ?mem @ replicate (?cap - length ?mem) 0" using ok(7) x(6) by simp
      have len: "length (array_memory a') = ?cap" using m small by simp
      have old: "length ?old * 24 \<le> length ?mem" using rel(5) by simp
      have more': "length ?old \<le> ?cap div 24" using rel(5) small by (simp add: div_le_mono)
      have tail: "\<forall>x \<in> set (drop (length ?old * 24) ?mem). x = 0" using rel(7) by blast
      have entries: "dec (take 24 (drop (i * 24) (array_memory a'))) = bk_slots ?b ! i" if i: "i < length (bk_slots ?b)" for i
      proof (cases "i < length ?old")
        case True
        then have "(i + 1) * 24 \<le> length ?old * 24" by (intro mult_le_mono1) simp
        then have "(i + 1) * 24 \<le> length ?mem" using old by linarith
        then have "take 24 (drop (i * 24) (array_memory a')) = take 24 (drop (i * 24) ?mem)"
          unfolding m by (rule chunk_before)
        with True rel(6) show ?thesis by (simp add: nth_append)
      next
        case False
        then have "i < ?cap div 24" using i more' by simp
        then have "(i + 1) * 24 \<le> ?cap" by (simp add: less_eq_div_iff_mult_less_eq Suc_le_eq [symmetric])
        with False old small have "take 24 (drop (i * 24) (array_memory a')) = replicate 24 0"
          unfolding m by (intro chunk_behind [OF tail]) simp_all
        with False i assms(4) show ?thesis by (simp add: nth_append)
      qed
      have zeros: "\<forall>x \<in> set (drop (length (bk_slots ?b) * 24) (array_memory a')). x = 0"
      proof -
        have "length ?old * 24 \<le> length (bk_slots ?b) * 24" by simp
        then have "set (drop (length (bk_slots ?b) * 24) (array_memory a')) \<subseteq> set (drop (length ?old * 24) (array_memory a'))"
          by (intro set_drop_subset_set_drop)
        then show ?thesis using tail old by (auto simp: m)
      qed
      have "store_rel dec a' ?b"
        using ok entries zeros len more' by (simp add: store_rel_def DICT_ENTRY_SIZE_def)
      with ok bk x(1) show ?thesis by (simp add: DICT_ENTRY_SIZE_def)
    qed
  qed
qed

section \<open>Access and clearing\<close>

lemma store_item:
  assumes "store_rel dec a b" "i < bk_nitems b"
  obtains p where "ka_pools a = [p]" "array_memory a = pl_buffer p" "i div ka_pool_maxitems a = 0"
    "i mod ka_pool_maxitems a = i" "i < length (bk_slots b)" "(i + 1) * 24 \<le> length (pl_buffer p)"
    "ka_itemsize a = 24" "i < ka_nitems a"
proof -
  note rel = store_relD [OF assms(1)]
  have n: "i < ka_nitems a" using assms(2) rel(4) by simp
  with array_okD(6) [OF rel(1)] have max: "i < ka_maxitems a" by simp
  then have "ka_npools a \<noteq> 0" using array_okD(5) [OF rel(1)] by (cases "ka_npools a") auto
  with rel(2) have one: "ka_npools a = 1" by simp
  with array_okD(1) [OF rel(1)] obtain p where p: "ka_pools a = [p]"
    by (cases "ka_pools a"; cases "tl (ka_pools a)") auto
  have m: "i < ka_pool_maxitems a" using max one array_okD(5) [OF rel(1)] by simp
  have mem: "array_memory a = pl_buffer p" using p by (simp add: array_memory_def)
  have "ka_pool_maxitems a = length (pl_buffer p) div 24"
    using array_okD(2,4) [OF rel(1)] p rel(3) one by simp
  then have "i < length (pl_buffer p) div 24" using m by simp
  moreover from this have "(i + 1) * 24 \<le> length (pl_buffer p)"
    by (simp add: less_eq_div_iff_mult_less_eq Suc_le_eq [symmetric])
  ultimately show thesis using that p mem m rel(3,5) one n by simp
qed

lemma store_get:
  assumes "store_rel dec a b"
  shows "i < bk_nitems b \<Longrightarrow> bk_get b i = Some (dec (item_get a i))"
    and "bk_get b i = None \<longleftrightarrow> kxld_array_get_item a i = None"
proof -
  note rel = store_relD [OF assms]
  assume i: "i < bk_nitems b"
  show "bk_get b i = Some (dec (item_get a i))"
    by (rule store_item [OF assms i])
      (use i rel(1,6) in \<open>simp add: bk_get_def item_get_eq mult.commute\<close>)
next
  show "bk_get b i = None \<longleftrightarrow> kxld_array_get_item a i = None"
    using get_item_eq [OF store_relD(1) [OF assms], of i] store_relD(4) [OF assms]
    by (cases "i < bk_nitems b") (simp_all add: bk_get_def kxld_array_get_item_def)
qed

lemma store_put:
  assumes "store_rel dec a b" "i < bk_nitems b" "length bs = DICT_ENTRY_SIZE"
  shows "store_rel dec (item_put a i bs) (bk_put b i (dec bs))"
proof (rule store_item [OF assms(1,2)])
  fix p assume p: "ka_pools a = [p]" "array_memory a = pl_buffer p" "i div ka_pool_maxitems a = 0"
    "i mod ka_pool_maxitems a = i" "i < length (bk_slots b)" "(i + 1) * 24 \<le> length (pl_buffer p)"
    "ka_itemsize a = 24" "i < ka_nitems a"
  note rel = store_relD [OF assms(1)]
  have bs: "length bs = 24" using assms(3) by (simp add: DICT_ENTRY_SIZE_def)
  obtain m where m: "memcpy_at (pl_buffer p) (24 * i) bs = Some m"
    "item_put a i bs = a\<lparr>ka_pools := [p\<lparr>pl_buffer := m\<rparr>]\<rparr>" "array_ok (item_put a i bs)"
    by (rule item_put_ok [OF rel(1) p(8), of bs]) (use p(1,3,4,7) bs in auto)
  have mem: "array_memory (item_put a i bs) = m" by (simp add: m(2) array_memory_def)
  have len: "length m = length (pl_buffer p)" using m(1) by (auto simp: memcpy_at_def split: if_splits)
  have entries: "dec (take 24 (drop (j * 24) m)) = (bk_slots b)[i := dec bs] ! j" if "j < length (bk_slots b)" for j
  proof (cases "j = i")
    case True
    then show ?thesis using memcpy_at_same [OF m(1)] bs that by (simp add: mult.commute)
  next
    case False
    then have "24 * i + length bs \<le> j * 24 \<or> j * 24 + 24 \<le> 24 * i" using bs by linarith
    from memcpy_at_apart [OF m(1) this] False that rel(6) p(2) show ?thesis by simp
  qed
  have "24 * i + length bs \<le> length (bk_slots b) * 24" using p(5) bs by simp
  then have "take n (drop (length (bk_slots b) * 24) m) = take n (drop (length (bk_slots b) * 24) (pl_buffer p))" for n
    using memcpy_at_apart [OF m(1)] by blast
  then have "drop (length (bk_slots b) * 24) m = drop (length (bk_slots b) * 24) (pl_buffer p)"
    by (metis len length_drop order_refl take_all)
  with rel p m(3) mem len entries show ?thesis
    by (simp add: store_rel_def DICT_ENTRY_SIZE_def bk_put_def m(2))
qed

lemma store_clear:
  assumes "store_rel dec a b" "dec (replicate 24 0) = empty_entry"
  shows "store_rel dec (kxld_array_clear a) (bk_clear b)"
proof -
  note rel = store_relD [OF assms(1)]
  have ok: "array_ok (kxld_array_clear a)" by (rule array_clear_ok [OF rel(1)])
  have shape: "ka_npools (kxld_array_clear a) = ka_npools a" "ka_pool_capacity (kxld_array_clear a) = ka_pool_capacity a"
    "ka_itemsize (kxld_array_clear a) = ka_itemsize a" "ka_nitems (kxld_array_clear a) = 0"
    by (simp_all add: kxld_array_clear_def kxld_array_reset_def)
  have "\<forall>x \<in> set (array_memory (kxld_array_clear a)). x = 0"
    by (auto simp: array_memory_def kxld_array_clear_def kxld_array_reset_def)
  then have mem: "array_memory (kxld_array_clear a) = replicate (length (array_memory a)) 0"
    using all_zero_replicate length_array_memory [OF ok] length_array_memory [OF rel(1)] shape by metis
  have "24 \<le> length (array_memory a) - i * 24" if "i < length (array_memory a) div 24" for i
  proof -
    have "(i + 1) * 24 \<le> length (array_memory a)"
      using that by (simp add: less_eq_div_iff_mult_less_eq Suc_le_eq [symmetric])
    then show ?thesis by simp
  qed
  with ok shape mem rel(2,3,5) assms(2) show ?thesis
    by (simp add: store_rel_def DICT_ENTRY_SIZE_def bk_clear_def min_absorb1)
qed

text \<open>
  C15: The buckets of the dictionary are what the resizable array keeps: related by what the
  bytes of the array are read as, \<open>kxld_array_init\<close> with the size of an entry, the reads and the
  writes through \<open>kxld_array_get_item\<close> and \<open>kxld_array_clear\<close> have the results of the operations on
  entries, with the same return codes and the same allocations, and never leave the buffer.
\<close>

theorem dict_store_refines:
  assumes "store_rel dec a b" "0 < pg" "dec (replicate 24 0) = empty_entry"
  shows "(0 < n \<longrightarrow> (\<exists>r a' b' os'. kxld_array_init pg a DICT_ENTRY_SIZE n os = Some (r, a', os') \<and>
        bk_init pg b n os = (r, b', os') \<and> store_rel dec a' b')) \<and>
    (bk_get b i = None \<longleftrightarrow> kxld_array_get_item a i = None) \<and>
    (i < bk_nitems b \<longrightarrow> bk_get b i = Some (dec (item_get a i)) \<and>
       (length bs = DICT_ENTRY_SIZE \<longrightarrow> store_rel dec (item_put a i bs) (bk_put b i (dec bs)))) \<and>
    store_rel dec (kxld_array_clear a) (bk_clear b)"
  using store_init [OF assms(1,2) _ assms(3), of n os] store_get [OF assms(1), of i]
    store_put [OF assms(1), of i bs] store_clear [OF assms(1,3)]
  by blast

theorem dict_store_refines_witness:
  "\<exists>r a' b' os'. kxld_array_init 24 array_zero DICT_ENTRY_SIZE 3 [True, False] = Some (r, a', os') \<and>
     bk_init 24 \<lparr>bk_slots = [], bk_nitems = 0\<rparr> 3 [True, False] = (r, b', os') \<and>
     store_rel (\<lambda>bs. if hd bs = 0 then empty_entry
       else \<lparr>de_key = Some (hd bs), de_value = Some (bs ! 8), de_state = USED\<rparr>) a' b'"
  using dict_store_refines [OF store_empty, of 24 "\<lambda>bs. if hd bs = 0 then empty_entry
       else \<lparr>de_key = Some (hd bs), de_value = Some (bs ! 8), de_state = USED\<rparr>" 3 "[True, False]"]
  by simp

end
