(* ===== verification/Netinfo.thy ===== *)
theory Netinfo
  imports Main
begin

text \<open>
  Property lists of the DHCP server (\<open>netinfo.c\<close> and \<open>netinfo.h\<close>): a property is a name and a
  list of values. The copies that the code makes of every string are equal values here, and
  the functions that only free have no model. An \<open>ni_index\<close> is a 64-bit unsigned number, whose
  largest value is \<open>NI_INDEX_NULL\<close>. Strings are the characters before the terminating zero.
  \<open>None\<close> as the result of a deletion stands for an access behind the end of the list.
\<close>

section \<open>Types\<close>

type_synonym ni_name = string
type_synonym ni_namelist = "ni_name list"

record ni_property =
  nip_name :: ni_name
  nip_val :: ni_namelist

type_synonym ni_proplist = "ni_property list"

definition NI_INDEX_NULL :: nat where
  "NI_INDEX_NULL = 2 ^ 64 - 1"

section \<open>Lists that grow and shrink in place\<close>

text \<open>
  The loop that makes room moves the elements above \<open>where\<close> one place up, from the last one
  on; it ends at the place for the new element.
\<close>

fun shift_up :: "'a list \<Rightarrow> nat \<Rightarrow> nat \<Rightarrow> 'a list \<times> nat" where
  "shift_up xs 0 wh = (xs, 0)"
| "shift_up xs (Suc i) wh = (if Suc i > wh then shift_up (xs[Suc i := xs ! i]) i wh else (xs, Suc i))"

definition array_insert :: "'a list \<Rightarrow> 'a \<Rightarrow> nat \<Rightarrow> 'a list" where
  "array_insert xs x wh = (case shift_up (xs @ [x]) (length xs) wh of (ys, i) \<Rightarrow> ys[i := x])"

function shift_down :: "'a list \<Rightarrow> nat \<Rightarrow> 'a list" where
  "shift_down xs i = (if i < length xs then shift_down (xs[i - 1 := xs ! i]) (i + 1) else xs)"
  by auto
termination
  by (relation "measure (\<lambda>(xs, i). length xs - i)") auto

declare shift_down.simps [simp del]

definition array_delete :: "'a list \<Rightarrow> nat \<Rightarrow> 'a list option" where
  "array_delete xs which =
     (if which \<ge> length xs then None
      else Some (take (length xs - 1) (shift_down xs (which + 1))))"

section \<open>Names, name lists, properties\<close>

definition ni_name_match :: "ni_name \<Rightarrow> ni_name \<Rightarrow> bool" where
  "ni_name_match nm1 nm2 = (nm1 = nm2)"

definition ni_name_dup :: "ni_name \<Rightarrow> ni_name" where
  "ni_name_dup nm = nm"

definition ni_namelist_dup :: "ni_namelist \<Rightarrow> ni_namelist" where
  "ni_namelist_dup nl = map ni_name_dup nl"

definition ni_prop_dup :: "ni_property \<Rightarrow> ni_property" where
  "ni_prop_dup p = \<lparr>nip_name = ni_name_dup (nip_name p), nip_val = ni_namelist_dup (nip_val p)\<rparr>"

definition ni_proplist_dup :: "ni_proplist \<Rightarrow> ni_proplist" where
  "ni_proplist_dup pl =
     map (\<lambda>p. \<lparr>nip_name = ni_name_dup (nip_name p), nip_val = ni_namelist_dup (nip_val p)\<rparr>) pl"

definition ni_namelist_insert :: "ni_namelist \<Rightarrow> ni_name \<Rightarrow> nat \<Rightarrow> ni_namelist" where
  "ni_namelist_insert nl nm wh = array_insert nl (ni_name_dup nm) wh"

definition ni_namelist_delete :: "ni_namelist \<Rightarrow> nat \<Rightarrow> ni_namelist option" where
  "ni_namelist_delete nl which = array_delete nl which"

fun namelist_match_from :: "nat \<Rightarrow> ni_namelist \<Rightarrow> ni_name \<Rightarrow> nat" where
  "namelist_match_from i [] nm = NI_INDEX_NULL"
| "namelist_match_from i (x # nl) nm = (if ni_name_match x nm then i else namelist_match_from (i + 1) nl nm)"

definition ni_namelist_match :: "ni_namelist \<Rightarrow> ni_name \<Rightarrow> nat" where
  "ni_namelist_match nl nm = namelist_match_from 0 nl nm"

definition ni_proplist_insert :: "ni_proplist \<Rightarrow> ni_property \<Rightarrow> nat \<Rightarrow> ni_proplist" where
  "ni_proplist_insert pl prop wh = array_insert pl (ni_prop_dup prop) wh"

definition ni_proplist_delete :: "ni_proplist \<Rightarrow> nat \<Rightarrow> ni_proplist option" where
  "ni_proplist_delete pl which = array_delete pl which"

fun proplist_match_from :: "nat \<Rightarrow> ni_proplist \<Rightarrow> ni_name \<Rightarrow> ni_name option \<Rightarrow> nat" where
  "proplist_match_from i [] pname pval = NI_INDEX_NULL"
| "proplist_match_from i (p # pl) pname pval =
     (if ni_name_match pname (nip_name p) then
        (case pval of None \<Rightarrow> i
         | Some v \<Rightarrow> if \<exists>x \<in> set (nip_val p). ni_name_match v x then i else NI_INDEX_NULL)
      else proplist_match_from (i + 1) pl pname pval)"

definition ni_proplist_match :: "ni_proplist \<Rightarrow> ni_name \<Rightarrow> ni_name option \<Rightarrow> nat" where
  "ni_proplist_match pl pname pval = proplist_match_from 0 pl pname pval"

section \<open>Properties with a value\<close>

definition ni_proplist_insertprop :: "ni_proplist \<Rightarrow> ni_name \<Rightarrow> ni_name option \<Rightarrow> nat \<Rightarrow> ni_proplist" where
  "ni_proplist_insertprop pl key value wh =
     ni_proplist_insert pl
       \<lparr>nip_name = key, nip_val = (case value of None \<Rightarrow> [] | Some v \<Rightarrow> ni_namelist_insert [] v 0)\<rparr> wh"

definition ni_proplist_addprop :: "ni_proplist \<Rightarrow> ni_name \<Rightarrow> ni_name option \<Rightarrow> ni_proplist" where
  "ni_proplist_addprop pl key value = ni_proplist_insertprop pl key value (length pl)"

text \<open>The values are inserted at the front, from the last one on.\<close>

definition ni_proplist_addprops :: "ni_proplist \<Rightarrow> ni_name \<Rightarrow> ni_name list \<Rightarrow> ni_proplist" where
  "ni_proplist_addprops pl key values =
     ni_proplist_insert pl
       \<lparr>nip_name = key, nip_val = foldr (\<lambda>v nl. ni_namelist_insert nl v 0) values []\<rparr> (length pl)"

fun ni_nlforprop :: "ni_proplist \<Rightarrow> ni_name \<Rightarrow> ni_namelist option" where
  "ni_nlforprop [] name = None"
| "ni_nlforprop (p # pl) name = (if name = nip_name p then Some (nip_val p) else ni_nlforprop pl name)"

definition ni_valforprop :: "ni_proplist \<Rightarrow> ni_name \<Rightarrow> ni_name option" where
  "ni_valforprop pl name =
     (case ni_nlforprop pl name of None \<Rightarrow> None | Some [] \<Rightarrow> None | Some (v # _) \<Rightarrow> Some v)"

definition ni_proplist_append :: "ni_proplist \<Rightarrow> ni_proplist \<Rightarrow> ni_proplist" where
  "ni_proplist_append pl new_pl = foldl (\<lambda>pl p. ni_proplist_insert pl p (length pl)) pl new_pl"

fun nlvalindex_from :: "int \<Rightarrow> ni_namelist \<Rightarrow> ni_name \<Rightarrow> int" where
  "nlvalindex_from i [] v = - 1"
| "nlvalindex_from i (x # nl) v = (if x = v then i else nlvalindex_from (i + 1) nl v)"

definition ni_nlvalindex :: "ni_namelist option \<Rightarrow> ni_name \<Rightarrow> int" where
  "ni_nlvalindex nl v = (case nl of None \<Rightarrow> - 1 | Some nl \<Rightarrow> nlvalindex_from 0 nl v)"

definition ni_indexforprop :: "ni_proplist \<Rightarrow> ni_name \<Rightarrow> ni_name \<Rightarrow> int" where
  "ni_indexforprop pl name v =
     (case ni_nlforprop pl name of None \<Rightarrow> - 1 | Some nl \<Rightarrow> ni_nlvalindex (Some nl) v)"

text \<open>The flag beside the list is whether \<open>*modified\<close> was set.\<close>

definition ni_set_prop :: "ni_proplist \<Rightarrow> ni_name \<Rightarrow> ni_name option \<Rightarrow> (ni_proplist \<times> bool) option" where
  "ni_set_prop pl prop value =
     (let wh = ni_proplist_match pl prop None in
      if wh \<noteq> NI_INDEX_NULL then
        (if value \<noteq> None \<and> wh = ni_proplist_match pl prop value then Some (pl, False)
         else
           (case ni_proplist_delete pl wh of None \<Rightarrow> None
            | Some pl \<Rightarrow> Some (ni_proplist_insertprop pl prop value wh, True)))
      else Some (ni_proplist_insertprop pl prop value wh, True))"

definition ni_delete_prop :: "ni_proplist \<Rightarrow> ni_name \<Rightarrow> (ni_proplist \<times> bool) option" where
  "ni_delete_prop pl prop =
     (let wh = ni_proplist_match pl prop None in
      if wh \<noteq> NI_INDEX_NULL then map_option (\<lambda>pl. (pl, True)) (ni_proplist_delete pl wh)
      else Some (pl, False))"

section \<open>What the loops do\<close>

lemma shift_up_spec:
  assumes "i < length xs"
  shows "snd (shift_up xs i wh) = min i wh \<and> length (fst (shift_up xs i wh)) = length xs \<and>
    (\<forall>k < length xs. fst (shift_up xs i wh) ! k = (if min i wh < k \<and> k \<le> i then xs ! (k - 1) else xs ! k))"
  using assms
proof (induction xs i wh rule: shift_up.induct)
  case (2 xs i wh)
  show ?case
  proof (cases "Suc i > wh")
    case True
    let ?ys = "xs[Suc i := xs ! i]"
    have IH: "snd (shift_up ?ys i wh) = min i wh" "length (fst (shift_up ?ys i wh)) = length xs"
      "\<forall>k < length xs. fst (shift_up ?ys i wh) ! k = (if min i wh < k \<and> k \<le> i then ?ys ! (k - 1) else ?ys ! k)"
      using 2(1) [OF True] 2(2) by simp_all
    have "(if min i wh < k \<and> k \<le> i then ?ys ! (k - 1) else ?ys ! k) =
        (if min (Suc i) wh < k \<and> k \<le> Suc i then xs ! (k - 1) else xs ! k)" if "k < length xs" for k
      using that True 2(2) by (auto simp: nth_list_update min_def)
    with IH True show ?thesis by (simp add: min_def)
  qed (auto simp: min_def)
qed simp

lemma array_insert_eq:
  "array_insert xs x wh = take (min (length xs) wh) xs @ [x] @ drop (min (length xs) wh) xs"
proof -
  let ?m = "min (length xs) wh"
  obtain ys i where s: "shift_up (xs @ [x]) (length xs) wh = (ys, i)" by fastforce
  with shift_up_spec [of "length xs" "xs @ [x]" wh]
  have y: "i = ?m" "length ys = Suc (length xs)"
    "\<forall>k < Suc (length xs). ys ! k = (if ?m < k \<and> k \<le> length xs then (xs @ [x]) ! (k - 1) else (xs @ [x]) ! k)"
    by simp_all
  have "ys[i := x] = take ?m xs @ [x] @ drop ?m xs"
  proof (rule nth_equalityI)
    show "length (ys[i := x]) = length (take ?m xs @ [x] @ drop ?m xs)" using y(2) by simp
    fix k assume "k < length (ys[i := x])"
    then have k: "k < Suc (length xs)" using y(2) by simp
    consider "k < ?m" | "k = ?m" | "?m < k" by linarith
    then show "ys[i := x] ! k = (take ?m xs @ [x] @ drop ?m xs) ! k"
      using k y by cases (auto simp: nth_append nth_Cons' nth_list_update)
  qed
  with s show ?thesis by (simp add: array_insert_def)
qed

lemma shift_down_spec:
  assumes "0 < i"
  shows "length (shift_down xs i) = length xs \<and>
    (\<forall>k < length xs. shift_down xs i ! k = (if i \<le> k + 1 \<and> k + 1 < length xs then xs ! (k + 1) else xs ! k))"
  using assms
proof (induction xs i rule: shift_down.induct)
  case (1 xs i)
  show ?case
  proof (cases "i < length xs")
    case True
    let ?ys = "xs[i - 1 := xs ! i]"
    have IH: "length (shift_down ?ys (i + 1)) = length xs"
      "\<forall>k < length xs. shift_down ?ys (i + 1) ! k = (if i + 1 \<le> k + 1 \<and> k + 1 < length xs then ?ys ! (k + 1) else ?ys ! k)"
      using 1(1) [OF True] by simp_all
    have "shift_down xs i = shift_down ?ys (i + 1)" using True by (subst shift_down.simps) simp
    moreover have "(if i + 1 \<le> k + 1 \<and> k + 1 < length xs then ?ys ! (k + 1) else ?ys ! k) =
        (if i \<le> k + 1 \<and> k + 1 < length xs then xs ! (k + 1) else xs ! k)" if "k < length xs" for k
      using that True 1(2) by (auto simp: nth_list_update)
    ultimately show ?thesis using IH by simp
  qed (auto simp: shift_down.simps)
qed

lemma array_delete_eq:
  "array_delete xs which = (if which < length xs then Some (take which xs @ drop (Suc which) xs) else None)"
proof -
  have "take (length xs - 1) (shift_down xs (which + 1)) = take which xs @ drop (Suc which) xs" if w: "which < length xs"
  proof (rule nth_equalityI)
    note s = shift_down_spec [of "which + 1" xs]
    show "length (take (length xs - 1) (shift_down xs (which + 1))) = length (take which xs @ drop (Suc which) xs)"
      using w s by simp
    fix k assume "k < length (take (length xs - 1) (shift_down xs (which + 1)))"
    then have "k + 1 < length xs" using s by auto
    with w s show "take (length xs - 1) (shift_down xs (which + 1)) ! k = (take which xs @ drop (Suc which) xs) ! k"
      by (simp add: nth_append min_def)
  qed
  then show ?thesis by (simp add: array_delete_def)
qed

lemma ni_name_dup_id [simp]: "ni_name_dup = (\<lambda>x. x)"
  by (simp add: ni_name_dup_def fun_eq_iff)

lemma ni_prop_dup_id [simp]: "ni_prop_dup p = p"
  by (simp add: ni_prop_dup_def ni_namelist_dup_def)

lemma ni_proplist_dup_id [simp]: "ni_proplist_dup pl = pl"
  by (induction pl) (simp_all add: ni_proplist_dup_def ni_namelist_dup_def)

lemma insertprop_eq:
  "ni_proplist_insertprop pl key v wh = take (min (length pl) wh) pl @
     [\<lparr>nip_name = key, nip_val = (case v of None \<Rightarrow> [] | Some v \<Rightarrow> [v])\<rparr>] @ drop (min (length pl) wh) pl"
  by (simp add: ni_proplist_insertprop_def ni_proplist_insert_def array_insert_eq ni_namelist_insert_def
    ni_name_dup_def split: option.split)

text \<open>Where a name is found.\<close>

lemma match_name_from:
  assumes "i + length pl < NI_INDEX_NULL"
  shows "(proplist_match_from i pl name None = NI_INDEX_NULL \<and> (\<forall>p \<in> set pl. nip_name p \<noteq> name)) \<or>
    (\<exists>j < length pl. proplist_match_from i pl name None = i + j \<and> nip_name (pl ! j) = name \<and>
       (\<forall>k < j. nip_name (pl ! k) \<noteq> name))"
  using assms
proof (induction pl arbitrary: i)
  case (Cons p pl)
  show ?case
  proof (cases "nip_name p = name")
    case True
    then show ?thesis by (auto simp: ni_name_match_def intro!: exI [of _ 0])
  next
    case False
    from Cons.IH [of "i + 1"] Cons.prems
    consider "proplist_match_from (i + 1) pl name None = NI_INDEX_NULL" "\<forall>p \<in> set pl. nip_name p \<noteq> name"
      | j where "j < length pl" "proplist_match_from (i + 1) pl name None = i + 1 + j" "nip_name (pl ! j) = name"
        "\<forall>k < j. nip_name (pl ! k) \<noteq> name"
      by auto
    then show ?thesis
    proof cases
      case (2 j)
      then show ?thesis using False
        by (intro disjI2 exI [of _ "Suc j"]) (auto simp: ni_name_match_def nth_Cons split: nat.splits)
    qed (use False in \<open>auto simp: ni_name_match_def\<close>)
  qed
qed simp

lemma match_value_from:
  assumes "i + length pl < NI_INDEX_NULL" "j < length pl" "nip_name (pl ! j) = name" "\<forall>k < j. nip_name (pl ! k) \<noteq> name"
  shows "proplist_match_from i pl name (Some v) = (if v \<in> set (nip_val (pl ! j)) then i + j else NI_INDEX_NULL)"
  using assms
proof (induction pl arbitrary: i j)
  case (Cons p pl)
  show ?case
  proof (cases j)
    case 0
    with Cons.prems show ?thesis by (auto simp: ni_name_match_def)
  next
    case (Suc k)
    have "nip_name p \<noteq> name" using Cons.prems(4) Suc by fastforce
    moreover have "\<forall>m < k. nip_name (pl ! m) \<noteq> name" using Cons.prems(4) Suc by fastforce
    ultimately show ?thesis
      using Cons.IH [of "i + 1" k] Cons.prems Suc by (simp add: ni_name_match_def)
  qed
qed simp

lemma nlforprop_none: "\<forall>p \<in> set pl. nip_name p \<noteq> n \<Longrightarrow> ni_nlforprop pl n = None"
  by (induction pl) auto

lemma nlforprop_append:
  "ni_nlforprop (pl @ ql) n = (case ni_nlforprop pl n of None \<Rightarrow> ni_nlforprop ql n | Some nl \<Rightarrow> Some nl)"
  by (induction pl) auto

lemma nlforprop_update_same:
  assumes "j < length pl" "\<forall>k < j. nip_name (pl ! k) \<noteq> n" "nip_name x = n"
  shows "ni_nlforprop (pl[j := x]) n = Some (nip_val x)"
proof -
  have "ni_nlforprop (take j pl) n = None"
    using assms(1,2) by (intro nlforprop_none) (fastforce simp: in_set_conv_nth)
  with assms show ?thesis by (simp add: upd_conv_take_nth_drop nlforprop_append)
qed

lemma nlforprop_update_other:
  "j < length pl \<Longrightarrow> nip_name (pl ! j) \<noteq> n \<Longrightarrow> nip_name x \<noteq> n \<Longrightarrow> ni_nlforprop (pl[j := x]) n = ni_nlforprop pl n"
proof (induction pl arbitrary: j)
  case (Cons p pl)
  then show ?case by (cases j) auto
qed simp

lemma set_prop_cases:
  assumes "length pl < NI_INDEX_NULL"
  obtains (absent) "\<forall>p \<in> set pl. nip_name p \<noteq> prop"
      "ni_set_prop pl prop (Some v) = Some (pl @ [\<lparr>nip_name = prop, nip_val = [v]\<rparr>], True)"
  | (there) j where "j < length pl" "nip_name (pl ! j) = prop" "\<forall>k < j. nip_name (pl ! k) \<noteq> prop"
      "v \<in> set (nip_val (pl ! j))" "ni_set_prop pl prop (Some v) = Some (pl, False)"
  | (replaced) j where "j < length pl" "nip_name (pl ! j) = prop" "\<forall>k < j. nip_name (pl ! k) \<noteq> prop"
      "v \<notin> set (nip_val (pl ! j))"
      "ni_set_prop pl prop (Some v) = Some (pl[j := \<lparr>nip_name = prop, nip_val = [v]\<rparr>], True)"
proof -
  from assms match_name_from [of 0 pl "prop"]
  consider "ni_proplist_match pl prop None = NI_INDEX_NULL" "\<forall>p \<in> set pl. nip_name p \<noteq> prop"
    | j where "j < length pl" "ni_proplist_match pl prop None = j" "nip_name (pl ! j) = prop"
      "\<forall>k < j. nip_name (pl ! k) \<noteq> prop"
    by (auto simp: ni_proplist_match_def)
  then show thesis
  proof cases
    case 1
    with assms show thesis by (intro absent) (simp_all add: ni_set_prop_def insertprop_eq min_absorb1)
  next
    case (2 j)
    have ne: "j \<noteq> NI_INDEX_NULL" using 2(1) assms by simp
    have m: "ni_proplist_match pl prop (Some v) = (if v \<in> set (nip_val (pl ! j)) then j else NI_INDEX_NULL)"
      using match_value_from [of 0 pl j "prop" v] assms 2 by (simp add: ni_proplist_match_def)
    show thesis
    proof (cases "v \<in> set (nip_val (pl ! j))")
      case True
      with 2 m ne show thesis by (intro there [of j]) (simp_all add: ni_set_prop_def Let_def)
    next
      case False
      have "ni_proplist_delete pl j = Some (take j pl @ drop (Suc j) pl)"
        using 2(1) by (simp add: ni_proplist_delete_def array_delete_eq)
      with 2 m ne False show thesis
        by (intro replaced [of j])
          (simp_all add: ni_set_prop_def Let_def insertprop_eq upd_conv_take_nth_drop min_absorb2)
    qed
  qed
qed



end
