(* ===== verification/Ni_Cache.thy ===== *)
theory Ni_Cache
  imports Netinfo "HOL-Library.Monad_Syntax"
begin

text \<open>
  The cache of property lists of the DHCP server (\<open>NICache.c\<close>): entries in a doubly linked
  list, with the entry that was looked up last at its head. Entries are nodes of a heap; a
  pointer is the address of a node, or \<open>None\<close> for \<open>NULL\<close>. An operation that follows a pointer to
  no node has the value \<open>None\<close>. \<open>Ni_Cache_File\<close> models the file of the cache.
\<close>

section \<open>Nodes and the cache\<close>

text \<open>
  The two untyped values that a \<open>PLCacheEntry_t\<close> also holds belong to the users of the cache and are
  not touched by its operations; a node leaves them out.
\<close>

record node =
  nd_pl :: ni_proplist
  nd_next :: "nat option"
  nd_prev :: "nat option"

type_synonym heap = "nat \<Rightarrow> node option"

record plcache =
  pc_head :: "nat option"
  pc_tail :: "nat option"
  pc_max :: int
  pc_count :: int

definition CACHE_MIN :: int where
  "CACHE_MIN = 10"

definition CACHE_MAX :: int where
  "CACHE_MAX = 256"

text \<open>Writing through a pointer.\<close>

definition upd :: "heap \<Rightarrow> nat \<Rightarrow> (node \<Rightarrow> node) \<Rightarrow> heap option" where
  "upd h x f = (case h x of None \<Rightarrow> None | Some nd \<Rightarrow> Some (h(x \<mapsto> f nd)))"

definition upd_opt :: "heap \<Rightarrow> nat option \<Rightarrow> (node \<Rightarrow> node) \<Rightarrow> heap option" where
  \<comment> \<open>under a test that the pointer is not \<open>NULL\<close>\<close>
  "upd_opt h p f = (case p of None \<Rightarrow> Some h | Some x \<Rightarrow> upd h x f)"

section \<open>Entries\<close>

text \<open>The third argument is the result of \<open>malloc\<close>.\<close>

definition PLCacheEntry_create :: "heap \<Rightarrow> ni_proplist \<Rightarrow> nat option \<Rightarrow> nat option \<times> heap" where
  "PLCacheEntry_create h pl mem =
     (case mem of None \<Rightarrow> (None, h)
      | Some x \<Rightarrow> (Some x, h(x \<mapsto> \<lparr>nd_pl = ni_proplist_dup pl, nd_next = None, nd_prev = None\<rparr>)))"

definition PLCacheEntry_free :: "heap \<Rightarrow> nat \<Rightarrow> heap option" where
  "PLCacheEntry_free h x = (case h x of None \<Rightarrow> None | Some _ \<Rightarrow> Some (h(x := None)))"

section \<open>The list\<close>

definition PLCache_init :: plcache where
  "PLCache_init = \<lparr>pc_head = None, pc_tail = None, pc_max = CACHE_MAX, pc_count = 0\<rparr>"

definition PLCache_count :: "plcache \<Rightarrow> int" where
  "PLCache_count c = pc_count c"

fun drop_tail :: "nat \<Rightarrow> heap \<Rightarrow> nat option \<Rightarrow> nat option \<Rightarrow> (heap \<times> nat option) option" where
  "drop_tail 0 h prev scan = Some (h, prev)"
| "drop_tail (Suc n) h prev scan =
     (case scan of None \<Rightarrow> None
      | Some x \<Rightarrow>
          do { nd \<leftarrow> h x;
               h \<leftarrow> PLCacheEntry_free h x;
               drop_tail n h (nd_prev nd) (nd_prev nd) })"

definition PLCache_set_max :: "heap \<Rightarrow> plcache \<Rightarrow> int \<Rightarrow> (heap \<times> plcache) option" where
  "PLCache_set_max h c m =
     (let m = (if m < CACHE_MIN then CACHE_MIN else m); c = c\<lparr>pc_max := m\<rparr> in
      if pc_count c > pc_max c then
        do { (h, prev) \<leftarrow> drop_tail (nat (pc_count c - pc_max c)) h None (pc_tail c);
             let c = c\<lparr>pc_tail := prev\<rparr>;
             (h, c) \<leftarrow> (case pc_tail c of
                 Some t \<Rightarrow> map_option (\<lambda>h. (h, c)) (upd h t (\<lambda>nd. nd\<lparr>nd_next := None\<rparr>))
               | None \<Rightarrow> Some (h, c\<lparr>pc_head := None\<rparr>));
             Some (h, c\<lparr>pc_count := pc_max c\<rparr>) }
      else Some (h, c))"

text \<open>The loop that frees the entries follows \<open>next\<close>; on a list that is a circle it does not end.\<close>

partial_function (option) free_from :: "heap \<Rightarrow> nat option \<Rightarrow> heap option" where
  "free_from h scan =
     (case scan of None \<Rightarrow> Some h
      | Some x \<Rightarrow>
          do { nd \<leftarrow> h x;
               h \<leftarrow> PLCacheEntry_free h x;
               free_from h (nd_next nd) })"

definition PLCache_free :: "heap \<Rightarrow> plcache \<Rightarrow> (heap \<times> plcache) option" where
  "PLCache_free h c =
     map_option (\<lambda>h. (h, \<lparr>pc_head = None, pc_tail = None, pc_max = 0, pc_count = 0\<rparr>)) (free_from h (pc_head c))"

definition PLCache_add :: "heap \<Rightarrow> plcache \<Rightarrow> nat option \<Rightarrow> (heap \<times> plcache) option" where
  "PLCache_add h c entry =
     (case entry of None \<Rightarrow> Some (h, c)
      | Some x \<Rightarrow>
          do { h \<leftarrow> upd h x (\<lambda>nd. nd\<lparr>nd_next := pc_head c, nd_prev := None\<rparr>);
               (case pc_head c of
                  None \<Rightarrow> Some (h, c\<lparr>pc_head := entry, pc_tail := entry, pc_count := pc_count c + 1\<rparr>)
                | Some y \<Rightarrow>
                    do { h \<leftarrow> upd h y (\<lambda>nd. nd\<lparr>nd_prev := entry\<rparr>);
                         Some (h, c\<lparr>pc_head := entry, pc_count := pc_count c + 1\<rparr>) }) })"

definition PLCache_append :: "heap \<Rightarrow> plcache \<Rightarrow> nat option \<Rightarrow> (heap \<times> plcache) option" where
  "PLCache_append h c entry =
     (case entry of None \<Rightarrow> Some (h, c)
      | Some x \<Rightarrow>
          do { h \<leftarrow> upd h x (\<lambda>nd. nd\<lparr>nd_next := None, nd_prev := pc_tail c\<rparr>);
               (case pc_head c of
                  None \<Rightarrow> Some (h, c\<lparr>pc_head := entry, pc_tail := entry, pc_count := pc_count c + 1\<rparr>)
                | Some _ \<Rightarrow>
                    (case pc_tail c of None \<Rightarrow> None
                     | Some t \<Rightarrow>
                        do { h \<leftarrow> upd h t (\<lambda>nd. nd\<lparr>nd_next := entry\<rparr>);
                             Some (h, c\<lparr>pc_tail := entry, pc_count := pc_count c + 1\<rparr>) })) })"

definition PLCache_remove :: "heap \<Rightarrow> plcache \<Rightarrow> nat option \<Rightarrow> (heap \<times> plcache) option" where
  "PLCache_remove h c entry =
     (case entry of None \<Rightarrow> Some (h, c)
      | Some x \<Rightarrow>
          do { nd \<leftarrow> h x;
               h \<leftarrow> upd_opt h (nd_prev nd) (\<lambda>p. p\<lparr>nd_next := nd_next nd\<rparr>);
               nd \<leftarrow> h x;
               h \<leftarrow> upd_opt h (nd_next nd) (\<lambda>n. n\<lparr>nd_prev := nd_prev nd\<rparr>);
               nd \<leftarrow> h x;
               let c = (if entry = pc_head c then c\<lparr>pc_head := nd_next nd\<rparr> else c);
               let c = (if entry = pc_tail c then c\<lparr>pc_tail := nd_prev nd\<rparr> else c);
               h \<leftarrow> upd h x (\<lambda>n. n\<lparr>nd_next := None, nd_prev := None\<rparr>);
               Some (h, c\<lparr>pc_count := pc_count c - 1\<rparr>) })"

definition PLCache_make_head :: "heap \<Rightarrow> plcache \<Rightarrow> nat option \<Rightarrow> (heap \<times> plcache) option" where
  "PLCache_make_head h c entry =
     (if entry = pc_head c then Some (h, c)
      else do { (h, c) \<leftarrow> PLCache_remove h c entry; PLCache_add h c entry })"

section \<open>Lookups\<close>

text \<open>
  The walk from the head that all lookups share: a test of the property list, which also
  threads what the lookup writes through its result pointers, up to the first entry that passes.
\<close>

partial_function (option) scan_list ::
    "heap \<Rightarrow> (ni_proplist \<Rightarrow> 's \<Rightarrow> bool \<times> 's) \<Rightarrow> nat option \<Rightarrow> 's \<Rightarrow> (nat option \<times> 's) option" where
  "scan_list h test scan s =
     (case scan of None \<Rightarrow> Some (None, s)
      | Some x \<Rightarrow>
          do { nd \<leftarrow> h x;
               (case test (nd_pl nd) s of
                  (found, s) \<Rightarrow> if found then Some (Some x, s) else scan_list h test (nd_next nd) s) })"

definition lookup :: "heap \<Rightarrow> plcache \<Rightarrow> (ni_proplist \<Rightarrow> 's \<Rightarrow> bool \<times> 's) \<Rightarrow> bool \<Rightarrow> 's \<Rightarrow>
    (nat option \<times> 's \<times> heap \<times> plcache) option" where
  "lookup h c test make_head s =
     do { (r, s) \<leftarrow> scan_list h test (pc_head c) s;
          (case r of None \<Rightarrow> Some (None, s, h, c)
           | Some x \<Rightarrow>
               if make_head then map_option (\<lambda>(h, c). (Some x, s, h, c)) (PLCache_make_head h c (Some x))
               else Some (Some x, s, h, c)) }"

definition PLCache_lookup_prop :: "heap \<Rightarrow> plcache \<Rightarrow> ni_name \<Rightarrow> ni_name option \<Rightarrow> bool \<Rightarrow>
    (nat option \<times> unit \<times> heap \<times> plcache) option" where
  "PLCache_lookup_prop h c prop v make_head =
     lookup h c (\<lambda>pl s. (ni_proplist_match pl prop v \<noteq> NI_INDEX_NULL, s)) make_head ()"

text \<open>What a lookup of an address writes: the address of the client, and whether there is a binding.\<close>

record 'ip binding =
  b_client_ip :: "'ip option"
  b_has_binding :: bool

text \<open>
  The loop over the keys of one entry: the \<open>n\<close>-th key goes with the \<open>n\<close>-th address, and the
  addresses repeat. A key that matches with an address that is not well formed is passed over;
  one whose address the caller's function refuses is remembered as a binding.
\<close>

fun key_loop :: "('k \<Rightarrow> bool) \<Rightarrow> (ni_name \<Rightarrow> 'ip option) \<Rightarrow> bool \<Rightarrow> ('ip \<Rightarrow> bool) option \<Rightarrow> ni_namelist \<Rightarrow>
    nat \<Rightarrow> 'k list \<Rightarrow> 'ip binding \<Rightarrow> bool \<times> 'ip binding" where
  "key_loop matches inet_aton want_ip func ips n [] s = (False, s)"
| "key_loop matches inet_aton want_ip func ips n (k # ks) s =
     (if \<not> matches k then key_loop matches inet_aton want_ip func ips (n + 1) ks s
      else
        (case inet_aton (ips ! (n mod length ips)) of
           None \<Rightarrow> key_loop matches inet_aton want_ip func ips (n + 1) ks s
         | Some ip \<Rightarrow>
             let s = s\<lparr>b_client_ip := (if want_ip then Some ip else b_client_ip s), b_has_binding := True\<rparr> in
             if (case func of None \<Rightarrow> True | Some f \<Rightarrow> want_ip \<and> f ip) then (True, s)
             else key_loop matches inet_aton want_ip func ips (n + 1) ks s))"

definition values_of :: "ni_proplist \<Rightarrow> ni_name \<Rightarrow> ni_namelist option" where
  "values_of pl name =
     (let i = ni_proplist_match pl name None in if i = NI_INDEX_NULL then None else Some (nip_val (pl ! i)))"

definition hw_test :: "(ni_name \<Rightarrow> 'e option) \<Rightarrow> (ni_name \<Rightarrow> 'ip option) \<Rightarrow> 'e \<Rightarrow> ('ip \<Rightarrow> bool) option \<Rightarrow>
    ni_proplist \<Rightarrow> 'ip binding \<Rightarrow> bool \<times> 'ip binding" where
  "hw_test ether_aton inet_aton hwaddr func pl s =
     (case values_of pl ''en_address'' of None \<Rightarrow> (False, s)
      | Some ens \<Rightarrow>
         (case values_of pl ''ip_address'' of None \<Rightarrow> (False, s)
          | Some ips \<Rightarrow>
              if ens = [] \<or> ips = [] then (False, s)
              else key_loop (\<lambda>en. ether_aton en = Some hwaddr) inet_aton True func ips 0 ens s))"

text \<open>The conversions \<open>ether_aton\<close> and \<open>inet_aton\<close> of the C library are arguments.\<close>

definition PLCache_lookup_hw :: "(ni_name \<Rightarrow> 'e option) \<Rightarrow> (ni_name \<Rightarrow> 'ip option) \<Rightarrow> heap \<Rightarrow> plcache \<Rightarrow> 'e \<Rightarrow>
    ('ip \<Rightarrow> bool) option \<Rightarrow> 'ip option \<Rightarrow> (nat option \<times> 'ip binding \<times> heap \<times> plcache) option" where
  "PLCache_lookup_hw ether_aton inet_aton h c hwaddr func client_ip =
     lookup h c (hw_test ether_aton inet_aton hwaddr func) True
       \<lparr>b_client_ip = client_ip, b_has_binding = False\<rparr>"

definition identifier_test :: "(ni_name \<Rightarrow> 'ip option) \<Rightarrow> ni_name \<Rightarrow> bool \<Rightarrow> ('ip \<Rightarrow> bool) option \<Rightarrow>
    ni_proplist \<Rightarrow> 'ip binding \<Rightarrow> bool \<times> 'ip binding" where
  "identifier_test inet_aton idstr want_ip func pl s =
     (case values_of pl ''identifier'' of None \<Rightarrow> (False, s)
      | Some [] \<Rightarrow> (False, s)
      | Some (ident # idents) \<Rightarrow>
          if \<not> want_ip \<and> ident = idstr then (True, s\<lparr>b_has_binding := True\<rparr>)
          else
            (case values_of pl ''ip_address'' of None \<Rightarrow> (False, s)
             | Some ips \<Rightarrow>
                 if ips = [] then (False, s)
                 else key_loop (\<lambda>x. x = idstr) inet_aton want_ip func ips 0 (ident # idents) s))"

text \<open>\<open>want_ip\<close> is whether the caller gives a pointer for the address of the client.\<close>

definition PLCache_lookup_identifier :: "(ni_name \<Rightarrow> 'ip option) \<Rightarrow> heap \<Rightarrow> plcache \<Rightarrow> ni_name \<Rightarrow>
    ('ip \<Rightarrow> bool) option \<Rightarrow> bool \<Rightarrow> 'ip option \<Rightarrow> (nat option \<times> 'ip binding \<times> heap \<times> plcache) option" where
  "PLCache_lookup_identifier inet_aton h c idstr func want_ip client_ip =
     lookup h c (identifier_test inet_aton idstr want_ip func) True
       \<lparr>b_client_ip = client_ip, b_has_binding = False\<rparr>"

definition ip_test :: "(ni_name \<Rightarrow> 'ip option) \<Rightarrow> 'ip \<Rightarrow> ni_proplist \<Rightarrow> unit \<Rightarrow> bool \<times> unit" where
  "ip_test inet_aton iaddr pl s =
     (case values_of pl ''ip_address'' of None \<Rightarrow> (False, s)
      | Some ips \<Rightarrow> (\<exists>x \<in> set ips. inet_aton x = Some iaddr, s))"

definition PLCache_lookup_ip :: "(ni_name \<Rightarrow> 'ip option) \<Rightarrow> heap \<Rightarrow> plcache \<Rightarrow> 'ip \<Rightarrow>
    (nat option \<times> unit \<times> heap \<times> plcache) option" where
  "PLCache_lookup_ip inet_aton h c iaddr = lookup h c (ip_test inet_aton iaddr) True ()"

section \<open>Linked lists\<close>

text \<open>The nodes from \<open>x\<close> on with their links, between the pointers \<open>prev\<close> and \<open>nxt\<close>.\<close>

fun dll_seg :: "heap \<Rightarrow> nat option \<Rightarrow> nat list \<Rightarrow> nat option \<Rightarrow> bool" where
  "dll_seg h prev [] nxt = True"
| "dll_seg h prev (x # xs) nxt =
     (case h x of None \<Rightarrow> False
      | Some nd \<Rightarrow> nd_prev nd = prev \<and> nd_next nd = (case xs of [] \<Rightarrow> nxt | y # _ \<Rightarrow> Some y) \<and>
          dll_seg h (Some x) xs nxt)"

definition first :: "nat list \<Rightarrow> nat option \<Rightarrow> nat option" where
  "first xs p = (case xs of [] \<Rightarrow> p | x # _ \<Rightarrow> Some x)"

definition final :: "nat list \<Rightarrow> nat option \<Rightarrow> nat option" where
  "final xs p = (if xs = [] then p else Some (last xs))"

definition cache_list :: "heap \<Rightarrow> plcache \<Rightarrow> nat list \<Rightarrow> bool" where
  \<comment> \<open>the cache holds the entries \<open>xs\<close>, from the head on\<close>
  "cache_list h c xs \<longleftrightarrow> distinct xs \<and> dll_seg h None xs None \<and> pc_head c = first xs None \<and>
     pc_tail c = final xs None \<and> pc_count c = int (length xs)"

text \<open>The property lists of entries.\<close>

definition pls :: "heap \<Rightarrow> nat list \<Rightarrow> ni_proplist list" where
  "pls h xs = map (\<lambda>x. nd_pl (the (h x))) xs"

lemma first_simps [simp]: "first [] p = p" "first (x # xs) p = Some x" "first (xs @ ys) p = first xs (first ys p)"
  by (simp_all add: first_def split: list.split)

lemma final_simps [simp]: "final [] p = p" "final (xs @ [x]) p = Some x" "final (x # xs) p = final xs (Some x)"
  by (simp_all add: final_def)

lemma final_append [simp]: "final (xs @ ys) p = final ys (final xs p)"
  by (simp add: final_def)

lemma dll_seg_Cons:
  "dll_seg h prev (x # xs) nxt \<longleftrightarrow>
     (\<exists>nd. h x = Some nd \<and> nd_prev nd = prev \<and> nd_next nd = first xs nxt \<and> dll_seg h (Some x) xs nxt)"
  by (simp add: first_def split: option.split list.split)

declare dll_seg.simps(2) [simp del] dll_seg_Cons [simp]

lemma dll_seg_append [simp]:
  "dll_seg h prev (xs @ ys) nxt \<longleftrightarrow> dll_seg h prev xs (first ys nxt) \<and> dll_seg h (final xs prev) ys nxt"
  by (induction xs arbitrary: prev) auto

lemma dll_seg_other [simp]:
  "x \<notin> set xs \<Longrightarrow> dll_seg (h(x := v)) prev xs nxt \<longleftrightarrow> dll_seg h prev xs nxt"
  by (induction xs arbitrary: prev) auto

lemma dll_seg_nodes: "dll_seg h prev xs nxt \<Longrightarrow> x \<in> set xs \<Longrightarrow> \<exists>nd. h x = Some nd"
  by (induction xs arbitrary: prev) auto

text \<open>Setting the link of the first node or of the last one.\<close>

lemma dll_seg_set_prev:
  assumes "dll_seg h prev (x # xs) nxt" "h x = Some nd" "x \<notin> set xs"
  shows "dll_seg (h(x \<mapsto> nd\<lparr>nd_prev := p\<rparr>)) p (x # xs) nxt"
  using assms by auto

lemma dll_seg_set_next:
  assumes "dll_seg h prev (xs @ [x]) nxt" "h x = Some nd" "x \<notin> set xs"
  shows "dll_seg (h(x \<mapsto> nd\<lparr>nd_next := n\<rparr>)) prev (xs @ [x]) n"
  using assms by auto

section \<open>The operations on the list of the entries\<close>

definition same_pls :: "heap \<Rightarrow> heap \<Rightarrow> bool" where
  "same_pls h h' \<longleftrightarrow> (\<forall>y. map_option nd_pl (h' y) = map_option nd_pl (h y))"

lemma same_pls_refl [simp]: "same_pls h h"
  by (simp add: same_pls_def)

lemma same_pls_trans: "same_pls h h1 \<Longrightarrow> same_pls h1 h2 \<Longrightarrow> same_pls h h2"
  by (simp add: same_pls_def)

lemma same_pls_upd [intro]:
  "upd h x f = Some h' \<Longrightarrow> (\<And>nd. nd_pl (f nd) = nd_pl nd) \<Longrightarrow> same_pls h h'"
  by (auto simp: upd_def same_pls_def split: option.splits)

lemma upd_Some: "h x = Some nd \<Longrightarrow> upd h x f = Some (h(x \<mapsto> f nd))"
  by (simp add: upd_def)

lemma cache_listD:
  assumes "cache_list h c xs"
  shows "distinct xs" "dll_seg h None xs None" "pc_head c = first xs None" "pc_tail c = final xs None"
    "pc_count c = int (length xs)"
  using assms by (simp_all add: cache_list_def)

lemma same_pls_upds:
  "h x = Some nd \<Longrightarrow> nd_pl nd' = nd_pl nd \<Longrightarrow> same_pls h (h(x \<mapsto> nd'))"
  by (auto simp: same_pls_def)

lemma add_list:
  assumes "cache_list h c xs" "x \<notin> set xs" "h x = Some nd"
  obtains h' c' where "PLCache_add h c (Some x) = Some (h', c')" "cache_list h' c' (x # xs)"
    "same_pls h h'" "pc_max c' = pc_max c"
proof -
  note l = cache_listD [OF assms(1)]
  let ?x = "nd\<lparr>nd_next := first xs None, nd_prev := None\<rparr>"
  show thesis
  proof (cases xs)
    case Nil
    let ?h = "h(x \<mapsto> ?x)" and ?c = "c\<lparr>pc_head := Some x, pc_tail := Some x, pc_count := pc_count c + 1\<rparr>"
    have "PLCache_add h c (Some x) = Some (?h, ?c)"
      using Nil l assms(3) by (simp add: PLCache_add_def upd_Some)
    moreover have "cache_list ?h ?c (x # xs)" using Nil l by (simp add: cache_list_def)
    ultimately show thesis using that same_pls_upds [where h = h, OF assms(3), of ?x] by simp
  next
    case (Cons y ys)
    with l(2) obtain ny where ny: "h y = Some ny" by auto
    have xy: "x \<noteq> y" using assms(2) Cons by auto
    let ?h1 = "h(x \<mapsto> ?x)"
    let ?h = "?h1(y \<mapsto> ny\<lparr>nd_prev := Some x\<rparr>)" and ?c = "c\<lparr>pc_head := Some x, pc_count := pc_count c + 1\<rparr>"
    have "PLCache_add h c (Some x) = Some (?h, ?c)"
      using Cons l assms(3) ny xy by (simp add: PLCache_add_def upd_Some)
    moreover have "dll_seg ?h1 None xs None" using l(2) assms(2) by simp
    then have "dll_seg ?h (Some x) xs None"
      using dll_seg_set_prev [of ?h1 None y ys None ny "Some x"] Cons ny xy l(1) by simp
    then have "cache_list ?h ?c (x # xs)" using Cons l xy assms(2) by (simp add: cache_list_def)
    moreover have "same_pls h ?h"
      by (rule same_pls_trans [OF same_pls_upds [where h = h, OF assms(3)] same_pls_upds]) (use ny xy in auto)
    ultimately show thesis using that by simp
  qed
qed

lemma append_list:
  assumes "cache_list h c xs" "x \<notin> set xs" "h x = Some nd"
  obtains h' c' where "PLCache_append h c (Some x) = Some (h', c')" "cache_list h' c' (xs @ [x])"
    "same_pls h h'" "pc_max c' = pc_max c"
proof -
  note l = cache_listD [OF assms(1)]
  let ?x = "nd\<lparr>nd_next := None, nd_prev := final xs None\<rparr>"
  show thesis
  proof (cases xs rule: rev_cases)
    case Nil
    let ?h = "h(x \<mapsto> ?x)" and ?c = "c\<lparr>pc_head := Some x, pc_tail := Some x, pc_count := pc_count c + 1\<rparr>"
    have "PLCache_append h c (Some x) = Some (?h, ?c)"
      using Nil l assms(3) by (simp add: PLCache_append_def upd_Some)
    moreover have "cache_list ?h ?c (xs @ [x])" using Nil l by (simp add: cache_list_def)
    ultimately show thesis using that same_pls_upds [where h = h, OF assms(3), of ?x] by simp
  next
    case (snoc ys y)
    with l(2) obtain ny where ny: "h y = Some ny" by auto
    have xy: "x \<noteq> y" using assms(2) snoc by auto
    let ?h1 = "h(x \<mapsto> ?x)"
    let ?h = "?h1(y \<mapsto> ny\<lparr>nd_next := Some x\<rparr>)" and ?c = "c\<lparr>pc_tail := Some x, pc_count := pc_count c + 1\<rparr>"
    have "PLCache_append h c (Some x) = Some (?h, ?c)"
      using snoc l assms(3) ny xy by (cases ys) (simp_all add: PLCache_append_def upd_Some)
    moreover have "dll_seg ?h1 None (ys @ [y]) None" using l(2) assms(2) snoc by simp
    then have "dll_seg ?h None (ys @ [y]) (Some x)"
      using dll_seg_set_next [of ?h1 None ys y None ny "Some x"] snoc ny xy l(1) by simp
    then have "cache_list ?h ?c (xs @ [x])" using snoc l xy assms(2) by (cases ys) (auto simp: cache_list_def)
    moreover have "same_pls h ?h"
      by (rule same_pls_trans [OF same_pls_upds [where h = h, OF assms(3)] same_pls_upds]) (use ny xy in auto)
    ultimately show thesis using that by simp
  qed
qed

text \<open>Taking a node out of the middle: the links before and behind it are set in turn.\<close>

lemma unlink_prev:
  assumes "dll_seg h None (as @ x # bs) None" "distinct (as @ x # bs)" "h x = Some nd"
  obtains h1 where "upd_opt h (nd_prev nd) (\<lambda>p. p\<lparr>nd_next := nd_next nd\<rparr>) = Some h1" "h1 x = Some nd"
    "dll_seg h1 None as (first bs None)" "dll_seg h1 (Some x) bs None" "same_pls h h1"
proof (cases as rule: rev_cases)
  case Nil
  with assms that [of h] show thesis by (simp add: upd_opt_def)
next
  case (snoc cs y)
  with assms(1) obtain ny where ny: "h y = Some ny" by auto
  have xy: "x \<noteq> y" "y \<notin> set cs" "y \<notin> set bs" using assms(2) snoc by auto
  let ?h = "h(y \<mapsto> ny\<lparr>nd_next := nd_next nd\<rparr>)"
  have "upd_opt h (nd_prev nd) (\<lambda>p. p\<lparr>nd_next := nd_next nd\<rparr>) = Some ?h"
    using assms(1,3) snoc ny by (simp add: upd_opt_def upd_Some)
  then show thesis
    using that [of ?h] assms snoc ny xy same_pls_upds [where h = h, OF ny] by simp
qed

lemma unlink_next:
  assumes "dll_seg h None as (first bs None)" "dll_seg h (Some x) bs None" "distinct (as @ x # bs)" "h x = Some nd"
    "nd_prev nd = final as None" "nd_next nd = first bs None"
  obtains h1 where "upd_opt h (nd_next nd) (\<lambda>n. n\<lparr>nd_prev := nd_prev nd\<rparr>) = Some h1" "h1 x = Some nd"
    "dll_seg h1 None (as @ bs) None" "same_pls h h1"
proof (cases bs)
  case Nil
  with assms that [of h] show thesis by (simp add: upd_opt_def)
next
  case (Cons y cs)
  with assms(2) obtain ny where ny: "h y = Some ny" by auto
  have xy: "x \<noteq> y" "y \<notin> set cs" "y \<notin> set as" using assms(3) Cons by auto
  let ?h = "h(y \<mapsto> ny\<lparr>nd_prev := nd_prev nd\<rparr>)"
  have "upd_opt h (nd_next nd) (\<lambda>n. n\<lparr>nd_prev := nd_prev nd\<rparr>) = Some ?h"
    using assms(6) Cons ny by (simp add: upd_opt_def upd_Some)
  then show thesis
    using that [of ?h] assms Cons ny xy same_pls_upds [where h = h, OF ny] by simp
qed

lemma remove_list:
  assumes "cache_list h c (as @ x # bs)"
  obtains h' c' where "PLCache_remove h c (Some x) = Some (h', c')" "cache_list h' c' (as @ bs)"
    "same_pls h h'" "pc_max c' = pc_max c" "\<exists>nd. h' x = Some nd \<and> nd_next nd = None \<and> nd_prev nd = None"
proof -
  note l = cache_listD [OF assms]
  obtain nd where nd: "h x = Some nd" "nd_prev nd = final as None" "nd_next nd = first bs None"
    using l(2) by auto
  obtain h1 where h1: "upd_opt h (nd_prev nd) (\<lambda>p. p\<lparr>nd_next := nd_next nd\<rparr>) = Some h1" "h1 x = Some nd"
    "dll_seg h1 None as (first bs None)" "dll_seg h1 (Some x) bs None" "same_pls h h1"
    by (rule unlink_prev [OF l(2,1) nd(1)])
  obtain h2 where h2: "upd_opt h1 (nd_next nd) (\<lambda>n. n\<lparr>nd_prev := nd_prev nd\<rparr>) = Some h2" "h2 x = Some nd"
    "dll_seg h2 None (as @ bs) None" "same_pls h1 h2"
    by (rule unlink_next [OF h1(3,4) l(1) h1(2) nd(2,3)])
  let ?h = "h2(x \<mapsto> nd\<lparr>nd_next := None, nd_prev := None\<rparr>)"
  let ?c = "c\<lparr>pc_head := first (as @ bs) None, pc_tail := final (as @ bs) None, pc_count := pc_count c - 1\<rparr>"
  have "PLCache_remove h c (Some x) = Some (?h, ?c)"
  proof -
    have head: "Some x = pc_head c \<longleftrightarrow> as = []" using l(1,3) by (cases as) auto
    have tail: "Some x = pc_tail c \<longleftrightarrow> bs = []" using l(1,4) by (cases bs rule: rev_cases) auto
    have "pc_head c = (if as = [] then Some x else first as None)" "pc_tail c = (if bs = [] then Some x else final bs None)"
      using l(3,4) by (auto simp: first_def final_def split: list.split)
    with nd h1(1,2) h2(1,2) head tail show ?thesis
      by (cases "as = []"; cases "bs = []")
        (auto simp: PLCache_remove_def Let_def upd_Some first_def final_def split: list.split)
  qed
  moreover have "dll_seg ?h None (as @ bs) None" using h2(3) l(1) by simp
  with l have "cache_list ?h ?c (as @ bs)" by (simp add: cache_list_def)
  moreover have "same_pls h ?h"
    using same_pls_trans [OF same_pls_trans [OF h1(5) h2(4)] same_pls_upds [where h = h2, OF h2(2)]] by simp
  ultimately show thesis using that by simp
qed

lemma make_head_list:
  assumes "cache_list h c xs" "x \<in> set xs"
  obtains h' c' where "PLCache_make_head h c (Some x) = Some (h', c')" "cache_list h' c' (x # remove1 x xs)"
    "same_pls h h'" "pc_max c' = pc_max c"
proof -
  from assms(2) obtain as bs where xs: "xs = as @ x # bs" "x \<notin> set as" by (meson split_list_first)
  have rem: "remove1 x xs = as @ bs" using xs by (simp add: remove1_append)
  show thesis
  proof (cases "as = []")
    case True
    with assms(1) xs have "pc_head c = Some x" by (simp add: cache_list_def)
    with that [of h c] assms(1) xs rem True show thesis by (simp add: PLCache_make_head_def)
  next
    case False
    have ne: "pc_head c \<noteq> Some x" using assms(1) xs False by (cases as) (auto simp: cache_list_def)
    obtain h1 c1 nd where r: "PLCache_remove h c (Some x) = Some (h1, c1)" "cache_list h1 c1 (as @ bs)"
      "same_pls h h1" "pc_max c1 = pc_max c" "h1 x = Some nd"
      by (rule remove_list [OF assms(1) [unfolded xs(1)]]) blast
    have "x \<notin> set (as @ bs)" using assms(1) xs by (simp add: cache_list_def)
    from add_list [OF r(2) this r(5)] obtain h2 c2 where
      a: "PLCache_add h1 c1 (Some x) = Some (h2, c2)" "cache_list h2 c2 (x # as @ bs)" "same_pls h1 h2" "pc_max c2 = pc_max c1"
      by blast
    have "PLCache_make_head h c (Some x) = Some (h2, c2)" using ne r(1) a(1) by (simp add: PLCache_make_head_def)
    with a r rem that same_pls_trans show thesis by simp
  qed
qed

text \<open>Dropping entries from the tail.\<close>

definition freed :: "heap \<Rightarrow> nat list \<Rightarrow> heap" where
  "freed h xs = (\<lambda>y. if y \<in> set xs then None else h y)"

lemma freed_Nil [simp]: "freed h [] = h"
  by (simp add: freed_def)

lemma dll_seg_freed: "set xs \<inter> set zs = {} \<Longrightarrow> dll_seg (freed h zs) p xs n \<longleftrightarrow> dll_seg h p xs n"
  by (induction xs arbitrary: p) (auto simp: freed_def)

lemma drop_tail_list:
  assumes "dll_seg h None (ys @ zs) n" "distinct (ys @ zs)" "zs \<noteq> [] \<longrightarrow> scan = final (ys @ zs) None"
  shows "drop_tail (length zs) h prev scan = Some (freed h zs, if zs = [] then prev else final ys None)"
  using assms
proof (induction zs arbitrary: h n prev scan rule: rev_induct)
  case (snoc z zs)
  obtain nd where nd: "h z = Some nd" "nd_prev nd = final (ys @ zs) None" using snoc.prems(1) by auto
  let ?h = "h(z := None)"
  have seg: "dll_seg ?h None (ys @ zs) (Some z)" using snoc.prems(1,2) by simp
  have "drop_tail (length zs) ?h (nd_prev nd) (nd_prev nd) =
      Some (freed ?h zs, if zs = [] then nd_prev nd else final ys None)"
    using snoc.prems(2) nd(2) by (intro snoc.IH [OF seg]) simp_all
  moreover have "freed ?h zs = freed h (zs @ [z])" by (auto simp: freed_def)
  moreover have "scan = Some z" using snoc.prems(3) by simp
  ultimately show ?case using nd by (simp add: PLCacheEntry_free_def)
qed simp

lemma set_max_list:
  assumes "cache_list h c xs"
  obtains h' c' where "PLCache_set_max h c m = Some (h', c')" "cache_list h' c' (take (nat (max CACHE_MIN m)) xs)"
    "pc_max c' = max CACHE_MIN m" "\<forall>y \<in> set (drop (nat (max CACHE_MIN m)) xs). h' y = None"
    "same_pls (freed h (drop (nat (max CACHE_MIN m)) xs)) h'"
proof -
  note l = cache_listD [OF assms]
  let ?m = "max CACHE_MIN m"
  have pos: "0 < ?m" by (simp add: CACHE_MIN_def)
  have m: "(if m < CACHE_MIN then CACHE_MIN else m) = ?m" by simp
  show thesis
  proof (cases "int (length xs) > ?m")
    case False
    then have "length xs \<le> nat ?m" by linarith
    then have all: "take (nat ?m) xs = xs" "drop (nat ?m) xs = []" by simp_all
    have "PLCache_set_max h c m = Some (h, c\<lparr>pc_max := ?m\<rparr>)"
      using False l(5) by (auto simp: PLCache_set_max_def Let_def m)
    moreover have "cache_list h (c\<lparr>pc_max := ?m\<rparr>) xs" using l by (simp add: cache_list_def)
    ultimately show thesis using that all by simp
  next
    case True
    then have le: "nat ?m < length xs" using pos by linarith
    obtain ys zs where xs: "xs = ys @ zs" "take (nat ?m) xs = ys" "drop (nat ?m) xs = zs"
      by (metis append_take_drop_id)
    have "length ys = nat ?m" "length zs = length xs - nat ?m" unfolding xs(2,3) [symmetric] using le by auto
    moreover have "int (length xs - nat ?m) = int (length xs) - ?m" using le pos by simp
    then have "length xs - nat ?m = nat (int (length xs) - ?m)" by (metis nat_int)
    ultimately have len: "int (length ys) = ?m" "length zs = nat (int (length xs) - ?m)" "ys \<noteq> []" "zs \<noteq> []"
      using pos le by auto
    obtain us t where ys: "ys = us @ [t]" using len(3) by (meson rev_exhaust)
    have d: "distinct (ys @ zs)" and seg: "dll_seg h None (ys @ zs) None" and tl: "pc_tail c = final (ys @ zs) None"
      using l xs(1) by simp_all
    have dt: "drop_tail (length zs) h None (pc_tail c) = Some (freed h zs, Some t)"
      using drop_tail_list [OF seg d, of "pc_tail c" None] tl len(4) ys by simp
    have seg': "dll_seg (freed h zs) None (us @ [t]) (first zs None)"
      using seg d ys by (subst dll_seg_freed) auto
    then obtain nt where nt: "freed h zs t = Some nt" by auto
    let ?h = "(freed h zs)(t \<mapsto> nt\<lparr>nd_next := None\<rparr>)"
    let ?c = "c\<lparr>pc_max := ?m, pc_tail := Some t, pc_count := ?m\<rparr>"
    have "PLCache_set_max h c m = Some (?h, ?c)"
      using True l(5) dt len(2) nt by (simp add: PLCache_set_max_def Let_def m upd_Some)
    moreover have "dll_seg ?h None (us @ [t]) None"
      using dll_seg_set_next [OF seg' nt] d ys by simp
    then have "cache_list ?h ?c ys"
      using l(3) d len xs(1) ys by (simp add: cache_list_def)
    moreover have "\<forall>y \<in> set zs. ?h y = None" using d ys by (auto simp: freed_def)
    moreover have "same_pls (freed h zs) ?h" by (rule same_pls_upds [where h = "freed h zs", OF nt]) simp
    ultimately show thesis using that xs(2,3) by simp
  qed
qed

lemma free_from_list:
  assumes "dll_seg h p xs None" "distinct xs"
  shows "free_from h (first xs None) = Some (freed h xs)"
  using assms
proof (induction xs arbitrary: h p)
  case Nil
  then show ?case by (subst free_from.simps) simp
next
  case (Cons x xs)
  then obtain nd where nd: "h x = Some nd" "nd_next nd = first xs None" "dll_seg h (Some x) xs None" by auto
  have "dll_seg (h(x := None)) (Some x) xs None" using nd(3) Cons.prems(2) by simp
  moreover have "distinct xs" using Cons.prems(2) by simp
  ultimately have "free_from (h(x := None)) (first xs None) = Some (freed (h(x := None)) xs)"
    by (rule Cons.IH)
  moreover have "freed (h(x := None)) xs = freed h (x # xs)" by (auto simp: freed_def)
  ultimately show ?case using nd by (subst free_from.simps) (simp add: PLCacheEntry_free_def)
qed

section \<open>What the lookups find\<close>

fun scan_spec :: "heap \<Rightarrow> (ni_proplist \<Rightarrow> 's \<Rightarrow> bool \<times> 's) \<Rightarrow> nat list \<Rightarrow> 's \<Rightarrow> nat option \<times> 's" where
  "scan_spec h test [] s = (None, s)"
| "scan_spec h test (x # xs) s =
     (case test (nd_pl (the (h x))) s of (found, s) \<Rightarrow> if found then (Some x, s) else scan_spec h test xs s)"

lemma scan_list_spec:
  "dll_seg h p xs None \<Longrightarrow> scan_list h test (first xs None) s = Some (scan_spec h test xs s)"
proof (induction xs arbitrary: p s)
  case Nil
  then show ?case by (subst scan_list.simps) simp
next
  case (Cons x xs)
  then obtain nd where "h x = Some nd" "nd_next nd = first xs None" "dll_seg h (Some x) xs None" by auto
  with Cons.IH show ?case by (subst scan_list.simps) (simp split: prod.split)
qed

lemma scan_spec_mem: "scan_spec h test xs s = (Some x, s') \<Longrightarrow> x \<in> set xs"
  by (induction xs arbitrary: s) (auto split: prod.splits if_splits)

text \<open>For a test without a state of its own, the first entry that passes.\<close>

lemma scan_spec_find:
  "(\<And>pl s. snd (test pl s) = s) \<Longrightarrow>
    scan_spec h test xs s = (find (\<lambda>x. fst (test (nd_pl (the (h x))) s)) xs, s)"
  by (induction xs) (simp_all split: prod.split, metis snd_conv)

lemma lookup_list:
  assumes "cache_list h c xs" "scan_spec h test xs s = (r, s')"
  obtains h' c' where "lookup h c test mk s = Some (r, s', h', c')"
    "cache_list h' c' (case r of None \<Rightarrow> xs | Some x \<Rightarrow> if mk then x # remove1 x xs else xs)"
    "same_pls h h'" "pc_max c' = pc_max c"
proof -
  note l = cache_listD [OF assms(1)]
  have s: "scan_list h test (pc_head c) s = Some (r, s')" using scan_list_spec [OF l(2), of test s] assms(2) l(3) by simp
  show thesis
  proof (cases r)
    case None
    with s that [of h c] assms(1) show thesis by (simp add: lookup_def)
  next
    case (Some x)
    with assms(2) scan_spec_mem have x: "x \<in> set xs" by metis
    show thesis
    proof (cases mk)
      case False
      with s Some that [of h c] assms(1) show thesis by (simp add: lookup_def)
    next
      case True
      from make_head_list [OF assms(1) x] obtain h' c' where
        "PLCache_make_head h c (Some x) = Some (h', c')" "cache_list h' c' (x # remove1 x xs)" "same_pls h h'" "pc_max c' = pc_max c"
        by blast
      with s Some True that [of h' c'] show thesis by (simp add: lookup_def)
    qed
  qed
qed

lemma key_loop_spec:
  fixes func :: "('ip \<Rightarrow> bool) option"
  defines "accepts ip \<equiv> (case func of None \<Rightarrow> True | Some f \<Rightarrow> f ip)"
  assumes "key_loop matches inet_aton True func ips n ks s = (found, s')"
  shows "(found \<longrightarrow> (\<exists>j < length ks. \<exists>ip. matches (ks ! j) \<and> inet_aton (ips ! ((n + j) mod length ips)) = Some ip \<and>
       accepts ip \<and> b_client_ip s' = Some ip \<and> b_has_binding s')) \<and>
    (\<not> found \<longrightarrow> (\<forall>j < length ks. \<forall>ip. matches (ks ! j) \<longrightarrow> inet_aton (ips ! ((n + j) mod length ips)) = Some ip \<longrightarrow>
       \<not> accepts ip))"
  using assms(2)
proof (induction ks arbitrary: n s)
  case (Cons k ks)
  show ?case
  proof (cases "matches k \<and> (\<exists>ip. inet_aton (ips ! (n mod length ips)) = Some ip \<and> accepts ip)")
    case True
    then obtain ip where ip: "matches k" "inet_aton (ips ! (n mod length ips)) = Some ip" "accepts ip" by blast
    with Cons.prems have "found \<and> b_client_ip s' = Some ip \<and> b_has_binding s'"
      by (auto simp: Let_def accepts_def split: if_splits option.splits)
    with ip show ?thesis by (intro conjI impI exI [of _ 0]) auto
  next
    case False
    obtain t where step: "key_loop matches inet_aton True func ips (n + 1) ks t = (found, s')"
    proof (cases "matches k")
      case no: False
      with Cons.prems that [of s] show thesis by simp
    next
      case True
      show thesis
      proof (cases "inet_aton (ips ! (n mod length ips))")
        case None
        with True Cons.prems that [of s] show thesis by simp
      next
        case (Some ip)
        with True False have "\<not> accepts ip" by blast
        with True Some Cons.prems that show thesis
          by (auto simp: Let_def accepts_def split: if_splits option.splits)
      qed
    qed
    note IH = Cons.IH [OF step]
    show ?thesis
    proof (cases found)
      case True
      then obtain j ip where "j < length ks" "matches (ks ! j)" "inet_aton (ips ! ((n + 1 + j) mod length ips)) = Some ip"
        "accepts ip" "b_client_ip s' = Some ip" "b_has_binding s'" using IH by blast
      with True show ?thesis by (intro conjI impI exI [of _ "Suc j"] exI [of _ ip]) auto
    next
      case notfound: False
      have "\<not> accepts ip" if "j < length (k # ks)" "matches ((k # ks) ! j)"
        "inet_aton (ips ! ((n + j) mod length ips)) = Some ip" for j ip
      proof (cases j)
        case 0
        with that False show ?thesis by auto
      next
        case (Suc i)
        with that IH notfound show ?thesis by simp
      qed
      with notfound show ?thesis by blast
    qed
  qed
qed simp

lemma pls_same:
  assumes "same_pls h h'"
  shows "pls h' xs = pls h xs"
proof -
  have "nd_pl (the (h' x)) = nd_pl (the (h x))" for x
    using assms spec [of "\<lambda>y. map_option nd_pl (h' y) = map_option nd_pl (h y)" x]
    by (cases "h x"; cases "h' x") (simp_all add: same_pls_def)
  then show ?thesis by (simp add: pls_def)
qed

lemma create_list:
  assumes "cache_list h c xs" "x \<notin> set xs"
  shows "cache_list (h(x \<mapsto> nd)) c xs"
  using assms by (simp add: cache_list_def)

lemma create_pls:
  assumes "x \<notin> set xs"
  shows "pls (h(x \<mapsto> nd)) xs = pls h xs"
  using assms by (auto simp: pls_def)

text \<open>
  C16: Every operation on the doubly linked list of the cache, on entries that are nodes of the heap, does
  what its name says to the list of the entries, keeps the links, the two ends and the count
  in step with it, changes no property list, and never follows a dangling pointer: entries
  are put at the head or at the tail, taken out, moved to the head; a smaller maximum frees
  exactly the entries at the tail that are too many; freeing the cache frees every entry.
\<close>

theorem plcache_refines_list:
  assumes "cache_list h c xs"
  shows "(x \<notin> set xs \<longrightarrow> (\<exists>h1 h' c'. PLCacheEntry_create h pl (Some x) = (Some x, h1) \<and>
      PLCache_add h1 c (Some x) = Some (h', c') \<and> cache_list h' c' (x # xs) \<and> pls h' (x # xs) = pl # pls h xs)) \<and>
    (x \<notin> set xs \<longrightarrow> (\<exists>h1 h' c'. PLCacheEntry_create h pl (Some x) = (Some x, h1) \<and>
      PLCache_append h1 c (Some x) = Some (h', c') \<and> cache_list h' c' (xs @ [x]) \<and> pls h' (xs @ [x]) = pls h xs @ [pl])) \<and>
    (x \<in> set xs \<longrightarrow> (\<exists>h' c'. PLCache_remove h c (Some x) = Some (h', c') \<and> cache_list h' c' (remove1 x xs) \<and>
      h' x \<noteq> None \<and> pls h' xs = pls h xs)) \<and>
    (x \<in> set xs \<longrightarrow> (\<exists>h' c'. PLCache_make_head h c (Some x) = Some (h', c') \<and>
      cache_list h' c' (x # remove1 x xs) \<and> pls h' xs = pls h xs)) \<and>
    (\<exists>h' c'. PLCache_set_max h c m = Some (h', c') \<and> cache_list h' c' (take (nat (max CACHE_MIN m)) xs) \<and>
      PLCache_count c' \<le> pc_max c' \<and> (\<forall>y \<in> set (drop (nat (max CACHE_MIN m)) xs). h' y = None) \<and>
      pls h' (take (nat (max CACHE_MIN m)) xs) = take (nat (max CACHE_MIN m)) (pls h xs)) \<and>
    (\<exists>h' c'. PLCache_free h c = Some (h', c') \<and> cache_list h' c' [] \<and> (\<forall>y \<in> set xs. h' y = None))"
proof (intro conjI impI)
  let ?nd = "\<lparr>nd_pl = pl, nd_next = None, nd_prev = None\<rparr>"
  assume x: "x \<notin> set xs"
  have cr: "PLCacheEntry_create h pl (Some x) = (Some x, h(x \<mapsto> ?nd))" by (simp add: PLCacheEntry_create_def)
  note l = create_list [OF assms x, of ?nd]
  obtain h' c' where a: "PLCache_add (h(x \<mapsto> ?nd)) c (Some x) = Some (h', c')" "cache_list h' c' (x # xs)"
    "same_pls (h(x \<mapsto> ?nd)) h'" by (rule add_list [OF l x, of ?nd]) simp_all
  have "pls h' (x # xs) = pl # pls h xs"
    using pls_same [OF a(3), of "x # xs"] create_pls [OF x, of h ?nd] by (simp add: pls_def)
  with cr a show "\<exists>h1 h' c'. PLCacheEntry_create h pl (Some x) = (Some x, h1) \<and>
      PLCache_add h1 c (Some x) = Some (h', c') \<and> cache_list h' c' (x # xs) \<and> pls h' (x # xs) = pl # pls h xs" by blast
  obtain h' c' where b: "PLCache_append (h(x \<mapsto> ?nd)) c (Some x) = Some (h', c')" "cache_list h' c' (xs @ [x])"
    "same_pls (h(x \<mapsto> ?nd)) h'" by (rule append_list [OF l x, of ?nd]) simp_all
  have "pls h' (xs @ [x]) = pls h xs @ [pl]"
    using pls_same [OF b(3), of "xs @ [x]"] create_pls [OF x, of h ?nd] by (simp add: pls_def)
  with cr b show "\<exists>h1 h' c'. PLCacheEntry_create h pl (Some x) = (Some x, h1) \<and>
      PLCache_append h1 c (Some x) = Some (h', c') \<and> cache_list h' c' (xs @ [x]) \<and> pls h' (xs @ [x]) = pls h xs @ [pl]"
    by blast
next
  assume x: "x \<in> set xs"
  from x obtain as bs where xs: "xs = as @ x # bs" "x \<notin> set as" by (meson split_list_first)
  then have rem: "remove1 x xs = as @ bs" by (simp add: remove1_append)
  obtain h' c' nd where "PLCache_remove h c (Some x) = Some (h', c')" "cache_list h' c' (as @ bs)"
    "same_pls h h'" "h' x = Some nd" by (rule remove_list [OF assms [unfolded xs(1)]]) blast
  with rem pls_same show "\<exists>h' c'. PLCache_remove h c (Some x) = Some (h', c') \<and> cache_list h' c' (remove1 x xs) \<and>
      h' x \<noteq> None \<and> pls h' xs = pls h xs" by auto
  obtain h' c' where "PLCache_make_head h c (Some x) = Some (h', c')" "cache_list h' c' (x # remove1 x xs)" "same_pls h h'"
    by (rule make_head_list [OF assms x])
  with pls_same show "\<exists>h' c'. PLCache_make_head h c (Some x) = Some (h', c') \<and>
      cache_list h' c' (x # remove1 x xs) \<and> pls h' xs = pls h xs" by blast
next
  let ?m = "nat (max CACHE_MIN m)"
  obtain h' c' where s: "PLCache_set_max h c m = Some (h', c')" "cache_list h' c' (take ?m xs)"
    "pc_max c' = max CACHE_MIN m" "\<forall>y \<in> set (drop ?m xs). h' y = None" "same_pls (freed h (drop ?m xs)) h'"
    by (rule set_max_list [OF assms])
  have "set (take ?m xs) \<inter> set (drop ?m xs) = {}"
    using cache_listD(1) [OF assms] by (metis append_take_drop_id distinct_append)
  then have "pls (freed h (drop ?m xs)) (take ?m xs) = pls h (take ?m xs)" by (auto simp: pls_def freed_def)
  then have "pls h' (take ?m xs) = take ?m (pls h xs)" using pls_same [OF s(5)] by (simp add: pls_def take_map)
  moreover have "PLCache_count c' \<le> pc_max c'"
    using cache_listD(5) [OF s(2)] s(3) by (simp add: PLCache_count_def CACHE_MIN_def)
  ultimately show "\<exists>h' c'. PLCache_set_max h c m = Some (h', c') \<and> cache_list h' c' (take ?m xs) \<and>
      PLCache_count c' \<le> pc_max c' \<and> (\<forall>y \<in> set (drop ?m xs). h' y = None) \<and> pls h' (take ?m xs) = take ?m (pls h xs)"
    using s by blast
next
  have "free_from h (pc_head c) = Some (freed h xs)"
    using free_from_list [OF cache_listD(2,1) [OF assms]] cache_listD(3) [OF assms] by simp
  then show "\<exists>h' c'. PLCache_free h c = Some (h', c') \<and> cache_list h' c' [] \<and> (\<forall>y \<in> set xs. h' y = None)"
    by (simp add: PLCache_free_def cache_list_def freed_def)
qed

theorem plcache_refines_list_witness:
  "\<exists>h' c'. PLCache_add ((\<lambda>_. None)(3 \<mapsto> \<lparr>nd_pl = [], nd_next = None, nd_prev = None\<rparr>)) PLCache_init (Some 3) = Some (h', c') \<and>
     cache_list h' c' [3]"
  using plcache_refines_list [of "\<lambda>_. None" PLCache_init "[]" 3 "[]" 0]
  by (auto simp: cache_list_def PLCache_init_def PLCacheEntry_create_def)

section \<open>Bindings of clients to addresses\<close>

text \<open>
  The meaning of an entry: a client key among the values of the property \<open>key\<close> has the address
  at the same place of the addresses, which repeat when there are fewer of them than keys.
\<close>

definition bound_to :: "(ni_name \<Rightarrow> bool) \<Rightarrow> (ni_name \<Rightarrow> 'ip option) \<Rightarrow> ni_name \<Rightarrow> ni_proplist \<Rightarrow> 'ip \<Rightarrow> bool" where
  "bound_to matches inet_aton key pl ip =
     (case ni_nlforprop pl key of None \<Rightarrow> False
      | Some ks \<Rightarrow>
         (case ni_nlforprop pl ''ip_address'' of None \<Rightarrow> False
          | Some ips \<Rightarrow> ips \<noteq> [] \<and>
              (\<exists>j < length ks. matches (ks ! j) \<and> inet_aton (ips ! (j mod length ips)) = Some ip)))"

definition accepts :: "('ip \<Rightarrow> bool) option \<Rightarrow> 'ip \<Rightarrow> bool" where
  "accepts func ip = (case func of None \<Rightarrow> True | Some f \<Rightarrow> f ip)"

definition has_address :: "(ni_name \<Rightarrow> 'ip option) \<Rightarrow> 'ip \<Rightarrow> ni_proplist \<Rightarrow> bool" where
  "has_address inet_aton ip pl =
     (case ni_nlforprop pl ''ip_address'' of None \<Rightarrow> False | Some ips \<Rightarrow> \<exists>a \<in> set ips. inet_aton a = Some ip)"

definition moved :: "nat option \<Rightarrow> nat list \<Rightarrow> nat list" where
  \<comment> \<open>the list with the entry that was found at its head\<close>
  "moved r xs = (case r of None \<Rightarrow> xs | Some x \<Rightarrow> x # remove1 x xs)"

lemma values_of_eq:
  assumes "length pl < NI_INDEX_NULL"
  shows "values_of pl name = ni_nlforprop pl name"
proof -
  from assms match_name_from [of 0 pl name]
  consider "ni_proplist_match pl name None = NI_INDEX_NULL" "\<forall>p \<in> set pl. nip_name p \<noteq> name"
    | j where "j < length pl" "ni_proplist_match pl name None = j" "nip_name (pl ! j) = name"
      "\<forall>k < j. nip_name (pl ! k) \<noteq> name"
    by (auto simp: ni_proplist_match_def)
  then show ?thesis
  proof cases
    case 1
    then show ?thesis by (simp add: values_of_def nlforprop_none)
  next
    case (2 j)
    with nlforprop_update_same [OF 2(1,4), of "pl ! j"] assms show ?thesis by (simp add: values_of_def)
  qed
qed

lemma key_loop_bound:
  assumes "length pl < NI_INDEX_NULL" "ni_nlforprop pl key = Some ks" "ni_nlforprop pl ''ip_address'' = Some ips" "ips \<noteq> []"
  shows "fst (key_loop matches inet_aton True func ips 0 ks s) \<longleftrightarrow>
      (\<exists>ip. bound_to matches inet_aton key pl ip \<and> accepts func ip)"
    and "fst (key_loop matches inet_aton True func ips 0 ks s) \<Longrightarrow>
      (\<exists>ip. bound_to matches inet_aton key pl ip \<and> accepts func ip \<and>
        snd (key_loop matches inet_aton True func ips 0 ks s) = \<lparr>b_client_ip = Some ip, b_has_binding = True\<rparr>)"
proof -
  let ?k = "key_loop matches inet_aton True func ips 0 ks s"
  note spec = key_loop_spec [OF prod.collapse [of ?k, symmetric], folded accepts_def]
  show "fst ?k \<longleftrightarrow> (\<exists>ip. bound_to matches inet_aton key pl ip \<and> accepts func ip)"
    using spec assms by (cases "fst ?k") (auto simp: bound_to_def)
  assume "fst ?k"
  with spec obtain j ip where "j < length ks" "matches (ks ! j)" "inet_aton (ips ! (j mod length ips)) = Some ip"
    "accepts func ip" "b_client_ip (snd ?k) = Some ip" "b_has_binding (snd ?k)" by auto
  with assms show "\<exists>ip. bound_to matches inet_aton key pl ip \<and> accepts func ip \<and>
      snd ?k = \<lparr>b_client_ip = Some ip, b_has_binding = True\<rparr>"
    by (intro exI [of _ ip]) (auto simp: bound_to_def intro: binding.equality)
qed

lemma hw_test_bound:
  assumes "length pl < NI_INDEX_NULL"
  shows "fst (hw_test ether_aton inet_aton hwaddr func pl s) \<longleftrightarrow>
      (\<exists>ip. bound_to (\<lambda>en. ether_aton en = Some hwaddr) inet_aton ''en_address'' pl ip \<and> accepts func ip)"
    and "fst (hw_test ether_aton inet_aton hwaddr func pl s) \<Longrightarrow>
      (\<exists>ip. bound_to (\<lambda>en. ether_aton en = Some hwaddr) inet_aton ''en_address'' pl ip \<and> accepts func ip \<and>
        snd (hw_test ether_aton inet_aton hwaddr func pl s) = \<lparr>b_client_ip = Some ip, b_has_binding = True\<rparr>)"
proof -
  let ?t = "hw_test ether_aton inet_aton hwaddr func pl s" and ?m = "\<lambda>en. ether_aton en = Some hwaddr"
  have "(\<not> fst ?t \<and> (\<forall>ip. \<not> bound_to ?m inet_aton ''en_address'' pl ip)) \<or>
    (\<exists>ens ips. ni_nlforprop pl ''en_address'' = Some ens \<and> ni_nlforprop pl ''ip_address'' = Some ips \<and> ips \<noteq> [] \<and>
       ?t = key_loop ?m inet_aton True func ips 0 ens s)"
    by (auto simp: hw_test_def values_of_eq [OF assms] bound_to_def split: option.split)
  with key_loop_bound [OF assms, of "''en_address''" _ _ ?m inet_aton func s]
  show "fst ?t \<longleftrightarrow> (\<exists>ip. bound_to ?m inet_aton ''en_address'' pl ip \<and> accepts func ip)"
    and "fst ?t \<Longrightarrow> (\<exists>ip. bound_to ?m inet_aton ''en_address'' pl ip \<and> accepts func ip \<and>
        snd ?t = \<lparr>b_client_ip = Some ip, b_has_binding = True\<rparr>)"
    by (metis (no_types, lifting))+
qed

lemma identifier_test_bound:
  assumes "length pl < NI_INDEX_NULL"
  shows "fst (identifier_test inet_aton idstr True func pl s) \<longleftrightarrow>
      (\<exists>ip. bound_to (\<lambda>x. x = idstr) inet_aton ''identifier'' pl ip \<and> accepts func ip)"
    and "fst (identifier_test inet_aton idstr True func pl s) \<Longrightarrow>
      (\<exists>ip. bound_to (\<lambda>x. x = idstr) inet_aton ''identifier'' pl ip \<and> accepts func ip \<and>
        snd (identifier_test inet_aton idstr True func pl s) = \<lparr>b_client_ip = Some ip, b_has_binding = True\<rparr>)"
proof -
  let ?t = "identifier_test inet_aton idstr True func pl s" and ?m = "\<lambda>x. x = idstr"
  have "(\<not> fst ?t \<and> (\<forall>ip. \<not> bound_to ?m inet_aton ''identifier'' pl ip)) \<or>
    (\<exists>ks ips. ni_nlforprop pl ''identifier'' = Some ks \<and> ni_nlforprop pl ''ip_address'' = Some ips \<and> ips \<noteq> [] \<and>
       ?t = key_loop ?m inet_aton True func ips 0 ks s)"
    by (auto simp: identifier_test_def values_of_eq [OF assms] bound_to_def split: option.split list.split)
  with key_loop_bound [OF assms, of "''identifier''" _ _ ?m inet_aton func s]
  show "fst ?t \<longleftrightarrow> (\<exists>ip. bound_to ?m inet_aton ''identifier'' pl ip \<and> accepts func ip)"
    and "fst ?t \<Longrightarrow> (\<exists>ip. bound_to ?m inet_aton ''identifier'' pl ip \<and> accepts func ip \<and>
        snd ?t = \<lparr>b_client_ip = Some ip, b_has_binding = True\<rparr>)"
    by (metis (no_types, lifting))+
qed

section \<open>The contract of the tests\<close>

text \<open>
  What a lookup needs of its test: the answer depends on the property list alone, and the state
  behind an entry that passes is one that belongs to it. Then the lookup finds the first entry
  that passes, whatever the entries before it wrote.
\<close>

locale entry_test =
  fixes test :: "ni_proplist \<Rightarrow> 's \<Rightarrow> bool \<times> 's"
    and passes :: "ni_proplist \<Rightarrow> bool"
    and leaves :: "ni_proplist \<Rightarrow> 's \<Rightarrow> bool"
  assumes answer: "length pl < NI_INDEX_NULL \<Longrightarrow> fst (test pl s) = passes pl"
    and result: "length pl < NI_INDEX_NULL \<Longrightarrow> passes pl \<Longrightarrow> leaves pl (snd (test pl s))"
begin

lemma scan_first:
  assumes "\<forall>x \<in> set xs. length (nd_pl (the (h x))) < NI_INDEX_NULL"
  shows "fst (scan_spec h test xs s) = find (\<lambda>x. passes (nd_pl (the (h x)))) xs \<and>
    (\<forall>x. fst (scan_spec h test xs s) = Some x \<longrightarrow> leaves (nd_pl (the (h x))) (snd (scan_spec h test xs s)))"
  using assms
proof (induction xs arbitrary: s)
  case (Cons x xs)
  obtain found s1 where t: "test (nd_pl (the (h x))) s = (found, s1)" by fastforce
  with answer [of "nd_pl (the (h x))" s] result [of "nd_pl (the (h x))" s] Cons.prems
  have "found = passes (nd_pl (the (h x)))" "found \<longrightarrow> leaves (nd_pl (the (h x))) s1" by auto
  with t Cons.IH [of s1] Cons.prems show ?case by simp
qed simp

lemma lookup_first:
  assumes "cache_list h c xs" "\<forall>x \<in> set xs. length (nd_pl (the (h x))) < NI_INDEX_NULL"
  shows "let r = find (\<lambda>x. passes (nd_pl (the (h x)))) xs in
    \<exists>s' h' c'. lookup h c test mk s = Some (r, s', h', c') \<and> cache_list h' c' (if mk then moved r xs else xs) \<and>
      pls h' xs = pls h xs \<and> (\<forall>x. r = Some x \<longrightarrow> leaves (nd_pl (the (h x))) s')"
proof -
  obtain r s' where r: "scan_spec h test xs s = (r, s')" by fastforce
  with scan_first [OF assms(2), of s]
  have rs: "r = find (\<lambda>x. passes (nd_pl (the (h x)))) xs" "\<forall>x. r = Some x \<longrightarrow> leaves (nd_pl (the (h x))) s'"
    by simp_all
  obtain h' c' where "lookup h c test mk s = Some (r, s', h', c')"
    "cache_list h' c' (case r of None \<Rightarrow> xs | Some x \<Rightarrow> if mk then x # remove1 x xs else xs)" "same_pls h h'"
    by (rule lookup_list [OF assms(1) r])
  with rs pls_same show ?thesis unfolding Let_def rs(1) [symmetric] by (auto simp: moved_def split: option.splits)
qed

end

definition binding_of :: "(ni_name \<Rightarrow> bool) \<Rightarrow> (ni_name \<Rightarrow> 'ip option) \<Rightarrow> ni_name \<Rightarrow> ('ip \<Rightarrow> bool) option \<Rightarrow> ni_proplist \<Rightarrow> 'ip binding \<Rightarrow> bool" where
  "binding_of matches inet_aton key func pl b =
     (\<exists>ip. bound_to matches inet_aton key pl ip \<and> accepts func ip \<and> b = \<lparr>b_client_ip = Some ip, b_has_binding = True\<rparr>)"

interpretation prop_test: entry_test "\<lambda>pl s. (ni_proplist_match pl key v \<noteq> NI_INDEX_NULL, s)"
  "\<lambda>pl. ni_proplist_match pl key v \<noteq> NI_INDEX_NULL" "\<lambda>pl s. True" for key v
  by unfold_locales simp_all

interpretation hw_test: entry_test "hw_test ether_aton inet_aton hwaddr func"
  "\<lambda>pl. \<exists>ip. bound_to (\<lambda>en. ether_aton en = Some hwaddr) inet_aton ''en_address'' pl ip \<and> accepts func ip"
  "binding_of (\<lambda>en. ether_aton en = Some hwaddr) inet_aton ''en_address'' func"
  for ether_aton inet_aton hwaddr func
  by unfold_locales (simp add: hw_test_bound(1), unfold binding_of_def, rule hw_test_bound(2), assumption, simp add: hw_test_bound(1))

interpretation identifier_test: entry_test "identifier_test inet_aton idstr True func"
  "\<lambda>pl. \<exists>ip. bound_to (\<lambda>i. i = idstr) inet_aton ''identifier'' pl ip \<and> accepts func ip"
  "binding_of (\<lambda>i. i = idstr) inet_aton ''identifier'' func"
  for inet_aton idstr func
  by unfold_locales (simp add: identifier_test_bound(1), unfold binding_of_def, rule identifier_test_bound(2), assumption, simp add: identifier_test_bound(1))

interpretation ip_test: entry_test "ip_test inet_aton iaddr" "has_address inet_aton iaddr" "\<lambda>pl s. True"
  for inet_aton iaddr
  by unfold_locales (simp_all add: ip_test_def has_address_def values_of_eq split: option.split)

text \<open>
  C17: The lookups find the entry that the property lists name, put it at the head of the
  list and change no property list. By property: the first entry whose list matches. By
  hardware address or by identifier, with a pointer for the address of the client: the first
  entry that binds the client to an address that the caller's function accepts, and that
  address is the result, with a binding reported. By address: the first entry with that address.
\<close>

theorem lookups_find:
  assumes "cache_list h c xs" "\<forall>x \<in> set xs. length (nd_pl (the (h x))) < NI_INDEX_NULL"
  shows "(let r = find (\<lambda>x. ni_proplist_match (nd_pl (the (h x))) prop v \<noteq> NI_INDEX_NULL) xs in
      \<exists>h' c'. PLCache_lookup_prop h c prop v mk = Some (r, (), h', c') \<and>
        cache_list h' c' (if mk then moved r xs else xs) \<and> pls h' xs = pls h xs) \<and>
    (let hw = bound_to (\<lambda>en. ether_aton en = Some hwaddr) inet_aton ''en_address'';
         r = find (\<lambda>x. \<exists>ip. hw (nd_pl (the (h x))) ip \<and> accepts func ip) xs in
      \<exists>b h' c'. PLCache_lookup_hw ether_aton inet_aton h c hwaddr func ip0 = Some (r, b, h', c') \<and>
        cache_list h' c' (moved r xs) \<and> pls h' xs = pls h xs \<and>
        (\<forall>x. r = Some x \<longrightarrow> (\<exists>ip. hw (nd_pl (the (h x))) ip \<and> accepts func ip \<and> b = \<lparr>b_client_ip = Some ip, b_has_binding = True\<rparr>))) \<and>
    (let ident = bound_to (\<lambda>i. i = idstr) inet_aton ''identifier'';
         r = find (\<lambda>x. \<exists>ip. ident (nd_pl (the (h x))) ip \<and> accepts func ip) xs in
      \<exists>b h' c'. PLCache_lookup_identifier inet_aton h c idstr func True ip0 = Some (r, b, h', c') \<and>
        cache_list h' c' (moved r xs) \<and> pls h' xs = pls h xs \<and>
        (\<forall>x. r = Some x \<longrightarrow> (\<exists>ip. ident (nd_pl (the (h x))) ip \<and> accepts func ip \<and> b = \<lparr>b_client_ip = Some ip, b_has_binding = True\<rparr>))) \<and>
    (let r = find (\<lambda>x. has_address inet_aton iaddr (nd_pl (the (h x)))) xs in
      \<exists>h' c'. PLCache_lookup_ip inet_aton h c iaddr = Some (r, (), h', c') \<and>
        cache_list h' c' (moved r xs) \<and> pls h' xs = pls h xs)"
  using prop_test.lookup_first [OF assms, of "prop" v mk "()"] ip_test.lookup_first [OF assms, of inet_aton iaddr True "()"]
    hw_test.lookup_first [OF assms, of ether_aton hwaddr inet_aton func True "\<lparr>b_client_ip = ip0, b_has_binding = False\<rparr>"]
    identifier_test.lookup_first [OF assms, of idstr inet_aton func True "\<lparr>b_client_ip = ip0, b_has_binding = False\<rparr>"]
  unfolding PLCache_lookup_prop_def PLCache_lookup_ip_def PLCache_lookup_hw_def PLCache_lookup_identifier_def
    binding_of_def Let_def
  by (intro conjI) simp_all

theorem lookups_find_witness:
  "\<exists>h' c'. PLCache_lookup_ip Some
      ((\<lambda>_. None)(3 \<mapsto> \<lparr>nd_pl = [\<lparr>nip_name = ''ip_address'', nip_val = [''10.0.0.2'']\<rparr>], nd_next = None, nd_prev = None\<rparr>))
      \<lparr>pc_head = Some 3, pc_tail = Some 3, pc_max = 256, pc_count = 1\<rparr> ''10.0.0.2'' = Some (Some 3, (), h', c') \<and>
     cache_list h' c' [3]"
proof -
  let ?pl = "[\<lparr>nip_name = ''ip_address'', nip_val = [''10.0.0.2'']\<rparr>]"
  let ?h = "(\<lambda>_. None)(3 \<mapsto> \<lparr>nd_pl = ?pl, nd_next = None, nd_prev = None\<rparr>)"
  let ?c = "\<lparr>pc_head = Some 3, pc_tail = Some 3, pc_max = 256, pc_count = 1\<rparr>"
  have l: "cache_list ?h ?c [3]" "\<forall>x \<in> set [3]. length (nd_pl (the (?h x))) < NI_INDEX_NULL"
    by (simp_all add: cache_list_def NI_INDEX_NULL_def)
  have r: "find (\<lambda>x. has_address Some ''10.0.0.2'' (nd_pl (the (?h x)))) [3] = Some 3" "moved (Some 3) [3] = [3]"
    by (simp_all add: has_address_def moved_def)
  have "let r = find (\<lambda>x. has_address Some ''10.0.0.2'' (nd_pl (the (?h x)))) [3] in
      \<exists>h' c'. PLCache_lookup_ip Some ?h ?c ''10.0.0.2'' = Some (r, (), h', c') \<and>
        cache_list h' c' (moved r [3]) \<and> pls h' [3] = pls ?h [3]"
    using lookups_find [OF l, of "[]" None False "\<lambda>_. None" "()" Some None None "[]" "''10.0.0.2''"] by (elim conjE)
  then show ?thesis unfolding Let_def r by blast
qed

end
