(* ===== verification/Ni_Cache_File.thy ===== *)
theory Ni_Cache_File
  imports Ni_Cache
begin

text \<open>
  The file of the cache of property lists (\<open>PLCache_read\<close> and \<open>PLCache_write\<close> of \<open>NICache.c\<close>): an
  entry is a line with an opening brace, a line for each property and a line with a closing
  brace. A inp is the string of its characters; the files are a map from their names. That a
  inp can be opened for writing, and the results of \<open>malloc\<close> in the order of the calls, are
  arguments. What goes to the standard error is not modelled.
\<close>

section \<open>Lines\<close>

definition NUL :: char where
  "NUL = CHR 0x00"

definition NL :: char where
  "NL = CHR 0x0A"

definition TAB :: char where
  "TAB = CHR 0x09"

text \<open>
  One character after the other, with the room that is left; what does not fit is read and
  thrown away. The first argument is the rest of the file.
\<close>

fun fgets_loop :: "string \<Rightarrow> nat \<Rightarrow> string \<Rightarrow> string \<times> string" where
  "fgets_loop [] left buf = (buf, [])"
| "fgets_loop (c # inp) left buf =
     (if c = NUL then (buf, inp)
      else
        (let (buf, left) = (if left > 0 then (buf @ [c], left - 1) else (buf, left)) in
         if c = NL then (buf, inp) else fgets_loop inp left buf))"

definition my_fgets :: "nat \<Rightarrow> string \<Rightarrow> string option \<times> string" where
  "my_fgets buf_size inp =
     (case fgets_loop inp (buf_size - 1) [] of (buf, inp) \<Rightarrow> (if buf = [] then None else Some buf, inp))"

section \<open>Reading\<close>

datatype place = nowhere_e | start_e | body_e | end_e

record reader =
  rd_heap :: heap
  rd_cache :: plcache
  rd_pl :: ni_proplist
  rd_where :: place
  rd_calls :: nat

definition is_space :: "char \<Rightarrow> bool" where
  "is_space c = (c = CHR '' '' \<or> c = TAB \<or> c = NL)"

text \<open>
  The comparison of an \<open>int\<close> with a \<open>sizeof\<close> is one of unsigned numbers: a negative length
  counts as too long.
\<close>

definition clip :: "int \<Rightarrow> nat \<Rightarrow> nat" where
  "clip n sz = (if n < 0 \<or> n \<ge> int sz then sz - 1 else nat n)"

text \<open>The property on a line, \<open>None\<close> for a blank line.\<close>

definition parse_line :: "string \<Rightarrow> (ni_name \<times> ni_name option) option" where
  "parse_line line =
     (let len = int (length line);
          whitespace_len = int (length (takeWhile is_space line)) in
      if whitespace_len = len then None
      else if CHR ''='' \<in> set line then
        (let sep = int (length (takeWhile (\<lambda>c. c \<noteq> CHR ''='') line));
             nlen = sep - whitespace_len;
             vlen = len - whitespace_len - nlen - 2 in
         Some (take (clip nlen 128) (drop (nat whitespace_len) line),
               Some (take (clip vlen 768) (drop (nat sep + 1) line))))
      else
        (let nlen = len - whitespace_len - 1 in
         Some (take (clip nlen 128) (drop (nat whitespace_len) line), None)))"

text \<open>The flag is whether the loop goes on; it stops at a brace out of place.\<close>

definition read_line :: "(nat \<Rightarrow> nat option) \<Rightarrow> reader \<Rightarrow> string \<Rightarrow> (reader \<times> bool) option" where
  "read_line mem rd line =
     (if line = [CHR ''{'', NL] then
        (if rd_where rd \<noteq> end_e \<and> rd_where rd \<noteq> nowhere_e then Some (rd, False)
         else Some (rd\<lparr>rd_where := start_e\<rparr>, True))
      else if line = [CHR ''}'', NL] then
        (if rd_where rd \<noteq> start_e \<and> rd_where rd \<noteq> body_e then Some (rd, False)
         else if length (rd_pl rd) > 0 then
           (case PLCacheEntry_create (rd_heap rd) (rd_pl rd) (mem (rd_calls rd)) of
              (entry, h) \<Rightarrow>
                do { (h, c) \<leftarrow> PLCache_append h (rd_cache rd) entry;
                     Some (\<lparr>rd_heap = h, rd_cache = c, rd_pl = [], rd_where = end_e, rd_calls = rd_calls rd + 1\<rparr>, True) })
         else Some (rd\<lparr>rd_where := end_e\<rparr>, True))
      else
        (case parse_line line of
           None \<Rightarrow> Some (rd, True)
         | Some (propname, propval) \<Rightarrow>
             Some (rd\<lparr>rd_pl := ni_proplist_insertprop (rd_pl rd) propname propval NI_INDEX_NULL,
                      rd_where := body_e\<rparr>, True)))"

lemma fgets_loop_shorter:
  "fgets_loop inp left buf = (buf', rest) \<Longrightarrow>
    length rest \<le> length inp \<and> (buf' \<noteq> buf \<longrightarrow> length rest < length inp)"
  by (induction inp left buf rule: fgets_loop.induct) (fastforce simp: Let_def split: if_splits prod.splits)+

lemma my_fgets_shorter: "my_fgets n inp = (Some line, rest) \<Longrightarrow> length rest < length inp"
  using fgets_loop_shorter [of inp "n - 1" "[]"]
  by (auto simp: my_fgets_def split: prod.splits if_splits)

function read_loop :: "(nat \<Rightarrow> nat option) \<Rightarrow> reader \<Rightarrow> string \<Rightarrow> reader option" where
  "read_loop mem rd inp =
     (case my_fgets 1024 inp of
        (None, _) \<Rightarrow> Some rd
      | (Some line, rest) \<Rightarrow>
          (case read_line mem rd line of
             None \<Rightarrow> None
           | Some (rd, True) \<Rightarrow> read_loop mem rd rest
           | Some (rd, False) \<Rightarrow> Some rd))"
  by auto
termination
  by (relation "measure (\<lambda>(mem, rd, inp). length inp)") (auto dest: my_fgets_shorter [OF sym])

declare read_loop.simps [simp del]

type_synonym files = "string \<Rightarrow> string option"

text \<open>Whatever happens, the function returns \<open>TRUE\<close>.\<close>

definition PLCache_read :: "files \<Rightarrow> (nat \<Rightarrow> nat option) \<Rightarrow> heap \<Rightarrow> plcache \<Rightarrow> string \<Rightarrow> (bool \<times> heap \<times> plcache) option" where
  "PLCache_read fs mem h c filename =
     (case fs filename of
        None \<Rightarrow> Some (True, h, c)
      | Some inp \<Rightarrow>
          map_option (\<lambda>rd. (True, rd_heap rd, rd_cache rd))
            (read_loop mem \<lparr>rd_heap = h, rd_cache = c, rd_pl = [], rd_where = nowhere_e, rd_calls = 0\<rparr> inp))"

section \<open>Writing\<close>

definition prop_line :: "ni_property \<Rightarrow> string" where
  "prop_line prop =
     (case nip_val prop of
        [] \<Rightarrow> [TAB] @ nip_name prop @ [NL]
      | v # _ \<Rightarrow> [TAB] @ nip_name prop @ ''='' @ v @ [NL])"

definition entry_text :: "ni_proplist \<Rightarrow> string" where
  "entry_text pl = [CHR ''{'', NL] @ concat (map prop_line pl) @ [CHR ''}'', NL]"

partial_function (option) write_loop :: "heap \<Rightarrow> nat option \<Rightarrow> string \<Rightarrow> string option" where
  "write_loop h scan inp =
     (case scan of None \<Rightarrow> Some inp
      | Some x \<Rightarrow> do { nd \<leftarrow> h x; write_loop h (nd_next nd) (inp @ entry_text (nd_pl nd)) })"

definition tmp_filename :: "string \<Rightarrow> string" where
  "tmp_filename filename = take 255 (filename @ ''-'')"

definition rename_file :: "files \<Rightarrow> string \<Rightarrow> string \<Rightarrow> files" where
  "rename_file fs old new = (if old = new then fs else fs(new := fs old, old := None))"

definition PLCache_write :: "files \<Rightarrow> (string \<Rightarrow> bool) \<Rightarrow> heap \<Rightarrow> plcache \<Rightarrow> string \<Rightarrow> (bool \<times> files) option" where
  "PLCache_write fs writable h c filename =
     (if \<not> writable (tmp_filename filename) then Some (False, fs)
      else map_option (\<lambda>inp. (True, rename_file (fs(tmp_filename filename \<mapsto> inp)) (tmp_filename filename) filename))
        (write_loop h (pc_head c) []))"

section \<open>Reading any inp\<close>

text \<open>What the parser can put into a list.\<close>

definition short_prop :: "ni_property \<Rightarrow> bool" where
  "short_prop p \<longleftrightarrow> length (nip_name p) < 128 \<and> length (nip_val p) \<le> 1 \<and> (\<forall>v \<in> set (nip_val p). length v < 768)"

lemma clip_less: "0 < sz \<Longrightarrow> clip n sz < sz"
  by (auto simp: clip_def)

lemma parse_line_short:
  "parse_line line = Some (name, v) \<Longrightarrow> length name < 128 \<and> (\<forall>x. v = Some x \<longrightarrow> length x < 768)"
  using clip_less [of 128] clip_less [of 768] by (auto simp: parse_line_def Let_def min_less_iff_disj split: if_splits)

lemma insertprop_short:
  assumes "\<forall>p \<in> set pl. short_prop p" "length name < 128" "\<forall>x. v = Some x \<longrightarrow> length x < 768"
  shows "\<forall>p \<in> set (ni_proplist_insertprop pl name v wh). short_prop p"
  using assms by (auto simp: insertprop_eq short_prop_def split: option.split dest: in_set_takeD in_set_dropD)

text \<open>
  The state of the reader: the entries it has appended so far are at addresses that \<open>malloc\<close> gave.
\<close>

definition reading :: "(nat \<Rightarrow> nat option) \<Rightarrow> heap \<Rightarrow> nat list \<Rightarrow> reader \<Rightarrow> nat list \<Rightarrow> bool" where
  "reading mem h xs rd ys \<longleftrightarrow> cache_list (rd_heap rd) (rd_cache rd) (xs @ ys) \<and> pls (rd_heap rd) xs = pls h xs \<and>
     (\<forall>y \<in> set ys. \<exists>i < rd_calls rd. mem i = Some y) \<and>
     (\<forall>pl \<in> set (pls (rd_heap rd) ys). pl \<noteq> [] \<and> (\<forall>p \<in> set pl. short_prop p)) \<and> (\<forall>p \<in> set (rd_pl rd). short_prop p)"

text \<open>What the code relies on: \<open>malloc\<close> gives an address that is not in use.\<close>

definition fresh_memory :: "(nat \<Rightarrow> nat option) \<Rightarrow> nat list \<Rightarrow> bool" where
  "fresh_memory mem xs \<longleftrightarrow> (\<forall>i x. mem i = Some x \<longrightarrow> x \<notin> set xs \<and> (\<forall>j. mem j = Some x \<longrightarrow> j = i))"

lemma append_created:
  assumes "cache_list h c xs" "x \<notin> set xs"
  obtains h1 h' c' where "PLCacheEntry_create h pl (Some x) = (Some x, h1)" "PLCache_append h1 c (Some x) = Some (h', c')"
    "cache_list h' c' (xs @ [x])" "\<forall>ys. set ys \<subseteq> set xs \<longrightarrow> pls h' (ys @ [x]) = pls h ys @ [pl]"
proof -
  let ?nd = "\<lparr>nd_pl = pl, nd_next = None, nd_prev = None\<rparr>" and ?h = "\<lambda>h. h(x \<mapsto> \<lparr>nd_pl = pl, nd_next = None, nd_prev = None\<rparr>)"
  have cr: "PLCacheEntry_create h pl (Some x) = (Some x, ?h h)" by (simp add: PLCacheEntry_create_def)
  obtain h' c' where b: "PLCache_append (?h h) c (Some x) = Some (h', c')" "cache_list h' c' (xs @ [x])" "same_pls (?h h) h'"
    by (rule append_list [OF create_list [OF assms] assms(2), of ?nd]) simp_all
  have "pls h' (ys @ [x]) = pls h ys @ [pl]" if "set ys \<subseteq> set xs" for ys
    using pls_same [OF b(3), of "ys @ [x]"] create_pls [of x ys h ?nd] that assms(2) by (auto simp: pls_def)
  with cr b that show thesis by blast
qed

lemma read_line_cases:
  obtains (same) rd' go where "read_line mem rd line = Some (rd', go)"
      "rd' = rd \<or> rd' = rd\<lparr>rd_where := start_e\<rparr> \<or> rd' = rd\<lparr>rd_where := end_e\<rparr>"
    | (closing) "line = [CHR ''}'', NL]" "rd_where rd = start_e \<or> rd_where rd = body_e" "rd_pl rd \<noteq> []"
    | (property) name v where "parse_line line = Some (name, v)" "read_line mem rd line =
        Some (rd\<lparr>rd_pl := ni_proplist_insertprop (rd_pl rd) name v NI_INDEX_NULL, rd_where := body_e\<rparr>, True)"
proof (cases "line = [CHR ''{'', NL]")
  case True
  then show thesis by (cases "rd_where rd"; intro same) (auto simp: read_line_def)
next
  case no_brace: False
  show thesis
  proof (cases "line = [CHR ''}'', NL]")
    case True
    then show thesis
      by (cases "rd_where rd"; cases "rd_pl rd = []") (auto simp: read_line_def intro: same closing)
  next
    case False
    with no_brace show thesis
      by (cases "parse_line line") (auto simp: read_line_def intro: same property)
  qed
qed

lemma read_line_reading:
  assumes "reading mem h xs rd ys" "fresh_memory mem xs"
  obtains rd' go ys' where "read_line mem rd line = Some (rd', go)" "reading mem h xs rd' (ys @ ys')"
proof -
  note r = assms(1) [unfolded reading_def]
  show thesis
  proof (cases rule: read_line_cases [of mem rd line])
    case (same rd' go)
    then have "reading mem h xs rd' ys" using assms(1) by (auto simp: reading_def)
    with same that [of rd' go "[]"] show thesis by simp
  next
    case (property name v)
    have "\<forall>p \<in> set (ni_proplist_insertprop (rd_pl rd) name v NI_INDEX_NULL). short_prop p"
      using insertprop_short [of "rd_pl rd" name v] parse_line_short [OF property(1)] r by blast
    with r have "reading mem h xs (rd\<lparr>rd_pl := ni_proplist_insertprop (rd_pl rd) name v NI_INDEX_NULL, rd_where := body_e\<rparr>) ys"
      by (simp add: reading_def)
    with property that [of _ _ "[]"] show thesis by simp
  next
    case closing
    show thesis
    proof (cases "mem (rd_calls rd)")
      case None
      let ?rd = "rd\<lparr>rd_pl := [], rd_where := end_e, rd_calls := rd_calls rd + 1\<rparr>"
      have "read_line mem rd line = Some (?rd, True)"
        using closing None by (auto simp: read_line_def PLCacheEntry_create_def PLCache_append_def NL_def)
      moreover have "\<forall>y \<in> set ys. \<exists>i < Suc (rd_calls rd). mem i = Some y" using r less_SucI by blast
      then have "reading mem h xs ?rd ys" using r by (simp add: reading_def)
      ultimately show thesis using that [of ?rd True "[]"] by simp
    next
      case (Some x)
      have "x \<notin> set xs" using assms(2) Some by (simp add: fresh_memory_def)
      moreover have "x \<notin> set ys" using r Some assms(2) by (fastforce simp: fresh_memory_def)
      ultimately have x: "x \<notin> set (xs @ ys)" by simp
      obtain h1 h' c' where a: "PLCacheEntry_create (rd_heap rd) (rd_pl rd) (Some x) = (Some x, h1)"
        "PLCache_append h1 (rd_cache rd) (Some x) = Some (h', c')" "cache_list h' c' ((xs @ ys) @ [x])"
        "\<forall>zs. set zs \<subseteq> set (xs @ ys) \<longrightarrow> pls h' (zs @ [x]) = pls (rd_heap rd) zs @ [rd_pl rd]"
        by (rule append_created [OF conjunct1 [OF r] x, where pl = "rd_pl rd"])
      let ?rd = "\<lparr>rd_heap = h', rd_cache = c', rd_pl = [], rd_where = end_e, rd_calls = rd_calls rd + 1\<rparr>"
      have "read_line mem rd line = Some (?rd, True)"
        using closing Some a by (auto simp: read_line_def NL_def)
      moreover have "\<forall>y \<in> set (ys @ [x]). \<exists>i < Suc (rd_calls rd). mem i = Some y" 
      proof
        fix y assume "y \<in> set (ys @ [x])"
        then consider "y \<in> set ys" | "y = x" by auto
        then show "\<exists>i < Suc (rd_calls rd). mem i = Some y" using r Some less_SucI by cases blast+
      qed
      then have "reading mem h xs ?rd (ys @ [x])"
        using r closing(3) a(3) spec [OF a(4), of xs] spec [OF a(4), of ys] by (simp add: reading_def pls_def)
      ultimately show thesis using that by blast
    qed
  qed
qed

lemma read_loop_reading:
  assumes "fresh_memory mem xs" "reading mem h xs rd ys"
  shows "\<exists>rd' ys'. read_loop mem rd inp = Some rd' \<and> reading mem h xs rd' (ys @ ys')"
  using assms
proof (induction mem rd inp arbitrary: ys rule: read_loop.induct)
  case (1 mem rd inp)
  obtain line rest where f: "my_fgets 1024 inp = (line, rest)" by fastforce
  show ?case
  proof (cases line)
    case None
    with f 1(3) show ?thesis by (subst read_loop.simps) (auto intro: exI [of _ "[]"])
  next
    case (Some l)
    obtain rd' go ys' where s: "read_line mem rd l = Some (rd', go)" "reading mem h xs rd' (ys @ ys')"
      by (rule read_line_reading [OF 1(3,2)])
    show ?thesis
    proof (cases go)
      case False
      with f Some s show ?thesis by (subst read_loop.simps) auto
    next
      case True
      with True 1(1) [OF f [symmetric] Some s(1) refl _ 1(2) s(2)] f Some s(1) show ?thesis
        by (subst read_loop.simps) auto
    qed
  qed
qed

text \<open>
  C19: Reading a file, whatever is in it, ends, follows no dangling pointer, and only appends to
  the cache: the entries that were there keep their places and their lists, and each new entry
  has at least one property, all with names of less than 128 and values of less than 768
  characters, at most one to a property. The function returns \<open>TRUE\<close> also for a file that it
  cannot open or gives up on.
\<close>

theorem read_any_file:
  assumes "cache_list h c xs" "fresh_memory mem xs"
  shows "\<exists>h' c' ys. PLCache_read fs mem h c filename = Some (True, h', c') \<and> cache_list h' c' (xs @ ys) \<and>
    pls h' xs = pls h xs \<and> (\<forall>y \<in> set ys. \<exists>i. mem i = Some y) \<and>
    (\<forall>pl \<in> set (pls h' ys). pl \<noteq> [] \<and> (\<forall>p \<in> set pl. short_prop p))"
proof (cases "fs filename")
  case None
  with assms(1) show ?thesis by (auto simp: PLCache_read_def pls_def intro!: exI [of _ "[]"])
next
  case (Some inp)
  let ?rd = "\<lparr>rd_heap = h, rd_cache = c, rd_pl = [], rd_where = nowhere_e, rd_calls = 0\<rparr>"
  have "reading mem h xs ?rd []" using assms(1) by (simp add: reading_def pls_def)
  from read_loop_reading [OF assms(2) this, of inp] obtain rd' ys where
    "read_loop mem ?rd inp = Some rd'" "reading mem h xs rd' ys" by auto
  with Some show ?thesis
    by (intro exI [of _ "rd_heap rd'"] exI [of _ "rd_cache rd'"] exI [of _ ys]) (auto simp: PLCache_read_def reading_def)
qed

theorem read_any_file_witness:
  "\<exists>h' c' ys. PLCache_read (\<lambda>_. Some (''} x='' @ [NUL] @ ''{'')) Some (\<lambda>_. None) PLCache_init ''/f'' = Some (True, h', c') \<and>
     cache_list h' c' ([] @ ys)"
proof -
  have "cache_list (\<lambda>_. None) PLCache_init []" "fresh_memory Some []"
    by (simp_all add: cache_list_def PLCache_init_def fresh_memory_def)
  from read_any_file [OF this, of "\<lambda>_. Some (''} x='' @ [NUL] @ ''{'')" "''/f''"] show ?thesis by blast
qed

section \<open>Reading what was written\<close>

definition ok_prop :: "ni_property \<Rightarrow> bool" where
  "ok_prop p \<longleftrightarrow> nip_name p \<noteq> [] \<and> \<not> is_space (hd (nip_name p)) \<and> length (nip_name p) < 128 \<and>
     CHR ''='' \<notin> set (nip_name p) \<and> NL \<notin> set (nip_name p) \<and> NUL \<notin> set (nip_name p) \<and>
     (case nip_val p of [] \<Rightarrow> True | v # _ \<Rightarrow> length v < 768 \<and> NL \<notin> set v \<and> NUL \<notin> set v)"

definition first_value :: "ni_property \<Rightarrow> ni_property" where
  "first_value p = p\<lparr>nip_val := take 1 (nip_val p)\<rparr>"

lemma fgets_loop_line:
  assumes "NL \<notin> set l" "NUL \<notin> set l" "length l < left"
  shows "fgets_loop (l @ NL # rest) left buf = (buf @ l @ [NL], rest)"
  using assms by (induction l arbitrary: left buf) (auto simp: NL_def NUL_def)

lemma my_fgets_line:
  "NL \<notin> set l \<Longrightarrow> NUL \<notin> set l \<Longrightarrow> length l < 1023 \<Longrightarrow> my_fgets 1024 (l @ NL # rest) = (Some (l @ [NL]), rest)"
  by (simp add: my_fgets_def fgets_loop_line)

lemma my_fgets_empty: "my_fgets n [] = (None, [])"
  by (simp add: my_fgets_def)

text \<open>A line without its newline.\<close>

definition prop_chars :: "ni_property \<Rightarrow> string" where
  "prop_chars p = TAB # nip_name p @ (case nip_val p of [] \<Rightarrow> [] | v # _ \<Rightarrow> CHR ''='' # v)"

lemma prop_line_chars: "prop_line p = prop_chars p @ [NL]"
  by (simp add: prop_line_def prop_chars_def split: list.split)

lemma prop_chars_ok:
  "ok_prop p \<Longrightarrow> NL \<notin> set (prop_chars p) \<and> NUL \<notin> set (prop_chars p) \<and> length (prop_chars p) < 1023"
  by (auto simp: ok_prop_def prop_chars_def TAB_def NL_def NUL_def split: list.splits)

lemma takeWhile_ws:
  assumes "ok_prop p"
  shows "takeWhile is_space (TAB # nip_name p @ ys) = [TAB]"
proof -
  from assms obtain c cs where "nip_name p = c # cs" "\<not> is_space c" by (cases "nip_name p") (auto simp: ok_prop_def)
  then show ?thesis by (simp add: is_space_def)
qed

lemma parse_prop_line:
  assumes "ok_prop p"
  shows "parse_line (prop_line p) = Some (nip_name p, case nip_val p of [] \<Rightarrow> None | v # _ \<Rightarrow> Some v)"
proof -
  have ne: "TAB \<noteq> CHR ''=''" "NL \<noteq> CHR ''=''" by (simp_all add: TAB_def NL_def)
  show ?thesis
  proof (cases "nip_val p")
    case Nil
    let ?l = "TAB # nip_name p @ [NL]"
    have l: "prop_line p = ?l" using Nil by (simp add: prop_line_def)
    have "CHR ''='' \<notin> set ?l" using assms ne by (auto simp: ok_prop_def)
    with assms Nil show ?thesis unfolding l parse_line_def takeWhile_ws [OF assms] Let_def
      by (simp add: clip_def ok_prop_def)
  next
    case (Cons v vs)
    let ?l = "TAB # nip_name p @ CHR ''='' # v @ [NL]"
    have l: "prop_line p = ?l" using Cons by (simp add: prop_line_def)
    have eq: "c \<noteq> CHR ''=''" if "c \<in> set (nip_name p)" for c using assms that by (auto simp: ok_prop_def)
    have "takeWhile (\<lambda>c. c \<noteq> CHR ''='') ?l = TAB # nip_name p"
      using eq ne by (simp add: takeWhile_append2)
    moreover have "nat (1 + int (length (nip_name p))) = Suc (length (nip_name p))" by linarith
    ultimately show ?thesis using assms Cons unfolding l parse_line_def takeWhile_ws [OF assms] Let_def
      by (simp add: clip_def ok_prop_def)
  qed
qed

lemma read_prop_line:
  assumes "ok_prop p" "length (rd_pl rd) < NI_INDEX_NULL"
  shows "read_line mem rd (prop_line p) = Some (rd\<lparr>rd_pl := rd_pl rd @ [first_value p], rd_where := body_e\<rparr>, True)"
proof -
  have "hd (prop_line p) = TAB" by (simp add: prop_line_def split: list.split)
  then have "prop_line p \<noteq> [CHR ''{'', NL]" "prop_line p \<noteq> [CHR ''}'', NL]" by (auto simp: TAB_def)
  moreover have "ni_proplist_insertprop (rd_pl rd) (nip_name p) (case nip_val p of [] \<Rightarrow> None | v # _ \<Rightarrow> Some v) NI_INDEX_NULL =
      rd_pl rd @ [first_value p]"
    using assms(2) by (simp add: insertprop_eq first_value_def split: list.split)
  ultimately show ?thesis by (simp add: read_line_def parse_prop_line [OF assms(1)])
qed

lemma read_loop_line:
  assumes "NL \<notin> set l" "NUL \<notin> set l" "length l < 1023" "read_line mem rd (l @ [NL]) = Some (rd', True)"
  shows "read_loop mem rd (l @ NL # rest) = read_loop mem rd' rest"
  using assms by (subst read_loop.simps) (simp add: my_fgets_line)

lemma read_props:
  assumes "\<forall>p \<in> set pl. ok_prop p" "length (rd_pl rd) + length pl \<le> NI_INDEX_NULL"
  shows "read_loop mem rd (concat (map prop_line pl) @ rest) =
    read_loop mem (rd\<lparr>rd_pl := rd_pl rd @ map first_value pl, rd_where := (if pl = [] then rd_where rd else body_e)\<rparr>) rest"
  using assms
proof (induction pl arbitrary: rd)
  case (Cons p pl)
  have "read_line mem rd (prop_chars p @ [NL]) = Some (rd\<lparr>rd_pl := rd_pl rd @ [first_value p], rd_where := body_e\<rparr>, True)"
    using read_prop_line [of p rd mem] Cons.prems by (simp add: prop_line_chars)
  with read_loop_line prop_chars_ok [of p] Cons.prems(1)
  have "read_loop mem rd (prop_chars p @ NL # concat (map prop_line pl) @ rest) =
      read_loop mem (rd\<lparr>rd_pl := rd_pl rd @ [first_value p], rd_where := body_e\<rparr>) (concat (map prop_line pl) @ rest)"
    by simp
  moreover have "concat (map prop_line (p # pl)) @ rest = prop_chars p @ NL # concat (map prop_line pl) @ rest"
    by (simp add: prop_line_chars [of p])
  ultimately show ?case
    using Cons.IH [of "rd\<lparr>rd_pl := rd_pl rd @ [first_value p], rd_where := body_e\<rparr>"] Cons.prems by (cases "pl = []") simp_all
qed simp

lemma write_loop_list:
  "dll_seg h p xs None \<Longrightarrow> write_loop h (first xs None) out = Some (out @ concat (map entry_text (pls h xs)))"
proof (induction xs arbitrary: p out)
  case Nil
  then show ?case by (subst write_loop.simps) (simp add: pls_def)
next
  case (Cons x xs)
  then obtain nd where "h x = Some nd" "nd_next nd = first xs None" "dll_seg h (Some x) xs None" by auto
  with Cons.IH show ?case by (subst write_loop.simps) (simp add: pls_def)
qed

lemma read_closing:
  assumes "rd_where rd = start_e \<or> rd_where rd = body_e" "rd_pl rd \<noteq> []" "mem (rd_calls rd) = Some x"
    "cache_list (rd_heap rd) (rd_cache rd) xs" "x \<notin> set xs"
  obtains h' c' where "read_loop mem rd ([CHR ''}'', NL] @ rest) =
      read_loop mem \<lparr>rd_heap = h', rd_cache = c', rd_pl = [], rd_where = end_e, rd_calls = rd_calls rd + 1\<rparr> rest"
    "cache_list h' c' (xs @ [x])" "pls h' (xs @ [x]) = pls (rd_heap rd) xs @ [rd_pl rd]"
proof -
  obtain h1 h' c' where a: "PLCacheEntry_create (rd_heap rd) (rd_pl rd) (Some x) = (Some x, h1)"
    "PLCache_append h1 (rd_cache rd) (Some x) = Some (h', c')" "cache_list h' c' (xs @ [x])"
    "\<forall>zs. set zs \<subseteq> set xs \<longrightarrow> pls h' (zs @ [x]) = pls (rd_heap rd) zs @ [rd_pl rd]"
    by (rule append_created [OF assms(4,5), where pl = "rd_pl rd"])
  let ?rd = "\<lparr>rd_heap = h', rd_cache = c', rd_pl = [], rd_where = end_e, rd_calls = rd_calls rd + 1\<rparr>"
  have "read_line mem rd ([CHR ''}''] @ [NL]) = Some (?rd, True)"
    using assms(1-3) a(1,2) by (auto simp: read_line_def NL_def)
  then have "read_loop mem rd ([CHR ''}''] @ NL # rest) = read_loop mem ?rd rest"
    by (intro read_loop_line) (simp_all add: NL_def NUL_def)
  with a that show thesis by simp
qed

lemma read_braces:
  assumes "rd_where rd = nowhere_e \<or> rd_where rd = end_e"
  shows "read_loop mem rd ([CHR ''{'', NL] @ rest) = read_loop mem (rd\<lparr>rd_where := start_e\<rparr>) rest"
    and "rd_pl rd = [] \<Longrightarrow> read_loop mem rd ([CHR ''{'', NL] @ [CHR ''}'', NL] @ rest) = read_loop mem (rd\<lparr>rd_where := end_e\<rparr>) rest"
proof -
  have "read_line mem rd ([CHR ''{''] @ [NL]) = Some (rd\<lparr>rd_where := start_e\<rparr>, True)"
    using assms by (auto simp: read_line_def)
  from read_loop_line [OF _ _ _ this] show o: "read_loop mem rd ([CHR ''{'', NL] @ rest) = read_loop mem (rd\<lparr>rd_where := start_e\<rparr>) rest" for rest
    by (simp add: NL_def NUL_def)
  assume "rd_pl rd = []"
  then have "read_line mem (rd\<lparr>rd_where := start_e\<rparr>) ([CHR ''}''] @ [NL]) = Some (rd\<lparr>rd_where := end_e\<rparr>, True)"
    by (simp add: read_line_def)
  from read_loop_line [OF _ _ _ this, of rest]
  have "read_loop mem (rd\<lparr>rd_where := start_e\<rparr>) ([CHR ''}'', NL] @ rest) = read_loop mem (rd\<lparr>rd_where := end_e\<rparr>) rest"
    by (simp add: NL_def NUL_def)
  with o show "read_loop mem rd ([CHR ''{'', NL] @ [CHR ''}'', NL] @ rest) = read_loop mem (rd\<lparr>rd_where := end_e\<rparr>) rest"
    by simp
qed

text \<open>The entries of a file that was written, one after the other.\<close>

lemma read_entries:
  assumes "rd_where rd = nowhere_e \<or> rd_where rd = end_e" "rd_pl rd = []"
    "cache_list (rd_heap rd) (rd_cache rd) xs" "\<forall>i \<ge> rd_calls rd. \<exists>x. mem i = Some x \<and> x \<notin> set xs"
    "\<forall>i j x. mem i = Some x \<longrightarrow> mem j = Some x \<longrightarrow> i = j"
    "\<forall>pl \<in> set pll. length pl \<le> NI_INDEX_NULL \<and> (\<forall>p \<in> set pl. ok_prop p)"
  shows "\<exists>rd' ys. read_loop mem rd (concat (map entry_text pll)) = Some rd' \<and>
    cache_list (rd_heap rd') (rd_cache rd') (xs @ ys) \<and>
    pls (rd_heap rd') (xs @ ys) = pls (rd_heap rd) xs @ map (map first_value) (filter (\<lambda>pl. pl \<noteq> []) pll)"
  using assms(1-4,6)
proof (induction pll arbitrary: rd xs)
  case Nil
  then show ?case by (subst read_loop.simps) (auto simp: my_fgets_empty intro!: exI [of _ "[]"])
next
  case (Cons pl pll)
  let ?rest = "concat (map entry_text pll)"
  show ?case
  proof (cases "pl = []")
    case True
    with Cons.prems read_braces(2) [of rd mem ?rest]
    have "read_loop mem rd (concat (map entry_text (pl # pll))) = read_loop mem (rd\<lparr>rd_where := end_e\<rparr>) ?rest"
      by (simp add: entry_text_def)
    with Cons.IH [of "rd\<lparr>rd_where := end_e\<rparr>" xs] Cons.prems True show ?thesis by simp
  next
    case False
    let ?rd = "rd\<lparr>rd_pl := map first_value pl, rd_where := body_e\<rparr>"
    obtain x where x: "mem (rd_calls rd) = Some x" "x \<notin> set xs" using Cons.prems(4) by blast
    have "read_loop mem rd (concat (map entry_text (pl # pll))) = read_loop mem ?rd ([CHR ''}'', NL] @ ?rest)"
      using Cons.prems False read_braces(1) [of rd mem] read_props [of pl "rd\<lparr>rd_where := start_e\<rparr>" mem "[CHR ''}'', NL] @ ?rest"]
      by (simp add: entry_text_def)
    moreover obtain h' c' where c: "read_loop mem ?rd ([CHR ''}'', NL] @ ?rest) =
        read_loop mem \<lparr>rd_heap = h', rd_cache = c', rd_pl = [], rd_where = end_e, rd_calls = rd_calls ?rd + 1\<rparr> ?rest"
      "cache_list h' c' (xs @ [x])" "pls h' (xs @ [x]) = pls (rd_heap ?rd) xs @ [rd_pl ?rd]"
      by (rule read_closing [of ?rd mem x xs ?rest]) (use Cons.prems False x in simp_all)
    moreover have "\<forall>i \<ge> Suc (rd_calls rd). \<exists>y. mem i = Some y \<and> y \<notin> set (xs @ [x])"
    proof (intro allI impI)
      fix i assume i: "Suc (rd_calls rd) \<le> i"
      with Cons.prems(4) obtain y where y: "mem i = Some y" "y \<notin> set xs" by (meson Suc_leD)
      moreover have "y \<noteq> x" using i y(1) x(1) assms(5) by fastforce
      ultimately show "\<exists>y. mem i = Some y \<and> y \<notin> set (xs @ [x])" by auto
    qed
    ultimately obtain rd' ys where "read_loop mem rd (concat (map entry_text (pl # pll))) = Some rd'"
      "cache_list (rd_heap rd') (rd_cache rd') ((xs @ [x]) @ ys)"
      "pls (rd_heap rd') ((xs @ [x]) @ ys) = pls (rd_heap rd) xs @ [map first_value pl] @ map (map first_value) (filter (\<lambda>pl. pl \<noteq> []) pll)"
      using Cons.IH [of "\<lparr>rd_heap = h', rd_cache = c', rd_pl = [], rd_where = end_e, rd_calls = rd_calls ?rd + 1\<rparr>" "xs @ [x]"]
        Cons.prems(5) by auto
    with False show ?thesis by (intro exI [of _ rd'] exI [of _ "x # ys"]) simp
  qed
qed

text \<open>
  C18: A cache that is written to a file and read from it comes back: the entries that are read
  are those of the cache, in order, except that of each property only the first value survives
  and that entries without a property are left out. Names and values have to fit into the
  parser's buffers and not contain its separators, as \<open>ok_prop\<close> says.
\<close>

theorem write_read:
  assumes "cache_list h c xs" "\<forall>pl \<in> set (pls h xs). length pl \<le> NI_INDEX_NULL \<and> (\<forall>p \<in> set pl. ok_prop p)"
    "writable (tmp_filename filename)" "cache_list g d zs" "fresh_memory mem zs" "\<forall>i. mem i \<noteq> None"
  shows "\<exists>fs' g' d' ys. PLCache_write fs writable h c filename = Some (True, fs') \<and>
    PLCache_read fs' mem g d filename = Some (True, g', d') \<and> cache_list g' d' (zs @ ys) \<and>
    pls g' (zs @ ys) = pls g zs @ map (map first_value) (filter (\<lambda>pl. pl \<noteq> []) (pls h xs))"
proof -
  let ?out = "concat (map entry_text (pls h xs))"
  let ?fs = "rename_file (fs(tmp_filename filename \<mapsto> ?out)) (tmp_filename filename) filename"
  note l = cache_listD [OF assms(1)]
  have w: "PLCache_write fs writable h c filename = Some (True, ?fs)"
    using assms(3) write_loop_list [OF l(2), of "[]"] l(3) by (simp add: PLCache_write_def)
  have f: "?fs filename = Some ?out" by (simp add: rename_file_def)
  let ?rd = "\<lparr>rd_heap = g, rd_cache = d, rd_pl = [], rd_where = nowhere_e, rd_calls = 0\<rparr>"
  have m1: "\<forall>i \<ge> rd_calls ?rd. \<exists>x. mem i = Some x \<and> x \<notin> set zs"
    and m2: "\<forall>i j x. mem i = Some x \<longrightarrow> mem j = Some x \<longrightarrow> i = j"
    using assms(5,6) by (fastforce simp: fresh_memory_def)+
  have "\<exists>rd' ys. read_loop mem ?rd ?out = Some rd' \<and> cache_list (rd_heap rd') (rd_cache rd') (zs @ ys) \<and>
      pls (rd_heap rd') (zs @ ys) = pls (rd_heap ?rd) zs @ map (map first_value) (filter (\<lambda>pl. pl \<noteq> []) (pls h xs))"
    by (rule read_entries [OF _ _ _ m1 m2 assms(2)]) (simp_all add: assms(4))
  then obtain rd' ys where r: "read_loop mem ?rd ?out = Some rd'" "cache_list (rd_heap rd') (rd_cache rd') (zs @ ys)"
    "pls (rd_heap rd') (zs @ ys) = pls g zs @ map (map first_value) (filter (\<lambda>pl. pl \<noteq> []) (pls h xs))" by auto
  then have "PLCache_read ?fs mem g d filename = Some (True, rd_heap rd', rd_cache rd')"
    using f by (simp add: PLCache_read_def)
  with w r show ?thesis by blast
qed

theorem write_read_witness:
  "\<exists>fs' g' d' ys. PLCache_read fs' Some (\<lambda>_. None) PLCache_init ''/f'' = Some (True, g', d') \<and> cache_list g' d' ([] @ ys) \<and>
    pls g' ([] @ ys) = [[\<lparr>nip_name = ''name'', nip_val = [''a='']\<rparr>, \<lparr>nip_name = ''bound'', nip_val = []\<rparr>]]"
proof -
  let ?pl = "[\<lparr>nip_name = ''name'', nip_val = [''a='', ''b'']\<rparr>, \<lparr>nip_name = ''bound'', nip_val = []\<rparr>]"
  let ?h = "(\<lambda>_. None)(3 \<mapsto> \<lparr>nd_pl = ?pl, nd_next = None, nd_prev = None\<rparr>)"
  let ?c = "\<lparr>pc_head = Some 3, pc_tail = Some 3, pc_max = 256, pc_count = 1\<rparr>"
  have l: "cache_list ?h ?c [3]" by (simp add: cache_list_def)
  have p: "pls ?h [3] = [?pl]" by (simp add: pls_def)
  have o: "\<forall>pl \<in> set (pls ?h [3]). length pl \<le> NI_INDEX_NULL \<and> (\<forall>p \<in> set pl. ok_prop p)"
    unfolding p by (simp add: NI_INDEX_NULL_def ok_prop_def is_space_def TAB_def NL_def NUL_def)
  have e: "cache_list (\<lambda>_. None) PLCache_init []" "fresh_memory Some []" "\<forall>i. Some i \<noteq> None"
    by (simp_all add: cache_list_def PLCache_init_def fresh_memory_def)
  have v: "pls (\<lambda>_. None) [] @ map (map first_value) (filter (\<lambda>pl. pl \<noteq> []) (pls ?h [3])) =
      [[\<lparr>nip_name = ''name'', nip_val = [''a='']\<rparr>, \<lparr>nip_name = ''bound'', nip_val = []\<rparr>]]"
    unfolding p by (simp add: first_value_def pls_def)
  from write_read [OF l o, of "\<lambda>_. True" "''/f''" "\<lambda>_. None" PLCache_init "[]" Some "\<lambda>_. None", OF TrueI e]
  show ?thesis unfolding v by blast
qed

end
