(* ===== verification/Environ.thy ===== *)
theory Environ
  imports C_Prelude "HOL-Library.Monad_Syntax"
begin

text \<open>
  The environment of a process (\<open>getenv.c\<close> and \<open>setenv.c\<close>): a null-terminated array of pointers
  to strings of the form \<open>name=value\<close>, and a sorted table of the pointers, to strings and to the
  array itself, that these functions have allocated and therefore may free or move. Pointers
  are numbers, with \<open>0\<close> for \<open>NULL\<close>. An access through a pointer to no string is the value \<open>None\<close>.
  The functions are those of the UNIX 03 variant; the lock around them is left out.
\<close>

section \<open>The table of owned pointers\<close>

text \<open>
  Only the entries in use are represented, the first of which is \<open>NULL\<close>; what the table holds
  behind them is never read. \<open>op_size\<close> is the number of entries that are allocated.
\<close>

record owned_ptr =
  op_table :: "nat list"
  op_size :: nat

definition OWNED_PTR_INITIAL_SIZE :: nat where
  "OWNED_PTR_INITIAL_SIZE = 8"

definition owned_ptr_alloc :: "bool \<Rightarrow> bool \<Rightarrow> owned_ptr option" where
  \<comment> \<open>whether the structure and the table can be allocated\<close>
  "owned_ptr_alloc ok table_ok =
     (if \<not> ok then None
      else if \<not> table_ok then None
      else Some \<lparr>op_table = [0], op_size = OWNED_PTR_INITIAL_SIZE\<rparr>)"

function search_loop :: "nat list \<Rightarrow> nat \<Rightarrow> nat \<Rightarrow> nat \<Rightarrow> bool \<times> nat" where
  "search_loop table ptr low high =
     (if high - low > 1 then
        let cur = (low + high) div 2 in
        if ptr > table ! cur then search_loop table ptr cur high
        else if ptr < table ! cur then search_loop table ptr low cur
        else (True, cur)
      else (False, low))"
  by auto
termination
  by (relation "measure (\<lambda>(table, ptr, low, high). high - low)") auto

declare search_loop.simps [simp del]

definition owned_ptr_search :: "owned_ptr \<Rightarrow> nat \<Rightarrow> bool \<times> nat" where
  \<comment> \<open>whether the pointer is found, and \<open>*result\<close>\<close>
  "owned_ptr_search owned ptr =
     (let high = length (op_table owned) - 1 in
      if op_table owned ! high < ptr then (False, high)
      else if op_table owned ! high = ptr then (True, high)
      else search_loop (op_table owned) ptr 0 high)"

definition owned_ptr_add :: "(owned_ptr \<Rightarrow> bool) \<Rightarrow> owned_ptr \<Rightarrow> nat \<Rightarrow> owned_ptr" where
  \<comment> \<open>\<open>can_grow\<close> is whether \<open>realloc\<close> finds room for a table of twice the size\<close>
  "owned_ptr_add can_grow owned ptr =
     (case owned_ptr_search owned ptr of
        (found, index) \<Rightarrow>
          if found then owned
          else if length (op_table owned) \<ge> op_size owned \<and> \<not> can_grow owned then owned
          else
            \<lparr>op_table = take (index + 1) (op_table owned) @ [ptr] @ drop (index + 1) (op_table owned),
             op_size = (if length (op_table owned) \<ge> op_size owned then 2 * op_size owned else op_size owned)\<rparr>)"

definition owned_ptr_delete :: "owned_ptr \<Rightarrow> nat \<Rightarrow> owned_ptr" where
  "owned_ptr_delete owned index =
     (if index = 0 \<or> index \<ge> length (op_table owned) then owned
      else owned\<lparr>op_table := take index (op_table owned) @ drop (index + 1) (op_table owned)\<rparr>)"

section \<open>The environment\<close>

record envmem =
  em_strs :: "nat \<Rightarrow> string option"
  em_environ :: nat
  em_array :: "nat list"

text \<open>
  What the allocator does, as a function of the memory: \<open>0\<close> where there is none left. The last
  two are what a new array holds behind the entries that are copied, and whether a first table
  of owned pointers can be allocated.
\<close>

record allocator =
  al_malloc :: "envmem \<Rightarrow> nat"
  al_realloc :: "envmem \<Rightarrow> nat \<Rightarrow> nat"
  al_grow :: "owned_ptr \<Rightarrow> bool"
  al_junk :: nat
  al_table :: "bool \<times> bool"

text \<open>The comparison of one string with a name of \<open>len\<close> characters: what is left of both.\<close>

fun name_loop :: "string \<Rightarrow> string \<Rightarrow> nat \<Rightarrow> string \<times> nat" where
  "name_loop cp np 0 = (cp, 0)"
| "name_loop (c # cp) (n # np) (Suc i) = (if c \<noteq> n then (cp, Suc i) else name_loop cp np i)"
| "name_loop cp np (Suc i) = (cp, Suc i)"

text \<open>The result is the offset in the array, and the index of the value in the string.\<close>

fun find_from :: "(nat \<Rightarrow> string option) \<Rightarrow> string \<Rightarrow> nat \<Rightarrow> nat \<Rightarrow> nat list \<Rightarrow> (nat \<times> nat) option option" where
  "find_from strs name len off [] = Some None"
| "find_from strs name len off (p # ps) =
     do { s \<leftarrow> strs p;
          (case name_loop s name len of
             (cp, i) \<Rightarrow>
               if i = 0 \<and> cp \<noteq> [] \<and> hd cp = CHR ''='' then Some (Some (off, len + 1))
               else find_from strs name len (off + 1) ps) }"

definition findenv_locked :: "string option \<Rightarrow> envmem \<Rightarrow> (nat \<times> nat) option option" where
  "findenv_locked name m =
     (case name of None \<Rightarrow> Some None
      | Some name \<Rightarrow>
          if em_environ m = 0 then Some None
          else find_from (em_strs m) name (length (takeWhile (\<lambda>c. c \<noteq> CHR ''='') name)) 0 (em_array m))"

definition getenv :: "string option \<Rightarrow> envmem \<Rightarrow> string option option" where
  "getenv name m =
     do { r \<leftarrow> findenv_locked name m;
          (case r of None \<Rightarrow> Some None
           | Some (offset, i) \<Rightarrow> map_option (\<lambda>s. Some (drop i s)) (em_strs m (em_array m ! offset))) }"

section \<open>Setting a variable\<close>

definition put_slot :: "nat \<Rightarrow> nat \<Rightarrow> envmem \<Rightarrow> envmem" where
  "put_slot offset p m = m\<lparr>em_array := take offset (em_array m) @ [p] @ drop (offset + 1) (em_array m)\<rparr>"

definition set_slot :: "allocator \<Rightarrow> string \<Rightarrow> nat \<Rightarrow> string \<Rightarrow> int \<Rightarrow> nat \<Rightarrow> envmem \<Rightarrow> owned_ptr \<Rightarrow>
    (errno + unit) \<times> envmem \<times> owned_ptr" where
  "set_slot al name name_at value copy offset m ow =
     (if copy > 0 then
        let p = al_malloc al m in
        if p = 0 then (Inl ENOMEM, m\<lparr>em_array := take offset (em_array m)\<rparr>, ow)
        else
          (Inr (),
           put_slot offset p
             (m\<lparr>em_strs := (em_strs m)(p \<mapsto> takeWhile (\<lambda>c. c \<noteq> CHR ''='') name @ ''='' @ value)\<rparr>),
           owned_ptr_add (al_grow al) ow p)
      else if copy < 0 then
        let p = al_malloc al m in
        if p = 0 then (Inl ENOMEM, m, ow)
        else (Inr (), put_slot offset p (m\<lparr>em_strs := (em_strs m)(p \<mapsto> name)\<rparr>), owned_ptr_add (al_grow al) ow p)
      else (Inr (), put_slot offset name_at m, ow))"

text \<open>The value is written over the old one of a string that the table owns.\<close>

definition overwrite :: "allocator \<Rightarrow> string \<Rightarrow> nat \<Rightarrow> nat \<Rightarrow> nat \<Rightarrow> envmem \<Rightarrow> owned_ptr \<Rightarrow>
    ((errno + unit) \<times> envmem \<times> owned_ptr) option" where
  "overwrite al value offset i oindex m ow =
     (let e = em_array m ! offset in
      do { s \<leftarrow> em_strs m e;
           if length (drop i s) < length value then
             let r = al_realloc al m e in
             if r = 0 then Some (Inl ENOMEM, m, ow)
             else if r \<noteq> e then
               Some (Inr (),
                 m\<lparr>em_strs := (em_strs m)(e := None, r \<mapsto> take i s @ value), em_array := (em_array m)[offset := r]\<rparr>,
                 owned_ptr_add (al_grow al) (owned_ptr_delete ow oindex) r)
             else Some (Inr (), m\<lparr>em_strs := (em_strs m)(e \<mapsto> take i s @ value)\<rparr>, ow)
           else Some (Inr (), m\<lparr>em_strs := (em_strs m)(e \<mapsto> take i s @ value)\<rparr>, ow) })"

text \<open>Room for one more entry; the result is whether there is any.\<close>

definition new_slot :: "allocator \<Rightarrow> envmem \<Rightarrow> owned_ptr \<Rightarrow> (bool \<times> envmem \<times> owned_ptr) option" where
  "new_slot al m ow =
     (if em_environ m = 0 then None
      else
        (case owned_ptr_search ow (em_environ m) of
           (found, oindex) \<Rightarrow>
             if found then
               let p = al_realloc al m (em_environ m) in
               if p = 0 then Some (False, m, ow)
               else if em_environ m \<noteq> p then
                 Some (True, m\<lparr>em_environ := p\<rparr>, owned_ptr_add (al_grow al) (owned_ptr_delete ow oindex) p)
               else Some (True, m, ow)
             else
               let p = al_malloc al m in
               if p = 0 then Some (False, m, ow)
               else
                 Some (True,
                   m\<lparr>em_environ := p, em_array := em_array m @ (if al_junk al = 0 then [] else [al_junk al])\<rparr>,
                   owned_ptr_add (al_grow al) ow p)))"

text \<open>
  \<open>copy\<close> is positive to make a copy of the pair, zero to take the caller's string at \<open>name_at\<close>,
  negative to copy the string \<open>name\<close>.
\<close>

definition setenv_locked :: "allocator \<Rightarrow> string \<Rightarrow> nat \<Rightarrow> string \<Rightarrow> bool \<Rightarrow> int \<Rightarrow> envmem \<Rightarrow> owned_ptr \<Rightarrow>
    ((errno + unit) \<times> envmem \<times> owned_ptr) option" where
  "setenv_locked al name name_at value rewrite copy m ow =
     do { r \<leftarrow> findenv_locked (Some name) m;
          (case r of
             Some (offset, i) \<Rightarrow>
               if \<not> rewrite then Some (Inr (), m, ow)
               else
                 (let e = em_array m ! offset in
                  case owned_ptr_search ow e of
                    (found, oindex) \<Rightarrow>
                      if found then
                        if copy > 0 then overwrite al value offset i oindex m ow
                        else Some (set_slot al name name_at value copy offset
                          (m\<lparr>em_strs := (em_strs m)(e := None)\<rparr>) (owned_ptr_delete ow oindex))
                      else Some (set_slot al name name_at value copy offset m ow))
           | None \<Rightarrow>
               do { (ok, m', ow) \<leftarrow> new_slot al m ow;
                    if \<not> ok then Some (Inl ENOMEM, m', ow)
                    else Some (set_slot al name name_at value copy (length (em_array m)) m' ow) }) }"

section \<open>Removing a variable\<close>

text \<open>A string that the table owns is freed; the entries behind it move up.\<close>

definition remove_slot :: "nat \<Rightarrow> envmem \<Rightarrow> owned_ptr \<Rightarrow> envmem \<times> owned_ptr" where
  "remove_slot offset m ow =
     (let e = em_array m ! offset; array = take offset (em_array m) @ drop (offset + 1) (em_array m) in
      case owned_ptr_search ow e of
        (found, oindex) \<Rightarrow>
          if found then (m\<lparr>em_strs := (em_strs m)(e := None), em_array := array\<rparr>, owned_ptr_delete ow oindex)
          else (m\<lparr>em_array := array\<rparr>, ow))"

lemma find_from_off: "find_from strs name len off ps = Some (Some (o', i)) \<Longrightarrow> off \<le> o' \<and> o' < off + length ps"
proof (induction ps arbitrary: off)
  case (Cons p ps)
  then show ?case by (fastforce split: Option.bind_splits prod.splits if_splits)
qed simp

function unsetenv_locked :: "string \<Rightarrow> envmem \<Rightarrow> owned_ptr \<Rightarrow> (envmem \<times> owned_ptr) option" where
  "unsetenv_locked name m ow =
     (case findenv_locked (Some name) m of
        None \<Rightarrow> None
      | Some None \<Rightarrow> Some (m, ow)
      | Some (Some (offset, i)) \<Rightarrow>
          (case remove_slot offset m ow of (m', ow') \<Rightarrow> unsetenv_locked name m' ow'))"
  by auto
termination
proof (relation "measure (\<lambda>(name, m, ow). length (em_array m))", goal_cases)
  case 1
  show ?case by simp
next
  case (2 name m ow r p offset i x y)
  then have "offset < length (em_array m)"
    using find_from_off [of "em_strs m" name _ 0 "em_array m" offset i] by (auto simp: findenv_locked_def split: if_splits)
  then have "length (em_array (fst (remove_slot offset m ow))) < length (em_array m)"
    by (auto simp: remove_slot_def Let_def split: prod.split)
  with 2(4) [symmetric] show ?case by simp
qed

declare unsetenv_locked.simps [simp del]

section \<open>The process\<close>

record proc =
  pr_mem :: envmem
  pr_owned :: "owned_ptr option"

definition init_env_owned :: "allocator \<Rightarrow> proc \<Rightarrow> owned_ptr option" where
  "init_env_owned al pr =
     (case pr_owned pr of Some ow \<Rightarrow> Some ow | None \<Rightarrow> owned_ptr_alloc (fst (al_table al)) (snd (al_table al)))"

definition setenv :: "allocator \<Rightarrow> string option \<Rightarrow> string \<Rightarrow> bool \<Rightarrow> proc \<Rightarrow> ((errno + unit) \<times> proc) option" where
  "setenv al name value rewrite pr =
     (case name of None \<Rightarrow> Some (Inl EINVAL, pr)
      | Some name \<Rightarrow>
          if name = [] then Some (Inl EINVAL, pr)
          else if CHR ''='' \<in> set name then Some (Inl EINVAL, pr)
          else
            (case init_env_owned al pr of None \<Rightarrow> Some (Inl ENOMEM, pr)
             | Some ow \<Rightarrow>
                 map_option (\<lambda>(r, m, ow). (r, \<lparr>pr_mem = m, pr_owned = Some ow\<rparr>))
                   (setenv_locked al name 0 value rewrite 1 (pr_mem pr) ow)))"

definition unsetenv :: "allocator \<Rightarrow> string option \<Rightarrow> proc \<Rightarrow> ((errno + unit) \<times> proc) option" where
  "unsetenv al name pr =
     (case name of None \<Rightarrow> Some (Inl EINVAL, pr)
      | Some name \<Rightarrow>
          if name = [] then Some (Inl EINVAL, pr)
          else if CHR ''='' \<in> set name then Some (Inl EINVAL, pr)
          else
            (case init_env_owned al pr of None \<Rightarrow> Some (Inl ENOMEM, pr)
             | Some ow \<Rightarrow>
                 map_option (\<lambda>(m, ow). (Inr (), \<lparr>pr_mem = m, pr_owned = Some ow\<rparr>))
                   (unsetenv_locked name (pr_mem pr) ow)))"

text \<open>
  The variants for any array of strings and any table; \<open>None\<close> for \<open>state\<close> is the table of the
  process. The two memories share their strings, so that \<open>m\<close> is the memory with the array that
  \<open>envp\<close> points to. The last part of the result is the table of the process.
\<close>

definition setenvp :: "allocator \<Rightarrow> string \<Rightarrow> string \<Rightarrow> bool \<Rightarrow> envmem \<Rightarrow> owned_ptr option \<Rightarrow> proc \<Rightarrow>
    ((errno + unit) \<times> envmem \<times> owned_ptr option \<times> owned_ptr option) option" where
  "setenvp al name value rewrite m state pr =
     (case init_env_owned al pr of None \<Rightarrow> Some (Inl ENOMEM, m, state, pr_owned pr)
      | Some ow \<Rightarrow>
          (case state of
             Some s \<Rightarrow> map_option (\<lambda>(r, m, s). (r, m, Some s, Some ow)) (setenv_locked al name 0 value rewrite 1 m s)
           | None \<Rightarrow> map_option (\<lambda>(r, m, ow). (r, m, None, Some ow)) (setenv_locked al name 0 value rewrite 1 m ow)))"

definition unsetenvp :: "allocator \<Rightarrow> string \<Rightarrow> envmem \<Rightarrow> owned_ptr option \<Rightarrow> proc \<Rightarrow>
    ((errno + unit) \<times> envmem \<times> owned_ptr option \<times> owned_ptr option) option" where
  "unsetenvp al name m state pr =
     (case init_env_owned al pr of None \<Rightarrow> Some (Inl ENOMEM, m, state, pr_owned pr)
      | Some ow \<Rightarrow>
          (case state of
             Some s \<Rightarrow> map_option (\<lambda>(m, s). (Inr (), m, Some s, Some ow)) (unsetenv_locked name m s)
           | None \<Rightarrow> map_option (\<lambda>(m, ow). (Inr (), m, None, Some ow)) (unsetenv_locked name m ow)))"

definition getenvp :: "string option \<Rightarrow> envmem \<Rightarrow> string option option" where
  "getenvp name m = getenv name m"

definition allocenvstate :: "bool \<Rightarrow> bool \<Rightarrow> owned_ptr option" where
  "allocenvstate ok table_ok = owned_ptr_alloc ok table_ok"

definition copyenv :: "nat \<Rightarrow> nat list option \<Rightarrow> (nat \<times> nat list) option" where
  \<comment> \<open>the result of \<open>malloc\<close>, and the entries before the null pointer\<close>
  "copyenv p env = (if p = 0 then None else Some (p, case env of None \<Rightarrow> [] | Some ps \<Rightarrow> ps))"

text \<open>Only the table itself is freed; the second argument is whether it is that of the process.\<close>

definition deallocenvstate :: "owned_ptr option \<Rightarrow> bool \<Rightarrow> errno + unit" where
  "deallocenvstate state of_process = (if state = None \<or> of_process then Inl EINVAL else Inr ())"

section \<open>The search of the table\<close>

text \<open>A table is in order: sorted, from \<open>NULL\<close> on, and within what is allocated.\<close>

definition owned_wf :: "owned_ptr \<Rightarrow> bool" where
  "owned_wf ow \<longleftrightarrow> op_table ow \<noteq> [] \<and> op_table ow ! 0 = 0 \<and> sorted_wrt (<) (op_table ow) \<and> length (op_table ow) \<le> op_size ow"

definition owned_set :: "owned_ptr \<Rightarrow> nat set" where
  "owned_set ow = set (op_table ow) - {0}"

lemma search_loop_spec:
  assumes "sorted_wrt (<) t" "low < high" "high < length t" "t ! low < ptr" "ptr < t ! high"
  shows "case search_loop t ptr low high of (found, i) \<Rightarrow>
    (found \<longrightarrow> i < length t \<and> t ! i = ptr) \<and> (\<not> found \<longrightarrow> i + 1 < length t \<and> t ! i < ptr \<and> ptr < t ! (i + 1))"
  using assms
proof (induction t ptr low high rule: search_loop.induct)
  case (1 t ptr low high)
  show ?case
  proof (cases "high - low > 1")
    case False
    with 1(4) have "high = low + 1" by simp
    with 1(5-7) show ?thesis by (subst search_loop.simps) simp
  next
    case True
    let ?cur = "(low + high) div 2"
    have cur: "low < ?cur" "?cur < high" using True by auto
    consider "ptr > t ! ?cur" | "ptr < t ! ?cur" | "ptr = t ! ?cur" by linarith
    then show ?thesis
    proof cases
      case 1
      with \<open>1 < high - low\<close> "1.IH"(1) [OF True refl 1 "1.prems"(1)] cur "1.prems" show ?thesis
        by (subst search_loop.simps) (simp add: Let_def)
    next
      case 2
      then have n: "\<not> t ! ?cur < ptr" by simp
      with "1.IH"(2) [OF True refl n 2 "1.prems"(1)] True 2 cur "1.prems" show ?thesis
        by (subst search_loop.simps) (simp add: Let_def)
    next
      case 3
      with True cur "1.prems" show ?thesis by (subst search_loop.simps) (simp add: Let_def)
    qed
  qed
qed

text \<open>The binary search decides membership, and finds the place for a new pointer.\<close>

lemma owned_ptr_search_spec:
  assumes "owned_wf ow" "ptr \<noteq> 0" "owned_ptr_search ow ptr = (found, i)"
  shows "found \<longleftrightarrow> ptr \<in> owned_set ow"
    and "found \<Longrightarrow> 0 < i \<and> i < length (op_table ow) \<and> op_table ow ! i = ptr"
    and "\<not> found \<Longrightarrow> i < length (op_table ow) \<and> op_table ow ! i < ptr \<and> (\<forall>j < length (op_table ow). i < j \<longrightarrow> ptr < op_table ow ! j)"
proof -
  let ?t = "op_table ow" and ?high = "length (op_table ow) - 1"
  have t: "?t \<noteq> []" "?t ! 0 = 0" "sorted_wrt (<) ?t" using assms(1) by (simp_all add: owned_wf_def)
  then have high: "?high < length ?t" by simp
  have mono: "?t ! a < ?t ! b" if "a < b" "b < length ?t" for a b using t(3) that by (simp add: sorted_wrt_iff_nth_less)
  have main: "(found \<longrightarrow> i < length ?t \<and> ?t ! i = ptr) \<and>
    (\<not> found \<longrightarrow> i < length ?t \<and> ?t ! i < ptr \<and> (i + 1 < length ?t \<longrightarrow> ptr < ?t ! (i + 1)))"
  proof -
    consider "?t ! ?high < ptr" | "?t ! ?high = ptr" | "ptr < ?t ! ?high" by linarith
    then show ?thesis
    proof cases
      case 3
      then have "0 < ?high" using t assms(2) by (cases "?high = 0") auto
      with search_loop_spec [OF t(3), of 0 ?high ptr] 3 t assms(2,3) high show ?thesis
        by (auto simp: owned_ptr_search_def Let_def)
    qed (use assms(3) high in \<open>auto simp: owned_ptr_search_def Let_def\<close>)
  qed
  show above: "\<not> found \<Longrightarrow> i < length ?t \<and> ?t ! i < ptr \<and> (\<forall>j < length ?t. i < j \<longrightarrow> ptr < ?t ! j)"
  proof (intro conjI allI impI)
    fix j assume "\<not> found" and j: "j < length ?t" "i < j"
    with main have "ptr < ?t ! (i + 1)" by simp
    also have "?t ! (i + 1) \<le> ?t ! j" using mono [of "i + 1" j] j by (cases "i + 1 = j") auto
    finally show "ptr < ?t ! j" .
  qed (use main in auto)
  show "found \<Longrightarrow> 0 < i \<and> i < length ?t \<and> ?t ! i = ptr" using main t(2) assms(2) by (cases i) auto
  show "found \<longleftrightarrow> ptr \<in> owned_set ow"
  proof
    assume "ptr \<in> owned_set ow"
    then obtain j where j: "j < length ?t" "?t ! j = ptr" by (auto simp: owned_set_def in_set_conv_nth)
    show found
    proof (rule ccontr)
      assume "\<not> found"
      with above have a: "?t ! i < ptr" "i < length ?t" "i < j \<longrightarrow> ptr < ?t ! j" using j by auto
      with j mono [of j i] show False by (cases i j rule: linorder_cases) auto
    qed
  qed (use main assms(2) in \<open>auto simp: owned_set_def\<close>)
qed

lemma owned_ptr_delete_spec:
  assumes "owned_wf ow" "0 < i" "i < length (op_table ow)" "op_table ow ! i = ptr"
  shows "owned_wf (owned_ptr_delete ow i) \<and> owned_set (owned_ptr_delete ow i) = owned_set ow - {ptr}"
proof -
  let ?t = "op_table ow"
  have t: "?t \<noteq> []" "?t ! 0 = 0" "sorted_wrt (<) ?t" "length ?t \<le> op_size ow" using assms(1) by (simp_all add: owned_wf_def)
  have split: "?t = take i ?t @ ptr # drop (i + 1) ?t" using id_take_nth_drop [OF assms(3)] assms(4) by simp
  then have s: "sorted_wrt (<) (take i ?t @ ptr # drop (i + 1) ?t)" using t(3) by simp
  then have "sorted_wrt (<) (take i ?t @ drop (i + 1) ?t)" by (simp add: sorted_wrt_append)
  moreover have "ptr \<notin> set (take i ?t)" "ptr \<notin> set (drop (i + 1) ?t)" using s by (auto simp: sorted_wrt_append)
  moreover have "set ?t = set (take i ?t) \<union> {ptr} \<union> set (drop (i + 1) ?t)" by (subst split) auto
  ultimately show ?thesis
    using assms t by (auto simp: owned_ptr_delete_def owned_wf_def owned_set_def nth_append)
qed

lemma owned_ptr_add_spec:
  assumes "owned_wf ow" "ptr \<noteq> 0"
  shows "owned_wf (owned_ptr_add g ow ptr) \<and>
    (owned_set (owned_ptr_add g ow ptr) = insert ptr (owned_set ow) \<or> owned_set (owned_ptr_add g ow ptr) = owned_set ow)"
proof -
  let ?t = "op_table ow"
  obtain found i where s: "owned_ptr_search ow ptr = (found, i)" by fastforce
  note sp = owned_ptr_search_spec [OF assms s]
  have t: "?t \<noteq> []" "?t ! 0 = 0" "sorted_wrt (<) ?t" "length ?t \<le> op_size ow" using assms(1) by (simp_all add: owned_wf_def)
  show ?thesis
  proof (cases "found \<or> (length ?t \<ge> op_size ow \<and> \<not> g ow)")
    case True
    with s assms(1) sp(1) show ?thesis by (auto simp: owned_ptr_add_def)
  next
    case False
    with sp(3) have i: "i < length ?t" "?t ! i < ptr" "\<forall>j < length ?t. i < j \<longrightarrow> ptr < ?t ! j" by auto
    let ?t' = "take (i + 1) ?t @ [ptr] @ drop (i + 1) ?t"
    have r: "owned_ptr_add g ow ptr = \<lparr>op_table = ?t', op_size = (if length ?t \<ge> op_size ow then 2 * op_size ow else op_size ow)\<rparr>"
      using False s by (auto simp: owned_ptr_add_def)
    have low: "x < ptr" if "x \<in> set (take (i + 1) ?t)" for x
    proof -
      from that i(1) obtain j where j: "j \<le> i" "x = ?t ! j" by (auto simp: in_set_conv_nth less_Suc_eq_le)
      with sorted_wrt_nth_less [OF t(3), of j i] i(1,2) show ?thesis by (cases "j = i") auto
    qed
    moreover have "ptr < x" if "x \<in> set (drop (i + 1) ?t)" for x
      using that i by (auto simp: in_set_conv_nth)
    moreover have "sorted_wrt (<) (take (i + 1) ?t @ drop (i + 1) ?t)" using t(3) by simp
    ultimately have "sorted_wrt (<) ?t'" by (simp only: sorted_wrt_append) auto
    moreover have "?t' ! 0 = 0" using t(1,2) by (cases ?t) simp_all
    moreover have "set ?t' = insert ptr (set ?t)" by (metis Un_insert_right append_Cons append_Nil append_take_drop_id list.simps(15) set_append)
    ultimately show ?thesis using t(1,4) i(1) assms(2) unfolding r
      by (auto simp: owned_wf_def owned_set_def)
  qed
qed

section \<open>The variables of an array\<close>

text \<open>The value that a string gives to a name, and the first value in an array.\<close>

definition binds :: "(nat \<Rightarrow> string option) \<Rightarrow> string \<Rightarrow> nat \<Rightarrow> string option" where
  "binds strs n p =
     (case strs p of None \<Rightarrow> None
      | Some s \<Rightarrow> if take (length n + 1) s = n @ ''='' then Some (drop (length n + 1) s) else None)"

fun value_in :: "(nat \<Rightarrow> string option) \<Rightarrow> nat list \<Rightarrow> string \<Rightarrow> string option" where
  "value_in strs [] n = None"
| "value_in strs (p # ps) n = (case binds strs n p of None \<Rightarrow> value_in strs ps n | Some v \<Rightarrow> Some v)"

lemma binds_Some: "binds strs n p = Some v \<longleftrightarrow> strs p = Some (n @ CHR ''='' # v)"
proof -
  have "take (length n + 1) s = n @ ''='' \<and> drop (length n + 1) s = v \<longleftrightarrow> s = n @ CHR ''='' # v" for s
  proof
    assume "take (length n + 1) s = n @ ''='' \<and> drop (length n + 1) s = v"
    with append_take_drop_id [of "length n + 1" s] show "s = n @ CHR ''='' # v" by (metis append.assoc append_Cons append_Nil)
  qed simp
  then show ?thesis by (auto simp: binds_def split: option.split)
qed

lemma binds_other:
  assumes "strs p = Some (k @ CHR ''='' # v)" "n \<noteq> k" "CHR ''='' \<notin> set n" "CHR ''='' \<notin> set k"
  shows "binds strs n p = None"
proof (cases "binds strs n p")
  case (Some w)
  then have "k @ CHR ''='' # v = n @ CHR ''='' # w" using assms(1) by (simp add: binds_Some)
  then have "takeWhile (\<lambda>c. c \<noteq> CHR ''='') (k @ CHR ''='' # v) = takeWhile (\<lambda>c. c \<noteq> CHR ''='') (n @ CHR ''='' # w)" by simp
  moreover have "takeWhile (\<lambda>c. c \<noteq> CHR ''='') (xs @ CHR ''='' # ys) = xs" if "CHR ''='' \<notin> set xs" for xs ys
    using that by (induction xs) auto
  ultimately show ?thesis using assms(2-4) by metis
qed simp

lemma value_in_append [simp]:
  "value_in strs (ps @ qs) n = (case value_in strs ps n of None \<Rightarrow> value_in strs qs n | Some v \<Rightarrow> Some v)"
  by (induction ps) (simp_all split: option.split)

lemma value_in_cong: "(\<And>p. p \<in> set ps \<Longrightarrow> strs' p = strs p) \<Longrightarrow> value_in strs' ps n = value_in strs ps n"
proof (induction ps)
  case (Cons p ps)
  then have "binds strs' n p = binds strs n p" by (simp add: binds_def)
  with Cons show ?case by (simp split: option.split)
qed simp

lemma value_in_None: "value_in strs ps n = None \<longleftrightarrow> (\<forall>p \<in> set ps. binds strs n p = None)"
  by (induction ps) (auto split: option.splits)

text \<open>Putting a string for one name in the place of others for the same name.\<close>

lemma value_in_put:
  assumes "\<forall>x \<in> set xs \<union> set ys. strs' x = strs x" "strs' p = Some (k @ CHR ''='' # v)" "CHR ''='' \<notin> set k"
    "\<forall>z \<in> set zs. \<exists>w. strs z = Some (k @ CHR ''='' # w)"
  shows "value_in strs xs k = None \<Longrightarrow> value_in strs' (xs @ [p] @ ys) k = Some v"
    and "n \<noteq> k \<Longrightarrow> CHR ''='' \<notin> set n \<Longrightarrow> value_in strs' (xs @ [p] @ ys) n = value_in strs (xs @ zs @ ys) n"
proof -
  have c: "value_in strs' xs m = value_in strs xs m" "value_in strs' ys m = value_in strs ys m" for m
    using assms(1) by (auto intro: value_in_cong)
  have "binds strs' k p = Some v" using assms(2) by (simp add: binds_Some)
  with c show "value_in strs xs k = None \<Longrightarrow> value_in strs' (xs @ [p] @ ys) k = Some v" by simp
  assume n: "n \<noteq> k" "CHR ''='' \<notin> set n"
  have "binds strs' n p = None" by (rule binds_other [where strs = strs', OF assms(2) n assms(3)])
  moreover have "value_in strs zs n = None"
    using assms(4) binds_other [where strs = strs, OF _ n assms(3)] by (fastforce simp: value_in_None)
  ultimately show "value_in strs' (xs @ [p] @ ys) n = value_in strs (xs @ zs @ ys) n"
    using c by (simp split: option.split)
qed

section \<open>The search of the environment\<close>

lemma name_loop_spec:
  "(case name_loop s n (length n) of (cp, i) \<Rightarrow> i = 0 \<and> cp \<noteq> [] \<and> hd cp = CHR ''='') \<longleftrightarrow> (\<exists>v. s = n @ CHR ''='' # v)"
proof (induction n arbitrary: s)
  case Nil
  then show ?case by (cases s) auto
next
  case (Cons c n)
  then show ?case by (cases s) auto
qed

lemma name_loop_take: "name_loop s (n @ r) (length n) = name_loop s n (length n)"
  by (induction n arbitrary: s) (case_tac s; simp)+

lemma find_from_spec:
  assumes "CHR ''='' \<notin> set n" "\<forall>p \<in> set ps. strs p \<noteq> None"
  shows "(find_from strs n (length n) off ps = Some None \<and> value_in strs ps n = None) \<or>
    (\<exists>xs e ys v. ps = xs @ e # ys \<and> find_from strs n (length n) off ps = Some (Some (off + length xs, length n + 1)) \<and>
       value_in strs xs n = None \<and> strs e = Some (n @ CHR ''='' # v))"
  using assms(2)
proof (induction ps arbitrary: off)
  case (Cons p ps)
  then obtain s where s: "strs p = Some s" by auto
  obtain cp i where l: "name_loop s n (length n) = (cp, i)" by fastforce
  show ?case
  proof (cases "\<exists>v. s = n @ CHR ''='' # v")
    case True
    with name_loop_spec [of s n] l s have "find_from strs n (length n) off (p # ps) = Some (Some (off, length n + 1))" by auto
    with True s show ?thesis by (intro disjI2 exI [of _ "[]"]) auto
  next
    case False
    with name_loop_spec [of s n] l s
    have f: "find_from strs n (length n) off (p # ps) = find_from strs n (length n) (off + 1) ps" by auto
    have b: "binds strs n p = None" using False s by (cases "binds strs n p") (auto simp: binds_Some)
    from Cons.IH [of "off + 1"] Cons.prems
    consider "find_from strs n (length n) (off + 1) ps = Some None" "value_in strs ps n = None"
      | xs e ys v where "ps = xs @ e # ys" "find_from strs n (length n) (off + 1) ps = Some (Some (off + 1 + length xs, length n + 1))"
        "value_in strs xs n = None" "strs e = Some (n @ CHR ''='' # v)" by auto
    then show ?thesis
    proof cases
      case (2 xs e ys v)
      with f b show ?thesis by (intro disjI2 exI [of _ "p # xs"]) auto
    qed (use f b in simp)
  qed
qed simp

text \<open>
  An environment in order, for an array of pointers: they lead to strings, the pointers in the
  table lead to strings or to the array, and an owned string is in the array at most once.
\<close>

definition env_ok :: "(nat \<Rightarrow> string option) \<Rightarrow> nat \<Rightarrow> owned_ptr \<Rightarrow> nat list \<Rightarrow> bool" where
  "env_ok strs environ ow ps \<longleftrightarrow> owned_wf ow \<and> (\<forall>p \<in> set ps. strs p \<noteq> None) \<and>
     strs 0 = None \<and> environ \<noteq> 0 \<and> strs environ = None \<and>
     (\<forall>p \<in> owned_set ow. p = environ \<or> strs p \<noteq> None) \<and> (\<forall>p \<in> owned_set ow. count_list ps p \<le> 1)"

definition allocator_ok :: "allocator \<Rightarrow> bool" where
  \<comment> \<open>new memory is memory that is not in use\<close>
  "allocator_ok al \<longleftrightarrow>
     (\<forall>m. al_malloc al m \<noteq> 0 \<longrightarrow> em_strs m (al_malloc al m) = None \<and> al_malloc al m \<noteq> em_environ m) \<and>
     (\<forall>m e. al_realloc al m e \<noteq> 0 \<longrightarrow> al_realloc al m e \<noteq> e \<longrightarrow>
        em_strs m (al_realloc al m e) = None \<and> al_realloc al m e \<noteq> em_environ m)"

lemma findenv_spec:
  assumes "env_ok (em_strs m) (em_environ m) ow (em_array m)" "CHR ''='' \<notin> set n"
  shows "(findenv_locked (Some n) m = Some None \<and> value_in (em_strs m) (em_array m) n = None) \<or>
    (\<exists>xs e ys v. em_array m = xs @ e # ys \<and> findenv_locked (Some n) m = Some (Some (length xs, length n + 1)) \<and>
       value_in (em_strs m) xs n = None \<and> em_strs m e = Some (n @ CHR ''='' # v))"
proof -
  have "takeWhile (\<lambda>c. c \<noteq> CHR ''='') n = n" using assms(2) by (induction n) auto
  then have "findenv_locked (Some n) m = find_from (em_strs m) n (length n) 0 (em_array m)"
    using assms(1) by (simp add: findenv_locked_def env_ok_def del: takeWhile_eq_all_conv)
  with find_from_spec [OF assms(2), of "em_array m" "em_strs m" 0] assms(1) show ?thesis
    by (simp add: env_ok_def)
qed

lemma getenv_value:
  assumes "env_ok (em_strs m) (em_environ m) ow (em_array m)" "CHR ''='' \<notin> set n"
  shows "getenv (Some n) m = Some (value_in (em_strs m) (em_array m) n)"
  using findenv_spec [OF assms]
proof (elim disjE exE conjE)
  fix xs e ys v
  assume a: "em_array m = xs @ e # ys" "findenv_locked (Some n) m = Some (Some (length xs, length n + 1))"
    "value_in (em_strs m) xs n = None" "em_strs m e = Some (n @ CHR ''='' # v)"
  then have "binds (em_strs m) n e = Some v" by (simp add: binds_Some)
  with a show ?thesis by (simp add: getenv_def)
qed (simp add: getenv_def)

section \<open>Steps that keep an environment in order\<close>

lemma env_ok_sub: "env_ok strs e ow (xs @ zs @ ys) \<Longrightarrow> env_ok strs e ow (xs @ ys)"
  by (fastforce simp: env_ok_def)

lemma env_ok_fresh: "env_ok strs e ow ps \<Longrightarrow> strs p = None \<Longrightarrow> p \<notin> set ps"
  unfolding env_ok_def by blast

lemma env_ok_put:
  assumes "env_ok strs e ow (xs @ ys)" "p \<noteq> 0" "strs p = None" "p \<noteq> e"
  shows "env_ok (strs(p \<mapsto> s)) e (owned_ptr_add g ow p) (xs @ [p] @ ys)"
proof -
  note o = assms(1) [unfolded env_ok_def]
  have "p \<notin> set (xs @ ys)" using o assms(3) by blast
  then have "count_list xs p = 0" "count_list ys p = 0" by (simp_all add: count_list_0_iff)
  moreover have "count_list (xs @ [p] @ ys) q = count_list (xs @ ys) q" if "q \<noteq> p" for q using that by simp
  ultimately have "\<forall>q \<in> insert p (owned_set ow). count_list (xs @ [p] @ ys) q \<le> 1" using o by fastforce
  then show ?thesis using o owned_ptr_add_spec [of ow p g] assms(2-4) by (auto simp: env_ok_def)
qed

lemma env_ok_free:
  assumes "env_ok strs e ow (xs @ q # ys)" "owned_ptr_search ow q = (True, i)" "strs q \<noteq> None"
  shows "env_ok (strs(q := None)) e (owned_ptr_delete ow i) (xs @ ys) \<and> q \<notin> set (xs @ ys) \<and> q \<noteq> e"
proof -
  note o = assms(1) [unfolded env_ok_def]
  have q: "q \<noteq> 0" "q \<noteq> e" using o assms(3) by metis+
  have w: "owned_wf ow" using o by blast
  note s = owned_ptr_search_spec [OF w q(1) assms(2)]
  have d: "owned_wf (owned_ptr_delete ow i)" "owned_set (owned_ptr_delete ow i) = owned_set ow - {q}"
    using owned_ptr_delete_spec [OF w, of i q] s(2) by auto
  have "count_list (xs @ q # ys) q \<le> 1" using o s(1) by blast
  then have "count_list xs q = 0" "count_list ys q = 0" by auto
  then have n: "q \<notin> set (xs @ ys)" by (simp add: count_list_0_iff)
  moreover have "count_list (xs @ ys) p \<le> count_list (xs @ q # ys) p" for p by simp
  with o have "\<forall>p \<in> owned_set ow - {q}. count_list (xs @ ys) p \<le> 1" by (meson DiffD1 le_trans)
  moreover have "\<forall>p \<in> set (xs @ ys). (strs(q := None)) p \<noteq> None" using o n by auto
  moreover have "\<forall>p \<in> owned_set ow - {q}. p = e \<or> (strs(q := None)) p \<noteq> None" using o by auto
  ultimately show ?thesis using o d q unfolding env_ok_def by simp
qed

lemma env_ok_write: "env_ok strs e ow ps \<Longrightarrow> strs q \<noteq> None \<Longrightarrow> env_ok (strs(q \<mapsto> s)) e ow ps"
  by (cases "q = 0"; cases "q = e") (simp_all add: env_ok_def)

lemma env_ok_move:
  assumes "env_ok strs e ow ps" "p \<noteq> 0" "strs p = None" "p \<noteq> e" "owned_ptr_search ow e = (found, i)"
  shows "env_ok strs p (owned_ptr_add g (if found then owned_ptr_delete ow i else ow) p) ps"
proof -
  note o = assms(1) [unfolded env_ok_def]
  let ?ow = "if found then owned_ptr_delete ow i else ow"
  have w: "owned_wf ow" "e \<noteq> 0" using o by blast+
  note s = owned_ptr_search_spec [OF w assms(5)]
  have d: "owned_wf ?ow \<and> owned_set ?ow = owned_set ow - {e}"
    using owned_ptr_delete_spec [OF w(1), of i e] s(1,2) w by (cases found) auto
  then have a: "owned_wf (owned_ptr_add g ?ow p)" "owned_set (owned_ptr_add g ?ow p) \<subseteq> insert p (owned_set ow - {e})"
    using owned_ptr_add_spec [of ?ow p g] assms(2) by blast+
  have "p \<notin> set ps" using o assms(3) by blast
  then have "count_list ps p = 0" by (simp add: count_list_0_iff)
  then have "\<forall>q \<in> insert p (owned_set ow - {e}). count_list ps q \<le> 1 \<and> (q = p \<or> strs q \<noteq> None)" using o by auto
  with a(2) have "\<forall>q \<in> owned_set (owned_ptr_add g ?ow p). count_list ps q \<le> 1 \<and> (q = p \<or> strs q \<noteq> None)" by blast
  with o a(1) assms(2,3) show ?thesis unfolding env_ok_def by blast
qed

section \<open>The operations on an environment in order\<close>

definition mem_ok :: "envmem \<Rightarrow> owned_ptr \<Rightarrow> bool" where
  "mem_ok m ow \<longleftrightarrow> env_ok (em_strs m) (em_environ m) ow (em_array m)"

definition mem_value :: "envmem \<Rightarrow> string \<Rightarrow> string option" where
  "mem_value m n = value_in (em_strs m) (em_array m) n"

text \<open>The outcomes of setting a variable.\<close>

definition was_set :: "envmem \<Rightarrow> string \<Rightarrow> string \<Rightarrow> envmem \<Rightarrow> bool" where
  "was_set m k v m' \<longleftrightarrow> mem_value m' k = Some v \<and> (\<forall>n. n \<noteq> k \<longrightarrow> CHR ''='' \<notin> set n \<longrightarrow> mem_value m' n = mem_value m n)"

definition was_cut :: "envmem \<Rightarrow> envmem \<Rightarrow> bool" where
  "was_cut m m' \<longleftrightarrow> (\<forall>n. mem_value m' n = mem_value m n \<or> mem_value m' n = None)"

lemma no_eq_takeWhile: "CHR ''='' \<notin> set n \<Longrightarrow> takeWhile (\<lambda>c. c \<noteq> CHR ''='') n = n"
  by (induction n) auto

lemma set_slot_spec:
  assumes "allocator_ok al" "CHR ''='' \<notin> set k"
    "env_ok (em_strs m) (em_environ m) ow (xs @ zs @ ys)" "value_in (em_strs m) xs k = None"
    "\<forall>z \<in> set zs. \<exists>w. em_strs m z = Some (k @ CHR ''='' # w)"
    "take off (em_array m) = xs" "drop (off + 1) (em_array m) = ys"
    "set_slot al k at v 1 off m ow = (r, m', ow')"
  shows "mem_ok m' ow' \<and>
    (r = Inl ENOMEM \<and> em_strs m' = em_strs m \<and> em_array m' = xs \<or>
     r = Inr () \<and> mem_value m' k = Some v \<and>
       (\<forall>n. n \<noteq> k \<longrightarrow> CHR ''='' \<notin> set n \<longrightarrow> mem_value m' n = value_in (em_strs m) (xs @ zs @ ys) n))"
proof (cases "al_malloc al m = 0")
  case True
  have "env_ok (em_strs m) (em_environ m) ow (xs @ [])"
    by (rule env_ok_sub [where zs = "zs @ ys"]) (use assms(3) in simp)
  moreover have "r = Inl ENOMEM" "m' = m\<lparr>em_array := xs\<rparr>" "ow' = ow"
    using assms(8) by (simp_all add: set_slot_def Let_def True assms(6))
  ultimately show ?thesis by (simp add: mem_ok_def)
next
  case False
  let ?p = "al_malloc al m"
  let ?strs = "(em_strs m)(?p \<mapsto> k @ ''='' @ v)"
  have f: "em_strs m ?p = None" "?p \<noteq> em_environ m" using assms(1) False by (auto simp: allocator_ok_def)
  have "set_slot al k at v 1 off m ow =
      (Inr (), m\<lparr>em_strs := ?strs, em_array := xs @ [?p] @ ys\<rparr>, owned_ptr_add (al_grow al) ow ?p)"
    by (simp add: set_slot_def put_slot_def Let_def False no_eq_takeWhile [OF assms(2)] assms(6) assms(7) [simplified])
  then have m': "r = Inr ()" "em_strs m' = ?strs" "em_environ m' = em_environ m" "em_array m' = xs @ [?p] @ ys"
    "ow' = owned_ptr_add (al_grow al) ow ?p"
    using assms(8) by simp_all
  have "env_ok ?strs (em_environ m) (owned_ptr_add (al_grow al) ow ?p) (xs @ [?p] @ ys)"
    by (rule env_ok_put [OF env_ok_sub [OF assms(3)] False f])
  moreover have "?p \<notin> set xs \<union> set ys" using env_ok_fresh [OF assms(3) f(1)] by simp
  then have same: "\<forall>x \<in> set xs \<union> set ys. ?strs x = em_strs m x" by auto
  moreover have "?strs ?p = Some (k @ CHR ''='' # v)" by simp
  note put = value_in_put [OF same this assms(2,5)]
  have "value_in ?strs (xs @ [?p] @ ys) k = Some v" by (rule put(1) [OF assms(4)])
  moreover have "value_in ?strs (xs @ [?p] @ ys) n = value_in (em_strs m) (xs @ zs @ ys) n"
    if "n \<noteq> k" "CHR ''='' \<notin> set n" for n by (rule put(2) [OF that])
  ultimately show ?thesis using m' by (simp only: mem_ok_def mem_value_def) blast
qed

lemma overwrite_spec:
  assumes "allocator_ok al" "CHR ''='' \<notin> set k" "em_array m = xs @ e # ys" "mem_ok m ow"
    "value_in (em_strs m) xs k = None" "em_strs m e = Some (k @ CHR ''='' # w)" "owned_ptr_search ow e = (True, oi)"
  obtains r m' ow' where "overwrite al v (length xs) (length k + 1) oi m ow = Some (r, m', ow')" "mem_ok m' ow'"
    "r = Inl ENOMEM \<and> m' = m \<or> r = Inr () \<and> was_set m k v m'"
proof -
  let ?s = "k @ CHR ''='' # v"
  have ok: "env_ok (em_strs m) (em_environ m) ow (xs @ e # ys)" using assms(3,4) by (simp add: mem_ok_def)
  note free = env_ok_free [OF ok assms(7)]
  have e: "e \<notin> set (xs @ ys)" "e \<noteq> em_environ m" using free assms(6) by auto
  have tk: "take (length k + 1) (k @ CHR ''='' # w) @ v = ?s" "drop (length k + 1) (k @ CHR ''='' # w) = w" by simp_all
  have set: "was_set m k v m'" if "em_array m' = xs @ [p] @ ys" "em_strs m' p = Some ?s"
    "\<forall>x \<in> set xs \<union> set ys. em_strs m' x = em_strs m x" for m' p
    using value_in_put [OF that(3,2) assms(2), of "[e]"] that(1) assms(3,5,6) by (simp add: was_set_def mem_value_def)
  let ?here = "m\<lparr>em_strs := (em_strs m)(e \<mapsto> ?s)\<rparr>"
  have here: "mem_ok ?here ow" "was_set m k v ?here"
    using env_ok_write [OF ok, of e ?s] assms(3,6) set [of ?here e] e by (auto simp: mem_ok_def)
  let ?r = "al_realloc al m e"
  consider "length v \<le> length w \<or> ?r = e" | "length w < length v" "?r = 0" | "length w < length v" "?r \<noteq> 0" "?r \<noteq> e" by linarith
  then show thesis
  proof cases
    case 1
    have "e \<noteq> 0" using ok assms(6) by (cases "e = 0") (simp_all add: env_ok_def)
    with 1 have "overwrite al v (length xs) (length k + 1) oi m ow = Some (Inr (), ?here, ow)"
      using assms(3,6) tk by (auto simp: overwrite_def Let_def)
    with here that show thesis by blast
  next
    case 2
    then have "overwrite al v (length xs) (length k + 1) oi m ow = Some (Inl ENOMEM, m, ow)"
      using assms(3,6) tk by (auto simp: overwrite_def Let_def)
    with assms(4) that show thesis by blast
  next
    case 3
    then have f: "em_strs m ?r = None" "?r \<noteq> em_environ m" using assms(1) by (auto simp: allocator_ok_def)
    let ?m = "m\<lparr>em_strs := (em_strs m)(e := None, ?r \<mapsto> ?s), em_array := xs @ [?r] @ ys\<rparr>"
    let ?ow = "owned_ptr_add (al_grow al) (owned_ptr_delete ow oi) ?r"
    have "overwrite al v (length xs) (length k + 1) oi m ow = Some (Inr (), ?m, ?ow)"
      using 3 assms(3,6) tk by (auto simp: overwrite_def Let_def)
    moreover have "env_ok ((em_strs m)(e := None)) (em_environ m) (owned_ptr_delete ow oi) (xs @ ys)"
      using free assms(6) by simp
    then have "mem_ok ?m ?ow" using env_ok_put [of "(em_strs m)(e := None)"] 3 f by (simp add: mem_ok_def)
    moreover have "?r \<notin> set (xs @ ys)" using env_ok_fresh [OF ok f(1)] by simp
    then have "was_set m k v ?m" using e(1) by (intro set [of ?m ?r]) auto
    ultimately show thesis using that by blast
  qed
qed

lemma new_slot_spec:
  assumes "allocator_ok al" "mem_ok m ow"
  obtains ok m' ow' where "new_slot al m ow = Some (ok, m', ow')" "em_strs m' = em_strs m"
    "env_ok (em_strs m) (em_environ m') ow' (em_array m)" "\<not> ok \<Longrightarrow> m' = m"
    "take (length (em_array m)) (em_array m') = em_array m" "drop (length (em_array m) + 1) (em_array m') = []"
proof -
  have ok: "env_ok (em_strs m) (em_environ m) ow (em_array m)" using assms(2) by (simp add: mem_ok_def)
  then have e: "em_environ m \<noteq> 0" by (simp add: env_ok_def)
  obtain found i where s: "owned_ptr_search ow (em_environ m) = (found, i)" by fastforce
  let ?p = "if found then al_realloc al m (em_environ m) else al_malloc al m"
  show thesis
  proof (cases "?p = 0 \<or> ?p = em_environ m")
    case True
    with assms(1) have "?p = 0 \<or> found \<and> ?p = em_environ m" by (auto simp: allocator_ok_def)
    then have "new_slot al m ow = Some (?p \<noteq> 0, m, ow)" using e s by (auto simp: new_slot_def Let_def)
    with ok that show thesis by simp
  next
    case False
    then have f: "em_strs m ?p = None" using assms(1) by (auto simp: allocator_ok_def)
    let ?m = "if found then m\<lparr>em_environ := ?p\<rparr>
      else m\<lparr>em_environ := ?p, em_array := em_array m @ (if al_junk al = 0 then [] else [al_junk al])\<rparr>"
    let ?ow = "owned_ptr_add (al_grow al) (if found then owned_ptr_delete ow i else ow) ?p"
    have "new_slot al m ow = Some (True, ?m, ?ow)"
      using e s False by (cases found) (auto simp: new_slot_def Let_def)
    moreover have "env_ok (em_strs m) ?p ?ow (em_array m)"
      by (rule env_ok_move [OF ok _ f _ s]) (use False in auto)
    ultimately show thesis by (cases found; intro that [of True ?m ?ow]) simp_all
  qed
qed

lemma setenv_locked_spec:
  assumes "allocator_ok al" "CHR ''='' \<notin> set k" "mem_ok m ow"
  obtains r m' ow' where "setenv_locked al k at v rewrite 1 m ow = Some (r, m', ow')" "mem_ok m' ow'"
    "r = Inr () \<and> (if \<not> rewrite \<and> mem_value m k \<noteq> None then m' = m else was_set m k v m') \<or>
     r = Inl ENOMEM \<and> was_cut m m'"
proof -
  have ok: "env_ok (em_strs m) (em_environ m) ow (em_array m)" using assms(3) by (simp add: mem_ok_def)
  from findenv_spec [OF ok assms(2)] show thesis
  proof (elim disjE exE conjE)
    assume f: "findenv_locked (Some k) m = Some None" "value_in (em_strs m) (em_array m) k = None"
    obtain g m1 ow1 where n: "new_slot al m ow = Some (g, m1, ow1)" "em_strs m1 = em_strs m"
      "env_ok (em_strs m) (em_environ m1) ow1 (em_array m)" "\<not> g \<Longrightarrow> m1 = m"
      "take (length (em_array m)) (em_array m1) = em_array m" "drop (length (em_array m) + 1) (em_array m1) = []"
      by (rule new_slot_spec [OF assms(1,3)]) blast
    show thesis
    proof (cases g)
      case False
      then have "setenv_locked al k at v rewrite 1 m ow = Some (Inl ENOMEM, m, ow1)" "mem_ok m ow1"
        using f(1) n(1,3,4) by (simp_all add: setenv_locked_def mem_ok_def)
      with that show thesis by (simp add: was_cut_def)
    next
      case True
      obtain r m' ow' where s: "set_slot al k at v 1 (length (em_array m)) m1 ow1 = (r, m', ow')" by (metis prod.exhaust)
      have e: "setenv_locked al k at v rewrite 1 m ow = Some (r, m', ow')"
        using f(1) n(1) True s by (simp add: setenv_locked_def)
      have "mem_ok m' ow' \<and> (r = Inl ENOMEM \<and> em_strs m' = em_strs m1 \<and> em_array m' = em_array m \<or>
          r = Inr () \<and> mem_value m' k = Some v \<and>
          (\<forall>n. n \<noteq> k \<longrightarrow> CHR ''='' \<notin> set n \<longrightarrow> mem_value m' n = value_in (em_strs m1) (em_array m @ [] @ []) n))"
        by (rule set_slot_spec [OF assms(1,2) _ _ _ _ _ s]) (use n f(2) in simp_all)
      with e that n(2) f(2) show thesis by (auto simp: was_set_def was_cut_def mem_value_def)
    qed
  next
    fix xs e ys w
    assume f: "em_array m = xs @ e # ys" "findenv_locked (Some k) m = Some (Some (length xs, length k + 1))"
      "value_in (em_strs m) xs k = None" "em_strs m e = Some (k @ CHR ''='' # w)"
    then have "binds (em_strs m) k e = Some w" by (simp add: binds_Some)
    with f have v: "mem_value m k = Some w" by (simp add: mem_value_def)
    obtain found oi where s: "owned_ptr_search ow e = (found, oi)" by fastforce
    consider "\<not> rewrite" | "rewrite" "found" | "rewrite" "\<not> found" by blast
    then show thesis
    proof cases
      case 1
      with f(2) have "setenv_locked al k at v rewrite 1 m ow = Some (Inr (), m, ow)" by (simp add: setenv_locked_def)
      with 1 v assms(3) that show thesis by simp
    next
      case 2
      obtain r m' ow' where o: "overwrite al v (length xs) (length k + 1) oi m ow = Some (r, m', ow')" "mem_ok m' ow'"
        "r = Inl ENOMEM \<and> m' = m \<or> r = Inr () \<and> was_set m k v m'"
        by (rule overwrite_spec [OF assms(1,2) f(1) assms(3) f(3,4) s [simplified 2(2)]]) simp
      have "setenv_locked al k at v rewrite 1 m ow = Some (r, m', ow')"
        using 2 f(1,2) s o(1) by (simp add: setenv_locked_def)
      with o(2,3) 2(1) that show thesis by (auto simp: was_cut_def)
    next
      case 3
      obtain r m' ow' where p: "set_slot al k at v 1 (length xs) m ow = (r, m', ow')" by (metis prod.exhaust)
      have e: "setenv_locked al k at v rewrite 1 m ow = Some (r, m', ow')"
        using 3 f(1,2) s p by (simp add: setenv_locked_def)
      have "mem_ok m' ow' \<and> (r = Inl ENOMEM \<and> em_strs m' = em_strs m \<and> em_array m' = xs \<or>
          r = Inr () \<and> mem_value m' k = Some v \<and>
          (\<forall>n. n \<noteq> k \<longrightarrow> CHR ''='' \<notin> set n \<longrightarrow> mem_value m' n = value_in (em_strs m) (xs @ [e] @ ys) n))"
        by (rule set_slot_spec [OF assms(1,2) _ _ _ _ _ p]) (use ok f in simp_all)
      moreover have "value_in (em_strs m) xs n = value_in (em_strs m) (em_array m) n \<or> value_in (em_strs m) xs n = None" for n
        using f(1) by (cases "value_in (em_strs m) xs n") simp_all
      ultimately show thesis using e that 3(1) f(1) by (auto simp: was_set_def was_cut_def mem_value_def)
    qed
  qed
qed

lemma remove_slot_spec:
  assumes "CHR ''='' \<notin> set k" "em_array m = xs @ e # ys" "mem_ok m ow" "em_strs m e = Some (k @ CHR ''='' # w)"
    "remove_slot (length xs) m ow = (m', ow')"
  shows "mem_ok m' ow' \<and> (\<forall>n. n \<noteq> k \<longrightarrow> CHR ''='' \<notin> set n \<longrightarrow> mem_value m' n = mem_value m n)"
proof -
  have ok: "env_ok (em_strs m) (em_environ m) ow (xs @ e # ys)" using assms(2,3) by (simp add: mem_ok_def)
  obtain found oi where s: "owned_ptr_search ow e = (found, oi)" by fastforce
  have m': "mem_ok m' ow' \<and> em_array m' = xs @ ys \<and> (\<forall>x \<in> set (xs @ ys). em_strs m' x = em_strs m x)"
  proof (cases found)
    case True
    with s env_ok_free [OF ok] assms(4)
    have "env_ok ((em_strs m)(e := None)) (em_environ m) (owned_ptr_delete ow oi) (xs @ ys)" "e \<notin> set (xs @ ys)" by auto
    moreover have "m' = m\<lparr>em_strs := (em_strs m)(e := None), em_array := xs @ ys\<rparr>" "ow' = owned_ptr_delete ow oi"
      using assms(2,5) s True by (simp_all add: remove_slot_def Let_def)
    ultimately show ?thesis by (auto simp: mem_ok_def)
  next
    case False
    then have "m' = m\<lparr>em_array := xs @ ys\<rparr>" "ow' = ow" using assms(2,5) s by (simp_all add: remove_slot_def Let_def)
    with env_ok_sub [of _ _ _ xs "[e]" ys] ok show ?thesis by (simp add: mem_ok_def)
  qed
  have "mem_value m' n = mem_value m n" if "n \<noteq> k" "CHR ''='' \<notin> set n" for n
  proof -
    have "binds (em_strs m) n e = None" by (rule binds_other [where strs = "em_strs m", OF assms(4) that assms(1)])
    moreover have "value_in (em_strs m') xs n = value_in (em_strs m) xs n" "value_in (em_strs m') ys n = value_in (em_strs m) ys n"
      using m' by (auto intro: value_in_cong)
    ultimately show ?thesis using m' assms(2) by (simp add: mem_value_def split: option.split)
  qed
  with m' show ?thesis by blast
qed

lemma unsetenv_locked_spec:
  assumes "CHR ''='' \<notin> set k" "mem_ok m ow"
  shows "\<exists>m' ow'. unsetenv_locked k m ow = Some (m', ow') \<and> mem_ok m' ow' \<and> mem_value m' k = None \<and>
    (\<forall>n. n \<noteq> k \<longrightarrow> CHR ''='' \<notin> set n \<longrightarrow> mem_value m' n = mem_value m n)"
  using assms
proof (induction k m ow rule: unsetenv_locked.induct)
  case (1 k m ow)
  have ok: "env_ok (em_strs m) (em_environ m) ow (em_array m)" using 1(3) by (simp add: mem_ok_def)
  from findenv_spec [OF ok 1(2)] show ?case
  proof (elim disjE exE conjE)
    assume "findenv_locked (Some k) m = Some None" "value_in (em_strs m) (em_array m) k = None"
    with 1(3) show ?thesis by (subst unsetenv_locked.simps) (simp add: mem_value_def)
  next
    fix xs e ys w
    assume f: "em_array m = xs @ e # ys" "findenv_locked (Some k) m = Some (Some (length xs, length k + 1))"
      "value_in (em_strs m) xs k = None" "em_strs m e = Some (k @ CHR ''='' # w)"
    obtain m1 ow1 where r: "remove_slot (length xs) m ow = (m1, ow1)" by fastforce
    note s = remove_slot_spec [OF 1(2) f(1) 1(3) f(4) r]
    have "\<exists>m' ow'. unsetenv_locked k m1 ow1 = Some (m', ow') \<and> mem_ok m' ow' \<and> mem_value m' k = None \<and>
        (\<forall>n. n \<noteq> k \<longrightarrow> CHR ''='' \<notin> set n \<longrightarrow> mem_value m' n = mem_value m1 n)"
      by (rule 1(1) [OF f(2) refl refl r [symmetric] 1(2)]) (use s in blast)
    with s f(2) r show ?thesis by (subst unsetenv_locked.simps) auto
  qed
qed

section \<open>The environment of a process\<close>

text \<open>The environment of a process in order; before its first use the table is a new one.\<close>

definition proc_ok :: "proc \<Rightarrow> bool" where
  "proc_ok pr \<longleftrightarrow>
     mem_ok (pr_mem pr) (case pr_owned pr of None \<Rightarrow> \<lparr>op_table = [0], op_size = OWNED_PTR_INITIAL_SIZE\<rparr> | Some ow \<Rightarrow> ow)"

lemma init_env_owned_ok:
  assumes "proc_ok pr" "init_env_owned al pr = Some ow"
  shows "mem_ok (pr_mem pr) ow"
  using assms by (auto simp: proc_ok_def init_env_owned_def owned_ptr_alloc_def split: option.splits if_splits)

lemma getenv_mem_value:
  "mem_ok m ow \<Longrightarrow> CHR ''='' \<notin> set n \<Longrightarrow> getenv (Some n) m = Some (mem_value m n)"
  by (simp add: mem_ok_def mem_value_def getenv_value)



text \<open>
  How a failure loses variables: the slot of a variable that is replaced holds a null pointer
  when there is no memory for the new string, and that is where the environment ends.
\<close>

lemma setenv_truncates:
  "map_option (\<lambda>(r, pr). (r, getenv (Some ''A'') (pr_mem pr), getenv (Some ''B'') (pr_mem pr)))
     (setenv \<lparr>al_malloc = (\<lambda>_. 0), al_realloc = (\<lambda>_ _. 0), al_grow = (\<lambda>_. False), al_junk = 0, al_table = (True, True)\<rparr>
       (Some ''A'') ''z'' True
       \<lparr>pr_mem = \<lparr>em_strs = (\<lambda>_. None)(5 \<mapsto> ''A=x'', 6 \<mapsto> ''B=y''), em_environ = 9, em_array = [5, 6]\<rparr>, pr_owned = None\<rparr>) =
   Some (Inl ENOMEM, Some None, Some None)"
  by (simp add: setenv_def init_env_owned_def owned_ptr_alloc_def setenv_locked_def findenv_locked_def getenv_def
    owned_ptr_search_def set_slot_def Let_def OWNED_PTR_INITIAL_SIZE_def numeral_nat)

end
