(* ===== verification/Exit_Handlers.thy ===== *)
theory Exit_Handlers
  imports C_Prelude "HOL-Library.Monad_Syntax"
begin

text \<open>
  The functions that a process runs when it exits or unloads code (\<open>atexit.c\<close>): a stack of
  tables of handlers, and the walk that calls them, which starts anew whenever a handler has
  registered others. What a handler does is an argument: its effect on the rest of the process,
  of type \<open>'w\<close>, and the handlers it registers, each with whether there is memory for a new table.
  One thread at a time holds the lock, so that no other registration comes in between.
\<close>

type_synonym ptr = "64 word"

section \<open>The tables\<close>

datatype fn_kind = FN_EMPTY | FN_STD | FN_CXA | FN_BLK

record atexit_fn =
  fn_type :: fn_kind
  fn_ptr :: ptr
  fn_arg :: ptr
  fn_dso :: ptr

definition ATEXIT_SIZE :: nat where
  "ATEXIT_SIZE = 32"

text \<open>
  The tables from \<open>__atexit\<close> on, each with the entries below its index, and the flag
  \<open>__atexit_new_registration\<close>.
\<close>

record exit_state =
  at_blocks :: "atexit_fn list list"
  at_new :: bool

definition atexit_init :: exit_state where
  "atexit_init = \<lparr>at_blocks = [[]], at_new = False\<rparr>"

definition atexit_register :: "bool \<Rightarrow> atexit_fn \<Rightarrow> exit_state \<Rightarrow> (bool \<times> exit_state) option" where
  \<comment> \<open>\<open>mem\<close> is whether \<open>malloc\<close> finds memory for one more table; \<open>None\<close> is the failed assertion\<close>
  "atexit_register mem f st =
     (case at_blocks st of
        [] \<Rightarrow> None
      | b # bs \<Rightarrow>
          if length b \<ge> ATEXIT_SIZE then
            (if \<not> mem then Some (False, st)
             else Some (True, \<lparr>at_blocks = [f] # b # bs, at_new = True\<rparr>))
          else Some (True, \<lparr>at_blocks = (b @ [f]) # bs, at_new = True\<rparr>))"

text \<open>\<open>dladdr\<close>, \<open>Block_copy\<close> and the code of a block are arguments.\<close>

definition atexit :: "(ptr \<Rightarrow> ptr option) \<Rightarrow> bool \<Rightarrow> ptr \<Rightarrow> exit_state \<Rightarrow> (bool \<times> exit_state) option" where
  "atexit dladdr mem func st =
     atexit_register mem
       \<lparr>fn_type = FN_STD, fn_ptr = func, fn_arg = 0, fn_dso = (case dladdr func of None \<Rightarrow> 0 | Some base \<Rightarrow> base)\<rparr> st"

definition atexit_b :: "(ptr \<Rightarrow> ptr) \<Rightarrow> bool \<Rightarrow> ptr \<Rightarrow> exit_state \<Rightarrow> (bool \<times> exit_state) option" where
  "atexit_b block_copy mem block st =
     atexit_register mem \<lparr>fn_type = FN_BLK, fn_ptr = block_copy block, fn_arg = 0, fn_dso = 0\<rparr> st"

section \<open>Ranges of addresses\<close>

text \<open>A range is an address and a length; the end of a range can wrap around.\<close>

type_synonym ranges = "(ptr \<times> ptr) list"

fun cxa_in_range :: "ranges \<Rightarrow> ptr \<Rightarrow> bool" where
  "cxa_in_range [] addr = False"
| "cxa_in_range ((a, len) # rs) addr =
     (if addr < a then cxa_in_range rs addr
      else if addr < a + len then True
      else cxa_in_range rs addr)"

definition to_call :: "(ptr \<Rightarrow> ptr) \<Rightarrow> ranges \<Rightarrow> atexit_fn \<Rightarrow> bool" where
  \<comment> \<open>whether the walk calls the handler; \<open>invoke\<close> is the code of a block\<close>
  "to_call invoke rs f =
     (if fn_type f = FN_EMPTY then False
      else if length rs > 0 then
        (if fn_type f = FN_CXA then cxa_in_range rs (fn_dso f)
         else if fn_type f = FN_STD then cxa_in_range rs (fn_ptr f)
         else if fn_type f = FN_BLK then cxa_in_range rs (invoke (fn_ptr f))
         else True)
      else True)"

section \<open>The walk\<close>

type_synonym 'w handlers = "'w \<Rightarrow> atexit_fn \<Rightarrow> 'w \<times> (bool \<times> atexit_fn) list"

fun register_all :: "(bool \<times> atexit_fn) list \<Rightarrow> exit_state \<Rightarrow> exit_state option" where
  "register_all [] st = Some st"
| "register_all ((mem, f) # rs) st =
     (case atexit_register mem f st of None \<Rightarrow> None | Some (_, st) \<Rightarrow> register_all rs st)"

definition set_empty :: "nat \<Rightarrow> nat \<Rightarrow> atexit_fn list list \<Rightarrow> atexit_fn list list" where
  "set_empty p n bs = bs[p := (bs ! p)[n := (bs ! p ! n)\<lparr>fn_type := FN_EMPTY\<rparr>]]"

definition ind_of :: "atexit_fn list list \<Rightarrow> nat \<Rightarrow> nat" where
  "ind_of bs p = (if p < length bs then length (bs ! p) else 0)"

text \<open>The walk at the entries below \<open>n\<close> of the table \<open>p\<close>, with the handlers called so far.\<close>

partial_function (option) finalize_from :: "'w handlers \<Rightarrow> (ptr \<Rightarrow> ptr) \<Rightarrow> ranges \<Rightarrow> 'w \<Rightarrow> exit_state \<Rightarrow> nat \<Rightarrow> nat \<Rightarrow>
    atexit_fn list \<Rightarrow> ('w \<times> exit_state \<times> atexit_fn list) option" where
  "finalize_from call invoke rs w st p n called =
     (if p \<ge> length (at_blocks st) then Some (w, st, called)
      else if n = 0 then finalize_from call invoke rs w st (p + 1) (ind_of (at_blocks st) (p + 1)) called
      else if \<not> to_call invoke rs (at_blocks st ! p ! (n - 1)) then finalize_from call invoke rs w st p (n - 1) called
      else
        (case call w (at_blocks st ! p ! (n - 1)) of
           (w', regs) \<Rightarrow>
             do { st' \<leftarrow> register_all regs \<lparr>at_blocks = set_empty p (n - 1) (at_blocks st), at_new = False\<rparr>;
                  if at_new st' then
                    finalize_from call invoke rs w' st' 0 (ind_of (at_blocks st') 0) (called @ [at_blocks st ! p ! (n - 1)])
                  else finalize_from call invoke rs w' st' p (n - 1) (called @ [at_blocks st ! p ! (n - 1)]) }))"

definition cxa_finalize_ranges :: "'w handlers \<Rightarrow> (ptr \<Rightarrow> ptr) \<Rightarrow> ranges \<Rightarrow> 'w \<Rightarrow> exit_state \<Rightarrow>
    ('w \<times> exit_state \<times> atexit_fn list) option" where
  "cxa_finalize_ranges call invoke rs w st = finalize_from call invoke rs w st 0 (ind_of (at_blocks st) 0) []"

definition cxa_finalize :: "'w handlers \<Rightarrow> (ptr \<Rightarrow> ptr) \<Rightarrow> ptr \<Rightarrow> 'w \<Rightarrow> exit_state \<Rightarrow>
    ('w \<times> exit_state \<times> atexit_fn list) option" where
  "cxa_finalize call invoke dso w st =
     (if dso \<noteq> 0 then cxa_finalize_ranges call invoke [(dso, 1)] w st
      else cxa_finalize_ranges call invoke [] w st)"

section \<open>A stack of handlers\<close>

text \<open>The handlers not called yet, the last one registered first.\<close>

definition all_fns :: "atexit_fn list list \<Rightarrow> atexit_fn list" where
  "all_fns bs = concat (map rev bs)"

definition live :: "atexit_fn list \<Rightarrow> atexit_fn list" where
  "live fs = filter (\<lambda>f. fn_type f \<noteq> FN_EMPTY) fs"

definition pending :: "exit_state \<Rightarrow> atexit_fn list" where
  "pending st = live (all_fns (at_blocks st))"

text \<open>
  What the walk should do, on the stack alone: the topmost handler that is to be called is taken
  out and called, and those that it registers go on top, until there is none left.
\<close>

inductive exits :: "'w handlers \<Rightarrow> (atexit_fn \<Rightarrow> bool) \<Rightarrow> 'w \<Rightarrow> atexit_fn list \<Rightarrow> atexit_fn list \<Rightarrow> 'w \<Rightarrow> atexit_fn list \<Rightarrow> bool"
  for call el where
  exits_done: "\<forall>f \<in> set fs. \<not> el f \<Longrightarrow> exits call el w fs [] w fs"
| exits_call: "\<forall>x \<in> set xs. \<not> el x \<Longrightarrow> el f \<Longrightarrow> call w f = (w1, regs) \<Longrightarrow>
    exits call el w1 (rev (map snd regs) @ xs @ ys) called w' fs' \<Longrightarrow>
    exits call el w (xs @ f # ys) (f # called) w' fs'"

inductive_cases exits_cases: "exits call el w fs called w' fs'"

lemma live_simps [simp]: "live [] = []" "live (xs @ ys) = live xs @ live ys" "live (rev xs) = rev (live xs)"
  "live (x # xs) = (if fn_type x \<noteq> FN_EMPTY then x # live xs else live xs)"
  by (simp_all add: live_def rev_filter)

lemma set_live [simp]: "set (live xs) = {x \<in> set xs. fn_type x \<noteq> FN_EMPTY}"
  by (auto simp: live_def)

lemma to_call_live: "to_call invoke rs f \<Longrightarrow> fn_type f \<noteq> FN_EMPTY"
  by (simp add: to_call_def split: if_splits)

lemma to_call_empty [simp]: "\<not> to_call invoke rs (f\<lparr>fn_type := FN_EMPTY\<rparr>)"
  by (simp add: to_call_def)

text \<open>There is one place for the topmost handler that is to be called.\<close>

lemma first_unique:
  assumes "xs @ f # ys = us @ g # vs" "\<forall>x \<in> set xs. \<not> P x" "\<forall>x \<in> set us. \<not> P x" "P f" "P g"
  shows "xs = us \<and> f = g \<and> ys = vs"
proof -
  have "takeWhile (\<lambda>x. \<not> P x) (xs @ f # ys) = xs" "takeWhile (\<lambda>x. \<not> P x) (us @ g # vs) = us"
    using assms(2-5) by simp_all
  with assms(1) have "xs = us" by metis
  with assms(1) show ?thesis by simp
qed

lemma exits_deterministic:
  "exits call el w fs called w' fs' \<Longrightarrow> exits call el w fs called2 w2 fs2 \<Longrightarrow> called2 = called \<and> w2 = w' \<and> fs2 = fs'"
proof (induction arbitrary: called2 w2 fs2 rule: exits.induct)
  case (exits_done fs w)
  from exits_done(2) show ?case by (rule exits_cases) (use exits_done(1) in auto)
next
  case (exits_call xs f w w1 regs ys called w' fs')
  from exits_call.prems show ?case
  proof (rule exits_cases, goal_cases)
    case 1
    with exits_call.hyps(2) show ?thesis by auto
  next
    case (2 us g w1' regs' vs called')
    with first_unique [of xs f ys us g vs el] exits_call.hyps(1,2) have "xs = us" "f = g" "ys = vs" by auto
    with 2 exits_call.hyps(3) exits_call.IH show ?thesis by auto
  qed
qed

section \<open>Registering\<close>

lemma register_pending:
  assumes "at_blocks st \<noteq> []" "fn_type f \<noteq> FN_EMPTY"
  shows "\<exists>st'. atexit_register True f st = Some (True, st') \<and> pending st' = f # pending st \<and> at_new st' \<and> at_blocks st' \<noteq> []"
  using assms by (cases "at_blocks st") (auto simp: atexit_register_def pending_def all_fns_def)

lemma register_all_pending:
  assumes "at_blocks st \<noteq> []" "\<forall>(mem, f) \<in> set regs. mem \<and> fn_type f \<noteq> FN_EMPTY"
  shows "\<exists>st'. register_all regs st = Some st' \<and> pending st' = rev (map snd regs) @ pending st \<and>
    (regs \<noteq> [] \<longrightarrow> at_new st') \<and> (regs = [] \<longrightarrow> st' = st) \<and> at_blocks st' \<noteq> []"
  using assms
proof (induction regs arbitrary: st)
  case (Cons r regs)
  obtain mem f where r: "r = (mem, f)" by fastforce
  with Cons.prems register_pending [of st f] obtain st1 where s: "atexit_register mem f st = Some (True, st1)"
    "pending st1 = f # pending st" "at_new st1" "at_blocks st1 \<noteq> []" by auto
  with Cons.IH [of st1] Cons.prems r obtain st' where "register_all regs st1 = Some st'"
    "pending st' = rev (map snd regs) @ pending st1" "regs \<noteq> [] \<longrightarrow> at_new st'" "regs = [] \<longrightarrow> st' = st1" "at_blocks st' \<noteq> []" by auto
  with s r show ?case by auto
qed simp

section \<open>The position of the walk\<close>

text \<open>The entries that the walk has passed, and those it still has to look at.\<close>

definition passed :: "atexit_fn list list \<Rightarrow> nat \<Rightarrow> nat \<Rightarrow> atexit_fn list" where
  "passed bs p n = all_fns (take p bs) @ (if p < length bs then rev (drop n (bs ! p)) else [])"

definition ahead :: "atexit_fn list list \<Rightarrow> nat \<Rightarrow> nat \<Rightarrow> atexit_fn list" where
  "ahead bs p n = (if p < length bs then rev (take n (bs ! p)) else []) @ all_fns (drop (p + 1) bs)"

definition in_tables :: "atexit_fn list list \<Rightarrow> nat \<Rightarrow> nat \<Rightarrow> bool" where
  "in_tables bs p n \<longleftrightarrow> (p < length bs \<longrightarrow> n \<le> length (bs ! p))"

lemma all_fns_simps [simp]: "all_fns [] = []" "all_fns (b # bs) = rev b @ all_fns bs" "all_fns (bs @ cs) = all_fns bs @ all_fns cs"
  by (simp_all add: all_fns_def)

lemma passed_ahead: "passed bs p n @ ahead bs p n = all_fns bs"
proof (cases "p < length bs")
  case True
  then have "bs = take p bs @ bs ! p # drop (p + 1) bs" by (simp add: id_take_nth_drop)
  then have "all_fns bs = all_fns (take p bs) @ rev (bs ! p) @ all_fns (drop (p + 1) bs)"
    by (metis all_fns_simps(2,3))
  moreover have "rev (drop n (bs ! p)) @ rev (take n (bs ! p)) = rev (bs ! p)" by (metis append_take_drop_id rev_append)
  ultimately show ?thesis using True by (simp add: passed_def ahead_def)
qed (simp add: passed_def ahead_def)

lemma pending_split: "pending st = live (passed (at_blocks st) p n) @ live (ahead (at_blocks st) p n)"
  unfolding pending_def passed_ahead [of "at_blocks st" p n, symmetric] by simp

lemma passed_start [simp]: "passed bs 0 (ind_of bs 0) = []"
  by (simp add: passed_def ind_of_def)

lemma in_tables_ind [simp]: "in_tables bs p (ind_of bs p)"
  by (simp add: in_tables_def ind_of_def)

lemma next_table:
  assumes "p < length bs"
  shows "ahead bs (p + 1) (ind_of bs (p + 1)) = ahead bs p 0" "passed bs (p + 1) (ind_of bs (p + 1)) = passed bs p 0"
  using assms by (simp_all add: ahead_def passed_def ind_of_def take_Suc_conv_app_nth Cons_nth_drop_Suc [symmetric])

lemma next_entry:
  assumes "p < length bs" "n < length (bs ! p)"
  shows "ahead bs p (Suc n) = bs ! p ! n # ahead bs p n" "passed bs p n = passed bs p (Suc n) @ [bs ! p ! n]"
  using assms by (simp_all add: ahead_def passed_def take_Suc_conv_app_nth Cons_nth_drop_Suc [symmetric])

lemma ahead_none: "p \<ge> length bs \<Longrightarrow> ahead bs p n = []"
  by (simp add: ahead_def)

lemma set_empty_simps:
  assumes "p < length bs" "n < length (bs ! p)"
  shows "ahead (set_empty p n bs) p n = ahead bs p n"
    "passed (set_empty p n bs) p n = passed bs p (Suc n) @ [(bs ! p ! n)\<lparr>fn_type := FN_EMPTY\<rparr>]"
    "in_tables (set_empty p n bs) p n" "set_empty p n bs \<noteq> []"
  using assms by (auto simp: set_empty_def ahead_def passed_def in_tables_def drop_update_cancel Cons_nth_drop_Suc [symmetric])

text \<open>The handlers that a program registers: there is memory for them, and none is empty.\<close>

definition handlers_ok :: "'w handlers \<Rightarrow> bool" where
  "handlers_ok call \<longleftrightarrow> (\<forall>w f. \<forall>(mem, g) \<in> set (snd (call w f)). mem \<and> fn_type g \<noteq> FN_EMPTY)"

lemma called_entry:
  assumes "handlers_ok call" "call w (bs ! p ! n) = (w1, regs)" "p < length bs" "n < length (bs ! p)"
  obtains st2 where "register_all regs \<lparr>at_blocks = set_empty p n bs, at_new = False\<rparr> = Some st2"
    "pending st2 = rev (map snd regs) @ live (passed bs p (Suc n)) @ live (ahead bs p n)" "at_blocks st2 \<noteq> []"
    "\<not> at_new st2 \<longrightarrow> at_blocks st2 = set_empty p n bs"
proof -
  let ?st = "\<lparr>at_blocks = set_empty p n bs, at_new = False\<rparr>"
  note e = set_empty_simps [OF assms(3,4)]
  have "\<forall>(mem, g) \<in> set regs. mem \<and> fn_type g \<noteq> FN_EMPTY"
    using assms(1,2) unfolding handlers_ok_def by (metis snd_conv)
  moreover have "at_blocks ?st \<noteq> []" using e(4) by simp
  ultimately obtain st2 where "register_all regs ?st = Some st2" "pending st2 = rev (map snd regs) @ pending ?st"
    "regs \<noteq> [] \<longrightarrow> at_new st2" "regs = [] \<longrightarrow> st2 = ?st" "at_blocks st2 \<noteq> []"
    using register_all_pending [of ?st regs] by blast
  moreover have "pending ?st = live (passed bs p (Suc n)) @ live (ahead bs p n)"
    unfolding pending_split [of ?st p n] using e(1,2) by simp
  ultimately show thesis using that by auto
qed

text \<open>Entries that are not to be called are passed over.\<close>

lemma walk_to:
  assumes "in_tables (at_blocks st) p n" "ahead (at_blocks st) p n = xs @ f # ys"
    "\<forall>x \<in> set xs. \<not> to_call invoke rs x" "to_call invoke rs f"
  obtains p1 n1 where "p1 < length (at_blocks st)" "n1 < length (at_blocks st ! p1)" "at_blocks st ! p1 ! n1 = f"
    "ahead (at_blocks st) p1 n1 = ys" "passed (at_blocks st) p1 (Suc n1) = passed (at_blocks st) p n @ xs"
    "finalize_from call invoke rs w st p n called = finalize_from call invoke rs w st p1 (Suc n1) called"
  using assms
proof (induction "length (ahead (at_blocks st) p n) + (length (at_blocks st) - p)" arbitrary: p n xs thesis rule: less_induct)
  case less
  let ?bs = "at_blocks st"
  have p: "p < length ?bs" using less.prems(3) ahead_none [of ?bs p n] by (cases "p < length ?bs") auto
  show ?case
  proof (cases n)
    case 0
    have e: "finalize_from call invoke rs w st p n called =
        finalize_from call invoke rs w st (p + 1) (ind_of ?bs (p + 1)) called"
      using p 0 by (subst finalize_from.simps) simp
    show ?thesis
      by (rule less.hyps [of "p + 1" "ind_of ?bs (p + 1)" xs])
        (use p 0 less.prems e next_table [OF p] in \<open>auto simp: diff_less_mono2\<close>)
  next
    case (Suc m)
    with less.prems(2) p have m: "m < length (?bs ! p)" by (simp add: in_tables_def)
    note nx = next_entry [OF p m]
    show ?thesis
    proof (cases xs)
      case Nil
      with less.prems nx Suc m p show ?thesis by auto
    next
      case (Cons x xs')
      with less.prems(3) nx(1) Suc have x: "x = ?bs ! p ! m" "ahead ?bs p m = xs' @ f # ys" by auto
      have e: "finalize_from call invoke rs w st p n called = finalize_from call invoke rs w st p m called"
        using p Suc x(1) Cons less.prems(4) by (subst finalize_from.simps) simp
      show ?thesis
        by (rule less.hyps [of p m xs'])
          (use p m Suc less.prems e nx x Cons in \<open>auto simp: in_tables_def\<close>)
    qed
  qed
qed

lemma walk_end:
  assumes "in_tables (at_blocks st) p n" "\<forall>x \<in> set (ahead (at_blocks st) p n). \<not> to_call invoke rs x"
  shows "finalize_from call invoke rs w st p n called = Some (w, st, called)"
  using assms
proof (induction "length (ahead (at_blocks st) p n) + (length (at_blocks st) - p)" arbitrary: p n rule: less_induct)
  case less
  let ?bs = "at_blocks st"
  show ?case
  proof (cases "p < length ?bs")
    case False
    then show ?thesis by (subst finalize_from.simps) simp
  next
    case p: True
    show ?thesis
    proof (cases n)
      case 0
      have "finalize_from call invoke rs w st (p + 1) (ind_of ?bs (p + 1)) called = Some (w, st, called)"
        by (rule less.hyps) (use p 0 less.prems next_table [OF p] in auto)
      with p 0 show ?thesis by (subst finalize_from.simps) simp
    next
      case (Suc m)
      with less.prems(1) p have m: "m < length (?bs ! p)" by (simp add: in_tables_def)
      note nx = next_entry [OF p m]
      have "finalize_from call invoke rs w st p m called = Some (w, st, called)"
        by (rule less.hyps) (use p m Suc less.prems nx in \<open>auto simp: in_tables_def\<close>)
      with p Suc less.prems(2) nx(1) show ?thesis by (subst finalize_from.simps) simp
    qed
  qed
qed

section \<open>The walk and the stack\<close>

text \<open>One call, at the first entry ahead that is to be called.\<close>

lemma finalize_call:
  assumes "p < length (at_blocks st)" "n < length (at_blocks st ! p)" "to_call invoke rs (at_blocks st ! p ! n)"
    "call w (at_blocks st ! p ! n) = (w1, regs)"
    "register_all regs \<lparr>at_blocks = set_empty p n (at_blocks st), at_new = False\<rparr> = Some st2"
  shows "finalize_from call invoke rs w st p (Suc n) called =
    (if at_new st2 then finalize_from call invoke rs w1 st2 0 (ind_of (at_blocks st2) 0) (called @ [at_blocks st ! p ! n])
     else finalize_from call invoke rs w1 st2 p n (called @ [at_blocks st ! p ! n]))"
  using assms by (subst finalize_from.simps) simp

lemma exits_walk:
  assumes "exits call (to_call invoke rs) w fs tr w' fs'" "handlers_ok call" "fs = pending st"
    "in_tables (at_blocks st) p n" "\<forall>x \<in> set (passed (at_blocks st) p n). \<not> to_call invoke rs x" "at_blocks st \<noteq> []"
  shows "\<exists>st'. finalize_from call invoke rs w st p n called = Some (w', st', called @ tr) \<and> pending st' = fs'"
  using assms(1,3-6)
proof (induction w fs tr w' fs' arbitrary: st p n called rule: exits.induct)
  case (exits_done fs w)
  have "\<forall>x \<in> set (ahead (at_blocks st) p n). \<not> to_call invoke rs x"
  proof (intro ballI notI)
    fix x assume x: "x \<in> set (ahead (at_blocks st) p n)" "to_call invoke rs x"
    then have "x \<in> set (pending st)" unfolding pending_split [of st p n] using to_call_live [OF x(2)] by simp
    with exits_done.hyps exits_done.prems(1) x(2) show False by simp
  qed
  from walk_end [OF exits_done.prems(2) this, of call w called] exits_done.prems(1) show ?case by simp
next
  case (exits_call xs f w w1 regs ys tr w' fs')
  let ?bs = "at_blocks st" and ?el = "to_call invoke rs"
  have "\<exists>x \<in> set (ahead ?bs p n). ?el x"
  proof (rule ccontr)
    assume "\<not> ?thesis"
    with exits_call.prems(1,3) have "\<forall>x \<in> set (pending st). \<not> ?el x" unfolding pending_split [of st p n] by auto
    with exits_call.prems(1) exits_call.hyps(2) show False by (metis in_set_conv_decomp)
  qed
  then obtain as g bs where s: "ahead ?bs p n = as @ g # bs" "?el g" "\<forall>x \<in> set as. \<not> ?el x"
    by (metis split_list_first_prop)
  have "pending st = (live (passed ?bs p n) @ live as) @ g # live bs"
    unfolding pending_split [of st p n] s(1) using to_call_live [OF s(2)] by simp
  with first_unique [of xs f ys "live (passed ?bs p n) @ live as" g "live bs" ?el] exits_call.hyps(1,2) exits_call.prems(1,3) s
  have fg: "xs = live (passed ?bs p n) @ live as" "f = g" "ys = live bs" by auto
  obtain p1 n1 where w: "p1 < length ?bs" "n1 < length (?bs ! p1)" "?bs ! p1 ! n1 = g" "ahead ?bs p1 n1 = bs"
    "passed ?bs p1 (Suc n1) = passed ?bs p n @ as"
    "finalize_from call invoke rs w st p n called = finalize_from call invoke rs w st p1 (Suc n1) called"
    by (rule walk_to [OF exits_call.prems(2) s(1,3,2)])
  obtain st2 where r: "register_all regs \<lparr>at_blocks = set_empty p1 n1 ?bs, at_new = False\<rparr> = Some st2"
    "pending st2 = rev (map snd regs) @ live (passed ?bs p1 (Suc n1)) @ live (ahead ?bs p1 n1)" "at_blocks st2 \<noteq> []"
    "\<not> at_new st2 \<longrightarrow> at_blocks st2 = set_empty p1 n1 ?bs"
    by (rule called_entry [OF assms(2), of w ?bs p1 n1 w1 regs]) (use w(1-3) fg(2) exits_call.hyps(3) in auto)
  have pend: "rev (map snd regs) @ xs @ ys = pending st2" using r(2) w(4,5) fg by simp
  have step: "finalize_from call invoke rs w st p1 (Suc n1) called =
      (if at_new st2 then finalize_from call invoke rs w1 st2 0 (ind_of (at_blocks st2) 0) (called @ [f])
       else finalize_from call invoke rs w1 st2 p1 n1 (called @ [f]))"
    using finalize_call [OF w(1,2), of invoke rs call w w1 regs st2 called] w(3) s(2) fg(2) exits_call.hyps(3) r(1) by simp
  show ?case
  proof (cases "at_new st2")
    case True
    with exits_call.IH [OF pend in_tables_ind, where called = "called @ [f]"] r(3) step w(6) show ?thesis by simp
  next
    case False
    note e = set_empty_simps [OF w(1,2)]
    have "\<forall>x \<in> set (passed (at_blocks st2) p1 n1). \<not> ?el x"
      using mp [OF r(4) False] e(2) w(5) s(3) exits_call.prems(3) by auto
    with exits_call.IH [OF pend, where p = p1 and n = n1 and called = "called @ [f]"] r(3) mp [OF r(4) False] e(3) False step w(6) show ?thesis by simp
  qed
qed

lemma walk_exits:
  assumes "finalize_from call invoke rs w st p n called = Some (w', st', called')"
  shows "handlers_ok call \<longrightarrow> in_tables (at_blocks st) p n \<longrightarrow> (\<forall>x \<in> set (passed (at_blocks st) p n). \<not> to_call invoke rs x) \<longrightarrow>
    at_blocks st \<noteq> [] \<longrightarrow>
    (\<exists>tr. called' = called @ tr \<and> exits call (to_call invoke rs) w (pending st) tr w' (pending st'))"
proof (induction call invoke rs w st p n called "(w', st', called')" rule: finalize_from.raw_induct)
  case (1 fin call invoke rs w st p n called)
  note IH = 1(1) and body = 1(2)
  let ?bs = "at_blocks st" and ?el = "to_call invoke rs"
  show ?case
  proof (intro impI)
    assume h: "handlers_ok call" "in_tables ?bs p n" "\<forall>x \<in> set (passed ?bs p n). \<not> ?el x" "?bs \<noteq> []"
    consider "p \<ge> length ?bs" | "p < length ?bs" "n = 0"
      | m where "p < length ?bs" "n = Suc m" "\<not> ?el (?bs ! p ! m)" | m where "p < length ?bs" "n = Suc m" "?el (?bs ! p ! m)"
      by (cases n) force+
    then show "\<exists>tr. called' = called @ tr \<and> exits call ?el w (pending st) tr w' (pending st')"
    proof cases
      case 1
      then have "\<forall>f \<in> set (pending st). \<not> ?el f" using h(3) pending_split [of st p n] ahead_none [of ?bs p n] by auto
      with 1 body exits_done show ?thesis by auto
    next
      case 2
      with body have "fin call invoke rs w st (p + 1) (ind_of ?bs (p + 1)) called = Some (w', st', called')" by simp
      from IH [OF this] h next_table [OF 2(1)] 2(2) show ?thesis by simp
    next
      case (3 m)
      with h(2) have m: "m < length (?bs ! p)" by (simp add: in_tables_def)
      from 3 body have "fin call invoke rs w st p m called = Some (w', st', called')" by simp
      from IH [OF this] h next_entry(2) [OF 3(1) m] 3 show ?thesis by (auto simp: in_tables_def)
    next
      case (4 m)
      with h(2) have m: "m < length (?bs ! p)" by (simp add: in_tables_def)
      note nx = next_entry [OF 4(1) m]
      let ?f = "?bs ! p ! m"
      obtain w1 regs where c: "call w ?f = (w1, regs)" by fastforce
      obtain st2 where r: "register_all regs \<lparr>at_blocks = set_empty p m ?bs, at_new = False\<rparr> = Some st2"
        "pending st2 = rev (map snd regs) @ live (passed ?bs p (Suc m)) @ live (ahead ?bs p m)" "at_blocks st2 \<noteq> []"
        "\<not> at_new st2 \<longrightarrow> at_blocks st2 = set_empty p m ?bs"
        by (rule called_entry [OF h(1) c 4(1) m])
      have run: "(if at_new st2 then fin call invoke rs w1 st2 0 (ind_of (at_blocks st2) 0) (called @ [?f])
          else fin call invoke rs w1 st2 p m (called @ [?f])) = Some (w', st', called')"
        using body 4 c r(1) by (cases "at_new st2") simp_all
      have "\<exists>tr. called' = (called @ [?f]) @ tr \<and> exits call ?el w1 (pending st2) tr w' (pending st')"
      proof (cases "at_new st2")
        case True
        with run have "fin call invoke rs w1 st2 0 (ind_of (at_blocks st2) 0) (called @ [?f]) = Some (w', st', called')" by simp
        from IH [OF this] h(1) r(3) show ?thesis by simp
      next
        case False
        with run have "fin call invoke rs w1 st2 p m (called @ [?f]) = Some (w', st', called')" by simp
        moreover note e = set_empty_simps [OF 4(1) m]
        have "\<forall>x \<in> set (passed (at_blocks st2) p m). \<not> ?el x"
          using mp [OF r(4) False] e(2) h(3) 4(2) by auto
        moreover have "in_tables (at_blocks st2) p m" using mp [OF r(4) False] e(3) by simp
        ultimately show ?thesis using IH h(1) r(3) by blast
      qed
      then obtain tr where tr: "called' = called @ ?f # tr" "exits call ?el w1 (pending st2) tr w' (pending st')" by auto
      have "exits call ?el w (live (passed ?bs p (Suc m)) @ ?f # live (ahead ?bs p m)) (?f # tr) w' (pending st')"
        by (rule exits_call [where call = call and el = ?el and f = ?f and w = w, OF _ 4(3) c]) (use h(3) 4(2) tr(2) r(2) in auto)
      moreover have "pending st = live (passed ?bs p (Suc m)) @ ?f # live (ahead ?bs p m)"
        unfolding pending_split [of st p n] 4(2) nx(1) using to_call_live [OF 4(3)] by simp
      ultimately show ?thesis using tr(1) by auto
    qed
  qed
qed (rule assms)

text \<open>Handlers that register no others.\<close>

lemma exits_quiet:
  assumes "\<forall>w f. snd (call w f) = []"
  shows "exits call el w fs (filter el fs) (foldl (\<lambda>w f. fst (call w f)) w (filter el fs)) (filter (\<lambda>f. \<not> el f) fs)"
proof (induction "length (filter el fs)" arbitrary: w fs)
  case 0
  then have "\<forall>f \<in> set fs. \<not> el f" by (simp add: filter_empty_conv)
  then show ?case by (simp add: exits_done)
next
  case (Suc k)
  then have "\<exists>f \<in> set fs. el f" by (metis filter_False length_0_conv nat.distinct(1))
  then obtain xs f ys where s: "fs = xs @ f # ys" "el f" "\<forall>x \<in> set xs. \<not> el x" by (metis split_list_first_prop)
  have c: "call w f = (fst (call w f), [])" using assms by (metis prod.collapse)
  have f: "filter el fs = f # filter el (xs @ ys)" "filter (\<lambda>f. \<not> el f) fs = filter (\<lambda>f. \<not> el f) (xs @ ys)"
    using s by simp_all
  with Suc.hyps(2) have "k = length (filter el (xs @ ys))" by simp
  from Suc.hyps(1) [OF this, of "fst (call w f)"] show ?case
    unfolding f using exits_call [of xs el f call w "fst (call w f)" "[]" ys] s c by simp
qed

text \<open>
  C22: The walk over the tables of exit handlers does what a stack should: it returns exactly when
  the process of calling the topmost handler that is to be called, and putting those that it
  registers on top, comes to an end, and then it has called the same handlers in the same
  order, with the same effect, and the same ones are left. \<open>atexit\<close> puts its function on top, also
  when a new table is needed. Handlers that register no others are all called, once each, the
  last one registered first, and the walk ends.
\<close>

theorem finalize_refines_stack:
  assumes "handlers_ok call" "at_blocks st \<noteq> []"
  shows "((\<exists>st'. cxa_finalize_ranges call invoke rs w st = Some (w', st', called) \<and> pending st' = left) \<longleftrightarrow>
      exits call (to_call invoke rs) w (pending st) called w' left) \<and>
    (\<exists>st'. atexit dladdr True func st = Some (True, st') \<and> at_blocks st' \<noteq> [] \<and>
      (\<exists>f. pending st' = f # pending st \<and> fn_type f = FN_STD \<and> fn_ptr f = func)) \<and>
    ((\<forall>w f. snd (call w f) = []) \<longrightarrow>
      (\<exists>w' st'. cxa_finalize_ranges call invoke rs w st = Some (w', st', filter (to_call invoke rs) (pending st)) \<and>
        pending st' = filter (\<lambda>f. \<not> to_call invoke rs f) (pending st)))"
proof -
  have to: "\<exists>st'. cxa_finalize_ranges call invoke rs w st = Some (w', st', called) \<and> pending st' = left"
    if "exits call (to_call invoke rs) w (pending st) called w' left" for w' called left
    using exits_walk [OF that assms(1) refl in_tables_ind _ assms(2), where called = "[]"] by (simp add: cxa_finalize_ranges_def)
  have "exits call (to_call invoke rs) w (pending st) called w' (pending st')"
    if "cxa_finalize_ranges call invoke rs w st = Some (w', st', called)" for st'
    using walk_exits [OF that [unfolded cxa_finalize_ranges_def]] assms by simp
  with to have "(\<exists>st'. cxa_finalize_ranges call invoke rs w st = Some (w', st', called) \<and> pending st' = left) \<longleftrightarrow>
      exits call (to_call invoke rs) w (pending st) called w' left" by blast
  moreover have "\<exists>st'. atexit dladdr True func st = Some (True, st') \<and> at_blocks st' \<noteq> [] \<and>
      (\<exists>f. pending st' = f # pending st \<and> fn_type f = FN_STD \<and> fn_ptr f = func)"
    using register_pending [OF assms(2), of "\<lparr>fn_type = FN_STD, fn_ptr = func, fn_arg = 0,
      fn_dso = (case dladdr func of None \<Rightarrow> 0 | Some base \<Rightarrow> base)\<rparr>"] by (auto simp: atexit_def)
  moreover have "\<exists>w' st'. cxa_finalize_ranges call invoke rs w st = Some (w', st', filter (to_call invoke rs) (pending st)) \<and>
        pending st' = filter (\<lambda>f. \<not> to_call invoke rs f) (pending st)" if "\<forall>w f. snd (call w f) = []"
    using to [OF exits_quiet [OF that]] by blast
  ultimately show ?thesis by blast
qed

theorem finalize_refines_stack_witness:
  "\<exists>w' st'. cxa_finalize_ranges (\<lambda>w f. (w + 1, [])) (\<lambda>b. b) [] (0::int)
      \<lparr>at_blocks = [[\<lparr>fn_type = FN_STD, fn_ptr = 1, fn_arg = 0, fn_dso = 0\<rparr>, \<lparr>fn_type = FN_BLK, fn_ptr = 2, fn_arg = 0, fn_dso = 0\<rparr>]],
       at_new = False\<rparr> =
    Some (w', st', [\<lparr>fn_type = FN_BLK, fn_ptr = 2, fn_arg = 0, fn_dso = 0\<rparr>, \<lparr>fn_type = FN_STD, fn_ptr = 1, fn_arg = 0, fn_dso = 0\<rparr>]) \<and>
    pending st' = []"
proof -
  let ?a = "\<lparr>fn_type = FN_STD, fn_ptr = 1, fn_arg = 0, fn_dso = 0\<rparr>" and ?b = "\<lparr>fn_type = FN_BLK, fn_ptr = 2, fn_arg = 0, fn_dso = 0\<rparr>"
  let ?st = "\<lparr>at_blocks = [[?a, ?b]], at_new = False\<rparr>" and ?call = "\<lambda>w f. (w + 1, [])"
  have p: "pending ?st = [?b, ?a]" by (simp add: pending_def)
  have f: "filter (to_call (\<lambda>b. b) []) (pending ?st) = [?b, ?a]" "filter (\<lambda>f. \<not> to_call (\<lambda>b. b) [] f) (pending ?st) = []"
    unfolding p by (simp_all add: to_call_def)
  have "handlers_ok ?call" "at_blocks ?st \<noteq> []" by (simp_all add: handlers_ok_def)
  from finalize_refines_stack [OF this, of "\<lambda>b. b" "[]" "0::int" 0 "[]" "[]" "\<lambda>_. None" 0, unfolded f] show ?thesis by simp
qed

end
