(* ===== verification/Asl_Msg.thy ===== *)
theory Asl_Msg
  imports C_Prelude "HOL-Library.Monad_Syntax"
begin

text \<open>
  The message store of the system log client, \<open>src/src/libSystem/libsystem_asl/asl_msg.c\<close>: log messages
  and queries as chains of pages, each page with a table of 16-bit key, value and operation words
  (\<open>kvo\<close>) and 220 bytes of data. A word is free, names a standard key, is the offset of a string
  in the data, or is tagged as the offset of a pointer to a string of its own.

  A page is a record of the fields of \<open>asl_msg_t\<close>; the chain of the \<open>next\<close> pointers is a list, its
  head the message, the empty list \<open>NULL\<close>. A cell of the data is a byte or one of the eight fragments
  of a pointer (the LP64 ABI). The strings outside the pages are in a store whose blocks are numbered
  in the order of their allocation; freeing or reading a block that is not there, reading a
  string that no NUL ends inside the page, or writing past the data has the value \<open>None\<close>. The
  strings of \<open>asl.h\<close>, which is not in the repository, and its operation bits are a parameter (\<open>asl_h\<close>).
\<close>

section \<open>Strings, cells and the store\<close>

definition Nul :: char where
  "Nul = CHR 0x00"

text \<open>\<open>strlen\<close> into a \<open>uint32_t\<close>, and the strings for which that and one more byte are exact.\<close>

definition strlen32 :: "string \<Rightarrow> nat" where
  "strlen32 s = length s mod 2 ^ 32"

definition cstring :: "string \<Rightarrow> bool" where
  "cstring s \<longleftrightarrow> Nul \<notin> set s \<and> length s < 2 ^ 32 - 1"

datatype cell = Byte char | Frag nat nat

text \<open>The string that starts at the first of the cells; \<open>None\<close> if no NUL ends it.\<close>

fun cstr :: "cell list \<Rightarrow> string option" where
  "cstr [] = None"
| "cstr (Byte c # cs) = (if c = Nul then Some [] else map_option (Cons c) (cstr cs))"
| "cstr (Frag p i # cs) = None"

definition str_at :: "cell list \<Rightarrow> nat \<Rightarrow> string option" where
  "str_at d off = cstr (drop off d)"

definition str_cells :: "string \<Rightarrow> cell list" where
  "str_cells s = map Byte (s @ [Nul])"

definition ptr_cells :: "nat \<Rightarrow> cell list" where
  "ptr_cells p = map (Frag p) [0..<8]"

definition null_cells :: "cell list" where
  "null_cells = replicate 8 (Byte Nul)"

text \<open>\<open>memcpy\<close> of a pointer out of the data: its fragments, or eight zero bytes for \<open>NULL\<close>.\<close>

definition read_ptr :: "cell list \<Rightarrow> nat \<Rightarrow> nat option" where
  "read_ptr d off =
     (case take 8 (drop off d) of
        Frag p 0 # cs \<Rightarrow> if Frag p 0 # cs = ptr_cells p then Some p else None
      | cs \<Rightarrow> if cs = null_cells then Some 0 else None)"

text \<open>\<open>memcpy\<close> into the data.\<close>

definition put_cells :: "nat \<Rightarrow> cell list \<Rightarrow> cell list \<Rightarrow> cell list option" where
  "put_cells off bs d =
     (if off + length bs \<le> length d then Some (take off d @ bs @ drop (off + length bs) d) else None)"

text \<open>
  The store: the allocated strings, how many allocations were tried, which of them fail, and what
  the stack holds where a local variable is read before it is assigned.
\<close>

record asl_store =
  ext :: "nat \<Rightarrow> string option"
  allocs :: nat
  fails :: "nat \<Rightarrow> bool"
  junk :: "nat \<Rightarrow> 16 word"
  junk_reads :: nat

definition malloc_ok :: "asl_store \<Rightarrow> bool \<times> asl_store" where
  "malloc_ok st = (\<not> fails st (allocs st), st\<lparr>allocs := Suc (allocs st)\<rparr>)"

definition strdup :: "string \<Rightarrow> asl_store \<Rightarrow> nat \<times> asl_store" where
  "strdup s st =
     (case malloc_ok st of
        (True, st') \<Rightarrow> (allocs st', st'\<lparr>ext := (ext st)(allocs st' := Some s)\<rparr>)
      | (False, st') \<Rightarrow> (0, st'))"

definition free_ext :: "nat \<Rightarrow> asl_store \<Rightarrow> asl_store option" where
  "free_ext p st =
     (if p = 0 then Some st
      else case ext st p of None \<Rightarrow> None | Some s \<Rightarrow> Some (st\<lparr>ext := (ext st)(p := None)\<rparr>))"

text \<open>A \<open>const char *\<close>: \<open>None\<close> inside is \<open>NULL\<close>.\<close>

definition ext_str :: "asl_store \<Rightarrow> nat \<Rightarrow> string option option" where
  "ext_str st p = (if p = 0 then Some None else map_option Some (ext st p))"

definition read_junk :: "asl_store \<Rightarrow> 16 word \<times> asl_store" where
  "read_junk st = (junk st (junk_reads st), st\<lparr>junk_reads := Suc (junk_reads st)\<rparr>)"

section \<open>Standard keys\<close>

definition ASL_MSG_PAGE_DATA_SIZE :: nat where "ASL_MSG_PAGE_DATA_SIZE = 220"
definition ASL_MSG_KVO_COUNT :: nat where "ASL_MSG_KVO_COUNT = 30"
definition ASL_MSG_KVO_QUERY_SLOTS :: nat where "ASL_MSG_KVO_QUERY_SLOTS = 10"
definition ASL_MSG_KVO_MSG_SLOTS :: nat where "ASL_MSG_KVO_MSG_SLOTS = 15"
definition IndexNull :: "32 word" where "IndexNull = - 1"
definition ASL_MSG_OFFSET_MASK :: "16 word" where "ASL_MSG_OFFSET_MASK = 0x3fff"
definition ASL_MSG_KV_MASK :: "16 word" where "ASL_MSG_KV_MASK = 0xc000"
definition ASL_MSG_KV_INLINE :: "16 word" where "ASL_MSG_KV_INLINE = 0"
definition ASL_MSG_KV_DICT :: "16 word" where "ASL_MSG_KV_DICT = 0x8000"
definition ASL_MSG_KV_EXTERN :: "16 word" where "ASL_MSG_KV_EXTERN = 0x4000"
definition ASL_MSG_SLOT_FREE :: "16 word" where "ASL_MSG_SLOT_FREE = 0xffff"
definition ASL_STD_KEY_BASE :: "16 word" where "ASL_STD_KEY_BASE = 0x8000"
definition ASL_STD_KEY_LAST :: "16 word" where "ASL_STD_KEY_LAST = 0x8013"
definition ASL_MT_KEY_BASE :: "16 word" where "ASL_MT_KEY_BASE = 0x8100"
definition ASL_MT_KEY_LAST :: "16 word" where "ASL_MT_KEY_LAST = 0x810d"
definition ASL_STD_KEY_FREE_NOTE :: "16 word" where "ASL_STD_KEY_FREE_NOTE = 0x8013"
definition sizeof_asl_msg :: "64 word" where "sizeof_asl_msg = 312"

text \<open>
  What \<open>asl_msg.c\<close> takes from \<open>asl.h\<close>: the names of the standard keys, the names of the levels and
  the bits of the query operations.
\<close>

record asl_h =
  key_time :: string
  key_time_nsec :: string
  key_host :: string
  key_sender :: string
  key_facility :: string
  key_pid :: string
  key_uid :: string
  key_gid :: string
  key_level :: string
  key_msg :: string
  key_read_uid :: string
  key_read_gid :: string
  key_session :: string
  key_ref_pid :: string
  key_ref_proc :: string
  key_msg_id :: string
  key_expire_time :: string
  key_option :: string
  string_levels :: "string list"
  op_casefold :: "32 word"
  op_prefix :: "32 word"
  op_suffix :: "32 word"
  op_numeric :: "32 word"
  op_regex :: "32 word"
  op_equal :: "32 word"
  op_greater :: "32 word"
  op_greater_equal :: "32 word"
  op_less :: "32 word"
  op_less_equal :: "32 word"
  op_not_equal :: "32 word"
  op_true :: "32 word"

definition ASL_KEY_FREE_NOTE :: string where
  "ASL_KEY_FREE_NOTE = ''ASLFreeNotify''"

definition ASLStandardKey :: "asl_h \<Rightarrow> string list" where
  "ASLStandardKey H =
     [key_time H, key_time_nsec H, key_host H, key_sender H, key_facility H, key_pid H, key_uid H,
      key_gid H, key_level H, key_msg H, key_read_uid H, key_read_gid H, key_session H,
      key_ref_pid H, key_ref_proc H, key_msg_id H, key_expire_time H, key_option H,
      ASL_KEY_FREE_NOTE]"

definition MTStandardKey :: "string list" where
  "MTStandardKey =
     [''com.apple.message.domain'', ''com.apple.message.domain_scope'', ''com.apple.message.result'',
      ''com.apple.message.signature'', ''com.apple.message.signature2'',
      ''com.apple.message.signature3'', ''com.apple.message.success'', ''com.apple.message.uuid'',
      ''com.apple.message.value'', ''com.apple.message.value2'', ''com.apple.message.value3'',
      ''com.apple.message.value4'', ''com.apple.message.value5'']"

text \<open>
  The tests of \<open>_asl_msg_std_key\<close> in their order: the names after \<open>com.apple.message.\<close>, and the
  cases of the \<open>switch\<close> on the length. No case of the \<open>switch\<close> ends in a \<open>break\<close>, so from the case of
  the length on all the later tests are made as well.
\<close>

definition mt_tests :: "(string \<times> 16 word) list" where
  "mt_tests =
     [(''domain'', 0x8101), (''domain_scope'', 0x8102), (''result'', 0x8103),
      (''signature'', 0x8104), (''signature2'', 0x8105), (''signature3'', 0x8106),
      (''success'', 0x8107), (''uuid'', 0x8108), (''value'', 0x8109), (''value2'', 0x810a),
      (''value3'', 0x810b), (''value4'', 0x810c), (''value5'', 0x810d)]"

definition std_cases :: "asl_h \<Rightarrow> (nat \<times> (string \<times> 16 word) list) list" where
  "std_cases H =
     [(3, [(key_pid H, 0x8006), (key_uid H, 0x8007), (key_gid H, 0x8008)]),
      (4, [(key_time H, 0x8001), (key_host H, 0x8003)]),
      (5, [(key_level H, 0x8009)]),
      (6, [(key_sender H, 0x8004), (key_ref_pid H, 0x800e)]),
      (7, [(key_msg H, 0x800a), (key_session H, 0x800d), (key_read_uid H, 0x800b),
           (key_read_gid H, 0x800c), (key_ref_proc H, 0x800f)]),
      (8, [(key_facility H, 0x8005)]),
      (9, [(key_option H, 0x8012)]),
      (11, [(key_time_nsec H, 0x8002)]),
      (12, [(key_msg_id H, 0x8010)]),
      (13, [(key_expire_time H, 0x8011)]),
      (14, [(ASL_KEY_FREE_NOTE, 0x8013)])]"

definition first_test :: "(string \<times> 16 word) list \<Rightarrow> string \<Rightarrow> 16 word" where
  "first_test ts s = (case map_of ts s of None \<Rightarrow> 0 | Some k \<Rightarrow> k)"

definition std_key :: "asl_h \<Rightarrow> string \<Rightarrow> nat \<Rightarrow> 16 word" where
  "std_key H s len =
     (if len > 18 \<and> take 18 s = ''com.apple.message.'' then first_test mt_tests (drop 18 s)
      else first_test (concat (map snd (dropWhile (\<lambda>(n, _). n \<noteq> len) (std_cases H)))) s)"

section \<open>Pages and slots\<close>

text \<open>\<open>ASL_TYPE_MSG\<close>, \<open>ASL_TYPE_QUERY\<close> and the other values of the type of an object.\<close>

datatype asl_type = TYPE_MSG | TYPE_QUERY | TYPE_OTHER "32 word"

record asl_page =
  pg_type :: asl_type
  pg_refcount :: int
  pg_count :: "32 word"
  pg_data_size :: nat
  pg_mem_size :: "64 word"
  pg_kvo :: "16 word list"
  pg_data :: "cell list"

type_synonym asl_msg = "asl_page list"

fun type_slots :: "asl_type \<Rightarrow> nat" where
  "type_slots TYPE_MSG = ASL_MSG_KVO_MSG_SLOTS"
| "type_slots TYPE_QUERY = ASL_MSG_KVO_QUERY_SLOTS"
| "type_slots (TYPE_OTHER _) = 0"

definition slot_count :: "asl_msg \<Rightarrow> nat" where
  "slot_count m = (case m of [] \<Rightarrow> 0 | p # _ \<Rightarrow> type_slots (pg_type p))"

definition get_slot_key :: "asl_page \<Rightarrow> nat \<Rightarrow> 16 word" where
  "get_slot_key m slot =
     (case pg_type m of
        TYPE_MSG \<Rightarrow> if slot < ASL_MSG_KVO_MSG_SLOTS then pg_kvo m ! slot else 0
      | TYPE_QUERY \<Rightarrow> if slot < ASL_MSG_KVO_QUERY_SLOTS then pg_kvo m ! slot else 0
      | TYPE_OTHER _ \<Rightarrow> 0)"

definition set_slot_key :: "nat \<Rightarrow> 16 word \<Rightarrow> asl_page \<Rightarrow> asl_page" where
  "set_slot_key slot x m =
     (case pg_type m of
        TYPE_MSG \<Rightarrow> if slot < ASL_MSG_KVO_MSG_SLOTS then m\<lparr>pg_kvo := (pg_kvo m)[slot := x]\<rparr> else m
      | TYPE_QUERY \<Rightarrow> if slot < ASL_MSG_KVO_QUERY_SLOTS then m\<lparr>pg_kvo := (pg_kvo m)[slot := x]\<rparr> else m
      | TYPE_OTHER _ \<Rightarrow> m)"

definition get_slot_val :: "asl_page \<Rightarrow> nat \<Rightarrow> 16 word" where
  "get_slot_val m slot =
     (case pg_type m of
        TYPE_MSG \<Rightarrow> if slot < ASL_MSG_KVO_MSG_SLOTS then pg_kvo m ! (slot + ASL_MSG_KVO_MSG_SLOTS) else 0
      | TYPE_QUERY \<Rightarrow>
          if slot < ASL_MSG_KVO_QUERY_SLOTS then pg_kvo m ! (slot + ASL_MSG_KVO_QUERY_SLOTS) else 0
      | TYPE_OTHER _ \<Rightarrow> 0)"

definition set_slot_val :: "nat \<Rightarrow> 16 word \<Rightarrow> asl_page \<Rightarrow> asl_page" where
  "set_slot_val slot x m =
     (case pg_type m of
        TYPE_MSG \<Rightarrow>
          if slot < ASL_MSG_KVO_MSG_SLOTS
          then m\<lparr>pg_kvo := (pg_kvo m)[slot + ASL_MSG_KVO_MSG_SLOTS := x]\<rparr> else m
      | TYPE_QUERY \<Rightarrow>
          if slot < ASL_MSG_KVO_QUERY_SLOTS
          then m\<lparr>pg_kvo := (pg_kvo m)[slot + ASL_MSG_KVO_QUERY_SLOTS := x]\<rparr> else m
      | TYPE_OTHER _ \<Rightarrow> m)"

definition get_slot_op :: "asl_page \<Rightarrow> nat \<Rightarrow> 16 word" where
  "get_slot_op m slot =
     (if pg_type m = TYPE_QUERY \<and> slot < ASL_MSG_KVO_QUERY_SLOTS
      then pg_kvo m ! (slot + ASL_MSG_KVO_QUERY_SLOTS * 2) else 0)"

definition set_slot_op :: "nat \<Rightarrow> 16 word \<Rightarrow> asl_page \<Rightarrow> asl_page" where
  "set_slot_op slot x m =
     (if pg_type m = TYPE_QUERY \<and> slot < ASL_MSG_KVO_QUERY_SLOTS
      then m\<lparr>pg_kvo := (pg_kvo m)[slot + ASL_MSG_KVO_QUERY_SLOTS * 2 := x]\<rparr> else m)"

text \<open>\<open>_asl_msg_make_page\<close>: \<open>calloc\<close>, then the key and value words of the type are marked free.\<close>

definition zero_page :: "asl_type \<Rightarrow> asl_page" where
  "zero_page ty =
     \<lparr>pg_type = ty, pg_refcount = 0, pg_count = 0, pg_data_size = 0, pg_mem_size = 0,
      pg_kvo = replicate ASL_MSG_KVO_COUNT 0, pg_data = replicate ASL_MSG_PAGE_DATA_SIZE (Byte Nul)\<rparr>"

definition make_page :: "asl_type \<Rightarrow> asl_store \<Rightarrow> asl_page option \<times> asl_store" where
  "make_page ty st =
     (case malloc_ok st of
        (False, st') \<Rightarrow> (None, st')
      | (True, st') \<Rightarrow>
          let n = type_slots ty * 2
          in (Some ((zero_page ty)
                \<lparr>pg_kvo := replicate n ASL_MSG_SLOT_FREE @ replicate (ASL_MSG_KVO_COUNT - n) 0,
                 pg_mem_size := sizeof_asl_msg\<rparr>), st'))"

definition asl_msg_new :: "asl_type \<Rightarrow> asl_store \<Rightarrow> asl_msg \<times> asl_store" where
  "asl_msg_new ty st =
     (case make_page ty st of
        (None, st') \<Rightarrow> ([], st')
      | (Some pg, st') \<Rightarrow> ([pg\<lparr>pg_refcount := 1\<rparr>], st'))"

definition asl_msg_type :: "asl_msg \<Rightarrow> asl_type" where
  "asl_msg_type m = (case m of [] \<Rightarrow> TYPE_OTHER 0 | p # _ \<Rightarrow> pg_type p)"

definition asl_msg_count :: "asl_msg \<Rightarrow> 32 word" where
  "asl_msg_count m = foldl (\<lambda>total p. total + pg_count p) 0 m"

section \<open>Reading a slot\<close>

definition kv_type :: "16 word \<Rightarrow> 16 word" where
  "kv_type w = w AND ASL_MSG_KV_MASK"

definition kv_off :: "16 word \<Rightarrow> nat" where
  "kv_off w = unat (w AND ASL_MSG_OFFSET_MASK)"

definition dict_key :: "asl_h \<Rightarrow> 16 word \<Rightarrow> string option" where
  "dict_key H k =
     (if ASL_STD_KEY_BASE < k \<and> k \<le> ASL_STD_KEY_LAST
      then Some (ASLStandardKey H ! unat (k - ASL_STD_KEY_BASE - 1))
      else if ASL_MT_KEY_BASE < k \<and> k \<le> ASL_MT_KEY_LAST
      then Some (MTStandardKey ! unat (k - ASL_MT_KEY_BASE - 1))
      else None)"

definition slot_out_of_range :: "asl_page \<Rightarrow> nat \<Rightarrow> bool" where
  "slot_out_of_range pg slot \<longleftrightarrow>
     pg_type pg = TYPE_MSG \<and> slot \<ge> ASL_MSG_KVO_MSG_SLOTS \<or>
     pg_type pg = TYPE_QUERY \<and> slot \<ge> ASL_MSG_KVO_QUERY_SLOTS"

definition slot_key :: "asl_h \<Rightarrow> asl_store \<Rightarrow> asl_page \<Rightarrow> nat \<Rightarrow> string option option" where
  "slot_key H st pg slot =
     (if slot_out_of_range pg slot then Some None
      else let k = get_slot_key pg slot in
        if k = ASL_MSG_SLOT_FREE then Some None
        else if kv_type k = ASL_MSG_KV_INLINE then map_option Some (str_at (pg_data pg) (unat k))
        else if kv_type k = ASL_MSG_KV_DICT then Some (dict_key H k)
        else if kv_type k = ASL_MSG_KV_EXTERN
        then do { p \<leftarrow> read_ptr (pg_data pg) (kv_off k); ext_str st p }
        else Some None)"

definition slot_val :: "asl_store \<Rightarrow> asl_page \<Rightarrow> nat \<Rightarrow> string option option" where
  "slot_val st pg slot =
     (if slot_out_of_range pg slot then Some None
      else let v = get_slot_val pg slot in
        if v = ASL_MSG_SLOT_FREE then Some None
        else if kv_type v = ASL_MSG_KV_INLINE then map_option Some (str_at (pg_data pg) (unat v))
        else if kv_type v = ASL_MSG_KV_EXTERN
        then do { p \<leftarrow> read_ptr (pg_data pg) (kv_off v); ext_str st p }
        else Some None)"

section \<open>Finding an entry\<close>

text \<open>
  The test of one slot in \<open>_asl_msg_index\<close>: by the word where the key is a standard one, by the
  string otherwise. \<open>streq\<close> on a \<open>NULL\<close> pointer is undefined.
\<close>

definition slot_matches :: "asl_store \<Rightarrow> 16 word \<Rightarrow> string \<Rightarrow> asl_page \<Rightarrow> nat \<Rightarrow> bool option" where
  "slot_matches st kx key pg slot =
     (let k = get_slot_key pg slot in
      if k = ASL_MSG_SLOT_FREE then Some False
      else if kx \<noteq> 0 then Some (k = kx)
      else if kv_type k = ASL_MSG_KV_DICT then Some False
      else if kv_type k = ASL_MSG_KV_EXTERN
      then do { p \<leftarrow> read_ptr (pg_data pg) (kv_off k); r \<leftarrow> ext_str st p;
                kp \<leftarrow> r; Some (key = kp) }
      else do { kp \<leftarrow> str_at (pg_data pg) (unat k); Some (key = kp) })"

text \<open>
  The \<open>forever\<close> loop of \<open>_asl_msg_index\<close> over the pages from \<open>page\<close> on: the page number, the slot,
  and the index counted so far.
\<close>

function index_loop :: "asl_store \<Rightarrow> 16 word \<Rightarrow> string \<Rightarrow> nat \<Rightarrow> asl_msg \<Rightarrow> nat \<Rightarrow> nat \<Rightarrow> nat \<Rightarrow>
    (nat \<times> nat \<times> nat) option option" where
  "index_loop st kx key mslots [] pi slot i = Some None"
| "index_loop st kx key mslots (page # rest) pi slot i =
     do { hit \<leftarrow> slot_matches st kx key page slot;
          if hit then Some (Some (i, pi, slot))
          else if Suc slot \<ge> mslots
          then (if rest = [] then Some None
                else index_loop st kx key mslots rest (Suc pi) 0 (Suc i))
          else index_loop st kx key mslots (page # rest) pi (Suc slot) (Suc i) }"
  by pat_completeness auto
termination
  by (relation "measures [\<lambda>(st, kx, key, mslots, ps, pi, slot, i). length ps,
                          \<lambda>(st, kx, key, mslots, ps, pi, slot, i). mslots - slot]") auto

definition msg_index :: "asl_h \<Rightarrow> asl_store \<Rightarrow> asl_msg \<Rightarrow> string option \<Rightarrow> (nat \<times> nat \<times> nat) option option" where
  "msg_index H st msg key =
     (case key of
        None \<Rightarrow> Some None
      | Some key \<Rightarrow>
          if msg = [] then Some None
          else index_loop st (std_key H key (strlen32 key)) key (slot_count msg) msg 0 0 0)"

text \<open>
  \<open>_asl_msg_resolve_index\<close>: the pages whose counts end before \<open>n\<close> are skipped, the slots of the others
  scanned; \<open>sx\<close> counts the entries passed.
\<close>

fun resolve_slots :: "16 word list \<Rightarrow> 32 word \<Rightarrow> nat list \<Rightarrow> 32 word \<Rightarrow> nat + 32 word" where
  "resolve_slots kvo n [] sx = Inr sx"
| "resolve_slots kvo n (i # is) sx =
     (if kvo ! i \<noteq> ASL_MSG_SLOT_FREE
      then (if sx = n then Inl i else resolve_slots kvo n is (sx + 1))
      else resolve_slots kvo n is sx)"

fun resolve_pages :: "nat \<Rightarrow> 32 word \<Rightarrow> asl_msg \<Rightarrow> nat \<Rightarrow> 32 word \<Rightarrow> (nat \<times> nat) option" where
  "resolve_pages mslots n [] pi sx = None"
| "resolve_pages mslots n (px # rest) pi sx =
     (if n > sx + pg_count px then resolve_pages mslots n rest (Suc pi) (sx + pg_count px)
      else case resolve_slots (pg_kvo px) n [0..<mslots] sx of
        Inl i \<Rightarrow> Some (pi, i)
      | Inr sx' \<Rightarrow> resolve_pages mslots n rest (Suc pi) sx')"

definition resolve_index :: "asl_msg \<Rightarrow> 32 word \<Rightarrow> (nat \<times> nat) option" where
  "resolve_index msg n = resolve_pages (slot_count msg) n msg 0 0"

text \<open>
  \<open>asl_msg_fetch\<close>: the iterator holds the slot in its top byte and the page in the rest.
\<close>

function next_entry :: "nat \<Rightarrow> asl_msg \<Rightarrow> nat \<Rightarrow> nat \<Rightarrow> 32 word" where
  "next_entry mslots [] xpn xsn = IndexNull"
| "next_entry mslots (page # rest) xpn xsn =
     (if Suc xsn \<ge> mslots
      then (case rest of
              [] \<Rightarrow> 0xff000000
            | page' # _ \<Rightarrow>
                if pg_kvo page' ! 0 \<noteq> ASL_MSG_SLOT_FREE then of_nat (Suc xpn)
                else next_entry mslots rest (Suc xpn) 0)
      else if pg_kvo page ! Suc xsn \<noteq> ASL_MSG_SLOT_FREE
      then push_bit 24 (of_nat (Suc xsn)) OR of_nat xpn
      else next_entry mslots (page # rest) xpn (Suc xsn))"
  by pat_completeness auto
termination
  by (relation "measures [\<lambda>(mslots, ps, xpn, xsn). length ps, \<lambda>(mslots, ps, xpn, xsn). mslots - xsn]") auto

type_synonym kvo_out = "string option \<times> string option \<times> 16 word"

definition asl_msg_fetch :: "asl_h \<Rightarrow> asl_store \<Rightarrow> asl_msg \<Rightarrow> 32 word \<Rightarrow> (32 word \<times> kvo_out option) option" where
  "asl_msg_fetch H st msg x =
     (let xsn = unat (drop_bit 24 x); xpn = unat (x AND 0x00ffffff) in
      if msg = [] \<or> xsn = 0xff \<or> xpn \<ge> length msg then Some (IndexNull, None)
      else let page = msg ! xpn in
        do { k \<leftarrow> slot_key H st page xsn;
             v \<leftarrow> slot_val st page xsn;
             Some (next_entry (slot_count msg) (drop xpn msg) xpn xsn,
                   Some (k, v, get_slot_op page xsn)) })"

text \<open>\<open>asl_msg_lookup\<close>: the status, and the value and operation stored through the out-pointers.\<close>

definition asl_msg_lookup :: "asl_h \<Rightarrow> asl_store \<Rightarrow> asl_msg \<Rightarrow> string option \<Rightarrow>
    (int \<times> string option \<times> 16 word) option" where
  "asl_msg_lookup H st msg key =
     do { r \<leftarrow> msg_index H st msg key;
          case r of
            None \<Rightarrow> Some (- 1, None, 0)
          | Some (i, pi, slot) \<Rightarrow>
              do { v \<leftarrow> slot_val st (msg ! pi) slot;
                   Some (0, v, get_slot_op (msg ! pi) slot) } }"

definition asl_msg_get_val_for_key :: "asl_h \<Rightarrow> asl_store \<Rightarrow> asl_msg \<Rightarrow> string option \<Rightarrow>
    string option option" where
  "asl_msg_get_val_for_key H st msg key =
     do { r \<leftarrow> msg_index H st msg key;
          case r of
            None \<Rightarrow> Some None
          | Some (i, pi, slot) \<Rightarrow> slot_val st (msg ! pi) slot }"

text \<open>\<open>asl_msg_key\<close>: the key of the \<open>n\<close>-th occupied slot.\<close>

fun key_slots :: "asl_page \<Rightarrow> 32 word \<Rightarrow> nat list \<Rightarrow> 32 word \<Rightarrow> nat + 32 word" where
  "key_slots pg n [] i = Inr i"
| "key_slots pg n (slot # slots) i =
     (if get_slot_key pg slot \<noteq> ASL_MSG_SLOT_FREE
      then (if i = n then Inl slot else key_slots pg n slots (i + 1))
      else key_slots pg n slots i)"

fun key_pages :: "asl_h \<Rightarrow> asl_store \<Rightarrow> nat \<Rightarrow> 32 word \<Rightarrow> asl_msg \<Rightarrow> 32 word \<Rightarrow> string option option" where
  "key_pages H st mslots n [] i = Some None"
| "key_pages H st mslots n (page # rest) i =
     (case key_slots page n [0..<mslots] i of
        Inl slot \<Rightarrow> slot_key H st page slot
      | Inr i' \<Rightarrow> key_pages H st mslots n rest i')"

definition asl_msg_key :: "asl_h \<Rightarrow> asl_store \<Rightarrow> asl_msg \<Rightarrow> 32 word \<Rightarrow> string option option" where
  "asl_msg_key H st msg n = key_pages H st (slot_count msg) n msg 0"

section \<open>Adding an entry\<close>

text \<open>
  The buffers of \<open>_asl_msg_new_key_val_op\<close>: a key or value that does not fit in a page, or that does
  not fit in it beside the other, is copied to a string of its own, for which the page only holds
  the pointer. A pointer of \<open>0\<close> is \<open>NULL\<close>; a failed \<open>strdup\<close> leaves it \<open>NULL\<close>, with the length
  already set to that of a pointer.
\<close>

record kv_space =
  extkey :: nat
  extval :: nat
  keylen :: nat
  vallen :: nat

definition dup_key :: "string \<Rightarrow> kv_space \<times> asl_store \<Rightarrow> kv_space \<times> asl_store" where
  "dup_key key = (\<lambda>(b, st). let (p, st') = strdup key st in (b\<lparr>extkey := p, keylen := 8\<rparr>, st'))"

definition dup_val :: "string option \<Rightarrow> kv_space \<times> asl_store \<Rightarrow> (kv_space \<times> asl_store) option" where
  "dup_val val = (\<lambda>(b, st).
     case val of
       None \<Rightarrow> None
     | Some v \<Rightarrow> let (p, st') = strdup v st in Some (b\<lparr>extval := p, vallen := 8\<rparr>, st'))"

definition kv_total :: "kv_space \<Rightarrow> nat" where
  "kv_total b = keylen b + vallen b"

definition start_space :: "16 word \<Rightarrow> string \<Rightarrow> string option \<Rightarrow> kv_space" where
  "start_space kx key val =
     \<lparr>extkey = 0, extval = 0,
      keylen = (if kx = 0 then (strlen32 key + 1) mod 2 ^ 32 else 0),
      vallen = (case val of None \<Rightarrow> 0 | Some v \<Rightarrow> (length v + 1) mod 2 ^ 32)\<rparr>"

definition alloc_space :: "16 word \<Rightarrow> string \<Rightarrow> string option \<Rightarrow> asl_store \<Rightarrow> (kv_space \<times> asl_store) option" where
  "alloc_space kx key val st =
     (let b0 = start_space kx key val;
          bs1 = (if keylen b0 > ASL_MSG_PAGE_DATA_SIZE then dup_key key (b0, st) else (b0, st))
      in do {
        bs2 \<leftarrow> (if vallen b0 > ASL_MSG_PAGE_DATA_SIZE then dup_val val bs1 else Some bs1);
        bs3 \<leftarrow> (if kv_total (fst bs2) > ASL_MSG_PAGE_DATA_SIZE \<and> extval (fst bs2) = 0 \<and> keylen (fst bs2) > 0
                 then dup_val val bs2 else Some bs2);
        Some (if kv_total (fst bs3) > ASL_MSG_PAGE_DATA_SIZE \<and> extkey (fst bs3) = 0
              then dup_key key bs3 else bs3) })"

definition free_bufs :: "kv_space \<Rightarrow> asl_store \<Rightarrow> asl_store option" where
  "free_bufs b st = do { st' \<leftarrow> free_ext (extkey b) st; free_ext (extval b) st' }"

text \<open>The first page with room for the entry and a free slot.\<close>

fun find_room :: "nat \<Rightarrow> nat \<Rightarrow> asl_msg \<Rightarrow> nat \<Rightarrow> (nat \<times> nat) option" where
  "find_room mslots need [] pi = None"
| "find_room mslots need (page # rest) pi =
     (if need \<le> ASL_MSG_PAGE_DATA_SIZE - pg_data_size page
      then case find (\<lambda>slot. get_slot_key page slot = ASL_MSG_SLOT_FREE) [0..<mslots] of
             Some slot \<Rightarrow> Some (pi, slot)
           | None \<Rightarrow> find_room mslots need rest (Suc pi)
      else find_room mslots need rest (Suc pi))"

text \<open>The first \<open>n\<close> bytes of a string with its NUL; undefined past them.\<close>

definition copy_in :: "nat \<Rightarrow> string \<Rightarrow> cell list option" where
  "copy_in n s = (if n \<le> length s + 1 then Some (take n (str_cells s)) else None)"

text \<open>
  The key, or the pointer to it, is stored at the end of the used data, and so is the value: the new
  word and the page. \<open>grow\<close> is what the memory size grows by for an external string.
\<close>

definition append_str :: "string \<Rightarrow> nat \<Rightarrow> nat \<Rightarrow> nat \<Rightarrow> asl_page \<Rightarrow> (16 word \<times> asl_page) option" where
  "append_str s p len grow pg =
     (if p = 0
      then do { bs \<leftarrow> copy_in len s;
                d \<leftarrow> put_cells (pg_data_size pg) bs (pg_data pg);
                Some (of_nat (pg_data_size pg), pg\<lparr>pg_data := d\<rparr>) }
      else do { d \<leftarrow> put_cells (pg_data_size pg) (take len (ptr_cells p)) (pg_data pg);
                Some (of_nat (pg_data_size pg) OR ASL_MSG_KV_EXTERN,
                      pg\<lparr>pg_data := d, pg_mem_size := pg_mem_size pg + of_nat grow\<rparr>) })"

definition fill_key :: "16 word \<Rightarrow> string \<Rightarrow> kv_space \<Rightarrow> nat \<Rightarrow> asl_page \<Rightarrow> asl_page option" where
  "fill_key kx key b slot pg =
     do { (k, pg1) \<leftarrow> (if kx \<noteq> 0 then Some (kx, pg)
                       else append_str key (extkey b) (keylen b) (strlen32 key) pg);
          Some ((set_slot_key slot k pg1)\<lparr>pg_data_size := pg_data_size pg + keylen b\<rparr>) }"

definition fill_val :: "string option \<Rightarrow> kv_space \<Rightarrow> nat \<Rightarrow> asl_page \<Rightarrow> asl_page option" where
  "fill_val val b slot pg =
     (case val of
        None \<Rightarrow> Some pg
      | Some w \<Rightarrow>
          do { (v, pg1) \<leftarrow> append_str w (extval b) (vallen b) ((length w + 1) mod 2 ^ 32) pg;
               Some ((set_slot_val slot v pg1)\<lparr>pg_data_size := pg_data_size pg + vallen b\<rparr>) })"

definition fill_slot :: "16 word \<Rightarrow> string \<Rightarrow> string option \<Rightarrow> 16 word \<Rightarrow> kv_space \<Rightarrow> nat \<Rightarrow> asl_page \<Rightarrow>
    asl_page option" where
  "fill_slot kx key val opw b slot pg =
     do { pg1 \<leftarrow> fill_key kx key b slot pg;
          pg2 \<leftarrow> fill_val val b slot pg1;
          let pg3 = set_slot_op slot opw pg2;
          Some (pg3\<lparr>pg_count := pg_count pg3 + 1\<rparr>) }"

type_synonym status = "int \<times> asl_store \<times> asl_msg"

definition new_key_val_op :: "asl_h \<Rightarrow> asl_store \<Rightarrow> asl_msg \<Rightarrow> string \<Rightarrow> string option \<Rightarrow> 32 word \<Rightarrow>
    status option" where
  "new_key_val_op H st msg key val opv =
     (if msg = [] then Some (- 1, st, msg)
      else let mslots = slot_count msg; kx = std_key H key (strlen32 key) in
        do { (b, st1) \<leftarrow> alloc_space kx key val st;
             if kv_total b > ASL_MSG_PAGE_DATA_SIZE
             then do { st2 \<leftarrow> free_bufs b st1; Some (- 1, st2, msg) }
             else case find_room mslots (kv_total b) msg 0 of
               Some (pi, slot) \<Rightarrow>
                 do { pg \<leftarrow> fill_slot kx key val (ucast opv) b slot (msg ! pi);
                      Some (0, st1, msg[pi := pg]) }
             | None \<Rightarrow>
                 (case make_page (pg_type (hd msg)) st1 of
                    (None, st2) \<Rightarrow> do { st3 \<leftarrow> free_bufs b st2; Some (- 1, st3, msg) }
                  | (Some page, st2) \<Rightarrow>
                      do { pg \<leftarrow> fill_slot kx key val (ucast opv) b 0 page;
                           Some (0, st2, msg @ [pg]) }) })"

section \<open>Replacing a value\<close>

text \<open>\<open>mem_size -= strlen (p) + 1; free (p)\<close> for an external string of a page.\<close>

definition drop_ext :: "nat \<Rightarrow> asl_store \<Rightarrow> asl_page \<Rightarrow> (asl_store \<times> asl_page) option" where
  "drop_ext p st pg =
     do { r \<leftarrow> ext_str st p;
          s \<leftarrow> r;
          st' \<leftarrow> free_ext p st;
          Some (st', pg\<lparr>pg_mem_size := pg_mem_size pg - of_nat (length s + 1)\<rparr>) }"

definition drop_extval :: "nat \<Rightarrow> asl_store \<Rightarrow> asl_page \<Rightarrow> (asl_store \<times> asl_page) option" where
  "drop_extval p st pg = (if p = 0 then Some (st, pg) else drop_ext p st pg)"

definition upd_op :: "32 word \<Rightarrow> nat \<Rightarrow> asl_page \<Rightarrow> asl_page" where
  "upd_op opv slot pg = (if opv \<noteq> IndexNull then set_slot_op slot (ucast opv) pg else pg)"

text \<open>The value of a slot: its string inside the page with its size, or the pointer of an external one.\<close>

record old_val =
  intval :: "string option"
  intvallen :: nat
  ptrval :: nat
  ptrvallen :: nat

definition no_val :: old_val where
  "no_val = \<lparr>intval = None, intvallen = 0, ptrval = 0, ptrvallen = 0\<rparr>"

definition old_value :: "asl_page \<Rightarrow> nat \<Rightarrow> old_val option" where
  "old_value pg slot =
     (let v = get_slot_val pg slot in
      if v = ASL_MSG_SLOT_FREE then Some no_val
      else if kv_type v = ASL_MSG_KV_EXTERN
      then do { p \<leftarrow> read_ptr (pg_data pg) (kv_off v); Some (no_val\<lparr>ptrval := p, ptrvallen := 8\<rparr>) }
      else do { s \<leftarrow> str_at (pg_data pg) (unat v);
                Some (no_val\<lparr>intval := Some s, intvallen := (length s + 1) mod 2 ^ 32\<rparr>) })"

text \<open>The last string of the used data is given back at once.\<close>

definition shrink_tail :: "nat \<Rightarrow> nat \<Rightarrow> old_val \<Rightarrow> asl_store \<Rightarrow> asl_page \<Rightarrow>
    (old_val \<times> asl_store \<times> asl_page) option" where
  "shrink_tail i slot ov st pg =
     (if intval ov \<noteq> None \<and> i + intvallen ov = pg_data_size pg
      then Some (ov\<lparr>intval := None, intvallen := 0\<rparr>, st,
                 (set_slot_val slot ASL_MSG_SLOT_FREE pg)
                   \<lparr>pg_data_size := pg_data_size pg - intvallen ov\<rparr>)
      else if ptrval ov \<noteq> 0 \<and> i + ptrvallen ov = pg_data_size pg
      then do { (st1, pg1) \<leftarrow> drop_ext (ptrval ov) st
                   ((set_slot_val slot ASL_MSG_SLOT_FREE pg)
                      \<lparr>pg_data_size := pg_data_size pg - ptrvallen ov\<rparr>);
                Some (ov\<lparr>ptrval := 0, ptrvallen := 0\<rparr>, st1, pg1) }
      else Some (ov, st, pg))"

text \<open>
  The new value is stored at offset \<open>i\<close>; \<open>False\<close> where \<open>strdup\<close> fails.
\<close>

definition put_val :: "string \<Rightarrow> bool \<Rightarrow> nat \<Rightarrow> nat \<Rightarrow> nat \<Rightarrow> asl_store \<Rightarrow> asl_page \<Rightarrow>
    (bool \<times> asl_store \<times> asl_page) option" where
  "put_val val newexternal newvallen i slot st pg =
     (if newexternal
      then let (p, st1) = strdup val st in
        if p = 0 then Some (False, st1, pg)
        else do { d \<leftarrow> put_cells i (ptr_cells p) (pg_data pg);
                  Some (True, st1,
                    (set_slot_val slot (of_nat i OR ASL_MSG_KV_EXTERN)
                       (pg\<lparr>pg_mem_size := pg_mem_size pg + of_nat (length val + 1)\<rparr>))\<lparr>pg_data := d\<rparr>) }
      else do { bs \<leftarrow> copy_in newvallen val;
                d \<leftarrow> put_cells i bs (pg_data pg);
                Some (True, st, (set_slot_val slot (of_nat i) pg)\<lparr>pg_data := d\<rparr>) })"

datatype set_result = Done int | NoRoom

definition stored :: "32 word \<Rightarrow> nat \<Rightarrow> bool \<times> asl_store \<times> asl_page \<Rightarrow> set_result \<times> asl_store \<times> asl_page" where
  "stored opv slot = (\<lambda>(ok, st, pg). if ok then (Done 0, st, upd_op opv slot pg) else (Done (- 1), st, pg))"

text \<open>
  What \<open>_asl_msg_set_kvo\<close> does on the page and the slot it has found, up to the case that the page
  has no room: the value is removed, unchanged, stored over the old one, or stored at the end.
\<close>

definition change_val :: "string \<Rightarrow> 32 word \<Rightarrow> nat \<Rightarrow> old_val \<Rightarrow> asl_store \<Rightarrow> asl_page \<Rightarrow>
    (set_result \<times> asl_store \<times> asl_page) option" where
  "change_val val opv slot ov0 st pg =
     (let i = kv_off (get_slot_val pg slot) in
      do { (ov, st1, pg1) \<leftarrow> shrink_tail i slot ov0 st pg;
           let newlen = (length val + 1) mod 2 ^ 32;
           let newexternal = (newlen > ASL_MSG_PAGE_DATA_SIZE);
           let newvallen = (if newexternal then 8 else newlen);
           if ptrval ov \<noteq> 0 \<and> newvallen \<le> ptrvallen ov \<or> ptrval ov = 0 \<and> newvallen \<le> intvallen ov
           then do { (st2, pg2) \<leftarrow> drop_extval (ptrval ov) st1 pg1;
                     r \<leftarrow> put_val val newexternal newvallen i slot st2 pg2;
                     Some (stored opv slot r) }
           else do { (st2, pg2) \<leftarrow> drop_extval (ptrval ov) st1 pg1;
                     if newvallen \<le> ASL_MSG_PAGE_DATA_SIZE - pg_data_size pg2
                     then do { r \<leftarrow> put_val val newexternal newvallen (pg_data_size pg2) slot st2
                                      (pg2\<lparr>pg_data_size := pg_data_size pg2 + newvallen\<rparr>);
                               Some (stored opv slot r) }
                     else Some (NoRoom, st2, pg2) } })"

definition replace_val :: "string option \<Rightarrow> 32 word \<Rightarrow> nat \<Rightarrow> asl_store \<Rightarrow> asl_page \<Rightarrow>
    (set_result \<times> asl_store \<times> asl_page) option" where
  "replace_val val opv slot st pg =
     do { ov \<leftarrow> old_value pg slot;
          case val of
            None \<Rightarrow>
              do { (st1, pg1) \<leftarrow> drop_extval (ptrval ov) st pg;
                   Some (Done 0, st1, upd_op opv slot (set_slot_val slot ASL_MSG_SLOT_FREE pg1)) }
          | Some new \<Rightarrow>
              if intval ov = Some new then Some (Done 0, st, upd_op opv slot pg)
              else do { old \<leftarrow> (if ptrval ov = 0 then Some None else map_option Some (ext st (ptrval ov)));
                        if old = Some new then Some (Done 0, st, upd_op opv slot pg)
                        else change_val new opv slot ov st pg } }"

text \<open>
  The page has no room: the entry is freed and set up anew. \<open>k\<close>, which is to tell whether the key is
  external, is read here and assigned nowhere.
\<close>

definition free_entry :: "nat \<Rightarrow> asl_store \<Rightarrow> asl_page \<Rightarrow> (asl_store \<times> asl_page) option" where
  "free_entry slot st pg =
     (let (k, st0) = read_junk st in
      do { (st1, pg1) \<leftarrow> (if kv_type k = ASL_MSG_KV_EXTERN
                          then do { p \<leftarrow> read_ptr (pg_data pg) (kv_off k); drop_ext p st0 pg }
                          else Some (st0, pg));
           Some (st1, set_slot_op slot 0
                        (set_slot_val slot ASL_MSG_SLOT_FREE (set_slot_key slot ASL_MSG_SLOT_FREE pg1))) })"

definition set_kvo :: "asl_h \<Rightarrow> asl_store \<Rightarrow> asl_msg \<Rightarrow> string \<Rightarrow> string option \<Rightarrow> 32 word \<Rightarrow> status option" where
  "set_kvo H st msg key val opv =
     (if msg = [] then Some (- 1, st, msg)
      else do { found \<leftarrow> (if pg_type (hd msg) = TYPE_QUERY then Some None else msg_index H st msg (Some key));
                case found of
                  None \<Rightarrow> new_key_val_op H st msg key val opv
                | Some (i, pi, slot) \<Rightarrow>
                    do { (res, st1, pg) \<leftarrow> replace_val val opv slot st (msg ! pi);
                         case res of
                           Done status \<Rightarrow> Some (status, st1, msg[pi := pg])
                         | NoRoom \<Rightarrow>
                             do { (st2, pg2) \<leftarrow> free_entry slot st1 pg;
                                  new_key_val_op H st2 (msg[pi := pg2]) key val opv } } })"

section \<open>Setting and removing entries\<close>

definition lower :: "char \<Rightarrow> char" where
  "lower c = (if 65 \<le> (of_char c :: nat) \<and> (of_char c :: nat) \<le> 90 then char_of ((of_char c :: nat) + 32) else c)"

definition strcaseeq :: "string \<Rightarrow> string \<Rightarrow> bool" where
  "strcaseeq a b \<longleftrightarrow> map lower a = map lower b"

text \<open>
  The value of a \<open>Level\<close> key: a digit up to 7 stays, the names of the levels become their numbers,
  and everything else, a missing value too, is level 7.
\<close>

definition digit_strings :: "string list" where
  "digit_strings = [''0'', ''1'', ''2'', ''3'', ''4'', ''5'', ''6'', ''7'']"

definition level_val :: "asl_h \<Rightarrow> string option \<Rightarrow> string" where
  "level_val H val =
     (case val of
        None \<Rightarrow> ''7''
      | Some v \<Rightarrow>
          if v \<in> set digit_strings then v
          else case find (\<lambda>(name, d). strcaseeq v name) (zip (string_levels H) digit_strings) of
            Some (name, d) \<Rightarrow> d
          | None \<Rightarrow> ''7'')"

text \<open>The length without the newlines at the end, and the value of a \<open>Message\<close> key cut to it.\<close>

definition newline :: char where
  "newline = CHR 0x0A"

fun trim_len :: "string \<Rightarrow> nat \<Rightarrow> nat" where
  "trim_len v 0 = 0"
| "trim_len v (Suc i) = (if v ! i = newline then trim_len v i else Suc i)"

definition message_val :: "string option \<Rightarrow> asl_store \<Rightarrow> (string option \<times> asl_store) option" where
  "message_val val st =
     (case val of
        None \<Rightarrow> Some (None, st)
      | Some v \<Rightarrow>
          let len = strlen32 v; i = trim_len v len in
          if i = 0 then Some (None, st)
          else if i < len
          then (if i < 512 then Some (Some (take i v), st)
                else case malloc_ok st of
                  (True, st') \<Rightarrow> Some (Some (take i v), st')
                | (False, st') \<Rightarrow> None)
          else Some (Some v, st))"

definition norm_op :: "asl_h \<Rightarrow> 32 word \<Rightarrow> 32 word" where
  "norm_op H opv = (if opv \<noteq> 0 \<and> opv AND op_true H = 0 then opv OR op_equal H else opv)"

definition asl_msg_set_key_val_op :: "asl_h \<Rightarrow> asl_store \<Rightarrow> asl_msg \<Rightarrow> string option \<Rightarrow> string option \<Rightarrow>
    32 word \<Rightarrow> status option" where
  "asl_msg_set_key_val_op H st msg key val opv =
     (case key of
        None \<Rightarrow> Some (- 1, st, msg)
      | Some key \<Rightarrow>
          if msg = [] then Some (- 1, st, msg)
          else let opv = norm_op H opv;
                   val = (if key = key_level H then Some (level_val H val) else val)
            in case (if key = key_msg H then message_val val st else Some (val, st)) of
                 None \<Rightarrow> Some (- 1, snd (malloc_ok st), msg)
               | Some (val, st) \<Rightarrow> set_kvo H st msg key val opv)"

definition asl_msg_set_key_val :: "asl_h \<Rightarrow> asl_store \<Rightarrow> asl_msg \<Rightarrow> string option \<Rightarrow> string option \<Rightarrow>
    status option" where
  "asl_msg_set_key_val H st msg key val = asl_msg_set_key_val_op H st msg key val 0"

definition drop_word :: "16 word \<Rightarrow> asl_store \<times> asl_page \<Rightarrow> (asl_store \<times> asl_page) option" where
  "drop_word w = (\<lambda>(st, pg).
     if kv_type w = ASL_MSG_KV_EXTERN
     then do { p \<leftarrow> read_ptr (pg_data pg) (kv_off w); drop_ext p st pg }
     else Some (st, pg))"

definition unset_page_slot :: "nat \<Rightarrow> asl_store \<Rightarrow> asl_page \<Rightarrow> (asl_store \<times> asl_page) option" where
  "unset_page_slot slot st pg =
     (if slot \<ge> type_slots (pg_type pg) then Some (st, pg)
      else let k = get_slot_key pg slot; v = get_slot_val pg slot in
        if k = ASL_MSG_SLOT_FREE then Some (st, pg)
        else do { s1 \<leftarrow> drop_word k (st, pg);
                  (st2, pg2) \<leftarrow> drop_word v s1;
                  let pg3 = set_slot_op slot 0
                              (set_slot_val slot ASL_MSG_SLOT_FREE
                                (set_slot_key slot ASL_MSG_SLOT_FREE pg2));
                  Some (st2, pg3\<lparr>pg_count := pg_count pg3 - 1\<rparr>) })"

definition unset_at :: "asl_store \<Rightarrow> asl_msg \<Rightarrow> nat \<times> nat \<Rightarrow> (asl_store \<times> asl_msg) option" where
  "unset_at st msg = (\<lambda>(pi, slot).
     do { (st', pg) \<leftarrow> unset_page_slot slot st (msg ! pi); Some (st', msg[pi := pg]) })"

definition asl_msg_unset :: "asl_h \<Rightarrow> asl_store \<Rightarrow> asl_msg \<Rightarrow> string option \<Rightarrow> (asl_store \<times> asl_msg) option" where
  "asl_msg_unset H st msg key =
     do { r \<leftarrow> msg_index H st msg key;
          case r of None \<Rightarrow> Some (st, msg) | Some (i, pos) \<Rightarrow> unset_at st msg pos }"

definition asl_msg_unset_index :: "asl_store \<Rightarrow> asl_msg \<Rightarrow> 32 word \<Rightarrow> (asl_store \<times> asl_msg) option" where
  "asl_msg_unset_index st msg n =
     (case resolve_index msg n of None \<Rightarrow> Some (st, msg) | Some pos \<Rightarrow> unset_at st msg pos)"

section \<open>Copying and merging\<close>

definition merge_key_val_op :: "asl_h \<Rightarrow> asl_store \<Rightarrow> asl_msg \<Rightarrow> string option \<Rightarrow> string option \<Rightarrow>
    16 word \<Rightarrow> (asl_store \<times> asl_msg) option" where
  "merge_key_val_op H st msg key val opv =
     (if msg = [] \<or> key = None then Some (st, msg)
      else do { r \<leftarrow> msg_index H st msg key;
                case r of
                  Some hit \<Rightarrow> Some (st, msg)
                | None \<Rightarrow> map_option snd (asl_msg_set_key_val_op H st msg key val (ucast opv)) })"

text \<open>
  The loops of \<open>asl_msg_merge\<close> and \<open>asl_msg_replace\<close> over the entries of \<open>msg\<close>, which is not the
  target; \<open>step\<close> is what is done with an entry.
\<close>

partial_function (option) entry_loop ::
    "asl_h \<Rightarrow> (asl_store \<Rightarrow> asl_msg \<Rightarrow> kvo_out \<Rightarrow> (asl_store \<times> asl_msg) option) \<Rightarrow> asl_msg \<Rightarrow>
     32 word \<Rightarrow> asl_store \<Rightarrow> asl_msg \<Rightarrow> (asl_store \<times> asl_msg) option" where
  "entry_loop H step msg x st target =
     do { (x', r) \<leftarrow> asl_msg_fetch H st msg x;
          if x' = IndexNull then Some (st, target)
          else do { e \<leftarrow> r;
                    (st', target') \<leftarrow> step st target e;
                    entry_loop H step msg x' st' target' } }"

definition type_op :: "asl_type \<Rightarrow> 16 word \<Rightarrow> 16 word" where
  "type_op ty opv = (if ty = TYPE_MSG then 0 else opv)"

definition set_step :: "asl_h \<Rightarrow> asl_type \<Rightarrow> asl_store \<Rightarrow> asl_msg \<Rightarrow> kvo_out \<Rightarrow> (asl_store \<times> asl_msg) option" where
  "set_step H ty st target = (\<lambda>(k, v, opv).
     map_option snd (asl_msg_set_key_val_op H st target k v (ucast (type_op ty opv))))"

definition merge_step :: "asl_h \<Rightarrow> asl_type \<Rightarrow> asl_store \<Rightarrow> asl_msg \<Rightarrow> kvo_out \<Rightarrow> (asl_store \<times> asl_msg) option" where
  "merge_step H ty st target = (\<lambda>(k, v, opv). merge_key_val_op H st target k v (type_op ty opv))"

definition asl_msg_merge :: "asl_h \<Rightarrow> asl_store \<Rightarrow> asl_msg \<Rightarrow> asl_msg \<Rightarrow> (asl_store \<times> asl_msg) option" where
  "asl_msg_merge H st target msg =
     (if msg = [] then Some (st, target)
      else let ty = asl_msg_type msg in
        if target = []
        then let (target, st) = asl_msg_new ty st in entry_loop H (set_step H ty) msg 0 st target
        else entry_loop H (merge_step H ty) msg 0 st target)"

definition asl_msg_replace :: "asl_h \<Rightarrow> asl_store \<Rightarrow> asl_msg \<Rightarrow> asl_msg \<Rightarrow> (asl_store \<times> asl_msg) option" where
  "asl_msg_replace H st target msg =
     (if msg = [] then Some (st, target)
      else let ty = asl_msg_type msg;
               (target, st) = (if target = [] then asl_msg_new ty st else (target, st))
        in entry_loop H (set_step H ty) msg 0 st target)"

definition asl_msg_copy :: "asl_h \<Rightarrow> asl_store \<Rightarrow> asl_msg \<Rightarrow> (asl_store \<times> asl_msg) option" where
  "asl_msg_copy H st msg = asl_msg_merge H st [] msg"

section \<open>Releasing a message, and its operations as an object\<close>

text \<open>
  \<open>_asl_msg_free_page\<close>: a value under \<open>ASLFreeNotify\<close> is posted as a notification, and the external
  strings of every slot are freed.
\<close>

definition free_word :: "asl_page \<Rightarrow> 16 word \<Rightarrow> asl_store \<Rightarrow> asl_store option" where
  "free_word pg w st =
     (if kv_type w = ASL_MSG_KV_EXTERN
      then do { p \<leftarrow> read_ptr (pg_data pg) (kv_off w); free_ext p st }
      else Some st)"

fun free_slots :: "asl_page \<Rightarrow> nat list \<Rightarrow> string list \<times> asl_store \<Rightarrow> (string list \<times> asl_store) option" where
  "free_slots pg [] r = Some r"
| "free_slots pg (i # is) (posts, st) =
     do { posts' \<leftarrow> (if get_slot_key pg i = ASL_STD_KEY_FREE_NOTE
                     then do { x \<leftarrow> slot_val st pg i;
                               Some (case x of None \<Rightarrow> posts | Some s \<Rightarrow> posts @ [s]) }
                     else Some posts);
          st1 \<leftarrow> free_word pg (get_slot_key pg i) st;
          st2 \<leftarrow> free_word pg (get_slot_val pg i) st1;
          free_slots pg is (posts', st2) }"

fun dealloc :: "asl_msg \<Rightarrow> string list \<times> asl_store \<Rightarrow> (string list \<times> asl_store) option" where
  "dealloc [] r = Some r"
| "dealloc (pg # pgs) r =
     do { r' \<leftarrow> free_slots pg [0..<type_slots (pg_type pg)] r; dealloc pgs r' }"

definition jump_set_key_val_op :: "asl_h \<Rightarrow> asl_store \<Rightarrow> asl_msg \<Rightarrow> string option \<Rightarrow> string option \<Rightarrow>
    16 word \<Rightarrow> status option" where
  "jump_set_key_val_op H st obj key val opv =
     map_option (\<lambda>(status, r). (if status = 0 then 0 else - 1, r))
       (asl_msg_set_key_val_op H st obj key val (ucast opv))"

definition jump_get_at_index :: "asl_h \<Rightarrow> asl_store \<Rightarrow> asl_msg \<Rightarrow> nat \<Rightarrow> (int \<times> kvo_out option) option" where
  "jump_get_at_index H st obj n =
     (case resolve_index obj (of_nat n) of
        None \<Rightarrow> Some (- 1, None)
      | Some (pi, slot) \<Rightarrow>
          do { k \<leftarrow> slot_key H st (obj ! pi) slot;
               v \<leftarrow> slot_val st (obj ! pi) slot;
               Some (0, Some (k, v, get_slot_op (obj ! pi) slot)) })"

definition jump_append :: "asl_h \<Rightarrow> asl_store \<Rightarrow> asl_msg \<Rightarrow> asl_msg \<Rightarrow> (asl_store \<times> asl_msg) option" where
  "jump_append H st obj newobj =
     (if asl_msg_type newobj \<noteq> TYPE_QUERY \<and> asl_msg_type newobj \<noteq> TYPE_MSG then Some (st, obj)
      else asl_msg_merge H st obj newobj)"

definition jump_prepend :: "asl_h \<Rightarrow> asl_store \<Rightarrow> asl_msg \<Rightarrow> asl_msg \<Rightarrow> (asl_store \<times> asl_msg) option" where
  "jump_prepend H st obj newobj =
     (if obj = [] \<or> asl_msg_type newobj \<noteq> TYPE_QUERY \<and> asl_msg_type newobj \<noteq> TYPE_MSG then Some (st, obj)
      else asl_msg_replace H st obj newobj)"

end
