(* ===== verification/Asl_Msg_Pages.thy ===== *)
theory Asl_Msg_Pages
  imports Asl_Msg
begin

text \<open>
  Well-formed pages of the message store. A well-formed table of words (\<open>words_ok\<close>) has its strings
  and pointers in disjoint parts of the used data, and no external string belongs to two words; a
  well-formed page (\<open>page_ok\<close>) has a value only where it has a key, and keeps a standard key as a
  word of its own. The lemmas on regions, words and slots say what an update of one word leaves
  alone, and \<open>slot_step\<close> is the contract of an operation on one slot: the page stays well-formed, the
  slot has a given entry after it, all other entries stay, and only strings of the page are freed.
\<close>

section \<open>Offsets and tags in a word\<close>

lemmas kv_defs = ASL_MSG_OFFSET_MASK_def ASL_MSG_KV_MASK_def ASL_MSG_KV_INLINE_def ASL_MSG_KV_DICT_def
  ASL_MSG_KV_EXTERN_def ASL_MSG_SLOT_FREE_def

lemmas asl_sizes [simp] = ASL_MSG_PAGE_DATA_SIZE_def ASL_MSG_KVO_COUNT_def
  ASL_MSG_KVO_QUERY_SLOTS_def ASL_MSG_KVO_MSG_SLOTS_def

lemma kv_consts [simp]:
  "ASL_MSG_KV_INLINE \<noteq> ASL_MSG_KV_EXTERN" "ASL_MSG_KV_EXTERN \<noteq> ASL_MSG_KV_INLINE"
  "ASL_MSG_KV_INLINE \<noteq> ASL_MSG_KV_DICT" "ASL_MSG_KV_DICT \<noteq> ASL_MSG_KV_INLINE"
  "ASL_MSG_KV_DICT \<noteq> ASL_MSG_KV_EXTERN" "ASL_MSG_KV_EXTERN \<noteq> ASL_MSG_KV_DICT"
  by (simp_all add: kv_defs)

lemma kv_type_free [simp]:
  "kv_type ASL_MSG_SLOT_FREE \<noteq> ASL_MSG_KV_INLINE" "kv_type ASL_MSG_SLOT_FREE \<noteq> ASL_MSG_KV_EXTERN"
  "kv_type ASL_MSG_SLOT_FREE \<noteq> ASL_MSG_KV_DICT"
  by (simp_all add: kv_type_def kv_defs)

lemma small_bits:
  assumes "o' < 2 ^ 14"
  shows "(of_nat o' :: 16 word) AND 0xc000 = 0" "(of_nat o' :: 16 word) AND 0x3fff = of_nat o'"
proof -
  have m: "of_nat o' = take_bit 14 (of_nat o' :: 16 word)"
    using assms by (simp add: word_unat_eq_iff unsigned_of_nat unsigned_take_bit_eq take_bit_nat_eq_self)
  show "(of_nat o' :: 16 word) AND 0xc000 = 0" "(of_nat o' :: 16 word) AND 0x3fff = of_nat o'"
    by (subst m; rule bit_word_eqI; auto simp: bit_simps numeral_eq_Suc less_Suc_eq)+
qed

lemma inline_word:
  assumes "o' < 2 ^ 14"
  shows "kv_type (of_nat o') = ASL_MSG_KV_INLINE" "kv_off (of_nat o') = o'"
    "unat (of_nat o' :: 16 word) = o'" "(of_nat o' :: 16 word) \<noteq> ASL_MSG_SLOT_FREE"
proof -
  show u: "unat (of_nat o' :: 16 word) = o'"
    using assms by (simp add: unsigned_of_nat take_bit_nat_eq_self)
  show "kv_type (of_nat o') = ASL_MSG_KV_INLINE" "kv_off (of_nat o') = o'"
    using small_bits [OF assms] u by (simp_all add: kv_type_def kv_off_def kv_defs)
  then show "(of_nat o' :: 16 word) \<noteq> ASL_MSG_SLOT_FREE"
    by (metis kv_type_free(1))
qed

lemma extern_word:
  assumes "o' < 2 ^ 14"
  shows "kv_type (of_nat o' OR ASL_MSG_KV_EXTERN) = ASL_MSG_KV_EXTERN"
    "kv_off (of_nat o' OR ASL_MSG_KV_EXTERN) = o'"
    "of_nat o' OR ASL_MSG_KV_EXTERN \<noteq> ASL_MSG_SLOT_FREE"
proof -
  have "((of_nat o' :: 16 word) OR 0x4000) AND 0xc000 = ((of_nat o' AND 0xc000) OR (0x4000 AND 0xc000))"
    "((of_nat o' :: 16 word) OR 0x4000) AND 0x3fff = ((of_nat o' AND 0x3fff) OR (0x4000 AND 0x3fff))"
    by (simp_all only: bit.conj_disj_distrib2)
  then show t: "kv_type (of_nat o' OR ASL_MSG_KV_EXTERN) = ASL_MSG_KV_EXTERN"
    and "kv_off (of_nat o' OR ASL_MSG_KV_EXTERN) = o'"
    using small_bits [OF assms] inline_word(3) [OF assms]
    by (simp_all add: kv_type_def kv_off_def kv_defs)
  show "of_nat o' OR ASL_MSG_KV_EXTERN \<noteq> ASL_MSG_SLOT_FREE"
    using t by (metis kv_type_free(2))
qed

lemma inline_off: "kv_type w = ASL_MSG_KV_INLINE \<Longrightarrow> unat w = kv_off w"
proof -
  assume a: "kv_type w = ASL_MSG_KV_INLINE"
  have "w = (w AND 0xc000) OR (w AND 0x3fff)"
    by (rule bit_word_eqI) (auto simp: bit_simps numeral_eq_Suc less_Suc_eq)
  then show ?thesis using a by (simp add: kv_type_def kv_off_def kv_defs)
qed

section \<open>Regions of the data\<close>

definition slice :: "cell list \<Rightarrow> nat \<Rightarrow> nat \<Rightarrow> cell list" where
  "slice d off len = take len (drop off d)"

definition apart :: "nat \<Rightarrow> nat \<Rightarrow> nat \<Rightarrow> nat \<Rightarrow> bool" where
  "apart o1 l1 o2 l2 \<longleftrightarrow> l1 = 0 \<or> l2 = 0 \<or> o1 + l1 \<le> o2 \<or> o2 + l2 \<le> o1"

lemma apart_sym: "apart o1 l1 o2 l2 = apart o2 l2 o1 l1"
  by (auto simp: apart_def)

lemma apart_none [simp]: "apart o1 0 o2 l2" "apart o1 l1 o2 0"
  by (simp_all add: apart_def)

lemma length_str_cells [simp]: "length (str_cells s) = Suc (length s)"
  by (simp add: str_cells_def)

lemma length_ptr_cells [simp]: "length (ptr_cells p) = 8"
  by (simp add: ptr_cells_def)

lemma str_cells_eq [simp]: "str_cells s = str_cells t \<longleftrightarrow> s = t"
  by (simp add: str_cells_def inj_map_eq_map inj_def)

lemma cstr_iff: "cstr cs = Some s \<longleftrightarrow> Nul \<notin> set s \<and> take (Suc (length s)) cs = str_cells s"
proof (induction cs arbitrary: s)
  case (Cons c cs)
  show ?case
  proof (cases c)
    case (Byte a)
    with Cons.IH show ?thesis by (cases s) (auto simp: str_cells_def)
  qed (cases s; simp add: str_cells_def)
qed (simp add: str_cells_def)

lemma str_at_iff: "str_at d off = Some s \<longleftrightarrow> Nul \<notin> set s \<and> slice d off (Suc (length s)) = str_cells s"
  by (simp add: str_at_def cstr_iff slice_def)

lemma ptr_cells_Cons: "ptr_cells p = Frag p 0 # map (Frag p) [1..<8]"
  by (simp add: ptr_cells_def upt_conv_Cons)

lemma ptr_cells_hd: "Frag p i # cs = ptr_cells q \<Longrightarrow> p = q \<and> i = 0"
  by (simp add: ptr_cells_Cons)

lemma read_ptr_cells: "read_ptr d off = Some p" if "slice d off 8 = ptr_cells p"
  using that by (simp add: read_ptr_def slice_def [symmetric]) (simp add: ptr_cells_Cons)

lemma read_ptr_SomeD:
  assumes "read_ptr d off = Some p" "p \<noteq> 0"
  shows "slice d off 8 = ptr_cells p"
proof -
  have r: "(case slice d off 8 of
              Frag p 0 # cs \<Rightarrow> if Frag p 0 # cs = ptr_cells p then Some p else None
            | cs \<Rightarrow> if cs = null_cells then Some 0 else None) = Some p"
    using assms(1) by (simp only: read_ptr_def slice_def)
  show ?thesis
  proof (cases "slice d off 8")
    case Nil
    with r assms(2) show ?thesis by (simp split: if_splits)
  next
    case (Cons c cs)
    note c = this
    show ?thesis
    proof (cases c)
      case (Byte a)
      with r c assms(2) show ?thesis by (simp split: if_splits)
    next
      case (Frag q i)
      with r c assms(2) show ?thesis by (cases i) (simp_all split: if_splits)
    qed
  qed
qed

lemma slice_write:
  assumes "off + length bs \<le> length d"
  shows "slice (take off d @ bs @ drop (off + length bs) d) off (length bs) = bs"
    "o' + l' \<le> off \<Longrightarrow> slice (take off d @ bs @ drop (off + length bs) d) o' l' = slice d o' l'"
    "off + length bs \<le> o' \<Longrightarrow> slice (take off d @ bs @ drop (off + length bs) d) o' l' = slice d o' l'"
proof -
  show "slice (take off d @ bs @ drop (off + length bs) d) off (length bs) = bs"
    using assms by (simp add: slice_def)
  show "slice (take off d @ bs @ drop (off + length bs) d) o' l' = slice d o' l'" if "o' + l' \<le> off"
    using that assms by (intro nth_equalityI) (auto simp: slice_def nth_append)
  show "slice (take off d @ bs @ drop (off + length bs) d) o' l' = slice d o' l'" if "off + length bs \<le> o'"
    using that assms by (simp add: slice_def)
qed

lemma put_cells_slice:
  assumes "put_cells off bs d = Some d'"
  shows "slice d' off (length bs) = bs"
    "apart off (length bs) o' l' \<Longrightarrow> slice d' o' l' = slice d o' l'" "length d' = length d"
proof -
  have d: "off + length bs \<le> length d" "d' = take off d @ bs @ drop (off + length bs) d"
    using assms by (simp_all add: put_cells_def split: if_splits)
  show "slice d' off (length bs) = bs" "length d' = length d"
    using d slice_write(1) by simp_all
  assume "apart off (length bs) o' l'"
  then consider "bs = []" | "l' = 0" | "o' + l' \<le> off" | "off + length bs \<le> o'"
    by (auto simp: apart_def)
  then show "slice d' o' l' = slice d o' l'"
    by cases (use d slice_write(2,3) in \<open>simp_all add: slice_def\<close>)
qed

lemma put_cells_Some:
  "off + length bs \<le> length d \<Longrightarrow> \<exists>d'. put_cells off bs d = Some d'"
  by (simp add: put_cells_def)

section \<open>Well-formed words\<close>

definition word_str :: "asl_h \<Rightarrow> asl_store \<Rightarrow> cell list \<Rightarrow> 16 word \<Rightarrow> string option" where
  "word_str H st d w =
     (if kv_type w = ASL_MSG_KV_INLINE then str_at d (unat w)
      else if kv_type w = ASL_MSG_KV_DICT then dict_key H w
      else if kv_type w = ASL_MSG_KV_EXTERN
      then Option.bind (read_ptr d (kv_off w)) (ext st) else None)"

definition word_ptr :: "cell list \<Rightarrow> 16 word \<Rightarrow> nat option" where
  "word_ptr d w = (if kv_type w = ASL_MSG_KV_EXTERN then read_ptr d (kv_off w) else None)"

definition word_len :: "cell list \<Rightarrow> 16 word \<Rightarrow> nat" where
  "word_len d w =
     (if kv_type w = ASL_MSG_KV_INLINE
      then (case str_at d (unat w) of None \<Rightarrow> 0 | Some s \<Rightarrow> Suc (length s))
      else if kv_type w = ASL_MSG_KV_EXTERN then 8 else 0)"

definition word_ok :: "asl_h \<Rightarrow> asl_store \<Rightarrow> cell list \<Rightarrow> nat \<Rightarrow> 16 word \<Rightarrow> bool" where
  "word_ok H st d ds w \<longleftrightarrow>
     (w = ASL_MSG_SLOT_FREE \<or> (\<exists>s. word_str H st d w = Some s \<and> cstring s)) \<and>
     (word_len d w \<noteq> 0 \<longrightarrow> kv_off w + word_len d w \<le> ds) \<and> word_ptr d w \<noteq> Some 0"

lemma free_word_simps [simp]:
  "word_str H st d ASL_MSG_SLOT_FREE = None" "word_ptr d ASL_MSG_SLOT_FREE = None"
  "word_len d ASL_MSG_SLOT_FREE = 0" "word_ok H st d ds ASL_MSG_SLOT_FREE"
  by (simp_all add: word_str_def word_ptr_def word_len_def word_ok_def)

lemma word_frame:
  assumes "word_ok H st d ds w"
    and s: "slice d' (kv_off w) (word_len d w) = slice d (kv_off w) (word_len d w)"
    and e: "\<And>p. word_ptr d w = Some p \<Longrightarrow> ext st' p = ext st p"
  shows "word_str H st' d' w = word_str H st d w \<and> word_ptr d' w = word_ptr d w \<and>
         word_len d' w = word_len d w"
proof (cases "w = ASL_MSG_SLOT_FREE")
  case False
  then obtain str where str: "word_str H st d w = Some str" using assms(1) by (auto simp: word_ok_def)
  consider "kv_type w = ASL_MSG_KV_INLINE" | "kv_type w = ASL_MSG_KV_EXTERN"
    | "kv_type w \<noteq> ASL_MSG_KV_INLINE" "kv_type w \<noteq> ASL_MSG_KV_EXTERN" by blast
  then show ?thesis
  proof cases
    case 1
    then have "str_at d (unat w) = Some str" using str by (simp add: word_str_def)
    moreover then have "slice d' (unat w) (Suc (length str)) = slice d (unat w) (Suc (length str))"
      using s 1 by (simp add: word_len_def inline_off)
    moreover have "str_at d' (unat w) = Some str" using calculation by (simp add: str_at_iff)
    ultimately show ?thesis using 1 by (simp add: word_str_def word_ptr_def word_len_def)
  next
    case 2
    then obtain p where p: "read_ptr d (kv_off w) = Some p" "ext st p = Some str"
      using str by (auto simp: word_str_def bind_eq_Some_conv)
    then have "p \<noteq> 0" using 2 assms(1) by (auto simp: word_ok_def word_ptr_def)
    then have "read_ptr d' (kv_off w) = Some p"
      using read_ptr_SomeD [OF p(1)] s 2 read_ptr_cells by (simp add: word_len_def)
    then show ?thesis using 2 p e [of p] by (simp add: word_str_def word_ptr_def word_len_def)
  qed (simp_all add: word_str_def word_ptr_def word_len_def)
qed simp

lemma word_ok_frame:
  assumes "word_ok H st d ds w" "ds \<le> ds'"
    and "slice d' (kv_off w) (word_len d w) = slice d (kv_off w) (word_len d w)"
    and "\<And>p. word_ptr d w = Some p \<Longrightarrow> ext st' p = ext st p"
  shows "word_ok H st' d' ds' w"
  using word_frame [OF assms(1,3,4)] assms(1,2) by (auto simp: word_ok_def)

lemma new_inline:
  assumes "o' < 2 ^ 14" "slice d o' (Suc (length s)) = str_cells s" "Nul \<notin> set s"
  shows "word_str H st d (of_nat o') = Some s" "word_ptr d (of_nat o') = None"
    "word_len d (of_nat o') = Suc (length s)"
proof -
  have "str_at d o' = Some s" using assms(2,3) by (simp add: str_at_iff)
  then show "word_str H st d (of_nat o') = Some s" "word_ptr d (of_nat o') = None"
    "word_len d (of_nat o') = Suc (length s)"
    using inline_word [OF assms(1)] by (simp_all add: word_str_def word_ptr_def word_len_def)
qed

lemma new_extern:
  assumes "o' < 2 ^ 14" "slice d o' 8 = ptr_cells p"
  shows "word_str H st d (of_nat o' OR ASL_MSG_KV_EXTERN) = ext st p"
    "word_ptr d (of_nat o' OR ASL_MSG_KV_EXTERN) = Some p"
    "word_len d (of_nat o' OR ASL_MSG_KV_EXTERN) = 8"
  using extern_word [OF assms(1)] read_ptr_cells [OF assms(2)]
  by (simp_all add: word_str_def word_ptr_def word_len_def)

section \<open>Well-formed tables of words\<close>

definition words_ok :: "asl_h \<Rightarrow> asl_store \<Rightarrow> cell list \<Rightarrow> nat \<Rightarrow> 16 word list \<Rightarrow> bool" where
  "words_ok H st d ds ws \<longleftrightarrow>
     length d = ASL_MSG_PAGE_DATA_SIZE \<and> ds \<le> ASL_MSG_PAGE_DATA_SIZE \<and>
     (\<forall>j<length ws. word_ok H st d ds (ws ! j)) \<and>
     (\<forall>i<length ws. \<forall>j<length ws. i \<noteq> j \<longrightarrow>
        apart (kv_off (ws ! i)) (word_len d (ws ! i)) (kv_off (ws ! j)) (word_len d (ws ! j)) \<and>
        (\<forall>p. word_ptr d (ws ! i) = Some p \<longrightarrow> word_ptr d (ws ! j) \<noteq> Some p))"

text \<open>What an update of one word leaves alone: the strings and pointers of the other words.\<close>

definition same_words :: "asl_h \<Rightarrow> nat \<Rightarrow> asl_store \<Rightarrow> cell list \<Rightarrow> asl_store \<Rightarrow> cell list \<Rightarrow> 16 word list \<Rightarrow> bool" where
  "same_words H j st d st' d' ws \<longleftrightarrow>
     (\<forall>i<length ws. i \<noteq> j \<longrightarrow>
        word_str H st' d' (ws ! i) = word_str H st d (ws ! i) \<and> word_ptr d' (ws ! i) = word_ptr d (ws ! i))"

lemma words_okD:
  assumes "words_ok H st d ds ws"
  shows "length d = ASL_MSG_PAGE_DATA_SIZE" "ds \<le> ASL_MSG_PAGE_DATA_SIZE"
    "j < length ws \<Longrightarrow> word_ok H st d ds (ws ! j)"
    "i < length ws \<Longrightarrow> j < length ws \<Longrightarrow> i \<noteq> j \<Longrightarrow>
       apart (kv_off (ws ! i)) (word_len d (ws ! i)) (kv_off (ws ! j)) (word_len d (ws ! j))"
    "i < length ws \<Longrightarrow> j < length ws \<Longrightarrow> i \<noteq> j \<Longrightarrow> word_ptr d (ws ! i) = Some p \<Longrightarrow>
       word_ptr d (ws ! j) \<noteq> Some p"
  using assms by (auto simp: words_ok_def)

lemma words_store:
  assumes ok: "words_ok H st d ds ws" and j: "j < length ws"
    and len: "length d' = length d" "ds \<le> ds'" "ds' \<le> ASL_MSG_PAGE_DATA_SIZE"
    and same: "\<And>i. i < length ws \<Longrightarrow> i \<noteq> j \<Longrightarrow>
      slice d' (kv_off (ws ! i)) (word_len d (ws ! i)) = slice d (kv_off (ws ! i)) (word_len d (ws ! i))"
    and store: "\<And>i p. i < length ws \<Longrightarrow> i \<noteq> j \<Longrightarrow> word_ptr d (ws ! i) = Some p \<Longrightarrow> ext st' p = ext st p"
    and new: "word_ok H st' d' ds' w"
    and free: "\<And>i. i < length ws \<Longrightarrow> i \<noteq> j \<Longrightarrow>
      apart (kv_off w) (word_len d' w) (kv_off (ws ! i)) (word_len d (ws ! i))"
    and fresh: "\<And>i p. i < length ws \<Longrightarrow> i \<noteq> j \<Longrightarrow> word_ptr d' w = Some p \<Longrightarrow> word_ptr d (ws ! i) \<noteq> Some p"
  shows "words_ok H st' d' ds' (ws[j := w]) \<and> same_words H j st d st' d' ws"
proof -
  have fr: "word_str H st' d' (ws ! i) = word_str H st d (ws ! i) \<and>
      word_ptr d' (ws ! i) = word_ptr d (ws ! i) \<and> word_len d' (ws ! i) = word_len d (ws ! i) \<and>
      word_ok H st' d' ds' (ws ! i)" if "i < length ws" "i \<noteq> j" for i
    using word_frame [OF words_okD(3) [OF ok that(1)] same [OF that], of st'] store [OF that]
      word_ok_frame [OF words_okD(3) [OF ok that(1)] len(2) same [OF that], of st'] by blast
  have "word_ok H st' d' ds' (ws[j := w] ! i)" if "i < length ws" for i
    using that fr new by (cases "i = j") simp_all
  moreover have "apart (kv_off (ws[j := w] ! i)) (word_len d' (ws[j := w] ! i))
      (kv_off (ws[j := w] ! k)) (word_len d' (ws[j := w] ! k))"
    if "i < length ws" "k < length ws" "i \<noteq> k" for i k
    using that fr [of i] fr [of k] free [of i] free [of k] words_okD(4) [OF ok that] apart_sym
    by (cases "i = j"; cases "k = j") simp_all
  moreover have "word_ptr d' (ws[j := w] ! k) \<noteq> Some p"
    if "i < length ws" "k < length ws" "i \<noteq> k" "word_ptr d' (ws[j := w] ! i) = Some p" for i k p
    using that fr [of i] fr [of k] fresh [of i] fresh [of k] words_okD(5) [OF ok that(1,2,3), of p]
    by (cases "i = j"; cases "k = j") auto
  ultimately show ?thesis
    using len words_okD(1) [OF ok] fr by (simp add: words_ok_def same_words_def)
qed

lemma words_release:
  assumes "words_ok H st d ds ws" "j < length ws"
    and "\<And>i p. i < length ws \<Longrightarrow> i \<noteq> j \<Longrightarrow> word_ptr d (ws ! i) = Some p \<Longrightarrow> ext st' p = ext st p"
  shows "words_ok H st' d ds (ws[j := ASL_MSG_SLOT_FREE]) \<and> same_words H j st d st' d ws"
  using assms words_okD(2) [OF assms(1)] by (intro words_store) auto

text \<open>A string, or the pointer to one, is written to a part of the data that no other word uses.\<close>

lemma words_put_inline:
  assumes "words_ok H st d ds ws" "j < length ws" "cstring s"
    and put: "put_cells o' (str_cells s) d = Some d'"
    and "o' + Suc (length s) \<le> ds'" "ds \<le> ds'" "ds' \<le> ASL_MSG_PAGE_DATA_SIZE"
    and free: "\<And>i. i < length ws \<Longrightarrow> i \<noteq> j \<Longrightarrow> apart o' (Suc (length s)) (kv_off (ws ! i)) (word_len d (ws ! i))"
  shows "words_ok H st d' ds' (ws[j := of_nat o']) \<and> same_words H j st d st d' ws \<and>
         word_str H st d' (of_nat o') = Some s \<and> word_ptr d' (of_nat o') = None"
proof -
  have o: "o' < 2 ^ 14" using assms(5,7) by simp
  note sl = put_cells_slice [OF put, simplified]
  note new = new_inline [OF o sl(1)]
  have "word_ok H st d' ds' (of_nat o')"
    using new assms(3,5) inline_word [OF o] by (simp add: word_ok_def cstring_def)
  then have "words_ok H st d' ds' (ws[j := of_nat o']) \<and> same_words H j st d st d' ws"
    using assms(1-3,6,7) sl new free inline_word [OF o] by (intro words_store) (auto simp: cstring_def)
  then show ?thesis using new assms(3) by (simp add: cstring_def)
qed

lemma words_put_extern:
  assumes "words_ok H st d ds ws" "j < length ws" "cstring s"
    and p: "p \<noteq> 0" "ext st p = Some s" "\<And>i. i < length ws \<Longrightarrow> i \<noteq> j \<Longrightarrow> word_ptr d (ws ! i) \<noteq> Some p"
    and put: "put_cells o' (ptr_cells p) d = Some d'"
    and "o' + 8 \<le> ds'" "ds \<le> ds'" "ds' \<le> ASL_MSG_PAGE_DATA_SIZE"
    and free: "\<And>i. i < length ws \<Longrightarrow> i \<noteq> j \<Longrightarrow> apart o' 8 (kv_off (ws ! i)) (word_len d (ws ! i))"
  shows "words_ok H st d' ds' (ws[j := of_nat o' OR ASL_MSG_KV_EXTERN]) \<and> same_words H j st d st d' ws \<and>
         word_str H st d' (of_nat o' OR ASL_MSG_KV_EXTERN) = Some s \<and>
         word_ptr d' (of_nat o' OR ASL_MSG_KV_EXTERN) = Some p"
proof -
  have o: "o' < 2 ^ 14" using assms(8,10) by simp
  note sl = put_cells_slice [OF put, simplified]
  note new = new_extern [OF o sl(1)]
  have "word_ok H st d' ds' (of_nat o' OR ASL_MSG_KV_EXTERN)"
    using new assms(3,8) p extern_word [OF o] by (simp add: word_ok_def)
  then have "words_ok H st d' ds' (ws[j := of_nat o' OR ASL_MSG_KV_EXTERN]) \<and> same_words H j st d st d' ws"
    using assms(1,2,9,10) p sl new free extern_word [OF o] by (intro words_store) auto
  then show ?thesis using new p by simp
qed

lemma words_shrink:
  assumes "words_ok H st d ds ws" "ds' \<le> ds"
    and "\<And>i. i < length ws \<Longrightarrow> word_len d (ws ! i) \<noteq> 0 \<Longrightarrow> kv_off (ws ! i) + word_len d (ws ! i) \<le> ds'"
  shows "words_ok H st d ds' ws"
  using assms by (auto simp: words_ok_def word_ok_def)

section \<open>Well-formed pages\<close>

abbreviation page_slots :: "asl_page \<Rightarrow> nat" where
  "page_slots pg \<equiv> type_slots (pg_type pg)"

definition page_words :: "asl_page \<Rightarrow> 16 word list" where
  "page_words pg = take (2 * page_slots pg) (pg_kvo pg)"

definition page_ptrs :: "asl_page \<Rightarrow> nat set" where
  "page_ptrs pg =
     {p. \<exists>j<length (page_words pg). word_ptr (pg_data pg) (page_words pg ! j) = Some p}"

text \<open>A key is stored as a word of its own where it is a standard one, and as a string only where it is not.\<close>

definition key_canon :: "asl_h \<Rightarrow> asl_store \<Rightarrow> cell list \<Rightarrow> 16 word \<Rightarrow> bool" where
  "key_canon H st d k \<longleftrightarrow> k = ASL_MSG_SLOT_FREE \<or>
     (\<exists>s. word_str H st d k = Some s \<and>
        (if std_key H s (strlen32 s) \<noteq> 0 then k = std_key H s (strlen32 s)
         else kv_type k \<noteq> ASL_MSG_KV_DICT))"

definition page_ok :: "asl_h \<Rightarrow> asl_store \<Rightarrow> asl_page \<Rightarrow> bool" where
  "page_ok H st pg \<longleftrightarrow>
     (pg_type pg = TYPE_MSG \<or> pg_type pg = TYPE_QUERY) \<and> length (pg_kvo pg) = ASL_MSG_KVO_COUNT \<and>
     words_ok H st (pg_data pg) (pg_data_size pg) (page_words pg) \<and>
     (\<forall>s<page_slots pg.
        kv_type (pg_kvo pg ! (s + page_slots pg)) \<noteq> ASL_MSG_KV_DICT \<and>
        (pg_kvo pg ! s = ASL_MSG_SLOT_FREE \<longrightarrow> pg_kvo pg ! (s + page_slots pg) = ASL_MSG_SLOT_FREE) \<and>
        key_canon H st (pg_data pg) (pg_kvo pg ! s))"

type_synonym kvo_entry = "string \<times> string option \<times> 16 word"

definition slot_entry :: "asl_h \<Rightarrow> asl_store \<Rightarrow> asl_page \<Rightarrow> nat \<Rightarrow> kvo_entry option" where
  "slot_entry H st pg s =
     (if pg_kvo pg ! s = ASL_MSG_SLOT_FREE then None
      else Some (the (word_str H st (pg_data pg) (pg_kvo pg ! s)),
                 word_str H st (pg_data pg) (pg_kvo pg ! (s + page_slots pg)),
                 get_slot_op pg s))"

lemma page_sizes_simps [simp]:
  "page_ok H st (pg\<lparr>pg_mem_size := x\<rparr>) = page_ok H st pg"
  "page_ok H st (pg\<lparr>pg_count := c\<rparr>) = page_ok H st pg"
  "page_ok H st (pg\<lparr>pg_refcount := r\<rparr>) = page_ok H st pg"
  "page_ptrs (pg\<lparr>pg_mem_size := x\<rparr>) = page_ptrs pg"
  "page_ptrs (pg\<lparr>pg_count := c\<rparr>) = page_ptrs pg"
  "page_ptrs (pg\<lparr>pg_refcount := r\<rparr>) = page_ptrs pg"
  "slot_entry H st (pg\<lparr>pg_mem_size := x\<rparr>) s = slot_entry H st pg s"
  "slot_entry H st (pg\<lparr>pg_count := c\<rparr>) s = slot_entry H st pg s"
  "slot_entry H st (pg\<lparr>pg_refcount := r\<rparr>) s = slot_entry H st pg s"
  by (simp_all add: page_ok_def page_words_def page_ptrs_def slot_entry_def get_slot_op_def)

lemma type_slots_le: "type_slots ty * 2 \<le> ASL_MSG_KVO_COUNT" "ty = TYPE_QUERY \<Longrightarrow> type_slots ty * 3 = ASL_MSG_KVO_COUNT"
  by (cases ty; simp)+

lemma slot_access:
  assumes "slot < page_slots pg"
  shows "get_slot_key pg slot = pg_kvo pg ! slot"
    "get_slot_val pg slot = pg_kvo pg ! (slot + page_slots pg)"
    "set_slot_key slot x pg = pg\<lparr>pg_kvo := (pg_kvo pg)[slot := x]\<rparr>"
    "set_slot_val slot x pg = pg\<lparr>pg_kvo := (pg_kvo pg)[slot + page_slots pg := x]\<rparr>"
    "set_slot_op slot x pg =
       (if pg_type pg = TYPE_QUERY then pg\<lparr>pg_kvo := (pg_kvo pg)[slot + 2 * page_slots pg := x]\<rparr> else pg)"
    "get_slot_op pg slot =
       (if pg_type pg = TYPE_QUERY then pg_kvo pg ! (slot + 2 * page_slots pg) else 0)"
    "\<not> slot_out_of_range pg slot"
  using assms
  by (cases "pg_type pg";
      simp add: get_slot_key_def get_slot_val_def set_slot_key_def set_slot_val_def set_slot_op_def
        get_slot_op_def slot_out_of_range_def)+

lemma page_okD:
  assumes "page_ok H st pg"
  shows "pg_type pg = TYPE_MSG \<or> pg_type pg = TYPE_QUERY" "length (pg_kvo pg) = ASL_MSG_KVO_COUNT"
    "words_ok H st (pg_data pg) (pg_data_size pg) (page_words pg)"
    "length (page_words pg) = 2 * page_slots pg"
    "s < page_slots pg \<Longrightarrow> kv_type (pg_kvo pg ! (s + page_slots pg)) \<noteq> ASL_MSG_KV_DICT"
    "s < page_slots pg \<Longrightarrow> pg_kvo pg ! s = ASL_MSG_SLOT_FREE \<Longrightarrow>
       pg_kvo pg ! (s + page_slots pg) = ASL_MSG_SLOT_FREE"
    "s < page_slots pg \<Longrightarrow> key_canon H st (pg_data pg) (pg_kvo pg ! s)"
  using assms type_slots_le(1) [of "pg_type pg"] by (simp_all add: page_ok_def page_words_def)

lemma page_words_nth: "j < 2 * page_slots pg \<Longrightarrow> page_words pg ! j = pg_kvo pg ! j"
  by (simp add: page_words_def)

lemma page_word_ok:
  assumes "page_ok H st pg" "j < 2 * page_slots pg"
  shows "word_ok H st (pg_data pg) (pg_data_size pg) (pg_kvo pg ! j)"
  using words_okD(3) [OF page_okD(3) [OF assms(1)], of j] page_okD(4) [OF assms(1)] assms(2)
  by (simp add: page_words_nth)

lemma page_ptrs_iff:
  assumes "page_ok H st pg"
  shows "p \<in> page_ptrs pg \<longleftrightarrow> (\<exists>j<2 * page_slots pg. word_ptr (pg_data pg) (pg_kvo pg ! j) = Some p)"
  using page_okD(4) [OF assms] by (auto simp: page_ptrs_def page_words_nth)

lemma page_ptr_str:
  assumes "page_ok H st pg" "p \<in> page_ptrs pg"
  shows "p \<noteq> 0 \<and> (\<exists>s. ext st p = Some s)"
proof -
  obtain j where j: "j < 2 * page_slots pg" "word_ptr (pg_data pg) (pg_kvo pg ! j) = Some p"
    using assms by (auto simp: page_ptrs_iff)
  with page_word_ok [OF assms(1) j(1)] show ?thesis
    by (auto simp: word_ok_def word_ptr_def word_str_def split: if_splits)
qed

text \<open>Reading a slot gives the strings of its words.\<close>

lemma word_read:
  assumes "word_ok H st d ds w" "w \<noteq> ASL_MSG_SLOT_FREE"
  shows "kv_type w = ASL_MSG_KV_EXTERN \<Longrightarrow> read_ptr d (kv_off w) \<bind> ext_str st = Some (word_str H st d w)"
    "kv_type w = ASL_MSG_KV_INLINE \<Longrightarrow> map_option Some (str_at d (unat w)) = Some (word_str H st d w)"
    "kv_type w = ASL_MSG_KV_DICT \<Longrightarrow> dict_key H w = word_str H st d w"
    "kv_type w = ASL_MSG_KV_EXTERN \<or> kv_type w = ASL_MSG_KV_INLINE \<or> kv_type w = ASL_MSG_KV_DICT"
proof -
  obtain s where s: "word_str H st d w = Some s" using assms by (auto simp: word_ok_def)
  then show "kv_type w = ASL_MSG_KV_EXTERN \<or> kv_type w = ASL_MSG_KV_INLINE \<or> kv_type w = ASL_MSG_KV_DICT"
    by (auto simp: word_str_def split: if_splits)
  show "map_option Some (str_at d (unat w)) = Some (word_str H st d w)" if "kv_type w = ASL_MSG_KV_INLINE"
    using that s by (simp add: word_str_def)
  show "dict_key H w = word_str H st d w" if "kv_type w = ASL_MSG_KV_DICT"
    using that by (simp add: word_str_def)
  assume e: "kv_type w = ASL_MSG_KV_EXTERN"
  then obtain p where p: "read_ptr d (kv_off w) = Some p" "ext st p = Some s"
    using s by (auto simp: word_str_def bind_eq_Some_conv)
  then have "p \<noteq> 0" using e assms(1) by (auto simp: word_ok_def word_ptr_def)
  then show "read_ptr d (kv_off w) \<bind> ext_str st = Some (word_str H st d w)"
    using p s by (simp add: ext_str_def)
qed

lemma slot_key_read:
  assumes "page_ok H st pg" "s < page_slots pg"
  shows "slot_key H st pg s = Some (word_str H st (pg_data pg) (pg_kvo pg ! s))"
proof (cases "pg_kvo pg ! s = ASL_MSG_SLOT_FREE")
  case True
  then show ?thesis using slot_access(1,7) [OF assms(2)] by (simp add: slot_key_def)
next
  case False
  have "word_ok H st (pg_data pg) (pg_data_size pg) (pg_kvo pg ! s)"
    using page_word_ok assms by simp
  note r = word_read [OF this False]
  show ?thesis
    using r(4) slot_access(1,7) [OF assms(2)] r(1-3) False
    by (elim disjE) (simp_all add: slot_key_def)
qed

lemma slot_val_read:
  assumes "page_ok H st pg" "s < page_slots pg"
  shows "slot_val st pg s = Some (word_str H st (pg_data pg) (pg_kvo pg ! (s + page_slots pg)))"
proof (cases "pg_kvo pg ! (s + page_slots pg) = ASL_MSG_SLOT_FREE")
  case True
  then show ?thesis using slot_access(2,7) [OF assms(2)] by (simp add: slot_val_def)
next
  case False
  have "word_ok H st (pg_data pg) (pg_data_size pg) (pg_kvo pg ! (s + page_slots pg))"
    using page_word_ok assms by simp
  note r = word_read [OF this False]
  show ?thesis
    using r(4) slot_access(2,7) [OF assms(2)] r(1-3) False page_okD(5) [OF assms]
    by (elim disjE) (simp_all add: slot_val_def)
qed

section \<open>Updates of one slot\<close>

lemma same_wordsD:
  assumes "same_words H j st d st' d' (page_words pg)" "page_ok H st pg" "i < 2 * page_slots pg" "i \<noteq> j"
  shows "word_str H st' d' (pg_kvo pg ! i) = word_str H st d (pg_kvo pg ! i)"
    "word_ptr d' (pg_kvo pg ! i) = word_ptr d (pg_kvo pg ! i)"
  using assms page_okD(4) [OF assms(2)] page_words_nth [OF assms(3)] by (auto simp: same_words_def)

lemma key_canon_same:
  "key_canon H st d k \<Longrightarrow> word_str H st' d' k = word_str H st d k \<Longrightarrow> key_canon H st' d' k"
  by (simp add: key_canon_def)

lemma ptrs_update:
  assumes ok: "page_ok H st pg" and j: "j < 2 * page_slots pg"
    and same: "same_words H j st (pg_data pg) st' d' (page_words pg)"
    and p: "p \<in> page_ptrs (pg\<lparr>pg_kvo := (pg_kvo pg)[j := w], pg_data := d', pg_data_size := ds'\<rparr>)"
  shows "(\<exists>i<2 * page_slots pg. i \<noteq> j \<and> word_ptr (pg_data pg) (pg_kvo pg ! i) = Some p) \<or>
         word_ptr d' w = Some p"
proof -
  obtain i where i: "i < 2 * page_slots pg" "word_ptr d' ((page_words pg)[j := w] ! i) = Some p"
    using p page_okD(4) [OF ok] by (auto simp: page_ptrs_def page_words_def take_update_swap)
  show ?thesis
  proof (cases "i = j")
    case True
    then show ?thesis using i j page_okD(4) [OF ok] by simp
  next
    case False
    then show ?thesis using i same_wordsD [OF same ok i(1) False] by (auto simp: page_words_nth)
  qed
qed

lemma update_val:
  fixes pg :: asl_page
  defines "n \<equiv> page_slots pg"
  assumes ok: "page_ok H st pg" and s: "s < n"
    and w: "words_ok H st' d' ds' ((page_words pg)[s + n := w])"
    and same: "same_words H (s + n) st (pg_data pg) st' d' (page_words pg)"
    and kind: "kv_type w \<noteq> ASL_MSG_KV_DICT" "pg_kvo pg ! s = ASL_MSG_SLOT_FREE \<Longrightarrow> w = ASL_MSG_SLOT_FREE"
  defines "pg' \<equiv> pg\<lparr>pg_kvo := (pg_kvo pg)[s + n := w], pg_data := d', pg_data_size := ds'\<rparr>"
  shows "page_ok H st' pg'"
    "i < n \<Longrightarrow> slot_entry H st' pg' i =
       (if i = s then map_option (\<lambda>(k, v, opv). (k, word_str H st' d' w, opv)) (slot_entry H st pg s)
        else slot_entry H st pg i)"
proof -
  note str = same_wordsD(1) [OF same ok, unfolded n_def [symmetric]]
  have len: "length (pg_kvo pg) = 30" "2 * n \<le> 30" "pg_type pg = TYPE_QUERY \<Longrightarrow> 3 * n = 30"
    using page_okD(2) [OF ok] type_slots_le [of "pg_type pg"] by (simp_all add: n_def)
  have key: "pg_kvo pg' ! i = pg_kvo pg ! i \<and> word_str H st' d' (pg_kvo pg ! i) = word_str H st (pg_data pg) (pg_kvo pg ! i)"
    if "i < n" for i using that s str [of i] by (simp add: pg'_def)
  have val: "pg_kvo pg' ! (i + n) = (if i = s then w else pg_kvo pg ! (i + n)) \<and>
      (i \<noteq> s \<longrightarrow> word_str H st' d' (pg_kvo pg ! (i + n)) = word_str H st (pg_data pg) (pg_kvo pg ! (i + n)))"
    if "i < n" for i using that s str [of "i + n"] len by (auto simp: pg'_def nth_list_update)
  have op: "get_slot_op pg' i = get_slot_op pg i" if "i < n" for i
    using that s len(3) by (auto simp: pg'_def slot_access(6) simp flip: n_def)
  show "page_ok H st' pg'"
    unfolding page_ok_def
  proof (intro conjI allI impI)
    show "words_ok H st' (pg_data pg') (pg_data_size pg') (page_words pg')"
      using w by (simp add: pg'_def page_words_def n_def take_update_swap)
    fix i assume "i < page_slots pg'"
    then have i: "i < n" by (simp add: pg'_def n_def)
    show "kv_type (pg_kvo pg' ! (i + page_slots pg')) \<noteq> ASL_MSG_KV_DICT"
      using val [OF i] kind(1) page_okD(5) [OF ok i [unfolded n_def]] by (simp add: pg'_def n_def)
    show "pg_kvo pg' ! (i + page_slots pg') = ASL_MSG_SLOT_FREE" if "pg_kvo pg' ! i = ASL_MSG_SLOT_FREE"
      using val [OF i] key [OF i] that kind(2) page_okD(6) [OF ok i [unfolded n_def]]
      by (auto simp: pg'_def n_def split: if_splits)
    show "key_canon H st' (pg_data pg') (pg_kvo pg' ! i)"
      using key [OF i] page_okD(7) [OF ok i [unfolded n_def]] key_canon_same by (simp add: pg'_def)
  qed (use page_okD(1,2) [OF ok] in \<open>simp_all add: pg'_def\<close>)
  assume i: "i < n"
  have "page_slots pg' = n" "pg_data pg' = d'" by (simp_all add: pg'_def n_def)
  then show "slot_entry H st' pg' i =
       (if i = s then map_option (\<lambda>(k, v, opv). (k, word_str H st' d' w, opv)) (slot_entry H st pg s)
        else slot_entry H st pg i)"
    using key [OF i] val [OF i] op [OF i] by (auto simp: slot_entry_def simp flip: n_def)
qed

lemma update_key:
  fixes pg :: asl_page
  defines "n \<equiv> page_slots pg"
  assumes ok: "page_ok H st pg" and s: "s < n"
    and w: "words_ok H st' d' ds' ((page_words pg)[s := w])"
    and same: "same_words H s st (pg_data pg) st' d' (page_words pg)"
    and kind: "key_canon H st' d' w" "pg_kvo pg ! (s + n) = ASL_MSG_SLOT_FREE"
  defines "pg' \<equiv> pg\<lparr>pg_kvo := (pg_kvo pg)[s := w], pg_data := d', pg_data_size := ds'\<rparr>"
  shows "page_ok H st' pg'"
    "i < n \<Longrightarrow> slot_entry H st' pg' i =
       (if i = s then (if w = ASL_MSG_SLOT_FREE then None
                       else Some (the (word_str H st' d' w), None, get_slot_op pg s))
        else slot_entry H st pg i)"
proof -
  note str = same_wordsD(1) [OF same ok, unfolded n_def [symmetric]]
  have len: "length (pg_kvo pg) = 30" "2 * n \<le> 30" "pg_type pg = TYPE_QUERY \<Longrightarrow> 3 * n = 30"
    using page_okD(2) [OF ok] type_slots_le [of "pg_type pg"] by (simp_all add: n_def)
  have key: "pg_kvo pg' ! i = (if i = s then w else pg_kvo pg ! i) \<and>
      (i \<noteq> s \<longrightarrow> word_str H st' d' (pg_kvo pg ! i) = word_str H st (pg_data pg) (pg_kvo pg ! i))"
    if "i < n" for i using that s str [of i] len by (simp add: pg'_def)
  have val: "pg_kvo pg' ! (i + n) = pg_kvo pg ! (i + n) \<and>
      word_str H st' d' (pg_kvo pg ! (i + n)) = word_str H st (pg_data pg) (pg_kvo pg ! (i + n))"
    if "i < n" for i using that s str [of "i + n"] by (simp add: pg'_def)
  have op: "get_slot_op pg' i = get_slot_op pg i" if "i < n" for i
    using that s len(3) by (auto simp: pg'_def slot_access(6) simp flip: n_def)
  show "page_ok H st' pg'"
    unfolding page_ok_def
  proof (intro conjI allI impI)
    show "words_ok H st' (pg_data pg') (pg_data_size pg') (page_words pg')"
      using w by (simp add: pg'_def page_words_def n_def take_update_swap)
    fix i assume "i < page_slots pg'"
    then have i: "i < n" by (simp add: pg'_def n_def)
    show "kv_type (pg_kvo pg' ! (i + page_slots pg')) \<noteq> ASL_MSG_KV_DICT"
      using val [OF i] page_okD(5) [OF ok i [unfolded n_def]] by (simp add: pg'_def n_def)
    show "pg_kvo pg' ! (i + page_slots pg') = ASL_MSG_SLOT_FREE" if "pg_kvo pg' ! i = ASL_MSG_SLOT_FREE"
      using val [OF i] key [OF i] that kind(2) page_okD(6) [OF ok i [unfolded n_def]]
      by (cases "i = s") (auto simp: pg'_def n_def)
    show "key_canon H st' (pg_data pg') (pg_kvo pg' ! i)"
      using key [OF i] page_okD(7) [OF ok i [unfolded n_def]] kind(1) key_canon_same
      by (simp add: pg'_def)
  qed (use page_okD(1,2) [OF ok] in \<open>simp_all add: pg'_def\<close>)
  assume i: "i < n"
  have "page_slots pg' = n" "pg_data pg' = d'" by (simp_all add: pg'_def n_def)
  then show "slot_entry H st' pg' i =
       (if i = s then (if w = ASL_MSG_SLOT_FREE then None
                       else Some (the (word_str H st' d' w), None, get_slot_op pg s))
        else slot_entry H st pg i)"
    using key [OF i] val [OF i] op [OF i] kind(2) by (auto simp: slot_entry_def simp flip: n_def)
qed

lemma update_op:
  assumes ok: "page_ok H st pg" and s: "s < page_slots pg"
  shows "page_ok H st (set_slot_op s x pg)" "page_ptrs (set_slot_op s x pg) = page_ptrs pg"
    "i < page_slots pg \<Longrightarrow> slot_entry H st (set_slot_op s x pg) i =
       (if i = s then map_option (\<lambda>(k, v, opv). (k, v, if pg_type pg = TYPE_QUERY then x else 0)) (slot_entry H st pg s)
        else slot_entry H st pg i)"
    "pg_type (set_slot_op s x pg) = pg_type pg" "pg_data_size (set_slot_op s x pg) = pg_data_size pg"
    "j < 2 * page_slots pg \<Longrightarrow> pg_kvo (set_slot_op s x pg) ! j = pg_kvo pg ! j"
proof -
  let ?n = "page_slots pg" and ?pg = "set_slot_op s x pg"
  have len: "length (pg_kvo pg) = 30" "2 * ?n \<le> 30" "pg_type pg = TYPE_QUERY \<Longrightarrow> 3 * ?n = 30"
    using page_okD(2) [OF ok] type_slots_le [of "pg_type pg"] by simp_all
  show t: "pg_type ?pg = pg_type pg" "pg_data_size ?pg = pg_data_size pg"
    using slot_access(5) [OF s] by simp_all
  have d: "pg_data ?pg = pg_data pg" "length (pg_kvo ?pg) = length (pg_kvo pg)"
    using slot_access(5) [OF s] by simp_all
  show k: "pg_kvo ?pg ! j = pg_kvo pg ! j" if "j < 2 * ?n" for j
    using that slot_access(5) [OF s] by (cases "pg_type pg = TYPE_QUERY") auto
  have ws: "page_words ?pg = page_words pg"
    using slot_access(5) [OF s] by (simp add: page_words_def)
  show "page_ptrs ?pg = page_ptrs pg" using ws d by (simp add: page_ptrs_def)
  show "page_ok H st ?pg"
    using page_okD [OF ok] ws t d k by (simp add: page_ok_def)
  assume i: "i < ?n"
  then have "get_slot_op ?pg i = (if i = s \<and> pg_type pg = TYPE_QUERY then x else get_slot_op pg i)"
    using t len s slot_access(5) [OF s] slot_access(6) [of i ?pg] slot_access(6) [OF i] by auto
  then show "slot_entry H st ?pg i =
       (if i = s then map_option (\<lambda>(k, v, opv). (k, v, if pg_type pg = TYPE_QUERY then x else 0)) (slot_entry H st pg s)
        else slot_entry H st pg i)"
    using i s t d k slot_access(6) [OF s] by (auto simp: slot_entry_def)
qed

section \<open>Steps on a page and its store\<close>

definition store_ok :: "asl_store \<Rightarrow> bool" where
  "store_ok st \<longleftrightarrow> (\<forall>p s. ext st p = Some s \<longrightarrow> 0 < p \<and> p \<le> allocs st)"

definition mem_left :: "asl_store \<Rightarrow> bool" where
  "mem_left st \<longleftrightarrow> (\<forall>i\<ge>allocs st. \<not> fails st i)"

text \<open>The store after a step that may only free strings of \<open>own\<close> and allocate new ones.\<close>

definition store_le :: "nat set \<Rightarrow> asl_store \<Rightarrow> asl_store \<Rightarrow> bool" where
  "store_le own st st' \<longleftrightarrow>
     allocs st \<le> allocs st' \<and> fails st' = fails st \<and> junk st' = junk st \<and>
     (store_ok st \<longrightarrow> store_ok st') \<and> (\<forall>p\<le>allocs st. p \<notin> own \<longrightarrow> ext st' p = ext st p)"

lemma store_le_refl [simp]: "store_le own st st"
  by (simp add: store_le_def)

lemma store_le_trans:
  assumes "store_le own st st1" "store_le own1 st1 st2" "\<And>p. p \<in> own1 \<Longrightarrow> p \<in> own \<or> allocs st < p"
  shows "store_le own st st2"
proof -
  have "ext st2 p = ext st p" if p: "p \<le> allocs st" "p \<notin> own" for p
  proof -
    have "p \<notin> own1" using assms(3) [of p] p by auto
    then show ?thesis using assms(1,2) p by (simp add: store_le_def)
  qed
  then show ?thesis using assms(1,2) by (simp add: store_le_def)
qed

lemma store_le_mem_left: "store_le own st st' \<Longrightarrow> mem_left st \<Longrightarrow> mem_left st'"
  by (simp add: store_le_def mem_left_def)

lemma strdup_left:
  assumes "mem_left st"
  shows "strdup s st = (Suc (allocs st), st\<lparr>allocs := Suc (allocs st), ext := (ext st)(Suc (allocs st) := Some s)\<rparr>)"
  using assms by (simp add: strdup_def malloc_ok_def mem_left_def)

lemma store_le_strdup:
  "store_le own st (st\<lparr>allocs := Suc (allocs st), ext := (ext st)(Suc (allocs st) := Some s)\<rparr>)"
  by (auto simp: store_le_def store_ok_def)

lemma store_le_free: "p \<in> own \<Longrightarrow> store_le own st (st\<lparr>ext := (ext st)(p := None)\<rparr>)"
  by (auto simp: store_le_def store_ok_def)

text \<open>
  The effect of a step on the page alone: slot \<open>s\<close> has entry \<open>e\<close> after it, and the page may own the
  strings of \<open>new\<close> besides those it had.
\<close>

definition slot_upd :: "asl_h \<Rightarrow> nat \<Rightarrow> kvo_entry option \<Rightarrow> nat set \<Rightarrow> asl_store \<Rightarrow> asl_page \<Rightarrow> asl_store \<Rightarrow> asl_page \<Rightarrow> bool" where
  "slot_upd H s e new st pg st' pg' \<longleftrightarrow>
     page_ok H st' pg' \<and> pg_type pg' = pg_type pg \<and> page_ptrs pg' \<subseteq> page_ptrs pg \<union> new \<and>
     slot_entry H st' pg' s = e \<and>
     (\<forall>i<page_slots pg. i \<noteq> s \<longrightarrow> slot_entry H st' pg' i = slot_entry H st pg i)"

definition slot_step :: "asl_h \<Rightarrow> nat \<Rightarrow> kvo_entry option \<Rightarrow> asl_store \<Rightarrow> asl_page \<Rightarrow> asl_store \<Rightarrow> asl_page \<Rightarrow> bool" where
  "slot_step H s e st pg st' pg' \<longleftrightarrow>
     slot_upd H s e {p. allocs st < p} st pg st' pg' \<and> store_le (page_ptrs pg) st st'"

lemma slot_stepD:
  assumes "slot_step H s e st pg st' pg'"
  shows "page_ok H st' pg'" "pg_type pg' = pg_type pg" "store_le (page_ptrs pg) st st'"
    "p \<in> page_ptrs pg' \<Longrightarrow> p \<in> page_ptrs pg \<or> allocs st < p" "slot_entry H st' pg' s = e"
    "i < page_slots pg \<Longrightarrow> i \<noteq> s \<Longrightarrow> slot_entry H st' pg' i = slot_entry H st pg i"
  using assms by (auto simp: slot_step_def slot_upd_def)

lemma slot_upd_trans:
  assumes "slot_upd H s e1 new1 st pg st1 pg1" "slot_upd H s e2 new2 st1 pg1 st2 pg2"
  shows "slot_upd H s e2 (new1 \<union> new2) st pg st2 pg2"
  using assms by (auto simp: slot_upd_def)

lemma slot_step_trans:
  assumes a: "slot_step H s e1 st pg st1 pg1" and b: "slot_step H s e2 st1 pg1 st2 pg2"
  shows "slot_step H s e2 st pg st2 pg2"
proof -
  have le: "store_le (page_ptrs pg) st st2"
    using store_le_trans [OF slot_stepD(3) [OF a] slot_stepD(3) [OF b]] slot_stepD(4) [OF a] by blast
  have al: "allocs st \<le> allocs st1" using slot_stepD(3) [OF a] by (simp add: store_le_def)
  have "p \<in> page_ptrs pg \<or> allocs st < p" if "p \<in> page_ptrs pg2" for p
    using slot_stepD(4) [OF b that] slot_stepD(4) [OF a, of p] al by auto
  then show ?thesis
    using le slot_stepD(2) [OF a] slot_stepD(6) [OF a] slot_stepD(1,2,5,6) [OF b]
    by (auto simp: slot_step_def slot_upd_def)
qed

lemma slot_step_refl: "page_ok H st pg \<Longrightarrow> slot_step H s (slot_entry H st pg s) st pg st pg"
  by (simp add: slot_step_def slot_upd_def)

lemma slot_upd_sizes [simp]:
  "slot_upd H s e new st pg st' (pg'\<lparr>pg_mem_size := x\<rparr>) = slot_upd H s e new st pg st' pg'"
  "slot_upd H s e new st pg st' (pg'\<lparr>pg_count := c\<rparr>) = slot_upd H s e new st pg st' pg'"
  by (simp_all add: slot_upd_def)

lemma slot_step_sizes [simp]:
  "slot_step H s e st pg st' (pg'\<lparr>pg_mem_size := x\<rparr>) = slot_step H s e st pg st' pg'"
  "slot_step H s e st pg st' (pg'\<lparr>pg_count := c\<rparr>) = slot_step H s e st pg st' pg'"
  by (simp_all add: slot_step_def slot_upd_def)

definition unref :: "asl_store \<Rightarrow> nat option \<Rightarrow> asl_store" where
  "unref st r = (case r of None \<Rightarrow> st | Some p \<Rightarrow> st\<lparr>ext := (ext st)(p := None)\<rparr>)"

lemma unref_simps [simp]:
  "unref st None = st" "ext (unref st (Some p)) q = (if q = p then None else ext st q)"
  "allocs (unref st r) = allocs st" "fails (unref st r) = fails st" "junk (unref st r) = junk st"
  by (auto simp: unref_def split: option.split)

lemma store_le_unref: "(\<And>p. r = Some p \<Longrightarrow> p \<in> own) \<Longrightarrow> store_le own st (unref st r)"
  by (cases r) (auto simp: unref_def intro: store_le_free)

lemma drop_ext_owned:
  assumes "page_ok H st pg0" "p \<in> page_ptrs pg0"
  shows "\<exists>m. drop_ext p st pg = Some (unref st (Some p), pg\<lparr>pg_mem_size := m\<rparr>)"
  using page_ptr_str [OF assms] by (auto simp: drop_ext_def ext_str_def free_ext_def unref_def)

lemma others_not_freed:
  assumes "page_ok H st pg" "j < 2 * page_slots pg"
    and "i < length (page_words pg)" "i \<noteq> j" "word_ptr (pg_data pg) (page_words pg ! i) = Some p"
    and "\<And>q. r = Some q \<Longrightarrow> word_ptr (pg_data pg) (pg_kvo pg ! j) = Some q"
  shows "ext (unref st r) p = ext st p"
  using words_okD(5) [OF page_okD(3) [OF assms(1)] assms(3) _ assms(4,5), unfolded page_okD(4) [OF assms(1)], OF assms(2)]
    assms(2) assms(6) [of p] by (cases r) (auto simp: page_words_nth)

lemma release_val:
  assumes ok: "page_ok H st pg" and s: "s < page_slots pg"
    and r: "\<And>q. r = Some q \<Longrightarrow> word_ptr (pg_data pg) (pg_kvo pg ! (s + page_slots pg)) = Some q"
  shows "slot_step H s (map_option (\<lambda>(k, v, opv). (k, None, opv)) (slot_entry H st pg s)) st pg (unref st r)
           (pg\<lparr>pg_kvo := (pg_kvo pg)[s + page_slots pg := ASL_MSG_SLOT_FREE]\<rparr>)"
proof -
  let ?j = "s + page_slots pg" and ?st = "unref st r"
  let ?pg = "pg\<lparr>pg_kvo := (pg_kvo pg)[?j := ASL_MSG_SLOT_FREE], pg_data := pg_data pg, pg_data_size := pg_data_size pg\<rparr>"
  have j: "?j < 2 * page_slots pg" "?j < length (page_words pg)" using s page_okD(4) [OF ok] by simp_all
  have w: "words_ok H ?st (pg_data pg) (pg_data_size pg) ((page_words pg)[?j := ASL_MSG_SLOT_FREE])"
    "same_words H ?j st (pg_data pg) ?st (pg_data pg) (page_words pg)"
    using words_release [OF page_okD(3) [OF ok] j(2), of ?st] others_not_freed [OF ok j(1) _ _ _ r] by blast+
  have own: "p \<in> page_ptrs pg" if "r = Some p" for p
    using r [OF that] j(1) page_ptrs_iff [OF ok] by blast
  note u = update_val [OF ok s w, simplified]
  have "p \<in> page_ptrs pg" if "p \<in> page_ptrs ?pg" for p
    using ptrs_update [OF ok j(1) w(2) that] page_ptrs_iff [OF ok] by auto
  then show ?thesis
    using u s own by (auto simp: slot_step_def slot_upd_def intro: store_le_unref)
qed

lemma release_key:
  assumes ok: "page_ok H st pg" and s: "s < page_slots pg"
    and v: "pg_kvo pg ! (s + page_slots pg) = ASL_MSG_SLOT_FREE"
    and r: "\<And>q. r = Some q \<Longrightarrow> word_ptr (pg_data pg) (pg_kvo pg ! s) = Some q"
  shows "slot_step H s None st pg (unref st r) (pg\<lparr>pg_kvo := (pg_kvo pg)[s := ASL_MSG_SLOT_FREE]\<rparr>)"
proof -
  let ?st = "unref st r"
  let ?pg = "pg\<lparr>pg_kvo := (pg_kvo pg)[s := ASL_MSG_SLOT_FREE], pg_data := pg_data pg, pg_data_size := pg_data_size pg\<rparr>"
  have j: "s < 2 * page_slots pg" "s < length (page_words pg)" using s page_okD(4) [OF ok] by simp_all
  have w: "words_ok H ?st (pg_data pg) (pg_data_size pg) ((page_words pg)[s := ASL_MSG_SLOT_FREE])"
    "same_words H s st (pg_data pg) ?st (pg_data pg) (page_words pg)"
    using words_release [OF page_okD(3) [OF ok] j(2), of ?st] others_not_freed [OF ok j(1) _ _ _ r] by blast+
  have own: "p \<in> page_ptrs pg" if "r = Some p" for p
    using r [OF that] j(1) page_ptrs_iff [OF ok] by blast
  note u = update_key [OF ok s w _ v, simplified key_canon_def, simplified]
  have "p \<in> page_ptrs pg" if "p \<in> page_ptrs ?pg" for p
    using ptrs_update [OF ok j(1) w(2) that] page_ptrs_iff [OF ok] by auto
  then show ?thesis
    using u s own by (auto simp: slot_step_def slot_upd_def intro: store_le_unref)
qed

lemma page_store:
  assumes ok: "page_ok H st pg" and st: "store_ok st" "store_le own st st'" "own \<inter> page_ptrs pg = {}"
  shows "page_ok H st' pg" "i < page_slots pg \<Longrightarrow> slot_entry H st' pg i = slot_entry H st pg i"
proof -
  let ?d = "pg_data pg"
  have e: "ext st' p = ext st p" if "j < 2 * page_slots pg" "word_ptr ?d (pg_kvo pg ! j) = Some p" for j p
  proof -
    have p: "p \<in> page_ptrs pg" using that page_ptrs_iff [OF ok] by auto
    with page_ptr_str [OF ok] st(1) have "p \<le> allocs st" by (auto simp: store_ok_def)
    then show ?thesis using st(2,3) p by (auto simp: store_le_def)
  qed
  have w: "word_str H st' ?d (pg_kvo pg ! j) = word_str H st ?d (pg_kvo pg ! j)"
    "word_ok H st' ?d (pg_data_size pg) (pg_kvo pg ! j)" if "j < 2 * page_slots pg" for j
    using word_frame [OF page_word_ok [OF ok that] refl, of st'] e [OF that]
      word_ok_frame [OF page_word_ok [OF ok that] le_refl refl, of st'] by blast+
  have "words_ok H st' ?d (pg_data_size pg) (page_words pg)"
    using page_okD(3,4) [OF ok] w(2) by (simp add: words_ok_def page_words_nth)
  moreover have "key_canon H st' ?d (pg_kvo pg ! s)" if "s < page_slots pg" for s
    using page_okD(7) [OF ok that] w(1) [of s] that by (simp add: key_canon_def)
  ultimately show "page_ok H st' pg"
    using page_okD [OF ok] by (simp add: page_ok_def)
  show "slot_entry H st' pg i = slot_entry H st pg i" if "i < page_slots pg"
    using that w(1) by (simp add: slot_entry_def)
qed

lemma store_step:
  assumes "page_ok H st pg" "store_ok st" "store_le {} st st'" "s < page_slots pg"
  shows "slot_step H s (slot_entry H st pg s) st pg st' pg"
  using page_store [OF assms(1-3)] assms(3,4) by (auto simp: slot_step_def slot_upd_def store_le_def)

lemma words_below:
  assumes "words_ok H st d ds ws" "ds \<le> o'" "i < length ws"
  shows "apart o' l (kv_off (ws ! i)) (word_len d (ws ! i))"
  using words_okD(3) [OF assms(1,3)] assms(2) by (auto simp: word_ok_def apart_def)

text \<open>What is written for a string: its bytes, or the pointer to it, which is one of \<open>new\<close>.\<close>

definition str_image :: "asl_store \<Rightarrow> nat set \<Rightarrow> string \<Rightarrow> nat \<Rightarrow> cell list \<Rightarrow> 16 word \<Rightarrow> bool" where
  "str_image st new s o' cs w \<longleftrightarrow>
     cs = str_cells s \<and> w = of_nat o' \<or>
     (\<exists>p. cs = ptr_cells p \<and> w = of_nat o' OR ASL_MSG_KV_EXTERN \<and> p \<in> new \<and> p \<noteq> 0 \<and> ext st p = Some s)"

lemma words_put:
  assumes ok: "words_ok H st d ds ws" and j: "j < length ws" and s: "cstring s"
    and img: "str_image st new s o' cs w"
    and fresh: "\<forall>i<length ws. \<forall>p. word_ptr d (ws ! i) = Some p \<longrightarrow> p \<notin> new"
    and put: "put_cells o' cs d = Some d'"
    and len: "o' + length cs \<le> ds'" "ds \<le> ds'" "ds' \<le> ASL_MSG_PAGE_DATA_SIZE"
    and free: "\<forall>i<length ws. i \<noteq> j \<longrightarrow> apart o' (length cs) (kv_off (ws ! i)) (word_len d (ws ! i))"
  shows "words_ok H st d' ds' (ws[j := w])" "same_words H j st d st d' ws" "word_str H st d' w = Some s"
    "word_ptr d' w = Some p \<Longrightarrow> p \<in> new" "kv_type w \<noteq> ASL_MSG_KV_DICT" "w \<noteq> ASL_MSG_SLOT_FREE"
proof -
  have o: "o' < 2 ^ 14" using len by simp
  have "words_ok H st d' ds' (ws[j := w]) \<and> same_words H j st d st d' ws \<and> word_str H st d' w = Some s \<and>
      (word_ptr d' w = Some p \<longrightarrow> p \<in> new) \<and> kv_type w \<noteq> ASL_MSG_KV_DICT \<and> w \<noteq> ASL_MSG_SLOT_FREE"
    using img unfolding str_image_def
  proof (elim disjE exE conjE)
    assume "cs = str_cells s" "w = of_nat o'"
    then show ?thesis
      using words_put_inline [OF ok j s, of o' d' ds'] put len free inline_word [OF o] by simp
  next
    fix q assume q: "cs = ptr_cells q" "w = of_nat o' OR ASL_MSG_KV_EXTERN" "q \<in> new" "q \<noteq> 0"
      "ext st q = Some s"
    then have "word_ptr d (ws ! i) \<noteq> Some q" if "i < length ws" "i \<noteq> j" for i
      using fresh that by fastforce
    then show ?thesis
      using words_put_extern [OF ok j s, of q o' d' ds'] put len free extern_word [OF o] q by auto
  qed
  then show "words_ok H st d' ds' (ws[j := w])" "same_words H j st d st d' ws" "word_str H st d' w = Some s"
    "word_ptr d' w = Some p \<Longrightarrow> p \<in> new" "kv_type w \<noteq> ASL_MSG_KV_DICT" "w \<noteq> ASL_MSG_SLOT_FREE" by auto
qed

lemma page_ptr_old:
  assumes "page_ok H st pg" "store_ok st" "p \<in> page_ptrs pg"
  shows "p \<le> allocs st"
  using page_ptr_str [OF assms(1,3)] assms(2) by (auto simp: store_ok_def)

text \<open>A value is stored in a slot that has none, and a key in a free slot.\<close>

lemma occupy_val:
  assumes ok: "page_ok H st pg" and s: "s < page_slots pg" and new: "new \<inter> page_ptrs pg = {}"
    and v: "pg_kvo pg ! (s + page_slots pg) = ASL_MSG_SLOT_FREE" "pg_kvo pg ! s \<noteq> ASL_MSG_SLOT_FREE"
    and str: "cstring str" "str_image st new str o' cs w"
    and put: "put_cells o' cs (pg_data pg) = Some d'"
    and len: "o' + length cs \<le> ds'" "pg_data_size pg \<le> ds'" "ds' \<le> ASL_MSG_PAGE_DATA_SIZE"
    and free: "\<And>i. i < 2 * page_slots pg \<Longrightarrow> i \<noteq> s + page_slots pg \<Longrightarrow>
      apart o' (length cs) (kv_off (pg_kvo pg ! i)) (word_len (pg_data pg) (pg_kvo pg ! i))"
  shows "slot_upd H s (map_option (\<lambda>(k, v, opv). (k, Some str, opv)) (slot_entry H st pg s)) new st pg st
           (pg\<lparr>pg_kvo := (pg_kvo pg)[s + page_slots pg := w], pg_data := d', pg_data_size := ds'\<rparr>)"
proof -
  let ?j = "s + page_slots pg"
  have j: "?j < 2 * page_slots pg" "?j < length (page_words pg)" using s page_okD(4) [OF ok] by simp_all
  have fresh: "\<forall>i<length (page_words pg). \<forall>p. word_ptr (pg_data pg) (page_words pg ! i) = Some p \<longrightarrow> p \<notin> new"
    using new by (auto simp: page_ptrs_def)
  have ap: "\<forall>i<length (page_words pg). i \<noteq> ?j \<longrightarrow>
      apart o' (length cs) (kv_off (page_words pg ! i)) (word_len (pg_data pg) (page_words pg ! i))"
    using free page_okD(4) [OF ok] by (simp add: page_words_nth)
  note w = words_put [OF page_okD(3) [OF ok] j(2) str fresh put len ap]
  note u = update_val [OF ok s w(1,2,5)]
  let ?pg = "pg\<lparr>pg_kvo := (pg_kvo pg)[?j := w], pg_data := d', pg_data_size := ds'\<rparr>"
  have "p \<in> page_ptrs pg \<union> new" if "p \<in> page_ptrs ?pg" for p
    using ptrs_update [OF ok j(1) w(2) that] w(4) page_ptrs_iff [OF ok] by auto
  moreover have "page_ok H st ?pg" using u(1) v by blast
  moreover have "slot_entry H st ?pg i = (if i = s
      then map_option (\<lambda>(k, v, opv). (k, word_str H st d' w, opv)) (slot_entry H st pg s)
      else slot_entry H st pg i)" if "i < page_slots pg" for i
    using u(2) [of i] v that by blast
  ultimately show ?thesis
    using w(3) s by (auto simp: slot_upd_def)
qed

lemma occupy_key:
  assumes ok: "page_ok H st pg" and s: "s < page_slots pg" and new: "new \<inter> page_ptrs pg = {}"
    and v: "pg_kvo pg ! s = ASL_MSG_SLOT_FREE"
    and str: "cstring key" "std_key H key (strlen32 key) = 0" "str_image st new key o' cs w"
    and put: "put_cells o' cs (pg_data pg) = Some d'"
    and len: "o' + length cs \<le> ds'" "pg_data_size pg \<le> o'" "ds' \<le> ASL_MSG_PAGE_DATA_SIZE"
  shows "slot_upd H s (Some (key, None, get_slot_op pg s)) new st pg st
           (pg\<lparr>pg_kvo := (pg_kvo pg)[s := w], pg_data := d', pg_data_size := ds'\<rparr>)"
proof -
  have j: "s < 2 * page_slots pg" "s < length (page_words pg)" using s page_okD(4) [OF ok] by simp_all
  have fresh: "\<forall>i<length (page_words pg). \<forall>p. word_ptr (pg_data pg) (page_words pg ! i) = Some p \<longrightarrow> p \<notin> new"
    using new by (auto simp: page_ptrs_def)
  have len': "pg_data_size pg \<le> ds'" using len by simp
  have ap: "\<forall>i<length (page_words pg). i \<noteq> s \<longrightarrow>
      apart o' (length cs) (kv_off (page_words pg ! i)) (word_len (pg_data pg) (page_words pg ! i))"
    using words_below [OF page_okD(3) [OF ok] len(2)] by blast
  note w = words_put [OF page_okD(3) [OF ok] j(2) str(1,3) fresh put len(1) len' len(3) ap]
  have kc: "key_canon H st d' w" using w(3,5) str(2) by (simp add: key_canon_def)
  note u = update_key [OF ok s w(1,2) kc page_okD(6) [OF ok s v]]
  let ?pg = "pg\<lparr>pg_kvo := (pg_kvo pg)[s := w], pg_data := d', pg_data_size := ds'\<rparr>"
  have "p \<in> page_ptrs pg \<union> new" if "p \<in> page_ptrs ?pg" for p
    using ptrs_update [OF ok j(1) w(2) that] w(4) page_ptrs_iff [OF ok] by auto
  then show ?thesis
    using u w(3,6) s by (auto simp: slot_upd_def)
qed

text \<open>A standard key is its own word; the data stays as it is.\<close>

lemma std_key_word:
  assumes "std_key H s len = kx" "kx \<noteq> 0"
  shows "dict_key H kx = Some s" "kv_type kx = ASL_MSG_KV_DICT" "kx \<noteq> ASL_MSG_SLOT_FREE"
proof -
  have "dict_key H kx = Some s \<and> kv_type kx = ASL_MSG_KV_DICT"
  proof (cases "len > 18 \<and> take 18 s = ''com.apple.message.''")
    case True
    then have s: "s = ''com.apple.message.'' @ drop 18 s" by (metis append_take_drop_id)
    have "map_of mt_tests (drop 18 s) = Some kx"
      using assms True by (simp add: std_key_def first_test_def split: option.splits)
    then have "(drop 18 s, kx) \<in> set mt_tests" by (rule map_of_SomeD)
    then show ?thesis
      by (subst s)
        (auto simp: mt_tests_def dict_key_def MTStandardKey_def ASL_STD_KEY_BASE_def ASL_STD_KEY_LAST_def
          ASL_MT_KEY_BASE_def ASL_MT_KEY_LAST_def kv_type_def kv_defs)
  next
    case False
    let ?ts = "concat (map snd (dropWhile (\<lambda>(n, _). n \<noteq> len) (std_cases H)))"
    have "map_of ?ts s = Some kx"
      using assms False by (auto simp: std_key_def first_test_def split: option.splits)
    then have "(s, kx) \<in> set (concat (map snd (std_cases H)))"
      by (auto dest!: map_of_SomeD set_dropWhileD)
    then show ?thesis
      by (auto simp: std_cases_def dict_key_def ASLStandardKey_def ASL_STD_KEY_BASE_def ASL_STD_KEY_LAST_def
          kv_type_def kv_defs)
  qed
  then show "dict_key H kx = Some s" "kv_type kx = ASL_MSG_KV_DICT" "kx \<noteq> ASL_MSG_SLOT_FREE"
    by (auto simp: kv_type_def kv_defs)
qed

lemma occupy_std_key:
  assumes ok: "page_ok H st pg" and s: "s < page_slots pg" and v: "pg_kvo pg ! s = ASL_MSG_SLOT_FREE"
    and key: "cstring key" "std_key H key (strlen32 key) = kx" "kx \<noteq> 0"
  shows "slot_upd H s (Some (key, None, get_slot_op pg s)) {} st pg st (pg\<lparr>pg_kvo := (pg_kvo pg)[s := kx]\<rparr>)"
proof -
  note k = std_key_word [OF key(2,3)]
  let ?d = "pg_data pg" and ?ds = "pg_data_size pg"
  have j: "s < 2 * page_slots pg" "s < length (page_words pg)" using s page_okD(4) [OF ok] by simp_all
  have w: "word_str H st ?d kx = Some key" "word_ptr ?d kx = None" "word_len ?d kx = 0"
    using k by (simp_all add: word_str_def word_ptr_def word_len_def)
  have ws: "words_ok H st ?d ?ds ((page_words pg)[s := kx])" "same_words H s st ?d st ?d (page_words pg)"
    using words_store [OF page_okD(3) [OF ok] j(2), where d' = ?d and ds' = ?ds and st' = st and w = kx] w key(1) words_okD(2) [OF page_okD(3) [OF ok]]
    by (simp_all add: word_ok_def)
  have kc: "key_canon H st ?d kx" using w key by (simp add: key_canon_def)
  note u = update_key [OF ok s ws kc page_okD(6) [OF ok s v], simplified]
  have "p \<in> page_ptrs pg" if "p \<in> page_ptrs (pg\<lparr>pg_kvo := (pg_kvo pg)[s := kx]\<rparr>)" for p
    using ptrs_update [OF ok j(1) ws(2), where p = p and w = kx and ds' = ?ds] that w(2) page_ptrs_iff [OF ok] by auto
  then show ?thesis using u w k s by (auto simp: slot_upd_def)
qed

end
