(* ===== verification/Asl_Msg_Slots.thy ===== *)
theory Asl_Msg_Slots
  imports Asl_Msg_Pages
begin

text \<open>
  What the operations of the message store do to one slot of a page: setting up an entry
  (\<open>fill_slot_step\<close>), replacing its value in place, at the end of the data, or not for want of room
  (\<open>replace_val_outcome\<close>), giving it up (\<open>free_entry_step\<close>) and removing it (\<open>unset_page_slot_step\<close>).
  Each is a \<open>slot_step\<close>: defined, and with no effect outside the slot.
\<close>

section \<open>The space of an entry\<close>

text \<open>
  The buffers of a new entry: the key is in none where it is a standard one, and it and the value
  are either to be copied into the page or are external strings allocated since \<open>st\<close>.
\<close>

definition image_ok :: "asl_store \<Rightarrow> asl_store \<Rightarrow> string \<Rightarrow> nat \<Rightarrow> nat \<Rightarrow> bool" where
  "image_ok st st1 s p len \<longleftrightarrow>
     p = 0 \<and> len = Suc (length s) \<or> allocs st < p \<and> ext st1 p = Some s \<and> len = 8"

definition space_ok :: "16 word \<Rightarrow> string \<Rightarrow> string option \<Rightarrow> asl_store \<Rightarrow> asl_store \<Rightarrow> kv_space \<Rightarrow> bool" where
  "space_ok kx key val st st1 b \<longleftrightarrow>
     store_le {} st st1 \<and>
     (if kx = 0 then image_ok st st1 key (extkey b) (keylen b) else extkey b = 0 \<and> keylen b = 0) \<and>
     (case val of None \<Rightarrow> extval b = 0 \<and> vallen b = 0 | Some v \<Rightarrow> image_ok st st1 v (extval b) (vallen b)) \<and>
     (extkey b \<noteq> 0 \<longrightarrow> extkey b \<noteq> extval b) \<and> kv_total b \<le> ASL_MSG_PAGE_DATA_SIZE"

lemma cstring_len:
  assumes "cstring s"
  shows "strlen32 s = length s" "(length s + 1) mod 2 ^ 32 = length s + 1"
    "(strlen32 s + 1) mod 2 ^ 32 = length s + 1"
  using assms by (simp_all add: cstring_def strlen32_def)

definition fits_page :: "16 word \<Rightarrow> string \<Rightarrow> string option \<Rightarrow> bool" where
  "fits_page kx key val \<longleftrightarrow> kv_total (start_space kx key val) \<le> ASL_MSG_PAGE_DATA_SIZE"

lemma alloc_small:
  assumes "fits_page kx key val" "cstring key" "\<And>v. val = Some v \<Longrightarrow> cstring v"
  shows "alloc_space kx key val st = Some (start_space kx key val, st) \<and>
         space_ok kx key val st st (start_space kx key val)"
proof -
  let ?b = "start_space kx key val"
  have "keylen ?b \<le> 220" "vallen ?b \<le> 220" "kv_total ?b \<le> 220"
    using assms(1) by (simp_all add: fits_page_def kv_total_def)
  then have "alloc_space kx key val st = Some (?b, st)"
    by (simp add: alloc_space_def Let_def)
  moreover have "space_ok kx key val st st ?b"
    using assms cstring_len(2,3) by (auto simp: space_ok_def fits_page_def image_ok_def start_space_def split: option.split)
  ultimately show ?thesis by simp
qed

lemma alloc_left:
  assumes "mem_left st" "cstring key" "\<And>v. val = Some v \<Longrightarrow> cstring v"
  shows "\<exists>b st1. alloc_space kx key val st = Some (b, st1) \<and> space_ok kx key val st st1 b"
proof -
  have left: "mem_left (st\<lparr>allocs := Suc (allocs st), ext := e\<rparr>)" for e
    using assms(1) by (simp add: mem_left_def)
  note sd = strdup_left [OF assms(1)] strdup_left [OF left]
  have k: "(strlen32 key + 1) mod 2 ^ 32 = Suc (length key)" using cstring_len [OF assms(2)] by simp
  note defs = alloc_space_def start_space_def kv_total_def dup_key_def dup_val_def space_ok_def
    image_ok_def Let_def
  have frames: "store_le {} st (st\<lparr>allocs := Suc (allocs st), ext := (ext st)(Suc (allocs st) := Some s)\<rparr>)"
    "store_le {} st (st\<lparr>allocs := Suc (Suc (allocs st)),
       ext := (ext st)(Suc (allocs st) := Some s, Suc (Suc (allocs st)) := Some s')\<rparr>)" for s s'
    by (auto simp: store_le_def store_ok_def le_SucI)
  show ?thesis
  proof (cases val)
    case None
    then show ?thesis using sd k
      by (cases "kx = 0"; cases "length key < 220") (simp_all add: defs frames)
  next
    case (Some v)
    have v: "(length v + 1) mod 2 ^ 32 = Suc (length v)" using cstring_len assms(3) [OF Some] by simp
    show ?thesis
    proof (cases "kx = 0")
      case True
      with sd k v Some show ?thesis
        by (cases "length key < 220"; cases "length v < 220"; cases "length key + length v < 219";
            cases "length key < 212") (simp_all add: defs frames)
    next
      case False
      with sd k v Some show ?thesis
        by (cases "length v < 220") (simp_all add: defs frames)
    qed
  qed
qed

section \<open>Filling a slot\<close>

lemma append_str_image:
  assumes "image_ok st st1 s p len" "pg_data_size pg + len \<le> length (pg_data pg)"
  obtains cs w d' m where "append_str s p len grow pg = Some (w, pg\<lparr>pg_data := d', pg_mem_size := m\<rparr>)"
    "str_image st1 ({p} - {0}) s (pg_data_size pg) cs w"
    "put_cells (pg_data_size pg) cs (pg_data pg) = Some d'" "length cs = len"
proof (cases "p = 0")
  case True
  then have len: "len = Suc (length s)" using assms(1) by (simp add: image_ok_def)
  then have c: "copy_in len s = Some (str_cells s)" by (simp add: copy_in_def)
  obtain d' where d: "put_cells (pg_data_size pg) (str_cells s) (pg_data pg) = Some d'"
    using put_cells_Some [of "pg_data_size pg" "str_cells s" "pg_data pg"] assms(2) len by auto
  show ?thesis
    by (rule that [of "of_nat (pg_data_size pg)" "pg_mem_size pg" d' "str_cells s"])
      (use True len c d in \<open>simp_all add: append_str_def str_image_def\<close>)
next
  case False
  then have len: "len = 8" "ext st1 p = Some s" using assms(1) by (simp_all add: image_ok_def)
  obtain d' where d: "put_cells (pg_data_size pg) (ptr_cells p) (pg_data pg) = Some d'"
    using put_cells_Some [of "pg_data_size pg" "ptr_cells p" "pg_data pg"] assms(2) len by auto
  show ?thesis
    by (rule that [of "of_nat (pg_data_size pg) OR ASL_MSG_KV_EXTERN" "pg_mem_size pg + of_nat grow" d' "ptr_cells p"])
      (use False len d in \<open>auto simp: append_str_def str_image_def\<close>)
qed

lemma image_new: "image_ok st st1 s p len \<Longrightarrow> {p} - {0} \<subseteq> {q. allocs st < q}"
  by (auto simp: image_ok_def)

lemma fill_key_upd:
  assumes ok: "page_ok H st1 pg" and s: "s < page_slots pg" and v: "pg_kvo pg ! s = ASL_MSG_SLOT_FREE"
    and key: "cstring key" "std_key H key (strlen32 key) = kx"
    and img: "if kx = 0 then image_ok st st1 key (extkey b) (keylen b) else extkey b = 0 \<and> keylen b = 0"
    and room: "pg_data_size pg + keylen b \<le> ASL_MSG_PAGE_DATA_SIZE"
    and new: "extkey b \<notin> page_ptrs pg"
  shows "\<exists>pg1. fill_key kx key b s pg = Some pg1 \<and>
     slot_upd H s (Some (key, None, get_slot_op pg s)) ({extkey b} - {0}) st1 pg st1 pg1 \<and>
     pg_data_size pg1 = pg_data_size pg + keylen b \<and> pg_kvo pg1 ! s \<noteq> ASL_MSG_SLOT_FREE \<and>
     pg_kvo pg1 ! (s + page_slots pg) = pg_kvo pg ! (s + page_slots pg) \<and> pg_count pg1 = pg_count pg"
proof (cases "kx = 0")
  case True
  have len: "length (pg_data pg) = ASL_MSG_PAGE_DATA_SIZE" using words_okD(1) page_okD(3) [OF ok] by blast
  obtain cs w d' m where a: "append_str key (extkey b) (keylen b) (strlen32 key) pg =
      Some (w, pg\<lparr>pg_data := d', pg_mem_size := m\<rparr>)"
    "str_image st1 ({extkey b} - {0}) key (pg_data_size pg) cs w"
    "put_cells (pg_data_size pg) cs (pg_data pg) = Some d'" "length cs = keylen b"
    by (rule append_str_image [of st st1 key "extkey b" "keylen b" pg "strlen32 key"])
      (use img True room len in auto)
  let ?pg = "pg\<lparr>pg_kvo := (pg_kvo pg)[s := w], pg_data := d', pg_data_size := pg_data_size pg + keylen b\<rparr>"
  have "slot_upd H s (Some (key, None, get_slot_op pg s)) ({extkey b} - {0}) st1 pg st1 ?pg"
    using occupy_key [OF ok s _ v key(1) _ a(2,3)] key(2) True new a(4) room by auto
  moreover have "fill_key kx key b s pg = Some (?pg\<lparr>pg_mem_size := m\<rparr>)"
    using True a(1) slot_access(3) [of s "pg\<lparr>pg_data := d', pg_mem_size := m\<rparr>" w] s
    by (simp add: fill_key_def)
  moreover have "w \<noteq> ASL_MSG_SLOT_FREE"
    using a(2) room inline_word(4) [of "pg_data_size pg"] extern_word(3) [of "pg_data_size pg"]
    by (auto simp: str_image_def)
  ultimately show ?thesis
    using s page_okD(2) [OF ok] type_slots_le(1) [of "pg_type pg"] by simp
next
  case False
  then show ?thesis
    using occupy_std_key [OF ok s v key False] std_key_word(3) [OF key(2) False] img
      slot_access(3) [OF s] s page_okD(2) [OF ok] type_slots_le(1) [of "pg_type pg"]
    by (simp add: fill_key_def)
qed

lemma fill_val_upd:
  assumes ok: "page_ok H st1 pg" and s: "s < page_slots pg"
    and v: "pg_kvo pg ! (s + page_slots pg) = ASL_MSG_SLOT_FREE" "pg_kvo pg ! s \<noteq> ASL_MSG_SLOT_FREE"
    and e: "slot_entry H st1 pg s = Some (k, None, opw)"
    and val: "\<And>v. val = Some v \<Longrightarrow> cstring v"
    and img: "case val of None \<Rightarrow> extval b = 0 \<and> vallen b = 0 | Some v \<Rightarrow> image_ok st st1 v (extval b) (vallen b)"
    and room: "pg_data_size pg + vallen b \<le> ASL_MSG_PAGE_DATA_SIZE"
    and new: "extval b \<notin> page_ptrs pg"
  shows "\<exists>pg1. fill_val val b s pg = Some pg1 \<and>
     slot_upd H s (Some (k, val, opw)) ({extval b} - {0}) st1 pg st1 pg1 \<and> pg_count pg1 = pg_count pg"
proof (cases val)
  case None
  then show ?thesis using ok e by (auto simp: fill_val_def slot_upd_def)
next
  case (Some w)
  have len: "length (pg_data pg) = ASL_MSG_PAGE_DATA_SIZE" using words_okD(1) page_okD(3) [OF ok] by blast
  obtain cs x d' m where a: "append_str w (extval b) (vallen b) ((length w + 1) mod 2 ^ 32) pg =
      Some (x, pg\<lparr>pg_data := d', pg_mem_size := m\<rparr>)"
    "str_image st1 ({extval b} - {0}) w (pg_data_size pg) cs x"
    "put_cells (pg_data_size pg) cs (pg_data pg) = Some d'" "length cs = vallen b"
    by (rule append_str_image [of st st1 w "extval b" "vallen b" pg "(length w + 1) mod 2 ^ 32"])
      (use img Some room len in auto)
  let ?pg = "pg\<lparr>pg_kvo := (pg_kvo pg)[s + page_slots pg := x], pg_data := d',
      pg_data_size := pg_data_size pg + vallen b\<rparr>"
  have below: "apart (pg_data_size pg) (length cs) (kv_off (pg_kvo pg ! i)) (word_len (pg_data pg) (pg_kvo pg ! i))"
    if "i < 2 * page_slots pg" for i
    using words_below [OF page_okD(3) [OF ok] order_refl, of i] page_okD(4) [OF ok] that
    by (simp add: page_words_nth)
  have "slot_upd H s (map_option (\<lambda>(k, v, opv). (k, Some w, opv)) (slot_entry H st1 pg s)) ({extval b} - {0}) st1 pg st1 ?pg"
    by (rule occupy_val [OF ok s _ v val [OF Some] a(2,3)]) (use new a(4) room below in auto)
  moreover have "fill_val val b s pg = Some (?pg\<lparr>pg_mem_size := m\<rparr>)"
    using Some a(1) slot_access(4) [of s "pg\<lparr>pg_data := d', pg_mem_size := m\<rparr>" x] s
    by (simp add: fill_val_def)
  ultimately show ?thesis using e Some by (simp add: slot_upd_def)
qed

lemma fill_slot_step:
  assumes ok: "page_ok H st pg" and st: "store_ok st" and s: "s < page_slots pg"
    and v: "pg_kvo pg ! s = ASL_MSG_SLOT_FREE"
    and key: "cstring key" "\<And>v. val = Some v \<Longrightarrow> cstring v"
    and b: "space_ok (std_key H key (strlen32 key)) key val st st1 b"
    and room: "kv_total b \<le> ASL_MSG_PAGE_DATA_SIZE - pg_data_size pg"
  shows "\<exists>pg'. fill_slot (std_key H key (strlen32 key)) key val opw b s pg = Some pg' \<and>
     slot_step H s (Some (key, val, if pg_type pg = TYPE_QUERY then opw else 0)) st pg st1 pg' \<and>
     pg_count pg' = pg_count pg + 1"
proof -
  let ?kx = "std_key H key (strlen32 key)"
  have le: "store_le {} st st1" using b by (simp add: space_ok_def)
  have le': "store_le (page_ptrs pg) st st1" using le by (simp add: store_le_def)
  have ds: "pg_data_size pg \<le> ASL_MSG_PAGE_DATA_SIZE" using words_okD(2) page_okD(3) [OF ok] by blast
  have r: "pg_data_size pg + keylen b + vallen b \<le> ASL_MSG_PAGE_DATA_SIZE"
    using room ds by (simp add: kv_total_def)
  note step0 = slot_stepD [OF store_step [OF ok st le s]]
  have new: "p \<notin> page_ptrs pg" if "p = 0 \<or> allocs st < p" for p
    using page_ptr_str [OF ok, of p] page_ptr_old [OF ok st, of p] that by auto
  have k0: "extkey b = 0 \<or> allocs st < extkey b" "extval b = 0 \<or> allocs st < extval b"
    using b by (auto simp: space_ok_def image_ok_def split: if_splits option.splits)
  obtain pg1 where p1: "fill_key ?kx key b s pg = Some pg1"
    "slot_upd H s (Some (key, None, get_slot_op pg s)) ({extkey b} - {0}) st1 pg st1 pg1"
    "pg_data_size pg1 = pg_data_size pg + keylen b" "pg_kvo pg1 ! s \<noteq> ASL_MSG_SLOT_FREE"
    "pg_kvo pg1 ! (s + page_slots pg) = pg_kvo pg ! (s + page_slots pg)" "pg_count pg1 = pg_count pg"
    using fill_key_upd [OF step0(1) s v key(1) refl, where st = st and b = b] b r new [OF k0(1)] by (auto simp: space_ok_def)
  have q1: "page_ok H st1 pg1" "pg_type pg1 = pg_type pg" "page_ptrs pg1 \<subseteq> page_ptrs pg \<union> ({extkey b} - {0})"
    "slot_entry H st1 pg1 s = Some (key, None, get_slot_op pg s)"
    using p1(2) by (simp_all add: slot_upd_def)
  have "extval b \<notin> page_ptrs pg1"
    using q1(3) new [OF k0(2)] b by (auto simp: space_ok_def)
  then obtain pg2 where p2: "fill_val val b s pg1 = Some pg2"
    "slot_upd H s (Some (key, val, get_slot_op pg s)) ({extval b} - {0}) st1 pg1 st1 pg2"
    "pg_count pg2 = pg_count pg"
    using fill_val_upd [OF q1(1) _ _ p1(4) q1(4) key(2), where st = st and b = b] b r p1(3,5,6) q1(2) s page_okD(6) [OF ok s v]
    by (auto simp: space_ok_def)
  have u: "slot_upd H s (Some (key, val, get_slot_op pg s)) {p. allocs st < p} st1 pg st1 pg2"
    using slot_upd_trans [OF p1(2) p2(2)] k0 by (auto simp: slot_upd_def)
  then have ok2: "page_ok H st1 pg2" "s < page_slots pg2" using s by (simp_all add: slot_upd_def)
  note op = update_op [OF ok2, where x = opw]
  have "slot_step H s (Some (key, val, if pg_type pg = TYPE_QUERY then opw else 0)) st pg st1 (set_slot_op s opw pg2)"
    using u op ok2(2) step0(6) le' by (simp add: slot_step_def slot_upd_def)
  moreover have "pg_count (set_slot_op s opw pg2) = pg_count pg"
    using p2(3) slot_access(5) [OF ok2(2)] by simp
  ultimately show ?thesis using p1(1) p2(1) by (simp add: fill_slot_def Let_def)
qed

section \<open>Replacing a value\<close>

definition new_len :: "string \<Rightarrow> nat" where
  "new_len val = (if Suc (length val) > ASL_MSG_PAGE_DATA_SIZE then 8 else Suc (length val))"

abbreviation val_free :: "nat \<Rightarrow> asl_page \<Rightarrow> asl_page" where
  "val_free s pg \<equiv> pg\<lparr>pg_kvo := (pg_kvo pg)[s + page_slots pg := ASL_MSG_SLOT_FREE]\<rparr>"

lemma upd_op_msg [simp]: "pg_type pg = TYPE_MSG \<Longrightarrow> upd_op opv s pg = pg"
  by (simp add: upd_op_def set_slot_op_def)

lemma slot_step_mem_kvo [simp]:
  "slot_step H s e st pg st' (pg'\<lparr>pg_mem_size := m, pg_kvo := ws\<rparr>) =
   slot_step H s e st pg st' (pg'\<lparr>pg_kvo := ws\<rparr>)"
proof -
  have "pg'\<lparr>pg_mem_size := m, pg_kvo := ws\<rparr> = pg'\<lparr>pg_kvo := ws, pg_mem_size := m\<rparr>" by simp
  then show ?thesis by (metis slot_step_sizes(1))
qed

lemma slot_step_size_kvo [simp]:
  "slot_step H s e st pg st' (pg'\<lparr>pg_data_size := x, pg_kvo := ws\<rparr>) =
   slot_step H s e st pg st' (pg'\<lparr>pg_kvo := ws, pg_data_size := x\<rparr>)"
proof -
  have "pg'\<lparr>pg_data_size := x, pg_kvo := ws\<rparr> = pg'\<lparr>pg_kvo := ws, pg_data_size := x\<rparr>" by simp
  then show ?thesis by metis
qed

lemma apart_mono: "apart o1 l1 o2 l2 \<Longrightarrow> l1' \<le> l1 \<Longrightarrow> apart o1 l1' o2 l2"
  by (auto simp: apart_def)

text \<open>
  The new value is stored where no other word has its string: the slot counts as one without a
  value, whatever its word still is.
\<close>

lemma put_val_step:
  assumes ok: "page_ok H st (val_free s pg)" and st: "store_ok st" "mem_left st" and s: "s < page_slots pg"
    and k: "pg_kvo pg ! s \<noteq> ASL_MSG_SLOT_FREE" and val: "cstring val"
    and len: "i + new_len val \<le> ds'" "pg_data_size pg \<le> ds'" "ds' \<le> ASL_MSG_PAGE_DATA_SIZE"
    and free: "\<And>j. j < 2 * page_slots pg \<Longrightarrow> j \<noteq> s + page_slots pg \<Longrightarrow>
      apart i (new_len val) (kv_off (pg_kvo pg ! j)) (word_len (pg_data pg) (pg_kvo pg ! j))"
  obtains st' pg' where
    "put_val val (Suc (length val) > ASL_MSG_PAGE_DATA_SIZE) (new_len val) i s st (pg\<lparr>pg_data_size := ds'\<rparr>) =
       Some (True, st', pg')"
    "slot_step H s (map_option (\<lambda>(k, v, opv). (k, Some val, opv)) (slot_entry H st (val_free s pg) s)) st (val_free s pg) st' pg'"
    "pg_count pg' = pg_count pg"
proof -
  let ?g = "val_free s pg" and ?j = "s + page_slots pg"
  have kl: "length (pg_kvo pg) = 30" "page_slots pg \<le> 15"
    using page_okD(2) [OF ok] type_slots_le(1) [of "pg_type pg"] by simp_all
  have dl: "length (pg_data pg) = 220" using words_okD(1) page_okD(3) [OF ok] by fastforce
  have fv: "pg_kvo ?g ! (s + page_slots ?g) = ASL_MSG_SLOT_FREE" "pg_kvo ?g ! s \<noteq> ASL_MSG_SLOT_FREE"
    using kl s k by simp_all
  have ap: "apart i (new_len val) (kv_off (pg_kvo ?g ! j)) (word_len (pg_data ?g) (pg_kvo ?g ! j))"
    if "j < 2 * page_slots ?g" "j \<noteq> s + page_slots ?g" for j
    using free [of j] that by simp
  have sl: "s < page_slots ?g" using s by simp
  show thesis
  proof (cases "Suc (length val) > ASL_MSG_PAGE_DATA_SIZE")
    case False
    then have n: "new_len val = length (str_cells val)" by (simp add: new_len_def)
    obtain d' where d: "put_cells i (str_cells val) (pg_data pg) = Some d'"
      using put_cells_Some [of i "str_cells val" "pg_data pg"] len n dl by auto
    have "slot_upd H s (map_option (\<lambda>(k, v, opv). (k, Some val, opv)) (slot_entry H st ?g s)) {} st ?g st
        (?g\<lparr>pg_kvo := (pg_kvo ?g)[s + page_slots ?g := of_nat i], pg_data := d', pg_data_size := ds'\<rparr>)"
      by (rule occupy_val [where cs = "str_cells val", OF ok sl _ fv val _ _ _ _ len(3)])
        (use d len ap [unfolded n] in \<open>simp_all add: str_image_def n\<close>)
    then have "slot_step H s (map_option (\<lambda>(k, v, opv). (k, Some val, opv)) (slot_entry H st ?g s)) st ?g st
        (pg\<lparr>pg_kvo := (pg_kvo pg)[?j := of_nat i], pg_data := d', pg_data_size := ds'\<rparr>)"
      by (auto simp: slot_step_def slot_upd_def)
    then show thesis
      by (rule that [rotated]) (use False d n s in \<open>simp_all add: put_val_def copy_in_def slot_access(4)\<close>)
  next
    case True
    then have n: "new_len val = 8" by (simp add: new_len_def)
    let ?p = "Suc (allocs st)"
    let ?st = "st\<lparr>allocs := ?p, ext := (ext st)(?p := Some val)\<rparr>"
    note sd = strdup_left [OF st(2), of val]
    have le: "store_le {} st ?st" by (rule store_le_strdup)
    note step0 = slot_stepD [OF store_step [OF ok st(1) le sl]]
    have new: "?p \<notin> page_ptrs ?g" using page_ptr_old [OF ok st(1), of ?p] by auto
    obtain d' where d: "put_cells i (ptr_cells ?p) (pg_data pg) = Some d'"
      using put_cells_Some [of i "ptr_cells ?p" "pg_data pg"] len n dl by auto
    have "slot_upd H s (map_option (\<lambda>(k, v, opv). (k, Some val, opv)) (slot_entry H ?st ?g s)) {?p} ?st ?g ?st
        (?g\<lparr>pg_kvo := (pg_kvo ?g)[s + page_slots ?g := of_nat i OR ASL_MSG_KV_EXTERN], pg_data := d', pg_data_size := ds'\<rparr>)"
      by (rule occupy_val [where cs = "ptr_cells ?p", OF step0(1) sl _ fv val _ _ _ _ len(3)])
        (use d len new ap [unfolded n] in \<open>simp_all add: str_image_def n\<close>)
    then have "slot_step H s (map_option (\<lambda>(k, v, opv). (k, Some val, opv)) (slot_entry H st ?g s)) st ?g ?st
        (pg\<lparr>pg_kvo := (pg_kvo pg)[?j := of_nat i OR ASL_MSG_KV_EXTERN], pg_data := d', pg_data_size := ds'\<rparr>)"
      using step0(3,5,6) by (auto simp: slot_step_def slot_upd_def)
    then have "slot_step H s (map_option (\<lambda>(k, v, opv). (k, Some val, opv)) (slot_entry H st ?g s)) st ?g ?st
        (pg\<lparr>pg_kvo := (pg_kvo pg)[?j := of_nat i OR ASL_MSG_KV_EXTERN], pg_data := d', pg_data_size := ds',
            pg_mem_size := pg_mem_size pg + of_nat (length val + 1)\<rparr>)"
      by simp
    then show thesis
      by (rule that [rotated]) (use True d n s sd in \<open>simp_all add: put_val_def slot_access(4)\<close>)
  qed
qed

text \<open>
  The result on the page: the slot has the new value, or the page has no room and its slot, the
  word of the value set aside, has none.
\<close>

definition set_outcome :: "asl_h \<Rightarrow> nat \<Rightarrow> string \<Rightarrow> string option \<Rightarrow> 16 word \<Rightarrow> asl_store \<Rightarrow> asl_page \<Rightarrow>
    set_result \<Rightarrow> asl_store \<Rightarrow> asl_page \<Rightarrow> bool" where
  "set_outcome H s k val opw st pg res st' pg' \<longleftrightarrow>
     pg_count pg' = pg_count pg \<and>
     (res = Done 0 \<and> slot_step H s (Some (k, val, opw)) st pg st' pg' \<or>
      res = NoRoom \<and> slot_step H s (Some (k, None, opw)) st pg st' (val_free s pg') \<and>
        pg_type pg' = pg_type pg \<and> length (pg_kvo pg') = ASL_MSG_KVO_COUNT \<and>
        pg_kvo pg' ! s \<noteq> ASL_MSG_SLOT_FREE)"

lemma page_bounds:
  assumes "page_ok H st pg"
  shows "length (pg_kvo pg) = 30" "page_slots pg \<le> 15" "pg_data_size pg \<le> 220" "length (pg_data pg) = 220"
  using page_okD(2,3) [OF assms] words_okD(1,2) type_slots_le(1) [of "pg_type pg"] by fastforce+

lemma slot_step_store_ok:
  "slot_step H s e st pg st' pg' \<Longrightarrow> store_ok st \<Longrightarrow> store_ok st'"
  "slot_step H s e st pg st' pg' \<Longrightarrow> mem_left st \<Longrightarrow> mem_left st'"
  using store_le_mem_left by (auto simp: slot_step_def store_le_def)

lemma append_val:
  assumes step: "slot_step H s (Some (k, None, opw)) st0 pg0 st (val_free s pg)"
    and pg0: "s < page_slots pg0" "pg_count pg = pg_count pg0" "pg_type pg = TYPE_MSG"
    and st: "store_ok st" "mem_left st"
    and k: "pg_kvo pg ! s \<noteq> ASL_MSG_SLOT_FREE" and val: "cstring val"
  obtains res st' pg' where
    "(if new_len val \<le> ASL_MSG_PAGE_DATA_SIZE - pg_data_size pg
      then do { r \<leftarrow> put_val val (Suc (length val) > ASL_MSG_PAGE_DATA_SIZE) (new_len val) (pg_data_size pg) s st
                      (pg\<lparr>pg_data_size := pg_data_size pg + new_len val\<rparr>);
                Some (stored opv s r) }
      else Some (NoRoom, st, pg)) = Some (res, st', pg')"
    "set_outcome H s k (Some val) opw st0 pg0 res st' pg'"
proof -
  let ?g = "val_free s pg"
  have ok: "page_ok H st ?g" and ty: "pg_type pg = pg_type pg0" and e: "slot_entry H st ?g s = Some (k, None, opw)"
    using slot_stepD(1,2,5) [OF step] by simp_all
  have s: "s < page_slots pg" using pg0(1) ty by simp
  note b = page_bounds [OF ok, simplified]
  show thesis
  proof (cases "new_len val \<le> ASL_MSG_PAGE_DATA_SIZE - pg_data_size pg")
    case True
    have below: "apart (pg_data_size pg) (new_len val) (kv_off (pg_kvo pg ! j)) (word_len (pg_data pg) (pg_kvo pg ! j))"
      if "j < 2 * page_slots pg" "j \<noteq> s + page_slots pg" for j
    proof -
      have "pg_kvo ?g ! j = pg_kvo pg ! j" using that by simp
      then show ?thesis
        using words_below [OF page_okD(3) [OF ok], of "pg_data_size pg" j "new_len val"] page_okD(4) [OF ok] that(1)
          page_words_nth [of j ?g] by simp
    qed
    obtain st' pg' where p: "put_val val (Suc (length val) > ASL_MSG_PAGE_DATA_SIZE) (new_len val) (pg_data_size pg) s st
        (pg\<lparr>pg_data_size := pg_data_size pg + new_len val\<rparr>) = Some (True, st', pg')"
      "slot_step H s (map_option (\<lambda>(k, v, opv). (k, Some val, opv)) (slot_entry H st ?g s)) st ?g st' pg'"
      "pg_count pg' = pg_count pg"
      by (rule put_val_step [OF ok st s k val _ _ _ below, where ds' = "pg_data_size pg + new_len val"])
        (use True b in auto)
    have t: "pg_type pg' = TYPE_MSG" using slot_stepD(2) [OF p(2)] pg0(3) by simp
    have "slot_step H s (Some (k, Some val, opw)) st0 pg0 st' pg'"
      using slot_step_trans [OF step p(2)] e by simp
    then show thesis
      by (intro that [of "Done 0" st' pg'])
        (use True p(1,3) t pg0 in \<open>simp_all add: stored_def set_outcome_def\<close>)
  next
    case False
    then show thesis
      using step pg0 ty k b by (intro that [of NoRoom st pg]) (simp_all add: set_outcome_def)
  qed
qed

text \<open>The value of a slot as \<open>_asl_msg_set_kvo\<close> finds it.\<close>

lemma old_value_read:
  assumes ok: "page_ok H st pg" and s: "s < page_slots pg"
  obtains "pg_kvo pg ! (s + page_slots pg) = ASL_MSG_SLOT_FREE" "old_value pg s = Some no_val"
  | str where "pg_kvo pg ! (s + page_slots pg) \<noteq> ASL_MSG_SLOT_FREE"
      "old_value pg s = Some (no_val\<lparr>intval := Some str, intvallen := Suc (length str)\<rparr>)"
      "word_str H st (pg_data pg) (pg_kvo pg ! (s + page_slots pg)) = Some str"
      "word_len (pg_data pg) (pg_kvo pg ! (s + page_slots pg)) = Suc (length str)"
      "word_ptr (pg_data pg) (pg_kvo pg ! (s + page_slots pg)) = None"
  | p str where "pg_kvo pg ! (s + page_slots pg) \<noteq> ASL_MSG_SLOT_FREE"
      "old_value pg s = Some (no_val\<lparr>ptrval := p, ptrvallen := 8\<rparr>)" "p \<noteq> 0" "ext st p = Some str"
      "word_str H st (pg_data pg) (pg_kvo pg ! (s + page_slots pg)) = Some str"
      "word_len (pg_data pg) (pg_kvo pg ! (s + page_slots pg)) = 8"
      "word_ptr (pg_data pg) (pg_kvo pg ! (s + page_slots pg)) = Some p"
proof -
  let ?v = "pg_kvo pg ! (s + page_slots pg)" and ?d = "pg_data pg"
  have w: "word_ok H st ?d (pg_data_size pg) ?v" using page_word_ok [OF ok] s by simp
  show thesis
  proof (cases "?v = ASL_MSG_SLOT_FREE")
    case True
    then show thesis using that(1) slot_access(2) [OF s] by (simp add: old_value_def)
  next
    case False
    then obtain str where str: "word_str H st ?d ?v = Some str" "cstring str" using w by (auto simp: word_ok_def)
    show thesis
    proof (cases "kv_type ?v = ASL_MSG_KV_EXTERN")
      case True
      then obtain p where p: "read_ptr ?d (kv_off ?v) = Some p" "ext st p = Some str"
        using str by (auto simp: word_str_def bind_eq_Some_conv)
      then have "p \<noteq> 0" using True w by (auto simp: word_ok_def word_ptr_def)
      with p True False str show thesis
        using that(3) slot_access(2) [OF s] by (simp add: old_value_def word_len_def word_ptr_def)
    next
      case F: False
      then have i: "kv_type ?v = ASL_MSG_KV_INLINE" "str_at ?d (unat ?v) = Some str"
        using str(1) page_okD(5) [OF ok s] by (auto simp: word_str_def split: if_splits)
      then show thesis
        using that(2) [of str] False F str slot_access(2) [OF s] cstring_len(2) [OF str(2)]
        by (simp add: old_value_def word_len_def word_ptr_def)
    qed
  qed
qed

lemma slot_step_shrink:
  assumes "slot_step H s e st pg st' pg'" "ds' \<le> pg_data_size pg'"
    and "\<And>j. j < 2 * page_slots pg' \<Longrightarrow> word_len (pg_data pg') (pg_kvo pg' ! j) \<noteq> 0 \<Longrightarrow>
      kv_off (pg_kvo pg' ! j) + word_len (pg_data pg') (pg_kvo pg' ! j) \<le> ds'"
  shows "slot_step H s e st pg st' (pg'\<lparr>pg_data_size := ds'\<rparr>)"
proof -
  let ?pg = "pg'\<lparr>pg_data_size := ds'\<rparr>"
  have ok: "page_ok H st' pg'" using slot_stepD(1) [OF assms(1)] .
  have "words_ok H st' (pg_data pg') ds' (page_words pg')"
    using words_shrink [OF page_okD(3) [OF ok] assms(2)] assms(3) page_okD(4) [OF ok]
    by (simp add: page_words_nth)
  then have "page_ok H st' ?pg" using page_okD [OF ok] by (simp add: page_ok_def page_words_def)
  moreover have "page_ptrs ?pg = page_ptrs pg'" by (simp add: page_ptrs_def page_words_def)
  moreover have "slot_entry H st' ?pg i = slot_entry H st' pg' i" for i
    by (simp add: slot_entry_def get_slot_op_def)
  ultimately show ?thesis using assms(1) by (simp add: slot_step_def slot_upd_def)
qed

lemma release_tail:
  assumes ok: "page_ok H st pg" and s: "s < page_slots pg"
    and len: "L \<noteq> 0" "word_len (pg_data pg) (pg_kvo pg ! (s + page_slots pg)) = L"
      "kv_off (pg_kvo pg ! (s + page_slots pg)) + L = pg_data_size pg"
    and r: "\<And>q. r = Some q \<Longrightarrow> word_ptr (pg_data pg) (pg_kvo pg ! (s + page_slots pg)) = Some q"
  shows "slot_step H s (map_option (\<lambda>(k, v, opv). (k, None, opv)) (slot_entry H st pg s)) st pg (unref st r)
           ((val_free s pg)\<lparr>pg_data_size := pg_data_size pg - L\<rparr>)"
proof -
  let ?j = "s + page_slots pg"
  note b = page_bounds [OF ok]
  have "kv_off (pg_kvo (val_free s pg) ! j) + word_len (pg_data pg) (pg_kvo (val_free s pg) ! j) \<le> pg_data_size pg - L"
    if j: "j < 2 * page_slots pg" and n: "word_len (pg_data pg) (pg_kvo (val_free s pg) ! j) \<noteq> 0" for j
  proof -
    have jn: "j \<noteq> ?j" using n s b(1,2) by auto
    then have w: "pg_kvo (val_free s pg) ! j = pg_kvo pg ! j" by simp
    have j': "j < length (page_words pg)" "?j < length (page_words pg)" using j s page_okD(4) [OF ok] by simp_all
    have "apart (kv_off (pg_kvo pg ! j)) (word_len (pg_data pg) (pg_kvo pg ! j)) (kv_off (pg_kvo pg ! ?j)) L"
      using words_okD(4) [OF page_okD(3) [OF ok] j' jn] len(2) j s by (simp add: page_words_nth)
    moreover have "kv_off (pg_kvo pg ! j) + word_len (pg_data pg) (pg_kvo pg ! j) \<le> pg_data_size pg"
      using page_word_ok [OF ok j] n w by (simp add: word_ok_def)
    ultimately show ?thesis using n w len by (auto simp: apart_def)
  qed
  then show ?thesis
    by (intro slot_step_shrink [OF release_val [OF ok s r]]) simp_all
qed

lemma change_val_outcome:
  assumes ok: "page_ok H st pg" and s: "s < page_slots pg" and ty: "pg_type pg = TYPE_MSG"
    and st: "store_ok st" "mem_left st" and val: "cstring val"
    and e: "slot_entry H st pg s = Some (k, v, opw)"
    and ov: "old_value pg s = Some ov"
  obtains res st' pg' where "change_val val opv s ov st pg = Some (res, st', pg')"
    "set_outcome H s k (Some val) opw st pg res st' pg'"
proof -
  note result = that
  let ?j = "s + page_slots pg" and ?d = "pg_data pg"
  let ?w = "pg_kvo pg ! ?j" and ?ext = "Suc (length val) > ASL_MSG_PAGE_DATA_SIZE"
  let ?i = "kv_off ?w" and ?n = "new_len val"
  note b = page_bounds [OF ok]
  have kf: "pg_kvo pg ! s \<noteq> ASL_MSG_SLOT_FREE" using e by (auto simp: slot_entry_def split: if_splits)
  have gv: "get_slot_val pg s = ?w" using slot_access(2) [OF s] .
  have nl: "(length val + 1) mod 2 ^ 32 = Suc (length val)" using cstring_len(2) [OF val] by simp
  have n0: "?n > 0" by (simp add: new_len_def)
  have others: "apart ?i L (kv_off (pg_kvo pg ! j)) (word_len ?d (pg_kvo pg ! j))"
    if "L \<le> word_len ?d ?w" "j < 2 * page_slots pg" "j \<noteq> ?j" for L j
    using words_okD(4) [OF page_okD(3) [OF ok], of ?j j] that page_okD(4) [OF ok] s
    by (auto simp: page_words_nth intro: apart_mono)
  have tail: thesis
    if a: "change_val val opv s ov st pg = (do { r \<leftarrow>
          (if ?n \<le> ASL_MSG_PAGE_DATA_SIZE - pg_data_size pg1
           then do { r \<leftarrow> put_val val ?ext ?n (pg_data_size pg1) s st1 (pg1\<lparr>pg_data_size := pg_data_size pg1 + ?n\<rparr>);
                     Some (stored opv s r) }
           else Some (NoRoom, st1, pg1)); Some r })"
      and step: "slot_step H s (Some (k, None, opw)) st pg st1 (val_free s pg1)"
      and c: "pg_count pg1 = pg_count pg" "pg_type pg1 = TYPE_MSG" "pg_kvo pg1 ! s \<noteq> ASL_MSG_SLOT_FREE" for st1 pg1
  proof -
    note so = slot_step_store_ok [OF step]
    show thesis
      by (rule append_val [where opv = opv, OF step s c(1,2) so(1) [OF st(1)] so(2) [OF st(2)] c(3) val]) (use a result in auto)
  qed
  have place: thesis
    if a: "change_val val opv s ov st pg = do { r \<leftarrow> put_val val ?ext ?n ?i s st1 (pg\<lparr>pg_mem_size := m\<rparr>); Some (stored opv s r) }"
      and st1: "st1 = unref st r" "\<And>q. r = Some q \<Longrightarrow> word_ptr ?d ?w = Some q"
      and L: "?n \<le> word_len ?d ?w" for st1 r m
  proof -
    have step: "slot_step H s (Some (k, None, opw)) st pg st1 (val_free s (pg\<lparr>pg_mem_size := m\<rparr>))"
      using release_val [OF ok s st1(2)] e st1(1) by simp
    note D = slot_stepD [OF step]
    have "word_len ?d ?w \<noteq> 0" using L n0 by simp
    then have "?i + word_len ?d ?w \<le> pg_data_size pg"
      using page_word_ok [OF ok, of ?j] s by (simp add: word_ok_def)
    then have room: "?i + ?n \<le> pg_data_size pg" using L by simp
    obtain st' pg' where p: "put_val val ?ext ?n ?i s st1 (pg\<lparr>pg_mem_size := m, pg_data_size := pg_data_size pg\<rparr>) =
        Some (True, st', pg')"
      "slot_step H s (map_option (\<lambda>(k, v, opv). (k, Some val, opv)) (slot_entry H st1 (val_free s (pg\<lparr>pg_mem_size := m\<rparr>)) s))
         st1 (val_free s (pg\<lparr>pg_mem_size := m\<rparr>)) st' pg'"
      "pg_count pg' = pg_count pg"
      by (rule put_val_step [OF D(1), where val = val and i = ?i and ds' = "pg_data_size pg"])
        (use slot_step_store_ok [OF step] st s kf val room b others [OF L] in auto)
    have t: "pg_type pg' = TYPE_MSG" using slot_stepD(2) [OF p(2)] ty by simp
    have "slot_step H s (Some (k, Some val, opw)) st pg st' pg'"
      using slot_step_trans [OF step p(2)] D(5) by simp
    then show thesis
      by (intro result [of "Done 0" st' pg']) (use a p(1,3) t in \<open>simp_all add: stored_def set_outcome_def\<close>)
  qed
  show thesis
  proof (cases rule: old_value_read [OF ok s])
    case 1
    then have "(pg_kvo pg)[?j := ASL_MSG_SLOT_FREE] = pg_kvo pg" by (metis list_update_id)
    then have "val_free s pg = pg" by simp
    moreover have "slot_step H s (Some (k, None, opw)) st pg st pg"
      using slot_step_refl [OF ok, of s] e 1 by (auto simp: slot_entry_def split: if_splits)
    ultimately show thesis
      by (intro tail [of pg st])
        (use 1 ov n0 nl gv ty kf in \<open>simp_all add: change_val_def shrink_tail_def no_val_def drop_extval_def new_len_def\<close>)
  next
    case (2 str)
    have ov': "ov = no_val\<lparr>intval := Some str, intvallen := Suc (length str)\<rparr>" using ov 2 by simp
    show thesis
    proof (cases "?i + Suc (length str) = pg_data_size pg")
      case True
      let ?pg = "(val_free s pg)\<lparr>pg_data_size := pg_data_size pg - Suc (length str)\<rparr>"
      have "slot_step H s (Some (k, None, opw)) st pg st ?pg"
        using release_tail [OF ok s _ 2(4) True, of None] e by simp
      then show thesis
        by (intro tail [of ?pg st])
          (use True ov' n0 nl gv ty kf s in
            \<open>simp_all add: change_val_def shrink_tail_def no_val_def drop_extval_def new_len_def slot_access(4)\<close>)
    next
      case False
      show thesis
      proof (cases "?n \<le> Suc (length str)")
        case True
        then show thesis
          by (intro place [of st "pg_mem_size pg" None])
            (use False ov' nl gv 2 in \<open>simp_all add: change_val_def shrink_tail_def no_val_def drop_extval_def new_len_def\<close>)
      next
        case F: False
        have "slot_step H s (Some (k, None, opw)) st pg st (val_free s pg)"
          using release_val [OF ok s, of None] e by simp
        then show thesis
          by (intro tail [of pg st])
            (use F False ov' nl gv ty kf in
              \<open>simp_all add: change_val_def shrink_tail_def no_val_def drop_extval_def new_len_def\<close>)
      qed
    qed
  next
    case (3 p str)
    have ov': "ov = no_val\<lparr>ptrval := p, ptrvallen := 8\<rparr>" using ov 3 by simp
    have own: "p \<in> page_ptrs pg" using 3 s page_ptrs_iff [OF ok] by force
    show thesis
    proof (cases "?i + 8 = pg_data_size pg")
      case True
      let ?pg = "(val_free s pg)\<lparr>pg_data_size := pg_data_size pg - 8\<rparr>"
      obtain m where m: "drop_ext p st ?pg = Some (unref st (Some p), ?pg\<lparr>pg_mem_size := m\<rparr>)"
        using drop_ext_owned [OF ok own] by blast
      have "slot_step H s (Some (k, None, opw)) st pg (unref st (Some p)) (val_free s (?pg\<lparr>pg_mem_size := m\<rparr>))"
        using release_tail [OF ok s _ 3(6) True, of "Some p"] e 3(7) by simp
      then show thesis
        by (intro tail [of "?pg\<lparr>pg_mem_size := m\<rparr>" "unref st (Some p)"])
          (use True ov' n0 nl gv ty kf s m 3(3) in
            \<open>simp_all add: change_val_def shrink_tail_def no_val_def drop_extval_def new_len_def slot_access(4)\<close>)
    next
      case False
      obtain m where m: "drop_ext p st pg = Some (unref st (Some p), pg\<lparr>pg_mem_size := m\<rparr>)"
        using drop_ext_owned [OF ok own] by blast
      show thesis
      proof (cases "?n \<le> 8")
        case True
        then show thesis
          by (intro place [of "unref st (Some p)" m "Some p"])
            (use False ov' nl gv 3 m in \<open>simp_all add: change_val_def shrink_tail_def no_val_def drop_extval_def new_len_def\<close>)
      next
        case F: False
        have "slot_step H s (Some (k, None, opw)) st pg (unref st (Some p)) (val_free s (pg\<lparr>pg_mem_size := m\<rparr>))"
          using release_val [OF ok s, of "Some p"] e 3(7) by simp
        then show thesis
          by (intro tail [of "pg\<lparr>pg_mem_size := m\<rparr>" "unref st (Some p)"])
            (use F False ov' nl gv ty kf m 3(3) in
              \<open>simp_all add: change_val_def shrink_tail_def no_val_def drop_extval_def new_len_def\<close>)
      qed
    qed
  qed
qed

lemma slot_val_str:
  "slot_entry H st pg s = Some (k, v, opw) \<Longrightarrow> v = word_str H st (pg_data pg) (pg_kvo pg ! (s + page_slots pg))"
  by (auto simp: slot_entry_def split: if_splits)

lemma replace_val_outcome:
  assumes ok: "page_ok H st pg" and s: "s < page_slots pg" and ty: "pg_type pg = TYPE_MSG"
    and st: "store_ok st" "mem_left st" and val: "\<And>v. val = Some v \<Longrightarrow> cstring v"
    and e: "slot_entry H st pg s = Some (k, v, opw)"
  obtains res st' pg' where "replace_val val opv s st pg = Some (res, st', pg')"
    "set_outcome H s k val opw st pg res st' pg'"
proof -
  note result = that
  let ?w = "pg_kvo pg ! (s + page_slots pg)"
  note v = slot_val_str [OF e]
  show thesis
  proof (cases val)
    case None
    have removed: thesis
      if "replace_val val opv s st pg = Some (Done 0, unref st r, upd_op opv s (set_slot_val s ASL_MSG_SLOT_FREE (pg\<lparr>pg_mem_size := m\<rparr>)))"
        "\<And>q. r = Some q \<Longrightarrow> word_ptr (pg_data pg) ?w = Some q" for r m
      using that release_val [OF ok s that(2)] e None ty s
      by (intro result [of "Done 0" "unref st r" "val_free s (pg\<lparr>pg_mem_size := m\<rparr>)"])
        (simp_all add: set_outcome_def slot_access(4))
    show thesis
    proof (cases rule: old_value_read [OF ok s])
      case 1
      then show thesis
        using None by (intro removed [of None "pg_mem_size pg"]) (simp_all add: replace_val_def drop_extval_def no_val_def)
    next
      case (2 str)
      then show thesis
        using None by (intro removed [of None "pg_mem_size pg"]) (simp_all add: replace_val_def drop_extval_def no_val_def)
    next
      case (3 p str)
      have own: "p \<in> page_ptrs pg" using 3 s page_ptrs_iff [OF ok] by force
      obtain m where "drop_ext p st pg = Some (unref st (Some p), pg\<lparr>pg_mem_size := m\<rparr>)"
        using drop_ext_owned [OF ok own] by blast
      then show thesis
        using None 3 by (intro removed [of "Some p" m]) (simp_all add: replace_val_def drop_extval_def no_val_def)
    qed
  next
    case (Some new)
    have same: thesis if "replace_val val opv s st pg = Some (Done 0, st, upd_op opv s pg)" "v = Some new"
      using that slot_step_refl [OF ok, of s] e Some ty
      by (intro result [of "Done 0" st pg]) (simp_all add: set_outcome_def)
    have change: thesis if "replace_val val opv s st pg = change_val new opv s ov st pg" "old_value pg s = Some ov" for ov
      by (rule change_val_outcome [OF ok s ty st val [OF Some] e that(2), of opv])
        (use result that Some in auto)
    show thesis
    proof (cases rule: old_value_read [OF ok s])
      case 1
      then show thesis using Some by (intro change) (simp_all add: replace_val_def no_val_def)
    next
      case (2 str)
      then show thesis
      proof (cases "str = new")
        case True
        then show thesis using 2 Some v by (intro same) (simp_all add: replace_val_def)
      next
        case False
        then show thesis using 2 Some by (intro change) (simp_all add: replace_val_def no_val_def)
      qed
    next
      case (3 p str)
      then show thesis
      proof (cases "str = new")
        case True
        then show thesis using 3 Some v by (intro same) (simp_all add: replace_val_def no_val_def)
      next
        case False
        then show thesis using 3 Some by (intro change) (simp_all add: replace_val_def no_val_def)
      qed
    qed
  qed
qed

section \<open>Freeing a slot\<close>

lemma word_str_junk [simp]: "word_str H (st\<lparr>junk_reads := n\<rparr>) d w = word_str H st d w"
  by (simp add: word_str_def)

lemma page_junk [simp]:
  "page_ok H (st\<lparr>junk_reads := n\<rparr>) pg = page_ok H st pg"
  "slot_entry H (st\<lparr>junk_reads := n\<rparr>) pg s = slot_entry H st pg s"
  by (simp_all add: page_ok_def words_ok_def word_ok_def key_canon_def slot_entry_def)

lemma slot_step_junk [simp]:
  "slot_step H s e st pg (st'\<lparr>junk_reads := n\<rparr>) pg' = slot_step H s e st pg st' pg'"
  by (simp add: slot_step_def slot_upd_def store_le_def store_ok_def)

definition junk_ok :: "asl_store \<Rightarrow> bool" where
  "junk_ok st \<longleftrightarrow> (\<forall>i. kv_type (junk st i) \<noteq> ASL_MSG_KV_EXTERN)"

text \<open>
  The entry that found no room is given up. Where the variable that was never assigned does not look like
  an external key, the slot is free after it; the count of the page stays.
\<close>

lemma free_entry_step:
  assumes step: "slot_step H s (Some (k, None, opw)) st0 pg0 st (val_free s pg)" "pg_type pg = TYPE_MSG"
    and s: "s < page_slots pg" and j: "junk_ok st"
  shows "\<exists>st' pg'. free_entry s st pg = Some (st', pg') \<and> slot_step H s None st0 pg0 st' pg' \<and>
    pg_count pg' = pg_count pg \<and> st' = st\<lparr>junk_reads := Suc (junk_reads st)\<rparr>"
proof -
  let ?st = "st\<lparr>junk_reads := Suc (junk_reads st)\<rparr>"
  note ok = slot_stepD(1) [OF step(1)]
  have b: "length (pg_kvo pg) = 30" "page_slots pg \<le> 15" using page_bounds [OF ok] by simp_all
  let ?pg = "pg\<lparr>pg_kvo := (pg_kvo pg)[s := ASL_MSG_SLOT_FREE, s + page_slots pg := ASL_MSG_SLOT_FREE]\<rparr>"
  have "slot_step H s None st (val_free s pg) st ((val_free s pg)\<lparr>pg_kvo := (pg_kvo (val_free s pg))[s := ASL_MSG_SLOT_FREE]\<rparr>)"
    using release_key [OF ok, of s None] s b by simp
  from slot_step_trans [OF step(1) this] have "slot_step H s None st0 pg0 st ?pg"
    using s b by (simp add: list_update_swap)
  then have "slot_step H s None st0 pg0 ?st ?pg" by simp
  moreover have "free_entry s st pg = Some (?st, ?pg)"
    using j step(2) s b
    by (simp add: free_entry_def read_junk_def junk_ok_def slot_access set_slot_op_def)
  ultimately show ?thesis by simp
qed

lemma drop_word_ok:
  assumes "word_ok H st (pg_data pg) ds w"
  obtains m where "drop_word w (st, pg) = Some (unref st (word_ptr (pg_data pg) w), pg\<lparr>pg_mem_size := m\<rparr>)"
proof (cases "kv_type w = ASL_MSG_KV_EXTERN")
  case False
  then show ?thesis using that [of "pg_mem_size pg"] by (simp add: drop_word_def word_ptr_def)
next
  case True
  have "w \<noteq> ASL_MSG_SLOT_FREE" using True by auto
  then obtain p s where p: "read_ptr (pg_data pg) (kv_off w) = Some p" "ext st p = Some s"
    using True assms by (auto simp: word_ok_def word_str_def bind_eq_Some_conv)
  then have wp: "word_ptr (pg_data pg) w = Some p" using True by (simp add: word_ptr_def)
  then have "p \<noteq> 0" using assms by (auto simp: word_ok_def)
  then have "drop_ext p st pg = Some (unref st (Some p), pg\<lparr>pg_mem_size := pg_mem_size pg - of_nat (length s + 1)\<rparr>)"
    using p by (simp add: drop_ext_def ext_str_def free_ext_def unref_def)
  then show ?thesis using that True p wp by (simp add: drop_word_def)
qed

lemma unref_commute: "unref (unref st a) b = unref (unref st b) a"
  by (cases a; cases b) (simp_all add: unref_def fun_upd_twist, metis fun_upd_twist fun_upd_idem_iff)

lemma unset_page_slot_step:
  assumes ok: "page_ok H st pg" and s: "s < page_slots pg"
  obtains st' pg' where "unset_page_slot s st pg = Some (st', pg')" "slot_step H s None st pg st' pg'"
    "pg_count pg' = (if pg_kvo pg ! s = ASL_MSG_SLOT_FREE then pg_count pg else pg_count pg - 1)"
proof (cases "pg_kvo pg ! s = ASL_MSG_SLOT_FREE")
  case True
  then show ?thesis
    using that [of st pg] s slot_step_refl [OF ok, of s] by (simp add: unset_page_slot_def slot_access slot_entry_def)
next
  case False
  let ?j = "s + page_slots pg" and ?d = "pg_data pg"
  let ?k = "pg_kvo pg ! s" and ?v = "pg_kvo pg ! ?j"
  note b = page_bounds [OF ok]
  have wk: "word_ok H st ?d (pg_data_size pg) ?k" and wv: "word_ok H st ?d (pg_data_size pg) ?v"
    using page_word_ok [OF ok] s by simp_all
  obtain m where m: "drop_word ?k (st, pg) = Some (unref st (word_ptr ?d ?k), pg\<lparr>pg_mem_size := m\<rparr>)"
    using drop_word_ok [OF wk] .
  let ?st1 = "unref st (word_ptr ?d ?k)"
  have e: "ext ?st1 p = ext st p" if "word_ptr ?d ?v = Some p" for p
    using others_not_freed [OF ok, of s ?j p "word_ptr ?d ?k"] that s page_okD(4) [OF ok]
    by (simp add: page_words_nth)
  have "word_ok H ?st1 ?d (pg_data_size pg) ?v" using word_ok_frame [OF wv order_refl refl e] .
  then obtain m' where m': "drop_word ?v (?st1, pg\<lparr>pg_mem_size := m\<rparr>) =
      Some (unref ?st1 (word_ptr ?d ?v), pg\<lparr>pg_mem_size := m'\<rparr>)"
    using drop_word_ok [of H ?st1 "pg\<lparr>pg_mem_size := m\<rparr>" "pg_data_size pg" ?v] by auto
  let ?st2 = "unref ?st1 (word_ptr ?d ?v)"
  let ?pg = "pg\<lparr>pg_kvo := (pg_kvo pg)[?j := ASL_MSG_SLOT_FREE, s := ASL_MSG_SLOT_FREE]\<rparr>"
  have s1: "slot_step H s (map_option (\<lambda>(k, v, opv). (k, None, opv)) (slot_entry H st pg s)) st pg
      (unref st (word_ptr ?d ?v)) (val_free s pg)"
    by (rule release_val [OF ok s]) simp
  note ok1 = slot_stepD(1) [OF s1]
  have "slot_step H s None (unref st (word_ptr ?d ?v)) (val_free s pg) ?st2 ?pg"
    using release_key [OF ok1, of s "word_ptr ?d ?k"] s b unref_commute [of st "word_ptr ?d ?k"] by simp
  from slot_step_trans [OF s1 this] have st2: "slot_step H s None st pg ?st2 ?pg" .
  have ok2: "page_ok H ?st2 ?pg" and s2: "s < page_slots ?pg" using slot_stepD(1) [OF st2] s by simp_all
  note op = update_op [OF ok2 s2, where x = 0]
  let ?pg3 = "set_slot_op s 0 ?pg"
  have st3: "slot_step H s None st pg ?st2 ?pg3"
    using st2 op s2 by (simp add: slot_step_def slot_upd_def)
  have eq: "set_slot_op s 0 (set_slot_val s ASL_MSG_SLOT_FREE (set_slot_key s ASL_MSG_SLOT_FREE (pg\<lparr>pg_mem_size := m'\<rparr>))) =
      ?pg3\<lparr>pg_mem_size := m'\<rparr>"
    using s b by (simp add: slot_access list_update_swap)
  have c: "pg_count ?pg3 = pg_count pg" using slot_access(5) [OF s2] by simp
  show ?thesis
  proof (rule that)
    show "unset_page_slot s st pg = Some (?st2, ?pg3\<lparr>pg_mem_size := m', pg_count := pg_count pg - 1\<rparr>)"
      using False s m m' eq c by (simp add: unset_page_slot_def slot_access(1,2) Let_def)
    show "slot_step H s None st pg ?st2 (?pg3\<lparr>pg_mem_size := m', pg_count := pg_count pg - 1\<rparr>)"
      using st3 by simp
  qed (use False in simp)
qed

end
