(* ===== verification/Asl_Msg_Correct.thy ===== *)
theory Asl_Msg_Correct
  imports Asl_Msg_Slots "HOL-Library.Multiset"
begin

text \<open>
  The message store is a type-safe store of entries. On a well-formed message (\<open>msg_ok\<close>), whose pages
  are well-formed and share no external string, every operation is defined and keeps it
  well-formed, and its effect on the entries, as a multiset of keys, values and operations, is the
  one the interface promises: a new value replaces the old one under the same key, a query gets
  one more entry, and all other entries and all other messages stay.
\<close>

section \<open>Well-formed messages and their entries\<close>

definition msg_ptrs :: "asl_msg \<Rightarrow> nat set" where
  "msg_ptrs msg = (\<Union>i<length msg. page_ptrs (msg ! i))"

definition msg_ok :: "asl_h \<Rightarrow> asl_store \<Rightarrow> asl_msg \<Rightarrow> bool" where
  "msg_ok H st msg \<longleftrightarrow>
     msg \<noteq> [] \<and> store_ok st \<and>
     (\<forall>i<length msg. page_ok H st (msg ! i) \<and> pg_type (msg ! i) = asl_msg_type msg) \<and>
     (\<forall>i<length msg. \<forall>j<length msg. i \<noteq> j \<longrightarrow> page_ptrs (msg ! i) \<inter> page_ptrs (msg ! j) = {})"

definition opt_mset :: "'a option \<Rightarrow> 'a multiset" where
  "opt_mset x = (case x of None \<Rightarrow> {#} | Some a \<Rightarrow> {#a#})"

lemma opt_mset_simps [simp]: "opt_mset None = {#}" "opt_mset (Some a) = {#a#}"
  by (simp_all add: opt_mset_def)

lemma in_opt_mset [simp]: "e \<in># opt_mset x \<longleftrightarrow> x = Some e"
  by (cases x) auto

definition page_entries :: "asl_h \<Rightarrow> asl_store \<Rightarrow> asl_page \<Rightarrow> kvo_entry multiset" where
  "page_entries H st pg = (\<Sum>s<page_slots pg. opt_mset (slot_entry H st pg s))"

definition msg_entries :: "asl_h \<Rightarrow> asl_store \<Rightarrow> asl_msg \<Rightarrow> kvo_entry multiset" where
  "msg_entries H st msg = (\<Sum>i<length msg. page_entries H st (msg ! i))"

text \<open>
  An operation on a message in a store that others share: the message stays well-formed, only its
  own strings are freed, and it owns none but those and new ones.
\<close>

definition msg_step :: "asl_h \<Rightarrow> asl_store \<Rightarrow> asl_msg \<Rightarrow> asl_store \<Rightarrow> asl_msg \<Rightarrow> bool" where
  "msg_step H st msg st' msg' \<longleftrightarrow>
     msg_ok H st' msg' \<and> asl_msg_type msg' = asl_msg_type msg \<and> store_le (msg_ptrs msg) st st' \<and>
     (\<forall>p\<in>msg_ptrs msg'. p \<in> msg_ptrs msg \<or> allocs st < p)"

lemma msg_okD:
  assumes "msg_ok H st msg"
  shows "msg \<noteq> []" "store_ok st" "i < length msg \<Longrightarrow> page_ok H st (msg ! i)"
    "i < length msg \<Longrightarrow> pg_type (msg ! i) = asl_msg_type msg"
    "i < length msg \<Longrightarrow> j < length msg \<Longrightarrow> i \<noteq> j \<Longrightarrow> page_ptrs (msg ! i) \<inter> page_ptrs (msg ! j) = {}"
  using assms by (auto simp: msg_ok_def)

lemma msg_stepD:
  assumes "msg_step H st msg st' msg'"
  shows "msg_ok H st' msg'" "asl_msg_type msg' = asl_msg_type msg" "store_le (msg_ptrs msg) st st'"
    "p \<in> msg_ptrs msg' \<Longrightarrow> p \<in> msg_ptrs msg \<or> allocs st < p"
  using assms by (auto simp: msg_step_def)

lemma msg_step_refl: "msg_ok H st msg \<Longrightarrow> msg_step H st msg st msg"
  by (simp add: msg_step_def)

lemma msg_step_trans:
  assumes a: "msg_step H st msg st1 msg1" and b: "msg_step H st1 msg1 st2 msg2"
  shows "msg_step H st msg st2 msg2"
proof -
  have le: "store_le (msg_ptrs msg) st st2"
    using store_le_trans [OF msg_stepD(3) [OF a] msg_stepD(3) [OF b]] msg_stepD(4) [OF a] by blast
  have al: "allocs st \<le> allocs st1" using msg_stepD(3) [OF a] by (simp add: store_le_def)
  have "p \<in> msg_ptrs msg \<or> allocs st < p" if "p \<in> msg_ptrs msg2" for p
    using msg_stepD(4) [OF b that] msg_stepD(4) [OF a, of p] al by auto
  then show ?thesis
    using le msg_stepD(2) [OF a] msg_stepD(1,2) [OF b] by (simp add: msg_step_def)
qed

lemma type_hd: "msg \<noteq> [] \<Longrightarrow> asl_msg_type msg = pg_type (msg ! 0)"
  by (cases msg) (simp_all add: asl_msg_type_def)

lemma slot_count_type: "msg \<noteq> [] \<Longrightarrow> slot_count msg = type_slots (asl_msg_type msg)"
  by (cases msg) (simp_all add: asl_msg_type_def slot_count_def)

lemma add_swap:
  fixes a b c d p q :: "'a::cancel_comm_monoid_add"
  assumes "a + p = b + q" "q + c = p + d"
  shows "a + c = b + d"
proof -
  have "(a + c) + p = (a + p) + c" by (simp only: ac_simps)
  also have "\<dots> = b + (q + c)" by (simp only: assms(1) add.assoc)
  also have "\<dots> = b + (p + d)" by (simp only: assms(2))
  also have "\<dots> = (b + d) + p" by (simp only: ac_simps)
  finally show ?thesis by simp
qed

lemma sum_swap:
  fixes f g :: "'a \<Rightarrow> 'b::comm_monoid_add"
  assumes "finite A" "a \<in> A" "\<And>x. x \<in> A \<Longrightarrow> x \<noteq> a \<Longrightarrow> f x = g x"
  shows "sum f A + g a = sum g A + f a"
proof -
  have "sum f (A - {a}) = sum g (A - {a})" using assms(3) by (intro sum.cong) auto
  then show ?thesis
    using sum.remove [OF assms(1,2), of f] sum.remove [OF assms(1,2), of g] by (simp add: ac_simps)
qed

text \<open>A step that no page of the message is involved in: entries and well-formedness are untouched.\<close>

lemma msg_store:
  assumes ok: "msg_ok H st msg" and le: "store_le own st st'" "own \<inter> msg_ptrs msg = {}"
  shows "msg_ok H st' msg" "msg_entries H st' msg = msg_entries H st msg"
proof -
  have p: "page_ok H st' (msg ! i) \<and> page_entries H st' (msg ! i) = page_entries H st (msg ! i)"
    if "i < length msg" for i
  proof -
    have "own \<inter> page_ptrs (msg ! i) = {}" using le(2) that by (auto simp: msg_ptrs_def)
    then show ?thesis
      using page_store [OF msg_okD(3) [OF ok that] msg_okD(2) [OF ok] le(1)]
      by (simp add: page_entries_def)
  qed
  then show "msg_ok H st' msg"
    using ok le(1) by (auto simp: msg_ok_def store_le_def)
  show "msg_entries H st' msg = msg_entries H st msg"
    unfolding msg_entries_def by (rule sum.cong) (use p in auto)
qed

text \<open>A step of one slot is a step of the message, and what it does to the entry is what it does to the entries.\<close>

lemma msg_update:
  assumes ok: "msg_ok H st msg" and i: "i < length msg" and s: "s < slot_count msg"
    and step: "slot_step H s e st (msg ! i) st' pg'"
  shows "msg_step H st msg st' (msg[i := pg'])"
    "msg_entries H st' (msg[i := pg']) + opt_mset (slot_entry H st (msg ! i) s) = msg_entries H st msg + opt_mset e"
proof -
  let ?msg = "msg[i := pg']"
  note D = slot_stepD [OF step]
  have ne: "msg \<noteq> []" using i by auto
  have sl: "page_slots (msg ! j) = slot_count msg" if "j < length msg" for j
    using msg_okD(4) [OF ok that] slot_count_type [OF ne] by simp
  have ty: "asl_msg_type ?msg = asl_msg_type msg"
  proof -
    have "asl_msg_type ?msg = pg_type (?msg ! 0)" using ne by (intro type_hd) simp
    also have "\<dots> = pg_type (msg ! 0)" using D(2) i by (cases "i = 0") simp_all
    finally show ?thesis by (simp only: type_hd [OF ne])
  qed
  have dis: "page_ptrs (msg ! i) \<inter> page_ptrs (msg ! j) = {}" if "j < length msg" "j \<noteq> i" for j
    using msg_okD(5) [OF ok i that(1)] that by auto
  have p: "page_ok H st' (msg ! j) \<and> (\<forall>s<page_slots (msg ! j). slot_entry H st' (msg ! j) s = slot_entry H st (msg ! j) s)"
    if "j < length msg" "j \<noteq> i" for j
    using page_store [OF msg_okD(3) [OF ok that(1)] msg_okD(2) [OF ok] D(3) dis [OF that]] by blast
  have new: "page_ptrs pg' \<inter> page_ptrs (msg ! j) = {}" if "j < length msg" "j \<noteq> i" for j
  proof -
    have "p \<notin> page_ptrs (msg ! j)" if "p \<in> page_ptrs pg'" for p
      using D(4) [OF that] dis [OF \<open>j < length msg\<close> \<open>j \<noteq> i\<close>]
        page_ptr_old [OF msg_okD(3) [OF ok \<open>j < length msg\<close>] msg_okD(2) [OF ok], of p] by auto
    then show ?thesis by auto
  qed
  have "msg_ok H st' ?msg"
    unfolding msg_ok_def
  proof (intro conjI allI impI)
    show "?msg \<noteq> []" using ne by simp
    show "store_ok st'" using D(3) msg_okD(2) [OF ok] by (simp add: store_le_def)
    fix j assume j: "j < length ?msg"
    show "page_ok H st' (?msg ! j)" using j p D(1) by (cases "j = i") simp_all
    show "pg_type (?msg ! j) = asl_msg_type ?msg"
      using j ty D(2) msg_okD(4) [OF ok] i by (cases "j = i") simp_all
    fix k assume "k < length ?msg" "j \<noteq> k"
    then show "page_ptrs (?msg ! j) \<inter> page_ptrs (?msg ! k) = {}"
      using j new [of k] new [of j] msg_okD(5) [OF ok, of j k] by (cases "j = i"; cases "k = i") auto
  qed
  moreover have "store_le (msg_ptrs msg) st st'"
    using D(3) i by (auto simp: store_le_def msg_ptrs_def)
  moreover have "p \<in> msg_ptrs msg \<or> allocs st < p" if p: "p \<in> msg_ptrs ?msg" for p
  proof -
    from p obtain j where j: "j < length msg" "p \<in> page_ptrs (?msg ! j)" by (auto simp: msg_ptrs_def)
    then show ?thesis using D(4) [of p] i by (cases "j = i") (auto simp: msg_ptrs_def)
  qed
  ultimately show "msg_step H st msg st' ?msg" using ty by (simp add: msg_step_def)
  have pe: "page_entries H st' pg' + opt_mset (slot_entry H st (msg ! i) s) = page_entries H st (msg ! i) + opt_mset e"
    unfolding page_entries_def
    using sum_swap [of "{..<page_slots pg'}" s "\<lambda>s. opt_mset (slot_entry H st' pg' s)" "\<lambda>s. opt_mset (slot_entry H st (msg ! i) s)"]
      s sl [OF i] D(2,5,6) by simp
  have "(\<Sum>j<length msg. page_entries H st' (?msg ! j)) + page_entries H st (msg ! i) =
      (\<Sum>j<length msg. page_entries H st (msg ! j)) + page_entries H st' (?msg ! i)"
    by (rule sum_swap) (use i p in \<open>auto simp: page_entries_def\<close>)
  then have "msg_entries H st' ?msg + page_entries H st (msg ! i) = msg_entries H st msg + page_entries H st' pg'"
    using i by (simp add: msg_entries_def)
  from add_swap [OF this pe]
  show "msg_entries H st' ?msg + opt_mset (slot_entry H st (msg ! i) s) = msg_entries H st msg + opt_mset e" .
qed

lemma msg_append:
  assumes ok: "msg_ok H st msg" and le: "store_le {} st st'" and pg: "page_ok H st' pg"
    and new: "\<And>p. p \<in> page_ptrs pg \<Longrightarrow> allocs st < p" and ty: "pg_type pg = asl_msg_type msg"
  shows "msg_step H st msg st' (msg @ [pg])"
    "msg_entries H st' (msg @ [pg]) = msg_entries H st msg + page_entries H st' pg"
proof -
  note st = msg_store [OF ok le, simplified]
  have t: "asl_msg_type (msg @ [pg]) = asl_msg_type msg"
    using msg_okD(1) [OF ok] by (cases msg) (simp_all add: asl_msg_type_def)
  have dis: "page_ptrs pg \<inter> page_ptrs (msg ! j) = {}" if "j < length msg" for j
  proof -
    have "p \<notin> page_ptrs (msg ! j)" if "p \<in> page_ptrs pg" for p
      using new [OF that] page_ptr_old [OF msg_okD(3) [OF ok \<open>j < length msg\<close>] msg_okD(2) [OF ok], of p] by auto
    then show ?thesis by auto
  qed
  have "msg_ok H st' (msg @ [pg])"
    unfolding msg_ok_def
  proof (intro conjI allI impI)
    show "store_ok st'" using st(1) by (simp add: msg_ok_def)
    fix j assume j: "j < length (msg @ [pg])"
    show "page_ok H st' ((msg @ [pg]) ! j)"
      using j pg msg_okD(3) [OF st(1)] by (cases "j < length msg") (auto simp: nth_append)
    show "pg_type ((msg @ [pg]) ! j) = asl_msg_type (msg @ [pg])"
      using j t ty msg_okD(4) [OF st(1)] by (cases "j < length msg") (auto simp: nth_append)
    fix k assume "k < length (msg @ [pg])" "j \<noteq> k"
    then show "page_ptrs ((msg @ [pg]) ! j) \<inter> page_ptrs ((msg @ [pg]) ! k) = {}"
      using j dis [of j] dis [of k] msg_okD(5) [OF ok, of j k]
      by (cases "j < length msg"; cases "k < length msg") (auto simp: nth_append less_Suc_eq)
  qed simp
  moreover have "msg_ptrs (msg @ [pg]) = msg_ptrs msg \<union> page_ptrs pg"
    by (simp add: msg_ptrs_def lessThan_Suc nth_append Un_commute)
  moreover have "store_le (msg_ptrs msg) st st'" using le by (simp add: store_le_def)
  ultimately show "msg_step H st msg st' (msg @ [pg])" using t new by (auto simp: msg_step_def)
  show "msg_entries H st' (msg @ [pg]) = msg_entries H st msg + page_entries H st' pg"
    using st(2) by (simp add: msg_entries_def nth_append)
qed

section \<open>Finding an entry\<close>

definition has_key :: "asl_h \<Rightarrow> asl_store \<Rightarrow> string \<Rightarrow> asl_page \<Rightarrow> nat \<Rightarrow> bool" where
  "has_key H st key pg s \<longleftrightarrow> (\<exists>v opw. slot_entry H st pg s = Some (key, v, opw))"

lemma slot_matches_key:
  assumes ok: "page_ok H st pg" and s: "s < page_slots pg"
  shows "slot_matches st (std_key H key (strlen32 key)) key pg s = Some (has_key H st key pg s)"
proof (cases "pg_kvo pg ! s = ASL_MSG_SLOT_FREE")
  case True
  then show ?thesis using slot_access(1) [OF s] by (simp add: slot_matches_def has_key_def slot_entry_def)
next
  case False
  let ?k = "pg_kvo pg ! s" and ?d = "pg_data pg" and ?kx = "std_key H key (strlen32 key)"
  have w: "word_ok H st ?d (pg_data_size pg) ?k" using page_word_ok [OF ok] s by simp
  obtain str where str: "word_str H st ?d ?k = Some str"
      "if std_key H str (strlen32 str) \<noteq> 0 then ?k = std_key H str (strlen32 str) else kv_type ?k \<noteq> ASL_MSG_KV_DICT"
    using page_okD(7) [OF ok s] False by (auto simp: key_canon_def)
  have hk: "has_key H st key pg s \<longleftrightarrow> str = key"
    using False str(1) by (auto simp: has_key_def slot_entry_def)
  show ?thesis
  proof (cases "?kx = 0")
    case kx: False
    have "?k = ?kx \<longleftrightarrow> str = key"
    proof
      assume "?k = ?kx"
      then have "word_str H st ?d ?k = Some key" using std_key_word [OF refl kx] by (simp add: word_str_def)
      then show "str = key" using str(1) by simp
    next
      assume "str = key"
      then show "?k = ?kx" using str(2) kx by simp
    qed
    then show ?thesis using kx False hk slot_access(1) [OF s] by (simp add: slot_matches_def Let_def)
  next
    case kx: True
    note r = word_read [OF w False]
    from r(4) show ?thesis
    proof (elim disjE)
      assume t: "kv_type ?k = ASL_MSG_KV_EXTERN"
      then have "read_ptr ?d (kv_off ?k) \<bind> ext_str st = Some (Some str)" using r(1) str(1) by simp
      then obtain p where "read_ptr ?d (kv_off ?k) = Some p" "ext_str st p = Some (Some str)"
        by (auto simp: bind_eq_Some_conv)
      then show ?thesis using t kx False hk slot_access(1) [OF s] by (auto simp: slot_matches_def Let_def)
    next
      assume t: "kv_type ?k = ASL_MSG_KV_INLINE"
      then have "str_at ?d (unat ?k) = Some str" using r(2) str(1) by simp
      then show ?thesis using t kx False hk slot_access(1) [OF s] by (auto simp: slot_matches_def Let_def)
    next
      assume t: "kv_type ?k = ASL_MSG_KV_DICT"
      then have "str \<noteq> key" using str(2) kx by auto
      then show ?thesis using t kx False hk slot_access(1) [OF s] by (simp add: slot_matches_def Let_def)
    qed
  qed
qed

text \<open>Positions of pages and slots in the order of the search, from slot \<open>slot\<close> of the first page on.\<close>

definition first_hit :: "asl_h \<Rightarrow> asl_store \<Rightarrow> string \<Rightarrow> nat \<Rightarrow> asl_msg \<Rightarrow> nat \<Rightarrow> (nat \<times> nat) option \<Rightarrow> bool" where
  "first_hit H st key n ps slot r \<longleftrightarrow>
     (case r of
        None \<Rightarrow> \<forall>q<length ps. \<forall>s<n. (q = 0 \<longrightarrow> slot \<le> s) \<longrightarrow> \<not> has_key H st key (ps ! q) s
      | Some (q', s') \<Rightarrow>
          q' < length ps \<and> s' < n \<and> has_key H st key (ps ! q') s' \<and>
          (\<forall>q<length ps. \<forall>s<n. (q = 0 \<longrightarrow> slot \<le> s) \<and> (q < q' \<or> q = q' \<and> s < s') \<longrightarrow>
             \<not> has_key H st key (ps ! q) s))"

lemma first_hit_next:
  assumes a: "\<not> has_key H st key pg slot" "n \<le> Suc slot" and h: "first_hit H st key n ps 0 r"
  shows "first_hit H st key n (pg # ps) slot (map_option (\<lambda>(q, s). (Suc q, s)) r)"
proof -
  have f: "\<not> has_key H st key ((pg # ps) ! 0) s" if "s < n" "slot \<le> s" for s
    using that a by (cases "s = slot") auto
  show ?thesis
  proof (cases r)
    case None
    then have "\<not> has_key H st key (ps ! q) s" if "q < length ps" "s < n" for q s
      using h that by (simp add: first_hit_def)
    then have "\<not> has_key H st key ((pg # ps) ! q) s" if "q < length (pg # ps)" "s < n" "q = 0 \<longrightarrow> slot \<le> s" for q s
      using f that by (cases q) simp_all
    then show ?thesis using None by (simp add: first_hit_def)
  next
    case (Some qs)
    obtain q' s' where qs: "qs = (q', s')" by (cases qs)
    then have h': "q' < length ps" "s' < n" "has_key H st key (ps ! q') s'"
      "\<And>q s. q < length ps \<Longrightarrow> s < n \<Longrightarrow> q < q' \<or> q = q' \<and> s < s' \<Longrightarrow> \<not> has_key H st key (ps ! q) s"
      using h Some by (auto simp: first_hit_def)
    have "\<not> has_key H st key ((pg # ps) ! q) s"
      if "q < length (pg # ps)" "s < n" "q = 0 \<longrightarrow> slot \<le> s" "q < Suc q' \<or> q = Suc q' \<and> s < s'" for q s
      using f h'(4) that by (cases q) simp_all
    then show ?thesis using Some qs h'(1-3) by (simp add: first_hit_def)
  qed
qed

lemma first_hit_step:
  assumes a: "\<not> has_key H st key pg slot" and h: "first_hit H st key n (pg # ps) (Suc slot) r"
  shows "first_hit H st key n (pg # ps) slot r"
proof -
  have f: "(q = 0 \<longrightarrow> Suc slot \<le> s) \<or> \<not> has_key H st key ((pg # ps) ! q) s" if "q = 0 \<longrightarrow> slot \<le> s" for q s
    using a that by (cases "q = 0"; cases "s = slot") simp_all
  show ?thesis
  proof (cases r)
    case None
    then have h': "\<not> has_key H st key ((pg # ps) ! q) s"
      if "q < Suc (length ps)" "s < n" "q = 0 \<longrightarrow> Suc slot \<le> s" for q s
      using h that by (simp add: first_hit_def)
    have "\<not> has_key H st key ((pg # ps) ! q) s"
      if "q < Suc (length ps)" "s < n" "q = 0 \<longrightarrow> slot \<le> s" for q s
      using f [OF that(3)] h' [OF that(1,2)] by blast
    then show ?thesis using None by (simp add: first_hit_def)
  next
    case (Some qs)
    obtain q' s' where qs: "qs = (q', s')" by (cases qs)
    then have h': "q' < Suc (length ps)" "s' < n" "has_key H st key ((pg # ps) ! q') s'"
      "\<And>q s. q < Suc (length ps) \<Longrightarrow> s < n \<Longrightarrow> q = 0 \<longrightarrow> Suc slot \<le> s \<Longrightarrow> q < q' \<or> q = q' \<and> s < s' \<Longrightarrow>
        \<not> has_key H st key ((pg # ps) ! q) s"
      using h Some by (auto simp: first_hit_def)
    have "\<not> has_key H st key ((pg # ps) ! q) s"
      if "q < Suc (length ps)" "s < n" "q = 0 \<longrightarrow> slot \<le> s" "q < q' \<or> q = q' \<and> s < s'" for q s
      using f [OF that(3)] h'(4) [OF that(1,2) _ that(4)] by blast
    then show ?thesis using Some qs h'(1-3) by (simp add: first_hit_def)
  qed
qed

lemma index_loop_first:
  assumes "\<And>pg. pg \<in> set ps \<Longrightarrow> page_ok H st pg \<and> page_slots pg = n" "slot < n" "ps \<noteq> []"
    and kx: "kx = std_key H key (strlen32 key)"
  shows "\<exists>r. index_loop st kx key n ps pi slot i = Some r \<and>
    first_hit H st key n ps slot (map_option (\<lambda>(i, q, s). (q - pi, s)) r) \<and>
    (\<forall>i q s. r = Some (i, q, s) \<longrightarrow> pi \<le> q)"
  using assms
proof (induction st kx key n ps pi slot i rule: index_loop.induct)
  case (2 st kx key n page rest pi slot i)
  note kx = 2(6)
  have m: "slot_matches st kx key page slot = Some (has_key H st key page slot)"
    using slot_matches_key [of H st page slot key] 2(3) [of page] 2(4) kx by simp
  show ?case
  proof (cases "has_key H st key page slot")
    case True
    then show ?thesis using m 2(4) by (auto simp: first_hit_def)
  next
    case False
    show ?thesis
    proof (cases "n \<le> Suc slot")
      case True
      show ?thesis
      proof (cases "rest = []")
        case True
        have "first_hit H st key n (page # rest) slot None"
          using first_hit_next [OF False \<open>n \<le> Suc slot\<close>, of rest None] True by (simp add: first_hit_def)
        then show ?thesis using m False True \<open>n \<le> Suc slot\<close> by simp
      next
        case r: False
        obtain r where r': "index_loop st kx key n rest (Suc pi) 0 (Suc i) = Some r"
          "first_hit H st key n rest 0 (map_option (\<lambda>(i, q, s). (q - Suc pi, s)) r)"
          "\<forall>i q s. r = Some (i, q, s) \<longrightarrow> Suc pi \<le> q"
          using 2(1) [OF m False True r] 2(3,4) r kx by auto
        have "map_option (\<lambda>(i, q, s). (q - pi, s)) r = map_option (\<lambda>(q, s). (Suc q, s)) (map_option (\<lambda>(i, q, s). (q - Suc pi, s)) r)"
          using r'(3) by (cases r) (auto simp: Suc_diff_le)
        then show ?thesis
          using first_hit_next [OF False True r'(2)] r'(1,3) m False True r by (auto dest: Suc_leD)
      qed
    next
      case n: False
      obtain r where r': "index_loop st kx key n (page # rest) pi (Suc slot) (Suc i) = Some r"
        "first_hit H st key n (page # rest) (Suc slot) (map_option (\<lambda>(i, q, s). (q - pi, s)) r)"
        "\<forall>i q s. r = Some (i, q, s) \<longrightarrow> pi \<le> q"
        using 2(2) [OF m False n] 2(3) n kx by auto
      then show ?thesis using first_hit_step [OF False r'(2)] m False n by simp
    qed
  qed
qed simp

lemma msg_index_first:
  assumes ok: "msg_ok H st msg"
  obtains r where "msg_index H st msg (Some key) = Some r"
    "first_hit H st key (slot_count msg) msg 0 (map_option snd r)"
proof -
  note ne = msg_okD(1) [OF ok]
  have p: "page_ok H st pg \<and> page_slots pg = slot_count msg" if "pg \<in> set msg" for pg
    using that msg_okD(3,4) [OF ok] slot_count_type [OF ne] by (auto simp: in_set_conv_nth)
  have n: "0 < slot_count msg"
    using page_okD(1) [of H st "msg ! 0"] msg_okD(3) [OF ok, of 0] msg_okD(4) [OF ok, of 0] ne slot_count_type [OF ne] by auto
  obtain r where r: "index_loop st (std_key H key (strlen32 key)) key (slot_count msg) msg 0 0 0 = Some r"
    "first_hit H st key (slot_count msg) msg 0 (map_option (\<lambda>(i, q, s). (q - 0, s)) r)"
    using index_loop_first [OF p n ne refl, of key 0 0] by blast
  then show ?thesis using that [of r] ne by (cases r) (auto simp: msg_index_def)
qed

lemma msg_index_cases:
  assumes ok: "msg_ok H st msg"
  obtains "msg_index H st msg (Some key) = Some None"
      "\<forall>i<length msg. \<forall>s < slot_count msg. \<not> has_key H st key (msg ! i) s"
  | i pi s v opw where "msg_index H st msg (Some key) = Some (Some (i, pi, s))" "pi < length msg"
      "s < slot_count msg" "slot_entry H st (msg ! pi) s = Some (key, v, opw)"
proof -
  obtain r where r: "msg_index H st msg (Some key) = Some r"
    "first_hit H st key (slot_count msg) msg 0 (map_option snd r)" using msg_index_first [OF ok] .
  show ?thesis
  proof (cases r)
    case None
    then show ?thesis using that(1) r by (simp add: first_hit_def)
  next
    case (Some a)
    then obtain i pi s where a: "a = (i, pi, s)" by (cases a) auto
    then have "pi < length msg" "s < slot_count msg" "has_key H st key (msg ! pi) s"
      using r(2) Some by (simp_all add: first_hit_def)
    then show ?thesis using that(2) r(1) Some a by (auto simp: has_key_def)
  qed
qed

lemma in_msg_entries:
  assumes ok: "msg_ok H st msg"
  shows "e \<in># msg_entries H st msg \<longleftrightarrow> (\<exists>i<length msg. \<exists>s < slot_count msg. slot_entry H st (msg ! i) s = Some e)"
proof -
  have sl: "page_slots (msg ! i) = slot_count msg" if "i < length msg" for i
    using msg_okD(4) [OF ok that] slot_count_type [OF msg_okD(1) [OF ok]] by simp
  have "e \<in># page_entries H st (msg ! i) \<longleftrightarrow> (\<exists>s < slot_count msg. slot_entry H st (msg ! i) s = Some e)"
    if "i < length msg" for i
    using sl [OF that] by (auto simp: page_entries_def set_mset_sum)
  then show ?thesis by (auto simp: msg_entries_def set_mset_sum)
qed

lemma no_key_entries:
  assumes "msg_ok H st msg"
  shows "(\<forall>i<length msg. \<forall>s < slot_count msg. \<not> has_key H st key (msg ! i) s) \<longleftrightarrow>
         (\<forall>e\<in>#msg_entries H st msg. fst e \<noteq> key)"
  unfolding in_msg_entries [OF assms] Ball_def by (fastforce simp: has_key_def)

section \<open>Adding an entry\<close>

lemma store_ok_malloc [simp]: "store_ok (st\<lparr>allocs := n\<rparr>) = (\<forall>p s. ext st p = Some s \<longrightarrow> 0 < p \<and> p \<le> n)"
  by (simp add: store_ok_def)

lemma store_le_malloc: "store_le own st (snd (malloc_ok st))"
  by (auto simp: store_le_def malloc_ok_def) (auto simp: store_ok_def le_SucI)

lemma make_page_ok:
  assumes "make_page ty st = (Some pg, st')" "ty = TYPE_MSG \<or> ty = TYPE_QUERY"
  shows "page_ok H st'' pg" "page_ptrs pg = {}" "pg_type pg = ty" "store_le {} st st'"
    "s < page_slots pg \<Longrightarrow> pg_kvo pg ! s = ASL_MSG_SLOT_FREE" "s < page_slots pg \<Longrightarrow> slot_entry H st'' pg s = None"
    "pg_data_size pg = 0" "pg_count pg = 0"
proof -
  let ?n = "type_slots ty"
  have pg: "pg = (zero_page ty)\<lparr>pg_kvo := replicate (?n * 2) ASL_MSG_SLOT_FREE @ replicate (ASL_MSG_KVO_COUNT - ?n * 2) 0,
      pg_mem_size := sizeof_asl_msg\<rparr>" and st': "st' = snd (malloc_ok st)"
    using assms(1) by (auto simp: make_page_def Let_def split: prod.splits bool.splits)
  show t: "pg_type pg = ty" "pg_data_size pg = 0" "pg_count pg = 0" using pg by (simp_all add: zero_page_def)
  have ws: "page_words pg = replicate (2 * ?n) ASL_MSG_SLOT_FREE"
    using pg by (simp add: page_words_def zero_page_def mult.commute)
  have k: "pg_kvo pg ! j = ASL_MSG_SLOT_FREE" if "j < 2 * ?n" for j
    using pg that by (simp add: nth_append)
  show "store_le {} st st'" using st' store_le_malloc by simp
  show "page_ptrs pg = {}" by (simp add: page_ptrs_def ws)
  show "pg_kvo pg ! s = ASL_MSG_SLOT_FREE" if "s < page_slots pg" using k that t by simp
  then show "slot_entry H st'' pg s = None" if "s < page_slots pg" using that by (simp add: slot_entry_def)
  have "length (pg_data pg) = 220" using pg by (simp add: zero_page_def)
  then have "words_ok H st'' (pg_data pg) 0 (page_words pg)"
    by (simp add: words_ok_def ws)
  then show "page_ok H st'' pg"
    using t k pg assms(2) type_slots_le(1) [of ty] by (simp add: page_ok_def key_canon_def zero_page_def)
qed

lemma find_room_Some:
  assumes "find_room n need ps q = Some (pi, s)"
  shows "q \<le> pi \<and> pi - q < length ps \<and> s < n \<and> need \<le> ASL_MSG_PAGE_DATA_SIZE - pg_data_size (ps ! (pi - q)) \<and>
    get_slot_key (ps ! (pi - q)) s = ASL_MSG_SLOT_FREE"
  using assms
proof (induction ps arbitrary: q)
  case (Cons page ps)
  have later: ?case if "find_room n need ps (Suc q) = Some (pi, s)"
    using Cons.IH [OF that] by (auto simp: Suc_diff_le Suc_le_eq nth_Cons')
  show ?case
  proof (cases "find (\<lambda>slot. get_slot_key page slot = ASL_MSG_SLOT_FREE) [0..<n]")
    case None
    then show ?thesis using later Cons.prems by (simp split: if_splits)
  next
    case (Some i)
    then have "i < n" "get_slot_key page i = ASL_MSG_SLOT_FREE" by (auto simp: find_Some_iff)
    then show ?thesis using later Cons.prems Some by (auto split: if_splits)
  qed
qed simp

lemma page_entries_empty:
  "(\<And>s. s < page_slots pg \<Longrightarrow> slot_entry H st pg s = None) \<Longrightarrow> page_entries H st pg = {#}"
  by (simp add: page_entries_def)

definition entry_op :: "asl_type \<Rightarrow> 32 word \<Rightarrow> 16 word" where
  "entry_op ty opv = (if ty = TYPE_QUERY then ucast opv else 0)"

lemma new_page_step:
  assumes step: "slot_step H 0 e st1 page st2 pg" and free: "page_ptrs page = {}"
    and empty: "\<And>s. s < page_slots page \<Longrightarrow> slot_entry H st1 page s = None" and n: "0 < page_slots page"
  shows "page_entries H st2 pg = opt_mset e" "store_le {} st1 st2" "p \<in> page_ptrs pg \<Longrightarrow> allocs st1 < p"
proof -
  note D = slot_stepD [OF step]
  have "page_entries H st2 pg + opt_mset (slot_entry H st1 page 0) = page_entries H st1 page + opt_mset e"
    unfolding page_entries_def
    using sum_swap [of "{..<page_slots pg}" 0 "\<lambda>s. opt_mset (slot_entry H st2 pg s)" "\<lambda>s. opt_mset (slot_entry H st1 page s)"]
      n D(2,5,6) by simp
  then show "page_entries H st2 pg = opt_mset e" using empty n page_entries_empty [of page H st1] by simp
  show "store_le {} st1 st2" "p \<in> page_ptrs pg \<Longrightarrow> allocs st1 < p" using D(3,4) free by auto
qed

lemma space_ok_later:
  assumes "space_ok kx key val st st1 b" "store_le {} st1 st2" "ext st2 = ext st1"
  shows "space_ok kx key val st st2 b"
  using assms store_le_trans [of "{}" st st1 "{}" st2]
  by (auto simp: space_ok_def image_ok_def split: option.splits)

lemma free_bufs_new:
  assumes "space_ok kx key val st st1 b"
  obtains st2 where "free_bufs b st1 = Some st2" "store_le {} st st2" "\<forall>p\<le>allocs st. ext st2 p = ext st p"
proof -
  have le: "store_le {} st st1" using assms by (simp add: space_ok_def)
  have k: "extkey b = 0 \<or> allocs st < extkey b \<and> (\<exists>s. ext st1 (extkey b) = Some s)"
    and v: "extval b = 0 \<or> allocs st < extval b \<and> (\<exists>s. ext st1 (extval b) = Some s)"
    and kv: "extkey b \<noteq> 0 \<longrightarrow> extkey b \<noteq> extval b"
    using assms by (auto simp: space_ok_def image_ok_def split: if_splits option.splits)
  let ?st = "unref (unref st1 (if extkey b = 0 then None else Some (extkey b))) (if extval b = 0 then None else Some (extval b))"
  have "free_bufs b st1 = Some ?st"
    using k v kv by (auto simp: free_bufs_def free_ext_def unref_def)
  moreover have "store_le {} st ?st"
    using le k v by (auto simp: store_le_def store_ok_def)
  moreover have "\<forall>p\<le>allocs st. ext ?st p = ext st p"
    using le k v by (auto simp: store_le_def)
  ultimately show ?thesis using that by blast
qed

text \<open>
  A new entry is in the first page with room for it, or in a new page; the only failure, once the
  buffers are there, is that there is no memory for the page.
\<close>

lemma new_key_val_op_space:
  assumes ok: "msg_ok H st msg" and key: "cstring key" "\<And>v. val = Some v \<Longrightarrow> cstring v"
    and b: "alloc_space (std_key H key (strlen32 key)) key val st = Some (b, st1)"
      "space_ok (std_key H key (strlen32 key)) key val st st1 b"
  obtains st' msg' where "new_key_val_op H st msg key val opv = Some (0, st', msg')"
      "msg_step H st msg st' msg'"
      "msg_entries H st' msg' = add_mset (key, val, entry_op (asl_msg_type msg) opv) (msg_entries H st msg)"
  | st' where "new_key_val_op H st msg key val opv = Some (- 1, st', msg)" "fails st (allocs st1)"
      "msg_step H st msg st' msg" "msg_entries H st' msg = msg_entries H st msg"
proof -
  let ?kx = "std_key H key (strlen32 key)" and ?ty = "asl_msg_type msg"
  note ne = msg_okD(1) [OF ok]
  have le: "store_le {} st st1" and tot: "kv_total b \<le> ASL_MSG_PAGE_DATA_SIZE"
    using b(2) by (simp_all add: space_ok_def)
  have ty: "?ty = TYPE_MSG \<or> ?ty = TYPE_QUERY" "pg_type (hd msg) = ?ty" "0 < slot_count msg"
    using page_okD(1) [OF msg_okD(3) [OF ok, of 0]] msg_okD(4) [OF ok, of 0] ne slot_count_type [OF ne]
    by (auto simp: hd_conv_nth)
  show thesis
  proof (cases "find_room (slot_count msg) (kv_total b) msg 0")
    case (Some a)
    obtain pi s where a: "a = (pi, s)" by (cases a)
    note f = find_room_Some [OF Some [unfolded a], simplified]
    then have s: "s < page_slots (msg ! pi)" using msg_okD(4) [OF ok, of pi] slot_count_type [OF ne] by simp
    then have v: "pg_kvo (msg ! pi) ! s = ASL_MSG_SLOT_FREE" using f slot_access(1) [OF s] by simp
    obtain pg' where p: "fill_slot ?kx key val (ucast opv) b s (msg ! pi) = Some pg'"
      "slot_step H s (Some (key, val, if pg_type (msg ! pi) = TYPE_QUERY then ucast opv else 0)) st (msg ! pi) st1 pg'"
      using fill_slot_step [OF msg_okD(3) [OF ok] msg_okD(2) [OF ok] s v key b(2)] f by auto
    have "slot_step H s (Some (key, val, entry_op ?ty opv)) st (msg ! pi) st1 pg'"
      using p(2) msg_okD(4) [OF ok, of pi] f by (simp add: entry_op_def)
    note u = msg_update [OF ok _ _ this]
    have "slot_entry H st (msg ! pi) s = None" using v by (simp add: slot_entry_def)
    then show thesis
      using that(1) [of st1 "msg[pi := pg']"] u f b(1) tot ne Some a p(1) by (simp add: new_key_val_op_def Let_def)
  next
    case None
    show thesis
    proof (cases "make_page ?ty st1")
      case (Pair r st2)
      have le2: "store_le {} st1 st2" and e2: "ext st2 = ext st1" and al: "r = None \<Longrightarrow> fails st1 (allocs st1)"
        using Pair store_le_malloc [of "{}" st1]
        by (auto simp: make_page_def malloc_ok_def Let_def split: bool.splits)
      note b2 = space_ok_later [OF b(2) le2 e2]
      show thesis
      proof (cases r)
        case r: None
        obtain st3 where st3: "free_bufs b st2 = Some st3" "store_le {} st st3" "\<forall>p\<le>allocs st. ext st3 p = ext st p"
          using free_bufs_new [OF b2] .
        note m = msg_store [OF ok st3(2), simplified]
        have "msg_step H st msg st3 msg"
          using m(1) st3(2) by (auto simp: msg_step_def store_le_def)
        moreover have "fails st (allocs st1)" using al [OF r] le by (simp add: store_le_def)
        ultimately show thesis
          using that(2) [of st3] None Pair r st3(1) b(1) tot ne ty(2) m(2) by (simp add: new_key_val_op_def Let_def)
      next
        case r: (Some page)
        note mp = make_page_ok [OF Pair [unfolded r] ty(1)]
        have n: "0 < page_slots page" using mp(3) ty by (metis slot_count_type ne)
        obtain pg where p: "fill_slot ?kx key val (ucast opv) b 0 page = Some pg"
          "slot_step H 0 (Some (key, val, if pg_type page = TYPE_QUERY then ucast opv else 0)) st page st2 pg"
          using fill_slot_step [OF mp(1) msg_okD(2) [OF ok] n mp(5) [OF n] key b2, of "ucast opv"] mp(7) tot by auto
        note np = new_page_step [OF p(2) mp(2) mp(6) n]
        have t: "pg_type pg = ?ty" using slot_stepD(2) [OF p(2)] mp(3) by simp
        note ap = msg_append [OF ok np(2) slot_stepD(1) [OF p(2)] np(3) t]
        have "msg_entries H st2 (msg @ [pg]) = add_mset (key, val, entry_op ?ty opv) (msg_entries H st msg)"
          using ap(2) np(1) mp(3) by (simp add: entry_op_def)
        then show thesis
          using that(1) [of st2 "msg @ [pg]"] ap(1) None Pair r p(1) b(1) tot ne ty(2)
          by (simp add: new_key_val_op_def Let_def)
      qed
    qed
  qed
qed

section \<open>Setting an entry\<close>

definition keys_once :: "kvo_entry multiset \<Rightarrow> bool" where
  "keys_once M \<longleftrightarrow> (\<forall>k. size {#e \<in># M. fst e = k#} \<le> 1)"

text \<open>What an interface promises of setting a key: a message has it once, a query once more.\<close>

definition set_entry :: "asl_type \<Rightarrow> string \<Rightarrow> string option \<Rightarrow> 32 word \<Rightarrow> kvo_entry multiset \<Rightarrow> kvo_entry multiset" where
  "set_entry ty key val opv M =
     add_mset (key, val, entry_op ty opv) (if ty = TYPE_QUERY then M else {#e \<in># M. fst e \<noteq> key#})"

definition unset_entry :: "string \<Rightarrow> kvo_entry multiset \<Rightarrow> kvo_entry multiset" where
  "unset_entry key M = {#e \<in># M. fst e \<noteq> key#}"

definition wf_msg :: "asl_h \<Rightarrow> asl_store \<Rightarrow> asl_msg \<Rightarrow> bool" where
  "wf_msg H st msg \<longleftrightarrow>
     msg_ok H st msg \<and> (asl_msg_type msg = TYPE_MSG \<longrightarrow> keys_once (msg_entries H st msg))"

lemma filter_absent: "\<forall>e\<in>#M. fst e \<noteq> k \<Longrightarrow> {#e \<in># M. fst e \<noteq> k#} = M"
  by (simp add: filter_mset_eq_conv)

lemma keys_once_remove:
  assumes "keys_once M" "(k, v, opw) \<in># M"
  shows "M - {#(k, v, opw)#} = {#e \<in># M. fst e \<noteq> k#}"
proof -
  obtain M' where M: "M = add_mset (k, v, opw) M'" using assms(2) by (meson multi_member_split)
  have "size {#e \<in># M. fst e = k#} \<le> 1" using assms(1) by (simp add: keys_once_def)
  then have "{#e \<in># M'. fst e = k#} = {#}" using M by simp
  then have "\<forall>e\<in>#M'. fst e \<noteq> k" by (auto simp: filter_mset_eq_conv)
  then show ?thesis using M filter_absent [of M' k] by simp
qed

lemma keys_once_unset: "keys_once M \<Longrightarrow> keys_once (unset_entry k M)"
  unfolding keys_once_def unset_entry_def
proof
  fix j assume "\<forall>k. size {#e \<in># M. fst e = k#} \<le> 1"
  then have "size {#e \<in># M. fst e = j#} \<le> 1" by blast
  moreover have "{#e \<in># {#e \<in># M. fst e \<noteq> k#}. fst e = j#} \<subseteq># {#e \<in># M. fst e = j#}"
    by (simp add: multiset_filter_mono)
  ultimately show "size {#e \<in># {#e \<in># M. fst e \<noteq> k#}. fst e = j#} \<le> 1"
    using size_mset_mono order_trans by blast
qed

lemma keys_once_set:
  assumes "keys_once M"
  shows "keys_once (set_entry TYPE_MSG key val opv M)"
  unfolding keys_once_def
proof
  fix k
  show "size {#e \<in># set_entry TYPE_MSG key val opv M. fst e = k#} \<le> 1"
  proof (cases "k = key")
    case True
    then have "{#e \<in># {#e \<in># M. fst e \<noteq> key#}. fst e = k#} = {#}" by (simp add: filter_mset_eq_conv)
    then show ?thesis using True by (simp add: set_entry_def)
  next
    case False
    then show ?thesis
      using keys_once_unset [OF assms, of key] by (simp add: set_entry_def keys_once_def unset_entry_def)
  qed
qed

lemma slot_entry_op:
  "slot_entry H st pg s = Some (k, v, opw) \<Longrightarrow> pg_type pg = TYPE_MSG \<Longrightarrow> opw = 0"
  by (auto simp: slot_entry_def get_slot_op_def split: if_splits)

text \<open>No allocation fails, and the variable that is never assigned does not look like an external key.\<close>

definition enough :: "asl_store \<Rightarrow> bool" where
  "enough st \<longleftrightarrow> mem_left st \<and> junk_ok st"

lemma msg_step_enough: "msg_step H st msg st' msg' \<Longrightarrow> enough st \<Longrightarrow> enough st'"
  using store_le_mem_left by (auto simp: msg_step_def store_le_def enough_def junk_ok_def)

lemma new_key_val_op_left:
  assumes "msg_ok H st msg" "mem_left st" "cstring key" "\<And>v. val = Some v \<Longrightarrow> cstring v"
  obtains st' msg' where "new_key_val_op H st msg key val opv = Some (0, st', msg')"
      "msg_step H st msg st' msg'"
      "msg_entries H st' msg' = add_mset (key, val, entry_op (asl_msg_type msg) opv) (msg_entries H st msg)"
proof -
  obtain b st1 where b: "alloc_space (std_key H key (strlen32 key)) key val st = Some (b, st1)"
    "space_ok (std_key H key (strlen32 key)) key val st st1 b"
    using alloc_left [OF assms(2-4), where kx = "std_key H key (strlen32 key)"] by blast
  have "allocs st \<le> allocs st1" using b(2) by (simp add: space_ok_def store_le_def)
  then have "\<not> fails st (allocs st1)" using assms(2) by (simp add: mem_left_def)
  with new_key_val_op_space [OF assms(1,3,4) b, where opv = opv] that show thesis by metis
qed

lemma set_kvo_entries:
  assumes wf: "wf_msg H st msg" and en: "enough st" and key: "cstring key" "\<And>v. val = Some v \<Longrightarrow> cstring v"
  obtains st' msg' where "set_kvo H st msg key val opv = Some (0, st', msg')" "msg_step H st msg st' msg'"
    "msg_entries H st' msg' = set_entry (asl_msg_type msg) key val opv (msg_entries H st msg)"
proof -
  have ok: "msg_ok H st msg" using wf by (simp add: wf_msg_def)
  note ne = msg_okD(1) [OF ok]
  have mem: "mem_left st" and ju: "junk_ok st" using en by (simp_all add: enough_def)
  have hd: "pg_type (hd msg) = asl_msg_type msg" using ne by (simp add: type_hd hd_conv_nth)
  show thesis
  proof (cases "asl_msg_type msg = TYPE_QUERY")
    case True
    then show thesis
      using new_key_val_op_left [OF ok mem key, where opv = opv] that ne hd by (auto simp: set_kvo_def set_entry_def)
  next
    case False
    then have ty: "asl_msg_type msg = TYPE_MSG"
      using page_okD(1) [OF msg_okD(3) [OF ok, of 0]] ne by (simp add: type_hd)
    have once: "keys_once (msg_entries H st msg)" using wf ty by (simp add: wf_msg_def)
    show thesis
    proof (cases rule: msg_index_cases [OF ok, of key])
      case 1
      then have "\<forall>e\<in>#msg_entries H st msg. fst e \<noteq> key" using no_key_entries [OF ok] by blast
      note ab = filter_absent [OF this]
      obtain st' msg' where n: "new_key_val_op H st msg key val opv = Some (0, st', msg')" "msg_step H st msg st' msg'"
        "msg_entries H st' msg' = add_mset (key, val, entry_op (asl_msg_type msg) opv) (msg_entries H st msg)"
        using new_key_val_op_left [OF ok mem key] .
      show thesis
        by (rule that [of st' msg']) (use n 1 ab ne hd ty in \<open>simp_all add: set_kvo_def set_entry_def\<close>)
    next
      case (2 i pi s v opw)
      let ?e = "(key, v, opw)"
      have s: "s < page_slots (msg ! pi)" and pt: "pg_type (msg ! pi) = TYPE_MSG"
        using 2 msg_okD(4) [OF ok] slot_count_type [OF ne] ty by simp_all
      have op0: "opw = 0" using slot_entry_op [OF 2(4) pt] .
      have inM: "?e \<in># msg_entries H st msg" using 2 in_msg_entries [OF ok] by blast
      note rm = keys_once_remove [OF once inM]
      obtain res st1 pg where r: "replace_val val opv s st (msg ! pi) = Some (res, st1, pg)"
        "set_outcome H s key val opw st (msg ! pi) res st1 pg"
        using replace_val_outcome [OF msg_okD(3) [OF ok 2(2)] s pt msg_okD(2) [OF ok] mem key(2) 2(4)] by blast
      from r(2) consider "res = Done 0" "slot_step H s (Some (key, val, opw)) st (msg ! pi) st1 pg"
        | "res = NoRoom" "slot_step H s (Some (key, None, opw)) st (msg ! pi) st1 (val_free s pg)" "pg_type pg = TYPE_MSG"
        using pt by (auto simp: set_outcome_def)
      then show thesis
      proof cases
        case a: 1
        note u = msg_update [OF ok 2(2,3) a(2)]
        have "msg_entries H st1 (msg[pi := pg]) = add_mset (key, val, opw) (msg_entries H st msg - {#?e#})"
          using u(2) 2(4) inM by (metis add_mset_add_single add_mset_remove_trivial diff_union_swap2 opt_mset_simps(2))
        then show thesis
          by (intro that [of st1 "msg[pi := pg]"])
            (use a(1) u(1) 2 r ne hd ty rm op0 in \<open>simp_all add: set_kvo_def set_entry_def entry_op_def\<close>)
      next
        case b: 2
        have ju1: "junk_ok st1" using slot_stepD(3) [OF b(2)] ju by (simp add: store_le_def junk_ok_def)
        have s': "s < page_slots pg" using s b(3) pt by simp
        obtain st2 pg2 where f: "free_entry s st1 pg = Some (st2, pg2)" "slot_step H s None st (msg ! pi) st2 pg2"
          using free_entry_step [OF b(2,3) s' ju1] by blast
        note u = msg_update [OF ok 2(2,3) f(2)]
        let ?msg = "msg[pi := pg2]"
        have m2: "mem_left st2" using msg_stepD(3) [OF u(1)] mem by (rule store_le_mem_left)
        have t2: "asl_msg_type ?msg = TYPE_MSG" using msg_stepD(2) [OF u(1)] ty by simp
        obtain st' msg' where n: "new_key_val_op H st2 ?msg key val opv = Some (0, st', msg')" "msg_step H st2 ?msg st' msg'"
          "msg_entries H st' msg' = add_mset (key, val, entry_op (asl_msg_type ?msg) opv) (msg_entries H st2 ?msg)"
          using new_key_val_op_left [OF msg_stepD(1) [OF u(1)] m2 key] .
        have "msg_entries H st2 ?msg = msg_entries H st msg - {#?e#}"
          using u(2) 2(4) by (metis add_diff_cancel_right' add.right_neutral opt_mset_simps)
        then show thesis
          by (intro that [of st' msg'])
            (use b(1) f(1) n msg_step_trans [OF u(1) n(2)] 2 r ne hd ty t2 rm in
              \<open>simp_all add: set_kvo_def set_entry_def entry_op_def\<close>)
      qed
    qed
  qed
qed

section \<open>The interface\<close>

text \<open>The value and the operation that a call stores: the number of a level, a message without the newlines at its end.\<close>

definition strip_newlines :: "string \<Rightarrow> string" where
  "strip_newlines v = rev (dropWhile (\<lambda>c. c = newline) (rev v))"

definition norm_val :: "asl_h \<Rightarrow> string \<Rightarrow> string option \<Rightarrow> string option" where
  "norm_val H key val =
     (let v = (if key = key_level H then Some (level_val H val) else val) in
      if key = key_msg H
      then (case v of None \<Rightarrow> None | Some s \<Rightarrow> if strip_newlines s = [] then None else Some (strip_newlines s))
      else v)"

lemma trim_len_strip: "i \<le> length v \<Longrightarrow> take (trim_len v i) v = strip_newlines (take i v) \<and> trim_len v i \<le> i"
proof (induction i)
  case (Suc i)
  then show ?case by (auto simp: take_Suc_conv_app_nth strip_newlines_def)
qed (simp add: strip_newlines_def)

lemma message_val_strip:
  assumes "mem_left st" "\<And>v. val = Some v \<Longrightarrow> cstring v"
  shows "\<exists>n. message_val val st = Some
     (case val of None \<Rightarrow> None | Some s \<Rightarrow> if strip_newlines s = [] then None else Some (strip_newlines s),
      st\<lparr>allocs := n\<rparr>) \<and> allocs st \<le> n"
proof (cases val)
  case None
  then show ?thesis by (intro exI [of _ "allocs st"]) (simp add: message_val_def)
next
  case (Some v)
  let ?i = "trim_len v (length v)"
  have len: "strlen32 v = length v" using cstring_len assms(2) [OF Some] by simp
  have i: "take ?i v = strip_newlines v" "?i \<le> length v" using trim_len_strip [of "length v" v] by simp_all
  then have li: "length (strip_newlines v) = ?i" by (metis length_take min.absorb2)
  have z: "?i = 0 \<longleftrightarrow> strip_newlines v = []" using li by auto
  have ml: "malloc_ok st = (True, st\<lparr>allocs := Suc (allocs st)\<rparr>)" using assms(1) by (simp add: malloc_ok_def mem_left_def)
  show ?thesis
  proof (cases "?i = 0 \<or> ?i = length v \<or> ?i < 512")
    case True
    then have "message_val val st = Some (if strip_newlines v = [] then None else Some (strip_newlines v), st)"
      using Some len i z by (auto simp: message_val_def Let_def)
    then show ?thesis using Some by (intro exI [of _ "allocs st"]) simp
  next
    case False
    then have "message_val val st = Some (Some (strip_newlines v), st\<lparr>allocs := Suc (allocs st)\<rparr>)"
      using Some len i ml by (simp add: message_val_def Let_def)
    moreover have "strip_newlines v \<noteq> []" using False li by auto
    ultimately show ?thesis using Some by (intro exI [of _ "Suc (allocs st)"]) simp
  qed
qed

lemma level_val_digit: "level_val H val \<in> set digit_strings"
proof -
  have "d \<in> set digit_strings" if "find P (zip ns digit_strings) = Some (n, d)" for P ns n d
  proof -
    have "(n, d) \<in> set (zip ns digit_strings)" using that by (metis find_Some_iff nth_mem)
    then show ?thesis by (rule set_zip_rightD)
  qed
  moreover have "''7'' \<in> set digit_strings" by (simp add: digit_strings_def)
  ultimately show ?thesis by (auto simp: level_val_def simp del: find.simps split: option.splits)
qed

lemma level_val_cstring: "cstring (level_val H val)"
  using level_val_digit [of H val] by (auto simp: digit_strings_def cstring_def Nul_def)

lemma norm_val_cstring:
  assumes "\<And>v. val = Some v \<Longrightarrow> cstring v" "norm_val H key val = Some w"
  shows "cstring w"
proof -
  have s: "cstring (strip_newlines v)" if "cstring v" for v
  proof -
    have "set (strip_newlines v) \<subseteq> set v" by (auto simp: strip_newlines_def dest: set_dropWhileD)
    moreover have "length (strip_newlines v) \<le> length v"
      by (metis length_dropWhile_le length_rev strip_newlines_def)
    ultimately show ?thesis using that by (auto simp: cstring_def)
  qed
  show ?thesis
    using assms s level_val_cstring [of H val]
    by (auto simp: norm_val_def Let_def split: if_splits option.splits)
qed

lemma msg_later:
  assumes "wf_msg H st msg" "enough st" "allocs st \<le> n"
  shows "wf_msg H (st\<lparr>allocs := n\<rparr>) msg" "enough (st\<lparr>allocs := n\<rparr>)" "msg_step H st msg (st\<lparr>allocs := n\<rparr>) msg"
    "msg_entries H (st\<lparr>allocs := n\<rparr>) msg = msg_entries H st msg"
proof -
  have le: "store_le {} st (st\<lparr>allocs := n\<rparr>)" using assms(3) by (auto simp: store_le_def store_ok_def intro: order_trans)
  have ok: "msg_ok H st msg" using assms(1) by (simp add: wf_msg_def)
  note m = msg_store [OF ok le, simplified]
  show "msg_entries H (st\<lparr>allocs := n\<rparr>) msg = msg_entries H st msg" by (rule m(2))
  then show "wf_msg H (st\<lparr>allocs := n\<rparr>) msg" using m(1) assms(1) by (simp add: wf_msg_def)
  show "enough (st\<lparr>allocs := n\<rparr>)" using assms(2,3) by (simp add: enough_def mem_left_def junk_ok_def)
  show "msg_step H st msg (st\<lparr>allocs := n\<rparr>) msg" using m(1) le by (simp add: msg_step_def store_le_def)
qed

lemma wf_msg_set:
  assumes "wf_msg H st msg" "msg_step H st msg st' msg'"
    "msg_entries H st' msg' = set_entry (asl_msg_type msg) key val opv (msg_entries H st msg)"
  shows "wf_msg H st' msg'"
  using assms msg_stepD(1,2) [OF assms(2)] keys_once_set by (simp add: wf_msg_def)

lemma set_key_val_op_entries:
  assumes wf: "wf_msg H st msg" and en: "enough st" and key: "cstring key" "\<And>v. val = Some v \<Longrightarrow> cstring v"
  obtains st' msg' where "asl_msg_set_key_val_op H st msg (Some key) val opv = Some (0, st', msg')"
    "msg_step H st msg st' msg'" "wf_msg H st' msg'"
    "msg_entries H st' msg' = set_entry (asl_msg_type msg) key (norm_val H key val) (norm_op H opv) (msg_entries H st msg)"
proof -
  let ?v = "if key = key_level H then Some (level_val H val) else val"
  have cv: "cstring v" if "?v = Some v" for v
    using that key(2) level_val_cstring [of H val] by (auto split: if_splits)
  have mem: "mem_left st" using en by (simp add: enough_def)
  obtain n where n: "(if key = key_msg H then message_val ?v st else Some (?v, st)) =
      Some (norm_val H key val, st\<lparr>allocs := n\<rparr>)" "allocs st \<le> n"
  proof (cases "key = key_msg H")
    case True
    obtain n where "message_val ?v st = Some
        (case ?v of None \<Rightarrow> None | Some s \<Rightarrow> if strip_newlines s = [] then None else Some (strip_newlines s),
         st\<lparr>allocs := n\<rparr>)" "allocs st \<le> n"
      using message_val_strip [OF mem, of ?v] cv by blast
    then show thesis using that [of n] True by (simp add: norm_val_def Let_def)
  next
    case False
    then show thesis using that [of "allocs st"] by (simp add: norm_val_def Let_def)
  qed
  note l = msg_later [OF wf en n(2)]
  obtain st' msg' where s: "set_kvo H (st\<lparr>allocs := n\<rparr>) msg key (norm_val H key val) (norm_op H opv) = Some (0, st', msg')"
    "msg_step H (st\<lparr>allocs := n\<rparr>) msg st' msg'"
    "msg_entries H st' msg' = set_entry (asl_msg_type msg) key (norm_val H key val) (norm_op H opv)
       (msg_entries H (st\<lparr>allocs := n\<rparr>) msg)"
    by (rule set_kvo_entries [where val = "norm_val H key val" and opv = "norm_op H opv", OF l(1,2) key(1)])
      (use norm_val_cstring [OF key(2)] in blast)+
  have "msg \<noteq> []" using wf by (simp add: wf_msg_def msg_ok_def)
  then have "asl_msg_set_key_val_op H st msg (Some key) val opv = Some (0, st', msg')"
    using n(1) s(1) by (simp add: asl_msg_set_key_val_op_def Let_def)
  moreover have "wf_msg H st' msg'" by (rule wf_msg_set [OF l(1) s(2,3)])
  ultimately show thesis using that msg_step_trans [OF l(3) s(2)] s(3) l(4) by simp
qed

lemma unset_entries:
  assumes wf: "wf_msg H st msg" and ty: "asl_msg_type msg = TYPE_MSG"
  obtains st' msg' where "asl_msg_unset H st msg (Some key) = Some (st', msg')" "msg_step H st msg st' msg'"
    "wf_msg H st' msg'" "msg_entries H st' msg' = unset_entry key (msg_entries H st msg)"
proof -
  have ok: "msg_ok H st msg" and once: "keys_once (msg_entries H st msg)" using wf ty by (simp_all add: wf_msg_def)
  show thesis
  proof (cases rule: msg_index_cases [OF ok, of key])
    case 1
    then have "unset_entry key (msg_entries H st msg) = msg_entries H st msg"
      using no_key_entries [OF ok] filter_absent by (simp add: unset_entry_def)
    then show thesis
      using that [of st msg] 1 wf msg_step_refl [OF ok] by (simp add: asl_msg_unset_def)
  next
    case (2 i pi s v opw)
    have s: "s < page_slots (msg ! pi)"
      using 2 msg_okD(4) [OF ok] slot_count_type [OF msg_okD(1) [OF ok]] by simp
    obtain st' pg' where u: "unset_page_slot s st (msg ! pi) = Some (st', pg')" "slot_step H s None st (msg ! pi) st' pg'"
      using unset_page_slot_step [OF msg_okD(3) [OF ok 2(2)] s] by metis
    note m = msg_update [OF ok 2(2,3) u(2)]
    have inM: "(key, v, opw) \<in># msg_entries H st msg" using 2 in_msg_entries [OF ok] by blast
    have e: "msg_entries H st' (msg[pi := pg']) = unset_entry key (msg_entries H st msg)"
      using m(2) 2(4) keys_once_remove [OF once inM]
      by (metis add.right_neutral add_diff_cancel_right' opt_mset_simps unset_entry_def)
    have "wf_msg H st' (msg[pi := pg'])"
      using msg_stepD(1) [OF m(1)] e keys_once_unset [OF once] by (simp add: wf_msg_def)
    then show thesis
      using that [of st' "msg[pi := pg']"] 2(1) u(1) m(1) e by (simp add: asl_msg_unset_def unset_at_def)
  qed
qed

lemma lookup_entries:
  assumes wf: "wf_msg H st msg"
  shows "(\<forall>e\<in>#msg_entries H st msg. fst e \<noteq> key) \<Longrightarrow> asl_msg_lookup H st msg (Some key) = Some (- 1, None, 0)"
    "(key, v, opw) \<in># msg_entries H st msg \<Longrightarrow>
       \<exists>v opw. asl_msg_lookup H st msg (Some key) = Some (0, v, opw) \<and> (key, v, opw) \<in># msg_entries H st msg"
    "(key, v, opw) \<in># msg_entries H st msg \<Longrightarrow> asl_msg_type msg = TYPE_MSG \<Longrightarrow>
       asl_msg_lookup H st msg (Some key) = Some (0, v, opw)"
proof -
  have ok: "msg_ok H st msg" using wf by (simp add: wf_msg_def)
  have found: "\<exists>v opw. asl_msg_lookup H st msg (Some key) = Some (0, v, opw) \<and> (key, v, opw) \<in># msg_entries H st msg"
    if "\<not> (\<forall>e\<in>#msg_entries H st msg. fst e \<noteq> key)"
  proof (cases rule: msg_index_cases [OF ok, of key])
    case 1
    then show ?thesis using that no_key_entries [OF ok] by blast
  next
    case (2 i pi s v opw)
    have s: "s < page_slots (msg ! pi)"
      using 2 msg_okD(4) [OF ok] slot_count_type [OF msg_okD(1) [OF ok]] by simp
    have "slot_val st (msg ! pi) s = Some v" "get_slot_op (msg ! pi) s = opw"
      using slot_val_read [OF msg_okD(3) [OF ok 2(2)] s] 2(4) by (auto simp: slot_entry_def split: if_splits)
    then show ?thesis using 2 in_msg_entries [OF ok] by (auto simp: asl_msg_lookup_def)
  qed
  show "asl_msg_lookup H st msg (Some key) = Some (- 1, None, 0)" if "\<forall>e\<in>#msg_entries H st msg. fst e \<noteq> key"
  proof (cases rule: msg_index_cases [OF ok, of key])
    case 1
    then show ?thesis by (simp add: asl_msg_lookup_def)
  next
    case (2 i pi s v opw)
    then have "(key, v, opw) \<in># msg_entries H st msg" using in_msg_entries [OF ok] by blast
    then show ?thesis using that by auto
  qed
  show "\<exists>v opw. asl_msg_lookup H st msg (Some key) = Some (0, v, opw) \<and> (key, v, opw) \<in># msg_entries H st msg"
    if "(key, v, opw) \<in># msg_entries H st msg" using found that by fastforce
  assume e: "(key, v, opw) \<in># msg_entries H st msg" and ty: "asl_msg_type msg = TYPE_MSG"
  then obtain v' opw' where l: "asl_msg_lookup H st msg (Some key) = Some (0, v', opw')" "(key, v', opw') \<in># msg_entries H st msg"
    using found by fastforce
  have once: "keys_once (msg_entries H st msg)" using wf ty by (simp add: wf_msg_def)
  have "(key, v, opw) = (key, v', opw')"
  proof (rule ccontr)
    assume "\<not> ?thesis"
    then have "(key, v', opw') \<in># msg_entries H st msg - {#(key, v, opw)#}"
      using l(2) by (metis insert_noteq_member insert_DiffM e)
    then show False using keys_once_remove [OF once e] by simp
  qed
  then show "asl_msg_lookup H st msg (Some key) = Some (0, v, opw)" using l(1) by simp
qed

lemma new_msg_wf:
  assumes "asl_msg_new ty st = (msg, st')" "msg \<noteq> []" "store_ok st" "ty = TYPE_MSG \<or> ty = TYPE_QUERY"
  shows "wf_msg H st' msg" "msg_entries H st' msg = {#}" "asl_msg_type msg = ty" "msg_ptrs msg = {}" "store_le {} st st'"
proof -
  obtain pg where pg: "make_page ty st = (Some pg, st')" "msg = [pg\<lparr>pg_refcount := 1\<rparr>]"
    using assms(1,2) by (auto simp: asl_msg_new_def split: prod.splits option.splits)
  note mp = make_page_ok [OF pg(1) assms(4)]
  show e: "msg_entries H st' msg = {#}"
    using page_entries_empty [of "pg\<lparr>pg_refcount := 1\<rparr>" H st'] mp(6) pg(2) by (simp add: msg_entries_def)
  show "asl_msg_type msg = ty" "msg_ptrs msg = {}" "store_le {} st st'"
    using mp(2,3,4) pg(2) by (simp_all add: asl_msg_type_def msg_ptrs_def)
  have "store_ok st'" using assms(3) mp(4) by (simp add: store_le_def)
  then show "wf_msg H st' msg"
    using mp pg(2) e by (simp add: wf_msg_def msg_ok_def asl_msg_type_def keys_once_def)
qed

end
