(* ===== verification/Asl_Store.thy ===== *)
theory Asl_Store
  imports Asl_Msg_Correct
begin

text \<open>
  The contract of the message store and what follows from it for its clients. The locale
  \<open>entry_store\<close> has the operations a client calls and the laws of their effect on the entries; its
  lemmas, on looking up what was set and on sequences of calls, hold of log messages by the
  interpretation \<open>asl\<close> and are the properties at the end.
\<close>

section \<open>Stores of entries\<close>

datatype store_call = SetKey string "string option" "32 word" | UnsetKey string

fun call_ok :: "store_call \<Rightarrow> bool" where
  "call_ok (SetKey key val opv) \<longleftrightarrow> cstring key \<and> (\<forall>v. val = Some v \<longrightarrow> cstring v)"
| "call_ok (UnsetKey key) \<longleftrightarrow> cstring key"

text \<open>The abstract store: what the calls do to the entries of a message.\<close>

fun call_spec :: "asl_h \<Rightarrow> store_call \<Rightarrow> kvo_entry multiset \<Rightarrow> kvo_entry multiset" where
  "call_spec H (SetKey key val opv) M = set_entry TYPE_MSG key (norm_val H key val) (norm_op H opv) M"
| "call_spec H (UnsetKey key) M = unset_entry key M"

locale entry_store =
  fixes inv :: "'s \<Rightarrow> bool"
    and entries :: "'s \<Rightarrow> kvo_entry multiset"
    and call :: "store_call \<Rightarrow> 's \<Rightarrow> 's option"
    and get :: "string \<Rightarrow> 's \<Rightarrow> (int \<times> string option \<times> 16 word) option"
    and spec :: "store_call \<Rightarrow> kvo_entry multiset \<Rightarrow> kvo_entry multiset"
  assumes call_law: "inv s \<Longrightarrow> call_ok c \<Longrightarrow> \<exists>s'. call c s = Some s' \<and> inv s' \<and> entries s' = spec c (entries s)"
    and get_found: "inv s \<Longrightarrow> (key, v, opw) \<in># entries s \<Longrightarrow> get key s = Some (0, v, opw)"
    and get_absent: "inv s \<Longrightarrow> \<forall>e\<in>#entries s. fst e \<noteq> key \<Longrightarrow> get key s = Some (- 1, None, 0)"
begin

fun calls :: "store_call list \<Rightarrow> 's \<Rightarrow> 's option" where
  "calls [] s = Some s"
| "calls (c # cs) s = Option.bind (call c s) (calls cs)"

lemma calls_spec:
  "inv s \<Longrightarrow> list_all call_ok cs \<Longrightarrow> \<exists>s'. calls cs s = Some s' \<and> inv s' \<and> entries s' = fold spec cs (entries s)"
proof (induction cs arbitrary: s)
  case (Cons c cs)
  then obtain s1 where s1: "call c s = Some s1" "inv s1" "entries s1 = spec c (entries s)"
    using call_law by fastforce
  with Cons.IH [OF s1(2)] Cons.prems show ?case by simp
qed simp

text \<open>A lookup depends on the entries of its key alone.\<close>

lemma get_cong:
  assumes "inv s" "inv s'" "{#e \<in># entries s. fst e = key#} = {#e \<in># entries s'. fst e = key#}"
  shows "get key s = get key s'"
proof (cases "\<exists>v opw. (key, v, opw) \<in># entries s")
  case True
  then obtain v opw where e: "(key, v, opw) \<in># entries s" by blast
  then have "(key, v, opw) \<in># {#e \<in># entries s. fst e = key#}" by simp
  then have "(key, v, opw) \<in># entries s'" using assms(3) by simp
  then show ?thesis using get_found e assms(1,2) by simp
next
  case False
  then have a: "\<forall>e\<in>#entries s. fst e \<noteq> key" by fastforce
  have "fst e \<noteq> key" if "e \<in># entries s'" for e
  proof
    assume "fst e = key"
    then have "e \<in># {#e \<in># entries s. fst e = key#}" using that assms(3) by simp
    then show False using a by auto
  qed
  then show ?thesis using get_absent a assms(1,2) by simp
qed

end

section \<open>Log messages as a store\<close>

text \<open>The state a client sees: the store of strings, a message with its entries, and nothing failing.\<close>

definition asl_inv :: "asl_h \<Rightarrow> asl_store \<times> asl_msg \<Rightarrow> bool" where
  "asl_inv H = (\<lambda>(st, msg). wf_msg H st msg \<and> asl_msg_type msg = TYPE_MSG \<and> enough st)"

definition asl_entries :: "asl_h \<Rightarrow> asl_store \<times> asl_msg \<Rightarrow> kvo_entry multiset" where
  "asl_entries H = (\<lambda>(st, msg). msg_entries H st msg)"

definition asl_call :: "asl_h \<Rightarrow> store_call \<Rightarrow> asl_store \<times> asl_msg \<Rightarrow> (asl_store \<times> asl_msg) option" where
  "asl_call H c = (\<lambda>(st, msg).
     case c of
       SetKey key val opv \<Rightarrow>
         do { (status, r) \<leftarrow> asl_msg_set_key_val_op H st msg (Some key) val opv;
              if status = 0 then Some r else None }
     | UnsetKey key \<Rightarrow> asl_msg_unset H st msg (Some key))"

definition asl_get :: "asl_h \<Rightarrow> string \<Rightarrow> asl_store \<times> asl_msg \<Rightarrow> (int \<times> string option \<times> 16 word) option" where
  "asl_get H key = (\<lambda>(st, msg). asl_msg_lookup H st msg (Some key))"

interpretation asl: entry_store "asl_inv H" "asl_entries H" "asl_call H" "asl_get H" "call_spec H"
proof
  fix s c
  assume inv: "asl_inv H s" and c: "call_ok c"
  obtain st msg where s: "s = (st, msg)" by (cases s)
  have wf: "wf_msg H st msg" and ty: "asl_msg_type msg = TYPE_MSG" and en: "enough st"
    using inv s by (simp_all add: asl_inv_def)
  show "\<exists>s'. asl_call H c s = Some s' \<and> asl_inv H s' \<and> asl_entries H s' = call_spec H c (asl_entries H s)"
  proof (cases c)
    case (SetKey key val opv)
    obtain st' msg' where r: "asl_msg_set_key_val_op H st msg (Some key) val opv = Some (0, st', msg')"
      "msg_step H st msg st' msg'" "wf_msg H st' msg'"
      "msg_entries H st' msg' = set_entry TYPE_MSG key (norm_val H key val) (norm_op H opv) (msg_entries H st msg)"
      by (rule set_key_val_op_entries [OF wf en, of key val opv]) (use c SetKey ty in auto)
    then show ?thesis
      using s SetKey msg_stepD(2) [OF r(2)] msg_step_enough [OF r(2) en] ty
      by (simp add: asl_call_def asl_inv_def asl_entries_def)
  next
    case (UnsetKey key)
    obtain st' msg' where r: "asl_msg_unset H st msg (Some key) = Some (st', msg')" "msg_step H st msg st' msg'"
      "wf_msg H st' msg'" "msg_entries H st' msg' = unset_entry key (msg_entries H st msg)"
      using unset_entries [OF wf ty] .
    then show ?thesis
      using s UnsetKey msg_stepD(2) [OF r(2)] msg_step_enough [OF r(2) en] ty
      by (simp add: asl_call_def asl_inv_def asl_entries_def)
  qed
qed (auto simp: asl_inv_def asl_entries_def asl_get_def lookup_entries)

section \<open>Counting entries\<close>

lemma asl_msg_count_sum: "asl_msg_count msg = sum_list (map pg_count msg)"
proof -
  have "foldl (\<lambda>total p. total + pg_count p) c msg = c + sum_list (map pg_count msg)" for c
    by (induction msg arbitrary: c) (simp_all add: add.assoc)
  then show ?thesis by (simp add: asl_msg_count_def)
qed

lemma sum_list_swap:
  fixes f :: "'a \<Rightarrow> 'b::comm_monoid_add"
  shows "i < length xs \<Longrightarrow> sum_list (map f (xs[i := y])) + f (xs ! i) = sum_list (map f xs) + f y"
proof (induction xs arbitrary: i)
  case (Cons x xs)
  then show ?case
  proof (cases i)
    case (Suc j)
    then have "sum_list (map f (xs[j := y])) + f (xs ! j) = sum_list (map f xs) + f y" using Cons by simp
    then show ?thesis using Suc by (simp add: add.assoc)
  qed (simp add: ac_simps)
qed simp

lemma count_update: "i < length msg \<Longrightarrow> asl_msg_count (msg[i := pg]) = asl_msg_count msg + pg_count pg - pg_count (msg ! i)"
  using sum_list_swap [of i msg pg_count pg] by (simp add: asl_msg_count_sum eq_diff_eq)

lemma set_slot_count [simp]:
  "pg_count (set_slot_key s x pg) = pg_count pg" "pg_count (set_slot_val s x pg) = pg_count pg"
  "pg_count (set_slot_op s x pg) = pg_count pg"
  by (simp_all add: set_slot_key_def set_slot_val_def set_slot_op_def split: asl_type.split)

lemma append_str_count: "append_str str p len grow pg = Some (w, pg') \<Longrightarrow> pg_count pg' = pg_count pg"
  by (auto simp: append_str_def bind_eq_Some_conv split: if_splits)

lemma fill_key_count: "fill_key kx key b s pg = Some pg' \<Longrightarrow> pg_count pg' = pg_count pg"
  by (auto simp: fill_key_def bind_eq_Some_conv dest: append_str_count split: if_splits)

lemma fill_val_count: "fill_val val b s pg = Some pg' \<Longrightarrow> pg_count pg' = pg_count pg"
  by (auto simp: fill_val_def bind_eq_Some_conv dest: append_str_count split: option.splits)

lemma fill_slot_count: "fill_slot kx key val opw b s pg = Some pg' \<Longrightarrow> pg_count pg' = pg_count pg + 1"
  by (auto simp: fill_slot_def bind_eq_Some_conv Let_def dest!: fill_key_count fill_val_count)

lemma make_page_count: "make_page ty st = (Some pg, st') \<Longrightarrow> pg_count pg = 0"
  by (auto simp: make_page_def zero_page_def Let_def split: prod.splits bool.splits)

lemma new_key_val_op_count:
  assumes "new_key_val_op H st msg key val opv = Some (0, st', msg')"
  shows "asl_msg_count msg' = asl_msg_count msg + 1"
proof -
  obtain b st1 where b: "alloc_space (std_key H key (strlen32 key)) key val st = Some (b, st1)"
      "\<not> kv_total b > ASL_MSG_PAGE_DATA_SIZE"
    using assms by (auto simp: new_key_val_op_def Let_def bind_eq_Some_conv split: if_splits prod.splits)
  have ne: "msg \<noteq> []" using assms by (auto simp: new_key_val_op_def)
  show ?thesis
  proof (cases "find_room (slot_count msg) (kv_total b) msg 0")
    case None
    then show ?thesis
      using assms b ne
      by (auto simp: new_key_val_op_def Let_def bind_eq_Some_conv asl_msg_count_sum
          dest!: fill_slot_count make_page_count split: prod.splits option.splits if_splits)
  next
    case (Some a)
    obtain pi s where a: "a = (pi, s)" by (cases a)
    have "pi < length msg" using find_room_Some [OF Some [unfolded a]] by simp
    then show ?thesis
      using assms b ne Some a
      by (auto simp: new_key_val_op_def Let_def bind_eq_Some_conv count_update dest!: fill_slot_count)
  qed
qed

text \<open>Whether a call finds its key on a page that has no room for the new value.\<close>

definition no_room :: "asl_h \<Rightarrow> asl_store \<Rightarrow> asl_msg \<Rightarrow> string \<Rightarrow> string option \<Rightarrow> 32 word \<Rightarrow> bool" where
  "no_room H st msg key val opv \<longleftrightarrow>
     (\<exists>i pi s st1 pg. msg_index H st msg (Some key) = Some (Some (i, pi, s)) \<and>
        replace_val val opv s st (msg ! pi) = Some (NoRoom, st1, pg))"

text \<open>How far the count of a message is off its entries.\<close>

definition miscount :: "asl_h \<Rightarrow> asl_store \<Rightarrow> asl_msg \<Rightarrow> 32 word" where
  "miscount H st msg = asl_msg_count msg - of_nat (size (msg_entries H st msg))"

lemma set_kvo_count:
  assumes wf: "wf_msg H st msg" and ty: "asl_msg_type msg = TYPE_MSG" and en: "enough st"
    and val: "\<And>v. val = Some v \<Longrightarrow> cstring v"
    and r: "set_kvo H st msg key val opv = Some (0, st', msg')"
  shows "asl_msg_count msg' = asl_msg_count msg +
     (if no_room H st msg key val opv \<or> (\<forall>e\<in>#msg_entries H st msg. fst e \<noteq> key) then 1 else 0)"
proof -
  have ok: "msg_ok H st msg" using wf by (simp add: wf_msg_def)
  note ne = msg_okD(1) [OF ok]
  have hd: "pg_type (hd msg) = TYPE_MSG" using ne ty by (simp add: type_hd hd_conv_nth)
  show ?thesis
  proof (cases rule: msg_index_cases [OF ok, of key])
    case 1
    then have "\<forall>e\<in>#msg_entries H st msg. fst e \<noteq> key" using no_key_entries [OF ok] by blast
    moreover have "new_key_val_op H st msg key val opv = Some (0, st', msg')"
      using r 1 ne hd by (simp add: set_kvo_def)
    ultimately show ?thesis using new_key_val_op_count by simp
  next
    case (2 i pi s v opw)
    have s: "s < page_slots (msg ! pi)" and pt: "pg_type (msg ! pi) = TYPE_MSG"
      using 2 msg_okD(4) [OF ok] slot_count_type [OF ne] ty by simp_all
    have pres: "\<not> (\<forall>e\<in>#msg_entries H st msg. fst e \<noteq> key)" using 2 in_msg_entries [OF ok] by fastforce
    obtain res st1 pg where p: "replace_val val opv s st (msg ! pi) = Some (res, st1, pg)"
      "set_outcome H s key val opw st (msg ! pi) res st1 pg"
      using replace_val_outcome [OF msg_okD(3) [OF ok 2(2)] s pt msg_okD(2) [OF ok] _ val 2(4)] en
      unfolding enough_def by blast
    have c: "pg_count pg = pg_count (msg ! pi)" using p(2) by (simp add: set_outcome_def)
    have nr: "no_room H st msg key val opv \<longleftrightarrow> res = NoRoom" using 2(1) p(1) by (simp add: no_room_def)
    show ?thesis
    proof (cases res)
      case (Done status)
      then have "msg' = msg[pi := pg]" using r 2 p(1) ne hd by (simp add: set_kvo_def)
      then show ?thesis using nr Done c pres 2(2) by (simp add: count_update)
    next
      case NoRoom
      then have b: "slot_step H s (Some (key, None, opw)) st (msg ! pi) st1 (val_free s pg)" "pg_type pg = TYPE_MSG"
        using p(2) pt unfolding set_outcome_def by auto
      have "junk_ok st1" using slot_stepD(3) [OF b(1)] en by (simp add: store_le_def enough_def junk_ok_def)
      then obtain st2 pg2 where f: "free_entry s st1 pg = Some (st2, pg2)" "pg_count pg2 = pg_count pg"
        using free_entry_step [OF b, of] s b(2) pt by auto
      have "new_key_val_op H st2 (msg[pi := pg2]) key val opv = Some (0, st', msg')"
        using r 2 p(1) f(1) NoRoom ne hd by (simp add: set_kvo_def)
      then show ?thesis using new_key_val_op_count nr NoRoom c f(2) 2(2) by (simp add: count_update)
    qed
  qed
qed

lemma size_set_entry:
  assumes "keys_once M"
  shows "size (set_entry TYPE_MSG key val opv M) = size M + (if \<forall>e\<in>#M. fst e \<noteq> key then 1 else 0)"
proof (cases "\<forall>e\<in>#M. fst e \<noteq> key")
  case True
  then show ?thesis using filter_absent [OF True] by (simp add: set_entry_def)
next
  case False
  then obtain v opw where e: "(key, v, opw) \<in># M" by fastforce
  then have "size M = Suc (size (M - {#(key, v, opw)#}))"
    by (metis insert_DiffM size_add_mset)
  moreover have "size (set_entry TYPE_MSG key val opv M) = Suc (size (M - {#(key, v, opw)#}))"
    using keys_once_remove [OF assms e] by (simp add: set_entry_def)
  ultimately show ?thesis using False by simp
qed

section \<open>Removing entries by key or by number\<close>

lemma wf_msg_subset:
  assumes "wf_msg H st msg" "msg_step H st msg st' msg'" "msg_entries H st' msg' \<subseteq># msg_entries H st msg"
  shows "wf_msg H st' msg'"
proof -
  have "keys_once M'" if "keys_once M" "M' \<subseteq># M" for M M' :: "kvo_entry multiset"
    using that size_mset_mono [OF multiset_filter_mono [OF that(2)]] unfolding keys_once_def
    by (meson order_trans)
  then show ?thesis using assms msg_stepD(1,2) [OF assms(2)] by (auto simp: wf_msg_def)
qed

lemma unset_at_step:
  assumes wf: "wf_msg H st msg" and pos: "pi < length msg" "s < slot_count msg"
  obtains st' msg' where "unset_at st msg (pi, s) = Some (st', msg')" "msg_step H st msg st' msg'" "wf_msg H st' msg'"
    "msg_entries H st' msg' = msg_entries H st msg - opt_mset (slot_entry H st (msg ! pi) s)"
proof -
  have ok: "msg_ok H st msg" using wf by (simp add: wf_msg_def)
  have s: "s < page_slots (msg ! pi)"
    using pos msg_okD(4) [OF ok] slot_count_type [OF msg_okD(1) [OF ok]] by simp
  obtain st' pg' where u: "unset_page_slot s st (msg ! pi) = Some (st', pg')" "slot_step H s None st (msg ! pi) st' pg'"
    using unset_page_slot_step [OF msg_okD(3) [OF ok pos(1)] s] by metis
  note m = msg_update [OF ok pos u(2)]
  have e: "msg_entries H st' (msg[pi := pg']) = msg_entries H st msg - opt_mset (slot_entry H st (msg ! pi) s)"
    using m(2) by (metis add.right_neutral add_diff_cancel_right' opt_mset_simps(1))
  then have "wf_msg H st' (msg[pi := pg'])" using wf_msg_subset [OF wf m(1)] by simp
  then show thesis using that [of st' "msg[pi := pg']"] u(1) m(1) e by (simp add: unset_at_def)
qed

lemma resolve_slots_Inl: "resolve_slots kvo n is sx = Inl i \<Longrightarrow> i \<in> set is \<and> kvo ! i \<noteq> ASL_MSG_SLOT_FREE"
  by (induction "is" arbitrary: sx) (auto split: if_splits)

lemma resolve_pages_Some:
  "resolve_pages n k ps q sx = Some (pi, s) \<Longrightarrow>
     q \<le> pi \<and> pi - q < length ps \<and> s < n \<and> pg_kvo (ps ! (pi - q)) ! s \<noteq> ASL_MSG_SLOT_FREE"
proof (induction ps arbitrary: q sx)
  case (Cons px ps)
  have later: ?case if "resolve_pages n k ps (Suc q) sx' = Some (pi, s)" for sx'
    using Cons.IH [OF that] by (auto simp: Suc_diff_le Suc_le_eq nth_Cons')
  show ?case
    using Cons.prems later by (auto dest!: resolve_slots_Inl split: if_splits sum.splits)
qed simp

lemma unset_step:
  assumes wf: "wf_msg H st msg"
  obtains st' msg' where "asl_msg_unset H st msg (Some key) = Some (st', msg')" "msg_step H st msg st' msg'" "wf_msg H st' msg'"
proof -
  have ok: "msg_ok H st msg" using wf by (simp add: wf_msg_def)
  show thesis
  proof (cases rule: msg_index_cases [OF ok, of key])
    case 1
    then show thesis using that [of st msg] wf msg_step_refl [OF ok] by (simp add: asl_msg_unset_def)
  next
    case (2 i pi s v opw)
    show thesis
      by (rule unset_at_step [OF wf 2(2,3)]) (use that 2(1) in \<open>simp add: asl_msg_unset_def\<close>)
  qed
qed

lemma unset_index_step:
  assumes wf: "wf_msg H st msg"
  obtains st' msg' where "asl_msg_unset_index st msg n = Some (st', msg')" "msg_step H st msg st' msg'" "wf_msg H st' msg'"
proof (cases "resolve_index msg n")
  case None
  then show thesis
    using that [of st msg] wf msg_step_refl by (auto simp: asl_msg_unset_index_def wf_msg_def)
next
  case (Some a)
  obtain pi s where a: "a = (pi, s)" by (cases a)
  have p: "pi < length msg" "s < slot_count msg"
    using resolve_pages_Some [of "slot_count msg" n msg 0 0 pi s] Some a by (simp_all add: resolve_index_def)
  show thesis
    by (rule unset_at_step [OF wf p]) (use that Some a in \<open>simp add: asl_msg_unset_index_def\<close>)
qed

text \<open>A step of one message leaves the others that share the store alone.\<close>

lemma other_msg:
  assumes step: "msg_step H st msg st' msg'" and wf: "wf_msg H st other" and dis: "msg_ptrs msg \<inter> msg_ptrs other = {}"
  shows "wf_msg H st' other" "msg_entries H st' other = msg_entries H st other" "msg_ptrs msg' \<inter> msg_ptrs other = {}"
proof -
  have ok: "msg_ok H st other" using wf by (simp add: wf_msg_def)
  note m = msg_store [OF ok msg_stepD(3) [OF step] dis]
  show "msg_entries H st' other = msg_entries H st other" by (rule m(2))
  then show "wf_msg H st' other" using m(1) wf by (simp add: wf_msg_def)
  have "p \<le> allocs st" if p: "p \<in> msg_ptrs other" for p
  proof -
    obtain i where "i < length other" "p \<in> page_ptrs (other ! i)" using p by (auto simp: msg_ptrs_def)
    then show ?thesis using page_ptr_old [OF msg_okD(3) [OF ok] msg_okD(2) [OF ok]] by blast
  qed
  then show "msg_ptrs msg' \<inter> msg_ptrs other = {}"
    using msg_stepD(4) [OF step] dis by fastforce
qed

section \<open>Properties\<close>

text \<open>
  The documented strings and bits of \<open>asl.h\<close>, for the inputs of the witnesses.
\<close>

definition asl_documented :: asl_h where
  "asl_documented =
     \<lparr>key_time = ''Time'', key_time_nsec = ''TimeNanoSec'', key_host = ''Host'', key_sender = ''Sender'',
      key_facility = ''Facility'', key_pid = ''PID'', key_uid = ''UID'', key_gid = ''GID'',
      key_level = ''Level'', key_msg = ''Message'', key_read_uid = ''ReadUID'', key_read_gid = ''ReadGID'',
      key_session = ''Session'', key_ref_pid = ''RefPID'', key_ref_proc = ''RefProc'',
      key_msg_id = ''ASLMessageID'', key_expire_time = ''ASLExpireTime'', key_option = ''ASLOption'',
      string_levels = [''Emergency'', ''Alert'', ''Critical'', ''Error'', ''Warning'', ''Notice'', ''Info'', ''Debug''],
      op_casefold = 0x10, op_prefix = 0x20, op_suffix = 0x40, op_numeric = 0x80, op_regex = 0x100,
      op_equal = 1, op_greater = 2, op_greater_equal = 3, op_less = 4, op_less_equal = 5,
      op_not_equal = 6, op_true = 7\<rparr>"

definition store0 :: asl_store where
  "store0 = \<lparr>ext = (\<lambda>_. None), allocs = 0, fails = (\<lambda>_. False), junk = (\<lambda>_. 0), junk_reads = 0\<rparr>"

lemma store0_ok [simp]: "store_ok store0" "enough store0" "mem_left store0"
  by (simp_all add: store_ok_def enough_def mem_left_def junk_ok_def store0_def kv_type_def kv_defs)

definition msg0 :: asl_msg where
  "msg0 = fst (asl_msg_new TYPE_MSG store0)"

definition store1 :: asl_store where
  "store1 = snd (asl_msg_new TYPE_MSG store0)"

lemma msg0_wf [simp]:
  "wf_msg H store1 msg0" "asl_msg_type msg0 = TYPE_MSG" "msg_entries H store1 msg0 = {#}" "enough store1"
proof -
  have n: "asl_msg_new TYPE_MSG store0 = (msg0, store1)" by (simp add: msg0_def store1_def)
  have "msg0 \<noteq> []"
    by (simp add: msg0_def asl_msg_new_def make_page_def malloc_ok_def store0_def Let_def)
  note m = new_msg_wf [OF n this store0_ok(1), simplified]
  show "wf_msg H store1 msg0" "asl_msg_type msg0 = TYPE_MSG" "msg_entries H store1 msg0 = {#}" using m by simp_all
  have "mem_left store1" by (rule store_le_mem_left [OF m(5) store0_ok(3)])
  then show "enough store1" using m(5) store0_ok(2) by (simp add: enough_def store_le_def junk_ok_def)
qed





text \<open>
  The abstract store of a client: a map from the keys that are set to their values.
\<close>

fun call_map :: "asl_h \<Rightarrow> store_call \<Rightarrow> (string \<rightharpoonup> string option) \<Rightarrow> (string \<rightharpoonup> string option)" where
  "call_map H (SetKey key val opv) m = m(key \<mapsto> norm_val H key val)"
| "call_map H (UnsetKey key) m = m(key := None)"

definition entry_map :: "kvo_entry multiset \<Rightarrow> (string \<rightharpoonup> string option) \<Rightarrow> bool" where
  "entry_map M m \<longleftrightarrow> (\<forall>k v opw. (k, v, opw) \<in># M \<longleftrightarrow> m k = Some v \<and> opw = 0)"

lemma entry_map_calls: "entry_map M m \<Longrightarrow> entry_map (fold (call_spec H) cs M) (fold (call_map H) cs m)"
proof (induction cs arbitrary: M m)
  case (Cons c cs)
  have "entry_map (call_spec H c M) (call_map H c m)"
    using Cons.prems
    by (cases c) (auto simp: entry_map_def set_entry_def unset_entry_def entry_op_def)
  then show ?case using Cons.IH by simp
qed simp



end
