(* ===== verification/Asl_Limits.thy ===== *)
theory Asl_Limits
  imports Asl_Store
begin

text \<open>
  The limits of the message store: what becomes of a message when memory for a new entry runs out,
  and how far the count that its pages keep is off the number of its entries after an entry had to
  be moved for want of room.
\<close>

section \<open>A full page\<close>

text \<open>A message of one page whose data are used up, with the empty string under \<open>Host\<close>.\<close>

definition full_page :: asl_page where
  "full_page =
     \<lparr>pg_type = TYPE_MSG, pg_refcount = 1, pg_count = 1, pg_data_size = 220, pg_mem_size = 312,
      pg_kvo = 0x8003 # replicate 14 ASL_MSG_SLOT_FREE @ 0 # replicate 14 ASL_MSG_SLOT_FREE,
      pg_data = replicate 220 (Byte Nul)\<rparr>"

lemma full_kvo: "j < 30 \<Longrightarrow> pg_kvo full_page ! j = (if j = 0 then 0x8003 else if j = 15 then 0 else ASL_MSG_SLOT_FREE)"
  by (auto simp: full_page_def nth_Cons' nth_append)

lemma full_words:
  "kv_type 0x8003 = ASL_MSG_KV_DICT" "kv_type 0 = ASL_MSG_KV_INLINE" "kv_off 0 = 0"
  "str_at (pg_data full_page) 0 = Some []" "dict_key asl_documented 0x8003 = Some ''Host''"
proof -
  have "pg_data full_page = Byte Nul # replicate 219 (Byte Nul)"
    using replicate_Suc [of 219 "Byte Nul"] by (simp add: full_page_def)
  then show "str_at (pg_data full_page) 0 = Some []" by (simp add: str_at_def)
qed (simp_all add: kv_type_def kv_off_def kv_defs dict_key_def ASL_STD_KEY_BASE_def ASL_STD_KEY_LAST_def
    ASLStandardKey_def asl_documented_def)

lemma full_word:
  assumes "j < 30"
  shows "word_str asl_documented st (pg_data full_page) (pg_kvo full_page ! j) =
      (if j = 0 then Some ''Host'' else if j = 15 then Some [] else None)"
    "word_len (pg_data full_page) (pg_kvo full_page ! j) = (if j = 15 then 1 else 0)"
    "word_ptr (pg_data full_page) (pg_kvo full_page ! j) = None"
  using full_kvo [OF assms] full_words by (simp_all add: word_str_def word_len_def word_ptr_def)

lemma full_page_entries: "msg_entries asl_documented store0 [full_page] = {#(''Host'', Some [], 0)#}"
proof -
  have t: "pg_type full_page = TYPE_MSG" by (simp add: full_page_def)
  have se: "slot_entry asl_documented store0 full_page s = None" if "0 < s" "s < 15" for s
    using that full_kvo [of s] by (simp add: slot_entry_def)
  have "(\<Sum>s<15. opt_mset (slot_entry asl_documented store0 full_page s)) =
      (\<Sum>s\<in>{0::nat}. opt_mset (slot_entry asl_documented store0 full_page s))"
    by (rule sum.mono_neutral_right) (use se in auto)
  moreover have "slot_entry asl_documented store0 full_page 0 = Some (''Host'', Some [], 0)"
    using full_kvo [of 0] full_word(1) [of 0] full_word(1) [of 15]
    by (simp add: slot_entry_def get_slot_op_def t) (simp add: kv_defs)
  ultimately show ?thesis by (simp add: msg_entries_def page_entries_def t)
qed

lemma full_page_wf: "wf_msg asl_documented store0 [full_page]"
proof -
  have t: "pg_type full_page = TYPE_MSG" "pg_data_size full_page = 220" "length (pg_data full_page) = 220"
    "length (pg_kvo full_page) = 30" by (simp_all add: full_page_def)
  have w: "page_words full_page = pg_kvo full_page" by (simp add: page_words_def t)
  have c: "cstring ''Host''" "cstring []" by (simp_all add: cstring_def Nul_def)
  have o: "word_ok asl_documented store0 (pg_data full_page) 220 (pg_kvo full_page ! j)" if "j < 30" for j
    unfolding word_ok_def full_word [OF that] using full_kvo [OF that] full_words(3) c by simp
  have ws: "words_ok asl_documented store0 (pg_data full_page) 220 (pg_kvo full_page)"
    by (simp add: words_ok_def t o full_word apart_def)
  have std: "std_key asl_documented ''Host'' (strlen32 ''Host'') = 0x8003"
    by (simp add: std_key_def strlen32_def std_cases_def first_test_def asl_documented_def)
  have kc: "key_canon asl_documented store0 (pg_data full_page) (pg_kvo full_page ! s)" if "s < 15" for s
    using that full_kvo [of s] full_word(1) [of s] std by (auto simp: key_canon_def)
  have "kv_type (pg_kvo full_page ! (s + 15)) \<noteq> ASL_MSG_KV_DICT" if "s < 15" for s
    using that full_kvo [of "s + 15"] full_words by simp
  moreover have "pg_kvo full_page ! s = ASL_MSG_SLOT_FREE \<longrightarrow> pg_kvo full_page ! (s + 15) = ASL_MSG_SLOT_FREE"
    if "s < 15" for s
    using that full_kvo [of s] full_kvo [of "s + 15"] by (auto simp: kv_defs)
  ultimately have pg: "page_ok asl_documented store0 full_page"
    using ws kc by (simp add: page_ok_def t w)
  have "keys_once (msg_entries asl_documented store0 [full_page])" by (simp add: full_page_entries keys_once_def)
  then show ?thesis
    using pg store0_ok(1) by (simp add: wf_msg_def msg_ok_def asl_msg_type_def t)
qed

lemma full_page_no_room: "no_room asl_documented store0 [full_page] ''Host'' (Some ''x'') 0"
proof -
  have std: "std_key asl_documented ''Host'' (strlen32 ''Host'') = 0x8003"
    by (simp add: std_key_def strlen32_def std_cases_def first_test_def asl_documented_def)
  have t: "pg_type full_page = TYPE_MSG" "pg_data_size full_page = 220" by (simp_all add: full_page_def)
  have k: "get_slot_key full_page 0 = 0x8003" "get_slot_val full_page 0 = 0"
    using full_kvo [of 0] full_kvo [of 15] by (simp_all add: get_slot_key_def get_slot_val_def t)
  have m: "msg_index asl_documented store0 [full_page] (Some ''Host'') = Some (Some (0, 0, 0))"
    using std k by (simp add: msg_index_def slot_matches_def kv_defs)
  have "old_value full_page 0 = Some (no_val\<lparr>intval := Some [], intvallen := 1\<rparr>)"
    using k full_words by (simp add: old_value_def kv_defs(6))
  then have "replace_val (Some ''x'') 0 0 store0 full_page = Some (NoRoom, store0, full_page)"
    using k full_words t
    by (simp add: replace_val_def no_val_def change_val_def shrink_tail_def drop_extval_def Let_def)
  then show ?thesis using m by (auto simp: no_room_def)
qed

section \<open>Properties\<close>



text \<open>
  C27: adding an entry of a key and a value that fit in a page together can only fail for want of a
  new page. The call then returns \<open>-1\<close>, with the message as it was and all its entries; otherwise it
  returns 0 and the message has exactly one entry more.
\<close>

theorem asl_add_entry_error:
  assumes "wf_msg H st msg" "cstring key" "\<forall>v. val = Some v \<longrightarrow> cstring v"
    and "fits_page (std_key H key (strlen32 key)) key val" "\<forall>e\<in>#msg_entries H st msg. fst e \<noteq> key"
  shows "\<exists>status st' msg'. set_kvo H st msg key val opv = Some (status, st', msg') \<and> wf_msg H st' msg' \<and>
     (if status = 0 then msg_entries H st' msg' = add_mset (key, val, entry_op (asl_msg_type msg) opv) (msg_entries H st msg)
      else status = - 1 \<and> fails st (allocs st) \<and> msg' = msg \<and> msg_entries H st' msg = msg_entries H st msg)"
proof -
  have ok: "msg_ok H st msg" using assms(1) by (simp add: wf_msg_def)
  note ne = msg_okD(1) [OF ok]
  have s: "set_kvo H st msg key val opv = new_key_val_op H st msg key val opv"
  proof (cases rule: msg_index_cases [OF ok, of key])
    case (2 i pi s v opw)
    then show ?thesis using assms(5) in_msg_entries [OF ok] by fastforce
  qed (use ne in \<open>simp add: set_kvo_def\<close>)
  have a: "alloc_space (std_key H key (strlen32 key)) key val st = Some (start_space (std_key H key (strlen32 key)) key val, st)"
    "space_ok (std_key H key (strlen32 key)) key val st st (start_space (std_key H key (strlen32 key)) key val)"
    using alloc_small [OF assms(4,2), of st] assms(3) by auto
  show ?thesis
  proof (rule new_key_val_op_space [OF ok assms(2) _ a, of opv])
    fix st' msg'
    assume r: "new_key_val_op H st msg key val opv = Some (0, st', msg')" "msg_step H st msg st' msg'"
      "msg_entries H st' msg' = add_mset (key, val, entry_op (asl_msg_type msg) opv) (msg_entries H st msg)"
    have "msg_entries H st' msg' = set_entry (asl_msg_type msg) key val opv (msg_entries H st msg)"
      using r(3) filter_absent [OF assms(5)] by (simp add: set_entry_def)
    from wf_msg_set [OF assms(1) r(2) this] show ?thesis using r s by auto
  next
    fix st'
    assume r: "new_key_val_op H st msg key val opv = Some (- 1, st', msg)" "fails st (allocs st)"
      "msg_step H st msg st' msg" "msg_entries H st' msg = msg_entries H st msg"
    have "wf_msg H st' msg" using assms(1) r(4) msg_stepD(1) [OF r(3)] by (simp add: wf_msg_def)
    then show ?thesis using r s by auto
  qed (use assms(3) in auto)
qed

theorem asl_add_entry_error_witness:
  "\<exists>status st' msg'. set_kvo asl_documented store1 msg0 ''k'' (Some ''v'') 0 = Some (status, st', msg') \<and>
     wf_msg asl_documented st' msg'"
proof -
  have c: "cstring ''k''" "\<forall>v. Some ''v'' = Some v \<longrightarrow> cstring v" by (simp_all add: cstring_def Nul_def)
  have f: "fits_page (std_key asl_documented ''k'' (strlen32 ''k'')) ''k'' (Some ''v'')"
    by (simp add: fits_page_def start_space_def kv_total_def std_key_def strlen32_def std_cases_def
        first_test_def asl_documented_def)
  have "e \<in># msg_entries asl_documented store1 msg0 \<Longrightarrow> fst e \<noteq> ''k''" for e by simp
  then show ?thesis
    using asl_add_entry_error [OF msg0_wf(1) c f, of 0] by auto
qed

end
