(* ===== verification/Asl_Iter.thy ===== *)
theory Asl_Iter
  imports Asl_Limits
begin

text \<open>
  Going through the entries of a message. \<open>asl_msg_fetch\<close> is called with what it returned before, the
  slot and the page of the next entry in one number; the loops of the code on it visit every entry
  once, in the order of the pages and slots, after the first slot of the first page, which they
  visit even where it is free. With that, copying, merging and replacing are described
  by the entries they leave.
\<close>

section \<open>The positions that a loop visits\<close>

text \<open>The occupied positions behind slot \<open>s\<close> of page \<open>p\<close>, in the order of the loops.\<close>

definition occupied :: "asl_msg \<Rightarrow> nat \<Rightarrow> nat \<Rightarrow> bool" where
  "occupied msg p s \<longleftrightarrow> pg_kvo (msg ! p) ! s \<noteq> ASL_MSG_SLOT_FREE"

definition page_positions :: "asl_msg \<Rightarrow> nat \<Rightarrow> nat list \<Rightarrow> (nat \<times> nat) list" where
  "page_positions msg p ss = map (Pair p) (filter (occupied msg p) ss)"

definition later :: "asl_msg \<Rightarrow> nat \<Rightarrow> nat \<Rightarrow> (nat \<times> nat) list" where
  "later msg p s =
     page_positions msg p [Suc s..<slot_count msg] @
     concat (map (\<lambda>q. page_positions msg q [0..<slot_count msg]) [Suc p..<length msg])"

definition visits :: "asl_msg \<Rightarrow> (nat \<times> nat) list" where
  "visits msg = (0, 0) # later msg 0 0"

text \<open>The number that \<open>asl_msg_fetch\<close> returns for a position.\<close>

definition iter :: "nat \<Rightarrow> nat \<Rightarrow> 32 word" where
  "iter p s = push_bit 24 (of_nat s) OR of_nat p"

lemma iter_fields:
  assumes "p < 2 ^ 24" "s < 2 ^ 8"
  shows "unat (drop_bit 24 (iter p s)) = s" "unat (iter p s AND 0x00ffffff) = p"
proof -
  have p: "(of_nat p :: 32 word) = take_bit 24 (of_nat p)" and s: "(of_nat s :: 32 word) = take_bit 8 (of_nat s)"
    using assms by (simp_all add: word_unat_eq_iff unsigned_of_nat unsigned_take_bit_eq take_bit_nat_eq_self)
  have m: "(0x00ffffff :: 32 word) = mask 24" by (simp add: mask_eq_exp_minus_1)
  have "drop_bit 24 (iter p s) = take_bit 8 (of_nat s)"
    unfolding iter_def by (subst p, subst s, rule bit_word_eqI) (auto simp: bit_simps)
  then show "unat (drop_bit 24 (iter p s)) = s" using assms s by (simp add: unsigned_of_nat take_bit_nat_eq_self)
  have "iter p s AND mask 24 = take_bit 24 (of_nat p)"
    unfolding iter_def by (subst p, rule bit_word_eqI) (auto simp: bit_simps)
  then show "unat (iter p s AND 0x00ffffff) = p"
    using assms p unfolding m by (simp add: unsigned_of_nat take_bit_nat_eq_self)
qed

lemma page_positions_Cons:
  "page_positions msg p (s # ss) = (if occupied msg p s then [(p, s)] else []) @ page_positions msg p ss"
  by (simp add: page_positions_def)

lemma page_positions_Nil [simp]: "page_positions msg p [] = []"
  by (simp add: page_positions_def)

lemma later_same_page:
  "Suc s < slot_count msg \<Longrightarrow>
     later msg p s = (if occupied msg p (Suc s) then [(p, Suc s)] else []) @ later msg p (Suc s)"
  by (simp add: later_def upt_conv_Cons page_positions_Cons)

lemma later_next_page:
  assumes "\<not> Suc s < slot_count msg" "0 < slot_count msg"
  shows "later msg p s =
     (if Suc p < length msg then (if occupied msg (Suc p) 0 then [(Suc p, 0)] else []) @ later msg (Suc p) 0 else [])"
  using assms by (simp add: later_def upt_conv_Cons page_positions_Cons)

text \<open>\<open>next_entry\<close> finds the head of the positions that are left, which have its own behind it.\<close>

lemma next_entry_later:
  assumes "p < length msg" "s < slot_count msg"
  shows "next_entry (slot_count msg) (drop p msg) p s =
      (case later msg p s of [] \<Rightarrow> 0xff000000 | (p', s') # _ \<Rightarrow> iter p' s')"
    and "later msg p s = (p', s') # L \<Longrightarrow>
      p' < length msg \<and> s' < slot_count msg \<and> occupied msg p' s' \<and> L = later msg p' s'"
proof -
  have "next_entry (slot_count msg) (drop p msg) p s =
      (case later msg p s of [] \<Rightarrow> 0xff000000 | (p', s') # _ \<Rightarrow> iter p' s') \<and>
    (\<forall>p' s' L. later msg p s = (p', s') # L \<longrightarrow>
      p' < length msg \<and> s' < slot_count msg \<and> occupied msg p' s' \<and> L = later msg p' s')"
    using assms
  proof (induction "slot_count msg" "drop p msg" p s rule: next_entry.induct)
    case (2 page rest p s)
    have d: "drop p msg = page # rest" using 2(3) by simp
    have pg: "page = msg ! p" and rest: "rest = drop (Suc p) msg"
      using d 2(4) by (metis Cons_nth_drop_Suc list.inject)+
    show ?case
    proof (cases "Suc s \<ge> slot_count msg")
      case True
      show ?thesis
      proof (cases rest)
        case Nil
        then have "\<not> Suc p < length msg" using rest by simp
        then show ?thesis using True d 2(5) Nil later_next_page [of s msg p] by simp
      next
        case (Cons page' rest')
        then have l: "Suc p < length msg" using rest by (metis drop_all list.distinct(1) not_le)
        then have pg': "page' = msg ! Suc p" using rest Cons by (metis Cons_nth_drop_Suc list.inject)
        have la: "later msg p s = (if occupied msg (Suc p) 0 then [(Suc p, 0)] else []) @ later msg (Suc p) 0"
          using later_next_page [of s msg p] True 2(5) l by simp
        have n: "next_entry (slot_count msg) (drop p msg) p s =
            (if occupied msg (Suc p) 0 then of_nat (Suc p) else next_entry (slot_count msg) (drop (Suc p) msg) (Suc p) 0)"
          using True Cons pg' by (simp add: d occupied_def flip: rest)
        show ?thesis
        proof (cases "occupied msg (Suc p) 0")
          case o: True
          then show ?thesis using n la l 2(5) by (simp add: iter_def)
        next
          case o: False
          have "later msg p s = later msg (Suc p) 0" using la o by simp
          moreover have "next_entry (slot_count msg) (drop p msg) p s = next_entry (slot_count msg) (drop (Suc p) msg) (Suc p) 0"
            using n o by simp
          moreover note 2(1) [OF True Cons _ rest l]
          ultimately show ?thesis using o pg' 2(5) rest by (simp add: occupied_def)
        qed
      qed
    next
      case False
      have la: "later msg p s = (if occupied msg p (Suc s) then [(p, Suc s)] else []) @ later msg p (Suc s)"
        using later_same_page False by simp
      have n: "next_entry (slot_count msg) (drop p msg) p s =
          (if occupied msg p (Suc s) then iter p (Suc s) else next_entry (slot_count msg) (drop p msg) p (Suc s))"
        using False pg by (simp add: d occupied_def iter_def)
      show ?thesis
      proof (cases "occupied msg p (Suc s)")
        case o: True
        then show ?thesis using n la False 2(4) by simp
      next
        case o: False
        have "later msg p s = later msg p (Suc s)" using la o by simp
        moreover have "next_entry (slot_count msg) (drop p msg) p s = next_entry (slot_count msg) (drop p msg) p (Suc s)"
          using n o by simp
        moreover note 2(2) [OF False _ d [symmetric] 2(4)]
        ultimately show ?thesis using o False pg by (simp add: occupied_def d)
      qed
    qed
  qed simp
  then show "next_entry (slot_count msg) (drop p msg) p s =
      (case later msg p s of [] \<Rightarrow> 0xff000000 | (p', s') # _ \<Rightarrow> iter p' s')"
    and "later msg p s = (p', s') # L \<Longrightarrow>
      p' < length msg \<and> s' < slot_count msg \<and> occupied msg p' s' \<and> L = later msg p' s'"
    by blast+
qed

section \<open>What a loop gets to see\<close>

definition out_at :: "asl_h \<Rightarrow> asl_store \<Rightarrow> asl_msg \<Rightarrow> nat \<times> nat \<Rightarrow> kvo_out" where
  "out_at H st msg = (\<lambda>(p, s).
     case slot_entry H st (msg ! p) s of
       Some (k, v, opw) \<Rightarrow> (Some k, v, opw)
     | None \<Rightarrow> (None, None, get_slot_op (msg ! p) s))"

lemma fetch_at:
  assumes ok: "msg_ok H st msg" and len: "length msg < 2 ^ 24" and p: "p < length msg" and s: "s < slot_count msg"
  shows "asl_msg_fetch H st msg (iter p s) =
    Some (case later msg p s of [] \<Rightarrow> 0xff000000 | (p', s') # _ \<Rightarrow> iter p' s', Some (out_at H st msg (p, s)))"
proof -
  have sl: "s < page_slots (msg ! p)" "slot_count msg \<le> 15"
    using s p msg_okD(4) [OF ok p] slot_count_type [OF msg_okD(1) [OF ok]] type_slots_le(1) by simp_all
  have f: "unat (drop_bit 24 (iter p s)) = s" "unat (iter p s AND 0x00ffffff) = p"
    using iter_fields [of p s] len p s sl(2) by simp_all
  let ?pg = "msg ! p"
  have pg: "page_ok H st ?pg" using msg_okD(3) [OF ok p] .
  have r: "slot_key H st ?pg s = Some (fst (out_at H st msg (p, s)))"
    "slot_val st ?pg s = Some (fst (snd (out_at H st msg (p, s))))"
    "get_slot_op ?pg s = snd (snd (out_at H st msg (p, s)))"
  proof -
    have k: "pg_kvo ?pg ! s \<noteq> ASL_MSG_SLOT_FREE \<Longrightarrow> \<exists>str. word_str H st (pg_data ?pg) (pg_kvo ?pg ! s) = Some str"
      using page_word_ok [OF pg, of s] sl by (auto simp: word_ok_def)
    show "slot_key H st ?pg s = Some (fst (out_at H st msg (p, s)))"
      "slot_val st ?pg s = Some (fst (snd (out_at H st msg (p, s))))"
      "get_slot_op ?pg s = snd (snd (out_at H st msg (p, s)))"
      using slot_key_read [OF pg sl(1)] slot_val_read [OF pg sl(1)] page_okD(6) [OF pg sl(1)] k
      by (auto simp: out_at_def slot_entry_def)
  qed
  show ?thesis
    using f p s sl(2) next_entry_later(1) [OF p s] r msg_okD(1) [OF ok] by (simp add: asl_msg_fetch_def Let_def)
qed

lemma fetch_end: "asl_msg_fetch H st msg 0xff000000 = Some (IndexNull, None)"
  by (simp add: asl_msg_fetch_def Let_def)

lemma iter_0: "iter 0 0 = 0"
  by (simp add: iter_def)

lemma iter_not_null:
  assumes "p < 2 ^ 24" "s < 15"
  shows "iter p s \<noteq> IndexNull"
proof
  assume "iter p s = IndexNull"
  then have "unat (drop_bit 24 (- 1 :: 32 word)) = s" using iter_fields(1) [of p s] assms by (simp add: IndexNull_def)
  moreover have "drop_bit 24 (- 1 :: 32 word) = 0xff" by code_simp
  ultimately show False using assms(2) by simp
qed


text \<open>The entries among the visited, and the positions they are at.\<close>

definition entry_at :: "asl_h \<Rightarrow> asl_store \<Rightarrow> asl_msg \<Rightarrow> nat \<times> nat \<Rightarrow> kvo_entry option" where
  "entry_at H st msg = (\<lambda>(p, s). slot_entry H st (msg ! p) s)"

definition some_list :: "'a option \<Rightarrow> 'a list" where
  "some_list x = (case x of None \<Rightarrow> [] | Some a \<Rightarrow> [a])"

definition entry_list :: "asl_h \<Rightarrow> asl_store \<Rightarrow> asl_msg \<Rightarrow> kvo_entry list" where
  "entry_list H st msg = concat (map (\<lambda>pos. some_list (entry_at H st msg pos)) (visits msg))"

lemma mset_some_list [simp]: "mset (some_list x) = opt_mset x"
  by (cases x) (simp_all add: some_list_def)

lemma mset_page_positions:
  "mset (concat (map (\<lambda>pos. some_list (entry_at H st msg pos)) (page_positions msg p ss))) =
     sum_list (map (\<lambda>s. opt_mset (slot_entry H st (msg ! p) s)) ss)"
proof (induction ss)
  case (Cons s ss)
  have "slot_entry H st (msg ! p) s = None" if "\<not> occupied msg p s"
    using that by (simp add: slot_entry_def occupied_def)
  then show ?case using Cons by (simp add: page_positions_Cons entry_at_def)
qed simp

lemma mset_pages:
  "mset (concat (map (\<lambda>pos. some_list (entry_at H st msg pos)) (concat (map (\<lambda>q. page_positions msg q ss) qs)))) =
     sum_list (map (\<lambda>q. sum_list (map (\<lambda>s. opt_mset (slot_entry H st (msg ! q) s)) ss)) qs)"
  by (induction qs) (simp_all add: mset_page_positions)

lemma mset_entry_list:
  assumes ok: "msg_ok H st msg"
  shows "mset (entry_list H st msg) = msg_entries H st msg"
proof -
  note ne = msg_okD(1) [OF ok]
  have n: "0 < slot_count msg"
    using page_okD(1) [OF msg_okD(3) [OF ok, of 0]] msg_okD(4) [OF ok, of 0] ne slot_count_type [OF ne] by auto
  let ?f = "\<lambda>q s. opt_mset (slot_entry H st (msg ! q) s)"
  have pe: "page_entries H st (msg ! q) = sum_list (map (?f q) [0..<slot_count msg])" if "q < length msg" for q
    using msg_okD(4) [OF ok that] slot_count_type [OF ne]
    by (simp add: page_entries_def interv_sum_list_conv_sum_set_nat lessThan_atLeast0)
  have "mset (entry_list H st msg) =
      ?f 0 0 + (sum_list (map (?f 0) [Suc 0..<slot_count msg]) +
      sum_list (map (\<lambda>q. sum_list (map (?f q) [0..<slot_count msg])) [Suc 0..<length msg]))"
    unfolding entry_list_def visits_def later_def
    by (simp add: mset_page_positions mset_pages) (simp add: entry_at_def)
  also have "\<dots> = sum_list (map (\<lambda>q. sum_list (map (?f q) [0..<slot_count msg])) [0..<length msg])"
    using n ne by (simp add: upt_conv_Cons [of 0] add.assoc)
  also have "\<dots> = sum_list (map (\<lambda>q. page_entries H st (msg ! q)) [0..<length msg])"
    by (intro arg_cong [of _ _ sum_list] map_cong) (auto simp: pe)
  also have "\<dots> = msg_entries H st msg"
    by (simp add: msg_entries_def interv_sum_list_conv_sum_set_nat lessThan_atLeast0)
  finally show ?thesis .
qed

section \<open>The loops over the entries\<close>

text \<open>
  A loop ends, having run its step on everything it visits in this order, where the steps keep a
  relation \<open>J\<close> between what was visited, the store and the target, and leave what there is to see.
\<close>

lemma entry_loop_visits:
  assumes ok: "\<And>seen st t. J seen st t \<Longrightarrow> msg_ok H st msg" and len: "length msg < 2 ^ 24"
    and out: "\<And>seen st t pos. J seen st t \<Longrightarrow> pos \<in> set (visits msg) \<Longrightarrow> out_at H st msg pos = out pos"
    and step: "\<And>seen pos rest st t. visits msg = seen @ pos # rest \<Longrightarrow> J seen st t \<Longrightarrow>
      \<exists>st' t'. step st t (out pos) = Some (st', t') \<and> J (seen @ [pos]) st' t'"
    and start: "J [] st t"
  shows "\<exists>st' t'. entry_loop H step msg 0 st t = Some (st', t') \<and> J (visits msg) st' t'"
proof -
  have ok0: "msg_ok H st msg" by (rule ok [OF start])
  note ne = msg_okD(1) [OF ok0]
  have n: "0 < slot_count msg" "slot_count msg \<le> 15"
    using page_okD(1) [OF msg_okD(3) [OF ok0, of 0]] msg_okD(4) [OF ok0, of 0] ne slot_count_type [OF ne] by auto
  have "\<exists>st' t'. entry_loop H step msg (iter p s) st t = Some (st', t') \<and> J (visits msg) st' t'"
    if "visits msg = seen @ (p, s) # later msg p s" "J seen st t" "p < length msg" "s < slot_count msg" for p s seen st t
    using that
  proof (induction "length (later msg p s)" arbitrary: p s seen st t)
    case 0
    then have l: "later msg p s = []" by simp
    then have v: "visits msg = seen @ (p, s) # []" using 0(2) by simp
    obtain st' t' where s: "step st t (out (p, s)) = Some (st', t')" "J (seen @ [(p, s)]) st' t'"
      using step [OF v 0(3)] by blast
    have "out_at H st msg (p, s) = out (p, s)" using out [OF 0(3), of "(p, s)"] 0(2) by simp
    then have "entry_loop H step msg (iter p s) st t = Some (st', t')"
      using fetch_at [OF ok [OF 0(3)] len 0(4,5)] s l fetch_end entry_loop.simps [of H step msg "iter p s"]
        entry_loop.simps [of H step msg "0xff000000" st' t']
      by (simp add: IndexNull_def)
    then show ?case using s(2) 0(2) l by simp
  next
    case (Suc k)
    then obtain p' s' L where l: "later msg p s = (p', s') # L" by (metis length_Suc_conv surj_pair)
    note nx = next_entry_later(2) [OF Suc(5,6) l]
    obtain st' t' where s: "step st t (out (p, s)) = Some (st', t')" "J (seen @ [(p, s)]) st' t'"
      using step [OF Suc(3,4)] by blast
    have "out_at H st msg (p, s) = out (p, s)" using out [OF Suc(4), of "(p, s)"] Suc(3) by simp
    moreover have "iter p' s' \<noteq> IndexNull" using iter_not_null nx len n(2) by simp
    ultimately have e: "entry_loop H step msg (iter p s) st t = entry_loop H step msg (iter p' s') st' t'"
      using fetch_at [OF ok [OF Suc(4)] len Suc(5,6)] s(1) l entry_loop.simps [of H step msg "iter p s"] by simp
    have "k = length (later msg p' s')" using Suc(2) l nx by simp
    moreover have "visits msg = (seen @ [(p, s)]) @ (p', s') # later msg p' s'" using Suc(3) l nx by simp
    ultimately show ?case using Suc(1) s(2) nx e by metis
  qed
  from this [of "[]" 0 0 st t] show ?thesis using start ne n by (simp add: visits_def iter_0)
qed

section \<open>Entries put into another message\<close>

lemma visits_range:
  assumes "msg_ok H st msg" "pos \<in> set (visits msg)"
  shows "fst pos < length msg" "snd pos < page_slots (msg ! fst pos)"
proof -
  note ne = msg_okD(1) [OF assms(1)]
  have n: "0 < slot_count msg"
    using page_okD(1) [OF msg_okD(3) [OF assms(1), of 0]] msg_okD(4) [OF assms(1), of 0] ne slot_count_type [OF ne] by auto
  have r: "fst pos < length msg \<and> snd pos < slot_count msg"
    using assms(2) n ne by (auto simp: visits_def later_def page_positions_def)
  then show "fst pos < length msg" by simp
  then show "snd pos < page_slots (msg ! fst pos)"
    using r msg_okD(4) [OF assms(1), of "fst pos"] slot_count_type [OF ne] by simp
qed

lemma entry_cstrings:
  assumes ok: "page_ok H st pg" and s: "s < page_slots pg" and e: "slot_entry H st pg s = Some (k, v, opw)"
  shows "cstring k" "v = Some w \<Longrightarrow> cstring w"
proof -
  have ws: "word_ok H st (pg_data pg) (pg_data_size pg) (pg_kvo pg ! s)"
    "word_ok H st (pg_data pg) (pg_data_size pg) (pg_kvo pg ! (s + page_slots pg))"
    using page_word_ok [OF ok] s by simp_all
  show "cstring k" using ws(1) e by (auto simp: word_ok_def slot_entry_def split: if_splits)
  show "cstring w" if "v = Some w"
    using ws(2) e that by (auto simp: word_ok_def slot_entry_def split: if_splits)
qed

text \<open>What there is to see of a message stays when another one in its store is changed.\<close>

lemma out_other:
  assumes step: "msg_step H st t st' t'" and ok: "msg_ok H st msg" and dis: "msg_ptrs t \<inter> msg_ptrs msg = {}"
    and pos: "pos \<in> set (visits msg)"
  shows "out_at H st' msg pos = out_at H st msg pos"
proof -
  obtain p s where p: "pos = (p, s)" by (cases pos)
  note r = visits_range [OF ok pos, unfolded p, simplified]
  have "msg_ptrs t \<inter> page_ptrs (msg ! p) = {}" using dis r(1) by (auto simp: msg_ptrs_def)
  then have "slot_entry H st' (msg ! p) s = slot_entry H st (msg ! p) s"
    using page_store(2) [OF msg_okD(3) [OF ok r(1)] msg_okD(2) [OF ok] msg_stepD(3) [OF step]] r(2) by blast
  then show ?thesis by (simp add: out_at_def p)
qed

definition key_known :: "string \<Rightarrow> kvo_entry multiset \<Rightarrow> bool" where
  "key_known k M \<longleftrightarrow> (\<exists>e\<in>#M. fst e = k)"

text \<open>The contract of a step on the target, with its effect on the entries.\<close>

definition puts :: "asl_h \<Rightarrow> asl_type \<Rightarrow> (kvo_entry \<Rightarrow> kvo_entry multiset \<Rightarrow> kvo_entry multiset) \<Rightarrow>
    (asl_store \<Rightarrow> asl_msg \<Rightarrow> kvo_out \<Rightarrow> (asl_store \<times> asl_msg) option) \<Rightarrow> bool" where
  "puts H ty upd step \<longleftrightarrow>
     (\<forall>st t v opw. t \<noteq> [] \<longrightarrow> step st t (None, v, opw) = Some (st, t)) \<and>
     (\<forall>st t k v opw. wf_msg H st t \<and> asl_msg_type t = ty \<and> enough st \<and> cstring k \<and> (\<forall>w. v = Some w \<longrightarrow> cstring w) \<longrightarrow>
        (\<exists>st' t'. step st t (Some k, v, opw) = Some (st', t') \<and> msg_step H st t st' t' \<and> wf_msg H st' t' \<and>
           msg_entries H st' t' = upd (k, v, opw) (msg_entries H st t)))"

lemma putsD:
  assumes "puts H ty upd step"
  shows "t \<noteq> [] \<Longrightarrow> step st t (None, v, opw) = Some (st, t)"
    "wf_msg H st t \<Longrightarrow> asl_msg_type t = ty \<Longrightarrow> enough st \<Longrightarrow> cstring k \<Longrightarrow> (\<And>w. v = Some w \<Longrightarrow> cstring w) \<Longrightarrow>
       \<exists>st' t'. step st t (Some k, v, opw) = Some (st', t') \<and> msg_step H st t st' t' \<and> wf_msg H st' t' \<and>
         msg_entries H st' t' = upd (k, v, opw) (msg_entries H st t)"
  using assms by (simp_all add: puts_def)

lemma entry_loop_puts:
  assumes puts: "puts H ty upd step" and msg: "wf_msg H st msg" "length msg < 2 ^ 24"
    and t: "wf_msg H st t" "asl_msg_type t = ty" "enough st" "msg_ptrs t \<inter> msg_ptrs msg = {}"
  shows "\<exists>st' t'. entry_loop H step msg 0 st t = Some (st', t') \<and> wf_msg H st' t' \<and> asl_msg_type t' = ty \<and>
     enough st' \<and> wf_msg H st' msg \<and> msg_entries H st' msg = msg_entries H st msg \<and>
     msg_ptrs t' \<inter> msg_ptrs msg = {} \<and>
     msg_entries H st' t' = fold upd (entry_list H st msg) (msg_entries H st t)"
proof -
  define ents where "ents = (\<lambda>ps. concat (map (\<lambda>pos. some_list (entry_at H st msg pos)) ps))"
  define J where "J = (\<lambda>seen st1 t1. wf_msg H st1 msg \<and> msg_entries H st1 msg = msg_entries H st msg \<and>
    (\<forall>pos\<in>set (visits msg). out_at H st1 msg pos = out_at H st msg pos) \<and>
    wf_msg H st1 t1 \<and> asl_msg_type t1 = ty \<and> enough st1 \<and> msg_ptrs t1 \<inter> msg_ptrs msg = {} \<and>
    msg_entries H st1 t1 = fold upd (ents seen) (msg_entries H st t))"
  have ok: "msg_ok H st msg" using msg(1) by (simp add: wf_msg_def)
  have "\<exists>st' t'. entry_loop H step msg 0 st t = Some (st', t') \<and> J (visits msg) st' t'"
  proof (rule entry_loop_visits [where out = "out_at H st msg", OF _ msg(2)])
    show "msg_ok H st1 msg" if "J seen st1 t1" for seen st1 t1 using that by (simp add: J_def wf_msg_def)
    show "out_at H st1 msg pos = out_at H st msg pos" if "J seen st1 t1" "pos \<in> set (visits msg)" for seen st1 t1 pos
      using that by (simp add: J_def)
    show "J [] st t" using msg t by (simp add: J_def ents_def)
    fix seen pos rest st1 t1
    assume v: "visits msg = seen @ pos # rest" and j: "J seen st1 t1"
    obtain p s where p: "pos = (p, s)" by (cases pos)
    have pv: "pos \<in> set (visits msg)" using v by simp
    note r = visits_range [OF ok pv, unfolded p, simplified]
    have wt: "wf_msg H st1 t1" "asl_msg_type t1 = ty" "enough st1" "msg_ptrs t1 \<inter> msg_ptrs msg = {}"
      and wm: "wf_msg H st1 msg" and em: "msg_entries H st1 t1 = fold upd (ents seen) (msg_entries H st t)"
      using j by (simp_all add: J_def)
    show "\<exists>st' t'. step st1 t1 (out_at H st msg pos) = Some (st', t') \<and> J (seen @ [pos]) st' t'"
    proof (cases "slot_entry H st (msg ! p) s")
      case None
      have "t1 \<noteq> []" using wt(1) by (simp add: wf_msg_def msg_ok_def)
      then have "step st1 t1 (out_at H st msg pos) = Some (st1, t1)"
        using putsD(1) [OF puts] None p by (simp add: out_at_def)
      moreover have "J (seen @ [pos]) st1 t1"
        using j None p by (simp add: J_def ents_def entry_at_def some_list_def)
      ultimately show ?thesis by blast
    next
      case (Some e)
      obtain k v opw where e: "e = (k, v, opw)" by (cases e)
      note cs = entry_cstrings [OF msg_okD(3) [OF ok r(1)] r(2) Some [unfolded e]]
      obtain st' t' where s: "step st1 t1 (Some k, v, opw) = Some (st', t')" "msg_step H st1 t1 st' t'"
        "wf_msg H st' t'" "msg_entries H st' t' = upd e (msg_entries H st1 t1)"
        using putsD(2) [OF puts wt(1-3) cs] e by metis
      note o = other_msg [OF s(2) wm wt(4)]
      have "J (seen @ [pos]) st' t'"
        using j s o out_other [OF s(2) _ wt(4)] wm msg_stepD(2) [OF s(2)] msg_step_enough [OF s(2) wt(3)] Some p
        by (simp add: J_def ents_def entry_at_def some_list_def wf_msg_def)
      then show ?thesis using s(1) Some p e by (auto simp: out_at_def)
    qed
  qed
  then show ?thesis by (auto simp: J_def ents_def entry_list_def)
qed

section \<open>Copying, appending and prepending\<close>

text \<open>An entry as it is stored again: its value is normalised once more, a message keeps no operations.\<close>

definition put_op :: "asl_h \<Rightarrow> asl_type \<Rightarrow> 16 word \<Rightarrow> 32 word" where
  "put_op H sty opw = norm_op H (ucast (type_op sty opw))"

definition copied :: "asl_h \<Rightarrow> asl_type \<Rightarrow> asl_type \<Rightarrow> kvo_entry \<Rightarrow> kvo_entry" where
  "copied H sty ty = (\<lambda>(k, v, opw). (k, norm_val H k v, entry_op ty (put_op H sty opw)))"

definition set_upd :: "asl_h \<Rightarrow> asl_type \<Rightarrow> asl_type \<Rightarrow> kvo_entry \<Rightarrow> kvo_entry multiset \<Rightarrow> kvo_entry multiset" where
  "set_upd H sty ty = (\<lambda>(k, v, opw). set_entry ty k (norm_val H k v) (put_op H sty opw))"

definition merge_upd :: "asl_h \<Rightarrow> asl_type \<Rightarrow> asl_type \<Rightarrow> kvo_entry \<Rightarrow> kvo_entry multiset \<Rightarrow> kvo_entry multiset" where
  "merge_upd H sty ty e M = (if key_known (fst e) M then M else set_upd H sty ty e M)"

lemma copied_key [simp]: "fst (copied H sty ty e) = fst e"
  by (cases e) (simp add: copied_def)

lemma set_upd_add:
  "set_upd H sty ty e M = add_mset (copied H sty ty e) (if ty = TYPE_QUERY then M else {#x \<in># M. fst x \<noteq> fst e#})"
  by (cases e) (simp add: set_upd_def copied_def set_entry_def)

lemma puts_set: "puts H ty (set_upd H sty ty) (set_step H sty)"
  unfolding puts_def
proof (intro conjI allI impI)
  fix st :: asl_store and t :: asl_msg and v opw
  show "set_step H sty st t (None, v, opw) = Some (st, t)"
    by (simp add: set_step_def asl_msg_set_key_val_op_def)
next
  fix st t k v opw
  assume a: "wf_msg H st t \<and> asl_msg_type t = ty \<and> enough st \<and> cstring k \<and> (\<forall>w. v = Some w \<longrightarrow> cstring w)"
  then obtain st' t' where "asl_msg_set_key_val_op H st t (Some k) v (ucast (type_op sty opw)) = Some (0, st', t')"
    "msg_step H st t st' t'" "wf_msg H st' t'"
    "msg_entries H st' t' = set_entry (asl_msg_type t) k (norm_val H k v) (norm_op H (ucast (type_op sty opw))) (msg_entries H st t)"
    using set_key_val_op_entries [of H st t k v "ucast (type_op sty opw)"] by metis
  then show "\<exists>st' t'. set_step H sty st t (Some k, v, opw) = Some (st', t') \<and> msg_step H st t st' t' \<and> wf_msg H st' t' \<and>
      msg_entries H st' t' = set_upd H sty ty (k, v, opw) (msg_entries H st t)"
    using a by (simp add: set_step_def set_upd_def put_op_def)
qed

lemma puts_merge: "puts H ty (merge_upd H sty ty) (merge_step H sty)"
  unfolding puts_def
proof (intro conjI allI impI)
  fix st :: asl_store and t :: asl_msg and v opw
  show "merge_step H sty st t (None, v, opw) = Some (st, t)"
    by (simp add: merge_step_def merge_key_val_op_def)
next
  fix st t k v opw
  assume a: "wf_msg H st t \<and> asl_msg_type t = ty \<and> enough st \<and> cstring k \<and> (\<forall>w. v = Some w \<longrightarrow> cstring w)"
  then have ok: "msg_ok H st t" by (simp add: wf_msg_def)
  note ne = msg_okD(1) [OF ok]
  show "\<exists>st' t'. merge_step H sty st t (Some k, v, opw) = Some (st', t') \<and> msg_step H st t st' t' \<and> wf_msg H st' t' \<and>
      msg_entries H st' t' = merge_upd H sty ty (k, v, opw) (msg_entries H st t)"
  proof (cases rule: msg_index_cases [OF ok, of k])
    case 1
    then have "\<not> key_known k (msg_entries H st t)" using no_key_entries [OF ok] by (auto simp: key_known_def)
    moreover have "merge_step H sty st t (Some k, v, opw) = set_step H sty st t (Some k, v, opw)"
      using 1 ne by (simp add: merge_step_def merge_key_val_op_def set_step_def)
    ultimately show ?thesis
      using putsD(2) [OF puts_set [of H ty sty], of st t k v opw] a by (simp add: merge_upd_def)
  next
    case (2 i pi s v' opw')
    then have "(k, v', opw') \<in># msg_entries H st t" using in_msg_entries [OF ok] by blast
    then have "key_known k (msg_entries H st t)" by (force simp: key_known_def)
    moreover have "merge_step H sty st t (Some k, v, opw) = Some (st, t)"
      using 2 ne by (simp add: merge_step_def merge_key_val_op_def)
    ultimately show ?thesis using a msg_step_refl [OF ok] by (simp add: merge_upd_def)
  qed
qed

text \<open>The folds over the entries, where no key is twice among them.\<close>

lemma keys_once_distinct:
  assumes "keys_once (mset es)"
  shows "distinct (map fst es)"
  using assms
proof (induction es)
  case (Cons e es)
  have k: "size {#x \<in># mset (e # es). fst x = k#} \<le> 1" for k
    using Cons.prems by (simp only: keys_once_def)
  have "{#x \<in># mset es. fst x = fst e#} = {#}" using k [of "fst e"] by simp
  then have "fst e \<notin> fst ` set es" by (auto simp: filter_mset_eq_conv)
  moreover have "keys_once (mset es)"
    unfolding keys_once_def
  proof
    fix j
    have "size {#x \<in># mset es. fst x = j#} \<le> size {#x \<in># mset (e # es). fst x = j#}" by simp
    then show "size {#x \<in># mset es. fst x = j#} \<le> 1" using k [of j] by linarith
  qed
  ultimately show ?case using Cons.IH by simp
qed simp

lemma fold_set:
  assumes "ty = TYPE_QUERY \<or> distinct (map fst es) \<and> (\<forall>e\<in>set es. \<not> key_known (fst e) M)"
  shows "fold (set_upd H sty ty) es M = M + image_mset (copied H sty ty) (mset es)"
  using assms
proof (induction es arbitrary: M)
  case (Cons e es)
  have "{#x \<in># M. fst x \<noteq> fst e#} = M" if "\<not> key_known (fst e) M"
    using that filter_absent [of M "fst e"] by (auto simp: key_known_def)
  then have s: "set_upd H sty ty e M = add_mset (copied H sty ty e) M"
    using Cons.prems by (auto simp: set_upd_add)
  have "ty = TYPE_QUERY \<or> distinct (map fst es) \<and> (\<forall>e'\<in>set es. \<not> key_known (fst e') (add_mset (copied H sty ty e) M))"
    using Cons.prems by (auto simp: key_known_def)
  from Cons.IH [OF this] show ?case using s by simp
qed simp

lemma fold_merge:
  assumes "distinct (map fst es)"
  shows "fold (merge_upd H sty TYPE_MSG) es M =
    M + image_mset (copied H sty TYPE_MSG) {#e \<in># mset es. \<not> key_known (fst e) M#}"
  using assms
proof (induction es arbitrary: M)
  case (Cons e es)
  show ?case
  proof (cases "key_known (fst e) M")
    case True
    then show ?thesis using Cons by (simp add: merge_upd_def)
  next
    case False
    then have "{#x \<in># M. fst x \<noteq> fst e#} = M" using filter_absent [of M "fst e"] by (auto simp: key_known_def)
    then have m: "merge_upd H sty TYPE_MSG e M = add_mset (copied H sty TYPE_MSG e) M"
      using False by (simp add: merge_upd_def set_upd_add)
    have "{#e' \<in># mset es. \<not> key_known (fst e') (add_mset (copied H sty TYPE_MSG e) M)#} =
        {#e' \<in># mset es. \<not> key_known (fst e') M#}"
      using Cons.prems by (intro filter_mset_cong) (auto simp: key_known_def image_iff)
    then show ?thesis using Cons m False by simp
  qed
qed simp

lemma fold_replace:
  assumes "distinct (map fst es)"
  shows "fold (set_upd H sty TYPE_MSG) es M =
    {#e \<in># M. \<not> key_known (fst e) (mset es)#} + image_mset (copied H sty TYPE_MSG) (mset es)"
  using assms
proof (induction es arbitrary: M)
  case (Cons e es)
  let ?M = "{#x \<in># M. fst x \<noteq> fst e#}"
  have "\<not> key_known (fst e) (mset es)" using Cons.prems by (auto simp: key_known_def image_iff)
  then have "{#x \<in># add_mset (copied H sty TYPE_MSG e) ?M. \<not> key_known (fst x) (mset es)#} =
      add_mset (copied H sty TYPE_MSG e) {#x \<in># M. \<not> key_known (fst x) (mset (e # es))#}"
    by (auto simp: filter_filter_mset key_known_def intro!: filter_mset_cong)
  then show ?case using Cons by (simp add: set_upd_add)
qed (simp add: key_known_def)

section \<open>Properties\<close>

lemma store_later:
  assumes wf: "wf_msg H st msg" and le: "store_le {} st st1"
  shows "wf_msg H st1 msg" "msg_entries H st1 msg = msg_entries H st msg"
proof -
  have ok: "msg_ok H st msg" using wf by (simp add: wf_msg_def)
  note m = msg_store [OF ok le, simplified]
  show "msg_entries H st1 msg = msg_entries H st msg" by (rule m(2))
  then show "wf_msg H st1 msg" using m(1) wf by (simp add: wf_msg_def)
qed

lemma enough_later: "enough st \<Longrightarrow> store_le {} st st1 \<Longrightarrow> enough st1"
  using store_le_mem_left by (auto simp: store_le_def enough_def junk_ok_def)



text \<open>
  Appending a message to another adds the entries under keys that the other does not have;
  prepending it replaces what is under its keys. Both leave all other entries of the target and
  the message itself as they were, and the target ends up with no key twice.
\<close>

lemma asl_append_prepend:
  assumes "wf_msg H st msg" "length msg < 2 ^ 24" "asl_msg_type msg = TYPE_MSG"
    and "wf_msg H st t" "asl_msg_type t = TYPE_MSG" "enough st" "msg_ptrs t \<inter> msg_ptrs msg = {}"
  shows "(\<exists>st' t'. jump_append H st t msg = Some (st', t') \<and> wf_msg H st' t' \<and>
       msg_entries H st' msg = msg_entries H st msg \<and>
       msg_entries H st' t' = msg_entries H st t + image_mset (copied H TYPE_MSG TYPE_MSG)
         {#e \<in># msg_entries H st msg. \<not> key_known (fst e) (msg_entries H st t)#}) \<and>
     (\<exists>st' t'. jump_prepend H st t msg = Some (st', t') \<and> wf_msg H st' t' \<and>
       msg_entries H st' msg = msg_entries H st msg \<and>
       msg_entries H st' t' = {#e \<in># msg_entries H st t. \<not> key_known (fst e) (msg_entries H st msg)#} +
         image_mset (copied H TYPE_MSG TYPE_MSG) (msg_entries H st msg))"
proof -
  have ok: "msg_ok H st msg" "msg_ok H st t" using assms(1,4) by (simp_all add: wf_msg_def)
  note ne = msg_okD(1) [OF ok(1)] msg_okD(1) [OF ok(2)]
  have d: "distinct (map fst (entry_list H st msg))"
    using assms(1,3) keys_once_distinct mset_entry_list [OF ok(1)] by (simp add: wf_msg_def)
  note l = entry_loop_puts [OF puts_merge assms(1,2,4-7), of TYPE_MSG]
    entry_loop_puts [OF puts_set assms(1,2,4-7), of TYPE_MSG]
  show ?thesis
    using l fold_merge [OF d] fold_replace [OF d] mset_entry_list [OF ok(1)] ne assms(3)
    by (auto simp: jump_append_def jump_prepend_def asl_msg_merge_def asl_msg_replace_def Let_def)
qed

end
