(* ===== verification/Asl_Match.thy ===== *)
theory Asl_Match
  imports Asl_Iter "HOL-Library.Sublist"
begin

text \<open>
  Comparing messages and testing a query against a message (\<open>asl_msg.c\<close>, lines 1465 to 1871). A query
  is a conjunction: each of its entries compares the value of a key by its operation, as a string, a
  number, a time, a regular expression, or as a part of the value. \<open>regcomp\<close> with \<open>regexec\<close>, and
  \<open>asl_core_parse_time\<close>, which is not in the repository, are an argument (\<open>match_env\<close>).
\<close>

section \<open>Strings and numbers\<close>

record match_env =
  regex :: "bool \<Rightarrow> string \<Rightarrow> (string \<Rightarrow> bool) option"
  parse_time :: "string \<Rightarrow> int"

text \<open>The sign of \<open>strcmp\<close>, \<open>strncmp\<close> and their variants that ignore the case (in the C locale).\<close>

fun str_cmp :: "string \<Rightarrow> string \<Rightarrow> int" where
  "str_cmp [] [] = 0"
| "str_cmp [] (b # bs) = - 1"
| "str_cmp (a # as) [] = 1"
| "str_cmp (a # as) (b # bs) =
     (if a = b then str_cmp as bs else if (of_char a :: nat) < of_char b then - 1 else 1)"

definition is_digit :: "char \<Rightarrow> bool" where
  "is_digit c \<longleftrightarrow> 48 \<le> (of_char c :: nat) \<and> (of_char c :: nat) \<le> 57"

definition asl_isanumber :: "string option \<Rightarrow> bool" where
  "asl_isanumber s =
     (case s of
        None \<Rightarrow> False
      | Some s \<Rightarrow>
          let ds = (if s \<noteq> [] \<and> (hd s = CHR ''-'' \<or> hd s = CHR ''+'') then tl s else s)
          in ds \<noteq> [] \<and> list_all is_digit ds)"

text \<open>\<open>atoll\<close> of a number: a value out of the range of \<open>int64_t\<close> becomes the end of the range.\<close>

definition digits_val :: "string \<Rightarrow> int" where
  "digits_val ds = foldl (\<lambda>n c. n * 10 + (of_char c - 48)) 0 ds"

definition atoll :: "string \<Rightarrow> int" where
  "atoll s =
     (let n = (if hd s = CHR ''-'' then - digits_val (tl s)
               else if hd s = CHR ''+'' then digits_val (tl s) else digits_val s)
      in max (- (2 ^ 63)) (min (2 ^ 63 - 1) n))"

section \<open>Testing a value\<close>

definition ASL_QUERY_OP_FALSE :: "32 word" where
  "ASL_QUERY_OP_FALSE = 0"

text \<open>The \<open>switch\<close> on the relation: the order of the message's value and the query's is that of \<open>a\<close> and \<open>b\<close>.\<close>

definition rel_test :: "asl_h \<Rightarrow> 32 word \<Rightarrow> int \<Rightarrow> int \<Rightarrow> bool" where
  "rel_test H t a b =
     (if t = op_equal H then a = b
      else if t = op_greater H then a > b
      else if t = op_greater_equal H then a \<ge> b
      else if t = op_less H then a < b
      else if t = op_less_equal H then a \<le> b
      else if t = op_not_equal H then a \<noteq> b
      else t = op_not_equal H)"

definition compare_strings :: "bool \<Rightarrow> nat \<Rightarrow> string \<Rightarrow> string \<Rightarrow> int" where
  "compare_strings casefold n m q =
     (let cut = (\<lambda>s. if n = 0 then s else take n s)
      in if casefold then str_cmp (map lower (cut m)) (map lower (cut q)) else str_cmp (cut m) (cut q))"

definition basic_test :: "asl_h \<Rightarrow> match_env \<Rightarrow> 32 word \<Rightarrow> string option \<Rightarrow> string option \<Rightarrow> nat \<Rightarrow> bool" where
  "basic_test H env opv q m n =
     (let t = opv AND op_true H in
      case (q, m) of
        (Some q, Some m) \<Rightarrow>
          if opv AND op_regex H \<noteq> 0
          then (if t = op_greater H \<or> t = op_less H then False
                else case regex env (opv AND op_casefold H \<noteq> 0) q of
                  None \<Rightarrow> t AND op_not_equal H \<noteq> 0
                | Some f \<Rightarrow> if t = op_not_equal H then \<not> f m else f m)
          else if opv AND op_numeric H \<noteq> 0
          then (if \<not> asl_isanumber (Some q) then t = op_not_equal H
                else if \<not> asl_isanumber (Some m) then t = op_not_equal H
                else rel_test H t (atoll m) (atoll q))
          else rel_test H t (compare_strings (opv AND op_casefold H \<noteq> 0) n m q) 0
      | _ \<Rightarrow> t AND op_not_equal H \<noteq> 0)"

definition opt_len :: "string option \<Rightarrow> nat" where
  "opt_len s = (case s of None \<Rightarrow> 0 | Some s \<Rightarrow> strlen32 s)"

text \<open>The scan for a substring: it stops at the first match of an equality test, and counts the matches otherwise.\<close>

fun substring_scan :: "bool \<Rightarrow> (nat \<Rightarrow> bool) \<Rightarrow> nat list \<Rightarrow> nat \<Rightarrow> bool" where
  "substring_scan stop test [] match = (if stop then False else match = 0)"
| "substring_scan stop test (i # is) match =
     (if test i then (if stop then True else substring_scan stop test is (match + 1))
      else substring_scan stop test is match)"

definition test_substring :: "asl_h \<Rightarrow> match_env \<Rightarrow> 32 word \<Rightarrow> string option \<Rightarrow> string option \<Rightarrow> bool" where
  "test_substring H env opv q m =
     (let t = opv AND op_true H; lm = opt_len m; lq = opt_len q in
      if lq = 0 then t AND op_equal H \<noteq> 0
      else if lq > lm then t = op_not_equal H
      else if t = op_greater H \<or> t = op_less H then False
      else let newop = (opv AND 0xff0) OR op_equal H; d = lm - lq
        in substring_scan (t AND op_equal H \<noteq> 0)
             (\<lambda>i. basic_test H env newop q (map_option (drop i) m) lq) [0..<d + 1] 0)"

definition test_prefix :: "asl_h \<Rightarrow> match_env \<Rightarrow> 32 word \<Rightarrow> string option \<Rightarrow> string option \<Rightarrow> bool" where
  "test_prefix H env opv q m =
     (let t = opv AND op_true H; lm = opt_len m; lq = opt_len q in
      if lq = 0 then t AND op_equal H \<noteq> 0
      else if lq > lm then t = op_not_equal H
      else basic_test H env opv q m lq)"

definition test_suffix :: "asl_h \<Rightarrow> match_env \<Rightarrow> 32 word \<Rightarrow> string option \<Rightarrow> string option \<Rightarrow> bool" where
  "test_suffix H env opv q m =
     (let t = opv AND op_true H; lm = opt_len m; lq = opt_len q in
      if lq = 0 then t AND op_equal H \<noteq> 0
      else if lq > lm then t = op_not_equal H
      else basic_test H env opv q (map_option (drop (lm - lq)) m) lq)"

definition test_expression :: "asl_h \<Rightarrow> match_env \<Rightarrow> 32 word \<Rightarrow> string option \<Rightarrow> string option \<Rightarrow> bool" where
  "test_expression H env opv q m =
     (if opv AND op_true H = op_true H then True
      else if opv AND op_prefix H \<noteq> 0
      then (if opv AND op_suffix H \<noteq> 0 then test_substring H env opv q m else test_prefix H env opv q m)
      else if opv AND op_suffix H \<noteq> 0 then test_suffix H env opv q m
      else basic_test H env opv q m 0)"

definition test_time_expression :: "asl_h \<Rightarrow> match_env \<Rightarrow> 32 word \<Rightarrow> string option \<Rightarrow> string option \<Rightarrow> bool" where
  "test_time_expression H env opv q m =
     (if opv AND op_prefix H \<noteq> 0 \<or> opv AND op_suffix H \<noteq> 0 \<or> opv AND op_regex H \<noteq> 0
      then test_expression H env opv q m
      else case (q, m) of
        (Some qs, Some ms) \<Rightarrow>
          let tq = parse_time env qs; tm = parse_time env ms; t = opv AND op_true H in
          if tq < 0 then test_expression H env opv q m
          else if tm < 0 then test_expression H env opv q m
          else if t = ASL_QUERY_OP_FALSE then False
          else if t = op_true H then True
          else rel_test H t tm tq
      | _ \<Rightarrow> test_expression H env opv q m)"

section \<open>Testing and comparing messages\<close>

text \<open>A loop over the entries that returns at the first one for which its body says so.\<close>

partial_function (option) test_loop ::
    "asl_h \<Rightarrow> asl_store \<Rightarrow> (kvo_out \<Rightarrow> bool option) \<Rightarrow> asl_msg \<Rightarrow> 32 word \<Rightarrow> bool option" where
  "test_loop H st test msg x =
     do { (x', r) \<leftarrow> asl_msg_fetch H st msg x;
          if x' = IndexNull then Some True
          else do { e \<leftarrow> r;
                    pass \<leftarrow> test e;
                    if pass then test_loop H st test msg x' else Some False } }"

definition equal_step :: "asl_h \<Rightarrow> asl_store \<Rightarrow> asl_type \<Rightarrow> asl_msg \<Rightarrow> kvo_out \<Rightarrow> bool option" where
  "equal_step H st ty b = (\<lambda>(key, va, oa).
     do { (status, vb, ob) \<leftarrow> asl_msg_lookup H st b key;
          if status \<noteq> 0 then Some False
          else do { x \<leftarrow> va; y \<leftarrow> vb;
                    Some (x = y \<and> \<not> (ty = TYPE_QUERY \<and> oa \<noteq> ob)) } })"

definition asl_msg_equal :: "asl_h \<Rightarrow> asl_store \<Rightarrow> asl_msg \<Rightarrow> asl_msg \<Rightarrow> bool option" where
  "asl_msg_equal H st a b =
     (if asl_msg_count a \<noteq> asl_msg_count b then Some False
      else test_loop H st (equal_step H st (asl_msg_type a) b) a 0)"

definition query_step :: "asl_h \<Rightarrow> match_env \<Rightarrow> asl_store \<Rightarrow> asl_msg \<Rightarrow> kvo_out \<Rightarrow> bool option" where
  "query_step H env st m = (\<lambda>(kq, vq, opw).
     do { (status, vm, opm) \<leftarrow> asl_msg_lookup H st m kq;
          let opv = ucast opw; t = opv AND op_true H in
          if t = op_true H then Some (status = 0)
          else if t = ASL_QUERY_OP_FALSE then Some (status \<noteq> 0)
          else if status \<noteq> 0 then Some (t = op_not_equal H)
          else do { key \<leftarrow> kq;
                    Some (if key = key_time H then test_time_expression H env opv vq vm
                          else test_expression H env opv vq vm) } })"

definition asl_msg_test :: "asl_h \<Rightarrow> match_env \<Rightarrow> asl_store \<Rightarrow> asl_msg \<Rightarrow> asl_msg \<Rightarrow> bool option" where
  "asl_msg_test H env st q m = test_loop H st (query_step H env st m) q 0"

definition asl_msg_cmp :: "asl_h \<Rightarrow> match_env \<Rightarrow> asl_store \<Rightarrow> asl_msg \<Rightarrow> asl_msg \<Rightarrow> bool option" where
  "asl_msg_cmp H env st a b =
     (if a = [] then Some False
      else if b = [] then Some False
      else if asl_msg_type a = asl_msg_type b then asl_msg_equal H st a b
      else if asl_msg_type a = TYPE_QUERY then asl_msg_test H env st a b
      else asl_msg_test H env st b a)"

text \<open>A list of queries: \<open>None\<close> is the null pointer; a message matches the list if it matches one of them.\<close>

fun cmp_any :: "asl_h \<Rightarrow> match_env \<Rightarrow> asl_store \<Rightarrow> asl_msg \<Rightarrow> asl_msg list \<Rightarrow> bool option" where
  "cmp_any H env st msg [] = Some False"
| "cmp_any H env st msg (q # qs) =
     do { r \<leftarrow> asl_msg_test H env st q msg;
          if r then Some True else cmp_any H env st msg qs }"

definition asl_msg_cmp_list :: "asl_h \<Rightarrow> match_env \<Rightarrow> asl_store \<Rightarrow> asl_msg \<Rightarrow> asl_msg list option \<Rightarrow> bool option" where
  "asl_msg_cmp_list H env st msg queries =
     (if msg = [] then Some False
      else case queries of
        None \<Rightarrow> Some True
      | Some qs \<Rightarrow> if qs = [] then Some True else cmp_any H env st msg qs)"

section \<open>The loop visits every entry\<close>

fun all_tests :: "('a \<Rightarrow> bool option) \<Rightarrow> 'a list \<Rightarrow> bool option" where
  "all_tests test [] = Some True"
| "all_tests test (e # es) = do { pass \<leftarrow> test e; if pass then all_tests test es else Some False }"

lemma all_tests_Some:
  "(\<And>e. e \<in> set es \<Longrightarrow> test e = Some (P e)) \<Longrightarrow> all_tests test es = Some (list_all P es)"
  by (induction es) simp_all

lemma test_loop_visits:
  assumes ok: "msg_ok H st msg" and len: "length msg < 2 ^ 24"
  shows "test_loop H st test msg 0 = all_tests test (map (out_at H st msg) (visits msg))"
proof -
  note ne = msg_okD(1) [OF ok]
  have n: "0 < slot_count msg" "slot_count msg \<le> 15"
    using page_okD(1) [OF msg_okD(3) [OF ok, of 0]] msg_okD(4) [OF ok, of 0] ne slot_count_type [OF ne] by auto
  have "test_loop H st test msg (iter p s) = all_tests test (map (out_at H st msg) ((p, s) # later msg p s))"
    if "p < length msg" "s < slot_count msg" for p s
    using that
  proof (induction "length (later msg p s)" arbitrary: p s)
    case 0
    then show ?case
      using fetch_at [OF ok len 0(2,3)] fetch_end test_loop.simps [of H st test msg "iter p s"]
        test_loop.simps [of H st test msg "0xff000000"]
      by (cases "test (out_at H st msg (p, s))") (simp_all add: IndexNull_def)
  next
    case (Suc k)
    then obtain p' s' L where l: "later msg p s = (p', s') # L" by (metis length_Suc_conv surj_pair)
    note nx = next_entry_later(2) [OF Suc(3,4) l]
    have "iter p' s' \<noteq> IndexNull" using iter_not_null nx len n(2) by simp
    moreover have "k = length (later msg p' s')" using Suc(2) l nx by simp
    ultimately show ?case
      using fetch_at [OF ok len Suc(3,4)] l nx Suc(1) [of p' s'] test_loop.simps [of H st test msg "iter p s"]
      by (cases "test (out_at H st msg (p, s))") simp_all
  qed
  from this [of 0 0] show ?thesis using ne n by (simp add: visits_def iter_0)
qed


text \<open>The entries that the loop sees: those of the message, and a free first slot.\<close>

lemma visits_set:
  assumes ok: "msg_ok H st msg"
  shows "out_at H st msg ` set (visits msg) =
    (if occupied msg 0 0 then {} else {(None, None, get_slot_op (msg ! 0) 0)}) \<union>
    (\<lambda>(k, v, opw). (Some k, v, opw)) ` set_mset (msg_entries H st msg)"
proof -
  have e: "set_mset (msg_entries H st msg) = {e. \<exists>pos\<in>set (visits msg). entry_at H st msg pos = Some e}"
  proof -
    have "set_mset (msg_entries H st msg) = set (entry_list H st msg)"
      by (metis mset_entry_list [OF ok] set_mset_mset)
    then show ?thesis by (auto simp: entry_list_def some_list_def split: option.splits)
  qed
  have o: "occupied msg (fst pos) (snd pos) \<longleftrightarrow> entry_at H st msg pos \<noteq> None" for pos
    by (cases pos) (simp add: occupied_def entry_at_def slot_entry_def)
  have l: "entry_at H st msg pos \<noteq> None" if "pos \<in> set (later msg 0 0)" for pos
    unfolding o [symmetric] using that by (auto simp: later_def page_positions_def)
  have out: "out_at H st msg pos = (Some k, v, opw)" if "entry_at H st msg pos = Some (k, v, opw)" for pos k v opw
    using that by (cases pos) (simp add: entry_at_def out_at_def)
  have f: "out_at H st msg (0, 0) = (None, None, get_slot_op (msg ! 0) 0)" if "\<not> occupied msg 0 0"
    using that by (simp add: occupied_def slot_entry_def out_at_def)
  show ?thesis
  proof (intro equalityI subsetI)
    fix x assume "x \<in> out_at H st msg ` set (visits msg)"
    then obtain pos where pos: "pos \<in> set (visits msg)" "x = out_at H st msg pos" by blast
    show "x \<in> (if occupied msg 0 0 then {} else {(None, None, get_slot_op (msg ! 0) 0)}) \<union>
        (\<lambda>(k, v, opw). (Some k, v, opw)) ` set_mset (msg_entries H st msg)"
    proof (cases "entry_at H st msg pos")
      case None
      then have "pos = (0, 0)" using l [of pos] pos(1) unfolding visits_def by force
      then show ?thesis using None o [of "(0, 0)"] f pos(2) by simp
    next
      case (Some e)
      obtain k v opw where [simp]: "e = (k, v, opw)" by (cases e)
      have "(k, v, opw) \<in># msg_entries H st msg" using e pos(1) Some by auto
      then show ?thesis using out [of pos k v opw] Some pos(2) by force
    qed
  next
    fix x assume "x \<in> (if occupied msg 0 0 then {} else {(None, None, get_slot_op (msg ! 0) 0)}) \<union>
        (\<lambda>(k, v, opw). (Some k, v, opw)) ` set_mset (msg_entries H st msg)"
    then consider "\<not> occupied msg 0 0" "x = (None, None, get_slot_op (msg ! 0) 0)"
      | k v opw where "(k, v, opw) \<in># msg_entries H st msg" "x = (Some k, v, opw)"
      by (auto split: if_splits)
    then show "x \<in> out_at H st msg ` set (visits msg)"
    proof cases
      case 1
      then show ?thesis using f by (auto simp: visits_def)
    next
      case 2
      then obtain pos where "pos \<in> set (visits msg)" "entry_at H st msg pos = Some (k, v, opw)" using e by auto
      then show ?thesis using out [of pos k v opw] 2(2) by force
    qed
  qed
qed

lemma test_loop_entries:
  assumes ok: "msg_ok H st msg" and len: "length msg < 2 ^ 24"
    and test: "\<And>k v opw. (k, v, opw) \<in># msg_entries H st msg \<Longrightarrow> test (Some k, v, opw) = Some (P (k, v, opw))"
    and free: "\<And>opw. \<not> occupied msg 0 0 \<Longrightarrow> opw = get_slot_op (msg ! 0) 0 \<Longrightarrow> test (None, None, opw) = Some free_ok"
  shows "test_loop H st test msg 0 =
    Some ((occupied msg 0 0 \<or> free_ok) \<and> (\<forall>e\<in>#msg_entries H st msg. P e))"
proof -
  let ?outs = "map (out_at H st msg) (visits msg)"
  let ?Q = "\<lambda>x. case x of (Some k, v, opw) \<Rightarrow> P (k, v, opw) | (None, v, opw) \<Rightarrow> free_ok"
  note vs = visits_set [OF ok]
  have "test e = Some (?Q e)" if "e \<in> set ?outs" for e
  proof -
    have "e \<in> out_at H st msg ` set (visits msg)" using that by simp
    then show ?thesis unfolding vs using test free by (auto split: if_splits)
  qed
  then have "test_loop H st test msg 0 = Some (list_all ?Q ?outs)"
    using test_loop_visits [OF ok len] all_tests_Some [of ?outs test ?Q] by simp
  moreover have "list_all ?Q ?outs \<longleftrightarrow> (\<forall>e\<in>out_at H st msg ` set (visits msg). ?Q e)"
    by (simp add: list_all_iff)
  moreover have "(\<forall>e\<in>out_at H st msg ` set (visits msg). ?Q e) \<longleftrightarrow>
      (occupied msg 0 0 \<or> free_ok) \<and> (\<forall>e\<in>#msg_entries H st msg. P e)"
    unfolding vs by auto
  ultimately show ?thesis by simp
qed


section \<open>Properties\<close>

text \<open>For the inputs of the witnesses: no regular expression compiles, no string is a time.\<close>

definition env0 :: match_env where
  "env0 = \<lparr>regex = (\<lambda>_ _. None), parse_time = (\<lambda>_. - 1)\<rparr>"

text \<open>What an entry of a query asks of the entries of a message.\<close>

definition satisfied :: "asl_h \<Rightarrow> match_env \<Rightarrow> kvo_entry multiset \<Rightarrow> kvo_entry \<Rightarrow> bool" where
  "satisfied H env M = (\<lambda>(k, vq, opw).
     let t = ucast opw AND op_true H in
     if t = op_true H then key_known k M
     else if t = 0 then \<not> key_known k M
     else if \<not> key_known k M then t = op_not_equal H
     else \<exists>vm opm. (k, vm, opm) \<in># M \<and>
       (if k = key_time H then test_time_expression H env (ucast opw) vq vm
        else test_expression H env (ucast opw) vq vm))"

lemma query_step_satisfied:
  assumes wf: "wf_msg H st m" and ty: "asl_msg_type m = TYPE_MSG"
  shows "query_step H env st m (Some k, vq, opw) = Some (satisfied H env (msg_entries H st m) (k, vq, opw))"
proof (cases "key_known k (msg_entries H st m)")
  case False
  then have "asl_msg_lookup H st m (Some k) = Some (- 1, None, 0)"
    using lookup_entries(1) [OF wf, of k] by (auto simp: key_known_def)
  then show ?thesis using False by (simp add: query_step_def satisfied_def Let_def ASL_QUERY_OP_FALSE_def)
next
  case True
  then obtain vm opm where e: "(k, vm, opm) \<in># msg_entries H st m" by (fastforce simp: key_known_def)
  note l = lookup_entries(3) [OF wf e ty]
  have "vm' = vm" if "(k, vm', opm') \<in># msg_entries H st m" for vm' opm'
    using lookup_entries(3) [OF wf that ty] l by simp
  then have "(\<exists>vm opm. (k, vm, opm) \<in># msg_entries H st m \<and> Q vm) \<longleftrightarrow> Q vm" for Q
    using e by blast
  then show ?thesis
    using True l by (simp add: query_step_def satisfied_def Let_def ASL_QUERY_OP_FALSE_def)
qed

text \<open>
  Testing a query is the conjunction of its entries. The test is defined and ends on every
  well-formed query and message, whatever the order and the pages of their entries, and it succeeds
  exactly if the message satisfies each entry: has its key, lacks it, or has a value for it that
  stands in the relation asked for.
\<close>

lemma asl_test_query:
  assumes "wf_msg H st q" "length q < 2 ^ 24" "wf_msg H st m" "asl_msg_type m = TYPE_MSG"
    and "op_true H \<noteq> 0" "occupied q 0 0 \<or> get_slot_op (q ! 0) 0 = 0"
  shows "asl_msg_test H env st q m =
    Some (\<forall>e\<in>#msg_entries H st q. satisfied H env (msg_entries H st m) e)"
proof -
  have ok: "msg_ok H st q" using assms(1) by (simp add: wf_msg_def)
  have f: "query_step H env st m (None, None, opw) = Some True"
    if "\<not> occupied q 0 0" "opw = get_slot_op (q ! 0) 0" for opw
    using that assms(5,6)
    by (auto simp: query_step_def asl_msg_lookup_def msg_index_def ASL_QUERY_OP_FALSE_def)
  have "test_loop H st (query_step H env st m) q 0 =
      Some ((occupied q 0 0 \<or> True) \<and> (\<forall>e\<in>#msg_entries H st q. satisfied H env (msg_entries H st m) e))"
    by (rule test_loop_entries [OF ok assms(2) query_step_satisfied [OF assms(3,4)] f])
  then show ?thesis by (simp add: asl_msg_test_def)
qed

lemma size_sum_mset:
  fixes f :: "'a \<Rightarrow> 'b multiset"
  shows "size (\<Sum>x\<in>A. f x) = (\<Sum>x\<in>A. size (f x))"
  by (induction A rule: infinite_finite_induct) auto

lemma size_msg_entries:
  assumes ok: "msg_ok H st msg" and len: "length msg < 2 ^ 24"
  shows "size (msg_entries H st msg) < 2 ^ 32"
proof -
  have "size (page_entries H st pg) \<le> 15" for pg
  proof -
    have "size (page_entries H st pg) = (\<Sum>s<page_slots pg. size (opt_mset (slot_entry H st pg s)))"
      by (simp add: page_entries_def size_sum_mset)
    also have "\<dots> \<le> (\<Sum>s<page_slots pg. 1)"
      by (rule sum_mono) (simp add: opt_mset_def split: option.split)
    finally show ?thesis using type_slots_le(1) [of "pg_type pg"] by simp
  qed
  then have "size (msg_entries H st msg) \<le> (\<Sum>i<length msg. 15)"
    by (simp only: msg_entries_def size_sum_mset) (rule sum_mono)
  then show ?thesis using len by simp
qed

lemma keys_once_subset:
  assumes "keys_once A" "\<forall>e\<in>#A. e \<in># B"
  shows "A \<subseteq># B"
proof (rule mset_subset_eqI)
  fix e
  have "count A e \<le> 1"
  proof -
    have "count A e \<le> size {#x \<in># A. fst x = fst e#}"
      using count_le_size [of "{#x \<in># A. fst x = fst e#}" e] by simp
    then show ?thesis using assms(1) unfolding keys_once_def by (meson order_trans)
  qed
  then show "count A e \<le> count B e"
    using assms(2) by (metis count_eq_zero_iff count_greater_eq_one_iff le_zero_eq order_trans)
qed

text \<open>
  Two messages whose counts are right and whose keys all have values compare equal exactly if
  they have the same entries, in whatever order and pages, and the first slot of the first of
  them is occupied. Where it is free, after its entry was removed or in a new message, the loop asks for
  the key \<open>NULL\<close> and finds it nowhere: such a message is not even equal to itself.
\<close>

lemma asl_equal_entries:
  assumes "wf_msg H st a" "asl_msg_type a = TYPE_MSG" "length a < 2 ^ 24" "miscount H st a = 0"
    and "wf_msg H st b" "asl_msg_type b = TYPE_MSG" "length b < 2 ^ 24" "miscount H st b = 0"
    and "\<forall>e\<in>#msg_entries H st a + msg_entries H st b. fst (snd e) \<noteq> None"
  shows "asl_msg_cmp H env st a b = Some (occupied a 0 0 \<and> msg_entries H st a = msg_entries H st b)"
proof -
  have ok: "msg_ok H st a" "msg_ok H st b" using assms(1,5) by (simp_all add: wf_msg_def)
  have once: "keys_once (msg_entries H st a)" "keys_once (msg_entries H st b)"
    using assms(1,2,5,6) by (simp_all add: wf_msg_def)
  let ?A = "msg_entries H st a" and ?B = "msg_entries H st b"
  have op0: "opw = 0" if "(k, v, opw) \<in># ?B \<or> (k, v, opw) \<in># ?A" for k v opw
    using that in_msg_entries [OF ok(1)] in_msg_entries [OF ok(2)] slot_entry_op msg_okD(4) [OF ok(1)] msg_okD(4) [OF ok(2)]
      assms(2,6) by metis
  have eq: "equal_step H st TYPE_MSG b (Some k, v, opw) = Some ((k, v, opw) \<in># ?B)"
    if e: "(k, v, opw) \<in># ?A" for k v opw
  proof (cases "\<forall>e\<in>#?B. fst e \<noteq> k")
    case True
    then show ?thesis using lookup_entries(1) [OF assms(5), of k] by (auto simp: equal_step_def)
  next
    case False
    then obtain vb ob where b: "(k, vb, ob) \<in># ?B" by fastforce
    have "v \<noteq> None" using assms(9) e by force
    moreover have "vb \<noteq> None" using assms(9) b by force
    moreover have "(k, v, opw) \<in># ?B \<longleftrightarrow> v = vb"
      using lookup_entries(3) [OF assms(5) _ assms(6)] b op0 e by (metis option.inject prod.inject)
    ultimately show ?thesis
      using lookup_entries(3) [OF assms(5) b assms(6)] by (auto simp: equal_step_def)
  qed
  have "equal_step H st TYPE_MSG b (None, None, opw) = Some False" for opw
    by (simp add: equal_step_def asl_msg_lookup_def msg_index_def)
  note loop = test_loop_entries [where P = "\<lambda>e. e \<in># ?B" and free_ok = False,
      OF ok(1) assms(3) eq this, simplified]
  have cnt: "asl_msg_count a = asl_msg_count b \<longleftrightarrow> size ?A = size ?B"
  proof -
    have "(of_nat (size ?A) :: 32 word) = of_nat (size ?B) \<longleftrightarrow> size ?A = size ?B"
      using size_msg_entries [OF ok(1) assms(3)] size_msg_entries [OF ok(2) assms(7)]
      by (simp add: word_unat_eq_iff unsigned_of_nat take_bit_nat_eq_self)
    then show ?thesis using assms(4,8) by (simp add: miscount_def)
  qed
  have "size ?A = size ?B \<and> (\<forall>e\<in>#?A. e \<in># ?B) \<longleftrightarrow> ?A = ?B"
    using keys_once_subset [OF once(1)] by (metis mset_subset_eq_exists_conv nonempty_has_size
        size_union add_cancel_left_right add_0_right)
  then show ?thesis
    using loop cnt msg_okD(1) [OF ok(1)] msg_okD(1) [OF ok(2)] assms(2,6)
    by (auto simp: asl_msg_cmp_def asl_msg_equal_def)
qed

section \<open>Tests of strings\<close>

text \<open>The bits of the operations as the documentation of \<open>asl.h\<close> gives them.\<close>

definition documented_ops :: "asl_h \<Rightarrow> bool" where
  "documented_ops H \<longleftrightarrow>
     op_casefold H = 0x10 \<and> op_prefix H = 0x20 \<and> op_suffix H = 0x40 \<and> op_numeric H = 0x80 \<and> op_regex H = 0x100 \<and>
     op_equal H = 1 \<and> op_greater H = 2 \<and> op_greater_equal H = 3 \<and> op_less H = 4 \<and> op_less_equal H = 5 \<and>
     op_not_equal H = 6 \<and> op_true H = 7"

lemma str_cmp_eq [simp]: "str_cmp a b = 0 \<longleftrightarrow> a = b"
  by (induction a b rule: str_cmp.induct) auto

definition case_norm :: "bool \<Rightarrow> string \<Rightarrow> string" where
  "case_norm casefold s = (if casefold then map lower s else s)"

lemma case_norm_simps [simp]:
  "length (case_norm c s) = length s" "case_norm c (take n s) = take n (case_norm c s)"
  "case_norm c (drop n s) = drop n (case_norm c s)" "case_norm c s = [] \<longleftrightarrow> s = []"
  by (simp_all add: case_norm_def take_map drop_map)

lemma compare_strings_eq:
  "compare_strings c n m q = 0 \<longleftrightarrow>
     (if n = 0 then case_norm c m = case_norm c q else take n (case_norm c m) = take n (case_norm c q))"
  by (simp add: compare_strings_def case_norm_def Let_def take_map)

lemma substring_scan_iff:
  "substring_scan stop test is n \<longleftrightarrow> (if stop then \<exists>i\<in>set is. test i else n = 0 \<and> \<not> (\<exists>i\<in>set is. test i))"
  by (induction stop test "is" n rule: substring_scan.induct) auto

lemma prefix_take: "prefix q m \<longleftrightarrow> length q \<le> length m \<and> take (length q) m = q"
  by (metis append_eq_conv_conj prefix_def prefix_length_le take_is_prefix)

lemma suffix_drop: "suffix q m \<longleftrightarrow> length q \<le> length m \<and> drop (length m - length q) m = q"
proof
  assume "suffix q m"
  then show "length q \<le> length m \<and> drop (length m - length q) m = q" by (auto simp: suffix_def)
next
  assume "length q \<le> length m \<and> drop (length m - length q) m = q"
  then show "suffix q m" by (metis suffix_drop)
qed

lemma sublist_take:
  "sublist q m \<longleftrightarrow> length q \<le> length m \<and> (\<exists>i\<le>length m - length q. take (length q) (drop i m) = q)"
proof
  assume "sublist q m"
  then obtain ps ss where m: "m = ps @ q @ ss" by (auto simp: sublist_def)
  then have "take (length q) (drop (length ps) m) = q" "length ps \<le> length m - length q" "length q \<le> length m"
    by simp_all
  then show "length q \<le> length m \<and> (\<exists>i\<le>length m - length q. take (length q) (drop i m) = q)" by blast
next
  assume "length q \<le> length m \<and> (\<exists>i\<le>length m - length q. take (length q) (drop i m) = q)"
  then obtain i where "take (length q) (drop i m) = q" by blast
  then have "m = take i m @ q @ drop (length q) (drop i m)" by (metis append_take_drop_id)
  then show "sublist q m" unfolding sublist_def by blast
qed

text \<open>The relation that the two bits for parts of strings choose.\<close>

definition part_rel :: "bool \<Rightarrow> bool \<Rightarrow> string \<Rightarrow> string \<Rightarrow> bool" where
  "part_rel pre suf q m =
     (if pre \<and> suf then sublist q m else if pre then prefix q m else if suf then suffix q m else q = m)"

definition bit_if :: "bool \<Rightarrow> 32 word \<Rightarrow> 32 word" where
  "bit_if b w = (if b then w else 0)"

definition string_op :: "bool \<Rightarrow> bool \<Rightarrow> bool \<Rightarrow> bool \<Rightarrow> 32 word" where
  "string_op eq pre suf casefold =
     (if eq then 1 else 6) OR bit_if pre 0x20 OR bit_if suf 0x40 OR bit_if casefold 0x10"

lemma string_op_bits:
  "string_op eq pre suf c AND 7 = (if eq then 1 else 6)" "string_op eq pre suf c AND 0x20 \<noteq> 0 \<longleftrightarrow> pre"
  "string_op eq pre suf c AND 0x40 \<noteq> 0 \<longleftrightarrow> suf" "string_op eq pre suf c AND 0x10 \<noteq> 0 \<longleftrightarrow> c"
  "string_op eq pre suf c AND 0x80 = 0" "string_op eq pre suf c AND 0x100 = 0"
  "(string_op eq pre suf c AND 0xff0) OR 1 = string_op True pre suf c"
  by (cases eq; cases pre; cases suf; cases c; simp add: string_op_def bit_if_def)+

lemma basic_test_string:
  assumes "documented_ops H"
  shows "basic_test H env (string_op eq pre suf c) (Some q) (Some m) n =
    (eq = (if n = 0 then case_norm c m = case_norm c q else take n (case_norm c m) = take n (case_norm c q)))"
  using assms compare_strings_eq [of c n m q]
  by (cases eq) (simp_all add: basic_test_def documented_ops_def string_op_bits rel_test_def)

text \<open>
  C29: under the documented bits, a test for equality asks for equality, for a prefix, a suffix or a
  substring, as the two bits for parts of strings say, with or without regard to the case; a test
  for inequality is its negation. The scan of every position of the value stands for the
  substring.
\<close>

theorem asl_test_strings:
  assumes "documented_ops H" "cstring q" "cstring m"
  shows "test_expression H env (string_op eq pre suf c) (Some q) (Some m) =
    (eq = part_rel pre suf (case_norm c q) (case_norm c m))"
proof -
  let ?op = "string_op eq pre suf c" and ?q = "case_norm c q" and ?m = "case_norm c m"
  have len: "strlen32 q = length q" "strlen32 m = length m" using cstring_len assms(2,3) by simp_all
  have H: "op_true H = 7" "op_equal H = 1" "op_not_equal H = 6" "op_greater H = 2" "op_less H = 4"
    "op_prefix H = 0x20" "op_suffix H = 0x40"
    using assms(1) by (simp_all add: documented_ops_def)
  have t: "?op AND 7 = (if eq then 1 else 6)" "(if eq then 1 else 6 :: 32 word) AND 1 \<noteq> 0 \<longleftrightarrow> eq"
    "(if eq then 1 else 6 :: 32 word) \<noteq> 7" "(if eq then 1 else 6 :: 32 word) = 6 \<longleftrightarrow> \<not> eq"
    "(if eq then 1 else 6 :: 32 word) \<noteq> 2" "(if eq then 1 else 6 :: 32 word) \<noteq> 4"
    by (simp_all add: string_op_bits)
  note b = basic_test_string [OF assms(1), of env]
  consider "pre" "suf" | "pre" "\<not> suf" | "\<not> pre" "suf" | "\<not> pre" "\<not> suf" by blast
  then show ?thesis
  proof cases
    case 1
    have s: "sublist ?q ?m \<longleftrightarrow> length q \<le> length m \<and> (\<exists>i\<in>set [0..<length m - length q + 1]. take (length q) (drop i ?m) = ?q)"
      unfolding sublist_take by (auto simp: less_Suc_eq_le simp del: upt_Suc)
    have "test_substring H env ?op (Some q) (Some m) = (eq = sublist ?q ?m)"
    proof (cases "q = []")
      case True
      then show ?thesis by (simp add: test_substring_def Let_def opt_len_def H t strlen32_def case_norm_def)
    next
      case False
      then show ?thesis
        unfolding s using False
        by (simp add: test_substring_def Let_def opt_len_def H t len string_op_bits(7) substring_scan_iff b del: upt_Suc)
    qed
    then show ?thesis using 1 by (simp add: test_expression_def H string_op_bits part_rel_def)
  next
    case 2
    have "test_prefix H env ?op (Some q) (Some m) = (eq = prefix ?q ?m)"
      unfolding prefix_take using len by (cases "q = []") (simp_all add: test_prefix_def Let_def opt_len_def H t b case_norm_def)
    then show ?thesis using 2 by (simp add: test_expression_def H string_op_bits part_rel_def)
  next
    case 3
    have "test_suffix H env ?op (Some q) (Some m) = (eq = suffix ?q ?m)"
      unfolding suffix_drop using len by (cases "q = []") (simp_all add: test_suffix_def Let_def opt_len_def H t b case_norm_def drop_map)
    then show ?thesis using 3 by (simp add: test_expression_def H string_op_bits part_rel_def)
  next
    case 4
    then show ?thesis by (auto simp: test_expression_def H string_op_bits part_rel_def b)
  qed
qed

theorem asl_test_strings_witness:
  "test_expression asl_documented env0 (string_op True True True True) (Some ''B'') (Some ''abc'') = True"
proof -
  have "documented_ops asl_documented" by (simp add: documented_ops_def asl_documented_def)
  moreover have "cstring ''B''" "cstring ''abc''" by (simp_all add: cstring_def Nul_def)
  moreover have "sublist ''b'' ''abc''" by (simp add: sublist_code(3))
  moreover have "map lower ''B'' = ''b''" "map lower ''abc'' = ''abc''" by code_simp+
  ultimately show ?thesis
    using asl_test_strings [of asl_documented "''B''" "''abc''" env0 True True True True]
    by (simp add: part_rel_def case_norm_def del: list.map)
qed

text \<open>
  A missing value is meant to fail every test, but it passes those that share a bit with
  \<open>ASL_QUERY_OP_NOT_EQUAL\<close>, among them all the comparisons.
\<close>

lemma null_value_passes:
  assumes "documented_ops H" "opv AND 7 \<in> {2, 3, 4, 5}"
  shows "basic_test H env opv None m n"
  using assms by (auto simp: basic_test_def documented_ops_def)

end
