(* ===== verification/Asl_Util.thy ===== *)
theory Asl_Util
  imports Asl_Msg Utf8_Correct
begin

text \<open>
  The utilities of the system log client (\<open>src/src/libSystem/libsystem_asl/asl_util.c\<close>): the test for
  UTF-8, the base-64 encoder, and the names of the syslog facilities, whose numbers come from
  \<open>syslog.h\<close> and are an argument. Only the call that wakes the log manager is left out. The test is
  related to the decoder of the C library, the encoder to a decoder written after RFC 4648.
\<close>

section \<open>The test for UTF-8\<close>

text \<open>\<open>asl_is_utf8_char\<close>: the flag it returns, the state and the type of the character after byte \<open>p\<close>.\<close>

definition asl_is_utf8_char :: "byte \<Rightarrow> nat \<Rightarrow> nat \<Rightarrow> bool \<times> nat \<times> nat" where
  "asl_is_utf8_char p state ctype =
     (if state = 0
      then (if p \<ge> 0x80
            then (if p \<ge> 0xc2 \<and> p \<le> 0xdf then (True, 1, 1)
                  else if p = 0xe0 then (True, 1, 2)
                  else if p \<ge> 0xe1 \<and> p \<le> 0xef then (True, 1, 3)
                  else if p = 0xf0 then (True, 1, 4)
                  else if p \<ge> 0xf1 \<and> p \<le> 0xf3 then (True, 1, 5)
                  else if p = 0xf4 then (True, 1, 6)
                  else (False, 1, 0))
            else (True, 0, 0))
      else if state = 1
      then (if ctype = 1 then (if p \<ge> 0x80 \<and> p \<le> 0xbf then (True, 0, ctype) else (False, state, ctype))
            else if ctype = 2 then (if p \<ge> 0xa0 \<and> p \<le> 0xbf then (True, 2, ctype) else (False, state, ctype))
            else if ctype = 3 then (if p \<ge> 0x80 \<and> p \<le> 0xbf then (True, 2, ctype) else (False, state, ctype))
            else if ctype = 4 then (if p \<ge> 0x90 \<and> p \<le> 0xbf then (True, 2, ctype) else (False, state, ctype))
            else if ctype = 5 then (if p \<ge> 0x80 \<and> p \<le> 0xbf then (True, 2, ctype) else (False, state, ctype))
            else if ctype = 6 then (if p \<ge> 0x80 \<and> p \<le> 0x8f then (True, 2, ctype) else (False, state, ctype))
            else (False, state, ctype))
      else if state = 2
      then (if ctype \<ge> 2 \<and> ctype \<le> 3
            then (if p \<ge> 0x80 \<and> p \<le> 0xbf then (True, 0, ctype) else (False, state, ctype))
            else if ctype \<ge> 4 \<and> ctype \<le> 6
            then (if p \<ge> 0x80 \<and> p \<le> 0xbf then (True, 3, ctype) else (False, state, ctype))
            else (False, state, ctype))
      else if state = 3
      then (if ctype \<ge> 4 \<and> ctype \<le> 6
            then (if p \<ge> 0x80 \<and> p \<le> 0xbf then (True, 0, ctype) else (False, state, ctype))
            else (False, state, ctype))
      else (False, state, ctype))"

text \<open>The bytes of the string up to its NUL.\<close>

fun utf8_flag :: "byte list \<Rightarrow> bool \<times> nat \<times> nat \<Rightarrow> bool" where
  "utf8_flag [] (flag, state, ctype) = flag"
| "utf8_flag (p # ps) (flag, state, ctype) =
     (if flag then utf8_flag ps (asl_is_utf8_char p state ctype) else flag)"

definition asl_is_utf8 :: "byte list option \<Rightarrow> bool" where
  "asl_is_utf8 str = (case str of None \<Rightarrow> True | Some s \<Rightarrow> utf8_flag s (True, 0, 0))"

section \<open>Base 64\<close>

definition b64charset :: string where
  "b64charset = ''ABCDEFGHIJKLMNOPQRSTUVWXYZabcdefghijklmnopqrstuvwxyz0123456789+/''"

definition b64_char :: "byte \<Rightarrow> byte" where
  "b64_char b = of_char (b64charset ! unat b)"

text \<open>\<open>out[j++] = c\<close>; undefined outside of the buffer.\<close>

definition emit :: "byte \<Rightarrow> nat \<times> byte list \<Rightarrow> (nat \<times> byte list) option" where
  "emit c = (\<lambda>(j, out). if j < length out then Some (j + 1, out[j := c]) else None)"

fun emits :: "byte list \<Rightarrow> nat \<times> byte list \<Rightarrow> (nat \<times> byte list) option" where
  "emits [] r = Some r"
| "emits (c # cs) r = do { r' \<leftarrow> emit c r; emits cs r' }"

text \<open>The loop over groups of three bytes; \<open>i1\<close> and \<open>i2\<close> are the two indices behind \<open>i0\<close>.\<close>

function b64_loop :: "byte list \<Rightarrow> nat \<Rightarrow> nat \<times> byte list \<Rightarrow> (nat \<times> nat \<times> byte list) option" where
  "b64_loop buf i0 r =
     (let i1 = i0 + 1; i2 = i1 + 1 in
      if i2 < length buf
      then do { r' \<leftarrow> emits
                  [b64_char (drop_bit 2 (buf ! i0)),
                   b64_char (push_bit 4 (buf ! i0 AND 0x03) OR drop_bit 4 (buf ! i1)),
                   b64_char (push_bit 2 (buf ! i1 AND 0x0f) OR drop_bit 6 (buf ! i2 AND 0xc0)),
                   b64_char (buf ! i2 AND 0x3f)] r;
                b64_loop buf (i0 + 3) r' }
      else Some (i0, r))"
  by pat_completeness auto
termination by (relation "measure (\<lambda>(buf, i0, r). length buf - i0)") auto

declare b64_loop.simps [simp del]

definition b64_tail :: "byte list \<Rightarrow> nat \<Rightarrow> nat \<times> byte list \<Rightarrow> (nat \<times> byte list) option" where
  "b64_tail buf i0 r =
     (let i1 = i0 + 1 in
      if i0 < length buf
      then do { r1 \<leftarrow> emit (b64_char (drop_bit 2 (buf ! i0))) r;
                let b = push_bit 4 (buf ! i0 AND 0x03);
                let b = (if i1 < length buf then b OR drop_bit 4 (buf ! i1) else b);
                r2 \<leftarrow> emit (b64_char b) r1;
                if i1 \<ge> length buf
                then emits [0x3d, 0x3d] r2
                else emits [b64_char (push_bit 2 (buf ! i1 AND 0x0f)), 0x3d] r2 }
      else Some r)"

text \<open>
  \<open>asl_b64_encode\<close>: the buffer or \<open>NULL\<close>, and the \<open>errno\<close> it sets; \<open>mem\<close> says whether \<open>malloc\<close>
  succeeds, \<open>fill\<close> is what the memory holds.
\<close>

datatype b64_result = B64Null | B64NoMem | B64 "byte list"

definition asl_b64_encode :: "bool \<Rightarrow> byte \<Rightarrow> byte list option \<Rightarrow> b64_result option" where
  "asl_b64_encode mem fill buf =
     (case buf of
        None \<Rightarrow> Some B64Null
      | Some buf \<Rightarrow>
          if length buf = 0 then Some B64Null
          else let outlen = ((length buf + 2) div 3) * 4 in
            if \<not> mem then Some B64NoMem
            else do { (i0, r) \<leftarrow> b64_loop buf 0 (0, (replicate (outlen + 1) fill)[outlen := 0]);
                      (j, out) \<leftarrow> b64_tail buf i0 r;
                      Some (B64 out) })"

section \<open>Facilities\<close>

datatype facility = LOG_AUTH | LOG_AUTHPRIV | LOG_CRON | LOG_DAEMON | LOG_FTP | LOG_INSTALL | LOG_KERN | LOG_LPR
  | LOG_MAIL | LOG_NETINFO | LOG_REMOTEAUTH | LOG_NEWS | LOG_SYSLOG | LOG_USER | LOG_UUCP | LOG_LOCAL0 | LOG_LOCAL1
  | LOG_LOCAL2 | LOG_LOCAL3 | LOG_LOCAL4 | LOG_LOCAL5 | LOG_LOCAL6 | LOG_LOCAL7 | LOG_LAUNCHD

text \<open>The tests of both functions, in their order, which is the same.\<close>

definition facility_tests :: "(string \<times> facility) list" where
  "facility_tests =
     [(''auth'', LOG_AUTH), (''authpriv'', LOG_AUTHPRIV), (''cron'', LOG_CRON), (''daemon'', LOG_DAEMON),
      (''ftp'', LOG_FTP), (''install'', LOG_INSTALL), (''kern'', LOG_KERN), (''lpr'', LOG_LPR),
      (''mail'', LOG_MAIL), (''netinfo'', LOG_NETINFO), (''remoteauth'', LOG_REMOTEAUTH),
      (''news'', LOG_NEWS), (''security'', LOG_AUTH), (''syslog'', LOG_SYSLOG), (''user'', LOG_USER),
      (''uucp'', LOG_UUCP), (''local0'', LOG_LOCAL0), (''local1'', LOG_LOCAL1), (''local2'', LOG_LOCAL2),
      (''local3'', LOG_LOCAL3), (''local4'', LOG_LOCAL4), (''local5'', LOG_LOCAL5),
      (''local6'', LOG_LOCAL6), (''local7'', LOG_LOCAL7), (''launchd'', LOG_LAUNCHD)]"

definition asl_syslog_faciliy_name_to_num :: "(facility \<Rightarrow> int) \<Rightarrow> string option \<Rightarrow> int" where
  "asl_syslog_faciliy_name_to_num num name =
     (case name of
        None \<Rightarrow> - 1
      | Some name \<Rightarrow>
          (case find (\<lambda>(s, f). strcaseeq name s) facility_tests of Some (s, f) \<Rightarrow> num f | None \<Rightarrow> - 1))"

definition asl_syslog_faciliy_num_to_name :: "(facility \<Rightarrow> int) \<Rightarrow> int \<Rightarrow> string option" where
  "asl_syslog_faciliy_num_to_name num n =
     (if n < 0 then None
      else map_option fst (find (\<lambda>(s, f). n = num f) facility_tests))"

section \<open>What the test accepts\<close>

lemma utf8_flag_False [simp]: "utf8_flag s (False, st, ct) = False"
  by (cases s) simp_all

definition cont :: "byte \<Rightarrow> bool" where
  "cont c \<longleftrightarrow> 0x80 \<le> c \<and> c \<le> 0xBF"

text \<open>The test in the states between characters and inside of one.\<close>

lemma utf8_flag_1:
  "utf8_flag (x # r) (True, 1, 1) = (cont x \<and> utf8_flag r (True, 0, 1))"
  "utf8_flag (x # r) (True, 1, 2) = (0xA0 \<le> x \<and> x \<le> 0xBF \<and> utf8_flag r (True, 2, 2))"
  "utf8_flag (x # r) (True, 1, 3) = (cont x \<and> utf8_flag r (True, 2, 3))"
  "utf8_flag (x # r) (True, 1, 4) = (0x90 \<le> x \<and> x \<le> 0xBF \<and> utf8_flag r (True, 2, 4))"
  "utf8_flag (x # r) (True, 1, 5) = (cont x \<and> utf8_flag r (True, 2, 5))"
  "utf8_flag (x # r) (True, 1, 6) = (0x80 \<le> x \<and> x \<le> 0x8F \<and> utf8_flag r (True, 2, 6))"
  by (auto simp: asl_is_utf8_char_def cont_def)

lemma utf8_flag_2:
  "c = 2 \<or> c = 3 \<Longrightarrow> utf8_flag (x # r) (True, 2, c) = (cont x \<and> utf8_flag r (True, 0, c))"
  "c = 4 \<or> c = 5 \<or> c = 6 \<Longrightarrow> utf8_flag (x # r) (True, 2, c) = (cont x \<and> utf8_flag r (True, 3, c))"
  "c = 4 \<or> c = 5 \<or> c = 6 \<Longrightarrow> utf8_flag (x # r) (True, 3, c) = (cont x \<and> utf8_flag r (True, 0, c))"
  by (auto simp: asl_is_utf8_char_def cont_def)

lemma utf8_flag_0:
  "utf8_flag s (True, 0, Suc c) = utf8_flag s (True, 0, 0)"
  "utf8_flag s (True, 0, numeral k) = utf8_flag s (True, 0, 0)"
  by (cases s; simp add: asl_is_utf8_char_def)+

text \<open>The rows of the table, except that 0xED may be followed by any byte of a sequence.\<close>

definition asl_row :: "byte \<Rightarrow> (nat \<times> byte \<times> byte) option" where
  "asl_row b = (if b = 0xED then Some (3, 0x80, 0xBF) else utf8_row b)"

lemma asl_row_eq:
  "asl_row b =
     (if 0xC2 \<le> b \<and> b \<le> 0xDF then Some (2, 0x80, 0xBF) else if b = 0xE0 then Some (3, 0xA0, 0xBF)
      else if 0xE1 \<le> b \<and> b \<le> 0xEF then Some (3, 0x80, 0xBF) else if b = 0xF0 then Some (4, 0x90, 0xBF)
      else if 0xF1 \<le> b \<and> b \<le> 0xF3 then Some (4, 0x80, 0xBF) else if b = 0xF4 then Some (4, 0x80, 0x8F) else None)"
  by (simp add: asl_row_def utf8_row_def word_le_nat_alt word_unat_eq_iff)

lemma trail_4: "take 3 (x # y # z # r) = [x, y, z]" "drop 3 (x # y # z # r) = r" "take 3 [x, y] = [x, y]" "take 3 [x] = [x]"
  by (simp_all add: numeral_eq_Suc)

lemma utf8_flag_lead:
  assumes "0x80 \<le> b"
  shows "utf8_flag (b # r) (True, 0, 0) =
    (case asl_row b of
       None \<Rightarrow> False
     | Some (n, lo, hi) \<Rightarrow> utf8_trail_ok lo hi (take (n - 1) r) \<and> (length r < n - 1 \<or> utf8_flag (drop (n - 1) r) (True, 0, 0)))"
proof -
  have c: "utf8_flag (b # r) (True, 0, 0) = utf8_flag r
      (if 0xC2 \<le> b \<and> b \<le> 0xDF then (True, 1, 1) else if b = 0xE0 then (True, 1, 2)
       else if 0xE1 \<le> b \<and> b \<le> 0xEF then (True, 1, 3) else if b = 0xF0 then (True, 1, 4)
       else if 0xF1 \<le> b \<and> b \<le> 0xF3 then (True, 1, 5) else if b = 0xF4 then (True, 1, 6) else (False, 1, 0))"
    using assms by (simp add: asl_is_utf8_char_def)
  consider x y z r' where "r = x # y # z # r'" | "r = []" | x where "r = [x]" | x y where "r = [x, y]"
    by (metis list.exhaust)
  then show ?thesis
    unfolding c asl_row_eq
    by cases (simp_all add: utf8_flag_1 [unfolded One_nat_def] utf8_flag_2 utf8_trail_ok_def cont_def trail_4 utf8_flag_0
        del: utf8_flag.simps(2))
qed


text \<open>The bytes that the decoder of the C library converts one character after the other, up to their end.\<close>

function decodable :: "byte list \<Rightarrow> bool" where
  "decodable s =
     (if s = [] then True
      else case utf8_mbrtowc (Some s) utf8_initial of
        (MbLen n, r) \<Rightarrow> decodable (drop (max 1 n) s)
      | (MbIncomplete, r) \<Rightarrow> True
      | (MbErr e, r) \<Rightarrow> False)"
  by pat_completeness auto
termination by (relation "measure length") auto

declare decodable.simps [simp del]

text \<open>No lead byte 0xED before a second byte of a surrogate.\<close>

fun no_surrogate :: "byte list \<Rightarrow> bool" where
  "no_surrogate (a # b # r) \<longleftrightarrow> (a = 0xED \<longrightarrow> b < 0xA0) \<and> no_surrogate (b # r)"
| "no_surrogate [a] \<longleftrightarrow> True"
| "no_surrogate [] \<longleftrightarrow> True"

lemma no_surrogate_Cons:
  "no_surrogate (a # r) \<longleftrightarrow> (a = 0xED \<longrightarrow> (case r of [] \<Rightarrow> True | b # _ \<Rightarrow> b < 0xA0)) \<and> no_surrogate r"
  by (cases r) simp_all

lemma no_surrogate_append: "\<forall>x\<in>set t. x \<noteq> 0xED \<Longrightarrow> no_surrogate (t @ r) = no_surrogate r"
  by (induction t) (simp_all add: no_surrogate_Cons)

lemma decodable_Cons:
  "decodable (b # r) =
    (case fst (utf8_dec (b # r)) of
       MbLen n \<Rightarrow> decodable (drop (max 1 n) (b # r)) | MbIncomplete \<Rightarrow> True | MbErr e \<Rightarrow> False)"
proof -
  obtain us where "utf8_mbrtowc (Some (b # r)) utf8_initial = (fst (utf8_dec (b # r)), snd (utf8_dec (b # r)), us)"
    using utf8_decoder.step [of utf8_initial "[]" "b # r" "fst (utf8_dec (b # r))" "snd (utf8_dec (b # r))"]
    by (auto simp: utf8_initial_def)
  then show ?thesis by (subst decodable.simps) (simp split: mb_ret.split)
qed

lemma utf8_row_bounds: "utf8_row b = Some (n, lo, hi) \<Longrightarrow> hi \<le> 0xBF \<and> 1 < n"
  by (auto simp: utf8_row_def split: if_splits)

lemma trail_no_lead:
  assumes "utf8_trail_ok lo hi t" "hi \<le> 0xBF" "x \<in> set t"
  shows "x \<noteq> 0xED"
  using assms order_trans [of "0xED" hi "0xBF"] by (cases t) (auto simp: utf8_trail_ok_def)

lemma trail_surrogate:
  "utf8_trail_ok 0x80 0x9F t \<longleftrightarrow> utf8_trail_ok 0x80 0xBF t \<and> (case t of [] \<Rightarrow> True | x # _ \<Rightarrow> x < 0xA0)"
proof (cases t)
  case (Cons x t')
  have "(x \<le> 0x9F) = (x \<le> 0xBF \<and> x < (0xA0 :: byte))"
    by (auto simp: word_le_nat_alt word_less_nat_alt)
  then show ?thesis using Cons by (auto simp: utf8_trail_ok_def)
qed (simp add: utf8_trail_ok_def)

text \<open>
  C30: the log client's test for UTF-8 and the decoder of the C library agree on which strings are
  acceptable, except that the test lets surrogates pass: a string can be decoded, up to a last
  character that may be cut short, exactly if the test accepts it and it has no surrogate.
\<close>

theorem asl_utf8_decodable:
  assumes "0 \<notin> set s"
  shows "decodable s \<longleftrightarrow> asl_is_utf8 (Some s) \<and> no_surrogate s"
proof -
  have "decodable s \<longleftrightarrow> utf8_flag s (True, 0, 0) \<and> no_surrogate s"
    using assms
  proof (induction "length s" arbitrary: s rule: less_induct)
    case less
    show ?case
    proof (cases s)
      case (Cons b r)
      show ?thesis
      proof (cases "b \<le> 0x7F")
        case True
        then have "\<not> 0x80 \<le> b" "b \<noteq> 0xED" by (auto simp: word_le_nat_alt)
        then show ?thesis
          using True Cons less(1) [of r] less(2)
          by (simp add: decodable_Cons utf8_dec_def asl_is_utf8_char_def no_surrogate_Cons)
      next
        case False
        then have b: "0x80 \<le> b" by (auto simp: word_le_nat_alt)
        show ?thesis
        proof (cases "utf8_row b")
          case None
          then have "asl_row b = None" by (auto simp: asl_row_def utf8_row_def split: if_splits)
          then show ?thesis
            using None False Cons utf8_flag_lead [OF b, of r] by (simp add: decodable_Cons utf8_dec_def)
        next
          case (Some row)
          obtain n lo hi where row: "row = (n, lo, hi)" by (cases row)
          note bd = utf8_row_bounds [OF Some [unfolded row]]
          let ?t = "take (n - 1) r" and ?rest = "drop (n - 1) r"
          have d: "decodable s \<longleftrightarrow> utf8_trail_ok lo hi ?t \<and> (length r < n - 1 \<or> decodable ?rest)"
            using Cons Some row False bd
            by (auto simp: decodable_Cons utf8_dec_def Let_def max_def drop_Cons' split: if_splits)
          have f: "utf8_flag s (True, 0, 0) \<longleftrightarrow>
              utf8_trail_ok lo (if b = 0xED then 0xBF else hi) ?t \<and> (length r < n - 1 \<or> utf8_flag ?rest (True, 0, 0))"
          proof -
            have "asl_row b = Some (n, lo, if b = 0xED then 0xBF else hi)"
              using Some row by (cases "b = 0xED") (simp_all add: asl_row_def utf8_row_def)
            then show ?thesis using Cons utf8_flag_lead [OF b, of r] by simp
          qed
          have sur: "no_surrogate s \<longleftrightarrow> (b = 0xED \<longrightarrow> (case ?t of [] \<Rightarrow> True | x # _ \<Rightarrow> x < 0xA0)) \<and> no_surrogate ?rest"
            if "utf8_trail_ok lo (if b = 0xED then 0xBF else hi) ?t"
          proof -
            have "(if b = 0xED then 0xBF else hi) \<le> 0xBF" using bd by simp
            then have "\<forall>x\<in>set ?t. x \<noteq> 0xED" using trail_no_lead [OF that] by blast
            then have "no_surrogate r = no_surrogate ?rest" by (metis append_take_drop_id no_surrogate_append)
            moreover have "(case r of [] \<Rightarrow> True | x # _ \<Rightarrow> x < 0xA0) = (case ?t of [] \<Rightarrow> True | x # _ \<Rightarrow> x < 0xA0)"
              using bd by (cases r) (auto simp: take_Cons' split: if_splits)
            ultimately show ?thesis using Cons by (simp add: no_surrogate_Cons)
          qed
          have t: "utf8_trail_ok lo hi ?t \<longleftrightarrow> utf8_trail_ok lo (if b = 0xED then 0xBF else hi) ?t \<and>
              (b = 0xED \<longrightarrow> (case ?t of [] \<Rightarrow> True | x # _ \<Rightarrow> x < 0xA0))"
          proof (cases "b = 0xED")
            case True
            then have "lo = 0x80" "hi = 0x9F" using Some row by (simp_all add: utf8_row_def)
            then show ?thesis using True trail_surrogate [of ?t] by simp
          qed simp
          have ih: "decodable ?rest \<longleftrightarrow> utf8_flag ?rest (True, 0, 0) \<and> no_surrogate ?rest"
            by (rule less(1)) (use Cons less(2) in \<open>auto dest: in_set_dropD\<close>)
          have "no_surrogate ?rest" if "length r < n - 1" using that by simp
          then show ?thesis using d f sur t ih by blast
        qed
      qed
    qed (simp add: decodable.simps)
  qed
  then show ?thesis by (simp add: asl_is_utf8_def)
qed

theorem asl_utf8_decodable_witness:
  "decodable [0x41, 0xE2, 0x82, 0xAC, 0xC3] \<and> \<not> decodable [0xED, 0xA0, 0x80] \<and> asl_is_utf8 (Some [0xED, 0xA0, 0x80])"
proof -
  have a: "asl_is_utf8 (Some [0x41, 0xE2, 0x82, 0xAC, 0xC3])" "asl_is_utf8 (Some [0xED, 0xA0, 0x80])"
    by (simp_all add: asl_is_utf8_def asl_is_utf8_char_def)
  then show ?thesis
    using asl_utf8_decodable [of "[0x41, 0xE2, 0x82, 0xAC, 0xC3]"] asl_utf8_decodable [of "[0xED, 0xA0, 0x80]"] by simp
qed


section \<open>Base 64 by groups\<close>

text \<open>The text of RFC 4648, and its decoder: four characters for three bytes, padded at the end.\<close>

fun b64_text :: "byte list \<Rightarrow> byte list" where
  "b64_text (x # y # z # r) =
     [b64_char (drop_bit 2 x), b64_char (push_bit 4 (x AND 0x03) OR drop_bit 4 y),
      b64_char (push_bit 2 (y AND 0x0f) OR drop_bit 6 (z AND 0xc0)), b64_char (z AND 0x3f)] @ b64_text r"
| "b64_text [x, y] =
     [b64_char (drop_bit 2 x), b64_char (push_bit 4 (x AND 0x03) OR drop_bit 4 y),
      b64_char (push_bit 2 (y AND 0x0f)), 0x3d]"
| "b64_text [x] = [b64_char (drop_bit 2 x), b64_char (push_bit 4 (x AND 0x03)), 0x3d, 0x3d]"
| "b64_text [] = []"

definition b64_val :: "byte \<Rightarrow> byte option" where
  "b64_val c =
     (if 0x41 \<le> c \<and> c \<le> 0x5A then Some (c - 0x41)
      else if 0x61 \<le> c \<and> c \<le> 0x7A then Some (c - 0x61 + 26)
      else if 0x30 \<le> c \<and> c \<le> 0x39 then Some (c - 0x30 + 52)
      else if c = 0x2B then Some 62 else if c = 0x2F then Some 63 else None)"

fun b64_decode :: "byte list \<Rightarrow> byte list option" where
  "b64_decode [] = Some []"
| "b64_decode (a # b # c # d # r) =
     (if r = [] \<and> c = 0x3d \<and> d = 0x3d
      then do { x \<leftarrow> b64_val a; y \<leftarrow> b64_val b; Some [push_bit 2 x OR drop_bit 4 y] }
      else if r = [] \<and> d = 0x3d
      then do { x \<leftarrow> b64_val a; y \<leftarrow> b64_val b; z \<leftarrow> b64_val c;
                Some [push_bit 2 x OR drop_bit 4 y, push_bit 4 y OR drop_bit 2 z] }
      else do { x \<leftarrow> b64_val a; y \<leftarrow> b64_val b; z \<leftarrow> b64_val c; w \<leftarrow> b64_val d;
                bs \<leftarrow> b64_decode r;
                Some ([push_bit 2 x OR drop_bit 4 y, push_bit 4 y OR drop_bit 2 z, push_bit 6 z OR w] @ bs) })"
| "b64_decode _ = None"

lemma length_b64_text: "length (b64_text s) = (length s + 2) div 3 * 4"
proof (induction s rule: b64_text.induct)
  case (1 x y z r)
  have "(5 + length r) div 3 = Suc ((2 + length r) div 3)" by presburger
  then show ?case using 1 by simp
qed simp_all

lemma b64_char_table: "\<forall>n\<in>set [0..<64]. b64_val (b64_char (of_nat n)) = Some (of_nat n) \<and> b64_char (of_nat n) \<noteq> 0x3d"
  by code_simp

lemma b64_char_val:
  assumes "v < 64"
  shows "b64_val (b64_char v) = Some v" "b64_char v \<noteq> 0x3d"
proof -
  have "unat v < 64" using assms by (simp add: word_less_nat_alt)
  then have v: "unat v \<in> set [0..<64]" by simp
  show "b64_val (b64_char v) = Some v" "b64_char v \<noteq> 0x3d"
    using bspec [OF b64_char_table v] by simp_all
qed

lemma sextets:
  fixes x y z :: byte
  shows "drop_bit 2 x < 64" "push_bit 4 (x AND 0x03) OR drop_bit 4 y < 64"
    "push_bit 2 (y AND 0x0f) OR drop_bit 6 (z AND 0xc0) < 64" "z AND 0x3f < 64" "push_bit 4 (x AND 0x03) < 64"
    "push_bit 2 (y AND 0x0f) < 64"
  by (simp_all add: bit_blast)

lemma octets:
  fixes x y z :: byte
  shows "push_bit 2 (drop_bit 2 x) OR drop_bit 4 (push_bit 4 (x AND 0x03) OR drop_bit 4 y) = x"
    "push_bit 4 (push_bit 4 (x AND 0x03) OR drop_bit 4 y) OR drop_bit 2 (push_bit 2 (y AND 0x0f) OR drop_bit 6 (z AND 0xc0)) = y"
    "push_bit 6 (push_bit 2 (y AND 0x0f) OR drop_bit 6 (z AND 0xc0)) OR (z AND 0x3f) = z"
    "push_bit 2 (drop_bit 2 x) OR drop_bit 4 (push_bit 4 (x AND 0x03)) = x"
    "push_bit 4 (push_bit 4 (x AND 0x03) OR drop_bit 4 y) OR drop_bit 2 (push_bit 2 (y AND 0x0f)) = y"
  by (simp_all add: bit_blast)

lemma b64_decode_text: "b64_decode (b64_text s) = Some s"
  by (induction s rule: b64_text.induct) (simp_all add: b64_char_val sextets [simplified] octets(1-3) [simplified] octets(4,5))

lemma emits_fun: "emits (c # cs) = (\<lambda>r. Option.bind (emit c r) (emits cs))" "emits [] = Some"
  by (rule ext, simp)+

lemma emits_buffer:
  "length cs \<le> length mid \<Longrightarrow>
     emits cs (length w, w @ mid @ [0]) = Some (length w + length cs, w @ cs @ drop (length cs) mid @ [0])"
proof (induction cs arbitrary: w mid)
  case (Cons c cs)
  then obtain m ms where m: "mid = m # ms" by (cases mid) auto
  have "emit c (length w, w @ mid @ [0]) = Some (length (w @ [c]), (w @ [c]) @ ms @ [0])"
    by (simp add: emit_def m)
  then show ?case using Cons.IH [of ms "w @ [c]"] Cons.prems m by simp
qed simp

lemma b64_rest:
  assumes "length (b64_text (drop i buf)) \<le> length mid"
  shows "\<exists>i' r. b64_loop buf i (length w, w @ mid @ [0]) = Some (i', r) \<and>
    b64_tail buf i' r = Some (length w + length (b64_text (drop i buf)),
      w @ b64_text (drop i buf) @ drop (length (b64_text (drop i buf))) mid @ [0])"
  using assms
proof (induction "length buf - i" arbitrary: i w mid rule: less_induct)
  case less
  show ?case
  proof (cases "i + 2 < length buf")
    case True
    then have d: "drop i buf = buf ! i # buf ! (i + 1) # buf ! (i + 2) # drop (i + 3) buf"
      by (simp add: Cons_nth_drop_Suc [symmetric] numeral_eq_Suc)
    define cs where "cs = [b64_char (drop_bit 2 (buf ! i)),
        b64_char (push_bit 4 (buf ! i AND 0x03) OR drop_bit 4 (buf ! (i + 1))),
        b64_char (push_bit 2 (buf ! (i + 1) AND 0x0f) OR drop_bit 6 (buf ! (i + 2) AND 0xc0)),
        b64_char (buf ! (i + 2) AND 0x3f)]"
    have cs: "b64_text (drop i buf) = cs @ b64_text (drop (i + 3) buf)" "length cs = 4"
      by (simp_all add: d cs_def)
    have len: "4 + length (b64_text (drop (i + 3) buf)) \<le> length mid" using less(2) cs by simp
    have e: "emits cs (length w, w @ mid @ [0]) = Some (length (w @ cs), (w @ cs) @ drop 4 mid @ [0])"
      using emits_buffer [of cs mid w] len cs(2) by simp
    have "b64_loop buf i (length w, w @ mid @ [0]) =
        do { r' \<leftarrow> emits cs (length w, w @ mid @ [0]); b64_loop buf (i + 3) r' }"
      using True by (subst b64_loop.simps) (simp add: Let_def cs_def)
    then have l: "b64_loop buf i (length w, w @ mid @ [0]) = b64_loop buf (i + 3) (length (w @ cs), (w @ cs) @ drop 4 mid @ [0])"
      unfolding e by simp
    show ?thesis
      unfolding l cs(1)
      using less(1) [where i = "i + 3" and mid = "drop 4 mid" and w = "w @ cs"] True len cs(2)
      by (simp add: ac_simps)
  next
    case False
    then have l: "b64_loop buf i r = Some (i, r)" for r
      by (subst b64_loop.simps) simp
    consider "length buf \<le> i" | "i + 1 = length buf" | "i + 2 = length buf" using False by linarith
    then show ?thesis
    proof cases
      case 1
      then show ?thesis by (simp add: l b64_tail_def)
    next
      case 2
      then have d: "drop i buf = [buf ! i]" by (metis Cons_nth_drop_Suc Suc_eq_plus1 drop_all lessI order_refl)
      have "b64_tail buf i r = emits (b64_text (drop i buf)) r" for r
        using 2 by (simp add: b64_tail_def d Let_def emits_fun)
      then show ?thesis using emits_buffer [of "b64_text (drop i buf)" mid w] less(2) by (simp add: l)
    next
      case 3
      then have d: "drop i buf = [buf ! i, buf ! (i + 1)]"
        by (simp add: Cons_nth_drop_Suc [symmetric] numeral_eq_Suc)
      have "b64_tail buf i r = emits (b64_text (drop i buf)) r" for r
        using 3 by (simp add: b64_tail_def d Let_def emits_fun)
      then show ?thesis using emits_buffer [of "b64_text (drop i buf)" mid w] less(2) by (simp add: l)
    qed
  qed
qed

text \<open>
  C31: the base-64 encoder fills its buffer exactly, with a NUL at the end and no write outside of it,
  and what it writes decodes to the bytes it was given.
\<close>

theorem asl_b64_roundtrip:
  assumes "buf \<noteq> []"
  shows "\<exists>text. asl_b64_encode True fill (Some buf) = Some (B64 (text @ [0])) \<and>
     length text = (length buf + 2) div 3 * 4 \<and> b64_decode text = Some buf"
proof -
  let ?n = "(length buf + 2) div 3 * 4"
  have "(replicate (n + 1) fill)[n := 0] = [] @ replicate n fill @ [0]" for n
  proof -
    have "replicate (n + 1) fill = replicate n fill @ [fill]" by (simp add: replicate_append_same)
    then show ?thesis by (simp add: list_update_append)
  qed
  from this [of ?n] show ?thesis
    using b64_rest [of 0 buf "replicate ?n fill" "[]"] assms length_b64_text [of buf] b64_decode_text [of buf]
    by (auto simp: asl_b64_encode_def Let_def simp del: replicate_Suc)
qed

theorem asl_b64_roundtrip_witness:
  "\<exists>text. asl_b64_encode True 0xAA (Some [0x4D, 0x61]) = Some (B64 (text @ [0])) \<and> b64_decode text = Some [0x4D, 0x61]"
  using asl_b64_roundtrip [where buf = "[0x4D, 0x61]" and fill = "0xAA"] by blast

end
