(* ===== verification/Kxld_Copyright.thy ===== *)
theory Kxld_Copyright
  imports C_Prelude "HOL-Library.Sublist"
begin

text \<open>
  The check of the copyright string of a kernel extension (\<open>kxld_copyright.c\<close>): the text
  between the copyright notice and the rights notice must be a list of years and ranges of
  years. A C string is the list of its bytes before the terminator; a write behind the token
  buffer, or behind the copy of the dates, is the value \<open>None\<close>.
\<close>

section \<open>The code\<close>

definition kxld_NUL :: char where
  "kxld_NUL = CHR 0x00"

definition kCopyrightToken :: string where
  "kCopyrightToken = ''Copyright '' @ [CHR 0xC2, CHR 0xA9] @ '' ''"

definition kRightsToken :: string where
  "kRightsToken = '' Apple Inc. All rights reserved.''"

definition kxld_is_space :: "char \<Rightarrow> bool" where
  "kxld_is_space c \<longleftrightarrow> c \<in> {CHR '' '', CHR 0x09, CHR 0x0A, CHR 0x0B, CHR 0x0C, CHR 0x0D}"

definition is_token_delimiter :: "char \<Rightarrow> bool" where
  "is_token_delimiter c \<longleftrightarrow> kxld_is_space c \<or> CHR '','' = c \<or> kxld_NUL = c"

text \<open>The character at an index of a string; behind the last one there is the terminator.\<close>

definition kxld_str_at :: "string \<Rightarrow> nat \<Rightarrow> char" where
  "kxld_str_at s i = (if i < length s then s ! i else kxld_NUL)"

definition is_token_break :: "string \<Rightarrow> bool" where
  "is_token_break s \<longleftrightarrow> \<not> is_token_delimiter (kxld_str_at s 0) \<and> is_token_delimiter (kxld_str_at s 1)"

definition year_digit :: "char \<Rightarrow> bool" where
  "year_digit c \<longleftrightarrow> \<not> ((of_char c :: nat) < of_char (CHR ''0'') \<or> (of_char c :: nat) > of_char (CHR ''9''))"

definition kYearLen :: nat where "kYearLen = 5"
definition kYearRangeLen :: nat where "kYearRangeLen = 10"

definition token_is_year :: "string \<Rightarrow> bool" where
  "token_is_year s \<longleftrightarrow>
     list_all (\<lambda>i. year_digit (kxld_str_at s i)) [0..<kYearLen - 1] \<and> kxld_str_at s (kYearLen - 1) = kxld_NUL"

definition token_is_yearRange :: "string \<Rightarrow> bool" where
  "token_is_yearRange s \<longleftrightarrow>
     list_all (\<lambda>i. year_digit (kxld_str_at s i)) [0..<kYearLen - 1] \<and> kxld_str_at s (kYearLen - 1) = CHR ''-'' \<and>
     list_all (\<lambda>i. year_digit (kxld_str_at s i)) [kYearLen..<kYearRangeLen - 1] \<and>
     kxld_str_at s (kYearRangeLen - 1) = kxld_NUL"

text \<open>The loop over the text, with what the buffer holds of the current token.\<close>

fun dates_loop :: "string \<Rightarrow> string \<Rightarrow> bool option" where
  "dates_loop [] tok = Some True"
| "dates_loop (c # cs) tok =
     (if is_token_delimiter c \<and> tok = [] then dates_loop cs tok
      else if length tok = kYearRangeLen then Some False
      else if is_token_break (c # cs) then
        (if length (tok @ [c]) \<ge> kYearRangeLen then None
         else if \<not> token_is_year (tok @ [c]) \<and> \<not> token_is_yearRange (tok @ [c]) then Some False
         else dates_loop cs [])
      else dates_loop cs (tok @ [c]))"

definition dates_are_valid :: "string \<Rightarrow> bool option" where
  "dates_are_valid s = dates_loop s []"

definition strnstr :: "string \<Rightarrow> string \<Rightarrow> nat option" where
  "strnstr s key = List.find (\<lambda>i. prefix key (drop i s)) [0..<length s]"

text \<open>
  \<open>mem n\<close> is whether \<open>kxld_alloc\<close> finds \<open>n\<close> bytes. Where the rights notice begins before the end
  of the copyright notice, \<open>len\<close> wraps around to the largest \<open>size_t\<close>: no byte is allocated, and
  \<open>strncpy\<close> writes over all of memory.
\<close>

definition kxld_validate_copyright_string :: "(nat \<Rightarrow> bool) \<Rightarrow> string \<Rightarrow> bool option" where
  "kxld_validate_copyright_string mem s =
     (case (strnstr s kCopyrightToken, strnstr s kRightsToken) of
        (Some copyright, Some rights) \<Rightarrow>
          if copyright > rights then Some False
          else
            let start = copyright + length kCopyrightToken in
            if rights < start then (if mem ((2 ^ 64 - (start - rights) + 1) mod 2 ^ 64) then None else Some False)
            else
              let len = rights - start in
              if \<not> mem (len + 1) then Some False
              else dates_are_valid (take len (drop start s))
      | _ \<Rightarrow> Some False)"

section \<open>Tokens\<close>

text \<open>The tokens of a text: its longest pieces without a delimiter.\<close>

function tokens :: "string \<Rightarrow> string list" where
  "tokens s =
     (case dropWhile is_token_delimiter s of [] \<Rightarrow> []
      | c # cs \<Rightarrow> (c # takeWhile (\<lambda>c. \<not> is_token_delimiter c) cs) #
          tokens (dropWhile (\<lambda>c. \<not> is_token_delimiter c) cs))"
  by auto
termination
proof (relation "measure length", goal_cases)
  case (2 s c cs)
  have "length (dropWhile (\<lambda>c. \<not> is_token_delimiter c) cs) < length (c # cs)"
    by (simp add: length_dropWhile_le less_Suc_eq_le)
  also have "\<dots> \<le> length s"
    by (metis 2 length_dropWhile_le)
  finally show ?case by simp
qed simp

declare tokens.simps [simp del]

definition is_year :: "string \<Rightarrow> bool" where
  "is_year t \<longleftrightarrow> length t = 4 \<and> list_all year_digit t"

definition is_year_range :: "string \<Rightarrow> bool" where
  "is_year_range t \<longleftrightarrow> length t = 9 \<and> is_year (take 4 t) \<and> t ! 4 = CHR ''-'' \<and> is_year (drop 5 t)"

text \<open>What becomes of a list of tokens: one of ten characters overruns the buffer.\<close>

fun dates_spec :: "string list \<Rightarrow> bool option" where
  "dates_spec [] = Some True"
| "dates_spec (t # ts) =
     (if length t = 10 then None
      else if is_year t \<or> is_year_range t then dates_spec ts else Some False)"

lemma nul_no_digit [simp]: "\<not> year_digit kxld_NUL"
  by (simp add: year_digit_def kxld_NUL_def)

lemma nul_delim [simp]: "is_token_delimiter kxld_NUL"
  by (simp add: is_token_delimiter_def)

lemma digit_no_delim: "year_digit c \<Longrightarrow> \<not> is_token_delimiter c"
  by (auto simp: year_digit_def is_token_delimiter_def kxld_is_space_def kxld_NUL_def)

lemma str_at_Cons [simp]: "kxld_str_at (c # s) 0 = c" "kxld_str_at (c # s) (Suc i) = kxld_str_at s i"
  and str_at_Nil [simp]: "kxld_str_at [] i = kxld_NUL"
  by (simp_all add: kxld_str_at_def)

lemma token_is_year_iff:
  assumes "kxld_NUL \<notin> set t"
  shows "token_is_year t \<longleftrightarrow> is_year t"
proof -
  have nul: "kxld_str_at t 4 = kxld_NUL \<longleftrightarrow> length t \<le> 4"
    using assms by (auto simp: kxld_str_at_def) (metis not_less nth_mem)
  have "token_is_year t \<longleftrightarrow> (\<forall>i<4. year_digit (kxld_str_at t i)) \<and> length t \<le> 4"
    by (auto simp: token_is_year_def kYearLen_def list_all_iff nul)
  also have "\<dots> \<longleftrightarrow> is_year t"
  proof
    assume *: "(\<forall>i<4. year_digit (kxld_str_at t i)) \<and> length t \<le> 4"
    then have "length t = 4"
      by (metis nul_no_digit le_neq_implies_less kxld_str_at_def less_irrefl)
    with * show "is_year t"
      by (auto simp: is_year_def list_all_length kxld_str_at_def)
  qed (auto simp: is_year_def list_all_length kxld_str_at_def)
  finally show ?thesis .
qed

lemma token_is_yearRange_iff:
  assumes "kxld_NUL \<notin> set t"
  shows "token_is_yearRange t \<longleftrightarrow> is_year_range t"
proof -
  have nul: "kxld_str_at t 9 = kxld_NUL \<longleftrightarrow> length t \<le> 9"
    using assms by (auto simp: kxld_str_at_def) (metis not_less nth_mem)
  have "token_is_yearRange t \<longleftrightarrow> (\<forall>i<4. year_digit (kxld_str_at t i)) \<and> kxld_str_at t 4 = CHR ''-'' \<and>
     (\<forall>i\<in>{5..<9}. year_digit (kxld_str_at t i)) \<and> length t \<le> 9"
    unfolding token_is_yearRange_def kYearLen_def kYearRangeLen_def list_all_iff set_upt
    using nul by (simp add: Ball_def)
  also have "\<dots> \<longleftrightarrow> is_year_range t"
  proof
    assume *: "(\<forall>i<4. year_digit (kxld_str_at t i)) \<and> kxld_str_at t 4 = CHR ''-'' \<and>
      (\<forall>i\<in>{5..<9}. year_digit (kxld_str_at t i)) \<and> length t \<le> 9"
    then have "year_digit (kxld_str_at t 8)"
      by auto
    then have "length t = 9"
      using * by (cases "8 < length t") (auto simp: kxld_str_at_def)
    with * show "is_year_range t"
      by (auto simp: is_year_range_def is_year_def list_all_length kxld_str_at_def)
  next
    assume *: "is_year_range t"
    have "year_digit (t ! i)" if "5 \<le> i" "i < 9" for i
      using * that by (auto simp: is_year_range_def is_year_def list_all_length dest: spec [of _ "i - 5"])
    with * show "(\<forall>i<4. year_digit (kxld_str_at t i)) \<and> kxld_str_at t 4 = CHR ''-'' \<and>
      (\<forall>i\<in>{5..<9}. year_digit (kxld_str_at t i)) \<and> length t \<le> 9"
      by (auto simp: is_year_range_def is_year_def list_all_length kxld_str_at_def)
  qed
  finally show ?thesis .
qed

lemma no_nul_token:
  "list_all (\<lambda>c. \<not> is_token_delimiter c) t \<Longrightarrow> kxld_NUL \<notin> set t"
  by (auto simp: list_all_iff)

text \<open>The loop over the rest of a token, and the check at its end.\<close>

lemma dates_loop_token:
  assumes "list_all (\<lambda>c. \<not> is_token_delimiter c) (tok @ rs)" "rs \<noteq> []" "length tok \<le> 10"
    and "is_token_delimiter (kxld_str_at rest 0)"
  shows "dates_loop (rs @ rest) tok =
     (if length (tok @ rs) = 10 then None
      else if is_year (tok @ rs) \<or> is_year_range (tok @ rs) then dates_loop rest [] else Some False)"
  using assms
proof (induction rs arbitrary: tok)
  case (Cons c rs)
  note nd = no_nul_token [OF Cons.prems(1)]
  have c: "\<not> is_token_delimiter c"
    using Cons.prems(1) by simp
  show ?case
  proof (cases rs)
    case Nil
    have "is_token_break (c # rest)"
      using c Cons.prems(4) by (simp add: is_token_break_def)
    then show ?thesis
      using Nil Cons.prems(3) nd c
      by (auto simp: kYearRangeLen_def token_is_year_iff token_is_yearRange_iff is_year_def is_year_range_def)
  next
    case (Cons d ds)
    have "\<not> is_token_break (c # rs @ rest)"
      using Cons Cons.prems(1) by (simp add: is_token_break_def)
    then have step: "dates_loop ((c # rs) @ rest) tok =
      (if length tok = 10 then Some False else dates_loop (rs @ rest) (tok @ [c]))"
      using c by (simp add: kYearRangeLen_def)
    show ?thesis
    proof (cases "length tok = 10")
      case True
      then have "\<not> is_year (tok @ c # rs)" "\<not> is_year_range (tok @ c # rs)"
        by (simp_all add: is_year_def is_year_range_def)
      with True step show ?thesis by simp
    next
      case False
      then show ?thesis
        using step Cons Cons.prems Cons.IH [of "tok @ [c]"] by simp
    qed
  qed
qed simp

lemma dates_loop_skip: "dates_loop s [] = dates_loop (dropWhile is_token_delimiter s) []"
  by (induction s) auto

lemma dates_loop_tokens: "dates_loop s [] = dates_spec (tokens s)"
proof (induction s rule: tokens.induct)
  case (1 s)
  show ?case
  proof (cases "dropWhile is_token_delimiter s")
    case Nil
    then have "tokens s = []"
      by (subst tokens.simps) (simp only: list.case)
    with Nil dates_loop_skip [of s] show ?thesis by (simp only: dates_spec.simps dates_loop.simps)
  next
    case (Cons c cs)
    let ?t = "c # takeWhile (\<lambda>c. \<not> is_token_delimiter c) cs"
    let ?r = "dropWhile (\<lambda>c. \<not> is_token_delimiter c) cs"
    have c: "\<not> is_token_delimiter c"
      using Cons by (metis hd_dropWhile list.distinct(1) list.sel(1))
    have t: "list_all (\<lambda>c. \<not> is_token_delimiter c) ([] @ ?t)"
      using c by (auto simp: list_all_iff dest: set_takeWhileD)
    have r: "is_token_delimiter (kxld_str_at ?r 0)"
    proof (cases ?r)
      case (Cons d ds)
      then have "is_token_delimiter d"
        by (metis (mono_tags, lifting) dropWhile_eq_Cons_conv)
      with Cons show ?thesis by simp
    qed (simp only: str_at_Nil nul_delim)
    have "dates_loop s [] = dates_loop (?t @ ?r) []"
      using dates_loop_skip [of s] Cons by simp
    also have "\<dots> = (if length ?t = 10 then None
      else if is_year ?t \<or> is_year_range ?t then dates_loop ?r [] else Some False)"
      using dates_loop_token [OF t _ _ r] by simp
    also have "\<dots> = dates_spec (?t # tokens ?r)"
      using 1 [OF Cons] by (simp only: dates_spec.simps)
    also have "?t # tokens ?r = tokens s"
      by (subst tokens.simps [of s]) (simp only: Cons list.case)
    finally show ?thesis .
  qed
qed

lemma dates_spec_True:
  "dates_spec ts = Some True \<longleftrightarrow> list_all (\<lambda>t. is_year t \<or> is_year_range t) ts"
  by (induction ts) (auto simp: is_year_def is_year_range_def)

lemma dates_spec_None:
  "dates_spec ts = None \<longleftrightarrow>
     (\<exists>k < length ts. length (ts ! k) = 10 \<and> list_all (\<lambda>t. is_year t \<or> is_year_range t) (take k ts))"
proof (induction ts)
  case (Cons t ts)
  show ?case
  proof (cases "length t = 10")
    case False
    then show ?thesis
      using Cons by (simp add: Ex_less_Suc2)
  qed (auto intro: exI [of _ 0])
qed simp

section \<open>Properties\<close>

text \<open>Where a text begins to occur in a string for the first time.\<close>

definition first_at :: "string \<Rightarrow> string \<Rightarrow> nat \<Rightarrow> bool" where
  "first_at key s i \<longleftrightarrow> prefix key (drop i s) \<and> (\<nexists>k. k < i \<and> prefix key (drop k s))"

lemma strnstr_Some:
  assumes "key \<noteq> []"
  shows "strnstr s key = Some i \<longleftrightarrow> first_at key s i"
proof -
  have "i < length s" if "prefix key (drop i s)"
    using that assms by (cases "i < length s") auto
  then show ?thesis
    by (auto simp: strnstr_def find_Some_iff first_at_def)
qed

lemma notices_nonempty [simp]: "kCopyrightToken \<noteq> []" "kRightsToken \<noteq> []"
  by (simp_all add: kCopyrightToken_def kRightsToken_def)

lemma length_notice [simp]: "length kCopyrightToken = 13"
  by (simp add: kCopyrightToken_def)

text \<open>The text between the two notices.\<close>

definition date_text :: "string \<Rightarrow> nat \<Rightarrow> nat \<Rightarrow> string" where
  "date_text s i j = take (j - (i + 13)) (drop (i + 13) s)"

lemma validate_cases:
  "kxld_validate_copyright_string mem s =
     (case (strnstr s kCopyrightToken, strnstr s kRightsToken) of
        (Some i, Some j) \<Rightarrow>
          if i > j then Some False
          else if j < i + 13 then (if mem ((2 ^ 64 - (i + 13 - j) + 1) mod 2 ^ 64) then None else Some False)
          else if \<not> mem (j - (i + 13) + 1) then Some False
          else dates_spec (tokens (date_text s i j))
      | _ \<Rightarrow> Some False)"
  by (simp add: kxld_validate_copyright_string_def Let_def dates_are_valid_def dates_loop_tokens date_text_def
      split: option.splits)

text \<open>
  C32: The check accepts a string exactly when, between the first copyright notice and the
  first rights notice, every token is a year or a range of years and there is memory for a
  copy of that text. In particular it accepts a string without any year, where the two notices
  have each a space of its own.
\<close>

theorem copyright_accepts:
  "kxld_validate_copyright_string mem s = Some True \<longleftrightarrow>
     (\<exists>i j. first_at kCopyrightToken s i \<and> first_at kRightsToken s j \<and> i + 13 \<le> j \<and> mem (j - (i + 13) + 1) \<and>
        list_all (\<lambda>t. is_year t \<or> is_year_range t) (tokens (date_text s i j)))"
  unfolding validate_cases strnstr_Some [OF notices_nonempty(1), symmetric] strnstr_Some [OF notices_nonempty(2), symmetric]
  by (auto simp: dates_spec_True split: option.splits if_splits)

text \<open>The rights notice cannot begin inside of the copyright notice, but for the space they share.\<close>

lemma notices_overlap:
  assumes "prefix kCopyrightToken (drop i s)" "prefix kRightsToken (drop j s)" "i \<le> j" "j < i + 13"
  shows "j = i + 12"
proof -
  obtain u where u: "drop i s = kCopyrightToken @ u"
    using assms(1) by (auto simp: prefix_def)
  obtain w where w: "drop j s = kRightsToken @ w"
    using assms(2) by (auto simp: prefix_def)
  have "drop (j - i) (kCopyrightToken @ u) = kRightsToken @ w"
    using u w assms(3) by (metis drop_drop le_add_diff_inverse2)
  moreover have "d \<in> {0, 1, 2, 3, 4, 5, 6, 7, 8, 9, 10, 11, 12}" if "d < 13" for d :: nat
    using that by simp presburger
  then have "j - i \<in> {0, 1, 2, 3, 4, 5, 6, 7, 8, 9, 10, 11, 12}"
    using assms(3,4) by (simp del: insert_iff)
  ultimately have "j - i = 12"
    by (auto simp: kCopyrightToken_def kRightsToken_def)
  with assms(3) show ?thesis by simp
qed

text \<open>
  C33: The check writes outside of its memory exactly in two cases: where the rights notice
  begins with the space that ends the copyright notice, so that the length of the text between
  them wraps around, and where a token of ten characters follows on tokens that are all valid,
  as its terminator has no room in the buffer.
\<close>

theorem copyright_overruns:
  "kxld_validate_copyright_string mem s = None \<longleftrightarrow>
     (\<exists>i j. first_at kCopyrightToken s i \<and> first_at kRightsToken s j \<and>
        (j = i + 12 \<and> mem 0 \<or>
         i + 13 \<le> j \<and> mem (j - (i + 13) + 1) \<and>
         (\<exists>k < length (tokens (date_text s i j)). length (tokens (date_text s i j) ! k) = 10 \<and>
            list_all (\<lambda>t. is_year t \<or> is_year_range t) (take k (tokens (date_text s i j))))))"
proof -
  have "j = i + 12" if "first_at kCopyrightToken s i" "first_at kRightsToken s j" "i \<le> j" "j < i + 13" for i j
    using notices_overlap that by (auto simp: first_at_def)
  then show ?thesis
    unfolding validate_cases strnstr_Some [OF notices_nonempty(1), symmetric] strnstr_Some [OF notices_nonempty(2), symmetric]
    by (fastforce simp: dates_spec_None split: option.splits if_splits)
qed

section \<open>The examples of the source\<close>

definition notice :: "string \<Rightarrow> string" where
  "notice dates = kCopyrightToken @ dates @ kRightsToken"

lemma copyright_passes:
  "list_all (\<lambda>s. kxld_validate_copyright_string (\<lambda>_. True) s = Some True)
     [notice ''2008'', notice ''2004-2008'', notice ''2004,2006'', notice ''2004 , 2006-2008'',
      notice ''1998,2000-2002,2004,2006-2008'', ''IOPCIFamily 2.1; '' @ notice ''2004,2006-2008'' @ ''  The quick'']"
  by code_simp

lemma copyright_fails:
  "list_all (\<lambda>s. kxld_validate_copyright_string (\<lambda>_. True) s = Some False)
     [notice ''2007-08'', notice ''2007-'', notice ''2007 - 2008'', ''Copyright (c) 2007'' @ kRightsToken]"
  by code_simp

lemma copyright_overrun_examples:
  "list_all (\<lambda>s. kxld_validate_copyright_string (\<lambda>_. True) s = None)
     [notice ''2004,0123456789'', ''Copyright '' @ [CHR 0xC2, CHR 0xA9] @ kRightsToken]"
  by code_simp
end
