(* ===== verification/Locale_Files.thy ===== *)
theory Locale_Files
  imports C_Prelude "HOL-Library.Monad_Syntax"
begin

text \<open>
  The files of a locale (\<open>ldpart.c\<close>, and what \<open>lnumeric.c\<close>, \<open>lmonetary.c\<close>, \<open>lmessages.c\<close> and
  \<open>fix_grouping.c\<close> make of their lines): a file is one string per line, and the strings are the
  fields of a structure, in its order. The files of the system are an argument. A C string is
  the list of its characters before the terminator, and a null pointer is \<open>None\<close>.
\<close>

section \<open>Reading a file\<close>

definition LC_NUL :: char where "LC_NUL = CHR 0x00"
definition LF :: char where "LF = CHR 0x0A"
definition CHAR_MAX :: char where "CHAR_MAX = CHR 0x7F"

text \<open>A file that can be opened: whether \<open>fstat\<close> succeeds, its contents, and whether all of it can be read.\<close>

record lc_file =
  lf_stat :: bool
  lf_data :: string
  lf_readable :: bool

text \<open>The files of the system, by path, and \<open>_PathLocale\<close> with its default.\<close>

record lc_system =
  ls_files :: "string \<Rightarrow> lc_file option"
  ls_PathLocale :: string
  ls_default :: string

definition open_path_locale :: "lc_system \<Rightarrow> string \<Rightarrow> lc_file option" where
  "open_path_locale S subpath =
     (case ls_files S (ls_PathLocale S @ ''/'' @ subpath) of Some f \<Rightarrow> Some f
      | None \<Rightarrow>
          (case ls_files S (ls_default S @ ''/'' @ subpath) of Some f \<Rightarrow> Some f
           | None \<Rightarrow> ls_files S (''/usr/local/share/locale'' @ ''/'' @ subpath)))"

text \<open>The lines are terminated in place; the result has the new contents and the number of lines.\<close>

fun split_lines :: "string \<Rightarrow> string \<times> nat" where
  "split_lines [] = ([], 0)"
| "split_lines (c # p) =
     (case split_lines p of (q, i) \<Rightarrow> if c = LF then (LC_NUL # q, i + 1) else (c # q, i))"

text \<open>\<open>n\<close> strings that lie one behind the other in memory.\<close>

fun c_strings :: "nat \<Rightarrow> string \<Rightarrow> string list" where
  "c_strings 0 p = []"
| "c_strings (Suc n) p =
     takeWhile (\<lambda>c. c \<noteq> LC_NUL) p # c_strings n (drop 1 (dropWhile (\<lambda>c. c \<noteq> LC_NUL) p))"

text \<open>
  The result is the list of the fields, or the \<open>errno\<close> that this function sets, with
  \<open>ErrnoUnset\<close> where a system call has set it. \<open>mem\<close> is whether there is memory for the file.
\<close>

definition part_load_locale :: "lc_system \<Rightarrow> bool \<Rightarrow> string \<Rightarrow> string \<Rightarrow> nat \<Rightarrow> nat \<Rightarrow> errno + string option list" where
  "part_load_locale S mem name category_filename size_max size_min =
     (case open_path_locale S (name @ ''/'' @ category_filename) of
        None \<Rightarrow> Inl ErrnoUnset
      | Some f \<Rightarrow>
          if \<not> lf_stat f then Inl ErrnoUnset
          else if lf_data f = [] then Inl EFTYPE
          else if \<not> mem then Inl ENOMEM
          else if \<not> lf_readable f then Inl ErrnoUnset
          else if last (lf_data f) \<noteq> LF then Inl EFTYPE
          else
            (case split_lines (lf_data f) of
               (p, lines) \<Rightarrow>
                 if lines < size_max \<and> lines < size_min then Inl EFTYPE
                 else let num_lines = min lines size_max in
                   Inr (map Some (c_strings num_lines p) @ replicate (size_max - num_lines) None)))"

section \<open>Grouping\<close>

definition c_isdigit :: "char \<Rightarrow> bool" where
  "c_isdigit c \<longleftrightarrow> (of_char (CHR ''0'') :: nat) \<le> of_char c \<and> (of_char c :: nat) \<le> of_char (CHR ''9'')"

definition digit_of :: "char \<Rightarrow> nat" where
  "digit_of c = of_char c - of_char (CHR ''0'')"

text \<open>
  The loop over the string that is rewritten in place. \<open>src\<close> is what is left to read, \<open>dst\<close> what
  has been written before it. A broken string becomes \<open>nogrouping\<close>, the empty one.
\<close>

function fix_grouping_loop :: "string \<Rightarrow> string \<Rightarrow> string" where
  "fix_grouping_loop src dst =
     (case src of [] \<Rightarrow> dst
      | c # r \<Rightarrow>
          if c = CHR '';'' then fix_grouping_loop r dst
          else if c = CHR ''-'' \<and> take 1 r = ''1'' then fix_grouping_loop (drop 1 r) (dst @ [CHAR_MAX])
          else if \<not> c_isdigit c then []
          else
            let two = (r \<noteq> [] \<and> c_isdigit (hd r));
                n = (if two then digit_of c * 10 + digit_of (hd r) else digit_of c)
            in if n = 0 then dst
               else fix_grouping_loop (if two then tl r else r) (dst @ [char_of n]))"
  by auto
termination
  by (relation "measure (\<lambda>(src, dst). length src)") auto

declare fix_grouping_loop.simps [simp del]

definition fix_locale_grouping_str :: "string option \<Rightarrow> string" where
  "fix_locale_grouping_str str =
     (case str of None \<Rightarrow> [] | Some s \<Rightarrow> if s = [] then [] else fix_grouping_loop s [])"

section \<open>The fields of the categories\<close>

text \<open>\<open>struct lc_numeric_T\<close>: decimal point, separator of thousands, grouping.\<close>

definition LCNUMERIC_SIZE :: nat where "LCNUMERIC_SIZE = 3"

definition numeric_fields :: "string option list \<Rightarrow> string option list" where
  "numeric_fields xs =
     (let xs = (if xs ! 0 = Some [] then xs[0 := Some ''.''] else xs)
      in xs[2 := Some (fix_locale_grouping_str (xs ! 2))])"

text \<open>\<open>struct lc_messages_T\<close>: \<open>yesexpr\<close>, \<open>noexpr\<close>, \<open>yesstr\<close>, \<open>nostr\<close>.\<close>

definition LCMESSAGES_SIZE_FULL :: nat where "LCMESSAGES_SIZE_FULL = 4"
definition LCMESSAGES_SIZE_MIN :: nat where "LCMESSAGES_SIZE_MIN = 2"

definition messages_fields :: "string option list \<Rightarrow> string option list" where
  "messages_fields xs =
     (let xs = (if xs ! 2 = None then xs[2 := Some []] else xs)
      in if xs ! 3 = None then xs[3 := Some []] else xs)"

text \<open>
  \<open>struct lc_monetary_T\<close>: grouping is field 4; from 7 on the fields are numbers of one
  character each, of which the six international ones from 15 on may be missing.
\<close>

definition LCMONETARY_SIZE_FULL :: nat where "LCMONETARY_SIZE_FULL = 21"
definition LCMONETARY_SIZE_MIN :: nat where "LCMONETARY_SIZE_MIN = 15"

text \<open>\<open>strtol\<close> to the base 10, with its white space, its sign and its limits, as an \<open>int\<close>.\<close>

definition lc_isspace :: "char \<Rightarrow> bool" where
  "lc_isspace c \<longleftrightarrow> c = CHR '' '' \<or> (9 \<le> (of_char c :: nat) \<and> (of_char c :: nat) \<le> 13)"

definition strtol10 :: "string \<Rightarrow> int" where
  "strtol10 s =
     (let s = dropWhile lc_isspace s;
          neg = (s \<noteq> [] \<and> hd s = CHR ''-'');
          s = (if s \<noteq> [] \<and> (hd s = CHR ''-'' \<or> hd s = CHR ''+'') then tl s else s);
          v = foldl (\<lambda>v c. 10 * v + int (digit_of c)) 0 (takeWhile c_isdigit s)
      in max (- (2 ^ 63)) (min (2 ^ 63 - 1) (if neg then - v else v)))"

definition cnv :: "string \<Rightarrow> char" where
  "cnv str =
     (let i = sint (word_of_int (strtol10 str) :: 32 word) in if i = - 1 then CHAR_MAX else char_of (i mod 256))"

text \<open>The first character of a field becomes its number; a zero terminates the string there.\<close>

definition assign_char :: "string option \<Rightarrow> string option" where
  "assign_char x =
     (case x of None \<Rightarrow> None
      | Some s \<Rightarrow> Some (if cnv s = LC_NUL then [] else cnv s # tl s))"

definition assign_ichar :: "nat \<Rightarrow> nat \<Rightarrow> string option list \<Rightarrow> string option list" where
  "assign_ichar int_name name xs =
     (case xs ! int_name of None \<Rightarrow> xs[int_name := xs ! name] | Some s \<Rightarrow> xs[int_name := assign_char (Some s)])"

definition monetary_fields :: "string option list \<Rightarrow> string option list" where
  "monetary_fields xs =
     (let xs = xs[4 := Some (fix_locale_grouping_str (xs ! 4))];
          xs = take 7 xs @ map assign_char (take 8 (drop 7 xs)) @ drop 15 xs;
          xs = assign_ichar 15 9 xs; xs = assign_ichar 16 11 xs;
          xs = assign_ichar 17 10 xs; xs = assign_ichar 18 12 xs;
          xs = assign_ichar 19 13 xs
      in assign_ichar 20 14 xs)"

text \<open>\<open>struct lc_time_T\<close>: 12 + 12 + 7 + 7 names, six formats, 12 names, two formats.\<close>

definition LCTIME_SIZE :: nat where "LCTIME_SIZE = 58"


section \<open>What a file says\<close>

text \<open>The file that has the given lines.\<close>

definition file_of :: "string list \<Rightarrow> string" where
  "file_of ls = concat (map (\<lambda>l. l @ [LF]) ls)"

definition plain_line :: "string \<Rightarrow> bool" where
  "plain_line l \<longleftrightarrow> LF \<notin> set l \<and> LC_NUL \<notin> set l"

lemma split_lines_append:
  "split_lines (p @ q) =
     (fst (split_lines p) @ fst (split_lines q), snd (split_lines p) + snd (split_lines q))"
  by (induction p) (simp_all add: case_prod_beta)

lemma split_lines_plain: "LF \<notin> set l \<Longrightarrow> split_lines l = (l, 0)"
  by (induction l) auto

lemma split_lines_file:
  "list_all plain_line ls \<Longrightarrow> split_lines (file_of ls) = (concat (map (\<lambda>l. l @ [LC_NUL]) ls), length ls)"
  by (induction ls) (simp_all add: file_of_def split_lines_append split_lines_plain plain_line_def)

lemma takeWhile_terminated:
  "LC_NUL \<notin> set l \<Longrightarrow> takeWhile (\<lambda>c. c \<noteq> LC_NUL) (l @ LC_NUL # r) = l"
  "LC_NUL \<notin> set l \<Longrightarrow> dropWhile (\<lambda>c. c \<noteq> LC_NUL) (l @ LC_NUL # r) = LC_NUL # r"
  by (induction l) auto

lemma c_strings_file:
  "list_all plain_line ls \<Longrightarrow> n \<le> length ls \<Longrightarrow>
     c_strings n (concat (map (\<lambda>l. l @ [LC_NUL]) ls)) = take n ls"
proof (induction n arbitrary: ls)
  case (Suc n)
  then show ?case
    by (cases ls) (simp_all add: plain_line_def takeWhile_terminated)
qed simp

lemma file_of_end: "ls \<noteq> [] \<Longrightarrow> file_of ls \<noteq> [] \<and> last (file_of ls) = LF"
  by (induction ls rule: rev_induct) (simp_all add: file_of_def)

lemma part_load_lines:
  assumes "open_path_locale S (name @ ''/'' @ cat) = Some f" "lf_stat f" "lf_readable f" "mem"
    and "lf_data f = file_of ls" "list_all plain_line ls" "ls \<noteq> []"
  shows "part_load_locale S mem name cat size_max size_min =
     (if length ls < size_max \<and> length ls < size_min then Inl EFTYPE
      else Inr (map Some (take size_max ls) @ replicate (size_max - length ls) None))"
proof -
  have "c_strings (min (length ls) size_max) (concat (map (\<lambda>l. l @ [LC_NUL]) ls)) = take size_max ls"
    using c_strings_file [OF assms(6), of "min (length ls) size_max"] by (simp add: min_def)
  moreover have "size_max - min (length ls) size_max = size_max - length ls"
    by simp
  ultimately show ?thesis
    using assms file_of_end by (simp add: part_load_locale_def split_lines_file Let_def)
qed

lemma part_load_length:
  assumes "part_load_locale S mem name cat size_max size_min = Inr xs"
  shows "length xs = size_max"
proof -
  have "length (c_strings n p) = n" for n p
    by (induction n arbitrary: p) auto
  then show ?thesis
    using assms by (auto simp: part_load_locale_def Let_def split: option.splits if_splits prod.splits)
qed

lemma part_load_fields:
  assumes "part_load_locale S mem name cat size_max size_min = Inr xs" "i < size_min" "size_min \<le> size_max"
  shows "xs ! i \<noteq> None"
proof -
  have "length (c_strings n p) = n" for n p
    by (induction n arbitrary: p) auto
  then show ?thesis
    using assms
    by (auto simp: part_load_locale_def Let_def nth_append min_def split: option.splits if_splits prod.splits)
qed

section \<open>What a grouping string says\<close>

text \<open>A grouping is written as numbers from 1 to 99, or as -1 for \<open>CHAR_MAX\<close>, between semicolons.\<close>

definition group_str :: "nat \<Rightarrow> string" where
  "group_str n =
     (if n = 127 then ''-1''
      else if n < 10 then [char_of (48 + n)]
      else [char_of (48 + n div 10), char_of (48 + n mod 10)])"

fun grouping_str :: "nat list \<Rightarrow> string" where
  "grouping_str [] = []"
| "grouping_str [n] = group_str n"
| "grouping_str (n # ns) = group_str n @ '';'' @ grouping_str ns"

definition group_ok :: "nat \<Rightarrow> bool" where
  "group_ok n \<longleftrightarrow> n = 127 \<or> 0 < n \<and> n < 100"

lemma digit_char:
  assumes "d < 10"
  shows "c_isdigit (char_of (48 + d))" "digit_of (char_of (48 + d)) = d"
    "(char_of (48 + d) :: char) \<noteq> CHR '';''" "(char_of (48 + d) :: char) \<noteq> CHR ''-''"
proof -
  have d: "of_char (char_of (48 + d) :: char) = 48 + d"
    using assms by simp
  then show "c_isdigit (char_of (48 + d))" "digit_of (char_of (48 + d)) = d"
    using assms by (simp_all add: c_isdigit_def digit_of_def)
  have "of_char (char_of (48 + d) :: char) \<noteq> (of_char (CHR '';'') :: nat)"
    "of_char (char_of (48 + d) :: char) \<noteq> (of_char (CHR ''-'') :: nat)"
    unfolding d using assms by simp_all
  then show "(char_of (48 + d) :: char) \<noteq> CHR '';''" "(char_of (48 + d) :: char) \<noteq> CHR ''-''"
    by metis+
qed

lemma group_step:
  assumes "group_ok n" "r = [] \<or> hd r = CHR '';''"
  shows "fix_grouping_loop (group_str n @ r) dst = fix_grouping_loop r (dst @ [char_of n])"
proof -
  have r: "\<not> (r \<noteq> [] \<and> c_isdigit (hd r))"
    using assms(2) by (auto simp: c_isdigit_def)
  consider "n = 127" | "0 < n" "n < 10" | "n \<noteq> 127" "10 \<le> n" "n < 100"
    using assms(1) by (force simp: group_ok_def)
  then show ?thesis
  proof cases
    case 1
    moreover have "char_of (127 :: nat) = CHAR_MAX"
      by code_simp
    ultimately show ?thesis
      by (subst fix_grouping_loop.simps) (simp add: group_str_def)
  next
    case 2
    show ?thesis
      by (subst fix_grouping_loop.simps) (use 2 r digit_char [of n] in \<open>auto simp: group_str_def Let_def\<close>)
  next
    case 3
    have "10 * (n div 10) + n mod 10 = n" "n div 10 < 10"
      using 3 by simp_all
    with 3 show ?thesis
      by (subst fix_grouping_loop.simps)
        (use digit_char [of "n div 10"] digit_char [of "n mod 10"] in \<open>auto simp: group_str_def Let_def mult.commute\<close>)
  qed
qed

lemma group_str_nonempty [simp]: "group_str n \<noteq> []"
  by (simp add: group_str_def)

lemma plain_group:
  assumes "group_ok n"
  shows "plain_line (group_str n)"
proof -
  have "c \<noteq> LF \<and> c \<noteq> LC_NUL" if "c_isdigit c" for c
    using that by (auto simp: c_isdigit_def LF_def LC_NUL_def)
  then have d: "char_of (48 + d) \<noteq> LF" "char_of (48 + d) \<noteq> LC_NUL" if "d < 10" for d :: nat
    using digit_char(1) [OF that] by blast+
  show ?thesis
  proof (cases "n = 127")
    case True
    then show ?thesis by (simp add: group_str_def plain_line_def LF_def LC_NUL_def)
  next
    case False
    have "n div 10 < 10" "n mod 10 < 10"
      using assms False by (auto simp: group_ok_def)
    note this [THEN d(1)] this [THEN d(2)] d [of n]
    with False show ?thesis by (auto simp: group_str_def plain_line_def)
  qed
qed

lemma grouping_str_nonempty [simp]: "grouping_str (n # ns) \<noteq> []"
  by (cases ns) simp_all

lemma fix_grouping_semicolon: "fix_grouping_loop (CHR '';'' # r) dst = fix_grouping_loop r dst"
  by (subst fix_grouping_loop.simps) simp

lemma fix_grouping_loop_str:
  "list_all group_ok ns \<Longrightarrow> fix_grouping_loop (grouping_str ns) dst = dst @ map char_of ns"
proof (induction ns arbitrary: dst rule: grouping_str.induct)
  case 1
  show ?case by (subst fix_grouping_loop.simps) simp
next
  case (2 n)
  have "fix_grouping_loop [] d = d" for d
    by (subst fix_grouping_loop.simps) simp
  with 2 show ?case
    using group_step [of n "[]"] by simp
next
  case (3 n m ns)
  then show ?case
    using group_step [of n "CHR '';'' # grouping_str (m # ns)"] by (simp add: fix_grouping_semicolon)
qed

lemma fix_grouping_str:
  assumes "list_all group_ok ns"
  shows "fix_locale_grouping_str (Some (grouping_str ns)) = map char_of ns"
  using fix_grouping_loop_str [OF assms, of "[]"] by (cases ns) (auto simp: fix_locale_grouping_str_def)


text \<open>
  What a numeric locale file says is what a program gets: a file with the lines for the
  decimal point, the separator and a grouping, wherever on the path of locales it is, is loaded
  as these three strings, with the grouping as a sequence of bytes, and with a point where the
  first line is empty.
\<close>

lemma numeric_file_roundtrip:
  assumes "open_path_locale S (name @ ''/LC_NUMERIC'') = Some f" "lf_stat f" "lf_readable f"
    and "lf_data f = file_of [point, sep, grouping_str gs]"
    and "plain_line point" "plain_line sep" "list_all group_ok gs"
  shows "(case part_load_locale S True name ''LC_NUMERIC'' LCNUMERIC_SIZE LCNUMERIC_SIZE of
      Inl e \<Rightarrow> False
    | Inr xs \<Rightarrow> numeric_fields xs = [Some (if point = [] then ''.'' else point), Some sep, Some (map char_of gs)])"
proof -
  have "plain_line (grouping_str gs)"
    using assms(7)
  proof (induction gs rule: grouping_str.induct)
    case 1
    show ?case by (simp add: plain_line_def)
  next
    case (2 n)
    then show ?case using plain_group [of n] by simp
  next
    case (3 n m ns)
    then show ?case using plain_group [of n] by (simp add: plain_line_def LF_def LC_NUL_def)
  qed
  then have "part_load_locale S True name ''LC_NUMERIC'' 3 3 =
      Inr [Some point, Some sep, Some (grouping_str gs)]"
    using part_load_lines [of S name "''LC_NUMERIC''" f True "[point, sep, grouping_str gs]" 3 3] assms by simp
  then show ?thesis
    using fix_grouping_str [OF assms(7)] by (simp add: LCNUMERIC_SIZE_def numeric_fields_def Let_def)
qed

end
