(* ===== verification/Rune_Dispatch.thy ===== *)
theory Rune_Dispatch
  imports Utf8_Codec Utf2_Codec Single_Byte_Codecs Double_Byte_Codecs Gb_Codecs Euc_Codec
begin

text \<open>
  The choice of the encoding for a character-type file (\<open>setrunelocale.c\<close>): the name of the
  encoding in the file selects the initialisation that installs its conversions. The reader of
  the file, \<open>_Read_RuneMagi\<close>, is not part of the repository; what it returns is an argument.
\<close>

section \<open>Rune locales\<close>

text \<open>The conversion state has a different type in each encoding.\<close>

datatype rune =
    RuneSingle "unit runelocale"
  | RuneUtf8 "utf8_state runelocale"
  | RuneUtf2 "utf2_state runelocale"
  | RuneLead "lead_state runelocale"
  | RuneGb "gb_state runelocale"
  | RuneEuc "euc_state runelocale"

text \<open>What a file says of its encoding: \<open>__encoding\<close> and \<open>__variable\<close>.\<close>

record magi =
  mg_encoding :: string
  mg_variable :: "byte list option"

definition rune_blank :: "'s runelocale" where
  "rune_blank = \<lparr>rl_mb_cur_max = 0, rl_mb_sb_limit = 0, rl_mbrtowc = None, rl_mbsinit = None,
     rl_mbsnrtowcs = None, rl_wcrtomb = None, rl_wcsnrtombs = None\<rparr>"

text \<open>
  The string conversions are the generic ones unless the initialisation installs others. They
  look the conversion of one character up in the locale when they are called, so that they are
  bound to the one that the initialisation has installed.
\<close>

definition std_strings :: "'s runelocale \<Rightarrow> 's runelocale" where
  "std_strings xrl =
     (let xrl = (case rl_mbsnrtowcs xrl of Some f \<Rightarrow> xrl
        | None \<Rightarrow> xrl\<lparr>rl_mbsnrtowcs := map_option mbsnrtowcs_std (rl_mbrtowc xrl)\<rparr>)
      in (case rl_wcsnrtombs xrl of Some f \<Rightarrow> xrl
        | None \<Rightarrow> xrl\<lparr>rl_wcsnrtombs := map_option (\<lambda>f. wcsnrtombs_std f (nat (rl_mb_cur_max xrl))) (rl_wcrtomb xrl)\<rparr>))"

definition rune_ret :: "('s runelocale \<Rightarrow> rune) \<Rightarrow> int \<times> 's runelocale \<Rightarrow> errno + rune" where
  "rune_ret R r = (if fst r = 0 then Inr (R (std_strings (snd r))) else Inl EFTYPE)"

text \<open>\<open>mem\<close> is whether \<open>_EUC_init\<close> finds memory for its configuration.\<close>

definition rune_init :: "bool \<Rightarrow> magi \<Rightarrow> errno + rune" where
  "rune_init mem rl =
     (if mg_encoding rl = ''NONE'' then rune_ret RuneSingle (none_init rune_blank)
      else if mg_encoding rl = ''ASCII'' then rune_ret RuneSingle (ascii_init rune_blank)
      else if mg_encoding rl = ''UTF-8'' then rune_ret RuneUtf8 (utf8_init rune_blank)
      else if mg_encoding rl = ''EUC'' then
        (case euc_init (mg_variable rl) mem rune_blank of
           (Some e, _) \<Rightarrow> Inl e
         | (None, xrl) \<Rightarrow> Inr (RuneEuc (std_strings xrl)))
      else if mg_encoding rl = ''GB18030'' then rune_ret RuneGb (gb18030_init rune_blank)
      else if mg_encoding rl = ''GB2312'' then rune_ret RuneGb (gb2312_init rune_blank)
      else if mg_encoding rl = ''GBK'' then rune_ret RuneLead (gbk_init rune_blank)
      else if mg_encoding rl = ''BIG5'' then rune_ret RuneLead (big5_init rune_blank)
      else if mg_encoding rl = ''MSKanji'' then rune_ret RuneLead (mskanji_init rune_blank)
      else if mg_encoding rl = ''UTF2'' then rune_ret RuneUtf2 (utf2_init rune_blank)
      else Inl EFTYPE)"

section \<open>What is installed\<close>

text \<open>Every conversion is there.\<close>

definition complete :: "'s runelocale \<Rightarrow> bool" where
  "complete xrl \<longleftrightarrow> rl_mbrtowc xrl \<noteq> None \<and> rl_mbsinit xrl \<noteq> None \<and> rl_mbsnrtowcs xrl \<noteq> None \<and>
     rl_wcrtomb xrl \<noteq> None \<and> rl_wcsnrtombs xrl \<noteq> None"

fun rune_complete :: "rune \<Rightarrow> bool" where
  "rune_complete (RuneSingle x) = complete x"
| "rune_complete (RuneUtf8 x) = complete x"
| "rune_complete (RuneUtf2 x) = complete x"
| "rune_complete (RuneLead x) = complete x"
| "rune_complete (RuneGb x) = complete x"
| "rune_complete (RuneEuc x) = complete x"

fun rune_cur_max :: "rune \<Rightarrow> int" where
  "rune_cur_max (RuneSingle x) = rl_mb_cur_max x"
| "rune_cur_max (RuneUtf8 x) = rl_mb_cur_max x"
| "rune_cur_max (RuneUtf2 x) = rl_mb_cur_max x"
| "rune_cur_max (RuneLead x) = rl_mb_cur_max x"
| "rune_cur_max (RuneGb x) = rl_mb_cur_max x"
| "rune_cur_max (RuneEuc x) = rl_mb_cur_max x"

lemma std_strings_complete:
  "rl_mbrtowc xrl \<noteq> None \<Longrightarrow> rl_wcrtomb xrl \<noteq> None \<Longrightarrow> rl_mbsinit xrl \<noteq> None \<Longrightarrow> complete (std_strings xrl)"
  by (auto simp: complete_def std_strings_def Let_def split: option.split)

lemma std_strings_cur_max [simp]: "rl_mb_cur_max (std_strings xrl) = rl_mb_cur_max xrl"
  by (auto simp: std_strings_def Let_def split: option.split)

lemmas single_inits = none_init_def ascii_init_def utf8_init_def utf2_init_def big5_init_def gbk_init_def
  mskanji_init_def gb2312_init_def gb18030_init_def

lemma rune_ret_complete:
  "rune_ret R r = Inr x \<Longrightarrow> rl_mbrtowc (snd r) \<noteq> None \<Longrightarrow> rl_wcrtomb (snd r) \<noteq> None \<Longrightarrow> rl_mbsinit (snd r) \<noteq> None \<Longrightarrow>
     x = R (std_strings (snd r)) \<and> complete (std_strings (snd r))"
  by (auto simp: rune_ret_def intro: std_strings_complete split: if_splits)

text \<open>A locale that is installed has all of its conversions, whatever the encoding.\<close>

lemma rune_init_complete:
  assumes "rune_init mem rl = Inr r"
  shows "rune_complete r"
proof (cases "mg_encoding rl = ''EUC''")
  case True
  then show ?thesis
    using assms
    by (auto simp: rune_init_def euc_init_def intro!: std_strings_complete split: sum.splits prod.splits option.splits)
next
  case False
  then show ?thesis
    using assms
    by (auto simp: rune_init_def single_inits split: if_splits dest!: rune_ret_complete)
qed

lemma rune_init_errors:
  "rune_init mem rl = Inl e \<Longrightarrow> mg_encoding rl \<noteq> ''EUC'' \<Longrightarrow> e = EFTYPE"
  by (auto simp: rune_init_def rune_ret_def split: if_splits)

lemma rune_init_known:
  "mg_encoding rl \<in> {''NONE'', ''ASCII'', ''UTF-8'', ''GB18030'', ''GB2312'', ''GBK'', ''BIG5'', ''MSKanji'', ''UTF2''}
     \<Longrightarrow> \<exists>r. rune_init mem rl = Inr r"
  by (auto simp: rune_init_def rune_ret_def single_inits)

end
