(* ===== verification/Locale_Parts.thy ===== *)
theory Locale_Parts
  imports Locale_Files Rune_Dispatch
begin

text \<open>
  The tables of a locale and who holds them (\<open>lnumeric.c\<close>, \<open>lmonetary.c\<close>, \<open>lmessages.c\<close>,
  \<open>timelocal.c\<close>, \<open>collate.c\<close>, \<open>setrunelocale.c\<close> and the macros of \<open>xlocale_private.h\<close>). Each
  category has its loader, which installs a table in a locale: the table of the C locale, the
  one that was loaded last, which is kept in a cache, or a new one from a file. Tables are
  counted, and freed with the last reference. Following a pointer to a table or a locale that
  is not allocated is the value \<open>None\<close>. One thread at a time holds the locks.
\<close>

section \<open>The state\<close>

datatype cat = COLLATE | CTYPE | MONETARY | NUMERIC | TIME | MESSAGES

text \<open>
  The tables of a category: the strings of a file, the conversions of an encoding, or the tables
  of a collation, of which only \<open>__collate_substitute_nontrivial\<close> is kept.
\<close>

datatype part_data = Fields "string option list" | Rune rune | Tables bool

text \<open>
  \<open>struct __xlocale_st_collate\<close> and the others: \<open>pt_cat\<close> is which of them it is, and \<open>pt_perm\<close>
  whether \<open>__free_extra\<close> is \<open>XPERMANENT\<close>.
\<close>

record part =
  pt_cat :: cat
  pt_rc :: int
  pt_perm :: bool
  pt_name :: string
  pt_data :: part_data

datatype fp_cvt = FP_UNINITIALIZED | FP_SAME_LOCALE | FP_USE_LOCALE

text \<open>
  \<open>struct _xlocale\<close>: \<open>xl_part\<close> has the pointers \<open>__lc_collate\<close> to \<open>__lc_time\<close>, and \<open>xl_using\<close> the
  flags \<open>_messages_using_locale\<close> and so on, with the negation of \<open>__collate_load_error\<close>; there
  is no such flag for character types.
\<close>

record xlocale =
  xl_rc :: int
  xl_perm :: bool
  xl_using :: "cat \<Rightarrow> bool"
  xl_part :: "cat \<Rightarrow> nat"
  xl_subst :: bool
  xl_mlocale_changed :: bool
  xl_nlocale_changed :: bool
  xl_fp :: fp_cvt
  xl_num_loc :: nat

text \<open>
  The tables and the locales that are allocated, by address, with \<open>0\<close> for \<open>NULL\<close>; the static
  variable \<open>cache\<close> of each loader; the locale of the thread; \<open>_PathLocale\<close>; and the table that
  \<open>_CurrentRuneLocale\<close> points into, from which \<open>__mb_cur_max\<close> and \<open>__mb_sb_limit\<close> are taken.
\<close>

record locs =
  lo_parts :: "nat \<Rightarrow> part option"
  lo_cache :: "cat \<Rightarrow> nat"
  lo_xl :: "nat \<Rightarrow> xlocale option"
  lo_thread :: nat
  lo_path :: "string option"
  lo_current :: nat

definition GLOBAL :: nat where "GLOBAL = 1"
definition C_LOCALE :: nat where "C_LOCALE = 2"
definition DEFAULT_RUNE :: nat where "DEFAULT_RUNE = 1"

text \<open>
  What the system does: files, environment variables, \<open>issetugid\<close>, memory for buffers, the
  addresses of new structures (\<open>0\<close> where there is no memory), and the two readers of binary
  files, of which \<open>_Read_RuneMagi\<close> is not in the repository.
\<close>

record lc_env =
  le_files :: "string \<Rightarrow> lc_file option"
  le_default :: string
  le_getenv :: "string \<Rightarrow> string option"
  le_setugid :: bool
  le_mem :: bool
  le_part :: "locs \<Rightarrow> nat"
  le_loc :: "locs \<Rightarrow> nat"
  le_magi :: "lc_file \<Rightarrow> magi option"
  le_collate :: "lc_file \<Rightarrow> bool option"

definition lc_system_of :: "lc_env \<Rightarrow> locs \<Rightarrow> lc_system option" where
  "lc_system_of E st =
     (case lo_path st of None \<Rightarrow> None
      | Some p \<Rightarrow> Some \<lparr>ls_files = le_files E, ls_PathLocale = p, ls_default = le_default E\<rparr>)"

section \<open>Counting references\<close>

text \<open>A variable that holds a pointer to a table: in a locale, or a cache.\<close>

datatype slot = SLoc nat cat | SCache cat

fun ptr_val :: "locs \<Rightarrow> slot \<Rightarrow> nat" where
  "ptr_val st (SLoc l c) = (case lo_xl st l of None \<Rightarrow> 0 | Some loc \<Rightarrow> xl_part loc c)"
| "ptr_val st (SCache c) = lo_cache st c"

definition upd_loc :: "nat \<Rightarrow> (xlocale \<Rightarrow> xlocale) \<Rightarrow> locs \<Rightarrow> locs" where
  "upd_loc l f st = st\<lparr>lo_xl := (lo_xl st)(l := map_option f (lo_xl st l))\<rparr>"

fun set_ptr :: "slot \<Rightarrow> nat \<Rightarrow> locs \<Rightarrow> locs" where
  "set_ptr (SLoc l c) p st = upd_loc l (\<lambda>loc. loc\<lparr>xl_part := (xl_part loc)(c := p)\<rparr>) st"
| "set_ptr (SCache c) p st = st\<lparr>lo_cache := (lo_cache st)(c := p)\<rparr>"

definition set_part :: "nat \<Rightarrow> part option \<Rightarrow> locs \<Rightarrow> locs" where
  "set_part p x st = st\<lparr>lo_parts := (lo_parts st)(p := x)\<rparr>"

text \<open>\<open>XL_RELEASE\<close> of a variable, which it sets to \<open>NULL\<close> if the table is freed, and \<open>XL_RETAIN\<close>.\<close>

definition xl_release :: "slot \<Rightarrow> locs \<Rightarrow> locs option" where
  "xl_release s st =
     (let p = ptr_val st s in
      if p = 0 then Some st
      else do { x \<leftarrow> lo_parts st p;
        if pt_perm x then Some st
        else if pt_rc x - 1 = 0 then Some (set_ptr s 0 (set_part p None st))
        else Some (set_part p (Some (x\<lparr>pt_rc := pt_rc x - 1\<rparr>)) st) })"

definition xl_retain :: "nat \<Rightarrow> locs \<Rightarrow> locs option" where
  "xl_retain p st =
     (if p = 0 then Some st
      else do { x \<leftarrow> lo_parts st p;
        if pt_perm x then Some st
        else Some (set_part p (Some (x\<lparr>pt_rc := pt_rc x + 1\<rparr>)) st) })"

section \<open>The loaders\<close>

datatype ldp = LDP_LOADED | LDP_CACHE | LDP_ERROR errno

definition is_c_name :: "string \<Rightarrow> bool" where
  "is_c_name name \<longleftrightarrow> name = ''C'' \<or> name = ''POSIX''"

definition set_using :: "nat \<Rightarrow> cat \<Rightarrow> bool \<Rightarrow> locs \<Rightarrow> locs" where
  "set_using l c b st = upd_loc l (\<lambda>loc. loc\<lparr>xl_using := (xl_using loc)(c := b)\<rparr>) st"

definition part_named :: "locs \<Rightarrow> nat \<Rightarrow> string \<Rightarrow> bool option" where
  "part_named st p name = do { x \<leftarrow> lo_parts st p; Some (pt_name x = name) }"

definition cache_named :: "locs \<Rightarrow> cat \<Rightarrow> string \<Rightarrow> bool option" where
  "cache_named st c name = (if lo_cache st c = 0 then Some False else part_named st (lo_cache st c) name)"

text \<open>The three ways in which a pointer of a locale changes.\<close>

definition use_none :: "nat \<Rightarrow> cat \<Rightarrow> nat \<Rightarrow> locs \<Rightarrow> locs option" where
  "use_none l c p st = do { st \<leftarrow> xl_release (SLoc l c) st; Some (set_ptr (SLoc l c) p st) }"

definition use_cache :: "nat \<Rightarrow> cat \<Rightarrow> locs \<Rightarrow> locs option" where
  "use_cache l c st =
     do { st \<leftarrow> xl_release (SLoc l c) st;
          let st = set_ptr (SLoc l c) (lo_cache st c) st;
          xl_retain (ptr_val st (SLoc l c)) st }"

definition use_new :: "nat \<Rightarrow> cat \<Rightarrow> nat \<Rightarrow> locs \<Rightarrow> locs option" where
  "use_new l c xp st =
     do { st \<leftarrow> xl_release (SLoc l c) st;
          let st = set_ptr (SLoc l c) xp st;
          st \<leftarrow> xl_release (SCache c) st;
          let st = set_ptr (SCache c) xp st;
          xl_retain (ptr_val st (SCache c)) st }"

text \<open>
  What the loaders of four categories share. Two of them return early when the name is the
  one in use, and set a flag for \<open>localeconv\<close>, which is \<open>changed\<close>.
\<close>

definition ldpart_load ::
  "cat \<Rightarrow> bool \<Rightarrow> (xlocale \<Rightarrow> xlocale) \<Rightarrow> string \<Rightarrow> nat \<Rightarrow> nat \<Rightarrow> (string option list \<Rightarrow> string option list) \<Rightarrow>
   lc_env \<Rightarrow> string \<Rightarrow> nat \<Rightarrow> locs \<Rightarrow> (ldp \<times> locs) option" where
  "ldpart_load c early changed filename size_max size_min fix E name l st =
     do { loc \<leftarrow> lo_xl st l;
       if is_c_name name then
         (if early \<and> \<not> xl_using loc c then Some (LDP_CACHE, st)
          else do { st \<leftarrow> use_none l c 0 (set_using l c False st); Some (LDP_CACHE, upd_loc l changed st) })
       else do {
         same \<leftarrow> (if early \<and> xl_using loc c then part_named st (xl_part loc c) name else Some False);
         if same then Some (LDP_CACHE, st)
         else do {
           hit \<leftarrow> cache_named st c name;
           if hit then do { st \<leftarrow> use_cache l c (set_using l c True st); Some (LDP_CACHE, upd_loc l changed st) }
           else let xp = le_part E st in
             if xp = 0 then Some (LDP_ERROR ENOMEM, st)
             else do { S \<leftarrow> lc_system_of E st;
               (case part_load_locale S (le_mem E) name filename size_max size_min of
                  Inl e \<Rightarrow> Some (LDP_ERROR e, st)
                | Inr xs \<Rightarrow>
                    do { st \<leftarrow> use_new l c xp (set_using l c True (set_part xp
                           (Some \<lparr>pt_cat = c, pt_rc = 1, pt_perm = False, pt_name = name, pt_data = Fields (fix xs)\<rparr>) st));
                         Some (LDP_LOADED, upd_loc l changed st) }) } } } }"

definition numeric_load_locale :: "lc_env \<Rightarrow> string \<Rightarrow> nat \<Rightarrow> locs \<Rightarrow> (ldp \<times> locs) option" where
  "numeric_load_locale = ldpart_load NUMERIC True (\<lambda>loc. loc\<lparr>xl_nlocale_changed := True\<rparr>)
     ''LC_NUMERIC'' LCNUMERIC_SIZE LCNUMERIC_SIZE numeric_fields"

definition monetary_load_locale :: "lc_env \<Rightarrow> string \<Rightarrow> nat \<Rightarrow> locs \<Rightarrow> (ldp \<times> locs) option" where
  "monetary_load_locale = ldpart_load MONETARY True (\<lambda>loc. loc\<lparr>xl_mlocale_changed := True\<rparr>)
     ''LC_MONETARY'' LCMONETARY_SIZE_FULL LCMONETARY_SIZE_MIN monetary_fields"

definition messages_load_locale :: "lc_env \<Rightarrow> string \<Rightarrow> nat \<Rightarrow> locs \<Rightarrow> (ldp \<times> locs) option" where
  "messages_load_locale = ldpart_load MESSAGES False (\<lambda>loc. loc)
     ''LC_MESSAGES/LC_MESSAGES'' LCMESSAGES_SIZE_FULL LCMESSAGES_SIZE_MIN messages_fields"

definition time_load_locale :: "lc_env \<Rightarrow> string \<Rightarrow> nat \<Rightarrow> locs \<Rightarrow> (ldp \<times> locs) option" where
  "time_load_locale = ldpart_load TIME False (\<lambda>loc. loc) ''LC_TIME'' LCTIME_SIZE LCTIME_SIZE (\<lambda>xs. xs)"

text \<open>The collation tables start with two references, one for the locale and one for the cache.\<close>

definition collate_load_tables :: "lc_env \<Rightarrow> string \<Rightarrow> nat \<Rightarrow> locs \<Rightarrow> (ldp \<times> locs) option" where
  "collate_load_tables E encoding l st =
     do { loc \<leftarrow> lo_xl st l;
       if is_c_name encoding then
         do { st \<leftarrow> use_none l COLLATE 0 (set_using l COLLATE False st); Some (LDP_CACHE, st) }
       else do {
         hit \<leftarrow> cache_named st COLLATE encoding;
         if hit then do { st \<leftarrow> use_cache l COLLATE (set_using l COLLATE True st); Some (LDP_CACHE, st) }
         else do { S \<leftarrow> lc_system_of E st;
           (case open_path_locale S (encoding @ ''/LC_COLLATE'') of None \<Rightarrow> Some (LDP_ERROR ErrnoUnset, st)
            | Some f \<Rightarrow>
                (case le_collate E f of None \<Rightarrow> Some (LDP_ERROR ErrnoUnset, st)
                 | Some nontrivial \<Rightarrow>
                     let TMP = le_part E st in
                     if TMP = 0 then Some (LDP_ERROR ErrnoUnset, st)
                     else do {
                       st \<leftarrow> xl_release (SCache COLLATE) (set_part TMP (Some \<lparr>pt_cat = COLLATE, pt_rc = 2,
                         pt_perm = False, pt_name = encoding, pt_data = Tables nontrivial\<rparr>) st);
                       let st = set_ptr (SCache COLLATE) TMP st;
                       st \<leftarrow> xl_release (SLoc l COLLATE) st;
                       let st = set_ptr (SLoc l COLLATE) (lo_cache st COLLATE) st;
                       Some (LDP_LOADED, set_using l COLLATE True
                         (upd_loc l (\<lambda>loc. loc\<lparr>xl_subst := nontrivial\<rparr>) st)) })) } } }"

text \<open>The global variables follow the table of the global locale.\<close>

definition set_current :: "nat \<Rightarrow> locs \<Rightarrow> locs" where
  "set_current l st = (if l = GLOBAL then st\<lparr>lo_current := ptr_val st (SLoc l CTYPE)\<rparr> else st)"

definition setrunelocale :: "lc_env \<Rightarrow> string \<Rightarrow> nat \<Rightarrow> locs \<Rightarrow> (errno option \<times> locs) option" where
  "setrunelocale E encoding l st =
     do { loc \<leftarrow> lo_xl st l;
       if is_c_name encoding then
         do { st \<leftarrow> use_none l CTYPE DEFAULT_RUNE st; Some (None, set_current l st) }
       else do {
         hit \<leftarrow> cache_named st CTYPE encoding;
         if hit then do { st \<leftarrow> use_cache l CTYPE st; Some (None, set_current l st) }
         else do { S \<leftarrow> lc_system_of E st;
           (case open_path_locale S (encoding @ ''/LC_CTYPE'') of None \<Rightarrow> Some (Some ErrnoUnset, st)
            | Some f \<Rightarrow>
                (case le_magi E f of None \<Rightarrow> Some (Some EFTYPE, st)
                 | Some rl \<Rightarrow>
                     let xrl = le_part E st in
                     if xrl = 0 then Some (Some ENOMEM, st)
                     else
                       (case rune_init (le_mem E) rl of Inl e \<Rightarrow> Some (Some e, st)
                        | Inr r \<Rightarrow>
                            do { st \<leftarrow> xl_release (SLoc l CTYPE) (set_part xrl (Some \<lparr>pt_cat = CTYPE, pt_rc = 1,
                                   pt_perm = False, pt_name = encoding, pt_data = Rune r\<rparr>) st);
                                 let st = set_current l (set_ptr (SLoc l CTYPE) xrl st);
                                 st \<leftarrow> xl_release (SCache CTYPE) st;
                                 let st = set_ptr (SCache CTYPE) xrl st;
                                 st \<leftarrow> xl_retain (ptr_val st (SCache CTYPE)) st;
                                 Some (None, st) }))) } } }"

definition wrap_setrunelocale :: "lc_env \<Rightarrow> string \<Rightarrow> nat \<Rightarrow> locs \<Rightarrow> (ldp \<times> locs) option" where
  "wrap_setrunelocale E name l st =
     do { (ret, st) \<leftarrow> setrunelocale E name l st;
       Some (case ret of Some e \<Rightarrow> (LDP_ERROR e, st) | None \<Rightarrow> (LDP_LOADED, st)) }"


section \<open>Exact reference counts\<close>

lemma UNIV_cat: "UNIV = {COLLATE, CTYPE, MONETARY, NUMERIC, TIME, MESSAGES}"
  using cat.exhaust by auto

instance cat :: finite
  by standard (simp add: UNIV_cat)

fun slot_cat :: "slot \<Rightarrow> cat" where
  "slot_cat (SLoc l c) = c"
| "slot_cat (SCache c) = c"

fun valid_slot :: "locs \<Rightarrow> slot \<Rightarrow> bool" where
  "valid_slot st (SLoc l c) = (lo_xl st l \<noteq> None)"
| "valid_slot st (SCache c) = True"

definition refs :: "locs \<Rightarrow> nat \<Rightarrow> slot set" where
  "refs st p = {s. ptr_val st s = p}"

text \<open>
  Every pointer is to a table of its category that is allocated, and the count of a table is the
  number of the pointers to it, up to \<open>D\<close>: between the steps of an operation, the number of
  references that are counted already, or still, without a variable that holds them. No table
  is allocated without a reference.
\<close>

definition counts :: "(nat \<Rightarrow> int) \<Rightarrow> locs \<Rightarrow> bool" where
  "counts D st \<longleftrightarrow> finite (dom (lo_xl st)) \<and> lo_parts st 0 = None \<and>
     (\<forall>s. ptr_val st s \<noteq> 0 \<longrightarrow> (\<exists>x. lo_parts st (ptr_val st s) = Some x \<and> pt_cat x = slot_cat s)) \<and>
     (\<forall>p x. lo_parts st p = Some x \<and> \<not> pt_perm x \<longrightarrow> pt_rc x = int (card (refs st p)) + D p \<and> 0 < pt_rc x)"

lemma countsI:
  assumes "finite (dom (lo_xl st))" "lo_parts st 0 = None"
    "\<And>s. ptr_val st s \<noteq> 0 \<Longrightarrow> \<exists>x. lo_parts st (ptr_val st s) = Some x \<and> pt_cat x = slot_cat s"
    "\<And>p x. lo_parts st p = Some x \<Longrightarrow> \<not> pt_perm x \<Longrightarrow> pt_rc x = int (card (refs st p)) + D p"
    "\<And>p x. lo_parts st p = Some x \<Longrightarrow> \<not> pt_perm x \<Longrightarrow> 0 < pt_rc x"
  shows "counts D st"
  using assms unfolding counts_def by blast

lemma countsD:
  assumes "counts D st"
  shows "finite (dom (lo_xl st))" "lo_parts st 0 = None"
    "ptr_val st s \<noteq> 0 \<Longrightarrow> \<exists>x. lo_parts st (ptr_val st s) = Some x \<and> pt_cat x = slot_cat s"
    "lo_parts st p = Some x \<Longrightarrow> \<not> pt_perm x \<Longrightarrow> pt_rc x = int (card (refs st p)) + D p"
    "lo_parts st p = Some x \<Longrightarrow> \<not> pt_perm x \<Longrightarrow> 0 < pt_rc x"
  using assms unfolding counts_def by blast+

lemma slot_val_set_slot:
  "ptr_val (set_ptr s q st) t = (if t = s \<and> valid_slot st s then q else ptr_val st t)"
  by (cases s; cases t) (auto simp: upd_loc_def split: option.splits)

lemma set_ptr_simps [simp]:
  "lo_parts (set_ptr s q st) = lo_parts st"
  "dom (lo_xl (set_ptr s q st)) = dom (lo_xl st)"
  "valid_slot (set_ptr s q st) t = valid_slot st t"
  "lo_thread (set_ptr s q st) = lo_thread st"
  "lo_path (set_ptr s q st) = lo_path st"
  "lo_current (set_ptr s q st) = lo_current st"
  "lo_xl (set_ptr (SCache c) q st) = lo_xl st"
  by (cases s; cases t; auto simp: upd_loc_def split: if_splits)+

lemma set_slot_cache [simp]:
  "lo_cache (set_ptr (SLoc l c) q st) = lo_cache st"
  "lo_cache (set_ptr (SCache c) q st) = (lo_cache st)(c := q)"
  by (simp_all add: upd_loc_def)

lemma set_slot_upd_loc: "set_ptr (SLoc l c) q st = upd_loc l (\<lambda>loc. loc\<lparr>xl_part := (xl_part loc)(c := q)\<rparr>) st"
  by simp

declare set_ptr.simps [simp del]

lemma set_part_simps [simp]:
  "ptr_val (set_part p x st) s = ptr_val st s"
  "lo_parts (set_part p x st) = (lo_parts st)(p := x)"
  "lo_xl (set_part p x st) = lo_xl st"
  "lo_cache (set_part p x st) = lo_cache st"
  "lo_thread (set_part p x st) = lo_thread st"
  "lo_path (set_part p x st) = lo_path st"
  "lo_current (set_part p x st) = lo_current st"
  "valid_slot (set_part p x st) s = valid_slot st s"
  by (cases s; simp add: set_part_def)+

lemma refs_set_part [simp]: "refs (set_part p x st) q = refs st q"
  by (simp add: refs_def)

lemma refs_set_slot:
  "valid_slot st s \<Longrightarrow> refs (set_ptr s q st) p = (if p = q then insert s (refs st p) else refs st p - {s})"
  by (auto simp: refs_def slot_val_set_slot split: if_splits)

lemma finite_refs:
  assumes "counts D st" "p \<noteq> 0"
  shows "finite (refs st p)"
proof -
  have "refs st p \<subseteq> (\<lambda>(l, c). SLoc l c) ` (dom (lo_xl st) \<times> UNIV) \<union> range SCache"
  proof
    fix s assume "s \<in> refs st p"
    with assms(2) show "s \<in> (\<lambda>(l, c). SLoc l c) ` (dom (lo_xl st) \<times> UNIV) \<union> range SCache"
      by (cases s) (auto simp: refs_def split: option.splits)
  qed
  with assms(1) show ?thesis
    by (auto simp: counts_def intro: finite_subset)
qed

lemma counts_cong:
  assumes "counts D st" "\<And>p x. lo_parts st p = Some x \<Longrightarrow> \<not> pt_perm x \<Longrightarrow> D p = D' p"
  shows "counts D' st"
proof (rule countsI)
  fix p x assume x: "lo_parts st p = Some x" "\<not> pt_perm x"
  then show "pt_rc x = int (card (refs st p)) + D' p"
    using countsD(4) [OF assms(1) x] assms(2) [OF x] by (simp only:)
  show "0 < pt_rc x"
    by (rule countsD(5) [OF assms(1) x])
qed (rule countsD [OF assms(1)]; assumption)+

text \<open>The state of the tables matters to the counts, and where the pointers are.\<close>

lemma counts_same:
  assumes "counts D st" "lo_parts st' = lo_parts st" "dom (lo_xl st') = dom (lo_xl st)"
    "\<And>s. ptr_val st' s = ptr_val st s"
  shows "counts D st'"
proof -
  have "refs st' p = refs st p" for p
    using assms(4) by (simp add: refs_def)
  then have "counts D st' = counts D st"
    unfolding counts_def assms(2-4) by simp
  with assms(1) show ?thesis by simp
qed

lemma card_refs_set_slot:
  assumes "counts D st" "valid_slot st s" "p \<noteq> 0"
  shows "int (card (refs (set_ptr s q st) p)) =
     int (card (refs st p)) + (if p = q then 1 else 0) - (if p = ptr_val st s then 1 else 0)"
proof -
  have fin: "finite (refs st p)"
    using finite_refs assms by blast
  have "s \<in> refs st p \<longleftrightarrow> p = ptr_val st s"
    by (auto simp: refs_def)
  then show ?thesis
    using fin assms(2) card_gt_0_iff [of "refs st p"]
    by (auto simp: refs_set_slot card_insert_if card_Diff_singleton_if of_nat_diff Suc_le_eq)
qed

lemma retain_counts:
  assumes "counts D st" "lo_parts st p = Some x" "p \<noteq> 0"
  shows "\<exists>st'. xl_retain p st = Some st' \<and> counts (D(p := D p + 1)) st' \<and>
     st' = set_part p (Some (if pt_perm x then x else x\<lparr>pt_rc := pt_rc x + 1\<rparr>)) st"
proof (cases "pt_perm x")
  case True
  then have "set_part p (Some x) st = st"
    using assms(2) by (simp add: set_part_def fun_upd_idem)
  moreover have "counts (D(p := D p + 1)) st"
    using counts_cong [OF assms(1)] assms(2) True by fastforce
  ultimately show ?thesis
    using True assms by (simp add: xl_retain_def)
next
  case False
  have "counts (D(p := D p + 1)) (set_part p (Some (x\<lparr>pt_rc := pt_rc x + 1\<rparr>)) st)"
  proof (rule countsI)
    fix s assume "ptr_val (set_part p (Some (x\<lparr>pt_rc := pt_rc x + 1\<rparr>)) st) s \<noteq> 0"
    then show "\<exists>y. lo_parts (set_part p (Some (x\<lparr>pt_rc := pt_rc x + 1\<rparr>)) st)
        (ptr_val (set_part p (Some (x\<lparr>pt_rc := pt_rc x + 1\<rparr>)) st) s) = Some y \<and> pt_cat y = slot_cat s"
      using countsD(3) [OF assms(1), of s] assms(2) by auto
  next
    fix q y
    assume "lo_parts (set_part p (Some (x\<lparr>pt_rc := pt_rc x + 1\<rparr>)) st) q = Some y" "\<not> pt_perm y"
    then show "pt_rc y = int (card (refs (set_part p (Some (x\<lparr>pt_rc := pt_rc x + 1\<rparr>)) st) q)) + (D(p := D p + 1)) q"
      "0 < pt_rc y"
      using countsD(4,5) [OF assms(1), of p x] countsD(4,5) [OF assms(1), of q y] assms(2) False
      by (auto split: if_splits)
  qed (use countsD(1,2) [OF assms(1)] assms(3) in simp_all)
  with False show ?thesis
    using assms by (simp add: xl_retain_def)
qed


text \<open>
  \<open>XL_RELEASE\<close> of a variable that is then overwritten: the old reference goes, and the new one
  is not counted yet. The table that the variable will point to must not be the one that is
  freed.
\<close>

definition same_part :: "part \<Rightarrow> part \<Rightarrow> bool" where
  "same_part x y \<longleftrightarrow> pt_cat y = pt_cat x \<and> pt_perm y = pt_perm x \<and> pt_name y = pt_name x \<and> pt_data y = pt_data x \<and>
     (pt_perm x \<longrightarrow> y = x)"

lemma same_part_refl [simp]: "same_part x x"
  by (simp add: same_part_def)

lemma same_part_trans: "same_part x y \<Longrightarrow> same_part y z \<Longrightarrow> same_part x z"
  by (auto simp: same_part_def)

text \<open>Tables that are still there are as they were but for their counts.\<close>

definition parts_kept :: "locs \<Rightarrow> locs \<Rightarrow> bool" where
  "parts_kept st st' \<longleftrightarrow> (\<forall>p y. lo_parts st' p = Some y \<longrightarrow> (\<exists>x. lo_parts st p = Some x \<and> same_part x y)) \<and>
     (\<forall>p x. lo_parts st p = Some x \<and> pt_perm x \<longrightarrow> lo_parts st' p = Some x)"

lemma set_slot_counts:
  assumes "counts D st" "valid_slot st s"
    and "q \<noteq> 0 \<Longrightarrow> \<exists>x. lo_parts st q = Some x \<and> pt_cat x = slot_cat s"
  shows "counts (\<lambda>p. D p + (if p = ptr_val st s then 1 else 0) - (if p = q then 1 else 0)) (set_ptr s q st)"
proof (rule countsI)
  fix t assume "ptr_val (set_ptr s q st) t \<noteq> 0"
  then show "\<exists>x. lo_parts (set_ptr s q st) (ptr_val (set_ptr s q st) t) = Some x \<and> pt_cat x = slot_cat t"
    using countsD(3) [OF assms(1), of t] assms(2,3) by (auto simp: slot_val_set_slot split: if_splits)
next
  fix p x assume x: "lo_parts (set_ptr s q st) p = Some x" "\<not> pt_perm x"
  then have "p \<noteq> 0"
    using countsD(2) [OF assms(1)] by (metis option.distinct(1) set_ptr_simps(1))
  with x show "pt_rc x = int (card (refs (set_ptr s q st) p)) +
      (D p + (if p = ptr_val st s then 1 else 0) - (if p = q then 1 else 0))"
    using countsD(4) [OF assms(1), of p x] card_refs_set_slot [OF assms(1,2), of p q] by simp
  show "0 < pt_rc x"
    using countsD(5) [OF assms(1), of p x] x by simp
qed (use countsD(1,2) [OF assms(1)] in simp_all)

lemma release_counts:
  assumes cnt: "counts D st" and s: "valid_slot st s" and p: "ptr_val st s = p" "p \<noteq> 0" and D: "D p = 0"
  obtains (freed) x where "lo_parts st p = Some x" "\<not> pt_perm x" "pt_rc x = 1" "refs st p = {s}"
      "xl_release s st = Some (set_ptr s 0 (set_part p None st))" "counts D (set_ptr s 0 (set_part p None st))"
    | (kept) x y where "lo_parts st p = Some x" "same_part x y"
      "xl_release s st = Some (set_part p (Some y) st)" "counts (D(p := - 1)) (set_part p (Some y) st)"
proof -
  obtain x where x: "lo_parts st p = Some x" "pt_cat x = slot_cat s"
    using countsD(3) [OF cnt, of s] p by auto
  have sp: "s \<in> refs st p"
    using p by (simp add: refs_def)
  show ?thesis
  proof (cases "pt_perm x")
    case True
    have eq: "set_part p (Some x) st = st"
      using x by (simp add: set_part_def fun_upd_idem)
    have "counts (D(p := - 1)) st"
      by (rule counts_cong [OF cnt]) (use x True in auto)
    with x True p show ?thesis
      by (intro kept [of x x]) (simp_all add: eq xl_release_def)
  next
    case np: False
    have rc: "pt_rc x = int (card (refs st p))"
      using countsD(4) [OF cnt x(1) np] D by simp
    show ?thesis
    proof (cases "pt_rc x = 1")
      case True
      then have "card (refs st p) = 1"
        using rc by simp
      then have refs: "refs st p = {s}"
        using sp by (auto simp: card_1_singleton_iff)
      have "counts D (set_ptr s 0 (set_part p None st))"
      proof (rule countsI)
        fix t assume t: "ptr_val (set_ptr s 0 (set_part p None st)) t \<noteq> 0"
        then have "t \<noteq> s" "ptr_val st t \<noteq> 0"
          using s by (auto simp: slot_val_set_slot split: if_splits)
        moreover have "ptr_val st t \<noteq> p"
          using refs \<open>t \<noteq> s\<close> by (auto simp: refs_def)
        ultimately show "\<exists>x. lo_parts (set_ptr s 0 (set_part p None st))
            (ptr_val (set_ptr s 0 (set_part p None st)) t) = Some x \<and> pt_cat x = slot_cat t"
          using countsD(3) [OF cnt, of t] by (simp add: slot_val_set_slot)
      next
        fix q y
        assume "lo_parts (set_ptr s 0 (set_part p None st)) q = Some y" "\<not> pt_perm y"
        then have y: "lo_parts st q = Some y" "\<not> pt_perm y" "q \<noteq> p"
          by (auto split: if_splits)
        then have "q \<noteq> 0"
          using countsD(2) [OF cnt] by (metis option.distinct(1))
        have "refs (set_ptr s 0 (set_part p None st)) q = refs st q"
          using s \<open>q \<noteq> 0\<close> y(3) p by (auto simp: refs_set_slot) (auto simp: refs_def)
        then show "pt_rc y = int (card (refs (set_ptr s 0 (set_part p None st)) q)) + D q" "0 < pt_rc y"
          using countsD(4,5) [OF cnt y(1,2)] by simp_all
      qed (use countsD(1,2) [OF cnt] in \<open>simp_all add: fun_upd_def\<close>)
      then show ?thesis
        using x p np True refs by (intro freed [of x]) (simp_all add: xl_release_def)
    next
      case False
      let ?y = "x\<lparr>pt_rc := pt_rc x - 1\<rparr>"
      have "counts (D(p := - 1)) (set_part p (Some ?y) st)"
      proof (rule countsI)
        fix t assume "ptr_val (set_part p (Some ?y) st) t \<noteq> 0"
        then show "\<exists>x. lo_parts (set_part p (Some ?y) st) (ptr_val (set_part p (Some ?y) st) t) = Some x \<and>
            pt_cat x = slot_cat t"
          using countsD(3) [OF cnt, of t] x by auto
      next
        fix q y assume "lo_parts (set_part p (Some ?y) st) q = Some y" "\<not> pt_perm y"
        then show "pt_rc y = int (card (refs (set_part p (Some ?y) st) q)) + (D(p := - 1)) q" "0 < pt_rc y"
          using countsD(4,5) [OF cnt, of q y] countsD(5) [OF cnt x(1) np] rc False by (auto split: if_splits)
      qed (use countsD(1,2) [OF cnt] p in simp_all)
      then show ?thesis
        using x p np False by (intro kept [of x ?y]) (simp_all add: xl_release_def same_part_def)
    qed
  qed
qed

lemma parts_kept_refl [simp]: "parts_kept st st"
  by (auto simp: parts_kept_def)

lemma parts_keptD:
  "parts_kept st st' \<Longrightarrow> lo_parts st p = Some x \<Longrightarrow> pt_perm x \<Longrightarrow> lo_parts st' p = Some x"
  "parts_kept st st' \<Longrightarrow> lo_parts st p = Some x \<Longrightarrow> lo_parts st' p = Some y \<Longrightarrow> same_part x y"
  unfolding parts_kept_def by (blast, metis option.inject)

lemma parts_kept_trans: "parts_kept st st' \<Longrightarrow> parts_kept st' st'' \<Longrightarrow> parts_kept st st''"
  unfolding parts_kept_def by (meson same_part_trans)

lemma parts_kept_cong [simp]:
  "parts_kept st (set_ptr s q st') = parts_kept st st'" "parts_kept (set_ptr s q st) st' = parts_kept st st'"
  by (simp_all add: parts_kept_def)

lemma parts_kept_set_part:
  "lo_parts st p = Some x \<Longrightarrow> same_part x y \<Longrightarrow> parts_kept st (set_part p (Some y) st)"
  "lo_parts st p = Some x \<Longrightarrow> \<not> pt_perm x \<Longrightarrow> parts_kept st (set_part p None st)"
  by (auto simp: parts_kept_def same_part_def)

lemma set_slot_set_slot: "set_ptr s q (set_ptr s p st) = set_ptr s q st"
  by (cases s) (auto simp: set_ptr.simps upd_loc_def option.map_comp o_def)

lemma set_slot_set_part: "set_ptr s q (set_part p x st) = set_part p x (set_ptr s q st)"
  by (cases s) (auto simp: set_ptr.simps upd_loc_def set_part_def)

lemma put_counts:
  assumes cnt: "counts D st" and s: "valid_slot st s" and D: "ptr_val st s \<noteq> 0 \<Longrightarrow> D (ptr_val st s) = 0"
    and q: "q \<noteq> 0 \<Longrightarrow> \<exists>x. lo_parts st q = Some x \<and> pt_cat x = slot_cat s \<and>
      (ptr_val st s = q \<longrightarrow> pt_perm x \<or> 1 < pt_rc x)"
  obtains st1 P where "xl_release s st = Some st1" "counts (D(q := D q - 1)) (set_ptr s q st1)"
    "parts_kept st st1" "set_ptr s q st1 = (set_ptr s q st)\<lparr>lo_parts := P\<rparr>"
    "q \<noteq> 0 \<Longrightarrow> lo_parts st1 q \<noteq> None"
proof (cases "ptr_val st s = 0")
  case True
  have cnt': "counts (D(q := D q - 1)) (set_ptr s q st)"
    by (rule counts_cong [OF set_slot_counts [OF cnt s]]) (use q True countsD(2) [OF cnt] in auto)
  show ?thesis
    by (rule that [of st "lo_parts st"]) (use True cnt' q in \<open>auto simp: xl_release_def\<close>)
next
  case False
  let ?p = "ptr_val st s"
  show ?thesis
  proof (cases rule: release_counts [OF cnt s refl False D [OF False]])
    case (1 x)
    let ?st = "set_ptr s 0 (set_part ?p None st)"
    have "q \<noteq> ?p"
      using 1 q False by auto
    then have qx: "q \<noteq> 0 \<Longrightarrow> \<exists>x. lo_parts ?st q = Some x \<and> pt_cat x = slot_cat s"
      using q by auto
    have v: "valid_slot ?st s" "ptr_val ?st s = 0"
      using s by (simp_all add: slot_val_set_slot)
    have "counts (D(q := D q - 1)) (set_ptr s q ?st)"
      by (rule counts_cong [OF set_slot_counts [OF 1(6) v(1) qx]]) (use v countsD(2) [OF 1(6)] in auto)
    moreover have "set_ptr s q ?st = (set_ptr s q st)\<lparr>lo_parts := lo_parts ?st\<rparr>"
      unfolding set_slot_set_slot set_slot_set_part by (simp add: set_part_def)
    moreover have "parts_kept st ?st"
      using parts_kept_set_part(2) [OF 1(1,2)] by simp
    moreover have "q \<noteq> 0 \<Longrightarrow> lo_parts ?st q \<noteq> None"
      using qx by blast
    ultimately show ?thesis
      using that 1(5) by blast
  next
    case (2 x y)
    let ?st = "set_part ?p (Some y) st"
    have qx: "q \<noteq> 0 \<Longrightarrow> \<exists>x. lo_parts ?st q = Some x \<and> pt_cat x = slot_cat s"
      using q 2 by (fastforce simp: same_part_def)
    have v: "valid_slot ?st s"
      using s by simp
    have "counts (D(q := D q - 1)) (set_ptr s q ?st)"
      by (rule counts_cong [OF set_slot_counts [OF 2(4) v qx]]) (use D [OF False] in auto)
    moreover have "set_ptr s q ?st = (set_ptr s q st)\<lparr>lo_parts := lo_parts ?st\<rparr>"
      unfolding set_slot_set_part by (simp add: set_part_def)
    moreover have "parts_kept st ?st"
      using parts_kept_set_part(1) [OF 2(1,2)] .
    moreover have "q \<noteq> 0 \<Longrightarrow> lo_parts ?st q \<noteq> None"
      using qx by blast
    ultimately show ?thesis
      using that 2(3) by blast
  qed
qed


section \<open>The loaders keep the counts\<close>

abbreviation balanced :: "locs \<Rightarrow> bool" where
  "balanced \<equiv> counts (\<lambda>_. 0)"

lemma use_none_balanced:
  assumes "balanced st" "lo_xl st l \<noteq> None"
    and "q \<noteq> 0 \<Longrightarrow> \<exists>x. lo_parts st q = Some x \<and> pt_cat x = c \<and> pt_perm x"
  obtains st' P where "use_none l c q st = Some st'" "balanced st'" "parts_kept st st'"
    "st' = (set_ptr (SLoc l c) q st)\<lparr>lo_parts := P\<rparr>"
proof -
  obtain st1 P where *: "xl_release (SLoc l c) st = Some st1"
    "counts ((\<lambda>_. 0)(q := 0 - 1)) (set_ptr (SLoc l c) q st1)" "parts_kept st st1"
    "set_ptr (SLoc l c) q st1 = (set_ptr (SLoc l c) q st)\<lparr>lo_parts := P\<rparr>" "q \<noteq> 0 \<Longrightarrow> lo_parts st1 q \<noteq> None"
    by (rule put_counts [of "\<lambda>_. 0" st "SLoc l c" q]) (use assms in auto)
  have "balanced (set_ptr (SLoc l c) q st1)"
  proof (rule counts_cong [OF *(2)])
    fix p x assume x: "lo_parts (set_ptr (SLoc l c) q st1) p = Some x" "\<not> pt_perm x"
    have "p \<noteq> q"
    proof
      assume "p = q"
      moreover from this have "q \<noteq> 0"
        using x(1) countsD(2) [OF *(2)] by (metis option.distinct(1))
      ultimately show False
        using assms(3) *(3) x by (auto simp: parts_kept_def)
    qed
    then show "((\<lambda>_. 0)(q := 0 - 1)) p = (0 :: int)" by simp
  qed
  moreover have "use_none l c q st = Some (set_ptr (SLoc l c) q st1)"
    using *(1) by (simp add: use_none_def)
  moreover have "parts_kept st (set_ptr (SLoc l c) q st1)"
    using *(3) by simp
  ultimately show ?thesis
    using *(4) that by blast
qed

lemma slot_val_parts_upd [simp]:
  "ptr_val (st\<lparr>lo_parts := P\<rparr>) s = ptr_val st s" "valid_slot (st\<lparr>lo_parts := P\<rparr>) s = valid_slot st s"
  "refs (st\<lparr>lo_parts := P\<rparr>) p = refs st p"
proof -
  show *: "ptr_val (st\<lparr>lo_parts := P\<rparr>) s = ptr_val st s" for s
    by (cases s) simp_all
  then show "refs (st\<lparr>lo_parts := P\<rparr>) p = refs st p"
    by (simp add: refs_def)
  show "valid_slot (st\<lparr>lo_parts := P\<rparr>) s = valid_slot st s"
    by (cases s) simp_all
qed

lemma set_slot_parts_upd:
  "set_ptr s q (st\<lparr>lo_parts := P\<rparr>) = (set_ptr s q st)\<lparr>lo_parts := P\<rparr>"
  by (cases s) (simp_all add: set_ptr.simps upd_loc_def)

lemma use_cache_balanced:
  assumes "balanced st" "lo_xl st l \<noteq> None" "lo_cache st c \<noteq> 0"
  obtains st' P where "use_cache l c st = Some st'" "balanced st'" "parts_kept st st'"
    "st' = (set_ptr (SLoc l c) (lo_cache st c) st)\<lparr>lo_parts := P\<rparr>"
proof -
  let ?q = "lo_cache st c"
  obtain x where x: "lo_parts st ?q = Some x" "pt_cat x = c"
    using countsD(3) [OF assms(1), of "SCache c"] assms(3) by auto
  have shared: "pt_perm x \<or> 1 < pt_rc x" if "ptr_val st (SLoc l c) = ?q"
  proof (cases "pt_perm x")
    case False
    have "{SLoc l c, SCache c} \<subseteq> refs st ?q"
      using that by (simp add: refs_def)
    then have "card {SLoc l c, SCache c} \<le> card (refs st ?q)"
      by (intro card_mono finite_refs [OF assms(1,3)])
    then show ?thesis
      using countsD(4) [OF assms(1) x(1) False] by simp
  qed simp
  obtain st1 P where *: "xl_release (SLoc l c) st = Some st1"
    "counts ((\<lambda>_. 0)(?q := 0 - 1)) (set_ptr (SLoc l c) ?q st1)" "parts_kept st st1"
    "set_ptr (SLoc l c) ?q st1 = (set_ptr (SLoc l c) ?q st)\<lparr>lo_parts := P\<rparr>" "?q \<noteq> 0 \<Longrightarrow> lo_parts st1 ?q \<noteq> None"
    by (rule put_counts [of "\<lambda>_. 0" st "SLoc l c" ?q]) (use assms x shared in auto)
  let ?st = "set_ptr (SLoc l c) ?q st1"
  obtain y where y: "lo_parts ?st ?q = Some y"
    using *(5) assms(3) by auto
  obtain st' where st': "xl_retain ?q ?st = Some st'" "counts (((\<lambda>_. 0)(?q := 0 - 1))(?q := ((\<lambda>_. 0)(?q := 0 - 1)) ?q + 1)) st'"
    "st' = set_part ?q (Some (if pt_perm y then y else y\<lparr>pt_rc := pt_rc y + 1\<rparr>)) ?st"
    using retain_counts [OF *(2) y assms(3)] by blast
  have "balanced st'"
    by (rule counts_cong [OF st'(2)]) simp
  moreover have "parts_kept ?st st'"
    unfolding st'(3) by (rule parts_kept_set_part(1) [OF y]) (simp add: same_part_def)
  then have "parts_kept st st'"
    using parts_kept_trans [OF *(3)] by simp
  moreover have "lo_cache st1 c = ?q" "ptr_val ?st (SLoc l c) = ?q"
  proof -
    have "lo_cache ?st c = lo_cache ((set_ptr (SLoc l c) ?q st)\<lparr>lo_parts := P\<rparr>) c"
      by (simp only: *(4))
    then show "lo_cache st1 c = ?q"
      by simp
    have "ptr_val ?st (SLoc l c) = ptr_val ((set_ptr (SLoc l c) ?q st)\<lparr>lo_parts := P\<rparr>) (SLoc l c)"
      by (simp only: *(4))
    then show "ptr_val ?st (SLoc l c) = ?q"
      using assms(2) by (simp only: slot_val_parts_upd slot_val_set_slot) simp
  qed
  then have "use_cache l c st = Some st'"
    using *(1) st'(1) by (simp only: use_cache_def Let_def bind.bind_lunit)
  moreover have "st' = (set_ptr (SLoc l c) ?q st)\<lparr>lo_parts := lo_parts st'\<rparr>"
    using st'(3) *(4) by (simp add: set_part_def)
  ultimately show ?thesis
    using that by blast
qed

lemma use_new_balanced:
  assumes "counts ((\<lambda>_. 0)(xp := 1)) st" "lo_xl st l \<noteq> None" "lo_parts st xp = Some x" "pt_cat x = c"
    "\<not> pt_perm x" "refs st xp = {}"
  obtains st' P where "use_new l c xp st = Some st'" "balanced st'" "parts_kept st st'"
    "st' = (set_ptr (SCache c) xp (set_ptr (SLoc l c) xp st))\<lparr>lo_parts := P\<rparr>" "P xp \<noteq> None"
proof -
  have xp: "xp \<noteq> 0"
    using countsD(2) [OF assms(1)] assms(3) by (metis option.distinct(1))
  have no: "ptr_val st s \<noteq> xp" for s
    using assms(6) by (auto simp: refs_def)
  obtain st1 P where *: "xl_release (SLoc l c) st = Some st1"
    "counts (((\<lambda>_. 0)(xp := 1))(xp := ((\<lambda>_. 0)(xp := 1)) xp - 1)) (set_ptr (SLoc l c) xp st1)" "parts_kept st st1"
    "set_ptr (SLoc l c) xp st1 = (set_ptr (SLoc l c) xp st)\<lparr>lo_parts := P\<rparr>" "xp \<noteq> 0 \<Longrightarrow> lo_parts st1 xp \<noteq> None"
    by (rule put_counts [of "(\<lambda>_. 0)(xp := 1)" st "SLoc l c" xp]) (use assms no [of "SLoc l c"] in auto)
  let ?sta = "set_ptr (SLoc l c) xp st1"
  have cnt1: "balanced ?sta"
    by (rule counts_cong [OF *(2)]) simp
  obtain y where y: "lo_parts st1 xp = Some y"
    using *(5) xp by auto
  have y': "lo_parts ?sta xp = Some y" "pt_cat y = c"
    using y *(3) assms(3,4) by (fastforce simp: parts_kept_def same_part_def)+
  have "ptr_val ?sta (SCache c) = ptr_val ((set_ptr (SLoc l c) xp st)\<lparr>lo_parts := P\<rparr>) (SCache c)"
    by (simp only: *(4))
  then have cache: "ptr_val ?sta (SCache c) = ptr_val st (SCache c)"
    by (simp only: slot_val_parts_upd slot_val_set_slot slot.distinct simp_thms if_False)
  obtain st2 Q where **: "xl_release (SCache c) ?sta = Some st2"
    "counts ((\<lambda>_. 0)(xp := 0 - 1)) (set_ptr (SCache c) xp st2)" "parts_kept ?sta st2"
    "set_ptr (SCache c) xp st2 = (set_ptr (SCache c) xp ?sta)\<lparr>lo_parts := Q\<rparr>" "xp \<noteq> 0 \<Longrightarrow> lo_parts st2 xp \<noteq> None"
    by (rule put_counts [of "\<lambda>_. 0" ?sta "SCache c" xp]) (use cnt1 cache no [of "SCache c"] y' in auto)
  let ?stb = "set_ptr (SCache c) xp st2"
  obtain z where z: "lo_parts ?stb xp = Some z"
    using **(5) xp by auto
  obtain st' where st': "xl_retain xp ?stb = Some st'" "counts (((\<lambda>_. 0)(xp := 0 - 1))(xp := ((\<lambda>_. 0)(xp := 0 - 1)) xp + 1)) st'"
    "st' = set_part xp (Some (if pt_perm z then z else z\<lparr>pt_rc := pt_rc z + 1\<rparr>)) ?stb"
    using retain_counts [OF **(2) z xp] by blast
  have "balanced st'"
    by (rule counts_cong [OF st'(2)]) simp
  moreover have "parts_kept ?stb st'"
    unfolding st'(3) by (rule parts_kept_set_part(1) [OF z]) (simp add: same_part_def)
  then have "parts_kept st st'"
    using parts_kept_trans [OF *(3)] parts_kept_trans [of st1 st2 st'] **(3) by simp
  moreover have "ptr_val ?stb (SCache c) = xp"
    by (simp add: slot_val_set_slot)
  then have "use_new l c xp st = Some st'"
    using *(1) **(1) st'(1) by (simp only: use_new_def Let_def bind.bind_lunit)
  moreover have "st' = (set_ptr (SCache c) xp (set_ptr (SLoc l c) xp st))\<lparr>lo_parts := lo_parts st'\<rparr>"
    using st'(3) *(4) **(4) by (simp add: set_part_def)
  moreover have "lo_parts st' xp \<noteq> None"
    using st'(3) by simp
  ultimately show ?thesis
    using that by blast
qed


section \<open>What a loader does\<close>

text \<open>The name of the locale whose table a locale has in a category.\<close>

definition locale_encoding :: "locs \<Rightarrow> nat \<Rightarrow> cat \<Rightarrow> string option" where
  "locale_encoding st l c =
     do { loc \<leftarrow> lo_xl st l;
          if c \<noteq> CTYPE \<and> \<not> xl_using loc c then Some ''C''
          else do { x \<leftarrow> lo_parts st (xl_part loc c); Some (pt_name x) } }"

text \<open>\<open>_DefaultRuneXLocale\<close> (\<open>table.c\<close>).\<close>

definition default_rune :: part where
  "default_rune = \<lparr>pt_cat = CTYPE, pt_rc = 0, pt_perm = True, pt_name = ''C'',
     pt_data = Rune (RuneSingle (snd (none_init rune_blank)))\<rparr>"

text \<open>
  The counts are exact, a flag is set where there is a table, and the global variables belong to
  the table of the global locale.
\<close>

definition parts_ok :: "locs \<Rightarrow> bool" where
  "parts_ok st \<longleftrightarrow> balanced st \<and> lo_parts st DEFAULT_RUNE = Some default_rune \<and>
     (\<forall>l loc c. lo_xl st l = Some loc \<longrightarrow>
        (if c = CTYPE then xl_part loc c \<noteq> 0 else xl_using loc c \<longleftrightarrow> xl_part loc c \<noteq> 0)) \<and>
     lo_current st = ptr_val st (SLoc GLOBAL CTYPE)"

text \<open>New memory is memory that is not in use.\<close>

definition lc_env_ok :: "lc_env \<Rightarrow> bool" where
  "lc_env_ok E \<longleftrightarrow> (\<forall>st. le_part E st = 0 \<or> lo_parts st (le_part E st) = None) \<and>
     (\<forall>st. le_loc E st = 0 \<or> lo_xl st (le_loc E st) = None)"

lemma env_okD:
  assumes "lc_env_ok E"
  shows "le_part E st = 0 \<or> lo_parts st (le_part E st) = None" "le_loc E st = 0 \<or> lo_xl st (le_loc E st) = None"
  using assms unfolding lc_env_ok_def by (iprover+)

text \<open>A loader changes one category of one locale.\<close>

definition load_frame :: "nat \<Rightarrow> cat \<Rightarrow> locs \<Rightarrow> locs \<Rightarrow> bool" where
  "load_frame l c st st' \<longleftrightarrow> lo_thread st' = lo_thread st \<and> lo_path st' = lo_path st \<and>
     (\<exists>loc loc'. lo_xl st l = Some loc \<and> lo_xl st' = (lo_xl st)(l \<mapsto> loc') \<and>
        xl_rc loc' = xl_rc loc \<and> xl_perm loc' = xl_perm loc \<and> xl_fp loc' = xl_fp loc \<and>
        xl_num_loc loc' = xl_num_loc loc \<and>
        (\<forall>c'. c' \<noteq> c \<longrightarrow> xl_using loc' c' = xl_using loc c' \<and> xl_part loc' c' = xl_part loc c')) \<and>
     (\<forall>p x y. lo_parts st p = Some x \<and> lo_parts st' p = Some y \<longrightarrow> same_part x y)"

lemma load_frame_refl:
  assumes "lo_xl st l \<noteq> None"
  shows "load_frame l c st st"
proof -
  obtain loc where "lo_xl st l = Some loc"
    using assms by blast
  then show ?thesis
    by (auto simp: load_frame_def intro!: exI [of _ loc])
qed

definition load_spec :: "lc_env \<Rightarrow> nat \<Rightarrow> cat \<Rightarrow> string \<Rightarrow> locs \<Rightarrow> ldp \<times> locs \<Rightarrow> bool" where
  "load_spec E l c name st res \<longleftrightarrow>
     (case res of (r, st') \<Rightarrow> parts_ok st' \<and> load_frame l c st st' \<and>
        (case r of LDP_ERROR e \<Rightarrow> st' = st \<and> \<not> is_c_name name
         | _ \<Rightarrow> locale_encoding st' l c = Some (if is_c_name name then ''C'' else name)))"

lemma parts_okD:
  assumes "parts_ok st"
  shows "balanced st" "lo_parts st DEFAULT_RUNE = Some default_rune"
    "lo_xl st l = Some loc \<Longrightarrow> c \<noteq> CTYPE \<Longrightarrow> xl_using loc c \<longleftrightarrow> xl_part loc c \<noteq> 0"
    "lo_xl st l = Some loc \<Longrightarrow> xl_part loc CTYPE \<noteq> 0"
    "lo_current st = ptr_val st (SLoc GLOBAL CTYPE)"
  using assms unfolding parts_ok_def by (blast, blast, metis, metis, blast)

text \<open>The outcome of a loader, from the pointer that it has set.\<close>

lemma load_outcome:
  assumes ok: "parts_ok st" and loc: "lo_xl st l = Some loc"
    and bal: "balanced st'" and xl: "lo_xl st' = (lo_xl st)(l \<mapsto> loc')"
    and same: "xl_rc loc' = xl_rc loc" "xl_perm loc' = xl_perm loc" "xl_fp loc' = xl_fp loc" "xl_num_loc loc' = xl_num_loc loc"
    and part: "xl_part loc' = (xl_part loc)(c := q)" and flags: "\<And>c'. c' \<noteq> c \<Longrightarrow> xl_using loc' c' = xl_using loc c'"
    and flag: "if c = CTYPE then q \<noteq> 0 else xl_using loc' c \<longleftrightarrow> q \<noteq> 0"
    and rest: "lo_thread st' = lo_thread st" "lo_path st' = lo_path st"
      "lo_current st' = (if l = GLOBAL \<and> c = CTYPE then q else lo_current st)"
    and parts: "\<And>p x y. lo_parts st p = Some x \<Longrightarrow> lo_parts st' p = Some y \<Longrightarrow> same_part x y"
      "\<And>p x. lo_parts st p = Some x \<Longrightarrow> pt_perm x \<Longrightarrow> lo_parts st' p = Some x"
    and name: "q = 0 \<Longrightarrow> is_c_name name" "q \<noteq> 0 \<Longrightarrow> \<exists>y. lo_parts st' q = Some y \<and> pt_name y = (if is_c_name name then ''C'' else name)"
  shows "load_spec E l c name st (LDP_LOADED, st') \<and> load_spec E l c name st (LDP_CACHE, st')"
proof -
  have frame: "load_frame l c st st'"
    using loc xl same part flags rest parts(1) by (auto simp: load_frame_def)
  have "lo_current st' = ptr_val st' (SLoc GLOBAL CTYPE)"
    using parts_okD(5) [OF ok] rest(3) xl part loc by (auto split: option.splits)
  moreover have "if c' = CTYPE then xl_part k c' \<noteq> 0 else xl_using k c' \<longleftrightarrow> xl_part k c' \<noteq> 0"
    if k: "lo_xl st' m = Some k" for m k c'
  proof (cases "m = l")
    case True
    then have "k = loc'"
      using xl k by simp
    then show ?thesis
      using flag part flags [of c'] parts_okD(3) [OF ok loc, of c'] parts_okD(4) [OF ok loc]
      by (cases "c' = c"; cases "c' = CTYPE") simp_all
  next
    case False
    then have "lo_xl st m = Some k"
      using xl k by simp
    then show ?thesis
      using parts_okD(3,4) [OF ok] by metis
  qed
  moreover have "lo_parts st' DEFAULT_RUNE = Some default_rune"
    using parts(2) parts_okD(2) [OF ok] by (simp add: default_rune_def)
  ultimately have ok': "parts_ok st'"
    using bal unfolding parts_ok_def by blast
  have "locale_encoding st' l c = Some (if is_c_name name then ''C'' else name)"
    using xl part flag name by (cases "q = 0"; cases "c = CTYPE") (auto simp: locale_encoding_def)
  with frame ok' show ?thesis
    by (simp add: load_spec_def)
qed

lemma load_error:
  "parts_ok st \<Longrightarrow> lo_xl st l \<noteq> None \<Longrightarrow> \<not> is_c_name name \<Longrightarrow> load_spec E l c name st (LDP_ERROR e, st)"
  by (simp add: load_spec_def load_frame_refl)


lemma dom_map_option_upd [simp]: "dom (m(l := map_option f (m l))) = dom m"
  by (cases "m l") (auto simp: dom_def)

lemma upd_loc_simps [simp]:
  "lo_parts (upd_loc l f st) = lo_parts st" "lo_cache (upd_loc l f st) = lo_cache st"
  "lo_thread (upd_loc l f st) = lo_thread st" "lo_path (upd_loc l f st) = lo_path st"
  "lo_current (upd_loc l f st) = lo_current st" "dom (lo_xl (upd_loc l f st)) = dom (lo_xl st)"
  "lo_xl (upd_loc l f st) = (lo_xl st)(l := map_option f (lo_xl st l))"
  by (simp_all add: upd_loc_def del: dom_fun_upd)

lemma set_using_simps [simp]:
  "lo_parts (set_using l c b st) = lo_parts st" "lo_cache (set_using l c b st) = lo_cache st"
  "lo_thread (set_using l c b st) = lo_thread st" "lo_path (set_using l c b st) = lo_path st"
  "lo_current (set_using l c b st) = lo_current st" "dom (lo_xl (set_using l c b st)) = dom (lo_xl st)"
  by (simp_all only: set_using_def upd_loc_simps dom_map_option_upd)

lemma lo_xl_set_using: "lo_xl (set_using l c b st) =
    (lo_xl st)(l := map_option (\<lambda>loc. loc\<lparr>xl_using := (xl_using loc)(c := b)\<rparr>) (lo_xl st l))"
  by (simp add: set_using_def)

lemma lo_xl_set_slot: "lo_xl (set_ptr (SLoc l c) q st) =
    (lo_xl st)(l := map_option (\<lambda>loc. loc\<lparr>xl_part := (xl_part loc)(c := q)\<rparr>) (lo_xl st l))"
  by (simp add: set_slot_upd_loc)

lemma slot_val_upd_loc:
  "(\<And>loc. xl_part (f loc) = xl_part loc) \<Longrightarrow> ptr_val (upd_loc l f st) s = ptr_val st s"
  by (cases s) (auto split: option.splits)

lemma slot_val_set_using [simp]: "ptr_val (set_using l c b st) s = ptr_val st s"
  by (simp add: set_using_def slot_val_upd_loc)

lemma balanced_upd_loc:
  assumes "counts D st" "\<And>loc. xl_part (f loc) = xl_part loc"
  shows "counts D (upd_loc l f st)"
  by (rule counts_same [OF assms(1)]) (simp_all add: slot_val_upd_loc assms(2) del: upd_loc_simps(7))

lemma balanced_set_using: "counts D st \<Longrightarrow> counts D (set_using l c b st)"
  by (simp add: set_using_def balanced_upd_loc)

lemma new_part_counts:
  assumes "balanced st" "lo_parts st xp = None" "xp \<noteq> 0" "pt_rc x = k" "0 < k"
  shows "counts ((\<lambda>_. 0)(xp := k)) (set_part xp (Some x) st)" "refs (set_part xp (Some x) st) xp = {}"
proof -
  have "ptr_val st s \<noteq> xp" for s
    using countsD(3) [OF assms(1), of s] assms(2,3) by auto
  then have refs': "refs st xp = {}"
    by (simp add: refs_def)
  then show "refs (set_part xp (Some x) st) xp = {}"
    by simp
  show "counts ((\<lambda>_. 0)(xp := k)) (set_part xp (Some x) st)"
  proof (rule countsI)
    fix s assume s: "ptr_val (set_part xp (Some x) st) s \<noteq> 0"
    moreover have "ptr_val st s \<noteq> xp"
      using refs' by (auto simp: refs_def)
    ultimately show "\<exists>y. lo_parts (set_part xp (Some x) st) (ptr_val (set_part xp (Some x) st) s) = Some y \<and>
        pt_cat y = slot_cat s"
      using countsD(3) [OF assms(1), of s] by simp
  next
    fix p y assume y: "lo_parts (set_part xp (Some x) st) p = Some y" "\<not> pt_perm y"
    show "pt_rc y = int (card (refs (set_part xp (Some x) st) p)) + ((\<lambda>_. 0)(xp := k)) p" "0 < pt_rc y"
      using y refs' assms(4,5) countsD(4,5) [OF assms(1), of p y] by (auto split: if_splits)
  qed (use countsD(1,2) [OF assms(1)] assms(3) in simp_all)
qed

text \<open>What a loader may do to a locale beside the pointer and the flag of its category.\<close>

definition harmless :: "(xlocale \<Rightarrow> xlocale) \<Rightarrow> bool" where
  "harmless f \<longleftrightarrow> (\<forall>loc. xl_rc (f loc) = xl_rc loc \<and> xl_perm (f loc) = xl_perm loc \<and> xl_fp (f loc) = xl_fp loc \<and>
     xl_num_loc (f loc) = xl_num_loc loc \<and> xl_using (f loc) = xl_using loc \<and> xl_part (f loc) = xl_part loc)"

lemma cache_named_balanced:
  assumes "balanced st"
  shows "\<exists>b. cache_named st c name = Some b \<and>
     (b \<longrightarrow> lo_cache st c \<noteq> 0 \<and> (\<exists>x. lo_parts st (lo_cache st c) = Some x \<and> pt_name x = name))"
  using countsD(3) [OF assms, of "SCache c"] by (auto simp: cache_named_def part_named_def)


lemma ldpart_load_spec:
  assumes ok: "parts_ok st" and E: "lc_env_ok E" and l: "lo_xl st l \<noteq> None" and path: "lo_path st \<noteq> None"
    and c: "c \<noteq> CTYPE" and ch: "harmless changed"
  shows "\<exists>res. ldpart_load c early changed filename size_max size_min fix E name l st = Some res \<and>
     load_spec E l c name st res"
proof -
  obtain loc where loc: "lo_xl st l = Some loc"
    using l by blast
  have bal: "balanced st"
    using parts_okD(1) [OF ok] .
  have bu: "balanced (set_using l c b st)" for b
    using bal by (rule balanced_set_using)
  have lu: "lo_xl (set_using l c b st) l \<noteq> None" for b
    using loc by (simp add: lo_xl_set_using)
  have chd: "xl_part (changed k) = xl_part k" for k
    using ch by (simp add: harmless_def)
  consider (c_same) "is_c_name name" "early" "\<not> xl_using loc c"
    | (c_new) "is_c_name name" "\<not> (early \<and> \<not> xl_using loc c)"
    | (name) "\<not> is_c_name name"
    by blast
  then show ?thesis
  proof cases
    case c_same
    have "load_spec E l c name st (LDP_CACHE, st)"
      using c_same loc c load_frame_refl [of st l c] l by (simp add: load_spec_def ok locale_encoding_def)
    then show ?thesis
      using c_same loc by (simp add: ldpart_load_def)
  next
    case c_new
    obtain st' P where st': "use_none l c 0 (set_using l c False st) = Some st'" "balanced st'"
      "parts_kept (set_using l c False st) st'" "st' = (set_ptr (SLoc l c) 0 (set_using l c False st))\<lparr>lo_parts := P\<rparr>"
      by (rule use_none_balanced [OF bu lu]) auto
    let ?st = "upd_loc l changed st'"
    have "load_spec E l c name st (LDP_LOADED, ?st) \<and> load_spec E l c name st (LDP_CACHE, ?st)"
    proof (rule load_outcome [OF ok loc, where q = 0 and
          loc' = "changed (loc\<lparr>xl_using := (xl_using loc)(c := False), xl_part := (xl_part loc)(c := 0)\<rparr>)"])
      show "balanced ?st"
        using st'(2) chd by (rule balanced_upd_loc)
      show "lo_xl ?st = (lo_xl st)(l \<mapsto> changed (loc\<lparr>xl_using := (xl_using loc)(c := False), xl_part := (xl_part loc)(c := 0)\<rparr>))"
        using loc unfolding st'(4) by (simp add: lo_xl_set_slot lo_xl_set_using)
      show "\<And>p x y. lo_parts st p = Some x \<Longrightarrow> lo_parts ?st p = Some y \<Longrightarrow> same_part x y"
        "\<And>p x. lo_parts st p = Some x \<Longrightarrow> pt_perm x \<Longrightarrow> lo_parts ?st p = Some x"
        using st'(3) unfolding parts_kept_def by fastforce+
    qed (use ch c c_new st'(4) in \<open>auto simp: harmless_def\<close>)
    then show ?thesis
      using c_new loc st'(1) by (auto simp: ldpart_load_def)
  next
    case name
    define same where "same = (early \<and> xl_using loc c \<and> (\<exists>x. lo_parts st (xl_part loc c) = Some x \<and> pt_name x = name))"
    have part: "xl_using loc c \<Longrightarrow> \<exists>x. lo_parts st (xl_part loc c) = Some x"
      using parts_okD(3) [OF ok loc c] countsD(3) [OF bal, of "SLoc l c"] loc by auto
    then have same_eq: "(if early \<and> xl_using loc c then part_named st (xl_part loc c) name else Some False) = Some same"
      by (auto simp: same_def part_named_def)
    show ?thesis
    proof (cases same)
      case True
      then have "load_spec E l c name st (LDP_CACHE, st)"
        using name loc c load_frame_refl [of st l c] l
        by (auto simp: same_def load_spec_def ok locale_encoding_def)
      then show ?thesis
        using name loc True same_eq by (simp add: ldpart_load_def)
    next
      case False
      obtain hit where hit: "cache_named st c name = Some hit" "hit \<Longrightarrow> lo_cache st c \<noteq> 0"
        "hit \<Longrightarrow> \<exists>x. lo_parts st (lo_cache st c) = Some x \<and> pt_name x = name"
        using cache_named_balanced [OF bal, of c name] by blast
      have start: "ldpart_load c early changed filename size_max size_min fix E name l st =
          (if hit then do { st \<leftarrow> use_cache l c (set_using l c True st); Some (LDP_CACHE, upd_loc l changed st) }
           else let xp = le_part E st in
             if xp = 0 then Some (LDP_ERROR ENOMEM, st)
             else do { S \<leftarrow> lc_system_of E st;
               (case part_load_locale S (le_mem E) name filename size_max size_min of
                  Inl e \<Rightarrow> Some (LDP_ERROR e, st)
                | Inr xs \<Rightarrow>
                    do { st \<leftarrow> use_new l c xp (set_using l c True (set_part xp
                           (Some \<lparr>pt_cat = c, pt_rc = 1, pt_perm = False, pt_name = name, pt_data = Fields (fix xs)\<rparr>) st));
                         Some (LDP_LOADED, upd_loc l changed st) }) })"
        using name loc same_eq hit(1) False by (simp add: ldpart_load_def)
      show ?thesis
      proof (cases hit)
        case True
        let ?q = "lo_cache st c"
        obtain st' P where st': "use_cache l c (set_using l c True st) = Some st'" "balanced st'"
          "parts_kept (set_using l c True st) st'"
          "st' = (set_ptr (SLoc l c) (lo_cache (set_using l c True st) c) (set_using l c True st))\<lparr>lo_parts := P\<rparr>"
          by (rule use_cache_balanced [OF bu lu]) (use hit(2) [OF True] in auto)
        let ?st = "upd_loc l changed st'"
        let ?loc = "changed (loc\<lparr>xl_using := (xl_using loc)(c := True), xl_part := (xl_part loc)(c := ?q)\<rparr>)"
        have xl: "lo_xl ?st = (lo_xl st)(l \<mapsto> ?loc)"
          using loc unfolding st'(4) by (simp add: lo_xl_set_slot lo_xl_set_using)
        have bal': "balanced ?st"
          using st'(2) chd by (rule balanced_upd_loc)
        have "ptr_val ?st (SLoc l c) = ?q"
          unfolding ptr_val.simps xl by (simp add: chd)
        then obtain y where y: "lo_parts st' ?q = Some y"
          using countsD(3) [OF bal', of "SLoc l c"] hit(2) [OF True] by (auto simp del: ptr_val.simps)
        moreover have "pt_name y = name"
          using y hit(3) [OF True] st'(3) by (fastforce simp: parts_kept_def same_part_def)
        moreover have "load_spec E l c name st (LDP_LOADED, ?st) \<and> load_spec E l c name st (LDP_CACHE, ?st)"
        proof (rule load_outcome [OF ok loc bal' xl, where q = ?q])
          show "\<And>p x y. lo_parts st p = Some x \<Longrightarrow> lo_parts ?st p = Some y \<Longrightarrow> same_part x y"
            "\<And>p x. lo_parts st p = Some x \<Longrightarrow> pt_perm x \<Longrightarrow> lo_parts ?st p = Some x"
            using st'(3) unfolding parts_kept_def by fastforce+
        qed (use ch c name hit(2) [OF True] st'(4) calculation in \<open>auto simp: harmless_def\<close>)
        ultimately show ?thesis
          using start True st'(1) by auto
      next
        case miss: False
        let ?xp = "le_part E st"
        obtain S where S: "lc_system_of E st = Some S"
          using path by (auto simp: lc_system_of_def)
        show ?thesis
        proof (cases "?xp = 0 \<or> (\<exists>e. part_load_locale S (le_mem E) name filename size_max size_min = Inl e)")
          case True
          then show ?thesis
            using start miss S load_error [OF ok l name] by (auto simp: Let_def)
        next
          case False
          then obtain xs where xs: "part_load_locale S (le_mem E) name filename size_max size_min = Inr xs"
            and xp: "?xp \<noteq> 0"
            by (metis sum.exhaust)
          have fresh: "lo_parts st ?xp = None"
            using env_okD(1) [OF E, of st] xp by simp
          define x where "x = \<lparr>pt_cat = c, pt_rc = 1, pt_perm = False, pt_name = name, pt_data = Fields (fix xs)\<rparr>"
          let ?new = "set_using l c True (set_part ?xp (Some x) st)"
          have cnt: "counts ((\<lambda>_. 0)(?xp := 1)) ?new"
            by (rule balanced_set_using, rule new_part_counts(1) [OF bal fresh xp]) (simp_all add: x_def)
          have "refs (set_part ?xp (Some x) st) ?xp = {}"
            by (rule new_part_counts(2) [OF bal fresh xp, where k = 1]) (simp_all add: x_def)
          then have refs: "refs ?new ?xp = {}"
            by (simp add: refs_def)
          obtain st' P where st': "use_new l c ?xp ?new = Some st'" "balanced st'" "parts_kept ?new st'"
            "st' = (set_ptr (SCache c) ?xp (set_ptr (SLoc l c) ?xp ?new))\<lparr>lo_parts := P\<rparr>" "P ?xp \<noteq> None"
            by (rule use_new_balanced [OF cnt, of l x c]) (use refs loc in \<open>auto simp: lo_xl_set_using x_def\<close>)
          let ?st = "upd_loc l changed st'"
          let ?loc = "changed (loc\<lparr>xl_using := (xl_using loc)(c := True), xl_part := (xl_part loc)(c := ?xp)\<rparr>)"
          have xl: "lo_xl ?st = (lo_xl st)(l \<mapsto> ?loc)"
            using loc unfolding st'(4) by (simp add: lo_xl_set_slot lo_xl_set_using)
          have bal': "balanced ?st"
            using st'(2) chd by (rule balanced_upd_loc)
          obtain y where y: "lo_parts st' ?xp = Some y"
            using st'(4,5) by auto
          moreover have "pt_name y = name"
            using y st'(3) by (fastforce simp: parts_kept_def same_part_def x_def)
          moreover have "load_spec E l c name st (LDP_LOADED, ?st) \<and> load_spec E l c name st (LDP_CACHE, ?st)"
          proof (rule load_outcome [OF ok loc bal' xl, where q = ?xp])
            show "same_part u v" if "lo_parts st p = Some u" "lo_parts ?st p = Some v" for p u v
            proof -
              have "lo_parts ?new p = Some u"
                using that(1) fresh by auto
              from parts_keptD(2) [OF st'(3) this] that(2) show ?thesis
                by simp
            qed
            show "lo_parts ?st p = Some u" if "lo_parts st p = Some u" "pt_perm u" for p u
            proof -
              have "lo_parts ?new p = Some u"
                using that(1) fresh by auto
              from parts_keptD(1) [OF st'(3) this that(2)] show ?thesis
                by simp
            qed
          qed (use ch c name xp st'(4) calculation in \<open>auto simp: harmless_def\<close>)
          ultimately show ?thesis
            using start miss xp S xs st'(1) by (simp add: x_def)
        qed
      qed
    qed
  qed
qed


lemma loaders_spec:
  assumes "parts_ok st" "lc_env_ok E" "lo_xl st l \<noteq> None" "lo_path st \<noteq> None"
  shows "\<exists>res. numeric_load_locale E name l st = Some res \<and> load_spec E l NUMERIC name st res"
    "\<exists>res. monetary_load_locale E name l st = Some res \<and> load_spec E l MONETARY name st res"
    "\<exists>res. messages_load_locale E name l st = Some res \<and> load_spec E l MESSAGES name st res"
    "\<exists>res. time_load_locale E name l st = Some res \<and> load_spec E l TIME name st res"
  unfolding numeric_load_locale_def monetary_load_locale_def messages_load_locale_def time_load_locale_def
  by (rule ldpart_load_spec [OF assms]; simp add: harmless_def)+

text \<open>The order of the two releases, and who counts the references, make no difference.\<close>

lemma collate_new_balanced:
  assumes "counts ((\<lambda>_. 0)(xp := 2)) st" "lo_xl st l \<noteq> None" "lo_parts st xp = Some x" "pt_cat x = c"
    "\<not> pt_perm x" "refs st xp = {}"
  obtains st1 st2 P where "xl_release (SCache c) st = Some st1"
    "xl_release (SLoc l c) (set_ptr (SCache c) xp st1) = Some st2"
    "balanced (set_ptr (SLoc l c) xp st2)" "parts_kept st (set_ptr (SLoc l c) xp st2)"
    "set_ptr (SLoc l c) xp st2 = (set_ptr (SLoc l c) xp (set_ptr (SCache c) xp st))\<lparr>lo_parts := P\<rparr>"
    "P xp \<noteq> None" "lo_cache st2 c = xp"
proof -
  have xp: "xp \<noteq> 0"
    using countsD(2) [OF assms(1)] assms(3) by (metis option.distinct(1))
  have no: "ptr_val st s \<noteq> xp" for s
    using assms(6) by (auto simp: refs_def)
  obtain st1 P where *: "xl_release (SCache c) st = Some st1"
    "counts (((\<lambda>_. 0)(xp := 2))(xp := ((\<lambda>_. 0)(xp := 2)) xp - 1)) (set_ptr (SCache c) xp st1)" "parts_kept st st1"
    "set_ptr (SCache c) xp st1 = (set_ptr (SCache c) xp st)\<lparr>lo_parts := P\<rparr>" "xp \<noteq> 0 \<Longrightarrow> lo_parts st1 xp \<noteq> None"
    by (rule put_counts [of "(\<lambda>_. 0)(xp := 2)" st "SCache c" xp]) (use assms no [of "SCache c"] in auto)
  let ?s = "set_ptr (SCache c) xp st1"
  have cnt1: "counts ((\<lambda>_. 0)(xp := 1)) ?s"
    by (rule counts_cong [OF *(2)]) simp
  obtain y where y: "lo_parts st1 xp = Some y"
    using *(5) xp by auto
  have y': "lo_parts ?s xp = Some y" "pt_cat y = c"
    using y parts_keptD(2) [OF *(3) assms(3) y] assms(4) by (simp_all add: same_part_def)
  have "ptr_val ?s (SLoc l c) = ptr_val ((set_ptr (SCache c) xp st)\<lparr>lo_parts := P\<rparr>) (SLoc l c)"
    by (simp only: *(4))
  then have old: "ptr_val ?s (SLoc l c) = ptr_val st (SLoc l c)"
    by (simp only: slot_val_parts_upd slot_val_set_slot slot.distinct simp_thms if_False)
  have l: "valid_slot ?s (SLoc l c)"
    using assms(2) by (simp add: *(4))
  obtain st2 Q where **: "xl_release (SLoc l c) ?s = Some st2"
    "counts (((\<lambda>_. 0)(xp := 1))(xp := ((\<lambda>_. 0)(xp := 1)) xp - 1)) (set_ptr (SLoc l c) xp st2)" "parts_kept ?s st2"
    "set_ptr (SLoc l c) xp st2 = (set_ptr (SLoc l c) xp ?s)\<lparr>lo_parts := Q\<rparr>" "xp \<noteq> 0 \<Longrightarrow> lo_parts st2 xp \<noteq> None"
    by (rule put_counts [OF cnt1 l, of xp]) (use old no [of "SLoc l c"] y' in \<open>auto simp del: ptr_val.simps\<close>)
  have "balanced (set_ptr (SLoc l c) xp st2)"
    by (rule counts_cong [OF **(2)]) simp
  moreover have "parts_kept st (set_ptr (SLoc l c) xp st2)"
    using parts_kept_trans [OF *(3), of st2] **(3) by simp
  moreover have "set_ptr (SLoc l c) xp st2 =
      (set_ptr (SLoc l c) xp (set_ptr (SCache c) xp st))\<lparr>lo_parts := Q\<rparr>"
    using **(4) *(4) by (simp add: set_slot_parts_upd)
  moreover have "Q xp \<noteq> None"
  proof -
    have "lo_parts (set_ptr (SLoc l c) xp st2) xp = Q xp"
      unfolding **(4) by simp
    then show ?thesis
      using **(5) xp by simp
  qed
  moreover have "lo_cache st2 c = xp"
  proof -
    have "lo_cache (set_ptr (SLoc l c) xp st2) c = xp"
      unfolding **(4) by simp
    then show ?thesis by simp
  qed
  ultimately show ?thesis
    using that *(1) **(1) by blast
qed

lemma collate_load_tables_spec:
  assumes ok: "parts_ok st" and E: "lc_env_ok E" and l: "lo_xl st l \<noteq> None" and path: "lo_path st \<noteq> None"
  shows "\<exists>res. collate_load_tables E name l st = Some res \<and> load_spec E l COLLATE name st res"
proof -
  let ?c = COLLATE
  obtain loc where loc: "lo_xl st l = Some loc"
    using l by blast
  have bal: "balanced st"
    using parts_okD(1) [OF ok] .
  have bu: "balanced (set_using l ?c b st)" for b
    using bal by (rule balanced_set_using)
  have lu: "lo_xl (set_using l ?c b st) l \<noteq> None" for b
    using loc by (simp add: lo_xl_set_using)
  show ?thesis
  proof (cases "is_c_name name")
    case True
    obtain st' P where st': "use_none l ?c 0 (set_using l ?c False st) = Some st'" "balanced st'"
      "parts_kept (set_using l ?c False st) st'" "st' = (set_ptr (SLoc l ?c) 0 (set_using l ?c False st))\<lparr>lo_parts := P\<rparr>"
      by (rule use_none_balanced [OF bu lu]) auto
    have "load_spec E l ?c name st (LDP_LOADED, st') \<and> load_spec E l ?c name st (LDP_CACHE, st')"
    proof (rule load_outcome [OF ok loc st'(2), where q = 0 and
          loc' = "loc\<lparr>xl_using := (xl_using loc)(?c := False), xl_part := (xl_part loc)(?c := 0)\<rparr>"])
      show "lo_xl st' = (lo_xl st)(l \<mapsto> loc\<lparr>xl_using := (xl_using loc)(?c := False), xl_part := (xl_part loc)(?c := 0)\<rparr>)"
        using loc unfolding st'(4) by (simp add: lo_xl_set_slot lo_xl_set_using)
      show "\<And>p x y. lo_parts st p = Some x \<Longrightarrow> lo_parts st' p = Some y \<Longrightarrow> same_part x y"
        "\<And>p x. lo_parts st p = Some x \<Longrightarrow> pt_perm x \<Longrightarrow> lo_parts st' p = Some x"
        using parts_keptD [OF st'(3)] by simp_all
    qed (use True st'(4) in auto)
    then show ?thesis
      using True loc st'(1) by (simp add: collate_load_tables_def)
  next
    case name: False
    obtain hit where hit: "cache_named st ?c name = Some hit" "hit \<Longrightarrow> lo_cache st ?c \<noteq> 0"
      "hit \<Longrightarrow> \<exists>x. lo_parts st (lo_cache st ?c) = Some x \<and> pt_name x = name"
      using cache_named_balanced [OF bal, of ?c name] by blast
    show ?thesis
    proof (cases hit)
      case True
      let ?q = "lo_cache st ?c"
      obtain st' P where st': "use_cache l ?c (set_using l ?c True st) = Some st'" "balanced st'"
        "parts_kept (set_using l ?c True st) st'"
        "st' = (set_ptr (SLoc l ?c) (lo_cache (set_using l ?c True st) ?c) (set_using l ?c True st))\<lparr>lo_parts := P\<rparr>"
        by (rule use_cache_balanced [OF bu lu]) (use hit(2) [OF True] in auto)
      let ?loc = "loc\<lparr>xl_using := (xl_using loc)(?c := True), xl_part := (xl_part loc)(?c := ?q)\<rparr>"
      have xl: "lo_xl st' = (lo_xl st)(l \<mapsto> ?loc)"
        using loc unfolding st'(4) by (simp add: lo_xl_set_slot lo_xl_set_using)
      have "ptr_val st' (SLoc l ?c) = ?q"
        unfolding ptr_val.simps xl by simp
      then obtain y where y: "lo_parts st' ?q = Some y"
        using countsD(3) [OF st'(2), of "SLoc l ?c"] hit(2) [OF True] by (auto simp del: ptr_val.simps)
      moreover obtain x where x: "lo_parts st ?q = Some x" "pt_name x = name"
        using hit(3) [OF True] by blast
      then have "pt_name y = name"
        using parts_keptD(2) [OF st'(3), of ?q x y] y by (simp add: same_part_def)
      moreover have "load_spec E l ?c name st (LDP_LOADED, st') \<and> load_spec E l ?c name st (LDP_CACHE, st')"
      proof (rule load_outcome [OF ok loc st'(2) xl, where q = ?q])
        show "\<And>p x y. lo_parts st p = Some x \<Longrightarrow> lo_parts st' p = Some y \<Longrightarrow> same_part x y"
          "\<And>p x. lo_parts st p = Some x \<Longrightarrow> pt_perm x \<Longrightarrow> lo_parts st' p = Some x"
          using parts_keptD [OF st'(3)] by simp_all
      qed (use name hit(2) [OF True] st'(4) calculation in auto)
      ultimately show ?thesis
        using name loc hit(1) True st'(1) by (simp add: collate_load_tables_def)
    next
      case miss: False
      let ?xp = "le_part E st"
      obtain S where S: "lc_system_of E st = Some S"
        using path by (auto simp: lc_system_of_def)
      show ?thesis
      proof (cases "?xp \<noteq> 0 \<and> (\<exists>f b. open_path_locale S (name @ ''/LC_COLLATE'') = Some f \<and> le_collate E f = Some b)")
        case False
        then have "\<exists>e. collate_load_tables E name l st = Some (LDP_ERROR e, st)"
          using name loc hit(1) miss S by (auto simp: collate_load_tables_def Let_def split: option.splits)
        then show ?thesis
          using load_error [OF ok l name] by blast
      next
        case True
        then obtain f b where f: "open_path_locale S (name @ ''/LC_COLLATE'') = Some f" "le_collate E f = Some b"
          and xp: "?xp \<noteq> 0"
          by blast
        have fresh: "lo_parts st ?xp = None"
          using env_okD(1) [OF E, of st] xp by simp
        define x where "x = \<lparr>pt_cat = ?c, pt_rc = 2, pt_perm = False, pt_name = name, pt_data = Tables b\<rparr>"
        let ?new = "set_part ?xp (Some x) st"
        have cnt: "counts ((\<lambda>_. 0)(?xp := 2)) ?new"
          by (rule new_part_counts(1) [OF bal fresh xp]) (simp_all add: x_def)
        have refs: "refs ?new ?xp = {}"
          by (rule new_part_counts(2) [OF bal fresh xp, where k = 2]) (simp_all add: x_def)
        obtain st1 st2 P where st': "xl_release (SCache ?c) ?new = Some st1"
          "xl_release (SLoc l ?c) (set_ptr (SCache ?c) ?xp st1) = Some st2"
          "balanced (set_ptr (SLoc l ?c) ?xp st2)" "parts_kept ?new (set_ptr (SLoc l ?c) ?xp st2)"
          "set_ptr (SLoc l ?c) ?xp st2 = (set_ptr (SLoc l ?c) ?xp (set_ptr (SCache ?c) ?xp ?new))\<lparr>lo_parts := P\<rparr>"
          "P ?xp \<noteq> None" "lo_cache st2 ?c = ?xp"
          by (rule collate_new_balanced [OF cnt, of l x ?c]) (use refs loc in \<open>auto simp: x_def\<close>)
        let ?s = "set_using l ?c True (upd_loc l (\<lambda>loc. loc\<lparr>xl_subst := b\<rparr>) (set_ptr (SLoc l ?c) ?xp st2))"
        let ?loc = "loc\<lparr>xl_part := (xl_part loc)(?c := ?xp), xl_subst := b, xl_using := (xl_using loc)(?c := True)\<rparr>"
        have xl: "lo_xl ?s = (lo_xl st)(l \<mapsto> ?loc)"
          using loc unfolding st'(5) by (simp add: lo_xl_set_slot lo_xl_set_using)
        have bal': "balanced ?s"
          by (intro balanced_set_using balanced_upd_loc st'(3)) simp
        have parts: "lo_parts ?s = P" "lo_thread ?s = lo_thread st" "lo_path ?s = lo_path st" "lo_current ?s = lo_current st"
          unfolding st'(5) by simp_all
        obtain y where y: "lo_parts ?s ?xp = Some y"
          using st'(6) parts by auto
        moreover have "lo_parts (set_ptr (SLoc l ?c) ?xp st2) ?xp = Some y"
          using y by simp
        then have "pt_name y = name"
          using parts_keptD(2) [OF st'(4), of ?xp x y] by (simp add: same_part_def x_def)
        moreover have "load_spec E l ?c name st (LDP_LOADED, ?s) \<and> load_spec E l ?c name st (LDP_CACHE, ?s)"
        proof (rule load_outcome [OF ok loc bal' xl, where q = ?xp])
          show "same_part u v" if "lo_parts st p = Some u" "lo_parts ?s p = Some v" for p u v
          proof -
            have "p \<noteq> ?xp"
              using that(1) fresh by auto
            with that parts_keptD(2) [OF st'(4), of p u v] show ?thesis by simp
          qed
          show "lo_parts ?s p = Some u" if "lo_parts st p = Some u" "pt_perm u" for p u
          proof -
            have "p \<noteq> ?xp"
              using that(1) fresh by auto
            with that parts_keptD(1) [OF st'(4), of p u] show ?thesis by simp
          qed
        qed (use name xp parts calculation in auto)
        moreover have "collate_load_tables E name l st = Some (LDP_LOADED, ?s)"
          using name loc hit(1) miss S f xp st'(1,2,7) by (simp add: collate_load_tables_def x_def)
        ultimately show ?thesis by blast
      qed
    qed
  qed
qed


lemma slot_val_current [simp]: "ptr_val (st\<lparr>lo_current := k\<rparr>) s = ptr_val st s"
  by (cases s) simp_all

lemma set_slot_current: "set_ptr s q (st\<lparr>lo_current := k\<rparr>) = (set_ptr s q st)\<lparr>lo_current := k\<rparr>"
  by (cases s) (simp_all add: set_ptr.simps upd_loc_def)

lemma set_part_current: "set_part p x (st\<lparr>lo_current := k\<rparr>) = (set_part p x st)\<lparr>lo_current := k\<rparr>"
  by (simp add: set_part_def)

lemma xl_release_current:
  "xl_release s (st\<lparr>lo_current := k\<rparr>) = map_option (\<lambda>st. st\<lparr>lo_current := k\<rparr>) (xl_release s st)"
  by (cases "lo_parts st (ptr_val st s)") (simp_all add: xl_release_def Let_def set_slot_current set_part_current)

lemma xl_retain_current:
  "xl_retain p (st\<lparr>lo_current := k\<rparr>) = map_option (\<lambda>st. st\<lparr>lo_current := k\<rparr>) (xl_retain p st)"
  by (cases "lo_parts st p") (simp_all add: xl_retain_def set_part_current)

lemma xl_release_cases:
  assumes "xl_release s st = Some st'"
  shows "st' = st \<or> st' = set_ptr s 0 (set_part (ptr_val st s) None st) \<or>
    (\<exists>y. st' = set_part (ptr_val st s) (Some y) st)"
  using assms by (fastforce simp: xl_release_def Let_def bind_eq_Some_conv split: if_splits)

lemma xl_release_keeps:
  assumes "xl_release s st = Some st'"
  shows "dom (lo_xl st') = dom (lo_xl st) \<and> lo_current st' = lo_current st \<and> lo_thread st' = lo_thread st \<and>
    lo_path st' = lo_path st"
  using xl_release_cases [OF assms] by (elim disjE exE) simp_all

lemma balanced_current: "counts D st \<Longrightarrow> counts D (st\<lparr>lo_current := k\<rparr>)"
  by (rule counts_same) simp_all

lemma set_current_new:
  assumes "use_new l CTYPE xrl st = Some st'" "lo_xl st l \<noteq> None"
  shows "do { s1 \<leftarrow> xl_release (SLoc l CTYPE) st;
           s2 \<leftarrow> xl_release (SCache CTYPE) (set_current l (set_ptr (SLoc l CTYPE) xrl s1));
           xl_retain (ptr_val (set_ptr (SCache CTYPE) xrl s2) (SCache CTYPE)) (set_ptr (SCache CTYPE) xrl s2) } =
     Some (st'\<lparr>lo_current := (if l = GLOBAL then xrl else lo_current st)\<rparr>)"
proof -
  let ?k = "if l = GLOBAL then xrl else lo_current st"
  obtain s1 s2 where s: "xl_release (SLoc l CTYPE) st = Some s1"
    "xl_release (SCache CTYPE) (set_ptr (SLoc l CTYPE) xrl s1) = Some s2"
    "xl_retain xrl (set_ptr (SCache CTYPE) xrl s2) = Some st'"
    using assms(1) by (auto simp: use_new_def bind_eq_Some_conv)
  have "lo_xl s1 l \<noteq> None"
    using xl_release_keeps [OF s(1)] assms(2) by (metis domIff)
  then have "set_current l (set_ptr (SLoc l CTYPE) xrl s1) = (set_ptr (SLoc l CTYPE) xrl s1)\<lparr>lo_current := ?k\<rparr>"
    using xl_release_keeps [OF s(1)] by (auto simp: set_current_def slot_val_set_slot simp del: ptr_val.simps)
  then show ?thesis
    using s by (simp add: xl_release_current xl_retain_current set_slot_current)
qed

lemma setrunelocale_spec:
  assumes ok: "parts_ok st" and E: "lc_env_ok E" and l: "lo_xl st l \<noteq> None" and path: "lo_path st \<noteq> None"
  shows "\<exists>r st'. setrunelocale E name l st = Some (r, st') \<and>
     load_spec E l CTYPE name st (case r of Some e \<Rightarrow> LDP_ERROR e | None \<Rightarrow> LDP_LOADED, st')"
proof -
  let ?c = CTYPE
  obtain loc where loc: "lo_xl st l = Some loc"
    using l by blast
  have bal: "balanced st"
    using parts_okD(1) [OF ok] .
  have key: "load_spec E l ?c name st (LDP_LOADED, set_current l st')"
    if st': "balanced st'" "parts_kept st st'" "st' = (set_ptr (SLoc l ?c) q st)\<lparr>lo_parts := P\<rparr>"
      and q: "q \<noteq> 0" "\<And>x. lo_parts st q = Some x \<Longrightarrow> pt_name x = (if is_c_name name then ''C'' else name)" for st' P q
  proof -
    let ?s = "set_current l st'"
    let ?loc = "loc\<lparr>xl_part := (xl_part loc)(?c := q)\<rparr>"
    have sv: "ptr_val st' (SLoc l ?c) = q"
      unfolding st'(3) slot_val_parts_upd slot_val_set_slot using loc by simp
    have xl: "lo_xl ?s = (lo_xl st)(l \<mapsto> ?loc)"
      using loc unfolding st'(3) by (cases "l = GLOBAL") (simp_all add: lo_xl_set_slot set_current_def)
    have bal': "balanced ?s"
      using st'(1) by (simp add: set_current_def balanced_current)
    obtain y where y: "lo_parts st' q = Some y"
      using countsD(3) [OF st'(1), of "SLoc l ?c"] q(1) sv by auto
    then obtain x where "lo_parts st q = Some x" "same_part x y"
      using st'(2) unfolding parts_kept_def by blast
    then have "pt_name y = (if is_c_name name then ''C'' else name)"
      using q(2) by (simp add: same_part_def)
    then have "load_spec E l ?c name st (LDP_LOADED, ?s) \<and> load_spec E l ?c name st (LDP_CACHE, ?s)"
    proof (intro load_outcome [OF ok loc bal' xl, where q = q])
      show "\<And>p x y. lo_parts st p = Some x \<Longrightarrow> lo_parts ?s p = Some y \<Longrightarrow> same_part x y"
        "\<And>p x. lo_parts st p = Some x \<Longrightarrow> pt_perm x \<Longrightarrow> lo_parts ?s p = Some x"
        using parts_keptD [OF st'(2)] by (simp_all add: set_current_def split: if_splits)
      show "lo_current ?s = (if l = GLOBAL \<and> CTYPE = CTYPE then q else lo_current st)"
        using sv unfolding st'(3) by (cases "l = GLOBAL") (simp_all add: set_current_def del: ptr_val.simps)
      show "lo_thread ?s = lo_thread st" "lo_path ?s = lo_path st"
        unfolding st'(3) by (simp_all add: set_current_def)
      show "\<exists>y. lo_parts ?s q = Some y \<and> pt_name y = (if is_c_name name then ''C'' else name)"
        using y \<open>pt_name y = _\<close> by (simp add: set_current_def)
    qed (use q(1) in auto)
    then show ?thesis by blast
  qed
  show ?thesis
  proof (cases "is_c_name name")
    case True
    obtain st' P where st': "use_none l ?c DEFAULT_RUNE st = Some st'" "balanced st'" "parts_kept st st'"
      "st' = (set_ptr (SLoc l ?c) DEFAULT_RUNE st)\<lparr>lo_parts := P\<rparr>"
      by (rule use_none_balanced [OF bal l, of DEFAULT_RUNE ?c])
        (use parts_okD(2) [OF ok] in \<open>auto simp: default_rune_def\<close>)
    have "load_spec E l ?c name st (LDP_LOADED, set_current l st')"
      by (rule key [OF st'(2-4)]) (use True parts_okD(2) [OF ok] in \<open>auto simp: default_rune_def DEFAULT_RUNE_def\<close>)
    then show ?thesis
      using True loc st'(1) by (simp add: setrunelocale_def)
  next
    case name: False
    obtain hit where hit: "cache_named st ?c name = Some hit" "hit \<Longrightarrow> lo_cache st ?c \<noteq> 0"
      "hit \<Longrightarrow> \<exists>x. lo_parts st (lo_cache st ?c) = Some x \<and> pt_name x = name"
      using cache_named_balanced [OF bal, of ?c name] by blast
    show ?thesis
    proof (cases hit)
      case True
      obtain st' P where st': "use_cache l ?c st = Some st'" "balanced st'" "parts_kept st st'"
        "st' = (set_ptr (SLoc l ?c) (lo_cache st ?c) st)\<lparr>lo_parts := P\<rparr>"
        by (rule use_cache_balanced [OF bal l hit(2) [OF True]])
      have "load_spec E l ?c name st (LDP_LOADED, set_current l st')"
        by (rule key [OF st'(2-4)]) (use name hit(2,3) True in auto)
      then show ?thesis
        using name loc hit(1) True st'(1) by (simp add: setrunelocale_def)
    next
      case miss: False
      let ?xp = "le_part E st"
      obtain S where S: "lc_system_of E st = Some S"
        using path by (auto simp: lc_system_of_def)
      show ?thesis
      proof (cases "?xp \<noteq> 0 \<and> (\<exists>f rl r. open_path_locale S (name @ ''/LC_CTYPE'') = Some f \<and> le_magi E f = Some rl \<and>
          rune_init (le_mem E) rl = Inr r)")
        case False
        then have "\<exists>e. setrunelocale E name l st = Some (Some e, st)"
          using name loc hit(1) miss S by (auto simp: setrunelocale_def Let_def split: option.splits sum.splits)
        then show ?thesis
          using load_error [OF ok l name] by fastforce
      next
        case True
        then obtain f rl r where f: "open_path_locale S (name @ ''/LC_CTYPE'') = Some f" "le_magi E f = Some rl"
          "rune_init (le_mem E) rl = Inr r" and xp: "?xp \<noteq> 0"
          by blast
        have fresh: "lo_parts st ?xp = None"
          using env_okD(1) [OF E, of st] xp by simp
        define x where "x = \<lparr>pt_cat = ?c, pt_rc = 1, pt_perm = False, pt_name = name, pt_data = Rune r\<rparr>"
        let ?new = "set_part ?xp (Some x) st"
        have cnt: "counts ((\<lambda>_. 0)(?xp := 1)) ?new"
          by (rule new_part_counts(1) [OF bal fresh xp]) (simp_all add: x_def)
        have refs: "refs ?new ?xp = {}"
          by (rule new_part_counts(2) [OF bal fresh xp, where k = 1]) (simp_all add: x_def)
        obtain st' P where st': "use_new l ?c ?xp ?new = Some st'" "balanced st'" "parts_kept ?new st'"
          "st' = (set_ptr (SCache ?c) ?xp (set_ptr (SLoc l ?c) ?xp ?new))\<lparr>lo_parts := P\<rparr>" "P ?xp \<noteq> None"
          by (rule use_new_balanced [OF cnt, of l x ?c]) (use refs loc in \<open>auto simp: x_def\<close>)
        let ?s = "st'\<lparr>lo_current := (if l = GLOBAL then ?xp else lo_current ?new)\<rparr>"
        let ?loc = "loc\<lparr>xl_part := (xl_part loc)(?c := ?xp)\<rparr>"
        have xl: "lo_xl ?s = (lo_xl st)(l \<mapsto> ?loc)"
          using loc unfolding st'(4) by (simp add: lo_xl_set_slot)
        have bal': "balanced ?s"
          using st'(2) by (rule balanced_current)
        have parts: "lo_parts ?s = P" "lo_thread ?s = lo_thread st" "lo_path ?s = lo_path st"
          unfolding st'(4) by simp_all
        obtain y where y: "lo_parts st' ?xp = Some y"
          using st'(4,5) by auto
        then have "pt_name y = name"
          using parts_keptD(2) [OF st'(3), of ?xp x y] by (simp add: same_part_def x_def)
        with y have "load_spec E l ?c name st (LDP_LOADED, ?s) \<and> load_spec E l ?c name st (LDP_CACHE, ?s)"
        proof (intro load_outcome [OF ok loc bal' xl, where q = ?xp])
          show "same_part u v" if "lo_parts st p = Some u" "lo_parts ?s p = Some v" for p u v
          proof -
            have "p \<noteq> ?xp"
              using that(1) fresh by auto
            with that parts_keptD(2) [OF st'(3), of p u v] show ?thesis by simp
          qed
          show "lo_parts ?s p = Some u" if "lo_parts st p = Some u" "pt_perm u" for p u
          proof -
            have "p \<noteq> ?xp"
              using that(1) fresh by auto
            with that parts_keptD(1) [OF st'(3), of p u] show ?thesis by simp
          qed
        qed (use name xp parts in auto)
        moreover have "setrunelocale E name l st = Some (None, ?s)"
        proof -
          have "setrunelocale E name l st = map_option (\<lambda>s. (None, s))
              (do { s1 \<leftarrow> xl_release (SLoc l CTYPE) ?new;
                 s2 \<leftarrow> xl_release (SCache CTYPE) (set_current l (set_ptr (SLoc l CTYPE) ?xp s1));
                 xl_retain (ptr_val (set_ptr (SCache CTYPE) ?xp s2) (SCache CTYPE)) (set_ptr (SCache CTYPE) ?xp s2) })"
            using name loc hit(1) miss S f xp
            by (simp add: setrunelocale_def Let_def x_def map_conv_bind_option o_def del: ptr_val.simps)
          then show ?thesis
            using set_current_new [OF st'(1)] loc by simp
        qed
        ultimately show ?thesis by fastforce
      qed
    qed
  qed
qed

lemma wrap_setrunelocale_spec:
  assumes "parts_ok st" "lc_env_ok E" "lo_xl st l \<noteq> None" "lo_path st \<noteq> None"
  shows "\<exists>res. wrap_setrunelocale E name l st = Some res \<and> load_spec E l CTYPE name st res"
  using setrunelocale_spec [OF assms, of name] by (auto simp: wrap_setrunelocale_def split: option.splits)

end
