(* ===== verification/Locale_Objects.thy ===== *)
theory Locale_Objects
  imports Locale_Parts
begin

text \<open>
  Locales as objects (\<open>xlocale.c\<close>, with the search for the path and the environment of
  \<open>setlocale.c\<close>): they are made as copies, modified category by category, counted, used by a
  thread, and freed with their tables. A locale may hold a second one, with which \<open>wcstod\<close>
  and its kin convert numbers (\<open>__lc_numeric_loc\<close>). \<open>LC_GLOBAL_LOCALE\<close> and the address of the
  global locale are treated alike by every function, and are one value here.
\<close>

section \<open>The environment\<close>

definition ENCODING_LEN :: nat where "ENCODING_LEN = 31"
definition CATEGORY_LEN :: nat where "CATEGORY_LEN = 11"
definition PATH_MAX :: nat where "PATH_MAX = 1024"

definition detect_path_locale :: "lc_env \<Rightarrow> locs \<Rightarrow> errno option \<times> locs" where
  "detect_path_locale E st =
     (case lo_path st of Some p \<Rightarrow> (None, st)
      | None \<Rightarrow>
          (case le_getenv E ''PATH_LOCALE'' of
             Some p \<Rightarrow>
               if \<not> le_setugid E then
                 (if length p + 1 + ENCODING_LEN + 1 + CATEGORY_LEN \<ge> PATH_MAX then (Some ENAMETOOLONG, st)
                  else if \<not> le_mem E then (Some ENOMEM, st)
                  else (None, st\<lparr>lo_path := Some p\<rparr>))
               else (None, st\<lparr>lo_path := Some (le_default E)\<rparr>)
           | None \<Rightarrow> (None, st\<lparr>lo_path := Some (le_default E)\<rparr>)))"

fun cat_name :: "cat \<Rightarrow> string" where
  "cat_name COLLATE = ''LC_COLLATE''"
| "cat_name CTYPE = ''LC_CTYPE''"
| "cat_name MONETARY = ''LC_MONETARY''"
| "cat_name NUMERIC = ''LC_NUMERIC''"
| "cat_name TIME = ''LC_TIME''"
| "cat_name MESSAGES = ''LC_MESSAGES''"

definition get_locale_env :: "lc_env \<Rightarrow> cat \<Rightarrow> string" where
  "get_locale_env E c =
     (let env = le_getenv E ''LC_ALL'';
          env = (if env = None \<or> env = Some [] then le_getenv E (cat_name c) else env);
          env = (if env = None \<or> env = Some [] then le_getenv E ''LANG'' else env)
      in if env = None \<or> env = Some [] then ''C'' else the env)"

text \<open>Whether a name has the right size, is not \<open>.\<close> or \<open>..\<close>, and contains no slash.\<close>

definition checkencoding :: "string option \<Rightarrow> bool" where
  "checkencoding encoding =
     (case encoding of None \<Rightarrow> True
      | Some s \<Rightarrow> \<not> (length s > ENCODING_LEN \<or> s = ''.'' \<or> s = ''..'' \<or> CHR ''/'' \<in> set s))"

section \<open>Counting locales\<close>

definition xl_retain_loc :: "nat \<Rightarrow> locs \<Rightarrow> locs option" where
  "xl_retain_loc p st =
     (if p = 0 then Some st
      else do { x \<leftarrow> lo_xl st p;
        if xl_perm x then Some st
        else Some (upd_loc p (\<lambda>x. x\<lparr>xl_rc := xl_rc x + 1\<rparr>) st) })"

text \<open>
  \<open>XL_RELEASE\<close> of a locale, which says whether it has freed it, and \<open>_releaselocale\<close>: the
  number bounds how deep locales hold locales. The pointers of a locale that is being freed are
  cleared, whether or not this was the last reference to the table.
\<close>

fun xl_release_loc :: "nat \<Rightarrow> nat \<Rightarrow> locs \<Rightarrow> (bool \<times> locs) option" where
  "xl_release_loc n p st =
     (if p = 0 then Some (False, st)
      else do { x \<leftarrow> lo_xl st p;
        if xl_perm x then Some (False, st)
        else if xl_rc x - 1 = 0 then
          (case n of 0 \<Rightarrow> None
           | Suc m \<Rightarrow>
               do { st \<leftarrow> use_none p COLLATE 0 st;
                    st \<leftarrow> use_none p CTYPE 0 st;
                    st \<leftarrow> use_none p MESSAGES 0 st;
                    st \<leftarrow> use_none p MONETARY 0 st;
                    st \<leftarrow> use_none p NUMERIC 0 st;
                    (freed, st) \<leftarrow> xl_release_loc m (xl_num_loc x) (upd_loc p (\<lambda>x. x\<lparr>xl_num_loc := 0\<rparr>) st);
                    st \<leftarrow> use_none p TIME 0 st;
                    Some (True, st\<lparr>lo_xl := (lo_xl st)(p := None)\<rparr>) })
        else Some (False, upd_loc p (\<lambda>x. x\<lparr>xl_rc := xl_rc x - 1\<rparr>) st) })"

declare xl_release_loc.simps [simp del]

text \<open>A numeric locale holds no other, so that two levels are enough.\<close>

definition NESTING :: nat where "NESTING = 2"

definition current_locale :: "locs \<Rightarrow> nat" where
  "current_locale st = (if lo_thread st = 0 then GLOBAL else lo_thread st)"

section \<open>Making locales\<close>

definition duplocale_int :: "lc_env \<Rightarrow> nat \<Rightarrow> locs \<Rightarrow> (nat \<times> locs) option" where
  \<comment> \<open>\<open>_duplocale\<close>; the result \<open>0\<close> is \<open>NULL\<close>\<close>
  "duplocale_int E l st =
     (let new = le_loc E st in
      if new = 0 then Some (0, st)
      else do {
        let l = (if l = 0 then current_locale st else l);
        loc \<leftarrow> lo_xl st l;
        let st = st\<lparr>lo_xl := (lo_xl st)(new \<mapsto> loc\<lparr>xl_rc := 1, xl_perm := False\<rparr>)\<rparr>;
        if l = C_LOCALE then Some (new, st)
        else do {
          st \<leftarrow> xl_retain (xl_part loc COLLATE) st;
          st \<leftarrow> xl_retain (xl_part loc CTYPE) st;
          st \<leftarrow> xl_retain (xl_part loc MESSAGES) st;
          st \<leftarrow> xl_retain (xl_part loc MONETARY) st;
          st \<leftarrow> xl_retain (xl_part loc NUMERIC) st;
          st \<leftarrow> xl_retain_loc (xl_num_loc loc) st;
          st \<leftarrow> xl_retain (xl_part loc TIME) st;
          Some (new, st) } })"

definition load_category :: "cat \<Rightarrow> lc_env \<Rightarrow> string \<Rightarrow> nat \<Rightarrow> locs \<Rightarrow> (ldp \<times> locs) option" where
  "load_category c =
     (case c of COLLATE \<Rightarrow> collate_load_tables | CTYPE \<Rightarrow> wrap_setrunelocale
      | MESSAGES \<Rightarrow> messages_load_locale | MONETARY \<Rightarrow> monetary_load_locale
      | NUMERIC \<Rightarrow> numeric_load_locale | TIME \<Rightarrow> time_load_locale)"

text \<open>
  What changes with a table: the choice of the locale for numbers. The pointer to that locale is
  cleared before it is released, which nobody can see as the lock is held.
\<close>

definition after_load :: "cat \<Rightarrow> nat \<Rightarrow> locs \<Rightarrow> locs option" where
  "after_load c l st =
     (case c of
        CTYPE \<Rightarrow> Some (upd_loc l (\<lambda>x. if xl_fp x = FP_SAME_LOCALE then x\<lparr>xl_fp := FP_UNINITIALIZED\<rparr> else x) st)
      | NUMERIC \<Rightarrow>
          do { x \<leftarrow> lo_xl st l;
               (freed, st) \<leftarrow> xl_release_loc NESTING (xl_num_loc x)
                 (upd_loc l (\<lambda>x. x\<lparr>xl_fp := FP_UNINITIALIZED, xl_num_loc := 0\<rparr>) st);
               Some st }
      | _ \<Rightarrow> Some st)"

text \<open>The categories in the order of the bits of a mask.\<close>

definition mask_order :: "cat list" where
  "mask_order = [COLLATE, CTYPE, MESSAGES, MONETARY, NUMERIC, TIME]"

fun modify_loop :: "lc_env \<Rightarrow> nat \<Rightarrow> (cat \<Rightarrow> bool) \<Rightarrow> string \<Rightarrow> cat list \<Rightarrow> locs \<Rightarrow> (errno option \<times> locs) option" where
  "modify_loop E l msk name [] st = Some (None, st)"
| "modify_loop E l msk name (c # cs) st =
     (if \<not> msk c then modify_loop E l msk name cs st
      else let enc = (if name = [] then get_locale_env E c else name) in
        if name = [] \<and> \<not> checkencoding (Some enc) then Some (Some EINVAL, st)
        else do { oenc \<leftarrow> locale_encoding st l c;
          if enc = oenc then modify_loop E l msk name cs st
          else do { (r, st) \<leftarrow> load_category c E enc l st;
            (case r of LDP_ERROR e \<Rightarrow> Some (Some e, st)
             | _ \<Rightarrow> do { st \<leftarrow> after_load c l st; modify_loop E l msk name cs st }) } })"

definition modifylocale :: "lc_env \<Rightarrow> nat \<Rightarrow> (cat \<Rightarrow> bool) \<Rightarrow> string option \<Rightarrow> locs \<Rightarrow> (errno option \<times> locs) option" where
  "modifylocale E l msk locale st =
     (case detect_path_locale E st of
        (Some e, st) \<Rightarrow> Some (Some e, st)
      | (None, st) \<Rightarrow> modify_loop E l msk (case locale of None \<Rightarrow> ''C'' | Some s \<Rightarrow> s) mask_order st)"

section \<open>The interface\<close>

text \<open>A locale is checked by its magic number, which must be readable.\<close>

definition checklocale :: "nat \<Rightarrow> locs \<Rightarrow> unit option" where
  "checklocale l st = (if l = 0 \<or> l = GLOBAL then Some () else map_option (\<lambda>_. ()) (lo_xl st l))"

definition duplocale :: "lc_env \<Rightarrow> nat \<Rightarrow> locs \<Rightarrow> (nat \<times> locs) option" where
  "duplocale E l st = do { checklocale l st; duplocale_int E l st }"

definition freelocale :: "nat \<Rightarrow> locs \<Rightarrow> (errno option \<times> locs) option" where
  "freelocale l st =
     (if l = 0 then Some (Some EINVAL, st)
      else do { checklocale l st;
        if l = GLOBAL \<or> l = C_LOCALE then Some (Some EINVAL, st)
        else do { (freed, st) \<leftarrow> xl_release_loc NESTING l st; Some (None, st) } })"

definition newlocale :: "lc_env \<Rightarrow> (cat \<Rightarrow> bool) \<Rightarrow> string option \<Rightarrow> nat \<Rightarrow> locs \<Rightarrow> ((errno + nat) \<times> locs) option" where
  "newlocale E msk locale base st =
     (if \<not> checkencoding locale then Some (Inl EINVAL, st)
      else do {
        let all = list_all msk mask_order;
        (if all then Some () else checklocale base st);
        (new, st) \<leftarrow> duplocale_int E (if all then C_LOCALE else base) st;
        if new = 0 then Some (Inl ErrnoUnset, st)
        else if \<not> list_ex msk mask_order \<or> all \<and> locale = None then Some (Inr new, st)
        else do { (r, st) \<leftarrow> modifylocale E new msk locale st;
          (case r of Some e \<Rightarrow> do { (r', st) \<leftarrow> freelocale new st; Some (Inl e, st) }
           | None \<Rightarrow> Some (Inr new, st)) } })"

definition uselocale :: "nat \<Rightarrow> locs \<Rightarrow> (nat \<times> locs) option" where
  "uselocale l st =
     (if l = 0 then Some (if lo_thread st = 0 then GLOBAL else lo_thread st, st)
      else do { checklocale l st;
        let l = (if l = GLOBAL then 0 else l);
        st \<leftarrow> xl_retain_loc l st;
        let orig = lo_thread st;
        (freed, st) \<leftarrow> xl_release_loc NESTING orig (st\<lparr>lo_thread := l\<rparr>);
        Some (if orig = 0 \<or> freed then GLOBAL else orig, st) })"

text \<open>When a thread ends its locale is released (\<open>__xlocale_release\<close>).\<close>

definition xlocale_release :: "locs \<Rightarrow> locs option" where
  "xlocale_release st =
     do { (freed, st) \<leftarrow> xl_release_loc NESTING (lo_thread st) (st\<lparr>lo_thread := 0\<rparr>); Some st }"

definition querylocale :: "(cat \<Rightarrow> bool) \<Rightarrow> nat \<Rightarrow> locs \<Rightarrow> (errno + string) option" where
  "querylocale msk l st =
     do { checklocale l st;
          (case List.find msk mask_order of None \<Rightarrow> Some (Inl EINVAL)
           | Some c \<Rightarrow> map_option Inr (locale_encoding st (if l = 0 then current_locale st else l) c)) }"

text \<open>The locale for conversions between numbers and strings.\<close>

definition numeric_ctype :: "lc_env \<Rightarrow> nat \<Rightarrow> locs \<Rightarrow> (nat \<times> locs) option" where
  "numeric_ctype E l st =
     do { loc \<leftarrow> lo_xl st l;
       (case xl_fp loc of
          FP_UNINITIALIZED \<Rightarrow>
            do { ctype \<leftarrow> locale_encoding st l CTYPE;
                 numeric \<leftarrow> locale_encoding st l NUMERIC;
                 if ctype = numeric then Some (l, upd_loc l (\<lambda>x. x\<lparr>xl_fp := FP_SAME_LOCALE\<rparr>) st)
                 else do {
                   (r, st) \<leftarrow> newlocale E (\<lambda>c. c = CTYPE) (Some numeric) C_LOCALE st;
                   (case r of
                      Inr new \<Rightarrow> Some (new, upd_loc l (\<lambda>x. x\<lparr>xl_num_loc := new, xl_fp := FP_USE_LOCALE\<rparr>) st)
                    | Inl e \<Rightarrow> Some (l, upd_loc l (\<lambda>x. x\<lparr>xl_num_loc := 0, xl_fp := FP_SAME_LOCALE\<rparr>) st)) } }
        | FP_SAME_LOCALE \<Rightarrow> Some (l, st)
        | FP_USE_LOCALE \<Rightarrow> Some (xl_num_loc loc, st)) }"

text \<open>The process at its start: \<open>__global_locale\<close> and \<open>__c_locale\<close>.\<close>

definition c_locale_init :: xlocale where
  "c_locale_init = \<lparr>xl_rc = 0, xl_perm = True, xl_using = (\<lambda>_. False),
     xl_part = (\<lambda>c. if c = CTYPE then DEFAULT_RUNE else 0), xl_subst = False, xl_mlocale_changed = True,
     xl_nlocale_changed = True, xl_fp = FP_UNINITIALIZED, xl_num_loc = 0\<rparr>"

definition locs_init :: locs where
  "locs_init = \<lparr>lo_parts = [DEFAULT_RUNE \<mapsto> default_rune], lo_cache = (\<lambda>_. 0),
     lo_xl = [GLOBAL \<mapsto> c_locale_init, C_LOCALE \<mapsto> c_locale_init], lo_thread = 0, lo_path = None,
     lo_current = DEFAULT_RUNE\<rparr>"


section \<open>Who holds a locale\<close>

definition numrefs :: "locs \<Rightarrow> nat \<Rightarrow> nat set" where
  "numrefs st l = {m. \<exists>x. lo_xl st m = Some x \<and> xl_num_loc x = l}"

definition tables_match :: "xlocale \<Rightarrow> bool" where
  "tables_match x \<longleftrightarrow> (\<forall>c. if c = CTYPE then xl_part x c \<noteq> 0 else xl_using x c \<longleftrightarrow> xl_part x c \<noteq> 0)"

lemma tables_match_simps [simp]:
  "tables_match (x\<lparr>xl_rc := k\<rparr>) = tables_match x" "tables_match (x\<lparr>xl_perm := b\<rparr>) = tables_match x"
  "tables_match (x\<lparr>xl_fp := f\<rparr>) = tables_match x" "tables_match (x\<lparr>xl_num_loc := i\<rparr>) = tables_match x"
  by (simp_all add: tables_match_def)

text \<open>
  The invariant of the objects: the counts of the tables are exact, the count of a locale is the
  number of the locales that hold it, of the thread if that uses it, and of the \<open>H\<close> references
  that are held elsewhere, by callers. The locale that another one holds for numbers holds
  none itself, and it is there exactly where the flag says so. \<open>X\<close> has the locales that are
  being freed.
\<close>

definition linv :: "nat set \<Rightarrow> (nat \<Rightarrow> nat) \<Rightarrow> locs \<Rightarrow> bool" where
  "linv X H st \<longleftrightarrow>
     (balanced st \<and> lo_parts st DEFAULT_RUNE = Some default_rune \<and> lo_current st = ptr_val st (SLoc GLOBAL CTYPE)) \<and>
     (lo_xl st 0 = None \<and> GLOBAL \<notin> X \<and> C_LOCALE \<notin> X \<and> lo_xl st GLOBAL \<noteq> None \<and>
      (\<forall>l x. lo_xl st l = Some x \<longrightarrow> (xl_perm x \<longleftrightarrow> l = GLOBAL \<or> l = C_LOCALE))) \<and>
     (\<exists>x. lo_xl st C_LOCALE = Some x \<and> (\<forall>c. xl_part x c = (if c = CTYPE then DEFAULT_RUNE else 0)) \<and> xl_num_loc x = 0) \<and>
     (\<forall>l x. lo_xl st l = Some x \<and> l \<notin> X \<longrightarrow> tables_match x \<and> (xl_fp x = FP_USE_LOCALE \<longleftrightarrow> xl_num_loc x \<noteq> 0)) \<and>
     (\<forall>l x. lo_xl st l = Some x \<and> xl_num_loc x \<noteq> 0 \<longrightarrow>
        xl_num_loc x \<notin> X \<and> (\<exists>i. lo_xl st (xl_num_loc x) = Some i \<and> \<not> xl_perm i \<and> xl_num_loc i = 0)) \<and>
     (\<forall>l x. lo_xl st l = Some x \<and> \<not> xl_perm x \<and> l \<notin> X \<longrightarrow>
        xl_rc x = int (card (numrefs st l)) + (if lo_thread st = l then 1 else 0) + int (H l) \<and> 0 < xl_rc x) \<and>
     (lo_thread st \<noteq> 0 \<longrightarrow> lo_xl st (lo_thread st) \<noteq> None \<and> lo_thread st \<notin> X) \<and>
     (\<forall>l. 0 < H l \<longrightarrow> l \<notin> X \<and> (\<exists>x. lo_xl st l = Some x \<and> \<not> xl_perm x))"

lemma linvI:
  assumes "balanced st" "lo_parts st DEFAULT_RUNE = Some default_rune" "lo_current st = ptr_val st (SLoc GLOBAL CTYPE)"
    "lo_xl st 0 = None" "GLOBAL \<notin> X" "C_LOCALE \<notin> X" "lo_xl st GLOBAL \<noteq> None"
    "\<And>l x. lo_xl st l = Some x \<Longrightarrow> xl_perm x \<longleftrightarrow> l = GLOBAL \<or> l = C_LOCALE"
    "\<exists>x. lo_xl st C_LOCALE = Some x \<and> (\<forall>c. xl_part x c = (if c = CTYPE then DEFAULT_RUNE else 0)) \<and> xl_num_loc x = 0"
    "\<And>l x. lo_xl st l = Some x \<Longrightarrow> l \<notin> X \<Longrightarrow> tables_match x \<and> (xl_fp x = FP_USE_LOCALE \<longleftrightarrow> xl_num_loc x \<noteq> 0)"
    "\<And>l x. lo_xl st l = Some x \<Longrightarrow> xl_num_loc x \<noteq> 0 \<Longrightarrow>
        xl_num_loc x \<notin> X \<and> (\<exists>i. lo_xl st (xl_num_loc x) = Some i \<and> \<not> xl_perm i \<and> xl_num_loc i = 0)"
    "\<And>l x. lo_xl st l = Some x \<Longrightarrow> \<not> xl_perm x \<Longrightarrow> l \<notin> X \<Longrightarrow>
        xl_rc x = int (card (numrefs st l)) + (if lo_thread st = l then 1 else 0) + int (H l) \<and> 0 < xl_rc x"
    "lo_thread st \<noteq> 0 \<Longrightarrow> lo_xl st (lo_thread st) \<noteq> None \<and> lo_thread st \<notin> X"
    "\<And>l. 0 < H l \<Longrightarrow> l \<notin> X \<and> (\<exists>x. lo_xl st l = Some x \<and> \<not> xl_perm x)"
  shows "linv X H st"
  unfolding linv_def
  by (intro conjI; (rule assms)?; (intro allI impI; (elim conjE)?; rule assms; assumption)?; intro impI; rule assms(13))

lemma linvD:
  assumes "linv X H st"
  shows "balanced st" "lo_parts st DEFAULT_RUNE = Some default_rune" "lo_current st = ptr_val st (SLoc GLOBAL CTYPE)"
    "lo_xl st 0 = None" "GLOBAL \<notin> X" "C_LOCALE \<notin> X" "lo_xl st GLOBAL \<noteq> None"
    "lo_xl st l = Some x \<Longrightarrow> xl_perm x \<longleftrightarrow> l = GLOBAL \<or> l = C_LOCALE"
    "\<exists>x. lo_xl st C_LOCALE = Some x \<and> (\<forall>c. xl_part x c = (if c = CTYPE then DEFAULT_RUNE else 0)) \<and> xl_num_loc x = 0"
    "lo_xl st l = Some x \<Longrightarrow> l \<notin> X \<Longrightarrow> tables_match x \<and> (xl_fp x = FP_USE_LOCALE \<longleftrightarrow> xl_num_loc x \<noteq> 0)"
    "lo_xl st l = Some x \<Longrightarrow> xl_num_loc x \<noteq> 0 \<Longrightarrow>
        xl_num_loc x \<notin> X \<and> (\<exists>i. lo_xl st (xl_num_loc x) = Some i \<and> \<not> xl_perm i \<and> xl_num_loc i = 0)"
    "lo_xl st l = Some x \<Longrightarrow> \<not> xl_perm x \<Longrightarrow> l \<notin> X \<Longrightarrow>
        xl_rc x = int (card (numrefs st l)) + (if lo_thread st = l then 1 else 0) + int (H l) \<and> 0 < xl_rc x"
    "lo_thread st \<noteq> 0 \<Longrightarrow> lo_xl st (lo_thread st) \<noteq> None \<and> lo_thread st \<notin> X"
    "0 < H l \<Longrightarrow> l \<notin> X \<and> (\<exists>x. lo_xl st l = Some x \<and> \<not> xl_perm x)"
  using assms unfolding linv_def by blast+

lemma linv_parts_ok: "linv {} H st \<Longrightarrow> parts_ok st"
  unfolding parts_ok_def using linvD(1-3) linvD(10) [of "{}" H st] by (auto simp: tables_match_def)

lemma linv_init: "linv {} (\<lambda>_. 0) locs_init"
proof -
  have "balanced locs_init"
  proof (rule countsI)
    fix s assume "ptr_val locs_init s \<noteq> 0"
    then show "\<exists>x. lo_parts locs_init (ptr_val locs_init s) = Some x \<and> pt_cat x = slot_cat s"
      by (cases s) (auto simp: locs_init_def c_locale_init_def default_rune_def split: if_splits option.splits)
  qed (auto simp: locs_init_def default_rune_def DEFAULT_RUNE_def split: if_splits)
  then show ?thesis
    by (rule linvI) (auto simp: locs_init_def c_locale_init_def tables_match_def GLOBAL_def C_LOCALE_def DEFAULT_RUNE_def
        split: if_splits)
qed


lemma finite_numrefs: "linv X H st \<Longrightarrow> finite (numrefs st p)"
  using countsD(1) [OF linvD(1)] by (rule finite_subset [rotated]) (auto simp: numrefs_def)

lemma numrefs_upd:
  "lo_xl st' = (lo_xl st)(l \<mapsto> y) \<Longrightarrow>
     numrefs st' p = (if xl_num_loc y = p then insert l (numrefs st p) else numrefs st p - {l})"
  by (auto simp: numrefs_def split: if_splits)

text \<open>A change of one locale that leaves its tables alone.\<close>

lemma linv_upd:
  assumes inv: "linv X H st" and x: "lo_xl st l = Some x"
    and f: "xl_part (f x) = xl_part x" "xl_using (f x) = xl_using x" "xl_perm (f x) = xl_perm x"
    and fp: "l \<notin> X \<Longrightarrow> xl_fp (f x) = FP_USE_LOCALE \<longleftrightarrow> xl_num_loc (f x) \<noteq> 0"
    and inner: "xl_num_loc (f x) \<noteq> 0 \<Longrightarrow> xl_num_loc (f x) \<notin> X \<and> l \<noteq> C_LOCALE \<and> l \<noteq> xl_num_loc (f x) \<and> numrefs st l = {} \<and>
        (\<exists>i. lo_xl st (xl_num_loc (f x)) = Some i \<and> \<not> xl_perm i \<and> xl_num_loc i = 0) \<or> xl_num_loc (f x) = xl_num_loc x"
    and rc: "\<And>m y. lo_xl st m = Some y \<Longrightarrow> \<not> xl_perm y \<Longrightarrow> m \<notin> X \<Longrightarrow>
        int (card (numrefs (upd_loc l f st) m)) + int (H' m) - int (card (numrefs st m)) - int (H m) =
          (if m = l then xl_rc (f x) - xl_rc x else 0)"
      "\<not> xl_perm x \<Longrightarrow> l \<notin> X \<Longrightarrow> 0 < xl_rc (f x)"
    and H': "\<And>m. 0 < H' m \<Longrightarrow> m \<notin> X \<and> (\<exists>y. lo_xl st m = Some y \<and> \<not> xl_perm y)"
  shows "linv X H' (upd_loc l f st)"
proof (rule linvI)
  have sv: "ptr_val (upd_loc l f st) s = ptr_val st s" for s
    using x f(1) by (cases s) auto
  show "balanced (upd_loc l f st)"
    by (rule counts_same [OF linvD(1) [OF inv]]) (simp_all add: sv del: upd_loc_simps(7))
  show "lo_current (upd_loc l f st) = ptr_val (upd_loc l f st) (SLoc GLOBAL CTYPE)"
    using linvD(3) [OF inv] by (simp add: sv del: ptr_val.simps)
next
  show "\<exists>y. lo_xl (upd_loc l f st) C_LOCALE = Some y \<and> (\<forall>c. xl_part y c = (if c = CTYPE then DEFAULT_RUNE else 0)) \<and>
      xl_num_loc y = 0"
    using linvD(9) [OF inv] x f(1) inner by (cases "l = C_LOCALE") auto
next
  fix m y assume y: "lo_xl (upd_loc l f st) m = Some y"
  show "xl_perm y \<longleftrightarrow> m = GLOBAL \<or> m = C_LOCALE"
    using y x f(3) linvD(8) [OF inv] by (auto split: if_splits)
  show "tables_match y \<and> (xl_fp y = FP_USE_LOCALE \<longleftrightarrow> xl_num_loc y \<noteq> 0)" if "m \<notin> X"
    using y x f(1,2) fp that linvD(10) [OF inv, of m] by (auto simp: tables_match_def split: if_splits)
  show "xl_num_loc y \<notin> X \<and> (\<exists>i. lo_xl (upd_loc l f st) (xl_num_loc y) = Some i \<and> \<not> xl_perm i \<and> xl_num_loc i = 0)"
    if n: "xl_num_loc y \<noteq> 0"
  proof (cases "m = l")
    case True
    then have y': "y = f x"
      using y x by simp
    show ?thesis
    proof (cases "xl_num_loc (f x) = xl_num_loc x")
      case True
      then obtain i where i: "xl_num_loc x \<notin> X" "lo_xl st (xl_num_loc x) = Some i" "\<not> xl_perm i" "xl_num_loc i = 0"
        using linvD(11) [OF inv x] n y' by auto
      then have "xl_num_loc x \<noteq> l"
        using x True n y' by auto
      with i True y' show ?thesis by simp
    next
      case False
      then show ?thesis
        using inner n y' by auto
    qed
  next
    case False
    then have ym: "lo_xl st m = Some y"
      using y by simp
    then obtain i where i: "xl_num_loc y \<notin> X" "lo_xl st (xl_num_loc y) = Some i" "\<not> xl_perm i" "xl_num_loc i = 0"
      using linvD(11) [OF inv ym n] by auto
    show ?thesis
    proof (cases "xl_num_loc y = l")
      case True
      then have "i = x" "m \<in> numrefs st l"
        using i x ym by (auto simp: numrefs_def)
      then have "xl_num_loc (f x) = 0"
        using inner i(4) by force
      with True i \<open>i = x\<close> f(3) x show ?thesis by simp
    qed (use i in simp)
  qed
  show "xl_rc y = int (card (numrefs (upd_loc l f st) m)) + (if lo_thread (upd_loc l f st) = m then 1 else 0) + int (H' m) \<and>
      0 < xl_rc y" if "\<not> xl_perm y" "m \<notin> X"
  proof (cases "m = l")
    case True
    then have "y = f x" "\<not> xl_perm x"
      using y x that f(3) by auto
    with True that rc(1) [OF x] rc(2) linvD(12) [OF inv x] show ?thesis by simp
  next
    case False
    then have ym: "lo_xl st m = Some y"
      using y by simp
    with False that rc(1) [OF ym] linvD(12) [OF inv ym] show ?thesis by simp
  qed
next
  show "lo_thread (upd_loc l f st) \<noteq> 0 \<Longrightarrow>
      lo_xl (upd_loc l f st) (lo_thread (upd_loc l f st)) \<noteq> None \<and> lo_thread (upd_loc l f st) \<notin> X"
    using linvD(13) [OF inv] x by auto
next
  fix m assume "0 < H' m"
  then show "m \<notin> X \<and> (\<exists>y. lo_xl (upd_loc l f st) m = Some y \<and> \<not> xl_perm y)"
    using H' [of m] x f(3) by auto
next
  show "lo_xl (upd_loc l f st) 0 = None"
    using linvD(4) [OF inv] by (cases "l = 0") simp_all
qed (use linvD(2,5-7) [OF inv] x in auto)

lemma numrefs_same:
  assumes "\<And>x. xl_num_loc (f x) = xl_num_loc x"
  shows "numrefs (upd_loc l f st) p = numrefs st p"
proof (cases "lo_xl st l")
  case (Some x)
  then show ?thesis
    using assms by (auto simp: numrefs_def)
qed (auto simp: numrefs_def)

text \<open>A reference held elsewhere comes or goes.\<close>

lemma rc_linv:
  assumes "linv X H st" "lo_xl st l = Some x" "\<not> xl_perm x" "l \<notin> X" "0 < xl_rc x + k" "int h = int (H l) + k"
  shows "linv X (H(l := h)) (upd_loc l (\<lambda>x. x\<lparr>xl_rc := xl_rc x + k\<rparr>) st)"
proof (rule linv_upd [OF assms(1,2)])
  show "\<And>m. 0 < (H(l := h)) m \<Longrightarrow> m \<notin> X \<and> (\<exists>y. lo_xl st m = Some y \<and> \<not> xl_perm y)"
    using linvD(14) [OF assms(1)] assms(2-4) by (auto split: if_splits)
  show "xl_fp (x\<lparr>xl_rc := xl_rc x + k\<rparr>) = FP_USE_LOCALE \<longleftrightarrow> xl_num_loc (x\<lparr>xl_rc := xl_rc x + k\<rparr>) \<noteq> 0"
    using linvD(10) [OF assms(1,2,4)] by simp
qed (use assms in \<open>simp_all add: numrefs_same del: upd_loc_simps\<close>)


section \<open>Freeing a locale\<close>

text \<open>What a release leaves of the other locales and of the tables.\<close>

definition shrinks :: "locs \<Rightarrow> locs \<Rightarrow> bool" where
  "shrinks st st' \<longleftrightarrow> lo_thread st' = lo_thread st \<and> lo_path st' = lo_path st \<and> parts_kept st st' \<and>
     (\<forall>m y. lo_xl st' m = Some y \<longrightarrow> (\<exists>x. lo_xl st m = Some x \<and> x\<lparr>xl_rc := xl_rc y\<rparr> = y))"

lemma shrinks_refl [simp]: "shrinks st st"
  by (auto simp: shrinks_def)

lemma shrinks_rc: "shrinks st (upd_loc l (\<lambda>x. x\<lparr>xl_rc := xl_rc x + k\<rparr>) st)"
  by (auto simp: shrinks_def parts_kept_def split: if_splits)

text \<open>One table of a locale that is being freed.\<close>

lemma use_none_linv:
  assumes inv: "linv X H st" and l: "l \<in> X" and x: "lo_xl st l = Some x"
  obtains st' where "use_none l c 0 st = Some st'" "linv X H st'"
    "lo_xl st' = (lo_xl st)(l \<mapsto> x\<lparr>xl_part := (xl_part x)(c := 0)\<rparr>)"
    "lo_thread st' = lo_thread st" "lo_path st' = lo_path st" "parts_kept st st'"
proof -
  obtain st' P where st': "use_none l c 0 st = Some st'" "balanced st'" "parts_kept st st'"
    "st' = (set_ptr (SLoc l c) 0 st)\<lparr>lo_parts := P\<rparr>"
    by (rule use_none_balanced [OF linvD(1) [OF inv], of l 0 c]) (use x in auto)
  let ?x = "x\<lparr>xl_part := (xl_part x)(c := 0)\<rparr>"
  have xl: "lo_xl st' = (lo_xl st)(l \<mapsto> ?x)"
    using x unfolding st'(4) by (simp add: lo_xl_set_slot)
  have rest: "lo_thread st' = lo_thread st" "lo_path st' = lo_path st" "lo_current st' = lo_current st"
    unfolding st'(4) by simp_all
  have "l \<noteq> GLOBAL" "l \<noteq> C_LOCALE"
    using linvD(5,6) [OF inv] l by auto
  have "l \<noteq> 0"
    using linvD(4) [OF inv] x by (metis option.distinct(1))
  have refs: "numrefs st' p = numrefs st p" for p
    using x numrefs_upd [OF xl, of p] by (auto simp: numrefs_def)
  have "linv X H st'"
  proof (rule linvI)
    show "lo_current st' = ptr_val st' (SLoc GLOBAL CTYPE)"
      using linvD(3) [OF inv] rest xl \<open>l \<noteq> GLOBAL\<close> by simp
    show "lo_parts st' DEFAULT_RUNE = Some default_rune"
      using parts_keptD(1) [OF st'(3) linvD(2) [OF inv]] by (simp add: default_rune_def)
    fix m y assume y: "lo_xl st' m = Some y"
    show "xl_perm y \<longleftrightarrow> m = GLOBAL \<or> m = C_LOCALE"
      using y xl linvD(8) [OF inv] x by (auto split: if_splits)
    show "tables_match y \<and> (xl_fp y = FP_USE_LOCALE \<longleftrightarrow> xl_num_loc y \<noteq> 0)" if "m \<notin> X"
      using y xl linvD(10) [OF inv, of m y] l that by (auto split: if_splits)
    show "xl_num_loc y \<notin> X \<and> (\<exists>i. lo_xl st' (xl_num_loc y) = Some i \<and> \<not> xl_perm i \<and> xl_num_loc i = 0)"
      if "xl_num_loc y \<noteq> 0"
    proof -
      obtain z where z: "lo_xl st m = Some z" "xl_num_loc z = xl_num_loc y"
        using y xl x by (auto split: if_splits)
      then show ?thesis
        using linvD(11) [OF inv z(1)] that xl l by auto
    qed
    show "xl_rc y = int (card (numrefs st' m)) + (if lo_thread st' = m then 1 else 0) + int (H m) \<and> 0 < xl_rc y"
      if "\<not> xl_perm y" "m \<notin> X"
      using y xl linvD(12) [OF inv, of m y] l that refs rest by (auto split: if_splits)
  next
    show "lo_thread st' \<noteq> 0 \<Longrightarrow> lo_xl st' (lo_thread st') \<noteq> None \<and> lo_thread st' \<notin> X"
      using linvD(13) [OF inv] rest xl by auto
  next
    fix m assume "0 < H m"
    then show "m \<notin> X \<and> (\<exists>y. lo_xl st' m = Some y \<and> \<not> xl_perm y)"
      using linvD(14) [OF inv, of m] l xl by auto
  qed (use st'(2) linvD(4-7,9) [OF inv] xl \<open>l \<noteq> 0\<close> \<open>l \<noteq> C_LOCALE\<close> in auto)
  then show ?thesis
    using that st'(1,3) xl rest(1,2) by blast
qed

text \<open>A locale without tables disappears.\<close>

lemma remove_linv:
  assumes inv: "linv (insert l X) H st" and x: "lo_xl st l = Some x" and "l \<notin> X"
    and "\<And>c. xl_part x c = 0" "xl_num_loc x = 0"
  shows "linv X H (st\<lparr>lo_xl := (lo_xl st)(l := None)\<rparr>)"
proof -
  let ?s = "st\<lparr>lo_xl := (lo_xl st)(l := None)\<rparr>"
  have sv: "ptr_val ?s s = ptr_val st s" for s
    using x assms(4) by (cases s) auto
  have bal: "balanced ?s"
  proof (rule countsI)
    have "refs ?s p = refs st p" for p
      by (simp add: refs_def sv)
    then show "\<And>p y. lo_parts ?s p = Some y \<Longrightarrow> \<not> pt_perm y \<Longrightarrow> pt_rc y = int (card (refs ?s p)) + 0"
      using countsD(4) [OF linvD(1) [OF inv]] by simp
    show "\<And>p y. lo_parts ?s p = Some y \<Longrightarrow> \<not> pt_perm y \<Longrightarrow> 0 < pt_rc y"
      using countsD(5) [OF linvD(1) [OF inv]] by simp
    show "\<exists>y. lo_parts ?s (ptr_val ?s s) = Some y \<and> pt_cat y = slot_cat s" if "ptr_val ?s s \<noteq> 0" for s
      using countsD(3) [OF linvD(1) [OF inv], of s] that by (simp add: sv)
  qed (use countsD(1,2) [OF linvD(1) [OF inv]] in simp_all)
  have refs: "p \<noteq> 0 \<Longrightarrow> numrefs ?s p = numrefs st p" for p
    using x assms(5) by (auto simp: numrefs_def)
  have l: "l \<noteq> GLOBAL" "l \<noteq> C_LOCALE"
    using linvD(5,6) [OF inv] by auto
  show ?thesis
  proof (rule linvI)
    show "lo_current ?s = ptr_val ?s (SLoc GLOBAL CTYPE)"
      using linvD(3) [OF inv] by (simp add: sv del: ptr_val.simps)
    fix m y assume y: "lo_xl ?s m = Some y"
    then have m: "lo_xl st m = Some y" "m \<noteq> l"
      by (auto split: if_splits)
    show "xl_perm y \<longleftrightarrow> m = GLOBAL \<or> m = C_LOCALE"
      by (rule linvD(8) [OF inv m(1)])
    show "tables_match y \<and> (xl_fp y = FP_USE_LOCALE \<longleftrightarrow> xl_num_loc y \<noteq> 0)" if "m \<notin> X"
      by (rule linvD(10) [OF inv m(1)]) (use m that in simp)
    show "xl_num_loc y \<notin> X \<and> (\<exists>i. lo_xl ?s (xl_num_loc y) = Some i \<and> \<not> xl_perm i \<and> xl_num_loc i = 0)"
      if "xl_num_loc y \<noteq> 0"
      using linvD(11) [OF inv m(1) that] by auto
    have "m \<noteq> 0"
      using m linvD(4) [OF inv] by (metis option.distinct(1))
    then show "xl_rc y = int (card (numrefs ?s m)) + (if lo_thread ?s = m then 1 else 0) + int (H m) \<and> 0 < xl_rc y"
      if "\<not> xl_perm y" "m \<notin> X"
      using linvD(12) [OF inv m(1) that(1)] that(2) m(2) refs by simp
  next
    show "lo_thread ?s \<noteq> 0 \<Longrightarrow> lo_xl ?s (lo_thread ?s) \<noteq> None \<and> lo_thread ?s \<notin> X"
      using linvD(13) [OF inv] by auto
  next
    fix m assume "0 < H m"
    then show "m \<notin> X \<and> (\<exists>y. lo_xl ?s m = Some y \<and> \<not> xl_perm y)"
      using linvD(14) [OF inv, of m] by auto
  qed (use bal l linvD(2,4-7,9) [OF inv] in auto)
qed


text \<open>The locale for numbers is let go.\<close>

lemma clear_num_linv:
  assumes inv: "linv X H st" and x: "lo_xl st l = Some x" and f: "f = (\<lambda>x. x\<lparr>xl_num_loc := 0\<rparr>) \<and> l \<in> X \<or>
    f = (\<lambda>x. x\<lparr>xl_fp := FP_UNINITIALIZED, xl_num_loc := 0\<rparr>)"
  shows "linv X (if xl_num_loc x = 0 then H else H(xl_num_loc x := H (xl_num_loc x) + 1)) (upd_loc l f st)"
proof (rule linv_upd [OF inv x])
  let ?i = "xl_num_loc x"
  have fx: "xl_num_loc (f x) = 0" "xl_rc (f x) = xl_rc x" "xl_perm (f x) = xl_perm x" "xl_part (f x) = xl_part x"
    "xl_using (f x) = xl_using x" "l \<notin> X \<Longrightarrow> xl_fp (f x) = FP_UNINITIALIZED"
    using f by auto
  then show "xl_part (f x) = xl_part x" "xl_using (f x) = xl_using x" "xl_perm (f x) = xl_perm x"
    "l \<notin> X \<Longrightarrow> xl_fp (f x) = FP_USE_LOCALE \<longleftrightarrow> xl_num_loc (f x) \<noteq> 0"
    by auto
  show "xl_num_loc (f x) \<noteq> 0 \<Longrightarrow> xl_num_loc (f x) \<notin> X \<and> l \<noteq> C_LOCALE \<and> l \<noteq> xl_num_loc (f x) \<and> numrefs st l = {} \<and>
        (\<exists>i. lo_xl st (xl_num_loc (f x)) = Some i \<and> \<not> xl_perm i \<and> xl_num_loc i = 0) \<or> xl_num_loc (f x) = xl_num_loc x"
    using fx(1) by simp
  show "\<not> xl_perm x \<Longrightarrow> l \<notin> X \<Longrightarrow> 0 < xl_rc (f x)"
    using linvD(12) [OF inv x] fx(2) by simp
  show "\<And>m. 0 < (if ?i = 0 then H else H(?i := H ?i + 1)) m \<Longrightarrow> m \<notin> X \<and> (\<exists>y. lo_xl st m = Some y \<and> \<not> xl_perm y)"
    using linvD(14) [OF inv] linvD(11) [OF inv x] by (auto split: if_splits)
  fix m y assume y: "lo_xl st m = Some y"
  then have m: "m \<noteq> 0"
    using linvD(4) [OF inv] by (metis option.distinct(1))
  have "lo_xl (upd_loc l f st) = (lo_xl st)(l \<mapsto> f x)"
    using x by simp
  then have "numrefs (upd_loc l f st) m = numrefs st m - {l}"
    using numrefs_upd [of "upd_loc l f st" st l "f x" m] fx(1) m by simp
  moreover have "l \<in> numrefs st m \<longleftrightarrow> ?i = m"
    using x by (auto simp: numrefs_def)
  moreover have "?i = m \<Longrightarrow> 0 < card (numrefs st m)"
    using calculation(2) finite_numrefs [OF inv] card_gt_0_iff by blast
  ultimately have "int (card (numrefs (upd_loc l f st) m)) = int (card (numrefs st m)) - (if ?i = m then 1 else 0)"
    by (cases "?i = m") (simp_all add: card_Diff_singleton_if of_nat_diff Suc_le_eq)
  moreover have "int ((if ?i = 0 then H else H(?i := H ?i + 1)) m) = int (H m) + (if ?i = m then 1 else 0)"
    using m by simp
  ultimately show "int (card (numrefs (upd_loc l f st) m)) + int ((if ?i = 0 then H else H(?i := H ?i + 1)) m) -
      int (card (numrefs st m)) - int (H m) = (if m = l then xl_rc (f x) - xl_rc x else 0)"
    unfolding fx(2) by simp
qed

lemma exempt_linv:
  assumes inv: "linv X H st" and x: "lo_xl st l = Some x" "\<not> xl_perm x" and l: "numrefs st l = {}" "lo_thread st \<noteq> l"
  shows "linv (insert l X) (H(l := 0)) st"
proof (rule linvI)
  show "GLOBAL \<notin> insert l X" "C_LOCALE \<notin> insert l X"
    using linvD(5,6) [OF inv] linvD(8) [OF inv x(1)] x(2) by auto
  fix m y assume y: "lo_xl st m = Some y"
  show "xl_perm y \<longleftrightarrow> m = GLOBAL \<or> m = C_LOCALE"
    by (rule linvD(8) [OF inv y])
  show "tables_match y \<and> (xl_fp y = FP_USE_LOCALE \<longleftrightarrow> xl_num_loc y \<noteq> 0)" if "m \<notin> insert l X"
    by (rule linvD(10) [OF inv y]) (use that in simp)
  show "xl_num_loc y \<notin> insert l X \<and> (\<exists>i. lo_xl st (xl_num_loc y) = Some i \<and> \<not> xl_perm i \<and> xl_num_loc i = 0)"
    if "xl_num_loc y \<noteq> 0"
    using linvD(11) [OF inv y that] l(1) y by (auto simp: numrefs_def)
  show "xl_rc y = int (card (numrefs st m)) + (if lo_thread st = m then 1 else 0) + int ((H(l := 0)) m) \<and> 0 < xl_rc y"
    if "\<not> xl_perm y" "m \<notin> insert l X"
    using linvD(12) [OF inv y that(1)] that by simp
next
  show "lo_thread st \<noteq> 0 \<Longrightarrow> lo_xl st (lo_thread st) \<noteq> None \<and> lo_thread st \<notin> insert l X"
    using linvD(13) [OF inv] l(2) by auto
next
  fix m assume "0 < (H(l := 0)) m"
  then show "m \<notin> insert l X \<and> (\<exists>y. lo_xl st m = Some y \<and> \<not> xl_perm y)"
    using linvD(14) [OF inv, of m] by (auto split: if_splits)
qed (use linvD(1-4,7,9) [OF inv] in auto)

lemma release_loc_linv:
  assumes "linv X H st" "0 < H l" "lo_xl st l = Some x" "0 < n" "xl_num_loc x \<noteq> 0 \<Longrightarrow> 1 < n"
  shows "\<exists>freed st'. xl_release_loc n l st = Some (freed, st') \<and> linv X (H(l := H l - 1)) st' \<and> shrinks st st' \<and>
    (freed \<longleftrightarrow> lo_xl st' l = None) \<and> (\<forall>m. lo_xl st m \<noteq> None \<and> m \<noteq> l \<and> m \<noteq> xl_num_loc x \<longrightarrow> lo_xl st' m \<noteq> None)"
  using assms
proof (induction n arbitrary: X H st l x)
  case (Suc n)
  note inv = Suc.prems(1) and x = Suc.prems(3)
  have l0: "l \<noteq> 0"
    using linvD(4) [OF inv] x by (metis option.distinct(1))
  have l: "l \<notin> X" "\<not> xl_perm x" "l \<noteq> 0"
    using linvD(14) [OF inv Suc.prems(2)] x l0 by auto
  have rc: "xl_rc x = int (card (numrefs st l)) + (if lo_thread st = l then 1 else 0) + int (H l)" "0 < xl_rc x"
    using linvD(12) [OF inv x l(2,1)] by auto
  show ?case
  proof (cases "xl_rc x = 1")
    case False
    let ?s = "upd_loc l (\<lambda>x. x\<lparr>xl_rc := xl_rc x + (- 1)\<rparr>) st"
    show ?thesis
    proof (intro exI conjI)
      show "xl_release_loc (Suc n) l st = Some (False, ?s)"
        using x l False by (subst xl_release_loc.simps) simp
      show "linv X (H(l := H l - 1)) ?s"
        by (rule rc_linv [OF inv x l(2,1)]) (use rc False Suc.prems(2) in auto)
      show "shrinks st ?s"
        by (rule shrinks_rc)
      have "lo_xl ?s m \<noteq> None \<longleftrightarrow> lo_xl st m \<noteq> None" for m
        by (cases "m = l") simp_all
      then show "False \<longleftrightarrow> lo_xl ?s l = None"
        "\<forall>m. lo_xl st m \<noteq> None \<and> m \<noteq> l \<and> m \<noteq> xl_num_loc x \<longrightarrow> lo_xl ?s m \<noteq> None"
        using x by blast+
    qed
  next
    case True
    have refs: "numrefs st l = {}" "lo_thread st \<noteq> l" "H l = 1"
    proof -
      have "card (numrefs st l) = 0 \<and> lo_thread st \<noteq> l \<and> H l = 1"
        using rc True Suc.prems(2) by (auto split: if_splits)
      then show "numrefs st l = {}" "lo_thread st \<noteq> l" "H l = 1"
        using finite_numrefs [OF inv, of l] by simp_all
    qed
    define i where "i = xl_num_loc x"
    let ?X = "insert l X" and ?H = "H(l := 0)"
    have inv0: "linv ?X ?H st"
      by (rule exempt_linv [OF inv x l(2) refs(1,2)])
    have lX: "l \<in> ?X" by simp
    obtain s1 where s1: "use_none l COLLATE 0 st = Some s1" "linv ?X ?H s1"
      "lo_xl s1 = (lo_xl st)(l \<mapsto> x\<lparr>xl_part := (xl_part x)(COLLATE := 0)\<rparr>)"
      "lo_thread s1 = lo_thread st" "lo_path s1 = lo_path st" "parts_kept st s1"
      by (rule use_none_linv [OF inv0 lX x])
    obtain s2 where s2: "use_none l CTYPE 0 s1 = Some s2" "linv ?X ?H s2"
      "lo_xl s2 = (lo_xl s1)(l \<mapsto> x\<lparr>xl_part := (xl_part x)(COLLATE := 0, CTYPE := 0)\<rparr>)"
      "lo_thread s2 = lo_thread s1" "lo_path s2 = lo_path s1" "parts_kept s1 s2"
      by (rule use_none_linv [OF s1(2) lX, of "x\<lparr>xl_part := (xl_part x)(COLLATE := 0)\<rparr>"]) (use s1(3) in auto)
    obtain s3 where s3: "use_none l MESSAGES 0 s2 = Some s3" "linv ?X ?H s3"
      "lo_xl s3 = (lo_xl s2)(l \<mapsto> x\<lparr>xl_part := (xl_part x)(COLLATE := 0, CTYPE := 0, MESSAGES := 0)\<rparr>)"
      "lo_thread s3 = lo_thread s2" "lo_path s3 = lo_path s2" "parts_kept s2 s3"
      by (rule use_none_linv [OF s2(2) lX, of "x\<lparr>xl_part := (xl_part x)(COLLATE := 0, CTYPE := 0)\<rparr>"]) (use s2(3) in auto)
    obtain s4 where s4: "use_none l MONETARY 0 s3 = Some s4" "linv ?X ?H s4"
      "lo_xl s4 = (lo_xl s3)(l \<mapsto> x\<lparr>xl_part := (xl_part x)(COLLATE := 0, CTYPE := 0, MESSAGES := 0, MONETARY := 0)\<rparr>)"
      "lo_thread s4 = lo_thread s3" "lo_path s4 = lo_path s3" "parts_kept s3 s4"
      by (rule use_none_linv [OF s3(2) lX, of "x\<lparr>xl_part := (xl_part x)(COLLATE := 0, CTYPE := 0, MESSAGES := 0)\<rparr>"])
        (use s3(3) in auto)
    define x5 where "x5 = x\<lparr>xl_part := (xl_part x)(COLLATE := 0, CTYPE := 0, MESSAGES := 0, MONETARY := 0, NUMERIC := 0)\<rparr>"
    obtain s5 where s5: "use_none l NUMERIC 0 s4 = Some s5" "linv ?X ?H s5" "lo_xl s5 = (lo_xl s4)(l \<mapsto> x5)"
      "lo_thread s5 = lo_thread s4" "lo_path s5 = lo_path s4" "parts_kept s4 s5"
      unfolding x5_def
      by (rule use_none_linv [OF s4(2) lX, of "x\<lparr>xl_part := (xl_part x)(COLLATE := 0, CTYPE := 0, MESSAGES := 0, MONETARY := 0)\<rparr>"])
        (use s4(3) in auto)
    have xl5: "lo_xl s5 = (lo_xl st)(l \<mapsto> x5)"
      using s1(3) s2(3) s3(3) s4(3) s5(3) by simp
    have kept5: "parts_kept st s5"
      using s1(6) s2(6) s3(6) s4(6) s5(6) parts_kept_trans by blast
    have x5: "xl_num_loc x5 = i" "lo_xl s5 l = Some x5"
      using xl5 by (simp_all add: x5_def i_def)
    define s6 where "s6 = upd_loc l (\<lambda>x. x\<lparr>xl_num_loc := 0\<rparr>) s5"
    have inv6: "linv ?X (if i = 0 then ?H else ?H(i := ?H i + 1)) s6"
      using clear_num_linv [OF s5(2) x5(2) disjI1, of "\<lambda>x. x\<lparr>xl_num_loc := 0\<rparr>", OF conjI [OF refl lX]]
      unfolding x5(1) s6_def .
    have xl6: "lo_xl s6 = (lo_xl st)(l \<mapsto> x5\<lparr>xl_num_loc := 0\<rparr>)"
      by (simp add: s6_def xl5)
    have "\<exists>freed s7. xl_release_loc n i s6 = Some (freed, s7) \<and> linv ?X ?H s7 \<and> shrinks s6 s7 \<and>
        (\<forall>m. lo_xl s6 m \<noteq> None \<and> m \<noteq> i \<longrightarrow> lo_xl s7 m \<noteq> None)"
    proof (cases "i = 0")
      case True
      then have "xl_release_loc n i s6 = Some (False, s6)"
        by (subst xl_release_loc.simps) simp
      with True inv6 show ?thesis
        by (intro exI [of _ False] exI [of _ s6]) simp
    next
      case False
      then have n: "0 < n"
        using Suc.prems(5) by (simp add: i_def)
      obtain y where y: "lo_xl st i = Some y" "xl_num_loc y = 0"
        using linvD(11) [OF inv x] False by (auto simp: i_def)
      moreover have "i \<noteq> l"
        using y x False by (auto simp: i_def)
      ultimately have y6: "lo_xl s6 i = Some y"
        by (simp add: xl6)
      define Hi where "Hi = ?H(i := ?H i + 1)"
      have "linv ?X Hi s6" "0 < Hi i"
        using inv6 False by (simp_all add: Hi_def)
      then obtain freed s7 where s7: "xl_release_loc n i s6 = Some (freed, s7)"
        "linv ?X (Hi(i := Hi i - 1)) s7" "shrinks s6 s7"
        "\<forall>m. lo_xl s6 m \<noteq> None \<and> m \<noteq> i \<and> m \<noteq> xl_num_loc y \<longrightarrow> lo_xl s7 m \<noteq> None"
        using Suc.IH [OF _ _ y6 n, of ?X Hi] y(2) by blast
      have "Hi(i := Hi i - 1) = ?H"
        by (auto simp: Hi_def)
      moreover have "lo_xl s6 0 = None"
        using linvD(4) [OF inv6] .
      ultimately show ?thesis
        using s7 y(2) by (metis (no_types))
    qed
    then obtain freed s7 where s7: "xl_release_loc n i s6 = Some (freed, s7)" "linv ?X ?H s7" "shrinks s6 s7"
      "\<And>m. lo_xl s6 m \<noteq> None \<Longrightarrow> m \<noteq> i \<Longrightarrow> lo_xl s7 m \<noteq> None"
      by blast
    have "i \<noteq> l"
      using refs(1) x by (auto simp: i_def numrefs_def)
    then obtain x7 where x7: "lo_xl s7 l = Some x7" "\<exists>k. x7 = x5\<lparr>xl_num_loc := 0, xl_rc := k\<rparr>"
    proof -
      obtain z where z: "lo_xl s7 l = Some z"
        using s7(4) [of l] \<open>i \<noteq> l\<close> by (auto simp: xl6)
      then have "x5\<lparr>xl_num_loc := 0, xl_rc := xl_rc z\<rparr> = z"
        using s7(3) by (fastforce simp: shrinks_def xl6)
      with z show ?thesis
        using that by metis
    qed
    obtain s8 where s8: "use_none l TIME 0 s7 = Some s8" "linv ?X ?H s8"
      "lo_xl s8 = (lo_xl s7)(l \<mapsto> x7\<lparr>xl_part := (xl_part x7)(TIME := 0)\<rparr>)"
      "lo_thread s8 = lo_thread s7" "lo_path s8 = lo_path s7" "parts_kept s7 s8"
      by (rule use_none_linv [OF s7(2) lX x7(1)])
    let ?s = "s8\<lparr>lo_xl := (lo_xl s8)(l := None)\<rparr>"
    have "xl_part x7 c = 0" if "c \<noteq> TIME" for c
      using x7(2) that by (cases c) (auto simp: x5_def)
    then have "linv X ?H ?s"
      by (intro remove_linv [OF s8(2) _ l(1), of "x7\<lparr>xl_part := (xl_part x7)(TIME := 0)\<rparr>"])
        (use s8(3) x7(2) in auto)
    then have fin: "linv X (H(l := H l - 1)) ?s"
      using refs(3) by simp
    have run: "xl_release_loc (Suc n) l st = Some (True, ?s)"
      using x l True s1(1) s2(1) s3(1) s4(1) s5(1) s7(1) s8(1)
      by (subst xl_release_loc.simps) (simp add: i_def s6_def)
    have shr: "shrinks st ?s"
    proof -
      have "parts_kept s6 s7"
        using s7(3) by (simp add: shrinks_def)
      moreover have "parts_kept st s6"
        using kept5 by (simp add: s6_def parts_kept_def)
      ultimately have "parts_kept st s8"
        using parts_kept_trans s8(6) by blast
      then have "parts_kept st ?s"
        by (simp add: parts_kept_def)
      moreover have "\<exists>z. lo_xl st m = Some z \<and> z\<lparr>xl_rc := xl_rc y\<rparr> = y" if "lo_xl ?s m = Some y" for m y
      proof -
        have "m \<noteq> l" "lo_xl s7 m = Some y"
          using that s8(3) by (auto split: if_splits)
        then show ?thesis
          using s7(3) unfolding shrinks_def by (fastforce simp: xl6)
      qed
      ultimately show ?thesis
        using s1(4,5) s2(4,5) s3(4,5) s4(4,5) s5(4,5) s7(3) s8(4,5) by (simp add: shrinks_def s6_def)
    qed
    have keep: "\<forall>m. lo_xl st m \<noteq> None \<and> m \<noteq> l \<and> m \<noteq> xl_num_loc x \<longrightarrow> lo_xl ?s m \<noteq> None"
      using s7(4) s8(3) by (auto simp: xl6 i_def)
    show ?thesis
    proof (intro exI conjI)
      show "True \<longleftrightarrow> lo_xl ?s l = None" by simp
    qed (fact run fin shr keep)+
  qed
qed simp


section \<open>Copying a locale\<close>

text \<open>The references of a copy that are not counted yet: those of the categories in \<open>A\<close>.\<close>

definition uncounted :: "xlocale \<Rightarrow> cat set \<Rightarrow> nat \<Rightarrow> int" where
  "uncounted loc A p = - int (card {c \<in> A. xl_part loc c = p})"

lemma copy_counts:
  assumes "balanced st" "lo_xl st new = None" "lo_xl st l = Some loc"
  shows "counts (uncounted loc UNIV) (st\<lparr>lo_xl := (lo_xl st)(new \<mapsto> loc\<lparr>xl_rc := 1, xl_perm := False\<rparr>)\<rparr>)"
proof -
  let ?s = "st\<lparr>lo_xl := (lo_xl st)(new \<mapsto> loc\<lparr>xl_rc := 1, xl_perm := False\<rparr>)\<rparr>"
  have sv: "ptr_val ?s (SLoc m c) = (if m = new then xl_part loc c else ptr_val st (SLoc m c))"
    "ptr_val ?s (SCache c) = ptr_val st (SCache c)" for m c
    by simp_all
  have refs: "refs ?s p = refs st p \<union> SLoc new ` {c. xl_part loc c = p}" if "p \<noteq> 0" for p
  proof -
    have "s \<in> refs ?s p \<longleftrightarrow> s \<in> refs st p \<union> SLoc new ` {c. xl_part loc c = p}" for s
      using assms(2) that by (cases s) (auto simp: refs_def)
    then show ?thesis by blast
  qed
  have card: "int (card (refs ?s p)) + uncounted loc UNIV p = int (card (refs st p))" if "p \<noteq> 0" for p
  proof -
    have "refs st p \<inter> SLoc new ` {c. xl_part loc c = p} = {}"
      using assms(2) that by (auto simp: refs_def)
    then have "card (refs ?s p) = card (refs st p) + card (SLoc new ` {c. xl_part loc c = p})"
      using refs [OF that] finite_refs [OF assms(1) that] by (simp add: card_Un_disjoint)
    also have "card (SLoc new ` {c. xl_part loc c = p}) = card {c. xl_part loc c = p}"
      by (rule card_image) (simp add: inj_on_def)
    finally show ?thesis
      by (simp add: uncounted_def fun_upd_def)
  qed
  show ?thesis
  proof (rule countsI)
    fix s assume s: "ptr_val ?s s \<noteq> 0"
    show "\<exists>x. lo_parts ?s (ptr_val ?s s) = Some x \<and> pt_cat x = slot_cat s"
    proof (cases "\<exists>c. s = SLoc new c")
      case True
      then obtain c where "s = SLoc new c" by blast
      then show ?thesis
        using s countsD(3) [OF assms(1), of "SLoc l c"] assms(3) by simp
    next
      case False
      then have "ptr_val ?s s = ptr_val st s"
        by (cases s) auto
      then show ?thesis
        using s countsD(3) [OF assms(1), of s] by simp
    qed
  next
    fix p x assume x: "lo_parts ?s p = Some x" "\<not> pt_perm x"
    then have "p \<noteq> 0"
      using countsD(2) [OF assms(1)] by (cases "p = 0") auto
    with x show "pt_rc x = int (card (refs ?s p)) + uncounted loc UNIV p" "0 < pt_rc x"
      using countsD(4,5) [OF assms(1), of p x] card by simp_all
  qed (use countsD(1,2) [OF assms(1)] in simp_all)
qed

lemma retain_copy:
  assumes "counts (uncounted loc A) s" "c \<in> A" "ptr_val s (SLoc new c) = xl_part loc c"
  obtains s' P where "xl_retain (xl_part loc c) s = Some s'" "counts (uncounted loc (A - {c})) s'" "s' = s\<lparr>lo_parts := P\<rparr>"
    "parts_kept s s'"
proof (cases "xl_part loc c = 0")
  case True
  have "uncounted loc A p = uncounted loc (A - {c}) p" if "p \<noteq> 0" for p
  proof -
    have "{d \<in> A. xl_part loc d = p} = {d \<in> A - {c}. xl_part loc d = p}"
      using True that by auto
    then show ?thesis
      by (simp add: uncounted_def)
  qed
  then have "counts (uncounted loc (A - {c})) s"
    using counts_cong [OF assms(1)] countsD(2) [OF assms(1)] by (metis option.distinct(1))
  with True show ?thesis
    by (intro that [of s "lo_parts s"]) (simp_all add: xl_retain_def)
next
  case False
  let ?p = "xl_part loc c"
  obtain x where x: "lo_parts s ?p = Some x"
    using countsD(3) [OF assms(1), of "SLoc new c"] assms(3) False by auto
  obtain s' where s': "xl_retain ?p s = Some s'" "counts ((uncounted loc A)(?p := uncounted loc A ?p + 1)) s'"
    "s' = set_part ?p (Some (if pt_perm x then x else x\<lparr>pt_rc := pt_rc x + 1\<rparr>)) s"
    using retain_counts [OF assms(1) x False] by blast
  have "((uncounted loc A)(?p := uncounted loc A ?p + 1)) q = uncounted loc (A - {c}) q" for q
  proof (cases "q = ?p")
    case True
    have "{d \<in> A. xl_part loc d = ?p} = insert c {d \<in> A - {c}. xl_part loc d = ?p}"
      using assms(2) by auto
    then have "card {d \<in> A. xl_part loc d = ?p} = Suc (card {d \<in> A - {c}. xl_part loc d = ?p})"
      by simp
    with True show ?thesis
      by (simp add: uncounted_def)
  next
    case False
    then have "{d \<in> A. xl_part loc d = q} = {d \<in> A - {c}. xl_part loc d = q}"
      by auto
    with False show ?thesis
      by (simp add: uncounted_def)
  qed
  then have "counts (uncounted loc (A - {c})) s'"
    using counts_cong [OF s'(2)] by blast
  moreover have "parts_kept s s'"
    unfolding s'(3) by (rule parts_kept_set_part(1) [OF x]) (simp add: same_part_def)
  moreover have "s' = s\<lparr>lo_parts := lo_parts s'\<rparr>"
    by (simp add: s'(3) set_part_def)
  ultimately show ?thesis
    using that s'(1) by blast
qed

text \<open>The state behind a copy, with the locale for numbers retained.\<close>

lemma copy_linv:
  assumes inv: "linv {} H st" and new: "new \<noteq> 0" "lo_xl st new = None" and loc: "lo_xl st l = Some loc"
    and s: "balanced s" "parts_kept st s" "lo_thread s = lo_thread st" "lo_current s = lo_current st"
      "lo_xl s = (let m = (lo_xl st)(new \<mapsto> loc\<lparr>xl_rc := 1, xl_perm := False\<rparr>); i = xl_num_loc loc
         in if i = 0 then m else m(i := map_option (\<lambda>x. x\<lparr>xl_rc := xl_rc x + 1\<rparr>) (m i)))"
  shows "linv {} (H(new := 1)) s"
proof -
  define i where "i = xl_num_loc loc"
  let ?copy = "loc\<lparr>xl_rc := 1, xl_perm := False\<rparr>"
  have i: "i \<noteq> new" if "i \<noteq> 0"
    using linvD(11) [OF inv loc] that new(2) by (auto simp: i_def)
  have xl_new: "lo_xl s new = Some ?copy"
    using s(5) i by (auto simp: Let_def i_def)
  have xl_i: "\<exists>y. lo_xl st i = Some y \<and> lo_xl s i = Some (y\<lparr>xl_rc := xl_rc y + 1\<rparr>) \<and> \<not> xl_perm y \<and> xl_num_loc y = 0" if "i \<noteq> 0"
    using linvD(11) [OF inv loc] that i s(5) by (auto simp: i_def)
  have xl_o: "lo_xl s m = lo_xl st m" if "m \<noteq> new" "m \<noteq> i \<or> i = 0" for m
    using s(5) that by (auto simp: Let_def i_def)
  have old: "\<exists>x. lo_xl st m = Some x \<and> y = x\<lparr>xl_rc := xl_rc y\<rparr> \<and> xl_rc y = xl_rc x + (if m = i then 1 else 0)"
    if y: "lo_xl s m = Some y" "m \<noteq> new" for m y
  proof (cases "m = i \<and> i \<noteq> 0")
    case True
    then show ?thesis
      using xl_i y by auto
  next
    case False
    then have m: "lo_xl st m = Some y"
      using y xl_o [of m] by metis
    then have "m \<noteq> 0"
      using linvD(4) [OF inv] by (metis option.distinct(1))
    with False m show ?thesis by auto
  qed
  have kept: "lo_xl s m \<noteq> None" if "lo_xl st m \<noteq> None" for m
    using that xl_o [of m] xl_i xl_new by (cases "m = new"; cases "m = i \<and> i \<noteq> 0") auto
  have refs: "numrefs s m = (if m = i then insert new (numrefs st m) else numrefs st m)" if "m \<noteq> 0" for m
  proof -
    have "k \<in> numrefs s m \<longleftrightarrow> (if m = i then k = new \<or> k \<in> numrefs st m else k \<in> numrefs st m)" for k
    proof (cases "k = new")
      case True
      then show ?thesis
        using xl_new new(2) by (auto simp: numrefs_def i_def)
    next
      case False
      show ?thesis
      proof (cases "k = i \<and> i \<noteq> 0")
        case True
        then show ?thesis
          using xl_i False by (auto simp: numrefs_def)
      next
        case other: False
        then have "lo_xl s k = lo_xl st k"
          using xl_o [of k] False by blast
        with False show ?thesis
          by (auto simp: numrefs_def)
      qed
    qed
    then show ?thesis by (simp add: set_eq_iff)
  qed
  have no_new: "new \<notin> numrefs st m" "m \<noteq> 0 \<Longrightarrow> lo_xl st m \<noteq> None \<or> numrefs st m = {}" for m
    using new(2) linvD(11) [OF inv] by (auto simp: numrefs_def)
  show ?thesis
  proof (rule linvI)
    show "lo_parts s DEFAULT_RUNE = Some default_rune"
      using parts_keptD(1) [OF s(2) linvD(2) [OF inv]] by (simp add: default_rune_def)
    have "GLOBAL \<noteq> new" "GLOBAL \<noteq> i \<or> i = 0"
      using linvD(7) [OF inv] new(2) xl_i linvD(8) [OF inv, of GLOBAL] by auto
    then show "lo_current s = ptr_val s (SLoc GLOBAL CTYPE)"
      using linvD(3) [OF inv] s(4) xl_o by simp
    show "lo_xl s 0 = None"
      using linvD(4) [OF inv] xl_o [of 0] new(1) by (cases "i = 0") simp_all
    show "lo_xl s GLOBAL \<noteq> None"
      using kept linvD(7) [OF inv] .
    obtain k where k: "lo_xl st C_LOCALE = Some k" "\<forall>c. xl_part k c = (if c = CTYPE then DEFAULT_RUNE else 0)" "xl_num_loc k = 0"
      using linvD(9) [OF inv] by blast
    have "C_LOCALE \<noteq> new" "C_LOCALE \<noteq> i \<or> i = 0"
      using k(1) new(2) xl_i linvD(8) [OF inv, of C_LOCALE] by (auto, cases "i = 0", auto)
    then show "\<exists>x. lo_xl s C_LOCALE = Some x \<and> (\<forall>c. xl_part x c = (if c = CTYPE then DEFAULT_RUNE else 0)) \<and> xl_num_loc x = 0"
      using k xl_o by auto
  next
    fix m y assume y: "lo_xl s m = Some y"
    have gc: "new \<noteq> GLOBAL" "new \<noteq> C_LOCALE"
      using linvD(7,9) [OF inv] new(2) by auto
    show "xl_perm y \<longleftrightarrow> m = GLOBAL \<or> m = C_LOCALE"
    proof (cases "m = new")
      case True
      with y xl_new gc show ?thesis by auto
    next
      case False
      obtain x where "lo_xl st m = Some x" "y = x\<lparr>xl_rc := xl_rc y\<rparr>"
        using old [OF y False] by blast
      then have "xl_perm y = xl_perm x" by (metis xlocale.select_convs(2) xlocale.surjective xlocale.update_convs(1))
      with linvD(8) [OF inv \<open>lo_xl st m = Some x\<close>] show ?thesis by simp
    qed
    show "tables_match y \<and> (xl_fp y = FP_USE_LOCALE \<longleftrightarrow> xl_num_loc y \<noteq> 0)"
    proof (cases "m = new")
      case True
      with y xl_new linvD(10) [OF inv loc] show ?thesis
        by auto
    next
      case False
      obtain x where x: "lo_xl st m = Some x" "y = x\<lparr>xl_rc := xl_rc y\<rparr>"
        using old [OF y False] by blast
      obtain k where "y = x\<lparr>xl_rc := k\<rparr>"
        using x(2) by blast
      with linvD(10) [OF inv x(1)] show ?thesis
        by auto
    qed
    show "xl_num_loc y \<notin> {} \<and> (\<exists>j. lo_xl s (xl_num_loc y) = Some j \<and> \<not> xl_perm j \<and> xl_num_loc j = 0)"
      if n: "xl_num_loc y \<noteq> 0"
    proof -
      obtain k x where x: "lo_xl st k = Some x" "xl_num_loc x = xl_num_loc y"
      proof (cases "m = new")
        case True
        with y xl_new loc that show ?thesis by auto
      next
        case False
        obtain x k where "lo_xl st m = Some x" "y = x\<lparr>xl_rc := k\<rparr>"
          using old [OF y False] by blast
        with that show ?thesis by auto
      qed
      then obtain j where j: "lo_xl st (xl_num_loc y) = Some j" "\<not> xl_perm j" "xl_num_loc j = 0"
        using linvD(11) [OF inv x(1)] n by auto
      moreover have "xl_num_loc y \<noteq> new"
        using j(1) new(2) by auto
      moreover obtain z where z: "lo_xl s (xl_num_loc y) = Some z"
        using kept [of "xl_num_loc y"] j(1) by auto
      ultimately show ?thesis
        using old [OF z] by auto
    qed
    show "xl_rc y = int (card (numrefs s m)) + (if lo_thread s = m then 1 else 0) + int ((H(new := 1)) m) \<and> 0 < xl_rc y"
      if p: "\<not> xl_perm y"
    proof (cases "m = new")
      case True
      have "numrefs st new = {}" "lo_thread st \<noteq> new"
        using no_new(2) [OF new(1)] new(2) linvD(13) [OF inv] new(1) by auto
      with True y xl_new refs [OF new(1)] i new(1) s(3) show ?thesis
        by auto
    next
      case False
      obtain x where x: "lo_xl st m = Some x" "y = x\<lparr>xl_rc := xl_rc y\<rparr>" "xl_rc y = xl_rc x + (if m = i then 1 else 0)"
        using old [OF y False] by blast
      have m0: "m \<noteq> 0"
        using x(1) linvD(4) [OF inv] by (metis option.distinct(1))
      obtain k where "y = x\<lparr>xl_rc := k\<rparr>"
        using x(2) by blast
      then have "\<not> xl_perm x"
        using p by simp
      from linvD(12) [OF inv x(1) this] have rc: "xl_rc x = int (card (numrefs st m)) + (if lo_thread st = m then 1 else 0) + int (H m)"
        "0 < xl_rc x" by auto
      have "card (numrefs s m) = card (numrefs st m) + (if m = i then 1 else 0)"
        using refs [OF m0] no_new(1) finite_numrefs [OF inv] by simp
      with rc x(3) False s(3) show ?thesis by simp
    qed
  next
    show "lo_thread s \<noteq> 0 \<Longrightarrow> lo_xl s (lo_thread s) \<noteq> None \<and> lo_thread s \<notin> {}"
      using linvD(13) [OF inv] kept s(3) by simp
  next
    fix m assume h: "0 < (H(new := 1)) m"
    show "m \<notin> {} \<and> (\<exists>y. lo_xl s m = Some y \<and> \<not> xl_perm y)"
    proof (cases "m = new")
      case True
      with xl_new show ?thesis by simp
    next
      case False
      then obtain x where x: "lo_xl st m = Some x" "\<not> xl_perm x"
        using linvD(14) [OF inv, of m] h by auto
      then obtain y where y: "lo_xl s m = Some y"
        using kept [of m] by auto
      from old [OF y False] x y show ?thesis by auto
    qed
  qed (use s(1) in simp_all)
qed


lemma parts_kept_xl [simp]:
  "parts_kept st (s\<lparr>lo_xl := m\<rparr>) = parts_kept st s" "parts_kept (st\<lparr>lo_xl := m\<rparr>) s = parts_kept st s"
  by (simp_all add: parts_kept_def)

text \<open>A copy has the tables of the original, and is a reference to it for its caller.\<close>

lemma duplocale_int_ok:
  assumes inv: "linv {} H st" and E: "lc_env_ok E" and b: "b = (if l = 0 then current_locale st else l)" "lo_xl st b = Some loc"
  obtains (no_memory) "duplocale_int E l st = Some (0, st)"
    | (copied) new s where "duplocale_int E l st = Some (new, s)" "new \<noteq> 0" "lo_xl st new = None" "linv {} (H(new := 1)) s"
      "lo_xl s new = Some (loc\<lparr>xl_rc := 1, xl_perm := False\<rparr>)" "lo_thread s = lo_thread st" "lo_path s = lo_path st"
      "parts_kept st s" "\<And>m y. lo_xl s m = Some y \<Longrightarrow> m \<noteq> new \<Longrightarrow> \<exists>x. lo_xl st m = Some x \<and> x\<lparr>xl_rc := xl_rc y\<rparr> = y"
      "\<And>m. lo_xl st m \<noteq> None \<Longrightarrow> lo_xl s m \<noteq> None"
proof (cases "le_loc E st = 0")
  case True
  then show ?thesis
    using no_memory by (simp add: duplocale_int_def)
next
  case False
  define new where "new = le_loc E st"
  have new: "new \<noteq> 0" "lo_xl st new = None"
    using False env_okD(2) [OF E, of st] by (simp_all add: new_def)
  define i where "i = xl_num_loc loc"
  let ?copy = "loc\<lparr>xl_rc := 1, xl_perm := False\<rparr>"
  let ?s = "st\<lparr>lo_xl := (lo_xl st)(new \<mapsto> ?copy)\<rparr>"
  have cnt: "counts (uncounted loc UNIV) ?s"
    by (rule copy_counts [OF linvD(1) [OF inv] new(2) b(2)])
  have "\<exists>s. duplocale_int E l st = Some (new, s) \<and> balanced s \<and> parts_kept st s \<and>
      lo_thread s = lo_thread st \<and> lo_current s = lo_current st \<and> lo_path s = lo_path st \<and>
      lo_xl s = (let m = (lo_xl st)(new \<mapsto> ?copy); i = xl_num_loc loc
         in if i = 0 then m else m(i := map_option (\<lambda>x. x\<lparr>xl_rc := xl_rc x + 1\<rparr>) (m i)))"
  proof (cases "b = C_LOCALE")
    case True
    then have k: "\<forall>c. xl_part loc c = (if c = CTYPE then DEFAULT_RUNE else 0)" "xl_num_loc loc = 0"
      using linvD(9) [OF inv] b(2) by auto
    have "balanced ?s"
    proof (rule counts_cong [OF cnt])
      fix p x assume x: "lo_parts ?s p = Some x" "\<not> pt_perm x"
      then have "p \<noteq> DEFAULT_RUNE"
        using linvD(2) [OF inv] by (auto simp: default_rune_def)
      moreover have "p \<noteq> 0"
        using x(1) countsD(2) [OF linvD(1) [OF inv]] by (cases "p = 0") auto
      ultimately have "{c. xl_part loc c = p} = {}"
        using k(1) by auto
      then show "uncounted loc UNIV p = 0"
        by (simp add: uncounted_def)
    qed
    moreover have "duplocale_int E l st = Some (new, ?s)"
      using False True b by (simp add: duplocale_int_def new_def Let_def)
    ultimately show ?thesis
      using k(2) by simp
  next
    case nc: False
    obtain s1 P1 where s1: "xl_retain (xl_part loc COLLATE) ?s = Some s1" "counts (uncounted loc (UNIV - {COLLATE})) s1"
      "s1 = ?s\<lparr>lo_parts := P1\<rparr>" "parts_kept ?s s1"
      by (rule retain_copy [OF cnt, of COLLATE new]) auto
    obtain s2 P2 where s2: "xl_retain (xl_part loc CTYPE) s1 = Some s2" "counts (uncounted loc (UNIV - {COLLATE} - {CTYPE})) s2"
      "s2 = s1\<lparr>lo_parts := P2\<rparr>" "parts_kept s1 s2"
      by (rule retain_copy [OF s1(2), of CTYPE new]) (auto simp: s1(3))
    obtain s3 P3 where s3: "xl_retain (xl_part loc MESSAGES) s2 = Some s3"
      "counts (uncounted loc (UNIV - {COLLATE} - {CTYPE} - {MESSAGES})) s3" "s3 = s2\<lparr>lo_parts := P3\<rparr>" "parts_kept s2 s3"
      by (rule retain_copy [OF s2(2), of MESSAGES new]) (auto simp: s1(3) s2(3))
    obtain s4 P4 where s4: "xl_retain (xl_part loc MONETARY) s3 = Some s4"
      "counts (uncounted loc (UNIV - {COLLATE} - {CTYPE} - {MESSAGES} - {MONETARY})) s4" "s4 = s3\<lparr>lo_parts := P4\<rparr>" "parts_kept s3 s4"
      by (rule retain_copy [OF s3(2), of MONETARY new]) (auto simp: s1(3) s2(3) s3(3))
    obtain s5 P5 where s5: "xl_retain (xl_part loc NUMERIC) s4 = Some s5"
      "counts (uncounted loc (UNIV - {COLLATE} - {CTYPE} - {MESSAGES} - {MONETARY} - {NUMERIC})) s5" "s5 = s4\<lparr>lo_parts := P5\<rparr>"
      "parts_kept s4 s5"
      by (rule retain_copy [OF s4(2), of NUMERIC new]) (auto simp: s1(3) s2(3) s3(3) s4(3))
    have s5': "s5 = ?s\<lparr>lo_parts := P5\<rparr>"
      using s1(3) s2(3) s3(3) s4(3) s5(3) by simp
    define s6 where "s6 = (if i = 0 then s5 else upd_loc i (\<lambda>x. x\<lparr>xl_rc := xl_rc x + 1\<rparr>) s5)"
    have "i \<noteq> new" if "i \<noteq> 0"
      using linvD(11) [OF inv b(2)] that new(2) by (auto simp: i_def)
    then have ret: "xl_retain_loc i s5 = Some s6"
      using linvD(11) [OF inv b(2)] by (auto simp: xl_retain_loc_def s6_def s5' i_def)
    have "counts (uncounted loc (UNIV - {COLLATE} - {CTYPE} - {MESSAGES} - {MONETARY} - {NUMERIC})) s6"
      using s5(2) by (simp add: s6_def balanced_upd_loc)
    then obtain s7 P7 where s7: "xl_retain (xl_part loc TIME) s6 = Some s7"
      "counts (uncounted loc (UNIV - {COLLATE} - {CTYPE} - {MESSAGES} - {MONETARY} - {NUMERIC} - {TIME})) s7"
      "s7 = s6\<lparr>lo_parts := P7\<rparr>" "parts_kept s6 s7"
    proof (rule retain_copy [of loc _ s6 TIME new])
      show "ptr_val s6 (SLoc new TIME) = xl_part loc TIME"
        using \<open>i \<noteq> 0 \<Longrightarrow> i \<noteq> new\<close> by (auto simp: s6_def s5')
    qed (auto intro: that)
    have e: "UNIV - {COLLATE} - {CTYPE} - {MESSAGES} - {MONETARY} - {NUMERIC} - {TIME} = {}"
      by (auto simp: UNIV_cat)
    have "uncounted loc (UNIV - {COLLATE} - {CTYPE} - {MESSAGES} - {MONETARY} - {NUMERIC} - {TIME}) = (\<lambda>_. 0)"
      unfolding e uncounted_def by simp
    then have "balanced s7"
      using s7(2) by simp
    moreover have "duplocale_int E l st = Some (new, s7)"
      using False nc b s1(1) s2(1) s3(1) s4(1) s5(1) ret s7(1) by (simp add: duplocale_int_def Let_def new_def i_def)
    moreover have "parts_kept st s7"
    proof -
      have "parts_kept ?s s5"
        using s1(4) s2(4) s3(4) s4(4) s5(4) parts_kept_trans by blast
      moreover have "parts_kept s5 s6"
        by (simp add: s6_def parts_kept_def)
      ultimately have "parts_kept ?s s7"
        using s7(4) parts_kept_trans by blast
      then show ?thesis by simp
    qed
    ultimately show ?thesis
      by (auto simp: s7(3) s6_def s5' i_def Let_def)
  qed
  then obtain s where s: "duplocale_int E l st = Some (new, s)" "balanced s" "parts_kept st s"
    "lo_thread s = lo_thread st" "lo_current s = lo_current st" "lo_path s = lo_path st"
    "lo_xl s = (let m = (lo_xl st)(new \<mapsto> ?copy); i = xl_num_loc loc
         in if i = 0 then m else m(i := map_option (\<lambda>x. x\<lparr>xl_rc := xl_rc x + 1\<rparr>) (m i)))"
    by blast
  have i: "i \<noteq> new" if "i \<noteq> 0"
    using linvD(11) [OF inv b(2)] that new(2) by (auto simp: i_def)
  have "lo_xl s new = Some ?copy"
    using s(7) i by (auto simp: Let_def i_def)
  moreover have "\<exists>x. lo_xl st m = Some x \<and> x\<lparr>xl_rc := xl_rc y\<rparr> = y" if "lo_xl s m = Some y" "m \<noteq> new" for m y
    using that unfolding s(7) by (cases "xl_num_loc loc = 0"; cases "m = xl_num_loc loc") (auto simp: Let_def)
  moreover have "lo_xl s m \<noteq> None" if "lo_xl st m \<noteq> None" for m
    using that s(7) by (auto simp: Let_def)
  ultimately show ?thesis
    using copied [OF s(1) new copy_linv [OF inv new b(2) s(2-5,7)]] s(3,4,6) by blast
qed

end
