(* ===== verification/Locale_Safety.thy ===== *)
theory Locale_Safety
  imports Locale_Objects
begin

text \<open>
  What the calls on locales do for their callers (\<open>xlocale.c\<close>): as long as a caller only passes
  locales that it holds, that the thread uses, or that are there for ever, no call follows a
  pointer to freed memory, every count stays exact, and each locale has the names that it was
  given.
\<close>

section \<open>Locales that may be passed\<close>

text \<open>\<open>h\<close> counts what a caller holds: the results of \<open>newlocale\<close> and \<open>duplocale\<close> not yet freed.\<close>

definition visible :: "(nat \<Rightarrow> nat) \<Rightarrow> locs \<Rightarrow> nat \<Rightarrow> bool" where
  "visible h st l \<longleftrightarrow> l = GLOBAL \<or> l = C_LOCALE \<or> (l \<noteq> 0 \<and> l = lo_thread st) \<or> 0 < h l"

text \<open>No caller has the locale that another locale holds for numbers.\<close>

definition hidden :: "(nat \<Rightarrow> nat) \<Rightarrow> locs \<Rightarrow> bool" where
  "hidden h st \<longleftrightarrow> (\<forall>l x. lo_xl st l = Some x \<and> xl_num_loc x \<noteq> 0 \<longrightarrow>
     h (xl_num_loc x) = 0 \<and> lo_thread st \<noteq> xl_num_loc x)"

definition locs_ok :: "(nat \<Rightarrow> nat) \<Rightarrow> locs \<Rightarrow> bool" where
  "locs_ok h st \<longleftrightarrow> linv {} h st \<and> hidden h st"

lemma locs_okD: "locs_ok h st \<Longrightarrow> linv {} h st" "locs_ok h st \<Longrightarrow> hidden h st"
  by (simp_all add: locs_ok_def)

lemma visible_alloc: "linv {} h st \<Longrightarrow> visible h st l \<Longrightarrow> \<exists>x. lo_xl st l = Some x"
  unfolding visible_def using linvD(7,9,13,14) by blast

lemma visible_nonzero: "linv {} h st \<Longrightarrow> visible h st l \<Longrightarrow> l \<noteq> 0"
  by (metis visible_alloc linvD(4) option.distinct(1))

lemma visible_no_inner:
  assumes "locs_ok h st" "visible h st l" "lo_xl st m = Some x" "xl_num_loc x \<noteq> 0"
  shows "xl_num_loc x \<noteq> l"
proof
  assume l: "xl_num_loc x = l"
  obtain i where i: "lo_xl st l = Some i" "\<not> xl_perm i"
    using linvD(11) [OF locs_okD(1) [OF assms(1)] assms(3,4)] l by auto
  have "h l = 0" "lo_thread st \<noteq> l"
    using locs_okD(2) [OF assms(1)] assms(3,4) l by (auto simp: hidden_def)
  moreover have "l \<noteq> GLOBAL" "l \<noteq> C_LOCALE"
    using linvD(8) [OF locs_okD(1) [OF assms(1)] i(1)] i(2) by auto
  ultimately show False
    using assms(2) by (auto simp: visible_def)
qed

lemma visible_numrefs:
  assumes "locs_ok h st" "visible h st l"
  shows "numrefs st l = {}"
  using visible_no_inner [OF assms] visible_nonzero [OF locs_okD(1) [OF assms(1)] assms(2)]
  by (auto simp: numrefs_def)

lemma encoding_defined:
  assumes "linv {} H st" "lo_xl st l = Some x"
  shows "\<exists>e. locale_encoding st l c = Some e"
proof -
  have "tables_match x"
    using linvD(10) [OF assms] by simp
  then have "xl_part x c \<noteq> 0" if "c = CTYPE \<or> xl_using x c"
    using that unfolding tables_match_def by metis
  then have "\<exists>y. lo_parts st (xl_part x c) = Some y" if "c = CTYPE \<or> xl_using x c"
    using that countsD(3) [OF linvD(1) [OF assms(1)], of "SLoc l c"] assms(2) by auto
  then show ?thesis
    using assms(2) by (auto simp: locale_encoding_def)
qed

text \<open>A step that leaves the tables of a locale in place leaves its names alone.\<close>

lemma encoding_same:
  assumes inv: "linv {} H st" "linv {} H' st'" and x: "lo_xl st m = Some x" "lo_xl st' m = Some y"
    and same: "xl_part y c = xl_part x c" "xl_using y c = xl_using x c"
    and parts: "\<And>p a b. lo_parts st p = Some a \<Longrightarrow> lo_parts st' p = Some b \<Longrightarrow> same_part a b"
  shows "locale_encoding st' m c = locale_encoding st m c"
proof (cases "c = CTYPE \<or> xl_using x c")
  case True
  have "tables_match x"
    using linvD(10) [OF inv(1) x(1)] by simp
  then have p: "xl_part x c \<noteq> 0"
    using True unfolding tables_match_def by metis
  obtain a where a: "lo_parts st (xl_part x c) = Some a"
    using countsD(3) [OF linvD(1) [OF inv(1)], of "SLoc m c"] x(1) p by auto
  obtain b where b: "lo_parts st' (xl_part x c) = Some b"
    using countsD(3) [OF linvD(1) [OF inv(2)], of "SLoc m c"] x(2) p same(1) by auto
  have "pt_name b = pt_name a"
    using parts [OF a b] by (simp add: same_part_def)
  with a b x same True show ?thesis
    by (cases "c = CTYPE") (auto simp: locale_encoding_def)
next
  case False
  with x same show ?thesis
    by (simp add: locale_encoding_def)
qed

definition names_kept :: "nat set \<Rightarrow> locs \<Rightarrow> locs \<Rightarrow> bool" where
  "names_kept V st st' \<longleftrightarrow> (\<forall>m \<in> V. lo_xl st m \<noteq> None \<longrightarrow>
     lo_xl st' m \<noteq> None \<and> (\<forall>c. locale_encoding st' m c = locale_encoding st m c))"

lemma names_kept_refl [simp]: "names_kept V st st"
  by (simp add: names_kept_def)

lemma names_kept_trans: "names_kept V st st' \<Longrightarrow> names_kept V st' st'' \<Longrightarrow> names_kept V st st''"
  by (simp add: names_kept_def)

text \<open>The locales for numbers are among those there were.\<close>

definition num_kept :: "locs \<Rightarrow> locs \<Rightarrow> bool" where
  "num_kept st st' \<longleftrightarrow> lo_thread st' = lo_thread st \<and>
     (\<forall>m y. lo_xl st' m = Some y \<longrightarrow> (\<exists>x. lo_xl st m = Some x \<and> (xl_num_loc y = xl_num_loc x \<or> xl_num_loc y = 0)))"

lemma num_kept_refl [simp]: "num_kept st st"
  by (auto simp: num_kept_def)

lemma num_keptD:
  "num_kept st st' \<Longrightarrow> lo_xl st' m = Some y \<Longrightarrow>
     \<exists>x. lo_xl st m = Some x \<and> (xl_num_loc y = xl_num_loc x \<or> xl_num_loc y = 0)"
  by (simp add: num_kept_def)

lemma num_kept_trans:
  assumes "num_kept st st'" "num_kept st' st''"
  shows "num_kept st st''"
  unfolding num_kept_def
proof (intro conjI allI impI)
  show "lo_thread st'' = lo_thread st"
    using assms by (simp add: num_kept_def)
  fix m z assume "lo_xl st'' m = Some z"
  then obtain y where y: "lo_xl st' m = Some y" "xl_num_loc z = xl_num_loc y \<or> xl_num_loc z = 0"
    using num_keptD [OF assms(2)] by blast
  then obtain x where "lo_xl st m = Some x" "xl_num_loc y = xl_num_loc x \<or> xl_num_loc y = 0"
    using num_keptD [OF assms(1)] by blast
  with y(2) show "\<exists>x. lo_xl st m = Some x \<and> (xl_num_loc z = xl_num_loc x \<or> xl_num_loc z = 0)"
    by auto
qed

lemma shrinksD:
  assumes "shrinks st st'" "lo_xl st' m = Some y"
  obtains x k where "lo_xl st m = Some x" "y = x\<lparr>xl_rc := k\<rparr>"
proof -
  obtain x where "lo_xl st m = Some x" "x\<lparr>xl_rc := xl_rc y\<rparr> = y"
    using assms unfolding shrinks_def by blast
  then show ?thesis
    using that by metis
qed

lemma hidden_num_kept:
  assumes "hidden h st" "num_kept st st'" "\<And>l. h' l \<le> h l"
  shows "hidden h' st'"
  unfolding hidden_def
proof (intro allI impI)
  fix l y assume y: "lo_xl st' l = Some y \<and> xl_num_loc y \<noteq> 0"
  then obtain x where x: "lo_xl st l = Some x" "xl_num_loc y = xl_num_loc x"
    using num_keptD [OF assms(2), of l y] by auto
  then have "h (xl_num_loc x) = 0" "lo_thread st \<noteq> xl_num_loc x"
    using assms(1) y by (auto simp: hidden_def)
  then show "h' (xl_num_loc y) = 0 \<and> lo_thread st' \<noteq> xl_num_loc y"
    using x(2) assms(2,3) by (metis le_zero_eq num_kept_def)
qed

section \<open>The steps\<close>

lemma shrinks_num_kept:
  assumes "shrinks st st'"
  shows "num_kept st st'"
  unfolding num_kept_def
proof (intro conjI allI impI)
  show "lo_thread st' = lo_thread st"
    using assms by (simp add: shrinks_def)
  fix m y assume "lo_xl st' m = Some y"
  then show "\<exists>x. lo_xl st m = Some x \<and> (xl_num_loc y = xl_num_loc x \<or> xl_num_loc y = 0)"
    by (rule shrinksD [OF assms]) simp
qed

lemma release_names_kept:
  assumes "linv {} H st" "linv {} H' st'" "shrinks st st'" "\<And>m. m \<in> V \<Longrightarrow> lo_xl st m \<noteq> None \<Longrightarrow> lo_xl st' m \<noteq> None"
  shows "names_kept V st st'"
  unfolding names_kept_def
proof (intro ballI impI conjI allI)
  fix m c assume m: "m \<in> V" "lo_xl st m \<noteq> None"
  then show "lo_xl st' m \<noteq> None"
    by (rule assms(4))
  then obtain y where y: "lo_xl st' m = Some y"
    by blast
  then obtain x k where x: "lo_xl st m = Some x" "y = x\<lparr>xl_rc := k\<rparr>"
    using shrinksD [OF assms(3)] by blast
  then show "locale_encoding st' m c = locale_encoding st m c"
    by (intro encoding_same [OF assms(1,2) x(1) y])
      (use assms(3) parts_keptD(2) in \<open>auto simp: shrinks_def\<close>)
qed

lemma load_linv:
  assumes inv: "linv {} H st" and spec: "load_spec E l c name st (r, st')" and l: "l \<noteq> C_LOCALE"
  shows "linv {} H st'"
proof -
  have ok: "parts_ok st'"
    using spec by (simp add: load_spec_def)
  obtain x y where x: "lo_xl st l = Some x" "lo_xl st' = (lo_xl st)(l \<mapsto> y)" "xl_rc y = xl_rc x" "xl_perm y = xl_perm x"
    "xl_fp y = xl_fp x" "xl_num_loc y = xl_num_loc x"
    and rest: "lo_thread st' = lo_thread st"
    using spec by (auto simp: load_spec_def load_frame_def)
  have refs: "numrefs st' p = numrefs st p" for p
    using numrefs_upd [OF x(2), of p] x(1,6) by (auto simp: numrefs_def)
  show ?thesis
  proof (rule linvI)
    show "balanced st'" "lo_parts st' DEFAULT_RUNE = Some default_rune" "lo_current st' = ptr_val st' (SLoc GLOBAL CTYPE)"
      using parts_okD [OF ok] by auto
    show "lo_xl st' 0 = None"
      using x(1,2) linvD(4) [OF inv] by (cases "l = 0") auto
    show "lo_xl st' GLOBAL \<noteq> None"
      using x(2) linvD(7) [OF inv] by simp
    show "\<exists>k. lo_xl st' C_LOCALE = Some k \<and> (\<forall>c. xl_part k c = (if c = CTYPE then DEFAULT_RUNE else 0)) \<and> xl_num_loc k = 0"
      using x(2) linvD(9) [OF inv] l by auto
  next
    fix m z assume z: "lo_xl st' m = Some z"
    obtain w where w: "lo_xl st m = Some w" "xl_rc z = xl_rc w" "xl_perm z = xl_perm w" "xl_fp z = xl_fp w" "xl_num_loc z = xl_num_loc w"
      using z x by (cases "m = l") auto
    show "xl_perm z \<longleftrightarrow> m = GLOBAL \<or> m = C_LOCALE"
      using linvD(8) [OF inv w(1)] w(3) by simp
    have "tables_match z"
      using ok z unfolding parts_ok_def tables_match_def by blast
    then show "tables_match z \<and> (xl_fp z = FP_USE_LOCALE \<longleftrightarrow> xl_num_loc z \<noteq> 0)"
      using linvD(10) [OF inv w(1)] w(4,5) by simp
    show "xl_num_loc z \<notin> {} \<and> (\<exists>i. lo_xl st' (xl_num_loc z) = Some i \<and> \<not> xl_perm i \<and> xl_num_loc i = 0)"
      if "xl_num_loc z \<noteq> 0"
      using linvD(11) [OF inv w(1)] that w(5) x by auto
    show "xl_rc z = int (card (numrefs st' m)) + (if lo_thread st' = m then 1 else 0) + int (H m) \<and> 0 < xl_rc z"
      if "\<not> xl_perm z"
      using linvD(12) [OF inv w(1)] that w(2,3) refs rest by simp
  next
    show "lo_thread st' \<noteq> 0 \<Longrightarrow> lo_xl st' (lo_thread st') \<noteq> None \<and> lo_thread st' \<notin> {}"
      using linvD(13) [OF inv] rest x(2) by auto
  next
    fix m assume "0 < H m"
    then show "m \<notin> {} \<and> (\<exists>z. lo_xl st' m = Some z \<and> \<not> xl_perm z)"
      using linvD(14) [OF inv, of m] x by auto
  qed auto
qed

lemma load_effects:
  assumes inv: "linv {} H st" and spec: "load_spec E l c name st (r, st')" and l: "l \<noteq> C_LOCALE" "l \<notin> V"
  shows "num_kept st st'" "names_kept V st st'" "lo_path st' = lo_path st" "lo_xl st' l \<noteq> None"
    "\<And>d. d \<noteq> c \<Longrightarrow> locale_encoding st' l d = locale_encoding st l d"
proof -
  have inv': "linv {} H st'"
    by (rule load_linv [OF inv spec l(1)])
  obtain x y where x: "lo_xl st l = Some x" "lo_xl st' = (lo_xl st)(l \<mapsto> y)" "xl_num_loc y = xl_num_loc x"
    "\<And>d. d \<noteq> c \<Longrightarrow> xl_using y d = xl_using x d \<and> xl_part y d = xl_part x d"
    and rest: "lo_thread st' = lo_thread st" "lo_path st' = lo_path st"
    and parts: "\<And>p a b. lo_parts st p = Some a \<Longrightarrow> lo_parts st' p = Some b \<Longrightarrow> same_part a b"
    using spec by (auto simp: load_spec_def load_frame_def)
  show "num_kept st st'"
    using x rest by (auto simp: num_kept_def)
  show "lo_path st' = lo_path st" "lo_xl st' l \<noteq> None"
    using rest x(2) by simp_all
  show "locale_encoding st' l d = locale_encoding st l d" if "d \<noteq> c" for d
    by (rule encoding_same [OF inv inv' x(1), of y]) (use x(2,4) that parts in auto)
  show "names_kept V st st'"
    unfolding names_kept_def
  proof (intro ballI impI conjI allI)
    fix m d assume m: "m \<in> V" "lo_xl st m \<noteq> None"
    then have "m \<noteq> l" using l(2) by blast
    then show "lo_xl st' m \<noteq> None"
      using m x(2) by simp
    obtain z where z: "lo_xl st m = Some z"
      using m by blast
    then show "locale_encoding st' m d = locale_encoding st m d"
      by (intro encoding_same [OF inv inv' z, of z]) (use x(2) \<open>m \<noteq> l\<close> parts in auto)
  qed
qed


lemma after_load_ok:
  assumes inv: "linv {} H st" and x: "lo_xl st l = Some x" and V: "l \<notin> V" "xl_num_loc x \<noteq> 0 \<Longrightarrow> xl_num_loc x \<notin> V"
  obtains st' where "after_load c l st = Some st'" "linv {} H st'" "num_kept st st'" "names_kept (insert l V) st st'"
    "lo_path st' = lo_path st"
proof (cases "c = NUMERIC")
  case True
  define i where "i = xl_num_loc x"
  let ?f = "\<lambda>x. x\<lparr>xl_fp := FP_UNINITIALIZED, xl_num_loc := 0\<rparr>"
  define s where "s = upd_loc l ?f st"
  define Hi where "Hi = (if i = 0 then H else H(i := H i + 1))"
  have inv': "linv {} Hi s"
    using clear_num_linv [OF inv x, of ?f] unfolding Hi_def i_def s_def by blast
  have num: "num_kept st s"
    using x by (auto simp: num_kept_def s_def)
  have names: "names_kept (insert l V) st s"
    unfolding names_kept_def
  proof (intro ballI impI conjI allI)
    fix m d assume "lo_xl st m \<noteq> None"
    then obtain z where z: "lo_xl st m = Some z" by blast
    show "lo_xl s m \<noteq> None"
      using z by (cases "m = l") (simp_all add: s_def)
    have y: "lo_xl s m = Some (if m = l then ?f z else z)"
      using z by (cases "m = l") (simp_all add: s_def)
    show "locale_encoding s m d = locale_encoding st m d"
      by (rule encoding_same [OF inv inv' z y]) (auto simp: s_def)
  qed
  have start: "after_load c l st = do { (freed, st) \<leftarrow> xl_release_loc NESTING i s; Some st }"
    using x True by (simp add: after_load_def i_def s_def)
  show ?thesis
  proof (cases "i = 0")
    case True
    then have "after_load c l st = Some s"
      unfolding start by (subst xl_release_loc.simps) simp
    with that [of s] inv' num names True show ?thesis
      by (simp add: Hi_def s_def)
  next
    case False
    obtain y where y: "lo_xl st i = Some y" "xl_num_loc y = 0"
      using linvD(11) [OF inv x] False by (auto simp: i_def)
    have "i \<noteq> l"
      using x y False by (auto simp: i_def)
    then have y': "lo_xl s i = Some y"
      using y(1) by (simp add: s_def)
    have "0 < Hi i"
      using False by (simp add: Hi_def)
    then obtain freed st' where st': "xl_release_loc NESTING i s = Some (freed, st')" "linv {} (Hi(i := Hi i - 1)) st'"
      "shrinks s st'" "\<forall>m. lo_xl s m \<noteq> None \<and> m \<noteq> i \<and> m \<noteq> xl_num_loc y \<longrightarrow> lo_xl st' m \<noteq> None"
      using release_loc_linv [OF inv' _ y', of NESTING] y(2) by (auto simp: NESTING_def)
    have H: "Hi(i := Hi i - 1) = H"
      using False by (simp add: Hi_def)
    have fin: "linv {} H st'"
      using st'(2) unfolding H .
    have "names_kept (insert l V) s st'"
    proof (rule release_names_kept [OF inv' fin st'(3)])
      fix m assume m: "m \<in> insert l V" "lo_xl s m \<noteq> None"
      then have "m \<noteq> i"
        using V(2) False \<open>i \<noteq> l\<close> by (auto simp: i_def)
      moreover have "m \<noteq> 0"
        using m(2) linvD(4) [OF inv'] by metis
      ultimately have "m \<noteq> i" "m \<noteq> 0"
        by simp_all
      then show "lo_xl st' m \<noteq> None"
        using st'(4) m(2) y(2) by simp
    qed
    then have "names_kept (insert l V) st st'"
      by (rule names_kept_trans [OF names])
    moreover have "num_kept st st'"
      by (rule num_kept_trans [OF num shrinks_num_kept [OF st'(3)]])
    moreover have "lo_path st' = lo_path st"
      using st'(3) by (simp add: shrinks_def s_def)
    moreover have "after_load c l st = Some st'"
      unfolding start st'(1) by simp
    ultimately show ?thesis
      using that fin by blast
  qed
next
  case nn: False
  show ?thesis
  proof (cases "c = CTYPE")
    case False
    then have "after_load c l st = Some st"
      using nn by (cases c) (simp_all add: after_load_def)
    then show ?thesis
      using that inv by simp
  next
    case True
    let ?f = "\<lambda>x. if xl_fp x = FP_SAME_LOCALE then x\<lparr>xl_fp := FP_UNINITIALIZED\<rparr> else x"
    let ?s = "upd_loc l ?f st"
    have refs: "numrefs ?s p = numrefs st p" for p
      by (rule numrefs_same) simp
    have inv': "linv {} H ?s"
    proof (rule linv_upd [OF inv x])
      show "xl_fp (?f x) = FP_USE_LOCALE \<longleftrightarrow> xl_num_loc (?f x) \<noteq> 0"
        using linvD(10) [OF inv x] by auto
      show "\<not> xl_perm x \<Longrightarrow> l \<notin> {} \<Longrightarrow> 0 < xl_rc (?f x)"
        using linvD(12) [OF inv x] by auto
      show "\<And>m. 0 < H m \<Longrightarrow> m \<notin> {} \<and> (\<exists>y. lo_xl st m = Some y \<and> \<not> xl_perm y)"
        by (rule linvD(14) [OF inv])
    qed (auto simp: refs simp del: upd_loc_simps)
    have "names_kept (insert l V) st ?s"
      unfolding names_kept_def
    proof (intro ballI impI conjI allI)
      fix m d assume "lo_xl st m \<noteq> None"
      then obtain z where z: "lo_xl st m = Some z" by blast
      have z': "lo_xl ?s m = Some (if m = l then ?f z else z)"
        using z by (cases "m = l") simp_all
      then show "lo_xl ?s m \<noteq> None" by simp
      show "locale_encoding ?s m d = locale_encoding st m d"
        by (rule encoding_same [OF inv inv' z z']) auto
    qed
    moreover have "num_kept st ?s"
      using x by (auto simp: num_kept_def)
    moreover have "after_load c l st = Some ?s"
      using True by (simp add: after_load_def)
    moreover have "lo_path ?s = lo_path st"
      by simp
    ultimately show ?thesis
      using that inv' by blast
  qed
qed

lemma load_category_spec:
  assumes "linv {} H st" "lc_env_ok E" "lo_xl st l \<noteq> None" "lo_path st \<noteq> None"
  obtains r st' where "load_category c E name l st = Some (r, st')" "load_spec E l c name st (r, st')"
proof -
  note spec = loaders_spec [OF linv_parts_ok [OF assms(1)] assms(2-4), of name]
    collate_load_tables_spec [OF linv_parts_ok [OF assms(1)] assms(2-4), of name]
    wrap_setrunelocale_spec [OF linv_parts_ok [OF assms(1)] assms(2-4), of name]
  have "\<exists>res. load_category c E name l st = Some res \<and> load_spec E l c name st res"
    using spec by (cases c) (simp_all add: load_category_def)
  then show ?thesis
    using that by auto
qed

text \<open>The name that a category gets: that of the C locale has two spellings.\<close>

definition named :: "lc_env \<Rightarrow> string \<Rightarrow> cat \<Rightarrow> string option \<Rightarrow> bool" where
  "named E name c e \<longleftrightarrow>
     (let enc = (if name = [] then get_locale_env E c else name)
      in e = Some enc \<or> is_c_name enc \<and> e = Some ''C'')"

lemma modify_loop_ok:
  assumes "linv {} H st" "lc_env_ok E" "lo_xl st l = Some x" "lo_path st \<noteq> None" "l \<noteq> C_LOCALE" "l \<notin> V"
    "xl_num_loc x \<noteq> 0 \<Longrightarrow> xl_num_loc x \<notin> V" "distinct cs"
  shows "\<exists>r st'. modify_loop E l msk name cs st = Some (r, st') \<and> linv {} H st' \<and> num_kept st st' \<and> names_kept V st st' \<and>
    lo_xl st' l \<noteq> None \<and>
    (\<forall>c. c \<notin> set cs \<or> \<not> msk c \<longrightarrow> locale_encoding st' l c = locale_encoding st l c) \<and>
    (r = None \<longrightarrow> (\<forall>c \<in> set cs. msk c \<longrightarrow> named E name c (locale_encoding st' l c)))"
  using assms
proof (induction cs arbitrary: st x)
  case (Cons c cs)
  note inv = Cons.prems(1) and x = Cons.prems(3)
  show ?case
  proof (cases "msk c")
    case False
    then show ?thesis
      using Cons.IH [OF inv Cons.prems(2,3,4,5,6,7)] Cons.prems(8) by fastforce
  next
    case True
    define enc where "enc = (if name = [] then get_locale_env E c else name)"
    obtain oenc where oenc: "locale_encoding st l c = Some oenc"
      using encoding_defined [OF inv x] by blast
    have step: "modify_loop E l msk name (c # cs) st =
        (if name = [] \<and> \<not> checkencoding (Some enc) then Some (Some EINVAL, st)
         else if enc = oenc then modify_loop E l msk name cs st
         else do { (r, st) \<leftarrow> load_category c E enc l st;
            (case r of LDP_ERROR e \<Rightarrow> Some (Some e, st)
             | _ \<Rightarrow> do { st \<leftarrow> after_load c l st; modify_loop E l msk name cs st }) })"
      unfolding enc_def by (subst modify_loop.simps) (simp only: True oenc Let_def option.simps if_True bind.simps not_True_eq_False if_False)
    show ?thesis
    proof (cases "name = [] \<and> \<not> checkencoding (Some enc)")
      case True
      then have "modify_loop E l msk name (c # cs) st = Some (Some EINVAL, st)"
        unfolding step by simp
      then show ?thesis
        using inv x by simp
    next
      case ok: False
      show ?thesis
      proof (cases "enc = oenc")
        case True
        obtain r st' where st': "modify_loop E l msk name cs st = Some (r, st')" "linv {} H st'" "num_kept st st'"
          "names_kept V st st'" "lo_xl st' l \<noteq> None"
          "\<And>c. c \<notin> set cs \<or> \<not> msk c \<Longrightarrow> locale_encoding st' l c = locale_encoding st l c"
          "r = None \<Longrightarrow> c \<in> set cs \<Longrightarrow> msk c \<Longrightarrow> named E name c (locale_encoding st' l c)" for c
          using Cons.IH [OF inv Cons.prems(2,3,4,5,6,7)] Cons.prems(8) by auto
        have "locale_encoding st' l c = Some enc"
          using st'(6) [of c] Cons.prems(8) oenc True by simp
        then have "named E name c (locale_encoding st' l c)"
          by (simp add: named_def enc_def Let_def)
        then show ?thesis
          using st' step ok True by (intro exI [of _ r] exI [of _ st']) auto
      next
        case ne: False
        obtain r s where s: "load_category c E enc l st = Some (r, s)" "load_spec E l c enc st (r, s)"
          using load_category_spec [OF inv Cons.prems(2) _ Cons.prems(4)] x by blast
        have invs: "linv {} H s"
          by (rule load_linv [OF inv s(2) Cons.prems(5)])
        note eff = load_effects [OF inv s(2) Cons.prems(5,6)]
        show ?thesis
        proof (cases "\<exists>e. r = LDP_ERROR e")
          case True
          then obtain e where e: "r = LDP_ERROR e" by blast
          then have "s = st"
            using s(2) by (simp add: load_spec_def)
          moreover have "modify_loop E l msk name (c # cs) st = Some (Some e, s)"
            unfolding step using ok ne s(1) e by auto
          ultimately show ?thesis
            using inv x by simp
        next
          case False
          then have enc: "locale_encoding s l c = Some (if is_c_name enc then ''C'' else enc)"
            using s(2) by (cases r) (auto simp: load_spec_def)
          obtain y where y: "lo_xl s l = Some y"
            using eff(4) by blast
          then have ynum: "xl_num_loc y \<noteq> 0 \<Longrightarrow> xl_num_loc y \<notin> V"
            using num_keptD [OF eff(1) y] x Cons.prems(7) by auto
          obtain s' where s': "after_load c l s = Some s'" "linv {} H s'" "num_kept s s'" "names_kept (insert l V) s s'"
            "lo_path s' = lo_path s"
            by (rule after_load_ok [OF invs y Cons.prems(6) ynum])
          have l': "lo_xl s' l \<noteq> None" "\<And>d. locale_encoding s' l d = locale_encoding s l d"
            using s'(4) y by (auto simp: names_kept_def)
          then obtain z where z: "lo_xl s' l = Some z"
            by blast
          have znum: "xl_num_loc z \<noteq> 0 \<Longrightarrow> xl_num_loc z \<notin> V"
            using num_keptD [OF s'(3) z] y ynum by auto
          have path: "lo_path s' \<noteq> None"
            using s'(5) eff(3) Cons.prems(4) by simp
          obtain r' st' where st': "modify_loop E l msk name cs s' = Some (r', st')" "linv {} H st'" "num_kept s' st'"
            "names_kept V s' st'" "lo_xl st' l \<noteq> None"
            "\<And>c. c \<notin> set cs \<or> \<not> msk c \<Longrightarrow> locale_encoding st' l c = locale_encoding s' l c"
            "r' = None \<Longrightarrow> c \<in> set cs \<Longrightarrow> msk c \<Longrightarrow> named E name c (locale_encoding st' l c)" for c
            using Cons.IH [OF s'(2) Cons.prems(2) z path Cons.prems(5,6) znum] Cons.prems(8) by auto
          have run: "modify_loop E l msk name (c # cs) st = Some (r', st')"
            unfolding step using ok ne s(1) s'(1) st'(1) False by (cases r) auto
          have "locale_encoding st' l c = Some (if is_c_name enc then ''C'' else enc)"
            using st'(6) [of c] Cons.prems(8) l'(2) enc by simp
          then have "named E name c (locale_encoding st' l c)"
            by (simp add: named_def enc_def Let_def)
          moreover have "locale_encoding st' l d = locale_encoding st l d" if "d \<notin> set (c # cs) \<or> \<not> msk d" for d
          proof -
            have "d \<noteq> c"
              using that True by auto
            then show ?thesis
              using st'(6) [of d] l'(2) eff(5) that by auto
          qed
          moreover have "names_kept V st st'"
            using eff(2) s'(4) st'(4) unfolding names_kept_def by simp
          moreover have "num_kept st st'"
            using num_kept_trans eff(1) s'(3) st'(3) by blast
          ultimately show ?thesis
            using run st'(2,5,7) by auto
        qed
      qed
    qed
  qed
qed simp

end
