(* ===== verification/Locale_Calls.thy ===== *)
theory Locale_Calls
  imports Locale_Safety
begin

text \<open>
  The calls on locales from start to end (\<open>newlocale.c\<close>, \<open>duplocale.c\<close>, \<open>freelocale.c\<close>,
  \<open>uselocale.c\<close> and \<open>__numeric_ctype\<close> of \<open>xlocale.c\<close>): each one returns, keeps the invariant
  for the references of its callers, and leaves the names of the other locales alone. A client
  is a sequence of calls with locales that it may pass.
\<close>

section \<open>Copies\<close>

lemma current_visible: "linv {} h st \<Longrightarrow> visible h st (current_locale st)"
  by (auto simp: visible_def current_locale_def)

lemma hiddenD: "hidden h st \<Longrightarrow> lo_xl st l = Some x \<Longrightarrow> xl_num_loc x \<noteq> 0 \<Longrightarrow> h (xl_num_loc x) = 0 \<and> lo_thread st \<noteq> xl_num_loc x"
  by (simp add: hidden_def)

lemma xl_num_loc_rc: "xl_num_loc (x\<lparr>xl_rc := k\<rparr>) = xl_num_loc x"
  by simp

lemma fresh_unheld:
  assumes "linv {} h st" "lo_xl st new = None"
  shows "h new = 0" "new \<noteq> lo_thread st \<or> new = 0"
proof -
  show "h new = 0"
    using linvD(14) [OF assms(1), of new] assms(2) by (cases "h new = 0") auto
  show "new \<noteq> lo_thread st \<or> new = 0"
    using linvD(13) [OF assms(1)] assms(2) by (cases "new = lo_thread st") auto
qed

text \<open>\<open>num_from st st' m k\<close>: the locale \<open>m\<close> has for numbers what \<open>k\<close> had, or none.\<close>

definition num_from :: "locs \<Rightarrow> locs \<Rightarrow> nat \<Rightarrow> nat \<Rightarrow> bool" where
  "num_from st st' m k \<longleftrightarrow> (\<forall>x y. lo_xl st k = Some x \<and> lo_xl st' m = Some y \<longrightarrow>
     xl_num_loc y = xl_num_loc x \<or> xl_num_loc y = 0)"

lemma num_from_refl [simp]: "num_from st st m m"
  by (auto simp: num_from_def)

lemma num_from_kept:
  assumes "num_from st st' m k" "num_kept st' st''"
  shows "num_from st st'' m k"
  unfolding num_from_def
proof (intro allI impI)
  fix x z assume z: "lo_xl st k = Some x \<and> lo_xl st'' m = Some z"
  then obtain y where "lo_xl st' m = Some y" "xl_num_loc z = xl_num_loc y \<or> xl_num_loc z = 0"
    using num_keptD [OF assms(2), of m z] by blast
  with assms(1) z show "xl_num_loc z = xl_num_loc x \<or> xl_num_loc z = 0"
    by (auto simp: num_from_def)
qed

lemma dup_int_ok:
  assumes ok: "locs_ok h st" and E: "lc_env_ok E" and l: "l = 0 \<or> visible h st l"
  obtains (no_memory) "duplocale_int E l st = Some (0, st)"
    | (copied) new s where "duplocale_int E l st = Some (new, s)" "new \<noteq> 0" "lo_xl st new = None"
      "locs_ok (h(new := 1)) s" "lo_xl s new \<noteq> None" "lo_thread s = lo_thread st" "lo_path s = lo_path st"
      "names_kept UNIV st s"
      "\<And>c. locale_encoding s new c = locale_encoding st (if l = 0 then current_locale st else l) c"
      "\<And>m. num_from st s m (if m = new then (if l = 0 then current_locale st else l) else m)"
proof -
  define b where "b = (if l = 0 then current_locale st else l)"
  note inv = locs_okD(1) [OF ok]
  have "visible h st b"
    using l current_visible [OF inv] by (auto simp: b_def)
  then obtain loc where loc: "lo_xl st b = Some loc"
    using visible_alloc [OF inv] by blast
  show ?thesis
  proof (cases rule: duplocale_int_ok [OF inv E b_def loc])
    case 1
    then show ?thesis by (rule no_memory)
  next
    case (2 new s)
    note inv' = 2(4)
    have num: "\<exists>x. lo_xl st k = Some x \<and> xl_num_loc y = xl_num_loc x" if y: "lo_xl s m = Some y" and k: "k = (if m = new then b else m)" for m y k
    proof (cases "m = new")
      case True
      then show ?thesis
        using y k loc 2(5) by (intro exI [of _ loc]) auto
    next
      case False
      then show ?thesis
        using 2(9) [OF y False] k False by (metis xl_num_loc_rc)
    qed
    have "hidden (h(new := 1)) s"
      unfolding hidden_def
    proof (intro allI impI)
      fix m y assume y: "lo_xl s m = Some y \<and> xl_num_loc y \<noteq> 0"
      then obtain x where x: "lo_xl st (if m = new then b else m) = Some x" "xl_num_loc y = xl_num_loc x"
        using num by blast
      have "h (xl_num_loc x) = 0 \<and> lo_thread st \<noteq> xl_num_loc x"
        using hiddenD [OF locs_okD(2) [OF ok] x(1)] x(2) y by simp
      moreover have "xl_num_loc x \<noteq> new"
        using linvD(11) [OF inv x(1)] x(2) y 2(3) by auto
      ultimately show "(h(new := 1)) (xl_num_loc y) = 0 \<and> lo_thread s \<noteq> xl_num_loc y"
        using x(2) 2(6) by simp
    qed
    with inv' have ok': "locs_ok (h(new := 1)) s"
      by (simp add: locs_ok_def)
    have parts: "\<And>p x y. lo_parts st p = Some x \<Longrightarrow> lo_parts s p = Some y \<Longrightarrow> same_part x y"
      using parts_keptD(2) [OF 2(8)] by blast
    have names: "names_kept UNIV st s"
      unfolding names_kept_def
    proof (intro ballI impI conjI allI)
      fix m c assume m: "lo_xl st m \<noteq> None"
      then show "lo_xl s m \<noteq> None"
        by (rule 2(10))
      then obtain y where y: "lo_xl s m = Some y"
        by blast
      have "m \<noteq> new"
        using m 2(3) by auto
      then obtain x where x: "lo_xl st m = Some x" "x\<lparr>xl_rc := xl_rc y\<rparr> = y"
        using 2(9) [OF y] by blast
      have "xl_part y c = xl_part x c" "xl_using y c = xl_using x c"
        by (subst x(2) [symmetric], simp)+
      then show "locale_encoding s m c = locale_encoding st m c"
        by (rule encoding_same [OF inv inv' x(1) y]) (rule parts)
    qed
    have "locale_encoding s new c = locale_encoding st b c" for c
    proof -
      have e: "locale_encoding s b c = locale_encoding st b c"
        using names loc by (simp add: names_kept_def)
      obtain y where y: "lo_xl s b = Some y"
        using 2(10) [of b] loc by auto
      have "b \<noteq> new"
        using loc 2(3) by auto
      then obtain x where x: "lo_xl st b = Some x" "x\<lparr>xl_rc := xl_rc y\<rparr> = y"
        using 2(9) [OF y] by blast
      have "xl_part y c = xl_part loc c" "xl_using y c = xl_using loc c"
        using x(1) loc by (subst x(2) [symmetric], simp)+
      then have "locale_encoding s new c = locale_encoding s b c"
        using y 2(5) by (simp add: locale_encoding_def)
      with e show ?thesis by simp
    qed
    moreover have "num_from st s m (if m = new then b else m)" for m
      using num unfolding num_from_def by fastforce
    ultimately show ?thesis
      using copied [OF 2(1-3) ok' _ 2(6,7) names] 2(5) unfolding b_def by blast
  qed
qed

section \<open>Freeing\<close>

lemma hidden_shrinks:
  assumes "hidden h st" "shrinks st st'" "\<And>l. h' l \<le> h l"
  shows "hidden h' st'"
  by (rule hidden_num_kept [OF assms(1) shrinks_num_kept [OF assms(2)] assms(3)])

lemma release_ok:
  assumes ok: "locs_ok h st" and l: "0 < h l"
  obtains freed st' where "xl_release_loc NESTING l st = Some (freed, st')" "locs_ok (h(l := h l - 1)) st'"
    "names_kept {m. visible (h(l := h l - 1)) st m} st st'" "lo_thread st' = lo_thread st" "lo_path st' = lo_path st"
    "freed \<longleftrightarrow> lo_xl st' l = None" "num_kept st st'"
proof -
  note inv = locs_okD(1) [OF ok]
  obtain x where x: "lo_xl st l = Some x"
    using linvD(14) [OF inv l] by blast
  obtain freed st' where st': "xl_release_loc NESTING l st = Some (freed, st')" "linv {} (h(l := h l - 1)) st'" "shrinks st st'"
    "freed \<longleftrightarrow> lo_xl st' l = None" "\<forall>m. lo_xl st m \<noteq> None \<and> m \<noteq> l \<and> m \<noteq> xl_num_loc x \<longrightarrow> lo_xl st' m \<noteq> None"
    using release_loc_linv [OF inv l x, of NESTING] by (auto simp: NESTING_def)
  let ?h = "h(l := h l - 1)"
  have le: "?h m \<le> h m" for m
    by simp
  have thread: "lo_thread st' = lo_thread st" "lo_path st' = lo_path st"
    using st'(3) by (simp_all add: shrinks_def)
  have names: "names_kept {m. visible ?h st m} st st'"
  proof (rule release_names_kept [OF inv st'(2,3)])
    fix m assume m: "m \<in> {m. visible ?h st m}" "lo_xl st m \<noteq> None"
    then have v': "visible ?h st' m"
      using thread by (simp add: visible_def)
    then show "lo_xl st' m \<noteq> None"
      using visible_alloc [OF st'(2)] by fastforce
  qed
  have "locs_ok ?h st'"
    unfolding locs_ok_def using st'(2) hidden_shrinks [OF locs_okD(2) [OF ok] st'(3) le] by blast
  then show ?thesis
    by (rule that [OF st'(1) _ names thread st'(4) shrinks_num_kept [OF st'(3)]])
qed

section \<open>New locales\<close>

lemma linv_path [simp]: "linv X H (st\<lparr>lo_path := p\<rparr>) = linv X H st"
proof -
  have sv: "ptr_val (st\<lparr>lo_path := p\<rparr>) s = ptr_val st s" for s
    by (cases s) simp_all
  have "counts D (st\<lparr>lo_path := p\<rparr>) = counts D st" for D
    by (simp add: counts_def refs_def sv)
  then show ?thesis
    by (simp add: linv_def sv numrefs_def del: ptr_val.simps)
qed

lemma locale_encoding_path [simp]: "locale_encoding (st\<lparr>lo_path := p\<rparr>) l c = locale_encoding st l c"
  by (cases "lo_xl st l") (simp_all add: locale_encoding_def)

lemma locale_encoding_thread [simp]: "locale_encoding (st\<lparr>lo_thread := p\<rparr>) l c = locale_encoding st l c"
  by (cases "lo_xl st l") (simp_all add: locale_encoding_def)

lemma path_same: "lo_path st = p \<Longrightarrow> st\<lparr>lo_path := p\<rparr> = st"
  by auto

lemma set_mask_order [simp]: "set mask_order = UNIV"
  by (auto simp: mask_order_def UNIV_cat)

lemma distinct_mask_order [simp]: "distinct mask_order"
  by (simp add: mask_order_def)

lemma modifylocale_ok:
  assumes inv: "linv {} H st" and E: "lc_env_ok E" and x: "lo_xl st l = Some x" and l: "l \<noteq> C_LOCALE" "l \<notin> V"
    and num: "xl_num_loc x \<noteq> 0 \<Longrightarrow> xl_num_loc x \<notin> V"
  obtains r st' where "modifylocale E l msk name st = Some (r, st')" "linv {} H st'" "num_kept st st'" "names_kept V st st'"
    "lo_xl st' l \<noteq> None" "\<And>c. \<not> msk c \<Longrightarrow> locale_encoding st' l c = locale_encoding st l c"
    "\<And>c. r = None \<Longrightarrow> msk c \<Longrightarrow> named E (case name of None \<Rightarrow> ''C'' | Some s \<Rightarrow> s) c (locale_encoding st' l c)"
proof (cases "fst (detect_path_locale E st)")
  case (Some e)
  then have "detect_path_locale E st = (Some e, st)"
    by (auto simp: detect_path_locale_def split: option.splits if_splits)
  then have "modifylocale E l msk name st = Some (Some e, st)"
    by (simp add: modifylocale_def)
  then show ?thesis
    using inv x by (intro that [of "Some e" st]) simp_all
next
  case None
  then obtain p where p: "detect_path_locale E st = (None, st\<lparr>lo_path := Some p\<rparr>)"
  proof (cases "lo_path st")
    case (Some p)
    then show ?thesis
      using that [of p] path_same [OF Some] by (simp add: detect_path_locale_def)
  qed (auto simp: detect_path_locale_def split: option.splits if_splits)
  let ?s = "st\<lparr>lo_path := Some p\<rparr>"
  let ?n = "case name of None \<Rightarrow> ''C'' | Some s \<Rightarrow> s"
  obtain r st' where st': "modify_loop E l msk ?n mask_order ?s = Some (r, st')" "linv {} H st'" "num_kept ?s st'"
    "names_kept V ?s st'" "lo_xl st' l \<noteq> None"
    "\<And>c. \<not> msk c \<Longrightarrow> locale_encoding st' l c = locale_encoding ?s l c"
    "\<And>c. r = None \<Longrightarrow> msk c \<Longrightarrow> named E ?n c (locale_encoding st' l c)"
    using modify_loop_ok [of H ?s E l x V mask_order msk ?n] inv E x l num by auto
  show ?thesis
  proof (rule that [of r st'])
    show "modifylocale E l msk name st = Some (r, st')"
      unfolding modifylocale_def p prod.case option.case by (rule st'(1))
    show "num_kept st st'" "names_kept V st st'"
      using st'(3,4) by (simp_all add: num_kept_def names_kept_def)
  qed (use st' in simp_all)
qed

lemma c_locale_encoding:
  assumes "linv {} h st"
  shows "locale_encoding st C_LOCALE c = Some ''C''"
proof -
  obtain x where x: "lo_xl st C_LOCALE = Some x" "\<forall>c. xl_part x c = (if c = CTYPE then DEFAULT_RUNE else 0)"
    using linvD(9) [OF assms] by blast
  have t: "tables_match x"
    using linvD(10) [OF assms x(1)] by simp
  have "\<not> xl_using x c" if "c \<noteq> CTYPE"
    using t x(2) that unfolding tables_match_def by metis
  then show ?thesis
    using x linvD(2) [OF assms] by (auto simp: locale_encoding_def default_rune_def)
qed

lemma named_C [simp]: "named E ''C'' c (Some ''C'')"
  by (simp add: named_def)

lemma list_all_mask [simp]: "list_all msk mask_order \<longleftrightarrow> (\<forall>c. msk c)" "list_ex msk mask_order \<longleftrightarrow> (\<exists>c. msk c)"
  by (simp_all add: list_all_iff list_ex_iff)

lemma checklocale_visible: "linv {} h st \<Longrightarrow> l = 0 \<or> visible h st l \<Longrightarrow> checklocale l st = Some ()"
  using visible_alloc by (auto simp: checklocale_def)

lemma freelocale_ok:
  assumes ok: "locs_ok h st" and l: "0 < h l"
  obtains st' where "freelocale l st = Some (None, st')" "locs_ok (h(l := h l - 1)) st'"
    "names_kept {m. visible (h(l := h l - 1)) st m} st st'" "lo_thread st' = lo_thread st" "num_kept st st'"
proof -
  note inv = locs_okD(1) [OF ok]
  obtain x where x: "lo_xl st l = Some x" "\<not> xl_perm x"
    using linvD(14) [OF inv l] by blast
  then have "l \<noteq> GLOBAL" "l \<noteq> C_LOCALE" "l \<noteq> 0"
    using linvD(8) [OF inv x(1)] linvD(4) [OF inv] by (auto intro: ccontr)
  moreover obtain freed st' where "xl_release_loc NESTING l st = Some (freed, st')" "locs_ok (h(l := h l - 1)) st'"
    "names_kept {m. visible (h(l := h l - 1)) st m} st st'" "lo_thread st' = lo_thread st" "num_kept st st'"
    by (rule release_ok [OF ok l])
  ultimately show ?thesis
    using that x(1) by (simp add: freelocale_def checklocale_def)
qed

lemma newlocale_ok:
  assumes ok: "locs_ok h st" and E: "lc_env_ok E" and base: "(\<forall>c. msk c) \<or> base = 0 \<or> visible h st base"
  obtains (failed) e st' where "newlocale E msk name base st = Some (Inl e, st')" "locs_ok h st'"
      "names_kept {m. visible h st m} st st'" "lo_thread st' = lo_thread st"
      "\<And>m. lo_xl st m \<noteq> None \<Longrightarrow> num_from st st' m m"
    | (made) new st' where "newlocale E msk name base st = Some (Inr new, st')" "new \<noteq> 0" "lo_xl st new = None"
      "locs_ok (h(new := 1)) st'" "names_kept {m. visible h st m} st st'" "lo_thread st' = lo_thread st"
      "\<And>c. msk c \<Longrightarrow> named E (case name of None \<Rightarrow> ''C'' | Some s \<Rightarrow> s) c (locale_encoding st' new c)"
      "\<And>c. \<not> msk c \<Longrightarrow> locale_encoding st' new c = locale_encoding st (if base = 0 then current_locale st else base) c"
      "\<And>m. lo_xl st m \<noteq> None \<Longrightarrow> num_from st st' m m" "\<not> (\<forall>c. msk c) \<Longrightarrow> base \<noteq> 0 \<Longrightarrow> num_from st st' new base"
proof (cases "checkencoding name")
  case False
  then have "newlocale E msk name base st = Some (Inl EINVAL, st)"
    by (simp add: newlocale_def)
  then show ?thesis
    by (rule failed) (use ok in simp_all)
next
  case True
  note inv = locs_okD(1) [OF ok]
  let ?all = "\<forall>c. msk c"
  let ?V = "{m. visible h st m}"
  define b where "b = (if ?all then C_LOCALE else base)"
  have b: "b = 0 \<or> visible h st b"
    using base by (auto simp: b_def visible_def)
  have check: "(if ?all then Some () else checklocale base st) = Some ()"
    using checklocale_visible [OF inv] base by auto
  have run: "newlocale E msk name base st = do { (new, st) \<leftarrow> duplocale_int E b st;
        if new = 0 then Some (Inl ErrnoUnset, st)
        else if \<not> (\<exists>c. msk c) \<or> ?all \<and> name = None then Some (Inr new, st)
        else do { (r, st) \<leftarrow> modifylocale E new msk name st;
          (case r of Some e \<Rightarrow> do { (r', st) \<leftarrow> freelocale new st; Some (Inl e, st) }
           | None \<Rightarrow> Some (Inr new, st)) } }"
    using True unfolding newlocale_def list_all_mask Let_def check b_def by simp
  show ?thesis
  proof (cases rule: dup_int_ok [OF ok E b])
    case 1
    then have "newlocale E msk name base st = Some (Inl ErrnoUnset, st)"
      unfolding run by simp
    then show ?thesis
      by (rule failed) (use ok in simp_all)
  next
    case (2 new s)
    note new = fresh_unheld [OF inv 2(3)]
    have old: "num_from st s m m" if "lo_xl st m \<noteq> None" for m
      using 2(10) [of m] that 2(3) by (auto split: if_splits)
    have from_base: "num_from st s new base" if "\<not> ?all" "base \<noteq> 0"
      using 2(10) [of new] that by (simp add: b_def)
    have kept: "names_kept ?V st s"
      using 2(8) by (simp add: names_kept_def)
    show ?thesis
    proof (cases "\<not> (\<exists>c. msk c) \<or> ?all \<and> name = None")
      case True
      show ?thesis
      proof (rule made [OF _ 2(2-4) kept 2(6)])
        show "newlocale E msk name base st = Some (Inr new, s)"
          unfolding run using 2(1,2) True by simp
        show "named E (case name of None \<Rightarrow> ''C'' | Some s \<Rightarrow> s) c (locale_encoding s new c)" if "msk c" for c
          using True that 2(9) [of c] c_locale_encoding [OF inv] by (auto simp: b_def C_LOCALE_def)
        show "locale_encoding s new c = locale_encoding st (if base = 0 then current_locale st else base) c" if "\<not> msk c" for c
          using 2(9) [of c] that by (auto simp: b_def)
      qed (fact old, fact from_base)
    next
      case False
      obtain x where x: "lo_xl s new = Some x"
        using 2(5) by blast
      have notV: "new \<notin> ?V"
        using visible_alloc [OF inv] 2(3) by fastforce
      have nC: "new \<noteq> C_LOCALE"
        using linvD(9) [OF inv] 2(3) by auto
      have num: "xl_num_loc x \<notin> ?V" if "xl_num_loc x \<noteq> 0"
      proof
        assume "xl_num_loc x \<in> ?V"
        then have "visible (h(new := 1)) s (xl_num_loc x)"
          using 2(6) by (auto simp: visible_def)
        then show False
          using visible_no_inner [OF 2(4) _ x that] by blast
      qed
      obtain r st' where st': "modifylocale E new msk name s = Some (r, st')" "linv {} (h(new := 1)) st'" "num_kept s st'"
        "names_kept ?V s st'" "lo_xl st' new \<noteq> None" "\<And>c. \<not> msk c \<Longrightarrow> locale_encoding st' new c = locale_encoding s new c"
        "\<And>c. r = None \<Longrightarrow> msk c \<Longrightarrow> named E (case name of None \<Rightarrow> ''C'' | Some s \<Rightarrow> s) c (locale_encoding st' new c)"
        by (rule modifylocale_ok [OF locs_okD(1) [OF 2(4)] E x nC notV num, where msk = msk and name = name]) (assumption, rule that)
      have ok': "locs_ok (h(new := 1)) st'"
        unfolding locs_ok_def using st'(2) hidden_num_kept [OF locs_okD(2) [OF 2(4)] st'(3)] by blast
      have thread: "lo_thread st' = lo_thread st"
        using st'(3) 2(6) by (simp add: num_kept_def)
      have kept': "names_kept ?V st st'"
        by (rule names_kept_trans [OF kept st'(4)])
      show ?thesis
      proof (cases r)
        case None
        show ?thesis
        proof (rule made [OF _ 2(2,3) ok' kept' thread])
          show "newlocale E msk name base st = Some (Inr new, st')"
            unfolding run using 2(1,2) False st'(1) None by auto
          show "named E (case name of None \<Rightarrow> ''C'' | Some s \<Rightarrow> s) c (locale_encoding st' new c)" if "msk c" for c
            by (rule st'(7) [OF None that])
          show "locale_encoding st' new c = locale_encoding st (if base = 0 then current_locale st else base) c" if "\<not> msk c" for c
            using st'(6) [OF that] 2(9) [of c] that by (auto simp: b_def)
        qed (use num_from_kept [OF old st'(3)] num_from_kept [OF from_base st'(3)] in blast)+
      next
        case (Some e)
        obtain st'' where st'': "freelocale new st' = Some (None, st'')" "locs_ok ((h(new := 1))(new := (h(new := 1)) new - 1)) st''"
          "names_kept {m. visible ((h(new := 1))(new := (h(new := 1)) new - 1)) st' m} st' st''" "lo_thread st'' = lo_thread st'"
          "num_kept st' st''"
          by (rule freelocale_ok [OF ok', of new]) simp_all
        have h: "(h(new := 1))(new := (h(new := 1)) new - 1) = h"
          using new(1) by auto
        show ?thesis
        proof (rule failed)
          show "newlocale E msk name base st = Some (Inl e, st'')"
            unfolding run using 2(1,2) False st'(1) st''(1) Some by auto
          show "locs_ok h st''"
            using st''(2) unfolding h .
          have "visible h st' m \<longleftrightarrow> visible h st m" for m
            using thread by (simp add: visible_def)
          then have "names_kept ?V st' st''"
            using st''(3) unfolding h by simp
          with kept' show "names_kept ?V st st''"
            by (rule names_kept_trans)
          show "lo_thread st'' = lo_thread st"
            using st''(4) thread by simp
        qed (use num_from_kept [OF num_from_kept [OF old st'(3)] st''(5)] in blast)
      qed
    qed
  qed
qed

section \<open>The locale of the thread\<close>

text \<open>The locales that are counted: the two that are there for ever are not.\<close>

definition counted :: "nat \<Rightarrow> bool" where
  "counted l \<longleftrightarrow> l \<noteq> 0 \<and> l \<noteq> GLOBAL \<and> l \<noteq> C_LOCALE"

definition add_ref :: "nat \<Rightarrow> (nat \<Rightarrow> nat) \<Rightarrow> nat \<Rightarrow> nat" where
  "add_ref l h m = h m + (if m = l \<and> counted l then 1 else 0)"

lemma counted_iff:
  assumes "linv X H st" "lo_xl st l = Some x"
  shows "counted l \<longleftrightarrow> \<not> xl_perm x"
  using linvD(4,8) [OF assms(1)] assms(2) by (cases "l = 0") (auto simp: counted_def)

lemma add_ref_uncounted: "\<not> counted l \<Longrightarrow> add_ref l h = h"
  by (auto simp: add_ref_def)

lemma add_ref_counted: "counted l \<Longrightarrow> add_ref l h = h(l := h l + 1)"
  by (auto simp: add_ref_def)

text \<open>The thread gives up the reference to its locale and takes one from a caller.\<close>

lemma thread_linv:
  assumes inv: "linv {} (add_ref l H) st" and l: "l = 0 \<or> lo_xl st l \<noteq> None"
  shows "linv {} (add_ref (lo_thread st) H) (st\<lparr>lo_thread := l\<rparr>)"
proof (rule linvI)
  let ?s = "st\<lparr>lo_thread := l\<rparr>"
  have sv: "ptr_val ?s s = ptr_val st s" for s
    by (cases s) simp_all
  show "balanced ?s"
    by (rule counts_same [OF linvD(1) [OF inv]]) (simp_all add: sv del: ptr_val.simps)
  show "lo_current ?s = ptr_val ?s (SLoc GLOBAL CTYPE)"
    using linvD(3) [OF inv] by (simp add: sv del: ptr_val.simps)
  show "lo_thread ?s \<noteq> 0 \<Longrightarrow> lo_xl ?s (lo_thread ?s) \<noteq> None \<and> lo_thread ?s \<notin> {}"
    using l by auto
next
  fix m x assume x: "lo_xl (st\<lparr>lo_thread := l\<rparr>) m = Some x"
  then have x': "lo_xl st m = Some x" by simp
  note cnt = counted_iff [OF inv x']
  show "xl_perm x \<longleftrightarrow> m = GLOBAL \<or> m = C_LOCALE"
    by (rule linvD(8) [OF inv x'])
  have num: "numrefs (st\<lparr>lo_thread := l\<rparr>) m = numrefs st m"
    by (simp add: numrefs_def)
  show "xl_rc x = int (card (numrefs (st\<lparr>lo_thread := l\<rparr>) m)) + (if lo_thread (st\<lparr>lo_thread := l\<rparr>) = m then 1 else 0) +
      int (add_ref (lo_thread st) H m) \<and> 0 < xl_rc x" if np: "\<not> xl_perm x"
    using linvD(12) [OF inv x' np] np cnt unfolding num by (auto simp: add_ref_def)
  show "tables_match x \<and> (xl_fp x = FP_USE_LOCALE \<longleftrightarrow> xl_num_loc x \<noteq> 0)"
    by (rule linvD(10) [OF inv x']) simp
  show "xl_num_loc x \<notin> {} \<and> (\<exists>i. lo_xl (st\<lparr>lo_thread := l\<rparr>) (xl_num_loc x) = Some i \<and> \<not> xl_perm i \<and> xl_num_loc i = 0)"
    if "xl_num_loc x \<noteq> 0"
    using linvD(11) [OF inv x' that] by simp
next
  fix m assume m: "0 < add_ref (lo_thread st) H m"
  then have "0 < add_ref l H m \<or> m = lo_thread st \<and> counted m"
    by (auto simp: add_ref_def split: if_splits)
  then show "m \<notin> {} \<and> (\<exists>x. lo_xl (st\<lparr>lo_thread := l\<rparr>) m = Some x \<and> \<not> xl_perm x)"
  proof
    assume "0 < add_ref l H m"
    then show ?thesis
      using linvD(14) [OF inv] by simp
  next
    assume t: "m = lo_thread st \<and> counted m"
    then obtain x where x: "lo_xl st m = Some x"
      using linvD(13) [OF inv] by (auto simp: counted_def)
    then show ?thesis
      using counted_iff [OF inv x] t by auto
  qed
qed (use linvD [OF inv] in simp_all)

lemma retain_loc_linv:
  assumes inv: "linv {} H st" and l: "l = 0 \<or> lo_xl st l \<noteq> None"
  obtains s where "xl_retain_loc l st = Some s" "linv {} (add_ref l H) s" "names_kept UNIV st s" "num_kept st s"
    "\<And>m. lo_xl s m = None \<longleftrightarrow> lo_xl st m = None"
proof (cases "counted l")
  case False
  then have "xl_retain_loc l st = Some st"
    using l linvD(8) [OF inv] by (auto simp: xl_retain_loc_def counted_def)
  then show ?thesis
    by (rule that) (simp_all add: inv add_ref_uncounted [OF False])
next
  case True
  then obtain x where x: "lo_xl st l = Some x"
    using l by (auto simp: counted_def)
  note np = counted_iff [OF inv x]
  let ?s = "upd_loc l (\<lambda>x. x\<lparr>xl_rc := xl_rc x + 1\<rparr>) st"
  have pos: "0 < xl_rc x + 1"
    using linvD(12) [OF inv x] np True by auto
  have s: "linv {} (add_ref l H) ?s"
    unfolding add_ref_counted [OF True] by (rule rc_linv [OF inv x]) (use np True pos in auto)
  have upd: "lo_xl ?s m = (if m = l then Some (x\<lparr>xl_rc := xl_rc x + 1\<rparr>) else lo_xl st m)" for m
    using x by simp
  show ?thesis
  proof (rule that [OF _ s])
    show "xl_retain_loc l st = Some ?s"
      using x np True by (simp add: xl_retain_loc_def counted_def)
    show "names_kept UNIV st ?s"
      using x by (auto simp: names_kept_def locale_encoding_def upd simp del: upd_loc_simps(7))
    show "num_kept st ?s" "\<And>m. lo_xl ?s m = None \<longleftrightarrow> lo_xl st m = None"
      using x by (auto simp: num_kept_def upd simp del: upd_loc_simps(7))
  qed
qed

lemma uselocale_ok:
  assumes ok: "locs_ok h st" and l: "l = 0 \<or> visible h st l"
  obtains r st' where "uselocale l st = Some (r, st')" "locs_ok h st'"
    "lo_thread st' = (if l = 0 then lo_thread st else if l = GLOBAL then 0 else l)"
    "names_kept {m. visible h st' m} st st'" "visible h st' r" "r \<noteq> current_locale st \<Longrightarrow> lo_xl st' (current_locale st) = None"
proof (cases "l = 0")
  case True
  then have "uselocale l st = Some (current_locale st, st)"
    by (simp add: uselocale_def current_locale_def)
  then show ?thesis
    by (rule that) (use True ok current_visible [OF locs_okD(1) [OF ok]] in simp_all)
next
  case False
  note inv = locs_okD(1) [OF ok]
  define k where "k = (if l = GLOBAL then 0 else l)"
  define p where "p = lo_thread st"
  have l': "visible h st l" "k = 0 \<or> lo_xl st k \<noteq> None"
    using l False visible_alloc [OF inv, of l] by (auto simp: k_def)
  obtain s1 where s1: "xl_retain_loc k st = Some s1" "linv {} (add_ref k h) s1" "names_kept UNIV st s1" "num_kept st s1"
    "\<And>m. lo_xl s1 m = None \<longleftrightarrow> lo_xl st m = None"
    by (rule retain_loc_linv [OF inv l'(2)]) (rule that)
  let ?s = "s1\<lparr>lo_thread := k\<rparr>"
  have t1: "lo_thread s1 = p"
    using s1(4) by (simp add: num_kept_def p_def)
  have inv2: "linv {} (add_ref p h) ?s"
    using thread_linv [OF s1(2)] l'(2) s1(5) t1 by simp
  have k_inner: "k \<noteq> xl_num_loc x" if "lo_xl st m = Some x" "xl_num_loc x \<noteq> 0" for m x
    using visible_no_inner [OF ok l'(1) that] that(2) by (auto simp: k_def)
  have "hidden (add_ref p h) ?s"
    unfolding hidden_def
  proof (intro allI impI)
    fix m y assume y: "lo_xl ?s m = Some y \<and> xl_num_loc y \<noteq> 0"
    then obtain x where x: "lo_xl st m = Some x" "xl_num_loc y = xl_num_loc x"
      using num_keptD [OF s1(4), of m y] by auto
    have "h (xl_num_loc x) = 0 \<and> p \<noteq> xl_num_loc x"
      using hiddenD [OF locs_okD(2) [OF ok] x(1)] x(2) y by (simp add: p_def)
    then show "add_ref p h (xl_num_loc y) = 0 \<and> lo_thread ?s \<noteq> xl_num_loc y"
      using x(2) k_inner [OF x(1)] y by (simp add: add_ref_def)
  qed
  with inv2 have ok2: "locs_ok (add_ref p h) ?s"
    by (simp add: locs_ok_def)
  have names2: "names_kept V st ?s" for V
    using s1(3) by (simp add: names_kept_def)
  have run: "uselocale l st = do { (freed, st) \<leftarrow> xl_release_loc NESTING p ?s; Some (if p = 0 \<or> freed then GLOBAL else p, st) }"
    using False checklocale_visible [OF inv l] s1(1) t1 unfolding k_def p_def by (simp add: uselocale_def Let_def cong: if_cong)
  show ?thesis
  proof (cases "counted p")
    case nc: False
    have "xl_release_loc NESTING p ?s = Some (False, ?s)"
    proof (cases "p = 0")
      case False
      then obtain x where "lo_xl ?s p = Some x"
        using linvD(13) [OF inv] s1(5) [of p] by (auto simp: p_def)
      then show ?thesis
        using False counted_iff [OF inv2, of p x] nc by (subst xl_release_loc.simps) simp
    qed (subst xl_release_loc.simps, simp)
    then have r: "uselocale l st = Some (if p = 0 then GLOBAL else p, ?s)"
      unfolding run by simp
    show ?thesis
      by (rule that [OF r _ _ names2])
        (use ok2 False nc in \<open>auto simp: add_ref_uncounted k_def visible_def current_locale_def p_def counted_def\<close>)
  next
    case True
    then have p0: "0 < add_ref p h p"
      by (simp add: add_ref_def)
    have h: "(add_ref p h)(p := add_ref p h p - 1) = h"
      using True by (auto simp: add_ref_def)
    obtain freed st' where st': "xl_release_loc NESTING p ?s = Some (freed, st')" "locs_ok ((add_ref p h)(p := add_ref p h p - 1)) st'"
      "names_kept {m. visible ((add_ref p h)(p := add_ref p h p - 1)) ?s m} ?s st'" "lo_thread st' = lo_thread ?s" "lo_path st' = lo_path ?s"
      "freed \<longleftrightarrow> lo_xl st' p = None" "num_kept ?s st'"
      by (rule release_ok [OF ok2 p0])
    have ok': "locs_ok h st'"
      using st'(2) unfolding h .
    have vis: "visible h st' m \<longleftrightarrow> visible h ?s m" for m
      using st'(4) by (simp add: visible_def)
    have r: "uselocale l st = Some (if freed then GLOBAL else p, st')"
      unfolding run using st'(1) True by (simp add: counted_def)
    show ?thesis
    proof (rule that [OF r ok'])
      show "lo_thread st' = (if l = 0 then lo_thread st else if l = GLOBAL then 0 else l)"
        using st'(4) False by (simp add: k_def)
      show "names_kept {m. visible h st' m} st st'"
        using names_kept_trans [OF names2 st'(3)] unfolding h vis .
      show "lo_xl st' (current_locale st) = None" if "(if freed then GLOBAL else p) \<noteq> current_locale st"
        using that st'(6) True by (auto simp: current_locale_def p_def counted_def split: if_splits)
      show "visible h st' (if freed then GLOBAL else p)"
      proof (cases freed)
        case False
        then obtain y where y: "lo_xl st' p = Some y"
          using st'(6) by auto
        have np: "\<not> xl_perm y"
          using counted_iff [OF locs_okD(1) [OF ok'] y] True by simp
        have "numrefs st' p = {}"
        proof -
          have "p \<noteq> xl_num_loc z" if z: "lo_xl st' m = Some z" "xl_num_loc z \<noteq> 0" for m z
          proof -
            obtain w where w: "lo_xl s1 m = Some w" "xl_num_loc z = xl_num_loc w"
              using num_keptD [OF st'(7) z(1)] z(2) by auto
            obtain x where x: "lo_xl st m = Some x" "xl_num_loc w = xl_num_loc x"
              using num_keptD [OF s1(4) w(1)] w(2) z(2) by auto
            then show ?thesis
              using hiddenD [OF locs_okD(2) [OF ok] x(1)] w(2) z(2) by (simp add: p_def)
          qed
          then show ?thesis
            using True by (auto simp: numrefs_def counted_def)
        qed
        then have "lo_thread st' = p \<or> 0 < h p"
          using linvD(12) [OF locs_okD(1) [OF ok'] y np] by (cases "lo_thread st' = p") auto
        with False True show ?thesis
          by (auto simp: visible_def counted_def)
      qed (simp add: visible_def)
    qed
  qed
qed

text \<open>The end of a thread is a return to the global locale.\<close>

lemma xlocale_release_uselocale: "xlocale_release st = map_option snd (uselocale GLOBAL st)"
  by (cases "xl_release_loc NESTING (lo_thread st) (st\<lparr>lo_thread := 0\<rparr>)")
    (auto simp: xlocale_release_def uselocale_def checklocale_def xl_retain_loc_def GLOBAL_def Let_def)

section \<open>The locale for numbers\<close>

lemma numeric_ctype_ok:
  assumes ok: "locs_ok h st" and E: "lc_env_ok E" and l: "visible h st l"
  obtains r st' where "numeric_ctype E l st = Some (r, st')" "locs_ok h st'" "lo_thread st' = lo_thread st"
    "names_kept {m. visible h st m} st st'" "lo_xl st' r \<noteq> None"
proof -
  note inv = locs_okD(1) [OF ok]
  let ?V = "{m. visible h st m}"
  obtain x where x: "lo_xl st l = Some x"
    using visible_alloc [OF inv l] by blast
  have fp: "xl_fp x = FP_USE_LOCALE \<longleftrightarrow> xl_num_loc x \<noteq> 0"
    using linvD(10) [OF inv x] by simp
  have same: "locs_ok h (upd_loc l (\<lambda>x. x\<lparr>xl_fp := FP_SAME_LOCALE\<rparr>) s)" "names_kept V s (upd_loc l (\<lambda>x. x\<lparr>xl_fp := FP_SAME_LOCALE\<rparr>) s)"
    if s: "locs_ok h s" "lo_xl s l = Some y" "xl_num_loc y = 0" for s y V
  proof -
    let ?s = "upd_loc l (\<lambda>x. x\<lparr>xl_fp := FP_SAME_LOCALE\<rparr>) s"
    have refs: "numrefs ?s p = numrefs s p" for p
      by (rule numrefs_same) simp
    have inv': "linv {} h ?s"
    proof (rule linv_upd [OF locs_okD(1) [OF s(1)] s(2)])
      show "\<not> xl_perm y \<Longrightarrow> l \<notin> {} \<Longrightarrow> 0 < xl_rc (y\<lparr>xl_fp := FP_SAME_LOCALE\<rparr>)"
        using linvD(12) [OF locs_okD(1) [OF s(1)] s(2)] by simp
      show "\<And>m. 0 < h m \<Longrightarrow> m \<notin> {} \<and> (\<exists>y. lo_xl s m = Some y \<and> \<not> xl_perm y)"
        by (rule linvD(14) [OF locs_okD(1) [OF s(1)]])
    qed (use s(3) refs in \<open>simp_all del: upd_loc_simps\<close>)
    have upd: "lo_xl ?s m = (if m = l then Some (y\<lparr>xl_fp := FP_SAME_LOCALE\<rparr>) else lo_xl s m)" for m
      using s(2) by simp
    have "num_kept s ?s"
      using s(2) by (auto simp: num_kept_def upd simp del: upd_loc_simps(7) split: if_splits)
    then have "hidden h ?s"
      by (rule hidden_num_kept [OF locs_okD(2) [OF s(1)]]) simp
    with inv' show "locs_ok h ?s"
      by (simp add: locs_ok_def)
    show "names_kept V s ?s"
      using s(2) by (auto simp: names_kept_def locale_encoding_def upd simp del: upd_loc_simps(7))
  qed
  show ?thesis
  proof (cases "xl_fp x")
    case FP_SAME_LOCALE
    then have "numeric_ctype E l st = Some (l, st)"
      using x by (simp add: numeric_ctype_def)
    then show ?thesis
      by (rule that) (use ok x in simp_all)
  next
    case FP_USE_LOCALE
    then have "numeric_ctype E l st = Some (xl_num_loc x, st)"
      using x by (simp add: numeric_ctype_def)
    then show ?thesis
      by (rule that) (use ok linvD(11) [OF inv x] fp FP_USE_LOCALE in auto)
  next
    case un: FP_UNINITIALIZED
    then have num: "xl_num_loc x = 0"
      using fp by simp
    obtain ctype where ctype: "locale_encoding st l CTYPE = Some ctype"
      using encoding_defined [OF inv x] by blast
    obtain numeric where numeric: "locale_encoding st l NUMERIC = Some numeric"
      using encoding_defined [OF inv x] by blast
    show ?thesis
    proof (cases "ctype = numeric")
      case True
      then have "numeric_ctype E l st = Some (l, upd_loc l (\<lambda>x. x\<lparr>xl_fp := FP_SAME_LOCALE\<rparr>) st)"
        using x ctype numeric un by (simp add: numeric_ctype_def)
      then show ?thesis
        by (rule that) (use same [OF ok x num] x in simp_all)
    next
      case False
      let ?new = "newlocale E (\<lambda>c. c = CTYPE) (Some numeric) C_LOCALE st"
      have run: "numeric_ctype E l st = do { (r, st) \<leftarrow> ?new;
          (case r of Inr new \<Rightarrow> Some (new, upd_loc l (\<lambda>x. x\<lparr>xl_num_loc := new, xl_fp := FP_USE_LOCALE\<rparr>) st)
           | Inl e \<Rightarrow> Some (l, upd_loc l (\<lambda>x. x\<lparr>xl_num_loc := 0, xl_fp := FP_SAME_LOCALE\<rparr>) st)) }"
        using x ctype numeric un False by (simp add: numeric_ctype_def)
      have c: "(\<forall>c. c = CTYPE) \<or> C_LOCALE = 0 \<or> visible h st C_LOCALE"
        by (simp add: visible_def)
      show ?thesis
      proof (cases rule: newlocale_ok [OF ok E c, of "Some numeric"])
        case (1 e s)
        obtain y where y: "lo_xl s l = Some y"
          using 1(3) l x by (auto simp: names_kept_def)
        have y0: "xl_num_loc y = 0"
          using 1(5) [of l] x y num by (auto simp: num_from_def)
        have "y\<lparr>xl_num_loc := 0, xl_fp := FP_SAME_LOCALE\<rparr> = y\<lparr>xl_fp := FP_SAME_LOCALE\<rparr>"
          using y0 by (cases y) simp
        then have "upd_loc l (\<lambda>x. x\<lparr>xl_num_loc := 0, xl_fp := FP_SAME_LOCALE\<rparr>) s = upd_loc l (\<lambda>x. x\<lparr>xl_fp := FP_SAME_LOCALE\<rparr>) s"
          using y by (simp add: upd_loc_def)
        then have "numeric_ctype E l st = Some (l, upd_loc l (\<lambda>x. x\<lparr>xl_fp := FP_SAME_LOCALE\<rparr>) s)"
          unfolding run 1(1) by simp
        then show ?thesis
          by (rule that) (use same [OF 1(2) y y0] names_kept_trans [OF 1(3)] 1(4) y in simp_all)
      next
        case (2 new s)
        let ?f = "\<lambda>x. x\<lparr>xl_num_loc := new, xl_fp := FP_USE_LOCALE\<rparr>"
        let ?s = "upd_loc l ?f s"
        note inv2 = locs_okD(1) [OF 2(4)]
        have new: "h new = 0" "new \<noteq> l" "lo_thread s \<noteq> new"
          using fresh_unheld [OF inv 2(3)] x 2(2,3,6) by auto
        obtain y where y: "lo_xl s l = Some y"
          using 2(5) l x by (auto simp: names_kept_def)
        have y0: "xl_num_loc y = 0"
          using 2(9) [of l] x y num by (auto simp: num_from_def)
        obtain i where i: "lo_xl s new = Some i" "\<not> xl_perm i"
          using linvD(14) [OF inv2, of new] by auto
        have "num_from st s new C_LOCALE"
          by (rule 2(10)) (simp_all add: C_LOCALE_def, blast)
        then have i0: "xl_num_loc i = 0"
          using i(1) linvD(9) [OF inv] by (auto simp: num_from_def)
        have nC: "l \<noteq> C_LOCALE"
          using c_locale_encoding [OF inv] ctype numeric False by auto
        have vis: "visible (h(new := 1)) s l" "visible (h(new := 1)) s new"
          using l 2(6) by (auto simp: visible_def)
        have refs0: "numrefs s l = {}" "numrefs s new = {}"
          by (rule visible_numrefs [OF 2(4) vis(1)], rule visible_numrefs [OF 2(4) vis(2)])
        have upd: "lo_xl ?s = (lo_xl s)(l \<mapsto> ?f y)"
          using y by simp
        have inv': "linv {} h ?s"
        proof (rule linv_upd [OF inv2 y])
          show "\<not> xl_perm y \<Longrightarrow> l \<notin> {} \<Longrightarrow> 0 < xl_rc (?f y)"
            using linvD(12) [OF inv2 y] by simp
          fix m
          show "m \<notin> {} \<and> (\<exists>y. lo_xl s m = Some y \<and> \<not> xl_perm y)" if "0 < h m"
            using linvD(14) [OF inv2, of m] that by (auto split: if_splits)
          fix z assume z: "lo_xl s m = Some z"
          then have "m \<noteq> 0"
            using linvD(4) [OF inv2] by (cases "m = 0") auto
          then have l: "l \<notin> numrefs s m"
            using y y0 by (simp add: numrefs_def)
          have e: "numrefs ?s m = (if m = new then {l} else numrefs s m)"
            using numrefs_upd [OF upd, of m] refs0(2) l by auto
          show "int (card (numrefs ?s m)) + int (h m) - int (card (numrefs s m)) - int ((h(new := 1)) m) =
              (if m = l then xl_rc (?f y) - xl_rc y else 0)"
            unfolding e using refs0(2) new(1,2) by simp
        qed (use nC new(2) refs0 i i0 2(2) in simp_all)
        have "hidden h ?s"
          unfolding hidden_def
        proof (intro allI impI)
          fix m z assume z: "lo_xl ?s m = Some z \<and> xl_num_loc z \<noteq> 0"
          show "h (xl_num_loc z) = 0 \<and> lo_thread ?s \<noteq> xl_num_loc z"
          proof (cases "m = l")
            case True
            then show ?thesis
              using z new(1,3) y by auto
          next
            case False
            then have "lo_xl s m = Some z"
              using z upd by simp
            then show ?thesis
              using hiddenD [OF locs_okD(2) [OF 2(4)], of m z] z by (auto split: if_splits)
          qed
        qed
        with inv' have ok': "locs_ok h ?s"
          by (simp add: locs_ok_def)
        have names: "names_kept ?V s ?s"
          using y by (auto simp: names_kept_def locale_encoding_def)
        have r: "numeric_ctype E l st = Some (new, ?s)"
          unfolding run 2(1) by simp
        show ?thesis
          by (rule that [OF r ok' _ names_kept_trans [OF 2(5) names]]) (use 2(6) i(1) new(2) in simp_all)
      qed
    qed
  qed
qed

section \<open>Clients\<close>

text \<open>
  A call with the result that its caller sees, and what the caller holds after it. A locale may
  be passed while the caller holds it, while the thread uses it, or if it is one of the two
  that are there for ever; only what a caller holds may be freed. \<open>newlocale\<close> does not look at
  its base where all categories are given.
\<close>

datatype call = New "cat \<Rightarrow> bool" "string option" nat | Dup nat | Free nat | Use nat | Query "cat \<Rightarrow> bool" nat | Numeric nat

fun may_call :: "(nat \<Rightarrow> nat) \<Rightarrow> locs \<Rightarrow> call \<Rightarrow> bool" where
  "may_call h st (New msk name base) \<longleftrightarrow> (\<forall>c. msk c) \<or> base = 0 \<or> visible h st base"
| "may_call h st (Dup l) \<longleftrightarrow> l = 0 \<or> visible h st l"
| "may_call h st (Free l) \<longleftrightarrow> 0 < h l"
| "may_call h st (Use l) \<longleftrightarrow> l = 0 \<or> visible h st l"
| "may_call h st (Query msk l) \<longleftrightarrow> l = 0 \<or> visible h st l"
| "may_call h st (Numeric l) \<longleftrightarrow> visible h st l"

fun run_call :: "lc_env \<Rightarrow> call \<Rightarrow> (nat \<Rightarrow> nat) \<times> locs \<Rightarrow> ((nat \<Rightarrow> nat) \<times> locs) option" where
  "run_call E (New msk name base) (h, st) =
     do { (r, st) \<leftarrow> newlocale E msk name base st;
          Some (case r of Inl e \<Rightarrow> h | Inr new \<Rightarrow> h(new := h new + 1), st) }"
| "run_call E (Dup l) (h, st) =
     do { (new, st) \<leftarrow> duplocale E l st; Some (if new = 0 then h else h(new := h new + 1), st) }"
| "run_call E (Free l) (h, st) = do { (r, st) \<leftarrow> freelocale l st; Some (h(l := h l - 1), st) }"
| "run_call E (Use l) (h, st) = do { (r, st) \<leftarrow> uselocale l st; Some (h, st) }"
| "run_call E (Query msk l) (h, st) = do { r \<leftarrow> querylocale msk l st; Some (h, st) }"
| "run_call E (Numeric l) (h, st) = do { (r, st) \<leftarrow> numeric_ctype E l st; Some (h, st) }"

inductive client :: "lc_env \<Rightarrow> (nat \<Rightarrow> nat) \<Rightarrow> locs \<Rightarrow> bool" for E where
  start: "client E (\<lambda>_. 0) locs_init"
| call: "client E h st \<Longrightarrow> may_call h st c \<Longrightarrow> run_call E c (h, st) = Some (h', st') \<Longrightarrow> client E h' st'"

lemma run_call_ok:
  assumes ok: "locs_ok h st" and E: "lc_env_ok E" and may: "may_call h st c"
  shows "\<exists>h' st'. run_call E c (h, st) = Some (h', st') \<and> locs_ok h' st'"
proof (cases c)
  case (New msk name base)
  then have base: "(\<forall>c. msk c) \<or> base = 0 \<or> visible h st base"
    using may by simp
  show ?thesis
  proof (cases rule: newlocale_ok [OF ok E base, of name])
    case (1 e s)
    then show ?thesis
      using New by simp
  next
    case (2 new s)
    then show ?thesis
      using New fresh_unheld(1) [OF locs_okD(1) [OF ok] 2(3)] by simp
  qed
next
  case (Dup l)
  then have l: "l = 0 \<or> visible h st l"
    using may by simp
  note check = checklocale_visible [OF locs_okD(1) [OF ok] l]
  show ?thesis
  proof (cases rule: dup_int_ok [OF ok E l])
    case 1
    then show ?thesis
      using Dup check ok by (simp add: duplocale_def)
  next
    case (2 new s)
    then show ?thesis
      using Dup check fresh_unheld(1) [OF locs_okD(1) [OF ok] 2(3)] by (simp add: duplocale_def)
  qed
next
  case (Free l)
  then have "0 < h l"
    using may by simp
  from freelocale_ok [OF ok this] show ?thesis
    using Free by (metis (no_types, lifting) bind.simps(2) prod.case run_call.simps(3))
next
  case (Use l)
  then have "l = 0 \<or> visible h st l"
    using may by simp
  then obtain r s where "uselocale l st = Some (r, s)" "locs_ok h s"
    by (rule uselocale_ok [OF ok])
  then show ?thesis
    using Use by simp
next
  case (Query msk l)
  then have l: "l = 0 \<or> visible h st l"
    using may by simp
  let ?l = "if l = 0 then current_locale st else l"
  note inv = locs_okD(1) [OF ok]
  have "visible h st ?l"
    using l current_visible [OF inv] by auto
  then obtain x where x: "lo_xl st ?l = Some x"
    using visible_alloc [OF inv] by blast
  have "\<exists>r. querylocale msk l st = Some r"
  proof (cases "List.find msk mask_order")
    case (Some d)
    obtain e where "locale_encoding st ?l d = Some e"
      using encoding_defined [OF inv x] by blast
    then show ?thesis
      using Some checklocale_visible [OF inv l] by (simp add: querylocale_def)
  qed (use checklocale_visible [OF inv l] in \<open>simp add: querylocale_def\<close>)
  then show ?thesis
    using Query ok by auto
next
  case (Numeric l)
  then have "visible h st l"
    using may by simp
  then obtain r s where "numeric_ctype E l st = Some (r, s)" "locs_ok h s"
    by (rule numeric_ctype_ok [OF ok E])
  then show ?thesis
    using Numeric by simp
qed

lemma client_ok:
  assumes "client E h st" "lc_env_ok E"
  shows "locs_ok h st"
  using assms(1)
proof induction
  case start
  have "hidden (\<lambda>_. 0) locs_init"
    by (auto simp: hidden_def locs_init_def c_locale_init_def split: if_splits)
  then show ?case
    using linv_init by (simp add: locs_ok_def)
next
  case (call h st c h' st')
  then show ?case
    using run_call_ok [OF call.IH assms(2) call.hyps(2)] by auto
qed

section \<open>Properties\<close>

text \<open>A system with memory for one locale and no files.\<close>

definition system_one :: lc_env where
  "system_one = \<lparr>le_files = (\<lambda>_. None), le_default = ''/usr/share/locale'', le_getenv = (\<lambda>_. None), le_setugid = False,
     le_mem = True, le_part = (\<lambda>_. 0), le_loc = (\<lambda>st. if lo_xl st 3 = None then 3 else 0), le_magi = (\<lambda>_. None),
     le_collate = (\<lambda>_. None)\<rparr>"

definition one_made :: locs where
  "one_made = locs_init\<lparr>lo_xl := (lo_xl locs_init)(3 \<mapsto> c_locale_init\<lparr>xl_rc := 1, xl_perm := False\<rparr>)\<rparr>"

lemma system_one_ok: "lc_env_ok system_one"
  by (simp add: lc_env_ok_def system_one_def)

lemma newlocale_one: "newlocale system_one (\<lambda>_. True) None 0 locs_init = Some (Inr 3, one_made)"
  by (simp add: newlocale_def checkencoding_def duplocale_int_def system_one_def one_made_def locs_init_def Let_def
      C_LOCALE_def GLOBAL_def)

lemma client_one: "client system_one ((\<lambda>_. 0)(3 := 1)) one_made"
proof (rule client.call [OF client.start])
  show "run_call system_one (New (\<lambda>_. True) None 0) (\<lambda>_. 0, locs_init) = Some ((\<lambda>_. 0)(3 := 1), one_made)"
    by (simp add: newlocale_one)
qed simp

text \<open>
  C34: Whatever locales a client makes, copies, frees, uses and asks for, in any order, the next
  call that it may make returns: no call of the library follows a pointer to memory that was
  freed, whether the call succeeds or fails.
\<close>

theorem locales_safe:
  assumes "lc_env_ok E" "client E h st" "may_call h st c"
  shows "run_call E c (h, st) \<noteq> None"
  using run_call_ok [OF client_ok [OF assms(2,1)] assms(1,3)] by auto

theorem locales_safe_witness: "run_call system_one (Use 3) ((\<lambda>_. 0)(3 := 1), one_made) \<noteq> None"
  by (rule locales_safe [OF system_one_ok client_one]) (simp add: visible_def)

text \<open>
  C35: At any time the count of a locale that is not there for ever is the number of the
  references to it, of the locales that hold it for numbers, of the thread and of the client,
  and there is at least one; and the count of a table is the number of the pointers to it, in
  locales and in the caches of the loaders.
\<close>

theorem locale_counts_exact:
  assumes "lc_env_ok E" "client E h st"
  shows "(\<forall>l x. lo_xl st l = Some x \<longrightarrow> xl_perm x \<or> 0 < xl_rc x \<and>
      xl_rc x = int (card {m. \<exists>y. lo_xl st m = Some y \<and> xl_num_loc y = l}) + (if lo_thread st = l then 1 else 0) + int (h l)) \<and>
    (\<forall>p x. lo_parts st p = Some x \<longrightarrow> pt_perm x \<or> 0 < pt_rc x \<and> pt_rc x = int (card {s. ptr_val st s = p}))"
proof (intro conjI allI impI)
  note inv = locs_okD(1) [OF client_ok [OF assms(2,1)]]
  fix l x assume x: "lo_xl st l = Some x"
  show "xl_perm x \<or> 0 < xl_rc x \<and>
      xl_rc x = int (card {m. \<exists>y. lo_xl st m = Some y \<and> xl_num_loc y = l}) + (if lo_thread st = l then 1 else 0) + int (h l)"
    using linvD(12) [OF inv x] by (auto simp: numrefs_def)
next
  note inv = locs_okD(1) [OF client_ok [OF assms(2,1)]]
  fix p x assume x: "lo_parts st p = Some x"
  show "pt_perm x \<or> 0 < pt_rc x \<and> pt_rc x = int (card {s. ptr_val st s = p})"
    using linvD(1) [OF inv] x by (auto simp: counts_def refs_def)
qed

theorem locale_counts_exact_witness:
  "lo_xl one_made 3 = Some (c_locale_init\<lparr>xl_rc := 1, xl_perm := False\<rparr>) \<and>
    (1::int) = int (card {m. \<exists>y. lo_xl one_made m = Some y \<and> xl_num_loc y = 3}) +
      (if lo_thread one_made = 3 then 1 else 0) + int (((\<lambda>_. 0)(3 := 1)) (3::nat))"
proof -
  have three: "lo_xl one_made 3 = Some (c_locale_init\<lparr>xl_rc := 1, xl_perm := False\<rparr>)"
    by (simp add: one_made_def)
  then show ?thesis
    using locale_counts_exact [OF system_one_ok client_one] by fastforce
qed





end
