(* ===== verification/Set_Locale.thy ===== *)
theory Set_Locale
  imports Locale_Calls
begin

text \<open>
  \<open>setlocale\<close> (\<open>setlocale.c\<close>): the names of the six categories are taken from the argument, from
  the environment or from a list with slashes, each category of the global locale is loaded, and
  when one of them fails those before it are put back. \<open>new_categories\<close> is filled by each call
  before it is read, and is an argument here.
\<close>

section \<open>The code\<close>

text \<open>
  \<open>sl_cur\<close> is \<open>current_categories\<close>, and \<open>sl_buf\<close> says that the buffer of \<open>currentlocale\<close> is
  allocated.
\<close>

record sls =
  sl_locs :: locs
  sl_cur :: "cat \<Rightarrow> string"
  sl_buf :: bool

text \<open>The categories by number.\<close>

definition set_order :: "cat list" where
  "set_order = [COLLATE, CTYPE, MONETARY, NUMERIC, TIME, MESSAGES]"

definition currentlocale_string :: "(cat \<Rightarrow> string) \<Rightarrow> string" where
  "currentlocale_string cur =
     (if list_ex (\<lambda>c. cur COLLATE \<noteq> cur c) (tl set_order)
      then cur COLLATE @ concat (map (\<lambda>c. CHR ''/'' # cur c) (tl set_order))
      else cur COLLATE)"

definition currentlocale :: "lc_env \<Rightarrow> sls \<Rightarrow> (errno + string) \<times> sls" where
  "currentlocale E s =
     (if \<not> sl_buf s \<and> \<not> le_mem E then (Inl ENOMEM, s)
      else (Inr (currentlocale_string (sl_cur s)), s\<lparr>sl_buf := True\<rparr>))"

text \<open>
  The names in a list with slashes: \<open>tok\<close> is from \<open>locale\<close> to \<open>r\<close>, and \<open>rest\<close> is at \<open>r\<close>. The loop
  before it moves \<open>r\<close> to the last slash of the first run of slashes.
\<close>

fun names_loop :: "cat list \<Rightarrow> string \<Rightarrow> string \<Rightarrow> (cat \<Rightarrow> string) \<Rightarrow> errno + (cat \<Rightarrow> string)" where
  "names_loop [] tok rest new = Inr new"
| "names_loop (c # cs) tok rest new =
     (if length tok > ENCODING_LEN then Inl EINVAL
      else let new = new(c := tok); locale = dropWhile (\<lambda>x. x = CHR ''/'') rest in
        if locale = [] then Inr (\<lambda>d. if d \<in> set cs then tok else new d)
        else names_loop cs (takeWhile (\<lambda>x. x \<noteq> CHR ''/'') locale) (dropWhile (\<lambda>x. x \<noteq> CHR ''/'') locale) new)"

definition name_list :: "string \<Rightarrow> (cat \<Rightarrow> string) \<Rightarrow> errno + (cat \<Rightarrow> string)" where
  "name_list locale new =
     (let name = takeWhile (\<lambda>x. x \<noteq> CHR ''/'') locale;
          r = dropWhile (\<lambda>x. x \<noteq> CHR ''/'') locale;
          run = takeWhile (\<lambda>x. x = CHR ''/'') (tl r);
          r = drop (length run) r
      in if tl r = [] then Inl EINVAL else names_loop set_order (name @ run) r new)"

text \<open>The names to load; the category \<open>None\<close> is \<open>LC_ALL\<close>.\<close>

definition new_names :: "lc_env \<Rightarrow> cat option \<Rightarrow> string \<Rightarrow> (cat \<Rightarrow> string) \<Rightarrow> errno + (cat \<Rightarrow> string)" where
  "new_names E category locale cur =
     (if locale = [] then
        (case category of
           None \<Rightarrow> if list_ex (\<lambda>c. length (get_locale_env E c) > ENCODING_LEN) set_order then Inl EINVAL
                   else Inr (get_locale_env E)
         | Some c \<Rightarrow> if length (get_locale_env E c) > ENCODING_LEN then Inl EINVAL
                     else Inr (cur(c := get_locale_env E c)))
      else case category of
        Some c \<Rightarrow> if length locale > ENCODING_LEN then Inl EINVAL else Inr (cur(c := locale))
      | None \<Rightarrow>
          if CHR ''/'' \<notin> set locale then
            if length locale > ENCODING_LEN then Inl EINVAL else Inr (\<lambda>_. locale)
          else name_list locale cur)"

definition loadlocale :: "lc_env \<Rightarrow> (cat \<Rightarrow> string) \<Rightarrow> cat \<Rightarrow> sls \<Rightarrow> (errno option \<times> sls) option" where
  "loadlocale E new c s =
     (if new c = ''.'' \<or> new c = ''..'' \<or> CHR ''/'' \<in> set (new c) then Some (Some EINVAL, s)
      else case detect_path_locale E (sl_locs s) of
        (Some e, st) \<Rightarrow> Some (Some e, s\<lparr>sl_locs := st\<rparr>)
      | (None, st) \<Rightarrow>
          if new c = sl_cur s c then Some (None, s\<lparr>sl_locs := st\<rparr>)
          else do { (r, st) \<leftarrow> load_category c E (new c) GLOBAL st;
            (case r of
               LDP_ERROR e \<Rightarrow> Some (Some e, s\<lparr>sl_locs := st\<rparr>)
             | _ \<Rightarrow> do { st \<leftarrow> after_load c GLOBAL st;
                 Some (None, s\<lparr>sl_locs := st, sl_cur := (sl_cur s)(c := new c)\<rparr>) }) })"

fun restore :: "lc_env \<Rightarrow> (cat \<Rightarrow> string) \<Rightarrow> cat list \<Rightarrow> sls \<Rightarrow> sls option" where
  "restore E saved [] s = Some s"
| "restore E saved (c # cs) s =
     do { (r, s) \<leftarrow> loadlocale E saved c s;
          s \<leftarrow> (case r of None \<Rightarrow> Some s | Some e \<Rightarrow> map_option snd (loadlocale E (\<lambda>_. ''C'') c s));
          restore E saved cs s }"

fun load_all :: "lc_env \<Rightarrow> (cat \<Rightarrow> string) \<Rightarrow> (cat \<Rightarrow> string) \<Rightarrow> cat list \<Rightarrow> cat list \<Rightarrow> sls \<Rightarrow> (errno option \<times> sls) option" where
  "load_all E new saved before [] s = Some (None, s)"
| "load_all E new saved before (c # cs) s =
     (let saved = saved(c := sl_cur s c) in
      do { (r, s) \<leftarrow> loadlocale E new c s;
        (case r of None \<Rightarrow> load_all E new saved (before @ [c]) cs s
         | Some e \<Rightarrow> do { s \<leftarrow> restore E saved before s; Some (Some e, s) }) })"

definition set_all :: "lc_env \<Rightarrow> (cat \<Rightarrow> string) \<Rightarrow> sls \<Rightarrow> ((errno + string) \<times> sls) option" where
  "set_all E new s =
     do { g \<leftarrow> lo_xl (sl_locs s) GLOBAL;
          st \<leftarrow> xl_retain_loc (xl_num_loc g) (sl_locs s);
          (r, s) \<leftarrow> load_all E new (\<lambda>_. ''C'') [] set_order (s\<lparr>sl_locs := st\<rparr>);
          (case r of
             Some e \<Rightarrow>
               do { (freed, st) \<leftarrow> xl_release_loc NESTING (xl_num_loc g)
                      (upd_loc GLOBAL (\<lambda>x. x\<lparr>xl_fp := xl_fp g, xl_num_loc := xl_num_loc g\<rparr>) (sl_locs s));
                    Some (Inl e, s\<lparr>sl_locs := st\<rparr>) }
           | None \<Rightarrow>
               do { (freed, st) \<leftarrow> xl_release_loc NESTING (xl_num_loc g) (sl_locs s);
                    Some (currentlocale E (s\<lparr>sl_locs := st\<rparr>)) }) }"

definition setlocale :: "lc_env \<Rightarrow> int \<Rightarrow> string option \<Rightarrow> sls \<Rightarrow> ((errno + string) \<times> sls) option" where
  "setlocale E category locale s =
     (if category < 0 \<or> category \<ge> 7 then Some (Inl EINVAL, s)
      else let cat = (if category = 0 then None else Some (set_order ! (nat category - 1))) in
        case locale of
          None \<Rightarrow> Some (case cat of Some c \<Rightarrow> (Inr (sl_cur s c), s) | None \<Rightarrow> currentlocale E s)
        | Some l \<Rightarrow>
            (case new_names E cat l (sl_cur s) of
               Inl e \<Rightarrow> Some (Inl e, s)
             | Inr new \<Rightarrow>
                 (case cat of
                    Some c \<Rightarrow> do { (r, s) \<leftarrow> loadlocale E new c s;
                      Some (case r of Some e \<Rightarrow> Inl e | None \<Rightarrow> Inr (sl_cur s c), s) }
                  | None \<Rightarrow> set_all E new s)))"

text \<open>At the start all categories are \<open>C\<close>.\<close>

definition sls_init :: sls where
  "sls_init = \<lparr>sl_locs = locs_init, sl_cur = (\<lambda>_. ''C''), sl_buf = False\<rparr>"

section \<open>What the names come back as\<close>

definition plain_name :: "string \<Rightarrow> bool" where
  "plain_name n \<longleftrightarrow> n \<noteq> [] \<and> CHR ''/'' \<notin> set n \<and> length n \<le> ENCODING_LEN"

lemma takeWhile_name: "CHR ''/'' \<notin> set n \<Longrightarrow> takeWhile (\<lambda>x. x \<noteq> CHR ''/'') (n @ CHR ''/'' # r) = n"
  "CHR ''/'' \<notin> set n \<Longrightarrow> dropWhile (\<lambda>x. x \<noteq> CHR ''/'') (n @ CHR ''/'' # r) = CHR ''/'' # r"
  "CHR ''/'' \<notin> set n \<Longrightarrow> takeWhile (\<lambda>x. x \<noteq> CHR ''/'') n = n"
  "CHR ''/'' \<notin> set n \<Longrightarrow> dropWhile (\<lambda>x. x \<noteq> CHR ''/'') n = []"
  by (induction n) auto

lemma dropWhile_slash: "plain_name n \<Longrightarrow> dropWhile (\<lambda>x. x = CHR ''/'') (n @ r) = n @ r"
  "plain_name n \<Longrightarrow> takeWhile (\<lambda>x. x = CHR ''/'') (n @ r) = []"
  by (cases n; auto simp: plain_name_def)+

lemma name_loop_list:
  assumes "\<And>c. c \<in> set (d # cs) \<Longrightarrow> plain_name (cur c)" "distinct (d # cs)"
  shows "names_loop (d # cs) (cur d) (concat (map (\<lambda>c. CHR ''/'' # cur c) cs)) new =
    Inr (\<lambda>c. if c \<in> set (d # cs) then cur c else new c)"
  using assms
proof (induction cs arbitrary: d new)
  case Nil
  then show ?case
    by (auto simp: plain_name_def Let_def)
next
  case (Cons e cs)
  let ?r = "\<lambda>cs. concat (map (\<lambda>c. CHR ''/'' # cur c) cs)"
  have e: "plain_name (cur e)" and d: "plain_name (cur d)"
    using Cons.prems(1) by simp_all
  have t: "takeWhile (\<lambda>x. x \<noteq> CHR ''/'') (cur e @ ?r cs) = cur e" "dropWhile (\<lambda>x. x \<noteq> CHR ''/'') (cur e @ ?r cs) = ?r cs"
    using e takeWhile_name [of "cur e"] by (cases cs; simp add: plain_name_def)+
  have "names_loop (d # e # cs) (cur d) (?r (e # cs)) new = names_loop (e # cs) (cur e) (?r cs) (new(d := cur d))"
    using d e dropWhile_slash(1) [OF e, of "?r cs"] t
    by (subst names_loop.simps) (simp add: plain_name_def Let_def del: names_loop.simps)
  also have "\<dots> = Inr (\<lambda>c. if c \<in> set (e # cs) then cur c else (new(d := cur d)) c)"
    by (rule Cons.IH) (use Cons.prems in auto)
  also have "\<dots> = Inr (\<lambda>c. if c \<in> set (d # e # cs) then cur c else new c)"
    using Cons.prems(2) by auto
  finally show ?case .
qed

text \<open>
  C39: What \<open>setlocale(LC_ALL, NULL)\<close> returns names all six categories: given to
  \<open>setlocale(LC_ALL, \<dots>)\<close> later, whatever the categories are then, it asks for just the names
  that were in use, provided that each is one that a file can have.
\<close>

theorem names_roundtrip:
  assumes "\<And>c. plain_name (cur c)"
  shows "new_names E None (currentlocale_string cur) cur' = Inr cur"
proof (cases "list_ex (\<lambda>c. cur COLLATE \<noteq> cur c) (tl set_order)")
  case False
  then have all: "cur c = cur COLLATE" for c
    by (cases c) (simp_all add: set_order_def)
  then have "(\<lambda>_. cur COLLATE) = cur"
    by (intro ext) (rule all [symmetric])
  then show ?thesis
    using False assms [of COLLATE] by (simp add: new_names_def currentlocale_string_def plain_name_def)
next
  case True
  let ?r = "\<lambda>cs. concat (map (\<lambda>c. CHR ''/'' # cur c) cs)"
  have s: "currentlocale_string cur = cur COLLATE @ CHR ''/'' # cur CTYPE @ ?r [MONETARY, NUMERIC, TIME, MESSAGES]"
    using True by (simp add: currentlocale_string_def set_order_def)
  have p: "plain_name (cur COLLATE)" "plain_name (cur CTYPE)"
    by (rule assms)+
  have "name_list (currentlocale_string cur) cur' =
      names_loop set_order (cur COLLATE) (?r [CTYPE, MONETARY, NUMERIC, TIME, MESSAGES]) cur'"
    using p takeWhile_name(1,2) [of "cur COLLATE"] dropWhile_slash(2) [OF p(2)]
    unfolding s name_list_def Let_def by (simp add: plain_name_def del: names_loop.simps)
  also have "\<dots> = Inr (\<lambda>c. if c \<in> set set_order then cur c else cur' c)"
    unfolding set_order_def by (rule name_loop_list) (use assms in simp_all)
  also have "\<dots> = Inr cur"
  proof -
    have "c \<in> set set_order" for c
      by (cases c) (simp_all add: set_order_def)
    then show ?thesis by simp
  qed
  finally show ?thesis
    using p by (simp add: new_names_def s plain_name_def)
qed

theorem names_roundtrip_witness:
  "new_names system_one None (currentlocale_string (\<lambda>c. if c = TIME then ''de_DE'' else ''C'')) (\<lambda>_. ''C'') =
    Inr (\<lambda>c. if c = TIME then ''de_DE'' else ''C'')"
  by (rule names_roundtrip) (simp add: plain_name_def ENCODING_LEN_def)

section \<open>Loading\<close>

text \<open>The names kept are those of the tables in use, but for the second spelling of the C locale.\<close>

definition agree :: "sls \<Rightarrow> bool" where
  "agree s \<longleftrightarrow> (\<forall>c. locale_encoding (sl_locs s) GLOBAL c = Some (if is_c_name (sl_cur s c) then ''C'' else sl_cur s c))"

definition no_numeric :: "sls \<Rightarrow> bool" where
  "no_numeric s \<longleftrightarrow> (\<forall>g. lo_xl (sl_locs s) GLOBAL = Some g \<longrightarrow> xl_num_loc g = 0)"

definition sls_ok :: "(nat \<Rightarrow> nat) \<Rightarrow> sls \<Rightarrow> bool" where
  "sls_ok H s \<longleftrightarrow> linv {} H (sl_locs s) \<and> agree s \<and> no_numeric s"

lemma sls_okD:
  "sls_ok H s \<Longrightarrow> linv {} H (sl_locs s)" "sls_ok H s \<Longrightarrow> agree s" "sls_ok H s \<Longrightarrow> no_numeric s"
  by (simp_all add: sls_ok_def)

lemma sls_ok_path: "sls_ok H s \<Longrightarrow> st = (sl_locs s)\<lparr>lo_path := p\<rparr> \<Longrightarrow> sls_ok H (s\<lparr>sl_locs := st\<rparr>)"
  by (simp add: sls_ok_def agree_def no_numeric_def)

lemma GLOBAL_not_C [simp]: "GLOBAL \<noteq> C_LOCALE" "C_LOCALE \<noteq> GLOBAL"
  by (simp_all add: GLOBAL_def C_LOCALE_def)

lemma loadlocale_ok:
  assumes ok: "sls_ok H s" and E: "lc_env_ok E"
  obtains r s' where "loadlocale E new c s = Some (r, s')" "sls_ok H s'" "sl_buf s' = sl_buf s"
    "r = None \<Longrightarrow> sl_cur s' = (sl_cur s)(c := new c) \<and> lo_path (sl_locs s') \<noteq> None"
    "r \<noteq> None \<Longrightarrow> sl_cur s' = sl_cur s"
    "lo_path (sl_locs s) \<noteq> None \<Longrightarrow> lo_path (sl_locs s') \<noteq> None"
    "lo_path (sl_locs s) \<noteq> None \<Longrightarrow> is_c_name (new c) \<Longrightarrow> r = None"
proof -
  let ?bad = "new c = ''.'' \<or> new c = ''..'' \<or> CHR ''/'' \<in> set (new c)"
  show ?thesis
  proof (cases "?bad")
    case True
    then have "loadlocale E new c s = Some (Some EINVAL, s)"
      by (auto simp: loadlocale_def)
    then show ?thesis
      by (rule that) (use ok True in \<open>auto simp: is_c_name_def\<close>)
  next
    case ok_name: False
    show ?thesis
    proof (cases "fst (detect_path_locale E (sl_locs s))")
      case (Some e)
      then have d: "detect_path_locale E (sl_locs s) = (Some e, sl_locs s)" "lo_path (sl_locs s) = None"
        by (auto simp: detect_path_locale_def split: option.splits if_splits)
      then have "loadlocale E new c s = Some (Some e, s)"
        using ok_name by (auto simp: loadlocale_def)
      then show ?thesis
        by (rule that) (use ok d in simp_all)
    next
      case None
      then obtain p where d: "detect_path_locale E (sl_locs s) = (None, (sl_locs s)\<lparr>lo_path := Some p\<rparr>)"
      proof (cases "lo_path (sl_locs s)")
        case (Some p)
        then show ?thesis
          using that [of p] path_same [OF Some] by (simp add: detect_path_locale_def)
      qed (auto simp: detect_path_locale_def split: option.splits if_splits)
      let ?st = "(sl_locs s)\<lparr>lo_path := Some p\<rparr>"
      have run: "loadlocale E new c s =
          (if new c = sl_cur s c then Some (None, s\<lparr>sl_locs := ?st\<rparr>)
          else do { (r, st) \<leftarrow> load_category c E (new c) GLOBAL ?st;
            (case r of
               LDP_ERROR e \<Rightarrow> Some (Some e, s\<lparr>sl_locs := st\<rparr>)
             | _ \<Rightarrow> do { st \<leftarrow> after_load c GLOBAL st;
                 Some (None, s\<lparr>sl_locs := st, sl_cur := (sl_cur s)(c := new c)\<rparr>) }) })"
        using ok_name unfolding loadlocale_def d by simp
      have ok': "sls_ok H (s\<lparr>sl_locs := ?st\<rparr>)"
        by (rule sls_ok_path [OF ok refl])
      note inv = sls_okD(1) [OF ok', simplified]
      show ?thesis
      proof (cases "new c = sl_cur s c")
        case True
        then have "loadlocale E new c s = Some (None, s\<lparr>sl_locs := ?st\<rparr>)"
          unfolding run by simp
        then show ?thesis
          by (rule that) (use ok' True in \<open>simp_all add: fun_upd_idem\<close>)
      next
        case ne: False
        have alloc: "lo_xl ?st GLOBAL \<noteq> None"
          using linvD(7) [OF sls_okD(1) [OF ok]] by simp
        obtain r st where l: "load_category c E (new c) GLOBAL ?st = Some (r, st)" "load_spec E GLOBAL c (new c) ?st (r, st)"
          by (rule load_category_spec [where H = H and st = ?st and E = E and l = GLOBAL])
            (use sls_okD(1) [OF ok] E alloc in simp_all)
        have inv0: "linv {} H ?st"
          using sls_okD(1) [OF ok] by simp
        have inv1: "linv {} H st"
          by (rule load_linv [OF inv0 l(2) GLOBAL_not_C(1)])
        note eff = load_effects [OF inv0 l(2) GLOBAL_not_C(1), of "{}", simplified]
        show ?thesis
        proof (cases "\<exists>e. r = LDP_ERROR e")
          case True
          then obtain e where e: "r = LDP_ERROR e" by blast
          then have st: "st = ?st" "\<not> is_c_name (new c)"
            using l(2) by (simp_all add: load_spec_def)
          have "loadlocale E new c s = Some (Some e, s\<lparr>sl_locs := ?st\<rparr>)"
            unfolding run using ne l(1) e st(1) by simp
          then show ?thesis
            by (rule that) (use ok' st in simp_all)
        next
          case False
          then have enc: "locale_encoding st GLOBAL c = Some (if is_c_name (new c) then ''C'' else new c)"
            using l(2) by (cases r) (auto simp: load_spec_def)
          obtain y where y: "lo_xl st GLOBAL = Some y"
            using eff(4) by auto
          have y0: "xl_num_loc y = 0"
            using num_keptD [OF eff(1) y] sls_okD(3) [OF ok] by (auto simp: no_numeric_def)
          obtain st' where st': "after_load c GLOBAL st = Some st'" "linv {} H st'" "num_kept st st'"
            "names_kept (insert GLOBAL {}) st st'" "lo_path st' = lo_path st"
            by (rule after_load_ok [OF inv1 y, of "{}" c]) (use that in simp_all)
          let ?s = "s\<lparr>sl_locs := st', sl_cur := (sl_cur s)(c := new c)\<rparr>"
          have r: "loadlocale E new c s = Some (None, ?s)"
            unfolding run using ne l(1) st'(1) False by (cases r) auto
          have e: "locale_encoding st' GLOBAL d = locale_encoding st GLOBAL d" for d
            using st'(4) y by (simp add: names_kept_def)
          have "agree ?s"
            using sls_okD(2) [OF ok] enc eff(5) by (auto simp: agree_def e)
          moreover have "no_numeric ?s"
            using num_keptD [OF st'(3)] y y0 by (fastforce simp: no_numeric_def)
          ultimately have "sls_ok H ?s"
            using st'(2) by (simp add: sls_ok_def)
          then show ?thesis
            by (intro that [OF r]) (use st'(5) eff(3) in simp_all)
        qed
      qed
    qed
  qed
qed

text \<open>Putting back always ends with the names of before, or with the C locale.\<close>

lemma restore_ok:
  assumes "sls_ok H s" "lc_env_ok E" "lo_path (sl_locs s) \<noteq> None" "distinct cs"
  shows "\<exists>s'. restore E saved cs s = Some s' \<and> sls_ok H s' \<and> sl_buf s' = sl_buf s \<and>
    (\<forall>c. if c \<in> set cs then sl_cur s' c = saved c \<or> sl_cur s' c = ''C'' else sl_cur s' c = sl_cur s c)"
  using assms
proof (induction cs arbitrary: s)
  case (Cons c cs)
  obtain r s1 where s1: "loadlocale E saved c s = Some (r, s1)" "sls_ok H s1" "sl_buf s1 = sl_buf s"
    "r = None \<Longrightarrow> sl_cur s1 = (sl_cur s)(c := saved c) \<and> lo_path (sl_locs s1) \<noteq> None" "r \<noteq> None \<Longrightarrow> sl_cur s1 = sl_cur s"
    "lo_path (sl_locs s1) \<noteq> None"
    by (rule loadlocale_ok [OF Cons.prems(1,2), of saved c]) (use Cons.prems(3) in auto)
  have "\<exists>s2. (case r of None \<Rightarrow> Some s1 | Some e \<Rightarrow> map_option snd (loadlocale E (\<lambda>_. ''C'') c s1)) = Some s2 \<and>
      sls_ok H s2 \<and> sl_buf s2 = sl_buf s \<and> lo_path (sl_locs s2) \<noteq> None \<and>
      (sl_cur s2 = (sl_cur s)(c := saved c) \<or> sl_cur s2 = (sl_cur s)(c := ''C''))"
  proof (cases r)
    case None
    then show ?thesis
      using s1 by simp
  next
    case (Some e)
    obtain r2 s2 where s2: "loadlocale E (\<lambda>_. ''C'') c s1 = Some (r2, s2)" "sls_ok H s2" "sl_buf s2 = sl_buf s1"
      "r2 = None \<Longrightarrow> sl_cur s2 = (sl_cur s1)(c := ''C'') \<and> lo_path (sl_locs s2) \<noteq> None" "r2 = None"
      by (rule loadlocale_ok [OF s1(2) Cons.prems(2), of "\<lambda>_. ''C''" c]) (use s1(6) in \<open>auto simp: is_c_name_def\<close>)
    then show ?thesis
      using Some s1(3,5) by auto
  qed
  then obtain s2 where s2: "(case r of None \<Rightarrow> Some s1 | Some e \<Rightarrow> map_option snd (loadlocale E (\<lambda>_. ''C'') c s1)) = Some s2"
      "sls_ok H s2" "sl_buf s2 = sl_buf s" "lo_path (sl_locs s2) \<noteq> None"
      "sl_cur s2 = (sl_cur s)(c := saved c) \<or> sl_cur s2 = (sl_cur s)(c := ''C'')"
    by blast
  obtain s' where s': "restore E saved cs s2 = Some s'" "sls_ok H s'" "sl_buf s' = sl_buf s2"
    "\<forall>d. if d \<in> set cs then sl_cur s' d = saved d \<or> sl_cur s' d = ''C'' else sl_cur s' d = sl_cur s2 d"
    using Cons.IH [OF s2(2) Cons.prems(2) s2(4)] Cons.prems(4) by auto
  have "restore E saved (c # cs) s = Some s'"
    using s1(1) s2(1) s'(1) by simp
  moreover have "if d \<in> set (c # cs) then sl_cur s' d = saved d \<or> sl_cur s' d = ''C'' else sl_cur s' d = sl_cur s d" for d
    using s'(4) [rule_format, of d] s2(5) Cons.prems(4) by (cases "d = c") (auto split: if_splits)
  ultimately show ?case
    using s'(2,3) s2(3) by auto
qed simp

lemma load_all_ok:
  assumes "sls_ok H s" "lc_env_ok E" "before = [] \<or> lo_path (sl_locs s) \<noteq> None" "distinct (before @ cs)"
    "\<And>c. c \<in> set before \<Longrightarrow> saved c = old c" "\<And>c. c \<notin> set before \<Longrightarrow> sl_cur s c = old c" "\<And>c. c \<in> set before \<Longrightarrow> sl_cur s c = new c"
  shows "\<exists>r s'. load_all E new saved before cs s = Some (r, s') \<and> sls_ok H s' \<and> sl_buf s' = sl_buf s \<and>
    (r = None \<longrightarrow> (\<forall>c. sl_cur s' c = (if c \<in> set before \<union> set cs then new c else old c))) \<and>
    (r \<noteq> None \<longrightarrow> (\<forall>c. sl_cur s' c = old c \<or> sl_cur s' c = ''C''))"
  using assms
proof (induction cs arbitrary: s before saved)
  case (Cons c cs)
  obtain r s1 where s1: "loadlocale E new c s = Some (r, s1)" "sls_ok H s1" "sl_buf s1 = sl_buf s"
    "r = None \<Longrightarrow> sl_cur s1 = (sl_cur s)(c := new c) \<and> lo_path (sl_locs s1) \<noteq> None" "r \<noteq> None \<Longrightarrow> sl_cur s1 = sl_cur s"
    "lo_path (sl_locs s) \<noteq> None \<Longrightarrow> lo_path (sl_locs s1) \<noteq> None"
    by (rule loadlocale_ok [OF Cons.prems(1,2)]) (rule that)
  let ?saved = "saved(c := sl_cur s c)"
  show ?case
  proof (cases r)
    case None
    have "\<exists>r s'. load_all E new ?saved (before @ [c]) cs s1 = Some (r, s') \<and> sls_ok H s' \<and> sl_buf s' = sl_buf s1 \<and>
      (r = None \<longrightarrow> (\<forall>d. sl_cur s' d = (if d \<in> set (before @ [c]) \<union> set cs then new d else old d))) \<and>
      (r \<noteq> None \<longrightarrow> (\<forall>d. sl_cur s' d = old d \<or> sl_cur s' d = ''C''))"
      by (rule Cons.IH) (use s1 None Cons.prems in auto)
    then show ?thesis
      using s1(1,3) None by auto
  next
    case (Some e)
    have "\<exists>s'. restore E ?saved before s1 = Some s' \<and> sls_ok H s' \<and> sl_buf s' = sl_buf s1 \<and>
      (\<forall>d. if d \<in> set before then sl_cur s' d = ?saved d \<or> sl_cur s' d = ''C'' else sl_cur s' d = sl_cur s1 d)"
    proof (cases "before = []")
      case False
      show ?thesis
        by (rule restore_ok) (use s1(2,6) Cons.prems False in auto)
    qed (use s1(2) in simp)
    then obtain s' where s': "restore E ?saved before s1 = Some s'" "sls_ok H s'" "sl_buf s' = sl_buf s1"
      "\<forall>d. if d \<in> set before then sl_cur s' d = ?saved d \<or> sl_cur s' d = ''C'' else sl_cur s' d = sl_cur s1 d"
      by blast
    have run: "load_all E new saved before (c # cs) s = Some (Some e, s')"
      using s1(1) Some s'(1) by (simp add: Let_def)
    have "sl_cur s' d = old d \<or> sl_cur s' d = ''C''" for d
      using s'(4) [rule_format, of d] s1(5) Some Cons.prems(4,5,6) by (auto split: if_splits)
    with run s'(2,3) s1(3) show ?thesis
      by simp
  qed
qed auto

lemma set_set_order [simp]: "set set_order = UNIV" "distinct set_order"
  by (auto simp: set_order_def UNIV_cat)

section \<open>Setting\<close>

lemma release_null [simp]: "xl_release_loc n 0 st = Some (False, st)"
  by (subst xl_release_loc.simps) simp

lemma currentlocale_ok:
  assumes "sl_buf s \<or> le_mem E"
  shows "currentlocale E s = (Inr (currentlocale_string (sl_cur s)), s\<lparr>sl_buf := True\<rparr>)"
  using assms by (auto simp: currentlocale_def)

lemma sls_ok_buf [simp]: "sls_ok H (s\<lparr>sl_buf := b\<rparr>) = sls_ok H s"
  by (simp add: sls_ok_def agree_def no_numeric_def)

text \<open>The choice for numbers that is put back in the end.\<close>

lemma set_fp_ok:
  assumes ok: "sls_ok H s" and fp: "f \<noteq> FP_USE_LOCALE"
  shows "sls_ok H (s\<lparr>sl_locs := upd_loc GLOBAL (\<lambda>x. x\<lparr>xl_fp := f, xl_num_loc := 0\<rparr>) (sl_locs s)\<rparr>)"
proof -
  let ?st = "sl_locs s"
  let ?f = "\<lambda>x. x\<lparr>xl_fp := f\<rparr>"
  note inv = sls_okD(1) [OF ok]
  obtain g where g: "lo_xl ?st GLOBAL = Some g"
    using linvD(7) [OF inv] by blast
  have g0: "xl_num_loc g = 0"
    using sls_okD(3) [OF ok] g by (simp add: no_numeric_def)
  then have "g\<lparr>xl_fp := f, xl_num_loc := 0\<rparr> = ?f g"
    by (cases g) simp
  then have eq: "upd_loc GLOBAL (\<lambda>x. x\<lparr>xl_fp := f, xl_num_loc := 0\<rparr>) ?st = upd_loc GLOBAL ?f ?st"
    using g by (simp add: upd_loc_def)
  have refs: "numrefs (upd_loc GLOBAL ?f ?st) p = numrefs ?st p" for p
    by (rule numrefs_same) simp
  have "linv {} H (upd_loc GLOBAL ?f ?st)"
  proof (rule linv_upd [OF inv g])
    show "\<not> xl_perm g \<Longrightarrow> GLOBAL \<notin> {} \<Longrightarrow> 0 < xl_rc (?f g)"
      using linvD(12) [OF inv g] by simp
    show "\<And>m. 0 < H m \<Longrightarrow> m \<notin> {} \<and> (\<exists>y. lo_xl ?st m = Some y \<and> \<not> xl_perm y)"
      by (rule linvD(14) [OF inv])
  qed (use refs g0 fp in \<open>simp_all del: upd_loc_simps\<close>)
  moreover have "locale_encoding (upd_loc GLOBAL ?f ?st) GLOBAL c = locale_encoding ?st GLOBAL c" for c
    using g by (simp add: locale_encoding_def)
  then have "agree (s\<lparr>sl_locs := upd_loc GLOBAL ?f ?st\<rparr>)"
    using sls_okD(2) [OF ok] by (simp add: agree_def)
  moreover have "no_numeric (s\<lparr>sl_locs := upd_loc GLOBAL ?f ?st\<rparr>)"
    using g g0 by (simp add: no_numeric_def)
  ultimately show ?thesis
    unfolding eq by (simp add: sls_ok_def)
qed

lemma set_all_ok:
  assumes ok: "sls_ok H s" and E: "lc_env_ok E" and buf: "sl_buf s \<or> le_mem E"
  shows "\<exists>r s'. set_all E new s = Some (r, s') \<and> sls_ok H s' \<and>
    (case r of Inr t \<Rightarrow> sl_cur s' = new \<and> t = currentlocale_string new
     | Inl e \<Rightarrow> \<forall>c. sl_cur s' c = sl_cur s c \<or> sl_cur s' c = ''C'')"
proof -
  obtain g where g: "lo_xl (sl_locs s) GLOBAL = Some g"
    using linvD(7) [OF sls_okD(1) [OF ok]] by blast
  have g0: "xl_num_loc g = 0"
    using sls_okD(3) [OF ok] g by (simp add: no_numeric_def)
  have fp: "xl_fp g \<noteq> FP_USE_LOCALE"
    using linvD(10) [OF sls_okD(1) [OF ok] g] g0 by simp
  have s: "s\<lparr>sl_locs := sl_locs s\<rparr> = s"
    by simp
  obtain r s' where r: "load_all E new (\<lambda>_. ''C'') [] set_order s = Some (r, s')" "sls_ok H s'" "sl_buf s' = sl_buf s"
    "r = None \<longrightarrow> (\<forall>c. sl_cur s' c = (if c \<in> set [] \<union> set set_order then new c else sl_cur s c))"
    "r \<noteq> None \<longrightarrow> (\<forall>c. sl_cur s' c = sl_cur s c \<or> sl_cur s' c = ''C'')"
    using load_all_ok [OF ok E, of "[]" set_order "\<lambda>_. ''C''" "sl_cur s" new] by auto
  show ?thesis
  proof (cases r)
    case None
    then have cur: "sl_cur s' = new"
      using r(4) by (intro ext) simp
    have "set_all E new s = Some (currentlocale E s')"
      using g g0 r(1) None by (simp add: set_all_def xl_retain_loc_def)
    moreover have "sl_buf s' \<or> le_mem E"
      using r(3) buf by simp
    ultimately show ?thesis
      using currentlocale_ok [of s' E] r(2) cur by simp
  next
    case (Some e)
    let ?s = "s'\<lparr>sl_locs := upd_loc GLOBAL (\<lambda>x. x\<lparr>xl_fp := xl_fp g, xl_num_loc := 0\<rparr>) (sl_locs s')\<rparr>"
    have "set_all E new s = Some (Inl e, ?s)"
      using g g0 r(1) Some by (simp add: set_all_def xl_retain_loc_def)
    then show ?thesis
      using set_fp_ok [OF r(2) fp] r(5) Some by auto
  qed
qed


lemma sls_init_ok: "sls_ok (\<lambda>_. 0) sls_init"
proof -
  have "locale_encoding locs_init GLOBAL c = Some ''C''" for c
    by (simp add: locale_encoding_def locs_init_def c_locale_init_def default_rune_def)
  then show ?thesis
    using linv_init by (simp add: sls_ok_def agree_def no_numeric_def sls_init_def)
      (simp add: locs_init_def c_locale_init_def)
qed


section \<open>Putting back a locale for numbers\<close>

text \<open>
  The global locale with a numeric table from the file \<open>xx\<close>, after a wide conversion of a number:
  it holds a second locale, whose character types are those of \<open>xx\<close>.
\<close>

definition held_global :: xlocale where
  "held_global = c_locale_init\<lparr>xl_using := (\<lambda>_. False)(NUMERIC := True),
          xl_part := (xl_part c_locale_init)(NUMERIC := 5), xl_fp := FP_USE_LOCALE, xl_num_loc := 3\<rparr>"

definition held_inner :: xlocale where
  "held_inner = c_locale_init\<lparr>xl_rc := 1, xl_perm := False, xl_part := (xl_part c_locale_init)(CTYPE := 6)\<rparr>"

definition numeric_held :: sls where
  "numeric_held = \<lparr>sl_locs = locs_init
     \<lparr>lo_parts := [DEFAULT_RUNE \<mapsto> default_rune,
        5 \<mapsto> \<lparr>pt_cat = NUMERIC, pt_rc = 2, pt_perm = False, pt_name = ''xx'', pt_data = Fields []\<rparr>,
        6 \<mapsto> \<lparr>pt_cat = CTYPE, pt_rc = 2, pt_perm = False, pt_name = ''xx'', pt_data = pt_data default_rune\<rparr>],
      lo_cache := (\<lambda>_. 0)(NUMERIC := 5, CTYPE := 6),
      lo_xl := [GLOBAL \<mapsto> held_global,
        C_LOCALE \<mapsto> c_locale_init,
        3 \<mapsto> held_inner],
      lo_path := Some ''/locale''\<rparr>,
     sl_cur = (\<lambda>_. ''C'')(NUMERIC := ''xx''), sl_buf = False\<rparr>"

lemma numeric_held_fields:
  "lo_parts (sl_locs numeric_held) p =
     (if p = 6 then Some \<lparr>pt_cat = CTYPE, pt_rc = 2, pt_perm = False, pt_name = ''xx'', pt_data = pt_data default_rune\<rparr>
      else if p = 5 then Some \<lparr>pt_cat = NUMERIC, pt_rc = 2, pt_perm = False, pt_name = ''xx'', pt_data = Fields []\<rparr>
      else if p = 1 then Some default_rune else None)"
  "lo_xl (sl_locs numeric_held) l =
     (if l = 3 then Some held_inner
      else if l = 2 then Some c_locale_init
      else if l = 1 then Some held_global else None)"
  "lo_cache (sl_locs numeric_held) c = (if c = CTYPE then 6 else if c = NUMERIC then 5 else 0)"
  "lo_thread (sl_locs numeric_held) = 0" "lo_current (sl_locs numeric_held) = 1"
  "lo_path (sl_locs numeric_held) = Some ''/locale''" "sl_cur numeric_held c = (if c = NUMERIC then ''xx'' else ''C'')"
  by (simp_all add: numeric_held_def locs_init_def GLOBAL_def C_LOCALE_def DEFAULT_RUNE_def)

lemma c_locale_init_fields [simp]:
  "xl_part c_locale_init c = (if c = CTYPE then 1 else 0)" "xl_num_loc c_locale_init = 0" "xl_fp c_locale_init = FP_UNINITIALIZED"
  "xl_perm c_locale_init" "xl_using c_locale_init c = False"
  by (simp_all add: c_locale_init_def DEFAULT_RUNE_def)

lemma held_fields [simp]:
  "xl_part held_global c = (if c = CTYPE then 1 else if c = NUMERIC then 5 else 0)" "xl_using held_global c \<longleftrightarrow> c = NUMERIC"
  "xl_num_loc held_global = 3" "xl_fp held_global = FP_USE_LOCALE" "xl_perm held_global"
  "xl_part held_inner c = (if c = CTYPE then 6 else 0)" "\<not> xl_using held_inner c" "xl_num_loc held_inner = 0"
  "xl_fp held_inner = FP_UNINITIALIZED" "\<not> xl_perm held_inner" "xl_rc held_inner = 1"
  by (simp_all add: held_global_def held_inner_def)

lemma default_rune_fields [simp]: "pt_perm default_rune" "pt_cat default_rune = CTYPE" "pt_name default_rune = ''C''"
  by (simp_all add: default_rune_def)

lemma numeric_held_slots:
  "ptr_val (sl_locs numeric_held) s =
     (case s of SLoc l c \<Rightarrow> (if c = CTYPE then (if l = 3 then 6 else if l = 1 \<or> l = 2 then 1 else 0)
         else if l = 1 \<and> c = NUMERIC then 5 else 0)
      | SCache c \<Rightarrow> (if c = CTYPE then 6 else if c = NUMERIC then 5 else 0))"
  by (cases s) (simp_all add: numeric_held_fields)

lemma numeric_held_refs:
  "refs (sl_locs numeric_held) 5 = {SLoc 1 NUMERIC, SCache NUMERIC}"
  "refs (sl_locs numeric_held) 6 = {SLoc 3 CTYPE, SCache CTYPE}"
proof -
  have "s \<in> refs (sl_locs numeric_held) 5 \<longleftrightarrow> s \<in> {SLoc 1 NUMERIC, SCache NUMERIC}"
    "s \<in> refs (sl_locs numeric_held) 6 \<longleftrightarrow> s \<in> {SLoc 3 CTYPE, SCache CTYPE}" for s
    by (cases s; simp add: refs_def numeric_held_slots del: ptr_val.simps)+
  then show "refs (sl_locs numeric_held) 5 = {SLoc 1 NUMERIC, SCache NUMERIC}"
    "refs (sl_locs numeric_held) 6 = {SLoc 3 CTYPE, SCache CTYPE}"
    by blast+
qed

lemma numeric_held_balanced: "balanced (sl_locs numeric_held)"
proof (rule countsI)
  have "dom (lo_xl (sl_locs numeric_held)) \<subseteq> {1, 2, 3}"
    by (auto simp: numeric_held_fields split: if_splits)
  then show "finite (dom (lo_xl (sl_locs numeric_held)))"
    by (rule finite_subset) simp
next
  fix s assume "ptr_val (sl_locs numeric_held) s \<noteq> 0"
  then show "\<exists>x. lo_parts (sl_locs numeric_held) (ptr_val (sl_locs numeric_held) s) = Some x \<and> pt_cat x = slot_cat s"
    by (cases s) (auto simp: numeric_held_slots numeric_held_fields simp del: ptr_val.simps split: if_splits)
next
  fix p x assume "lo_parts (sl_locs numeric_held) p = Some x" "\<not> pt_perm x"
  then have "p = 5 \<and> pt_rc x = 2 \<or> p = 6 \<and> pt_rc x = 2"
    by (auto simp: numeric_held_fields split: if_splits)
  then show "pt_rc x = int (card (refs (sl_locs numeric_held) p)) + 0" "0 < pt_rc x"
    by (auto simp: numeric_held_refs)
qed (simp add: numeric_held_fields)

lemma numeric_held_linv: "linv {} (\<lambda>_. 0) (sl_locs numeric_held)"
proof (rule linvI [OF numeric_held_balanced])
  have num: "numrefs (sl_locs numeric_held) 3 = {1}"
    by (auto simp: numrefs_def numeric_held_fields split: if_splits)
  fix l x assume "lo_xl (sl_locs numeric_held) l = Some x"
  then consider "l = 1" "x = the (lo_xl (sl_locs numeric_held) 1)" | "l = 2" "x = the (lo_xl (sl_locs numeric_held) 2)"
    | "l = 3" "x = the (lo_xl (sl_locs numeric_held) 3)"
    by (auto simp: numeric_held_fields split: if_splits)
  note l = this
  show "xl_perm x \<longleftrightarrow> l = GLOBAL \<or> l = C_LOCALE"
    using l by cases (simp_all add: numeric_held_fields GLOBAL_def C_LOCALE_def)
  show "tables_match x \<and> (xl_fp x = FP_USE_LOCALE \<longleftrightarrow> xl_num_loc x \<noteq> 0)"
    using l by cases (simp_all add: numeric_held_fields tables_match_def)
  show "xl_num_loc x \<notin> {} \<and> (\<exists>i. lo_xl (sl_locs numeric_held) (xl_num_loc x) = Some i \<and> \<not> xl_perm i \<and> xl_num_loc i = 0)"
    if "xl_num_loc x \<noteq> 0"
    using l by cases (use that in \<open>simp_all add: numeric_held_fields\<close>)
  show "xl_rc x = int (card (numrefs (sl_locs numeric_held) l)) + (if lo_thread (sl_locs numeric_held) = l then 1 else 0) + int 0 \<and> 0 < xl_rc x"
    if "\<not> xl_perm x"
    using l by cases (use that num in \<open>simp_all add: numeric_held_fields\<close>)
qed (simp_all add: numeric_held_fields GLOBAL_def C_LOCALE_def DEFAULT_RUNE_def)

lemma numeric_held_agree: "agree numeric_held"
proof -
  have "locale_encoding (sl_locs numeric_held) GLOBAL c = Some (if is_c_name (sl_cur numeric_held c) then ''C'' else sl_cur numeric_held c)" for c
    by (cases c) (simp_all add: numeric_held_fields locale_encoding_def is_c_name_def GLOBAL_def)
  then show ?thesis
    by (simp add: agree_def)
qed

text \<open>Loading what is in use changes nothing.\<close>

lemma loadlocale_same:
  assumes "new c = sl_cur s c" "new c \<noteq> ''.''" "new c \<noteq> ''..''" "CHR ''/'' \<notin> set (new c)" "lo_path (sl_locs s) = Some p"
  shows "loadlocale E new c s = Some (None, s)"
  using assms by (simp add: loadlocale_def detect_path_locale_def)

definition dangling_names :: "cat \<Rightarrow> string" where
  "dangling_names c = (if c = TIME \<or> c = MESSAGES then ''zz'' else ''C'')"

lemma dangling_new_names: "new_names system_one None ''C/C/C/C/zz'' cur = Inr dangling_names"
proof -
  have "dangling_names = (\<lambda>d. if d = MESSAGES then ''zz'' else (cur(COLLATE := ''C'', CTYPE := ''C'', MONETARY := ''C'', NUMERIC := ''C'', TIME := ''zz'')) d)"
  proof
    show "dangling_names d = (if d = MESSAGES then ''zz'' else (cur(COLLATE := ''C'', CTYPE := ''C'', MONETARY := ''C'', NUMERIC := ''C'', TIME := ''zz'')) d)" for d
      by (cases d) (simp_all add: dangling_names_def)
  qed
  then show ?thesis
    by (simp add: new_names_def name_list_def set_order_def ENCODING_LEN_def Let_def)
qed

text \<open>The numeric table is dropped for the C locale, and comes back from the cache.\<close>

lemma drop_numeric:
  assumes "lo_xl st GLOBAL = Some g" "xl_using g NUMERIC" "xl_part g NUMERIC = p" "p \<noteq> 0"
    "lo_parts st p = Some y" "\<not> pt_perm y" "pt_rc y \<noteq> 1"
  obtains g' st' where "load_category NUMERIC E ''C'' GLOBAL st = Some (LDP_CACHE, st')"
    "lo_xl st' = (lo_xl st)(GLOBAL \<mapsto> g')" "xl_num_loc g' = xl_num_loc g" "xl_part g' NUMERIC = 0" "\<not> xl_using g' NUMERIC"
    "lo_parts st' = (lo_parts st)(p \<mapsto> y\<lparr>pt_rc := pt_rc y - 1\<rparr>)" "lo_cache st' = lo_cache st" "lo_path st' = lo_path st"
proof -
  let ?u = "set_using GLOBAL NUMERIC False st"
  let ?r = "set_part p (Some (y\<lparr>pt_rc := pt_rc y - 1\<rparr>)) ?u"
  let ?s = "upd_loc GLOBAL (\<lambda>loc. loc\<lparr>xl_nlocale_changed := True\<rparr>) (set_ptr (SLoc GLOBAL NUMERIC) 0 ?r)"
  let ?g = "g\<lparr>xl_using := (xl_using g)(NUMERIC := False), xl_part := (xl_part g)(NUMERIC := 0), xl_nlocale_changed := True\<rparr>"
  have u: "lo_xl ?u = (lo_xl st)(GLOBAL \<mapsto> g\<lparr>xl_using := (xl_using g)(NUMERIC := False)\<rparr>)"
    using assms(1) by (simp add: lo_xl_set_using)
  have "xl_release (SLoc GLOBAL NUMERIC) ?u = Some ?r"
    using u assms(3-7) by (simp add: xl_release_def)
  then have "use_none GLOBAL NUMERIC 0 ?u = Some (set_ptr (SLoc GLOBAL NUMERIC) 0 ?r)"
    by (simp add: use_none_def)
  then have run: "load_category NUMERIC E ''C'' GLOBAL st = Some (LDP_CACHE, ?s)"
    using assms(1,2) by (simp add: load_category_def numeric_load_locale_def ldpart_load_def is_c_name_def)
  show ?thesis
    by (rule that [OF run, of ?g]) (use u in \<open>simp_all add: set_ptr.simps set_part_def\<close>)
qed

lemma reload_numeric:
  assumes "lo_xl st GLOBAL = Some g" "\<not> xl_using g NUMERIC" "xl_part g NUMERIC = 0"
    "lo_cache st NUMERIC = p" "p \<noteq> 0" "lo_parts st p = Some y" "\<not> pt_perm y" "\<not> is_c_name (pt_name y)"
  obtains g' st' where "load_category NUMERIC E (pt_name y) GLOBAL st = Some (LDP_CACHE, st')"
    "lo_xl st' = (lo_xl st)(GLOBAL \<mapsto> g')" "xl_num_loc g' = xl_num_loc g"
    "lo_parts st' = (lo_parts st)(p \<mapsto> y\<lparr>pt_rc := pt_rc y + 1\<rparr>)" "lo_path st' = lo_path st"
proof -
  let ?u = "set_using GLOBAL NUMERIC True st"
  let ?r = "set_ptr (SLoc GLOBAL NUMERIC) p ?u"
  let ?s = "upd_loc GLOBAL (\<lambda>loc. loc\<lparr>xl_nlocale_changed := True\<rparr>) (set_part p (Some (y\<lparr>pt_rc := pt_rc y + 1\<rparr>)) ?r)"
  let ?g = "g\<lparr>xl_using := (xl_using g)(NUMERIC := True), xl_part := (xl_part g)(NUMERIC := p), xl_nlocale_changed := True\<rparr>"
  have u: "lo_xl ?u = (lo_xl st)(GLOBAL \<mapsto> g\<lparr>xl_using := (xl_using g)(NUMERIC := True)\<rparr>)"
    using assms(1) by (simp add: lo_xl_set_using)
  then have "use_cache GLOBAL NUMERIC ?u = Some (set_part p (Some (y\<lparr>pt_rc := pt_rc y + 1\<rparr>)) ?r)"
    using assms(3-7) by (simp add: use_cache_def xl_release_def xl_retain_def set_ptr.simps)
  then have run: "load_category NUMERIC E (pt_name y) GLOBAL st = Some (LDP_CACHE, ?s)"
    using assms(1,2,4-8) by (simp add: load_category_def numeric_load_locale_def ldpart_load_def cache_named_def part_named_def)
  show ?thesis
    by (rule that [OF run, of ?g]) (use u in \<open>simp_all add: set_ptr.simps set_part_def\<close>)
qed

text \<open>The last reference to a locale whose only table is one of character types.\<close>

lemma release_last:
  assumes "lo_xl st l = Some x" "l \<noteq> 0" "\<not> xl_perm x" "xl_rc x = 1" "xl_num_loc x = 0"
    "\<And>c. c \<noteq> CTYPE \<Longrightarrow> xl_part x c = 0" "lo_parts st (xl_part x CTYPE) = Some y" "\<not> pt_perm y" "pt_rc y \<noteq> 1" "xl_part x CTYPE \<noteq> 0"
  obtains st' where "xl_release_loc NESTING l st = Some (True, st')" "lo_xl st' = (lo_xl st)(l := None)"
proof -
  have n: "NESTING = Suc 1"
    by (simp add: NESTING_def)
  have "\<exists>st'. xl_release_loc NESTING l st = Some (True, st') \<and> lo_xl st' = (lo_xl st)(l := None)"
    unfolding n
    by (subst xl_release_loc.simps)
      (use assms in \<open>simp add: use_none_def xl_release_def set_ptr.simps set_part_def\<close>)
  then show ?thesis
    using that by blast
qed

lemma after_numeric:
  assumes "lo_xl st GLOBAL = Some g" "xl_num_loc g = p" "p \<noteq> 0 \<Longrightarrow> p \<noteq> GLOBAL \<and> lo_xl st p = Some i \<and> \<not> xl_perm i \<and> xl_rc i = 2"
  obtains g' st' where "after_load NUMERIC GLOBAL st = Some st'" "xl_num_loc g' = 0" "xl_using g' = xl_using g" "xl_part g' = xl_part g"
    "lo_xl st' = (let m = (lo_xl st)(GLOBAL \<mapsto> g') in if p = 0 then m else m(p \<mapsto> i\<lparr>xl_rc := 1\<rparr>))"
    "lo_parts st' = lo_parts st" "lo_cache st' = lo_cache st" "lo_path st' = lo_path st"
proof (cases "p = 0")
  case True
  then show ?thesis
    using assms(1,2) by (intro that [of "upd_loc GLOBAL (\<lambda>x. x\<lparr>xl_fp := FP_UNINITIALIZED, xl_num_loc := 0\<rparr>) st" "g\<lparr>xl_fp := FP_UNINITIALIZED, xl_num_loc := 0\<rparr>"]) (simp_all add: after_load_def)
next
  case False
  note i = assms(3) [OF False]
  have "xl_release_loc NESTING p s = Some (False, upd_loc p (\<lambda>x. x\<lparr>xl_rc := xl_rc x - 1\<rparr>) s)" if "lo_xl s p = Some i" for s
    using that False i by (subst xl_release_loc.simps) simp
  with False i show ?thesis
    using assms(1,2)
    by (intro that [of "upd_loc p (\<lambda>x. x\<lparr>xl_rc := xl_rc x - 1\<rparr>) (upd_loc GLOBAL (\<lambda>x. x\<lparr>xl_fp := FP_UNINITIALIZED, xl_num_loc := 0\<rparr>) st)"
          "g\<lparr>xl_fp := FP_UNINITIALIZED, xl_num_loc := 0\<rparr>"]) (simp_all add: after_load_def Let_def)
qed

text \<open>What is left after the numeric table was dropped, \<open>zz\<close> was not found, and the table put back.\<close>

text \<open>
  The numeric table is dropped, and with it one of the two references to the second locale;
  then \<open>zz\<close> is not found, and the numeric table is put back.
\<close>

definition held_retained :: sls where
  "held_retained = numeric_held\<lparr>sl_locs := upd_loc 3 (\<lambda>x. x\<lparr>xl_rc := xl_rc x + 1\<rparr>) (sl_locs numeric_held)\<rparr>"

lemma held_retained_fields:
  "lo_xl (sl_locs held_retained) GLOBAL = Some held_global" "lo_xl (sl_locs held_retained) 3 = Some (held_inner\<lparr>xl_rc := 2\<rparr>)"
  "lo_parts (sl_locs held_retained) = lo_parts (sl_locs numeric_held)" "lo_cache (sl_locs held_retained) = lo_cache (sl_locs numeric_held)"
  "lo_path (sl_locs held_retained) = Some ''/locale''" "sl_cur held_retained c = (if c = NUMERIC then ''xx'' else ''C'')"
  by (simp_all add: held_retained_def numeric_held_fields GLOBAL_def)

lemma dangling_numeric:
  obtains s g where "loadlocale system_one dangling_names NUMERIC held_retained = Some (None, s)"
    "lo_xl (sl_locs s) GLOBAL = Some g" "xl_num_loc g = 0" "xl_part g NUMERIC = 0" "\<not> xl_using g NUMERIC"
    "lo_xl (sl_locs s) 3 = Some (held_inner\<lparr>xl_rc := 1\<rparr>)"
    "lo_parts (sl_locs s) 5 = Some \<lparr>pt_cat = NUMERIC, pt_rc = 1, pt_perm = False, pt_name = ''xx'', pt_data = Fields []\<rparr>"
    "lo_parts (sl_locs s) 6 = lo_parts (sl_locs numeric_held) 6" "lo_cache (sl_locs s) = lo_cache (sl_locs numeric_held)"
    "lo_path (sl_locs s) = Some ''/locale''" "sl_cur s = (\<lambda>_. ''C'')"
proof -
  let ?st = "sl_locs held_retained"
  let ?num = "\<lparr>pt_cat = NUMERIC, pt_rc = 2, pt_perm = False, pt_name = ''xx'', pt_data = Fields []\<rparr>"
  have p5: "lo_parts ?st 5 = Some ?num" "xl_using held_global NUMERIC" "xl_part held_global NUMERIC = 5"
    by (simp_all add: held_retained_fields numeric_held_fields)
  obtain g1 st1 where st1: "load_category NUMERIC system_one ''C'' GLOBAL ?st = Some (LDP_CACHE, st1)"
    "lo_xl st1 = (lo_xl ?st)(GLOBAL \<mapsto> g1)" "xl_num_loc g1 = xl_num_loc held_global" "xl_part g1 NUMERIC = 0" "\<not> xl_using g1 NUMERIC"
    "lo_parts st1 = (lo_parts ?st)(5 \<mapsto> ?num\<lparr>pt_rc := pt_rc ?num - 1\<rparr>)" "lo_cache st1 = lo_cache ?st" "lo_path st1 = lo_path ?st"
    by (rule drop_numeric [OF held_retained_fields(1) p5(2,3) _ p5(1)]) simp_all
  have g1: "lo_xl st1 GLOBAL = Some g1" "xl_num_loc g1 = 3"
    using st1(2,3) by simp_all
  have i1: "3 \<noteq> (0::nat) \<Longrightarrow> 3 \<noteq> GLOBAL \<and> lo_xl st1 3 = Some (held_inner\<lparr>xl_rc := 2\<rparr>) \<and> \<not> xl_perm (held_inner\<lparr>xl_rc := 2\<rparr>) \<and>
      xl_rc (held_inner\<lparr>xl_rc := 2\<rparr>) = 2"
    using st1(2) held_retained_fields(2) by (simp add: GLOBAL_def)
  obtain g2 st2 where st2: "after_load NUMERIC GLOBAL st1 = Some st2" "xl_num_loc g2 = 0" "xl_using g2 = xl_using g1" "xl_part g2 = xl_part g1"
    "lo_xl st2 = (let m = (lo_xl st1)(GLOBAL \<mapsto> g2) in if 3 = (0::nat) then m else m(3 \<mapsto> (held_inner\<lparr>xl_rc := 2\<rparr>)\<lparr>xl_rc := 1\<rparr>))"
    "lo_parts st2 = lo_parts st1" "lo_cache st2 = lo_cache st1" "lo_path st2 = lo_path st1"
    by (rule after_numeric [OF g1 i1])
  have xl: "lo_xl st2 GLOBAL = Some g2" "lo_xl st2 3 = Some (held_inner\<lparr>xl_rc := 1\<rparr>)"
    using st2(5) by (simp_all add: GLOBAL_def)
  let ?s = "held_retained\<lparr>sl_locs := st2, sl_cur := (sl_cur held_retained)(NUMERIC := ''C'')\<rparr>"
  show ?thesis
  proof (rule that [of ?s g2])
    show "loadlocale system_one dangling_names NUMERIC held_retained = Some (None, ?s)"
      using st1(1) st2(1) by (simp add: loadlocale_def detect_path_locale_def dangling_names_def held_retained_fields)
    show "sl_cur ?s = (\<lambda>_. ''C'')"
      by (intro ext) (simp add: held_retained_fields)
  qed (use xl st1 st2 in \<open>simp_all add: held_retained_fields numeric_held_fields\<close>)
qed

lemma dangling_rollback:
  obtains s g y where "load_all system_one dangling_names saved [] set_order held_retained = Some (Some ENOMEM, s)"
    "lo_xl (sl_locs s) GLOBAL = Some g" "lo_xl (sl_locs s) 3 = Some (held_inner\<lparr>xl_rc := 1\<rparr>)"
    "lo_parts (sl_locs s) 6 = lo_parts (sl_locs numeric_held) 6"
proof -
  obtain s g where s: "loadlocale system_one dangling_names NUMERIC held_retained = Some (None, s)"
    "lo_xl (sl_locs s) GLOBAL = Some g" "xl_num_loc g = 0" "xl_part g NUMERIC = 0" "\<not> xl_using g NUMERIC"
    "lo_xl (sl_locs s) 3 = Some (held_inner\<lparr>xl_rc := 1\<rparr>)"
    "lo_parts (sl_locs s) 5 = Some \<lparr>pt_cat = NUMERIC, pt_rc = 1, pt_perm = False, pt_name = ''xx'', pt_data = Fields []\<rparr>"
    "lo_parts (sl_locs s) 6 = lo_parts (sl_locs numeric_held) 6" "lo_cache (sl_locs s) = lo_cache (sl_locs numeric_held)"
    "lo_path (sl_locs s) = Some ''/locale''" "sl_cur s = (\<lambda>_. ''C'')"
    by (rule dangling_numeric)
  have same: "loadlocale system_one dangling_names c held_retained = Some (None, held_retained)" if "c \<in> {COLLATE, CTYPE, MONETARY}" for c
    by (rule loadlocale_same [OF _ _ _ _ held_retained_fields(5)]) (use that in \<open>auto simp: held_retained_fields dangling_names_def\<close>)
  have keep: "loadlocale system_one f c s = Some (None, s)" if "f c = ''C''" for f c
    by (rule loadlocale_same [OF _ _ _ _ s(10)]) (use that s(11) in auto)
  have "load_category TIME system_one ''zz'' GLOBAL (sl_locs s) = Some (LDP_ERROR ENOMEM, sl_locs s)"
    using s(2,9) by (simp add: load_category_def time_load_locale_def ldpart_load_def is_c_name_def cache_named_def
        numeric_held_fields system_one_def)
  then have time: "loadlocale system_one dangling_names TIME s = Some (Some ENOMEM, s)"
    using s(10,11) by (simp add: loadlocale_def detect_path_locale_def dangling_names_def)
  obtain g' st' where st': "load_category NUMERIC system_one ''xx'' GLOBAL (sl_locs s) = Some (LDP_CACHE, st')"
    "lo_xl st' = (lo_xl (sl_locs s))(GLOBAL \<mapsto> g')" "xl_num_loc g' = xl_num_loc g" "lo_parts st' 6 = lo_parts (sl_locs s) 6"
    by (rule reload_numeric [OF s(2,5,4) _ _ s(7), of system_one]) (use s(9) that in \<open>simp_all add: numeric_held_fields is_c_name_def\<close>)
  have g': "lo_xl st' GLOBAL = Some g'" "xl_num_loc g' = 0"
    using st'(2,3) s(3) by simp_all
  obtain g2 st2 where st2: "after_load NUMERIC GLOBAL st' = Some st2" "lo_xl st2 = (lo_xl st')(GLOBAL \<mapsto> g2)" "lo_parts st2 = lo_parts st'"
    by (rule after_numeric [OF g', of undefined]) simp_all
  let ?s = "s\<lparr>sl_locs := st2, sl_cur := (sl_cur s)(NUMERIC := ''xx'')\<rparr>"
  have num: "loadlocale system_one f NUMERIC s = Some (None, ?s)" if "f NUMERIC = ''xx''" for f
    using that st'(1) st2(1) s(10,11) by (simp add: loadlocale_def detect_path_locale_def)
  have run: "load_all system_one dangling_names saved [] set_order held_retained = Some (Some ENOMEM, ?s)"
    by (simp add: set_order_def same s(1) time keep num held_retained_fields Let_def)
  show ?thesis
    by (rule that [OF run, of g2]) (use st2(2,3) st'(2,4) s(6,8) in \<open>simp_all add: GLOBAL_def\<close>)
qed


end
