(* ===== verification/Spec2Isabelle.thy ===== *)
theory Spec2Isabelle
  imports Utf8_Correct Single_Byte_Codecs Double_Byte_Codecs Gb_Codecs
    Utf2_Codec Euc_Codec Kxld_Dict_Correct Dict_Store Ni_Cache_File
    Environ Exit_Handlers Asl_Match Asl_Util Kxld_Copyright Set_Locale
begin

text \<open>
  A development beside \<open>libiosfunc\<close>, a collection of the C libraries that make up the user
  level of Darwin. It models seven parts of it that keep state or convert data, each from its
  C file, function by function; a definition has the name of its function, or of the loop or
  the branch of a function that it stands for.

  The encodings of the C library (\<open>src/libSystem/libsystem_c\<close>). A conversion between bytes and
  wide characters can stop in the middle of a character and go on in the next call, from a
  conversion state that the caller keeps.

  \<^item> \<open>C_Prelude\<close>: the integer types of the ABI, \<open>errno\<close>, and the lemmas that decide word goals bit
    by bit.
  \<^item> \<open>Mb_Codec\<close>: what the encodings share: the table of an encoding (\<open>xlocale_private.h\<close>) and the
    string conversions \<open>mbsnrtowcs.c\<close> and \<open>wcsnrtombs.c\<close>, over any conversion of one character.
    The locale \<open>mb_decoder\<close> and those that extend it are the contract of such a conversion.
  \<^item> \<open>Ascii_Fast\<close>: the string conversions with fast paths of \<open>utf8.c\<close> and \<open>utf2.c\<close>, equal to the
    generic ones under a locale that both encodings interpret.
  \<^item> \<open>Utf8_Codec\<close>, \<open>Utf8_Correct\<close>, \<open>Utf2_Codec\<close>, \<open>Single_Byte_Codecs\<close> (\<open>none.c\<close>, \<open>ascii.c\<close>),
    \<open>Double_Byte_Codecs\<close> (\<open>big5.c\<close>, \<open>gbk.c\<close>, \<open>mskanji.c\<close>), \<open>Gb_Codecs\<close> (\<open>gb2312.c\<close>, \<open>gb18030.c\<close>) and
    \<open>Euc_Codec\<close> (\<open>euc.c\<close> with the parser of its configuration): the encodings. The theorems show
    what a decoder accepts, that encoding and decoding are inverse to each other, that a
    conversion that is cut anywhere and taken up again has the result of the whole, that the
    fast paths change nothing, and that no conversion writes past its buffer.

  The locales of the C library (\<open>src/libSystem/libsystem_c\<close>), on top of the encodings.

  \<^item> \<open>Rune_Dispatch\<close> (\<open>setrunelocale.c\<close>): the choice of an encoding by the name in a file; what it
    installs has all of its conversions.
  \<^item> \<open>Locale_Files\<close> (\<open>ldpart.c\<close>, \<open>fix_grouping.c\<close>): the text files of a category, their lines and
    fields; the strings of a numeric file are what a program gets.
  \<^item> \<open>Locale_Parts\<close> (\<open>lnumeric.c\<close>, \<open>lmonetary.c\<close>, \<open>lmessages.c\<close>, \<open>timelocal.c\<close>, \<open>collate.c\<close>,
    \<open>setrunelocale.c\<close>): the tables of a locale with their counts, and the six loaders with their
    caches. The state is the record \<open>locs\<close>, with tables and locales at their addresses; each
    loader is shown to keep \<open>parts_ok\<close> and to change one category of one locale (\<open>load_spec\<close>).
  \<^item> \<open>Locale_Objects\<close> and \<open>Locale_Safety\<close> (\<open>xlocale.c\<close>): making, changing, counting and freeing
    locales. The invariant \<open>linv\<close> says who holds a locale and that all counts are exact, and each
    step keeps it.
  \<^item> \<open>Locale_Calls\<close>: the relation \<open>client\<close> has the states that a program reaches by any calls with
    locales that it may pass; in these no call follows a pointer to freed memory, the counts are
    exact, nothing is left when all is given back, and a new locale has the names asked for.
  \<^item> \<open>Set_Locale\<close> (\<open>setlocale.c\<close>): the names of the six categories, their list in one string, and the
    way back when a category fails; one theorem shows a pointer to freed memory behind it.

  The containers of the kernel extension linker (\<open>src/libSystem/libkxld\<close>).

  \<^item> \<open>Kxld_Array\<close> (\<open>kxld_array.c\<close>): an array whose items lie in pools of bytes; its state is the
    record \<open>karray\<close>. The invariant \<open>array_ok\<close> holds behind every operation, items are found where
    their indices say, and a removal deletes one item. Reaching and using the items is the locale
    \<open>indexed_items\<close>, which \<open>kxld_array_get_item\<close> and \<open>kxld_array_get_index\<close> interpret. A memory copy
    outside the buffers has no value, and one theorem says exactly when that happens.
  \<^item> \<open>Kxld_Dict\<close> and \<open>Kxld_Dict_Correct\<close> (\<open>kxld_dict.c\<close>): a hash table with linear probing on such an
    array; its abstraction is a finite map, the contract of the key functions is the locale
    \<open>dict_keys\<close>, and the three pairs of functions that the file exports interpret it.
  \<^item> \<open>Dict_Store\<close>: the table works on entries, the array on bytes; this theory relates the two, so
    that what is proved of the entries holds of the memory.
  \<^item> \<open>Kxld_Copyright\<close> (\<open>kxld_copyright.c\<close>): the check of a copyright string, equal to one on its tokens,
    with the strings for which it leaves its buffers.

  The host records of the DHCP server (\<open>src/libDHCPServer\<close>).

  \<^item> \<open>Netinfo\<close> (\<open>netinfo.c\<close>, \<open>netinfo.h\<close>): lists of properties, with the loops that shift their
    elements, and the operations that set and look up values.
  \<^item> \<open>Ni_Cache\<close> (\<open>NICache.c\<close>): the cache of property lists, a doubly linked list of nodes in an
    explicit heap. \<open>cache_list\<close> relates the heap to the list of the entries; every operation is
    shown to do its work on that list. The lookups rest on the locale \<open>entry_test\<close>, the contract of
    the test that a lookup applies to each entry, interpreted for the tests of all four.
  \<^item> \<open>Ni_Cache_File\<close>: the parser and the printer of the cache's file, and that what is written can
    be read.

  The environment of a process (\<open>src/libSystem/libsystem_c\<close>).

  \<^item> \<open>Environ\<close> (\<open>getenv.c\<close>, \<open>setenv.c\<close>): the array of variables, and the sorted table of the memory that
    these functions may free or move. Setting and removing variables keeps \<open>proc_ok\<close>, and does what
    \<open>getenv\<close> should see; one lemma shows variables lost behind a failure.

  The exit of a process (\<open>src/libSystem/libsystem_c\<close>).

  \<^item> \<open>Exit_Handlers\<close> (\<open>atexit.c\<close>): the tables of the functions to call, and the walk over them, which
    starts anew when a handler registers others. The relation \<open>exits\<close> says on a stack of handlers
    what it should do, and the walk ends exactly when that does, with the same calls.

  The messages of the system log (\<open>asl_msg.c\<close> and \<open>asl_util.c\<close> in \<open>src/libSystem/libsystem_asl\<close>).

  \<^item> \<open>Asl_Msg\<close>: a message or query is a chain of pages, each with a table of 16-bit words and 220
    bytes of data, in which strings lie in place or as pointers to strings of their own. Setting,
    replacing, removing, finding, fetching, merging and copying entries are modelled down to the bytes,
    the strings outside in a store (\<open>asl_store\<close>) that knows which of them are allocated.
  \<^item> \<open>Asl_Msg_Pages\<close>, \<open>Asl_Msg_Slots\<close> and \<open>Asl_Msg_Correct\<close>: the invariant \<open>wf_msg\<close> (strings and pointers
    in disjoint parts of the data, no external string with two owners, no key twice in a message),
    the contract \<open>slot_step\<close> of an operation on one slot, and the effect of every operation on the
    multiset of the entries.
  \<^item> \<open>Asl_Store\<close>: the locale \<open>entry_store\<close> is what a client relies on; messages interpret it, and the
    theorems say that no operation follows a dangling pointer or leaves the data of a page, and
    that a sequence of calls does what it does to a map.
  \<^item> \<open>Asl_Limits\<close>: what a failed allocation leaves behind, and when the count of the entries goes wrong.
    An uninitialised variable of the code is read from a stream of arbitrary values; the theorems on
    setting keys assume that no such value looks like an external key (\<open>junk_ok\<close>).
  \<^item> \<open>Asl_Iter\<close>: what the loops over the entries visit, and with it copying, merging and replacing.
  \<^item> \<open>Asl_Match\<close>: testing a query against a message, entry by entry, and comparing messages; under the
    documented bits of \<open>asl.h\<close> the tests of strings are equality, prefix, suffix and substring.
  \<^item> \<open>Asl_Util\<close>: the test for UTF-8, which agrees with the decoder of the C library except on
    surrogates, the base-64 encoder with its round trip, and the names of the facilities.

  Results. A function that fails returns the value that it returns in C, beside the new state. An
  access outside of a buffer, through a pointer to no node, or past the end of a list is the
  value \<open>None\<close>, as is a loop that does not end where the code can loop for ever; the theorems
  that claim a result say that it is not \<open>None\<close>. All other loops are total functions. The one
  bound is the recursion of \<open>kxld_dict_insert\<close> through \<open>resize_dict\<close>, which gets as much fuel as
  the table has entries and five more; the theorems on insertion show that this is enough. The
  release of a locale may release the one that it holds for numbers, which holds none, so that
  the depth \<open>NESTING\<close> is two.

  Arguments. Code that is not in the repository, or whose outcome the program does not decide, is
  an argument: the results of allocations, the size of a page, the functions that a user hands
  over, \<open>ether_aton\<close> and \<open>inet_aton\<close>, and whether a file can be opened. Wide characters, bytes
  and hashes have their widths, and their wrap-around is the code's; counts and sizes of the
  containers are natural numbers, which assumes that fewer than \<open>2 ^ 32\<close> items are stored, except
  where the code subtracts.

  Not modelled. The contents of the collation tables and the comparison of strings over them, the
  rune interface above the encodings, formatted output, and the linker proper (its Mach-O
  objects, symbols and relocations) are larger components beside and above these. Threads do not
  run at the same time: the locks of the locales are taken as held for a whole call. Of the system
  log, the forms of a message as a string and as an XPC dictionary are not modelled, and its
  client and the DHCP server's main program mostly exchange messages with other processes; the
  remaining shims call the system.
\<close>

end
